(* ===== verification/Prelude.thy ===== *)
theory Prelude
  imports Main "HOL-Library.Multiset" "HOL-Library.Word"
begin

text \<open>
  Shared vocabulary of the development: the collections of simplification rules the components
  fill, the ordering interface that stands for a user-supplied comparison functor, and generic
  lemmas on lists, multisets, pointer chains and option values.
\<close>

named_theorems tbb_defs \<open>definitions that the component proofs unfold\<close>
named_theorems tbb_inv \<open>invariant preservation facts\<close>

section \<open>Comparison functors\<close>

text \<open>
  \<^verbatim>\<open>std::less\<close> and the other comparison functors the containers take are strict weak orders.
\<close>

locale strict_weak_order =
  fixes lt :: "'a \<Rightarrow> 'a \<Rightarrow> bool"
  assumes irrefl: "\<not> lt x x"
    and trans: "lt x y \<Longrightarrow> lt y z \<Longrightarrow> lt x z"
    and incomp_trans: "\<not> lt x y \<Longrightarrow> \<not> lt y z \<Longrightarrow> \<not> lt x z"
begin

lemma asym: "lt x y \<Longrightarrow> \<not> lt y x"
  using irrefl trans by blast

lemma lt_nlt_trans: "lt x y \<Longrightarrow> \<not> lt z y \<Longrightarrow> lt x z"
  using incomp_trans by blast

lemma nlt_lt_trans: "\<not> lt y x \<Longrightarrow> lt y z \<Longrightarrow> lt x z"
  using incomp_trans by blast

end

text \<open>\<^verbatim>\<open>std::less<T>\<close> on a linearly ordered type, the default of the containers.\<close>

definition std_less :: "'a::linorder \<Rightarrow> 'a \<Rightarrow> bool" where
  "std_less x y \<longleftrightarrow> x < y"

interpretation std_less: strict_weak_order std_less
  by unfold_locales (auto simp: std_less_def)

section \<open>Lists\<close>

lemma nth_list_update_if:
  "i < length xs \<Longrightarrow> xs[i := v] ! j = (if i = j then v else xs ! j)"
  by simp

lemma mset_update_swap:
  assumes "i < length xs" "j < length xs"
  shows "mset (xs[i := xs ! j, j := xs ! i]) = mset xs"
  by (rule mset_swap [OF assms(2) assms(1)])

lemma butlast_take_drop:
  assumes "m \<le> length xs" "xs \<noteq> []"
  shows "m < length xs \<Longrightarrow> take m (butlast xs) = take m xs"
    and "m < length xs \<Longrightarrow> drop m (butlast xs) = butlast (drop m xs)"
  using assms by (simp_all add: take_butlast drop_butlast)

text \<open>How many elements of a list satisfy a predicate, when one is replaced.\<close>

lemma length_filter_update:
  "i < length xs \<Longrightarrow>
    length (filter P (xs[i := v])) + of_bool (P (xs ! i)) = length (filter P xs) + of_bool (P v)"
proof (induction xs arbitrary: i)
  case (Cons x xs)
  then show ?case by (cases i) auto
qed simp

lemma length_filter_pos: "i < length xs \<Longrightarrow> P (xs ! i) \<Longrightarrow> 0 < length (filter P xs)"
  by (metis filter_empty_conv length_greater_0_conv nth_mem)

lemma length_filter_two:
  assumes "i < length xs" "j < length xs" "i \<noteq> j" "P (xs ! i)" "P (xs ! j)"
  shows "2 \<le> length (filter P xs)"
proof -
  have "{i, j} \<subseteq> {k. k < length xs \<and> P (xs ! k)}" using assms by auto
  then have "card {i, j} \<le> card {k. k < length xs \<and> P (xs ! k)}" by (intro card_mono) auto
  then show ?thesis using assms(3) by (simp add: length_filter_conv_card)
qed

section \<open>Pointer chains\<close>

text \<open>The list of nodes behind a pointer.\<close>

fun chain :: "(nat \<Rightarrow> nat option) \<Rightarrow> nat option \<Rightarrow> nat list \<Rightarrow> bool" where
  "chain nx p [] \<longleftrightarrow> p = None"
| "chain nx p (x # xs) \<longleftrightarrow> p = Some x \<and> chain nx (nx x) xs"

lemma chain_update [simp]: "i \<notin> set xs \<Longrightarrow> chain (nx(i := v)) p xs = chain nx p xs"
  by (induction xs arbitrary: p) auto

lemma chain_None [simp]: "chain nx None xs \<longleftrightarrow> xs = []"
  by (cases xs) auto

lemma chain_cong: "(\<And>x. x \<in> set xs \<Longrightarrow> nx x = ny x) \<Longrightarrow> chain nx p xs = chain ny p xs"
  by (induction xs arbitrary: p) auto

lemma chain_unique: "chain nx p xs \<Longrightarrow> chain nx p ys \<Longrightarrow> xs = ys"
proof (induction xs arbitrary: p ys)
  case Nil
  then show ?case by (cases ys) auto
next
  case (Cons x xs)
  then show ?case by (cases ys) auto
qed

text \<open>Following at most \<open>n\<close> pointers, as a loop \<^verbatim>\<open>for( p = head; p; p = p->next )\<close> does.\<close>

fun walk :: "nat \<Rightarrow> (nat \<Rightarrow> nat option) \<Rightarrow> nat option \<Rightarrow> nat list" where
  "walk 0 nx p = []"
| "walk (Suc n) nx None = []"
| "walk (Suc n) nx (Some p) = p # walk n nx (nx p)"

lemma walk_chain: "chain nx p xs \<Longrightarrow> length xs \<le> n \<Longrightarrow> walk n nx p = xs"
proof (induction n arbitrary: p xs)
  case (Suc n)
  then show ?case by (cases xs; cases p) auto
qed auto

section \<open>Maps\<close>

text \<open>
  What a hash table promises, as a map from keys to values. Insertion and deletion may fail with
  \<open>None\<close>: a null pointer would be followed, or an assertion does not hold. A map never fails to
  insert, and fails to delete a key that it does not have.
\<close>

datatype ('k, 'v) map_op = Insert 'k 'v | Delete 'k | Lookup 'k

datatype 'v map_answer = Inserted bool | Deleted | Found "'v option"

fun map_run :: "('s \<Rightarrow> 'k \<Rightarrow> 'v \<Rightarrow> (bool \<times> 's) option) \<Rightarrow> ('s \<Rightarrow> 'k \<Rightarrow> 's option) \<Rightarrow> ('s \<Rightarrow> 'k \<Rightarrow> 'v option)
    \<Rightarrow> ('k, 'v) map_op list \<Rightarrow> 's \<Rightarrow> ('v map_answer list \<times> 's) option" where
  "map_run ins del look [] s = Some ([], s)"
| "map_run ins del look (Insert k v # ops) s =
     (case ins s k v of None \<Rightarrow> None | Some (b, s') \<Rightarrow>
       map_option (\<lambda>(as, t). (Inserted b # as, t)) (map_run ins del look ops s'))"
| "map_run ins del look (Delete k # ops) s =
     (case del s k of None \<Rightarrow> None | Some s' \<Rightarrow>
       map_option (\<lambda>(as, t). (Deleted # as, t)) (map_run ins del look ops s'))"
| "map_run ins del look (Lookup k # ops) s =
     map_option (\<lambda>(as, t). (Found (look s k) # as, t)) (map_run ins del look ops s)"

definition map_insert :: "('k \<rightharpoonup> 'v) \<Rightarrow> 'k \<Rightarrow> 'v \<Rightarrow> (bool \<times> ('k \<rightharpoonup> 'v)) option" where
  "map_insert m k v = Some (m k = None, m(k \<mapsto> v))"

definition map_delete :: "('k \<rightharpoonup> 'v) \<Rightarrow> 'k \<Rightarrow> ('k \<rightharpoonup> 'v) option" where
  "map_delete m k = (if m k = None then None else Some (m(k := None)))"

locale map_interface =
  fixes inv :: "'s \<Rightarrow> bool" and look :: "'s \<Rightarrow> 'k \<Rightarrow> 'v option"
    and ins :: "'s \<Rightarrow> 'k \<Rightarrow> 'v \<Rightarrow> (bool \<times> 's) option" and del :: "'s \<Rightarrow> 'k \<Rightarrow> 's option"
  assumes ins: "inv s \<Longrightarrow> \<exists>s'. ins s k v = Some (look s k = None, s') \<and> inv s' \<and> look s' = (look s)(k \<mapsto> v)"
    and del_absent: "inv s \<Longrightarrow> look s k = None \<Longrightarrow> del s k = None"
    and del: "inv s \<Longrightarrow> look s k \<noteq> None \<Longrightarrow> \<exists>s'. del s k = Some s' \<and> inv s' \<and> look s' = (look s)(k := None)"
begin

lemma run_refines:
  "inv s \<Longrightarrow> map_option (\<lambda>(as, t). (as, look t)) (map_run ins del look ops s) =
     map_run map_insert map_delete (\<lambda>m. m) ops (look s)"
proof (induction ops arbitrary: s)
  case (Cons a ops)
  have m: "map_option (\<lambda>(as, t). (as, look t)) (map_option (\<lambda>(as, t). (r # as, t)) x) =
    map_option (\<lambda>(as, t). (r # as, t)) (map_option (\<lambda>(as, t). (as, look t)) x)" for r and x :: "('v map_answer list \<times> 's) option"
    by (cases x) auto
  show ?case
  proof (cases a)
    case (Insert k v)
    obtain t where t: "ins s k v = Some (look s k = None, t)" "inv t" "look t = (look s)(k \<mapsto> v)"
      using ins [OF Cons.prems] by blast
    show ?thesis using Cons.IH [OF t(2), unfolded t(3)] t(1)
      by (simp add: Insert map_insert_def [of "look s" k v] m del: fun_upd_apply)
  next
    case (Delete k)
    show ?thesis
    proof (cases "look s k = None")
      case True
      then show ?thesis using del_absent [OF Cons.prems True] by (simp add: Delete map_delete_def)
    next
      case False
      then obtain t where t: "del s k = Some t" "inv t" "look t = (look s)(k := None)"
        using del [OF Cons.prems] by blast
      have "map_delete (look s) k = Some ((look s)(k := None))" using False by (simp add: map_delete_def)
      then show ?thesis using Cons.IH [OF t(2), unfolded t(3)] t(1) by (simp add: Delete m del: fun_upd_apply)
    qed
  next
    case (Lookup k)
    show ?thesis using Cons.IH [OF Cons.prems] by (simp add: Lookup m)
  qed
qed simp

end

interpretation map_itself: map_interface "\<lambda>_. True" "\<lambda>m. m" map_insert map_delete
  by unfold_locales (auto simp: map_insert_def map_delete_def)

section \<open>First-in first-out queues\<close>

text \<open>
  What the ring buffer, the micro queues and the concurrent queue promise: \<open>contents\<close> is the
  list a representation stands for, oldest element first.
\<close>

datatype 'a fifo_op = Push 'a | Pop

fun fifo_run :: "('s \<Rightarrow> 'a \<Rightarrow> 's) \<Rightarrow> ('s \<Rightarrow> 'a option \<times> 's) \<Rightarrow> 'a fifo_op list \<Rightarrow> 's \<Rightarrow> 'a option list \<times> 's" where
  "fifo_run push pop [] s = ([], s)"
| "fifo_run push pop (Push x # ops) s = fifo_run push pop ops (push s x)"
| "fifo_run push pop (Pop # ops) s =
     (let (r, s') = pop s; (rs, s'') = fifo_run push pop ops s' in (r # rs, s''))"

definition list_push :: "'a list \<Rightarrow> 'a \<Rightarrow> 'a list" where
  "list_push xs x = xs @ [x]"

fun list_pop :: "'a list \<Rightarrow> 'a option \<times> 'a list" where
  "list_pop [] = (None, [])"
| "list_pop (x # xs) = (Some x, xs)"

locale fifo_queue =
  fixes inv :: "'s \<Rightarrow> bool" and contents :: "'s \<Rightarrow> 'a list"
    and push :: "'s \<Rightarrow> 'a \<Rightarrow> 's" and pop :: "'s \<Rightarrow> 'a option \<times> 's"
  assumes push: "inv s \<Longrightarrow> inv (push s x) \<and> contents (push s x) = contents s @ [x]"
    and pop: "inv s \<Longrightarrow> inv (snd (pop s)) \<and> (fst (pop s), contents (snd (pop s))) = list_pop (contents s)"
begin

lemma run_refines:
  "inv s \<Longrightarrow> fifo_run push pop ops s = (rs, s') \<Longrightarrow>
    inv s' \<and> fifo_run list_push list_pop ops (contents s) = (rs, contents s')"
proof (induction ops arbitrary: s rs)
  case (Cons a ops)
  show ?case
  proof (cases a)
    case (Push x)
    then show ?thesis using Cons.prems push [of s x] Cons.IH [of "push s x" rs] by (simp add: list_push_def)
  next
    case Pop
    obtain r t where r: "pop s = (r, t)" by (cases "pop s")
    obtain rs' where t: "fifo_run push pop ops t = (rs', s')" and rs: "rs = r # rs'"
      using Cons.prems(2) Pop r by (cases "fifo_run push pop ops t") auto
    have "inv t" and l: "list_pop (contents s) = (r, contents t)" using pop [OF Cons.prems(1)] r by simp_all
    from Cons.IH [OF this(1) t] have "inv s'" "fifo_run list_push list_pop ops (contents t) = (rs', contents s')"
      by simp_all
    then show ?thesis using Pop l rs by simp
  qed
qed simp

end

interpretation list_fifo: fifo_queue "\<lambda>_. True" "\<lambda>xs. xs" list_push list_pop
  by unfold_locales (auto simp: list_push_def)

section \<open>Rings\<close>

text \<open>Positions of an array whose size is a power of two, selected by the low bits of a counter.\<close>

unbundle bit_operations_syntax

lemma and_pow2: "(i::nat) AND (2 ^ k - 1) = i mod 2 ^ k"
  by (metis mask_eq_exp_minus_1 take_bit_eq_mask take_bit_eq_mod)

lemma mod_window_le:
  assumes "i \<le> j" "j < i + n" "i mod n = j mod n"
  shows "i = (j::nat)"
proof -
  have "n dvd j - i" using assms by (metis mod_eq_dvd_iff_nat)
  moreover have "j - i < n" using assms by auto
  ultimately have "j - i = 0" by (metis nat_dvd_not_less neq0_conv)
  then show ?thesis using assms by simp
qed

lemma mod_window:
  assumes "h \<le> i" "i < h + n" "h \<le> j" "j < h + n"
  shows "i mod n = j mod n \<longleftrightarrow> i = (j::nat)"
proof (cases "i \<le> j")
  case True
  then show ?thesis using mod_window_le [of i j n] assms by force
next
  case False
  then show ?thesis using mod_window_le [of j i n] assms by force
qed

lemma window_repr:
  assumes "0 < n"
  shows "\<exists>i. h \<le> i \<and> i < h + n \<and> i mod n = (j::nat) mod n"
proof -
  have "h \<le> n * h" using assms by simp
  then obtain d where d: "n * h = h + d" by (metis le_Suc_ex)
  have "(h + (j + d) mod n) mod n = (j + n * h) mod n" unfolding d by (simp add: mod_simps ac_simps)
  also have "\<dots> = j mod n" by simp
  finally show ?thesis using assms by (intro exI [of _ "h + (j + d) mod n"]) simp
qed

end
