(* ===== verification/Priority_Queue.thy ===== *)
theory Priority_Queue
  imports Prelude
begin

text \<open>
  \<^verbatim>\<open>include/tbb/concurrent_priority_queue.h\<close>: a binary heap in a vector followed by elements that
  are not yet heapified, and the batch handler the aggregator runs. The vector \<^verbatim>\<open>data\<close> is a list,
  \<^verbatim>\<open>compare\<close> is the parameter \<open>lt\<close>. Whether \<^verbatim>\<open>data.push_back\<close> throws is not decided by this code: it is
  the parameter \<open>throws\<close>, applied to the vector and the new element.
\<close>

section \<open>State and operations\<close>

record 'a cpq =
  mark :: nat
  my_size :: nat
  cdata :: "'a list"

datatype operation_type = INVALID_OP | PUSH_OP | POP_OP | PUSH_RVALUE_OP

datatype operation_status = WAIT | SUCCEEDED | FAILED

text \<open>
  \<^verbatim>\<open>cpq_operation\<close>: the operation object a client thread puts into the aggregator. \<open>op_addr\<close> is
  its address, \<open>op_elem\<close> the element behind the pointer \<^verbatim>\<open>elem\<close>.
\<close>

record 'a cpq_operation =
  op_addr :: nat
  op_type :: operation_type
  op_elem :: 'a
  op_status :: operation_status

section \<open>Heap maintenance\<close>

text \<open>The inner loop of \<^verbatim>\<open>heapify\<close>: push \<open>to_place\<close> up the heap from \<open>cur_pos\<close>.\<close>

function sift_up :: "('a \<Rightarrow> 'a \<Rightarrow> bool) \<Rightarrow> 'a list \<Rightarrow> nat \<Rightarrow> 'a \<Rightarrow> 'a list" where
  "sift_up lt d cur_pos to_place =
     (if cur_pos = 0 then d[cur_pos := to_place]
      else let parent = (cur_pos - 1) div 2 in
        if \<not> lt (d ! parent) to_place then d[cur_pos := to_place]
        else sift_up lt (d[cur_pos := d ! parent]) parent to_place)"
  by pat_completeness auto
termination by (relation "measure (\<lambda>(lt, d, c, x). c)") auto

declare sift_up.simps [simp del]

text \<open>The outer loop of \<^verbatim>\<open>heapify\<close>, from position \<open>m\<close> to the end of the vector.\<close>

function heapify_loop :: "('a \<Rightarrow> 'a \<Rightarrow> bool) \<Rightarrow> 'a list \<Rightarrow> nat \<Rightarrow> 'a list \<times> nat" where
  "heapify_loop lt d m =
     (if m < length d then heapify_loop lt (sift_up lt d m (d ! m)) (Suc m) else (d, m))"
  by pat_completeness auto

lemma length_sift_up [simp]: "length (sift_up lt d c x) = length d"
  by (induction lt d c x rule: sift_up.induct) (subst sift_up.simps, simp add: Let_def)

termination heapify_loop
  by (relation "measure (\<lambda>(lt, d, m). length d - m)") auto

declare heapify_loop.simps [simp del]

definition heapify :: "('a \<Rightarrow> 'a \<Rightarrow> bool) \<Rightarrow> 'a cpq \<Rightarrow> 'a cpq" where
  "heapify lt q =
     (let m0 = (if mark q = 0 \<and> length (cdata q) > 0 then 1 else mark q);
          (d, m) = heapify_loop lt (cdata q) m0
      in q\<lparr>cdata := d, mark := m\<rparr>)"

text \<open>
  The loop of \<^verbatim>\<open>reheap\<close>: move the higher child up until the last element of the vector is not
  below it, or the heap (the first \<open>m\<close> positions) is left.
\<close>

function reheap_loop :: "('a \<Rightarrow> 'a \<Rightarrow> bool) \<Rightarrow> nat \<Rightarrow> 'a list \<Rightarrow> nat \<Rightarrow> nat \<Rightarrow> 'a list \<times> nat" where
  "reheap_loop lt m d cur_pos child =
     (if child < m then
        let target = (if child + 1 < m \<and> lt (d ! child) (d ! (child + 1)) then child + 1 else child) in
        if lt (d ! target) (d ! (length d - 1)) then (d, cur_pos)
        else reheap_loop lt m (d[cur_pos := d ! target]) target (2 * target + 1)
      else (d, cur_pos))"
  by pat_completeness auto
termination by (relation "measure (\<lambda>(lt, m, d, cur, child). m - child)") (auto simp: Let_def split: if_splits)

declare reheap_loop.simps [simp del]

definition reheap :: "('a \<Rightarrow> 'a \<Rightarrow> bool) \<Rightarrow> 'a cpq \<Rightarrow> 'a cpq" where
  "reheap lt q =
     (let (d1, cur_pos) = reheap_loop lt (mark q) (cdata q) 0 1;
          d2 = (if cur_pos \<noteq> length d1 - 1 then d1[cur_pos := d1 ! (length d1 - 1)] else d1);
          d3 = butlast d2
      in q\<lparr>cdata := d3, mark := (if mark q > length d3 then length d3 else mark q)\<rparr>)"

section \<open>The batch handler\<close>

text \<open>The test both passes make: the last element is newly pushed and higher than the top.\<close>

definition last_is_higher :: "('a \<Rightarrow> 'a \<Rightarrow> bool) \<Rightarrow> 'a cpq \<Rightarrow> bool" where
  "last_is_higher lt q \<longleftrightarrow>
     mark q < length (cdata q) \<and> lt (cdata q ! 0) (cdata q ! (length (cdata q) - 1))"

definition pop_last :: "'a cpq \<Rightarrow> 'a cpq_operation \<Rightarrow> 'a cpq \<times> 'a cpq_operation" where
  "pop_last q tmp =
     (q\<lparr>my_size := my_size q - 1, cdata := butlast (cdata q)\<rparr>,
      tmp\<lparr>op_elem := cdata q ! (length (cdata q) - 1), op_status := SUCCEEDED\<rparr>)"

text \<open>
  First pass: constant-time pushes and pops. The result is the queue, the operations completed
  so far (newest first) and the list of postponed pops (linked newest first, as the code does).
\<close>

fun first_pass :: "('a \<Rightarrow> 'a \<Rightarrow> bool) \<Rightarrow> ('a list \<Rightarrow> 'a \<Rightarrow> bool) \<Rightarrow> 'a cpq_operation list
    \<Rightarrow> 'a cpq \<Rightarrow> 'a cpq_operation list \<Rightarrow> 'a cpq_operation list
    \<Rightarrow> 'a cpq \<times> 'a cpq_operation list \<times> 'a cpq_operation list" where
  "first_pass lt throws [] q fin pop_list = (q, fin, pop_list)"
| "first_pass lt throws (tmp # op_list) q fin pop_list =
     (if op_type tmp = POP_OP then
        if last_is_higher lt q then
          let (q', tmp') = pop_last q tmp in first_pass lt throws op_list q' (tmp' # fin) pop_list
        else first_pass lt throws op_list q fin (tmp # pop_list)
      else if throws (cdata q) (op_elem tmp) then
        first_pass lt throws op_list q (tmp\<lparr>op_status := FAILED\<rparr> # fin) pop_list
      else
        first_pass lt throws op_list
          (q\<lparr>cdata := cdata q @ [op_elem tmp], my_size := my_size q + 1\<rparr>)
          (tmp\<lparr>op_status := SUCCEEDED\<rparr> # fin) pop_list)"

text \<open>Second pass: the postponed pops.\<close>

fun second_pass :: "('a \<Rightarrow> 'a \<Rightarrow> bool) \<Rightarrow> 'a cpq_operation list \<Rightarrow> 'a cpq \<Rightarrow> 'a cpq_operation list
    \<Rightarrow> 'a cpq \<times> 'a cpq_operation list" where
  "second_pass lt [] q fin = (q, fin)"
| "second_pass lt (tmp # pop_list) q fin =
     (if cdata q = [] then second_pass lt pop_list q (tmp\<lparr>op_status := FAILED\<rparr> # fin)
      else if last_is_higher lt q then
        let (q', tmp') = pop_last q tmp in second_pass lt pop_list q' (tmp' # fin)
      else
        second_pass lt pop_list (reheap lt (q\<lparr>my_size := my_size q - 1\<rparr>))
          (tmp\<lparr>op_elem := cdata q ! 0, op_status := SUCCEEDED\<rparr> # fin))"

definition handle_operations :: "('a \<Rightarrow> 'a \<Rightarrow> bool) \<Rightarrow> ('a list \<Rightarrow> 'a \<Rightarrow> bool)
    \<Rightarrow> 'a cpq_operation list \<Rightarrow> 'a cpq \<Rightarrow> 'a cpq \<times> 'a cpq_operation list" where
  "handle_operations lt throws op_list q =
     (let (q1, fin1, pop_list) = first_pass lt throws op_list q [] [];
          (q2, fin2) = second_pass lt pop_list q1 fin1
      in (if mark q2 < length (cdata q2) then heapify lt q2 else q2, fin2))"

section \<open>Construction and the client interface\<close>

definition cpq_empty :: "'a cpq" where
  "cpq_empty = \<lparr>mark = 0, my_size = 0, cdata = []\<rparr>"

text \<open>The \<^verbatim>\<open>[begin,end)\<close> constructor: copy, heapify, then set the size.\<close>

definition cpq_of_range :: "('a \<Rightarrow> 'a \<Rightarrow> bool) \<Rightarrow> 'a list \<Rightarrow> 'a cpq" where
  "cpq_of_range lt xs =
     (let q = heapify lt \<lparr>mark = 0, my_size = 0, cdata = xs\<rparr>
      in q\<lparr>my_size := length (cdata q)\<rparr>)"

text \<open>Copy constructor: the mark and size of the source, then \<^verbatim>\<open>heapify\<close>.\<close>

definition cpq_copy :: "('a \<Rightarrow> 'a \<Rightarrow> bool) \<Rightarrow> 'a cpq \<Rightarrow> 'a cpq" where
  "cpq_copy lt src = heapify lt \<lparr>mark = mark src, my_size = my_size src, cdata = cdata src\<rparr>"

text \<open>Move constructor: \<^verbatim>\<open>std::move\<close> leaves the source vector empty; mark and size stay.\<close>

definition cpq_move :: "'a cpq \<Rightarrow> 'a cpq \<times> 'a cpq" where
  "cpq_move src =
     (\<lparr>mark = mark src, my_size = my_size src, cdata = cdata src\<rparr>, src\<lparr>cdata := []\<rparr>)"

definition cpq_assign :: "('a \<Rightarrow> 'a \<Rightarrow> bool) \<Rightarrow> 'a list \<Rightarrow> 'a cpq" where
  "cpq_assign lt xs = heapify lt \<lparr>mark = 0, my_size = length xs, cdata = xs\<rparr>"

definition cpq_clear :: "'a cpq \<Rightarrow> 'a cpq" where
  "cpq_clear q = q\<lparr>cdata := [], mark := 0, my_size := 0\<rparr>"

definition cpq_swap :: "'a cpq \<Rightarrow> 'a cpq \<Rightarrow> 'a cpq \<times> 'a cpq" where
  "cpq_swap p q = (\<lparr>mark = mark q, my_size = my_size q, cdata = cdata q\<rparr>,
                   \<lparr>mark = mark p, my_size = my_size p, cdata = cdata p\<rparr>)"

definition cpq_is_empty :: "'a cpq \<Rightarrow> bool" where
  "cpq_is_empty q \<longleftrightarrow> my_size q = 0"

datatype cpq_error = Bad_alloc

text \<open>
  \<^verbatim>\<open>push\<close> and \<^verbatim>\<open>try_pop\<close> when their operation is the only one in its batch. \<open>Inl Bad_alloc\<close> is the
  exception \<^verbatim>\<open>push\<close> throws.
\<close>

definition cpq_push :: "('a \<Rightarrow> 'a \<Rightarrow> bool) \<Rightarrow> ('a list \<Rightarrow> 'a \<Rightarrow> bool) \<Rightarrow> 'a \<Rightarrow> 'a cpq
    \<Rightarrow> 'a cpq \<times> (cpq_error + unit)" where
  "cpq_push lt throws x q =
     (let (q', ops) = handle_operations lt throws
            [\<lparr>op_addr = 0, op_type = PUSH_OP, op_elem = x, op_status = WAIT\<rparr>] q
      in (q', if op_status (hd ops) = FAILED then Inl Bad_alloc else Inr ()))"

definition cpq_try_pop :: "('a \<Rightarrow> 'a \<Rightarrow> bool) \<Rightarrow> 'a \<Rightarrow> 'a cpq \<Rightarrow> 'a cpq \<times> 'a \<times> bool" where
  "cpq_try_pop lt elem q =
     (let (q', ops) = handle_operations lt (\<lambda>_ _. False)
            [\<lparr>op_addr = 0, op_type = POP_OP, op_elem = elem, op_status = WAIT\<rparr>] q
      in (q', op_elem (hd ops), op_status (hd ops) = SUCCEEDED))"

section \<open>The heap invariant and its maintenance\<close>

abbreviation par :: "nat \<Rightarrow> nat" where
  "par i \<equiv> (i - 1) div 2"

definition heap_prefix :: "('a \<Rightarrow> 'a \<Rightarrow> bool) \<Rightarrow> 'a list \<Rightarrow> nat \<Rightarrow> bool" where
  "heap_prefix lt d m \<longleftrightarrow> (\<forall>i \<in> {0<..<m}. \<not> lt (d ! par i) (d ! i))"

lemma heap_prefixD: "heap_prefix lt d m \<Longrightarrow> 0 < i \<Longrightarrow> i < m \<Longrightarrow> \<not> lt (d ! par i) (d ! i)"
  by (simp add: heap_prefix_def)

lemma mset_sift_up: "c < length d \<Longrightarrow> mset (sift_up lt d c x) = mset (d[c := x])"
proof (induction lt d c x rule: sift_up.induct)
  case (1 lt d c x)
  show ?case
  proof (cases "c = 0 \<or> \<not> lt (d ! par c) x")
    case True
    then show ?thesis by (subst sift_up.simps) (auto simp: Let_def)
  next
    case False
    then have c: "0 < c" and ne: "par c \<noteq> c" and p: "par c < length d"
      using "1.prems" by auto
    have "mset (sift_up lt d c x) = mset ((d[c := d ! par c])[par c := x])"
      using False "1.IH" [of "par c"] p by (subst sift_up.simps) (simp add: Let_def)
    also have "(d[c := d ! par c])[par c := x] = (d[c := x])[c := d[c := x] ! par c, par c := d[c := x] ! c]"
      using ne "1.prems" by simp
    also have "mset \<dots> = mset (d[c := x])"
      using "1.prems" p by (intro mset_update_swap) simp_all
    finally show ?thesis .
  qed
qed

lemma nth_sift_up_above: "c < j \<Longrightarrow> sift_up lt d c x ! j = d ! j"
proof (induction lt d c x rule: sift_up.induct)
  case (1 lt d c x)
  then show ?case by (subst sift_up.simps) (auto simp: Let_def)
qed

text \<open>
  The state of the hole during \<^verbatim>\<open>heapify\<close>: \<open>x\<close> is to be placed at \<open>c\<close>, every other edge of the
  heap is in order, and the parent of the hole is not below the hole's children.
\<close>

definition hole_ok :: "('a \<Rightarrow> 'a \<Rightarrow> bool) \<Rightarrow> 'a list \<Rightarrow> nat \<Rightarrow> nat \<Rightarrow> 'a \<Rightarrow> bool" where
  "hole_ok lt d m c x \<longleftrightarrow>
     (\<forall>i. 0 < i \<longrightarrow> i < m \<longrightarrow> i \<noteq> c \<longrightarrow> \<not> lt (d[c := x] ! par i) (d ! i)) \<and>
     (\<forall>k. 0 < c \<longrightarrow> 0 < k \<longrightarrow> k < m \<longrightarrow> par k = c \<longrightarrow> \<not> lt (d ! par c) (d ! k))"

lemma par_less: "0 < i \<Longrightarrow> par i < i"
  by auto

context strict_weak_order begin

lemma hole_ok_up:
  assumes h: "hole_ok lt d m c x" and c: "0 < c" "c < m" "m \<le> length d" and l: "lt (d ! par c) x"
  shows "hole_ok lt (d[c := d ! par c]) m (par c) x"
proof -
  have ne: "par c \<noteq> c" and p: "par c < length d" using c by auto
  have edge: "\<not> lt (d[c := x] ! par i) (d ! i)" if "0 < i" "i < m" "i \<noteq> c" for i
    using h that by (simp add: hole_ok_def)
  have kids: "\<not> lt (d ! par c) (d ! k)" if "0 < k" "k < m" "par k = c" for k
    using h that c by (simp add: hole_ok_def)
  have pe: "\<not> lt (d ! par i) (d ! i)" if "0 < i" "i < m" "i \<noteq> c" "par i \<noteq> c" for i
    using edge [OF that(1-3)] that(4) by simp
  show ?thesis
    unfolding hole_ok_def
  proof (intro conjI allI impI)
    fix i assume i: "0 < i" "i < m" "i \<noteq> par c"
    consider "i = c" | "i \<noteq> c" "par i = c" | "i \<noteq> c" "par i = par c" | "i \<noteq> c" "par i \<noteq> c" "par i \<noteq> par c"
      by blast
    then show "\<not> lt ((d[c := d ! par c])[par c := x] ! par i) (d[c := d ! par c] ! i)"
    proof cases
      case 1 then show ?thesis using c p ne asym [OF l] by simp
    next
      case 2 then show ?thesis using kids [of i] i c ne by simp
    next
      case 3
      then have "\<not> lt (d ! par c) (d ! i)" using pe [of i] i ne by simp
      then have "\<not> lt x (d ! i)" using trans l by blast
      then show ?thesis using 3 p by simp
    next
      case 4 then show ?thesis using pe [of i] i by simp
    qed
  next
    fix k assume k: "0 < par c" "0 < k" "k < m" "par k = par c"
    have pp: "par (par c) \<noteq> c" "par (par c) \<noteq> par c" using k by auto
    have "par c < m" using c ne by simp
    then have top: "\<not> lt (d ! par (par c)) (d ! par c)" using pe [of "par c"] k pp ne by blast
    show "\<not> lt (d[c := d ! par c] ! par (par c)) (d[c := d ! par c] ! k)"
    proof (cases "k = c")
      case True then show ?thesis using top pp c by simp
    next
      case False
      then have "\<not> lt (d ! par c) (d ! k)" using pe [of k] k ne by simp
      with top have "\<not> lt (d ! par (par c)) (d ! k)" by (rule incomp_trans)
      then show ?thesis using pp False by simp
    qed
  qed
qed

lemma sift_up_heap:
  "hole_ok lt d m c x \<Longrightarrow> c < m \<Longrightarrow> m \<le> length d \<Longrightarrow> heap_prefix lt (sift_up lt d c x) m"
proof (induction c arbitrary: d rule: less_induct)
  case (less c)
  show ?case
  proof (cases "c = 0 \<or> \<not> lt (d ! par c) x")
    case True
    have "\<not> lt (d[c := x] ! par i) (d[c := x] ! i)" if "0 < i" "i < m" for i
    proof (cases "i = c")
      case True
      then have "par i \<noteq> c" using that by auto
      with True show ?thesis using \<open>c = 0 \<or> \<not> lt (d ! par c) x\<close> that less.prems by simp
    next
      case False then show ?thesis using less.prems(1) that by (simp add: hole_ok_def)
    qed
    then show ?thesis using True by (subst sift_up.simps) (auto simp: Let_def heap_prefix_def)
  next
    case False
    then have "hole_ok lt (d[c := d ! par c]) m (par c) x"
      using hole_ok_up less.prems by blast
    moreover have "par c < c" using False by auto
    ultimately show ?thesis using less.IH [of "par c"] False less.prems
      by (subst sift_up.simps) (simp add: Let_def)
  qed
qed

lemma heap_prefix_extend:
  assumes "heap_prefix lt d m" "m < length d"
  shows "heap_prefix lt (sift_up lt d m (d ! m)) (Suc m)"
proof (rule sift_up_heap)
  show "hole_ok lt d (Suc m) m (d ! m)"
    using assms by (auto simp: hole_ok_def heap_prefix_def)
qed (use assms in auto)


lemma heapify_loop_props:
  "heap_prefix lt d m \<Longrightarrow> m \<le> length d \<Longrightarrow> heapify_loop lt d m = (d', m') \<Longrightarrow>
    m' = length d \<and> length d' = length d \<and> heap_prefix lt d' (length d) \<and> mset d' = mset d"
proof (induction "length d - m" arbitrary: d m)
  case 0
  then show ?case by (subst (asm) heapify_loop.simps) auto
next
  case (Suc k)
  then have m: "m < length d" by simp
  let ?d = "sift_up lt d m (d ! m)"
  have "mset ?d = mset d" using m by (simp add: mset_sift_up)
  moreover have "heapify_loop lt ?d (Suc m) = (d', m')"
    using Suc.prems(3) m by (subst (asm) heapify_loop.simps) simp
  ultimately show ?case
    using Suc.hyps(1) [of ?d "Suc m"] Suc.hyps(2) heap_prefix_extend [OF Suc.prems(1) m] m by simp
qed

lemma heapify_props:
  assumes "heap_prefix lt (cdata q) (mark q)" "mark q \<le> length (cdata q)"
  shows "mark (heapify lt q) = length (cdata q)" "length (cdata (heapify lt q)) = length (cdata q)"
    "heap_prefix lt (cdata (heapify lt q)) (length (cdata q))"
    "mset (cdata (heapify lt q)) = mset (cdata q)" "my_size (heapify lt q) = my_size q"
proof -
  let ?m = "if mark q = 0 \<and> length (cdata q) > 0 then 1 else mark q"
  obtain d m where dm: "heapify_loop lt (cdata q) ?m = (d, m)" by fastforce
  have "heap_prefix lt (cdata q) ?m" "?m \<le> length (cdata q)"
    using assms by (auto simp: heap_prefix_def Suc_le_eq)
  note heapify_loop_props [OF this dm]
  moreover have "heapify lt q = q\<lparr>cdata := d, mark := m\<rparr>"
    using dm by (simp add: heapify_def Let_def del: One_nat_def)
  ultimately show "mark (heapify lt q) = length (cdata q)" "length (cdata (heapify lt q)) = length (cdata q)"
    "heap_prefix lt (cdata (heapify lt q)) (length (cdata q))"
    "mset (cdata (heapify lt q)) = mset (cdata q)" "my_size (heapify lt q) = my_size q" by auto
qed

lemma heap_top_max: "heap_prefix lt d m \<Longrightarrow> i < m \<Longrightarrow> \<not> lt (d ! 0) (d ! i)"
proof (induction i rule: less_induct)
  case (less i)
  show ?case
  proof (cases "i = 0")
    case True then show ?thesis by (simp add: irrefl)
  next
    case False
    then have "par i < i" by auto
    with less have "\<not> lt (d ! 0) (d ! par i)" by simp
    then show ?thesis using heap_prefixD [OF less.prems(1), of i] False less.prems(2) incomp_trans by blast
  qed
qed

end

text \<open>
  The state of the hole during \<^verbatim>\<open>reheap\<close>: \<open>x\<close> is to go to \<open>c\<close> or below it.
\<close>

definition hole_down :: "('a \<Rightarrow> 'a \<Rightarrow> bool) \<Rightarrow> 'a list \<Rightarrow> nat \<Rightarrow> nat \<Rightarrow> 'a \<Rightarrow> bool" where
  "hole_down lt d m c x \<longleftrightarrow>
     (\<forall>i. 0 < i \<longrightarrow> i < m \<longrightarrow> par i \<noteq> c \<longrightarrow> i \<noteq> c \<longrightarrow> \<not> lt (d ! par i) (d ! i)) \<and>
     (0 < c \<longrightarrow> \<not> lt (d ! par c) x \<and>
        (\<forall>k. 0 < k \<longrightarrow> k < m \<longrightarrow> par k = c \<longrightarrow> \<not> lt (d ! par c) (d ! k)))"

definition heap_target :: "('a \<Rightarrow> 'a \<Rightarrow> bool) \<Rightarrow> nat \<Rightarrow> 'a list \<Rightarrow> nat \<Rightarrow> nat" where
  "heap_target lt m d child =
     (if child + 1 < m \<and> lt (d ! child) (d ! (child + 1)) then child + 1 else child)"

lemma reheap_loop_unfold:
  "reheap_loop lt m d c (2 * c + 1) =
     (if 2 * c + 1 < m \<and> \<not> lt (d ! heap_target lt m d (2 * c + 1)) (d ! (length d - 1))
      then reheap_loop lt m (d[c := d ! heap_target lt m d (2 * c + 1)]) (heap_target lt m d (2 * c + 1))
             (2 * heap_target lt m d (2 * c + 1) + 1)
      else (d, c))"
  by (subst reheap_loop.simps) (simp add: heap_target_def Let_def)

lemma heap_target_bounds:
  assumes "2 * c + 1 < m"
  shows "heap_target lt m d (2 * c + 1) < m" "par (heap_target lt m d (2 * c + 1)) = c"
    "c < heap_target lt m d (2 * c + 1)"
  using assms by (auto simp: heap_target_def)

lemma par_child: "0 < k \<Longrightarrow> par k = c \<longleftrightarrow> k = 2 * c + 1 \<or> k = 2 * c + 2"
  by auto

context strict_weak_order begin

lemma heap_target_max:
  assumes "0 < k" "k < m" "par k = c"
  shows "\<not> lt (d ! heap_target lt m d (2 * c + 1)) (d ! k)"
  using assms par_child [of k c] irrefl asym by (auto simp: heap_target_def)

lemma hole_down_step:
  assumes h: "hole_down lt d m' c x" and c: "2 * c + 1 < m" "m' \<le> m" "m \<le> length d"
    and t: "t = heap_target lt m d (2 * c + 1)" and nl: "\<not> lt (d ! t) x"
    and last: "m' \<le> t \<Longrightarrow> d ! t = x"
  shows "hole_down lt (d[c := d ! t]) m' t x"
proof -
  have tb: "t < m" "par t = c" "c < t" using heap_target_bounds [OF c(1)] t by simp_all
  have mx: "\<not> lt (d ! t) (d ! k)" if "0 < k" "k < m'" "par k = c" for k
    using heap_target_max [of k m c d] that c t by simp
  have e: "\<not> lt (d ! par i) (d ! i)" if "0 < i" "i < m'" "par i \<noteq> c" "i \<noteq> c" for i
    using h that by (simp add: hole_down_def)
  show ?thesis
    unfolding hole_down_def
  proof (intro conjI allI impI)
    fix i assume i: "0 < i" "i < m'" "par i \<noteq> t" "i \<noteq> t"
    consider "i = c" | "i \<noteq> c" "par i = c" | "i \<noteq> c" "par i \<noteq> c" by blast
    then show "\<not> lt (d[c := d ! t] ! par i) (d[c := d ! t] ! i)"
    proof cases
      case 1
      have "par c \<noteq> c" using 1 i by auto
      moreover have "\<not> lt (d ! par c) (d ! t)"
      proof (cases "t < m'")
        case True then show ?thesis using h 1 i tb by (auto simp: hole_down_def)
      next
        case False
        then show ?thesis using h 1 i last by (auto simp: hole_down_def)
      qed
      ultimately show ?thesis using 1 i c by simp
    next
      case 2 then show ?thesis using mx [of i] i c tb by simp
    next
      case 3 then show ?thesis using e [of i] i by simp
    qed
  next
    show "\<not> lt (d[c := d ! t] ! par t) x" using nl tb c by simp
  next
    fix k assume k: "0 < k" "k < m'" "par k = t"
    then have "par k \<noteq> c" "k \<noteq> c" using tb by auto
    then show "\<not> lt (d[c := d ! t] ! par t) (d[c := d ! t] ! k)" using e [of k] k tb c by simp
  qed
qed

lemma reheap_loop_props:
  assumes "reheap_loop lt m d c (2 * c + 1) = (d', c')"
    and "n = length d" "m \<le> n" "c < m" "d ! (n - 1) = x" "m' = min m (n - 1)" "hole_down lt d m' c x"
  shows "length d' = n \<and> d' ! (n - 1) = x \<and> c' < m \<and> heap_prefix lt (d'[c' := x]) m' \<and>
    mset (take m (d'[c' := x])) = mset (take m (d[c := x])) \<and> drop m d' = drop m d"
  using assms
proof (induction "m - c" arbitrary: c d rule: less_induct)
  case less
  let ?t = "heap_target lt m d (2 * c + 1)"
  show ?case
  proof (cases "2 * c + 1 < m \<and> \<not> lt (d ! ?t) (d ! (length d - 1))")
    case True
    then have tb: "?t < m" "par ?t = c" "c < ?t" using heap_target_bounds by blast+
    let ?d = "d[c := d ! ?t]"
    have "m' \<le> ?t \<Longrightarrow> ?t = n - 1" using less.prems(3,6) tb(1) by linarith
    then have xt: "m' \<le> ?t \<Longrightarrow> d ! ?t = x" using less.prems(5) by simp
    have hd: "hole_down lt ?d m' ?t x"
      using less.prems True xt by (intro hole_down_step) auto
    have rl: "reheap_loop lt m ?d ?t (2 * ?t + 1) = (d', c')"
      using less.prems(1) True by (subst (asm) reheap_loop_unfold) simp
    have "c \<noteq> n - 1" using tb less.prems(3) by linarith
    then have lst: "?d ! (n - 1) = x" using less.prems(5) by simp
    have "mset (take m (?d[?t := x])) = mset (take m (d[c := x]))"
    proof -
      have "take m (?d[?t := x]) = (take m (d[c := x]))[c := take m (d[c := x]) ! ?t, ?t := take m (d[c := x]) ! c]"
        using tb less.prems by (simp add: take_update_swap)
      then show ?thesis using tb less.prems by (simp only: mset_update_swap length_take length_list_update)
    qed
    moreover have "drop m ?d = drop m d" using less.prems(4) by simp
    moreover have "length d' = n \<and> d' ! (n - 1) = x \<and> c' < m \<and> heap_prefix lt (d'[c' := x]) m' \<and>
      mset (take m (d'[c' := x])) = mset (take m (?d[?t := x])) \<and> drop m d' = drop m ?d"
      by (rule less.hyps [OF _ rl _ less.prems(3) tb(1) lst less.prems(6) hd]) (use tb(1,3) less.prems(2) in simp_all)
    ultimately show ?thesis by (simp only: simp_thms)
  next
    case False
    then have "(d', c') = (d, c)"
      using less.prems(1) by (simp only: reheap_loop_unfold [of lt m d c] if_False)
    then have eq: "d' = d" "c' = c" by simp_all
    have kids: "\<not> lt x (d ! k)" if "0 < k" "k < m'" "par k = c" for k
    proof -
      have "2 * c + 1 < m" using that par_child [of k c] less.prems by auto
      with False have l: "lt (d ! ?t) x" using less.prems by simp
      have "\<not> lt (d ! ?t) (d ! k)" using heap_target_max [of k m c d] that less.prems by simp
      with l show ?thesis using trans by blast
    qed
    have "\<not> lt (d[c := x] ! par i) (d[c := x] ! i)" if i: "0 < i" "i < m'" for i
    proof (cases "i = c")
      case True
      then have "par i \<noteq> c" using i by auto
      then show ?thesis using True less.prems i by (auto simp: hole_down_def)
    next
      case ne: False
      show ?thesis
      proof (cases "par i = c")
        case True then show ?thesis using kids [of i] i ne less.prems by simp
      next
        case False then show ?thesis using less.prems(7) i ne by (simp add: hole_down_def)
      qed
    qed
    then show ?thesis using less.prems by (simp add: eq heap_prefix_def)
  qed
qed

text \<open>\<^verbatim>\<open>reheap\<close> removes the top, closes the heap over the last element and keeps the rest.\<close>

lemma reheap_props:
  assumes h: "heap_prefix lt (cdata q) (mark q)" and m: "mark q \<le> length (cdata q)" and ne: "cdata q \<noteq> []"
    and q': "q' = reheap lt q"
  shows "length (cdata q') = length (cdata q) - 1" "mark q' = min (mark q) (length (cdata q) - 1)"
    "my_size q' = my_size q" "heap_prefix lt (cdata q') (mark q')"
    "mset (cdata q') = mset (cdata q) - {#cdata q ! 0#}"
    "0 < mark q \<Longrightarrow> mark q < length (cdata q) \<Longrightarrow>
      mset (take (mark q') (cdata q')) = mset (take (mark q) (cdata q)) - {#cdata q ! 0#} + {#last (cdata q)#} \<and>
      drop (mark q') (cdata q') = butlast (drop (mark q) (cdata q))"
proof -
  let ?d = "cdata q" and ?m = "mark q"
  let ?n = "length ?d" and ?x = "?d ! (length ?d - 1)"
  let ?m' = "min ?m (?n - 1)"
  obtain d1 c where dc: "reheap_loop lt ?m ?d 0 1 = (d1, c)" by fastforce
  have F: "length d1 = ?n \<and> d1 ! (?n - 1) = ?x \<and> c < ?n \<and> heap_prefix lt (d1[c := ?x]) ?m' \<and>
    mset (take ?m (d1[c := ?x])) = mset (take ?m (?d[0 := ?x])) \<and> drop ?m (d1[c := ?x]) = drop ?m (?d[0 := ?x])"
  proof (cases "?m = 0")
    case True
    then have "d1 = ?d" "c = 0" using dc by (simp_all add: reheap_loop.simps [of lt 0])
    then show ?thesis using True ne by (simp add: heap_prefix_def)
  next
    case False
    have "hole_down lt ?d ?m' 0 ?x" using h by (auto simp: hole_down_def heap_prefix_def)
    then have "length d1 = ?n \<and> d1 ! (?n - 1) = ?x \<and> c < ?m \<and> heap_prefix lt (d1[c := ?x]) ?m' \<and>
      mset (take ?m (d1[c := ?x])) = mset (take ?m (?d[0 := ?x])) \<and> drop ?m d1 = drop ?m ?d"
      using False m dc by (intro reheap_loop_props) auto
    then show ?thesis using False m by auto
  qed
  define e where "e = d1[c := ?x]"
  have "(if c \<noteq> length d1 - 1 then d1[c := d1 ! (length d1 - 1)] else d1) = e"
    using F list_update_id [of d1 c] by (auto simp: e_def simp del: list_update_id)
  then have q'': "q' = q\<lparr>cdata := butlast e, mark := ?m'\<rparr>"
    using dc F q' by (simp add: reheap_def Let_def e_def min_def del: One_nat_def)
  have le: "length e = ?n" "e \<noteq> []" using F ne by (auto simp: e_def)
  have lx: "last e = ?x" using F ne le by (auto simp: e_def last_conv_nth nth_list_update)
  have "mset (take ?m e @ drop ?m e) = mset (take ?m (?d[0 := ?x]) @ drop ?m (?d[0 := ?x]))"
    using F unfolding e_def mset_append by simp
  then have me: "mset e = mset (?d[0 := ?x])" by (simp only: append_take_drop_id)
  have mu: "mset (?d[0 := ?x]) = mset ?d - {#?d ! 0#} + {#?x#}" using ne by (simp add: mset_update)
  have mb: "mset (butlast e) = mset e - {#last e#}" using le by (cases e rule: rev_cases) simp_all
  show "length (cdata q') = ?n - 1" "mark q' = ?m'" "my_size q' = my_size q" using le by (simp_all add: q'')
  show "heap_prefix lt (cdata q') (mark q')"
    using F le by (auto simp: q'' heap_prefix_def nth_butlast e_def)
  show "mset (cdata q') = mset ?d - {#?d ! 0#}" using me mu mb lx by (simp add: q'')
  assume p: "0 < ?m" "?m < ?n"
  then have m': "?m' = ?m" by simp
  have "mset (take ?m (?d[0 := ?x])) = mset (take ?m ?d) - {#?d ! 0#} + {#?x#}"
    using p ne by (simp add: take_update_swap mset_update)
  moreover have "last ?d = ?x" using ne by (simp add: last_conv_nth)
  ultimately show "mset (take (mark q') (cdata q')) = mset (take ?m ?d) - {#?d ! 0#} + {#last ?d#} \<and>
      drop (mark q') (cdata q') = butlast (drop ?m ?d)"
    using F p le m' by (simp add: q'' take_butlast e_def drop_butlast)
qed

end

section \<open>The batch as a sequence of priority-queue operations\<close>

text \<open>
  The abstract priority queue is a multiset. One completed operation is legal in \<open>M\<close> when a
  successful pop took an element that nothing in \<open>M\<close> is above, a failed pop found \<open>M\<close> empty, a
  successful push added its element and a failed push changed nothing.
\<close>

definition pq_step :: "('a \<Rightarrow> 'a \<Rightarrow> bool) \<Rightarrow> 'a multiset \<Rightarrow> 'a cpq_operation \<Rightarrow> 'a multiset option" where
  "pq_step lt M p =
     (case op_status p of
        WAIT \<Rightarrow> None
      | SUCCEEDED \<Rightarrow>
          if op_type p \<noteq> POP_OP then Some (add_mset (op_elem p) M)
          else if op_elem p \<in># M \<and> (\<forall>y \<in># M. \<not> lt (op_elem p) y) then Some (M - {#op_elem p#})
          else None
      | FAILED \<Rightarrow> if op_type p \<noteq> POP_OP \<or> M = {#} then Some M else None)"

fun pq_run :: "('a \<Rightarrow> 'a \<Rightarrow> bool) \<Rightarrow> 'a multiset \<Rightarrow> 'a cpq_operation list \<Rightarrow> 'a multiset option" where
  "pq_run lt M [] = Some M"
| "pq_run lt M (p # ps) = (case pq_step lt M p of None \<Rightarrow> None | Some M' \<Rightarrow> pq_run lt M' ps)"

text \<open>What the client asked for: the address, the type and, for a push, the element.\<close>

definition request :: "'a cpq_operation \<Rightarrow> nat \<times> operation_type \<times> 'a option" where
  "request p = (op_addr p, op_type p, if op_type p = POP_OP then None else Some (op_elem p))"

text \<open>The invariant between batches: all of the vector is a heap.\<close>

definition cpq_inv :: "('a \<Rightarrow> 'a \<Rightarrow> bool) \<Rightarrow> 'a cpq \<Rightarrow> bool" where
  "cpq_inv lt q \<longleftrightarrow>
     mark q = length (cdata q) \<and> my_size q = length (cdata q) \<and> heap_prefix lt (cdata q) (mark q)"

text \<open>
  The invariant inside a batch. The elements beyond the mark belong to the pushes \<open>pend\<close>, which
  are linearised only when their element enters the heap or is popped again; all other completed
  operations form the legal run \<open>lin\<close> that ends in the multiset of the heap.
\<close>

definition batch_inv :: "('a \<Rightarrow> 'a \<Rightarrow> bool) \<Rightarrow> 'a multiset \<Rightarrow> 'a cpq \<Rightarrow> 'a cpq_operation list
    \<Rightarrow> 'a cpq_operation list \<Rightarrow> 'a cpq_operation list \<Rightarrow> bool" where
  "batch_inv lt M q fin lin pend \<longleftrightarrow>
     mark q \<le> length (cdata q) \<and> my_size q = length (cdata q) \<and> heap_prefix lt (cdata q) (mark q) \<and>
     mset fin = mset lin + mset pend \<and>
     (\<forall>p \<in> set pend. op_type p \<noteq> POP_OP \<and> op_status p = SUCCEEDED) \<and>
     mset (drop (mark q) (cdata q)) = image_mset op_elem (mset pend) \<and>
     pq_run lt M lin = Some (mset (take (mark q) (cdata q)))"

lemma pq_run_append:
  "pq_run lt M (xs @ ys) = (case pq_run lt M xs of None \<Rightarrow> None | Some M' \<Rightarrow> pq_run lt M' ys)"
  by (induction xs arbitrary: M) (auto split: option.splits)

lemma pq_step_push [simp]:
  "op_type p \<noteq> POP_OP \<Longrightarrow> op_status p = SUCCEEDED \<Longrightarrow> pq_step lt M p = Some (add_mset (op_elem p) M)"
  by (simp add: pq_step_def)

lemma pq_run_pushes:
  "\<forall>p \<in> set ps. op_type p \<noteq> POP_OP \<and> op_status p = SUCCEEDED \<Longrightarrow>
    pq_run lt M ps = Some (M + image_mset op_elem (mset ps))"
  by (induction ps arbitrary: M) auto

lemma request_fields [simp]:
  "request (p\<lparr>op_status := s\<rparr>) = request p"
  "op_type p = POP_OP \<Longrightarrow> request (p\<lparr>op_elem := e\<rparr>) = request p"
  by (simp_all add: request_def)

lemma pend_pick:
  assumes "mset U = image_mset op_elem (mset pend)" "u \<in> set U"
  obtains p where "p \<in> set pend" "op_elem p = u"
    "mset U - {#u#} = image_mset op_elem (mset (remove1 p pend))" "set (remove1 p pend) \<subseteq> set pend"
    "mset pend = add_mset p (mset (remove1 p pend))"
proof -
  have "u \<in># image_mset op_elem (mset pend)" using assms by (metis set_mset_mset)
  then obtain p where p: "p \<in> set pend" "op_elem p = u" by auto
  have "image_mset op_elem (mset pend - {#p#}) = image_mset op_elem (mset pend) - image_mset op_elem {#p#}"
    using p by (intro image_mset_Diff) simp
  then have "mset U - {#u#} = image_mset op_elem (mset (remove1 p pend))" using p assms(1) by simp
  moreover have "mset pend = add_mset p (mset (remove1 p pend))" using p by simp
  ultimately show thesis using p that set_remove1_subset by metis
qed

section \<open>Each step of the handler keeps the batch invariant\<close>

lemma batch_invI:
  assumes "mark q' \<le> length (cdata q')" "my_size q' = length (cdata q')" "heap_prefix lt (cdata q') (mark q')"
    and "mset fin' = mset lin' + mset pend'"
    and "set pend' \<subseteq> set pend" "\<forall>p \<in> set pend. op_type p \<noteq> POP_OP \<and> op_status p = SUCCEEDED"
    and "mset (drop (mark q') (cdata q')) = image_mset op_elem (mset pend')"
    and "pq_run lt M lin' = Some (mset (take (mark q') (cdata q')))"
  shows "batch_inv lt M q' fin' lin' pend'"
  using assms unfolding batch_inv_def by blast

lemma batch_invD:
  assumes "batch_inv lt M q fin lin pend"
  shows "mark q \<le> length (cdata q)" "my_size q = length (cdata q)" "heap_prefix lt (cdata q) (mark q)"
    "mset fin = mset lin + mset pend" "\<forall>p \<in> set pend. op_type p \<noteq> POP_OP \<and> op_status p = SUCCEEDED"
    "mset (drop (mark q) (cdata q)) = image_mset op_elem (mset pend)"
    "pq_run lt M lin = Some (mset (take (mark q) (cdata q)))"
  using assms by (simp_all add: batch_inv_def)

lemma batch_inv_push:
  assumes "batch_inv lt M q fin lin pend" "op_type p \<noteq> POP_OP"
  shows "batch_inv lt M (q\<lparr>cdata := cdata q @ [op_elem p], my_size := my_size q + 1\<rparr>)
    (p\<lparr>op_status := SUCCEEDED\<rparr> # fin) lin (p\<lparr>op_status := SUCCEEDED\<rparr> # pend)"
  using assms by (auto simp: batch_inv_def heap_prefix_def nth_append)

lemma batch_inv_fail:
  assumes "batch_inv lt M q fin lin pend" "op_type p \<noteq> POP_OP \<or> cdata q = []"
  shows "batch_inv lt M q (p\<lparr>op_status := FAILED\<rparr> # fin) (lin @ [p\<lparr>op_status := FAILED\<rparr>]) pend"
  using assms by (auto simp: batch_inv_def pq_run_append pq_step_def)

context strict_weak_order begin

lemma batch_inv_pop_last:
  assumes inv: "batch_inv lt M q fin lin pend" and h: "last_is_higher lt q"
    and pop: "op_type tmp = POP_OP" and eq: "pop_last q tmp = (q', tmp')"
  obtains lin' pend' where "batch_inv lt M q' (tmp' # fin) lin' pend'"
proof -
  let ?U = "drop (mark q) (cdata q)" and ?u = "cdata q ! (length (cdata q) - 1)"
  have m: "mark q < length (cdata q)" and l: "lt (cdata q ! 0) ?u"
    using h by (auto simp: last_is_higher_def)
  have U: "?U \<noteq> []" "last ?U = ?u" using m by (auto simp: last_conv_nth)
  then have "?u \<in> set ?U" by (metis last_in_set)
  then obtain p where p: "p \<in> set pend" "op_elem p = ?u"
    "mset ?U - {#?u#} = image_mset op_elem (mset (remove1 p pend))" "set (remove1 p pend) \<subseteq> set pend"
    "mset pend = add_mset p (mset (remove1 p pend))"
    using inv pend_pick [of ?U pend ?u] unfolding batch_inv_def by metis
  have max: "\<not> lt ?u y" if "y \<in> set (take (mark q) (cdata q))" for y
  proof -
    from that obtain i where "i < mark q" "y = cdata q ! i" using m by (auto simp: in_set_conv_nth)
    then have "\<not> lt (cdata q ! 0) y" using inv heap_top_max by (auto simp: batch_inv_def)
    then show ?thesis using l trans by blast
  qed
  have q': "q' = q\<lparr>my_size := my_size q - 1, cdata := butlast (cdata q)\<rparr>"
    "tmp' = tmp\<lparr>op_elem := ?u, op_status := SUCCEEDED\<rparr>"
    using eq by (auto simp: pop_last_def)
  have "mset (butlast ?U) = mset ?U - {#?u#}" using U by (cases ?U rule: rev_cases) simp_all
  then have "mset (drop (mark q) (butlast (cdata q))) = image_mset op_elem (mset (remove1 p pend))"
    using p(3) by (simp add: drop_butlast del: mset_remove1)
  moreover have "take (mark q) (butlast (cdata q)) = take (mark q) (cdata q)"
    using m by (simp add: take_butlast)
  moreover have "heap_prefix lt (butlast (cdata q)) (mark q)"
    using inv m by (auto simp: batch_inv_def heap_prefix_def nth_butlast)
  moreover have "pq_run lt M (lin @ [p, tmp']) = Some (mset (take (mark q) (cdata q)))"
    using batch_invD(5,7) [OF inv] p(1,2) pop max irrefl by (simp add: pq_run_append q' pq_step_def)
  moreover have "my_size q' = length (cdata q')" "mark q' \<le> length (cdata q')"
    using batch_invD(1,2) [OF inv] m by (simp_all add: q')
  moreover have "mset (tmp' # fin) = mset (lin @ [p, tmp']) + mset (remove1 p pend)"
    using batch_invD(4) [OF inv] p(5) by (simp del: mset_remove1)
  ultimately have "batch_inv lt M q' (tmp' # fin) (lin @ [p, tmp']) (remove1 p pend)"
    by (intro batch_invI [OF _ _ _ _ p(4) batch_invD(5) [OF inv]]) (simp_all add: q' del: mset_remove1)
  then show thesis by (rule that)
qed

lemma batch_inv_pop_top:
  assumes inv: "batch_inv lt M q fin lin pend" and h: "\<not> last_is_higher lt q" and ne: "cdata q \<noteq> []"
    and pop: "op_type tmp = POP_OP"
    and q': "q' = reheap lt (q\<lparr>my_size := my_size q - 1\<rparr>)"
    and tmp': "tmp' = tmp\<lparr>op_elem := cdata q ! 0, op_status := SUCCEEDED\<rparr>"
  obtains lin' pend' where "batch_inv lt M q' (tmp' # fin) lin' pend'"
proof -
  let ?d = "cdata q" and ?m = "mark q"
  note b = batch_invD [OF inv]
  have hp: "heap_prefix lt (cdata (q\<lparr>my_size := my_size q - 1\<rparr>)) (mark (q\<lparr>my_size := my_size q - 1\<rparr>))"
    "mark (q\<lparr>my_size := my_size q - 1\<rparr>) \<le> length (cdata (q\<lparr>my_size := my_size q - 1\<rparr>))"
    "cdata (q\<lparr>my_size := my_size q - 1\<rparr>) \<noteq> []" using b ne by simp_all
  note R = reheap_props [OF hp q', simplified]
  have base: "mark q' \<le> length (cdata q')" "my_size q' = length (cdata q')" "heap_prefix lt (cdata q') (mark q')"
    using R b by auto
  have max: "\<not> lt (?d ! 0) y" if "y \<in> set (take ?m ?d)" for y
    using that b heap_top_max by (auto simp: in_set_conv_nth)
  have step: "pq_step lt N tmp' = Some (N - {#?d ! 0#})"
    if "?d ! 0 \<in># N" "\<forall>y \<in># N. \<not> lt (?d ! 0) y" for N
    using that pop by (simp add: tmp' pq_step_def)
  consider "?m = 0" | "0 < ?m" "?m < length ?d" | "?m = length ?d" "0 < ?m" using b ne by force
  then show thesis
  proof cases
    case 1
    then have "mset ?d = image_mset op_elem (mset pend)" "?d ! 0 \<in> set ?d" using b ne by auto
    then obtain p where p: "p \<in> set pend" "op_elem p = ?d ! 0"
      "mset ?d - {#?d ! 0#} = image_mset op_elem (mset (remove1 p pend))" "set (remove1 p pend) \<subseteq> set pend"
      "mset pend = add_mset p (mset (remove1 p pend))"
      using pend_pick by metis
    have "pq_run lt M (lin @ [p, tmp']) = Some {#}"
      using b(5,7) p(1,2) 1 step [of "{#?d ! 0#}"] irrefl by (simp add: pq_run_append)
    moreover have "mset (tmp' # fin) = mset (lin @ [p, tmp']) + mset (remove1 p pend)"
      using b(4) p(5) by (simp del: mset_remove1)
    ultimately have "batch_inv lt M q' (tmp' # fin) (lin @ [p, tmp']) (remove1 p pend)"
      using base p(3,4) R(2,5) 1 b(5)
      by (intro batch_invI [where pend = pend]) (simp_all del: mset_remove1 mset.simps)
    then show ?thesis by (rule that)
  next
    case 2
    let ?U = "drop ?m ?d"
    have U: "?U \<noteq> []" "last ?U = last ?d" using 2 by auto
    then have "last ?d \<in> set ?U" by (metis last_in_set)
    then obtain p where p: "p \<in> set pend" "op_elem p = last ?d"
      "mset ?U - {#last ?d#} = image_mset op_elem (mset (remove1 p pend))" "set (remove1 p pend) \<subseteq> set pend"
      "mset pend = add_mset p (mset (remove1 p pend))"
      using b pend_pick by metis
    have "mset (butlast ?U) = mset ?U - {#last ?d#}" using U by (cases ?U rule: rev_cases) simp_all
    moreover have "?d ! 0 \<in> set (take ?m ?d)" using 2 by (auto simp: in_set_conv_nth intro!: exI [of _ 0])
    moreover have "mset (tmp' # fin) = mset (lin @ [tmp', p]) + mset (remove1 p pend)"
      using b(4) p(5) by (simp del: mset_remove1)
    moreover have "pq_run lt M (lin @ [tmp', p]) = Some (mset (take (mark q') (cdata q')))"
      using b(5,7) p(1,2) R(6) 2 step [of "mset (take ?m ?d)"] max \<open>?d ! 0 \<in> set (take ?m ?d)\<close>
      by (simp add: pq_run_append)
    ultimately have "batch_inv lt M q' (tmp' # fin) (lin @ [tmp', p]) (remove1 p pend)"
      using base p(3,4) R(6) 2 b(5)
      by (intro batch_invI [where pend = pend]) (simp_all del: mset_remove1 mset.simps)
    then show ?thesis by (rule that)
  next
    case 3
    then have "pend = []" using b by simp
    moreover have "pq_run lt M (lin @ [tmp']) = Some (mset ?d - {#?d ! 0#})"
      using b(7) 3 step [of "mset ?d"] max ne by (simp add: pq_run_append)
    ultimately have "batch_inv lt M q' (tmp' # fin) (lin @ [tmp']) []"
      using base R(1,2,5) 3 b(4) by (intro batch_invI [where pend = "[]"]) simp_all
    then show ?thesis by (rule that)
  qed
qed

lemma batch_inv_first_pass:
  "batch_inv lt M q fin lin pend \<Longrightarrow> \<forall>p \<in> set pops. op_type p = POP_OP \<Longrightarrow>
    first_pass lt throws ops q fin pops = (q', fin', pops') \<Longrightarrow>
    \<exists>lin' pend'. batch_inv lt M q' fin' lin' pend' \<and> (\<forall>p \<in> set pops'. op_type p = POP_OP) \<and>
      image_mset request (mset fin' + mset pops') =
      image_mset request (mset fin + mset pops + mset ops)"
proof (induction ops arbitrary: q fin pops lin pend)
  case Nil
  then show ?case by auto
next
  case (Cons tmp ops)
  consider (last) "op_type tmp = POP_OP" "last_is_higher lt q"
    | (postpone) "op_type tmp = POP_OP" "\<not> last_is_higher lt q"
    | (failed) "op_type tmp \<noteq> POP_OP" "throws (cdata q) (op_elem tmp)"
    | (pushed) "op_type tmp \<noteq> POP_OP" "\<not> throws (cdata q) (op_elem tmp)"
    by blast
  then show ?case
  proof cases
    case last
    obtain q1 tmp1 where pl: "pop_last q tmp = (q1, tmp1)" by fastforce
    obtain lin1 pend1 where "batch_inv lt M q1 (tmp1 # fin) lin1 pend1"
      using batch_inv_pop_last [OF Cons.prems(1) last(2,1) pl] by blast
    moreover have "request tmp1 = request tmp" using pl last by (auto simp: pop_last_def)
    ultimately show ?thesis
      using Cons.IH [of q1 "tmp1 # fin" lin1 pend1 pops] Cons.prems last pl by simp
  next
    case postpone
    then show ?thesis using Cons.IH [of q fin lin pend "tmp # pops"] Cons.prems by simp
  next
    case failed
    then show ?thesis
      using Cons.IH [OF batch_inv_fail [OF Cons.prems(1)], of tmp pops] Cons.prems by simp
  next
    case pushed
    then show ?thesis
      using Cons.IH [OF batch_inv_push [OF Cons.prems(1)], of tmp pops] Cons.prems by simp
  qed
qed

lemma batch_inv_second_pass:
  "batch_inv lt M q fin lin pend \<Longrightarrow> \<forall>p \<in> set pops. op_type p = POP_OP \<Longrightarrow>
    second_pass lt pops q fin = (q', fin') \<Longrightarrow>
    \<exists>lin' pend'. batch_inv lt M q' fin' lin' pend' \<and>
      image_mset request (mset fin') = image_mset request (mset fin + mset pops)"
proof (induction pops arbitrary: q fin lin pend)
  case Nil
  then show ?case by auto
next
  case (Cons tmp pops)
  then have pop: "op_type tmp = POP_OP" by simp
  consider (empty) "cdata q = []" | (last) "cdata q \<noteq> []" "last_is_higher lt q"
    | (top) "cdata q \<noteq> []" "\<not> last_is_higher lt q" by blast
  then show ?case
  proof cases
    case empty
    then show ?thesis using Cons.IH [OF batch_inv_fail [OF Cons.prems(1)], of tmp] Cons.prems by simp
  next
    case last
    obtain q1 tmp1 where pl: "pop_last q tmp = (q1, tmp1)" by fastforce
    obtain lin1 pend1 where "batch_inv lt M q1 (tmp1 # fin) lin1 pend1"
      using batch_inv_pop_last [OF Cons.prems(1) last(2) pop pl] by blast
    moreover have "request tmp1 = request tmp" using pl pop by (auto simp: pop_last_def)
    ultimately show ?thesis using Cons.IH [of q1 "tmp1 # fin"] Cons.prems last pl by simp
  next
    case top
    obtain lin1 pend1 where "batch_inv lt M (reheap lt (q\<lparr>my_size := my_size q - 1\<rparr>))
        (tmp\<lparr>op_elem := cdata q ! 0, op_status := SUCCEEDED\<rparr> # fin) lin1 pend1"
      using batch_inv_pop_top [OF Cons.prems(1) top(2,1) pop refl refl] by blast
    then show ?thesis using Cons.IH Cons.prems top pop by fastforce
  qed
qed

theorem handle_operations_linearizable:
  assumes inv: "cpq_inv lt q" and run: "handle_operations lt throws ops q = (q', fin)"
  shows "cpq_inv lt q' \<and> mset (map request fin) = mset (map request ops) \<and>
    (\<exists>lin. mset lin = mset fin \<and> pq_run lt (mset (cdata q)) lin = Some (mset (cdata q')))"
proof -
  obtain q1 fin1 pops where p1: "first_pass lt throws ops q [] [] = (q1, fin1, pops)"
    using prod_cases3 by blast
  obtain q2 fin2 where p2: "second_pass lt pops q1 fin1 = (q2, fin2)" by fastforce
  have q': "q' = (if mark q2 < length (cdata q2) then heapify lt q2 else q2)" "fin = fin2"
    using run p1 p2 by (auto simp: handle_operations_def)
  let ?M = "mset (cdata q)"
  have "batch_inv lt ?M q [] [] []" using inv by (auto simp: cpq_inv_def batch_inv_def)
  then obtain lin1 pend1 where 1: "batch_inv lt ?M q1 fin1 lin1 pend1" "\<forall>p \<in> set pops. op_type p = POP_OP"
    "image_mset request (mset fin1 + mset pops) = image_mset request (mset ops)"
    using batch_inv_first_pass [OF _ _ p1] by fastforce
  then obtain lin2 pend2 where 2: "batch_inv lt ?M q2 fin lin2 pend2"
    "image_mset request (mset fin) = image_mset request (mset ops)"
    using batch_inv_second_pass [OF _ _ p2] q' by metis
  note b = batch_invD [OF 2(1)]
  have H: "mark q' = length (cdata q')" "length (cdata q') = length (cdata q2)" "my_size q' = my_size q2"
    "heap_prefix lt (cdata q') (length (cdata q'))" "mset (cdata q') = mset (cdata q2)"
    using heapify_props [OF b(3,1)] b q' by auto
  have "pq_run lt ?M (lin2 @ pend2) = Some (mset (take (mark q2) (cdata q2)) + mset (drop (mark q2) (cdata q2)))"
    using b(5-7) by (simp add: pq_run_append pq_run_pushes)
  then have "pq_run lt ?M (lin2 @ pend2) = Some (mset (cdata q'))"
    using H(5) by (simp flip: mset_append)
  moreover have "mset (lin2 @ pend2) = mset fin" using b(4) by simp
  ultimately have "\<exists>lin. mset lin = mset fin \<and> pq_run lt ?M lin = Some (mset (cdata q'))" by blast
  then show ?thesis using H b(2) 2(2) by (simp add: cpq_inv_def)
qed

text \<open>A legal run of one operation, spelled out.\<close>

lemma singleton_run:
  assumes "cpq_inv lt q" "handle_operations lt throws [p] q = (q', fin)"
  obtains p' where "fin = [p']" "request p' = request p" "cpq_inv lt q'"
    "pq_step lt (mset (cdata q)) p' = Some (mset (cdata q'))"
proof -
  obtain lin where l: "cpq_inv lt q'" "mset (map request fin) = mset (map request [p])"
    "mset lin = mset fin" "pq_run lt (mset (cdata q)) lin = Some (mset (cdata q'))"
    using handle_operations_linearizable [OF assms] by blast
  then obtain p' where "fin = [p']" "request p' = request p"
    by (cases fin) auto
  with l show thesis by (intro that [of p']) (auto split: option.splits)
qed


end


section \<open>Properties\<close>

text \<open>
  C1: the batch handler is linearisable. Whatever mix of pushes and pops the aggregator hands over,
  every operation completes exactly once with its own request, and some order of the completed
  operations is a legal run of a sequential priority queue from the contents before the batch to
  the contents after it: each successful pop took an element nothing in the queue was above, each
  failed pop found the queue empty. The vector is again one heap with \<^verbatim>\<open>mark == my_size == data.size()\<close>.
\<close>

theorem cpq_batch_linearizable:
  assumes "strict_weak_order lt" and "cpq_inv lt q" and "handle_operations lt throws ops q = (q', fin)"
  shows "cpq_inv lt q' \<and> mset (map request fin) = mset (map request ops) \<and>
    (\<exists>lin. mset lin = mset fin \<and> pq_run lt (mset (cdata q)) lin = Some (mset (cdata q')))"
  by (rule strict_weak_order.handle_operations_linearizable [OF assms])

definition sample_ops :: "nat cpq_operation list" where
  "sample_ops =
     [\<lparr>op_addr = 0, op_type = PUSH_OP, op_elem = 9, op_status = WAIT\<rparr>,
      \<lparr>op_addr = 1, op_type = POP_OP, op_elem = 0, op_status = WAIT\<rparr>,
      \<lparr>op_addr = 2, op_type = PUSH_RVALUE_OP, op_elem = 2, op_status = WAIT\<rparr>,
      \<lparr>op_addr = 3, op_type = POP_OP, op_elem = 0, op_status = WAIT\<rparr>]"

definition sample_queue :: "nat cpq" where
  "sample_queue = \<lparr>mark = 3, my_size = 3, cdata = [7, 3, 5]\<rparr>"

lemmas cpq_eval = handle_operations_def last_is_higher_def pop_last_def reheap_def heapify_def
  reheap_loop.simps heapify_loop.simps sift_up.simps std_less_def

lemma sample_queue_inv: "cpq_inv std_less sample_queue"
  by (auto simp: cpq_inv_def heap_prefix_def sample_queue_def std_less_def nth_Cons')

lemma sample_run: "handle_operations std_less (\<lambda>_ _. False) sample_ops sample_queue =
    (\<lparr>mark = 3, my_size = 3, cdata = [5, 3, 2]\<rparr>,
     [\<lparr>op_addr = 3, op_type = POP_OP, op_elem = 7, op_status = SUCCEEDED\<rparr>,
      \<lparr>op_addr = 2, op_type = PUSH_RVALUE_OP, op_elem = 2, op_status = SUCCEEDED\<rparr>,
      \<lparr>op_addr = 1, op_type = POP_OP, op_elem = 9, op_status = SUCCEEDED\<rparr>,
      \<lparr>op_addr = 0, op_type = PUSH_OP, op_elem = 9, op_status = SUCCEEDED\<rparr>])"
  by (simp add: sample_ops_def sample_queue_def cpq_eval)

theorem cpq_batch_linearizable_witness:
  "\<exists>lin. mset lin = mset (snd (handle_operations std_less (\<lambda>_ _. False) sample_ops sample_queue)) \<and>
     pq_run std_less {#7, 3, 5#} lin = Some {#5, 3, 2#}"
  using cpq_batch_linearizable [OF std_less.strict_weak_order_axioms sample_queue_inv sample_run]
  unfolding sample_run by (auto simp: sample_queue_def)

text \<open>
  The client interface alone. On a consistent queue \<^verbatim>\<open>try_pop\<close> returns \<^verbatim>\<open>true\<close> exactly when the
  queue is not empty; then it hands out an element nothing in the queue is above and removes just
  that one; otherwise it leaves the queue and the caller's variable alone.
\<close>

theorem cpq_try_pop_correct:
  assumes "strict_weak_order lt" and "cpq_inv lt q" and "cpq_try_pop lt e q = (q', x, ok)"
  shows "cpq_inv lt q' \<and> ok = (\<not> cpq_is_empty q) \<and>
    (if ok then x \<in># mset (cdata q) \<and> (\<forall>y \<in># mset (cdata q). \<not> lt x y) \<and>
         mset (cdata q') = mset (cdata q) - {#x#}
     else x = e \<and> mset (cdata q') = mset (cdata q))"
proof -
  let ?p = "\<lparr>op_addr = 0, op_type = POP_OP, op_elem = e, op_status = WAIT\<rparr>"
  obtain fin where h: "handle_operations lt (\<lambda>_ _. False) [?p] q = (q', fin)"
    "x = op_elem (hd fin)" "ok = (op_status (hd fin) = SUCCEEDED)"
    using assms(3) by (auto simp: cpq_try_pop_def split: prod.splits)
  obtain p' where p': "fin = [p']" "request p' = request ?p" "cpq_inv lt q'"
    "pq_step lt (mset (cdata q)) p' = Some (mset (cdata q'))"
    using strict_weak_order.singleton_run [OF assms(1,2) h(1)] .
  have ty: "op_type p' = POP_OP" using p'(2) by (simp add: request_def)
  have em: "cpq_is_empty q \<longleftrightarrow> cdata q = []" using assms(2) by (simp add: cpq_is_empty_def cpq_inv_def)
  have keep: "op_elem p' = e" if "op_status p' = FAILED"
    using h(1) p'(1) that assms(2)
    by (auto simp: handle_operations_def last_is_higher_def cpq_inv_def split: if_splits prod.splits)
  show ?thesis
    using p' h(2,3) ty em keep
    by (cases "op_status p'") (auto simp: pq_step_def split: if_splits)
qed

theorem cpq_try_pop_correct_witness:
  "cpq_try_pop std_less 0 sample_queue = (\<lparr>mark = 2, my_size = 2, cdata = [5, 3]\<rparr>, 7, True) \<and>
   cdata sample_queue = [7, 3, 5] \<and> \<not> std_less 7 (5::nat) \<and> \<not> std_less 7 (3::nat)"
proof -
  have r: "cpq_try_pop std_less 0 sample_queue = (\<lparr>mark = 2, my_size = 2, cdata = [5, 3]\<rparr>, 7, True)"
    by (simp add: cpq_try_pop_def sample_queue_def cpq_eval)
  show ?thesis
    using cpq_try_pop_correct [OF std_less.strict_weak_order_axioms sample_queue_inv r] r
    by (simp add: sample_queue_def)
qed

text \<open>
  Every way to build or reset a queue establishes the invariant and holds exactly the
  elements it was given, whatever their order: the range constructor, \<^verbatim>\<open>assign\<close>, the copy
  constructor and \<^verbatim>\<open>clear\<close>. Pushing on a consistent queue adds the element or, when the
  vector throws, reports \<^verbatim>\<open>bad_alloc\<close> and changes nothing.
\<close>

theorem cpq_construction_and_push:
  assumes "strict_weak_order lt" and "cpq_inv lt q"
  shows "cpq_inv lt (cpq_of_range lt xs) \<and> mset (cdata (cpq_of_range lt xs)) = mset xs \<and>
    cpq_inv lt (cpq_assign lt xs) \<and> mset (cdata (cpq_assign lt xs)) = mset xs \<and>
    cpq_inv lt (cpq_copy lt q) \<and> mset (cdata (cpq_copy lt q)) = mset (cdata q) \<and>
    cpq_inv lt (cpq_clear q) \<and> cpq_is_empty (cpq_clear q) \<and>
    (let (q', r) = cpq_push lt throws x q in cpq_inv lt q' \<and>
       (if throws (cdata q) x then r = Inl Bad_alloc \<and> mset (cdata q') = mset (cdata q)
        else r = Inr () \<and> mset (cdata q') = add_mset x (mset (cdata q))))"
proof -
  note H = strict_weak_order.heapify_props [OF assms(1)]
  have r: "cpq_inv lt (cpq_of_range lt xs) \<and> mset (cdata (cpq_of_range lt xs)) = mset xs"
    using H [of "\<lparr>mark = 0, my_size = 0, cdata = xs\<rparr>"]
    by (simp add: cpq_of_range_def cpq_inv_def heap_prefix_def Let_def)
  have a: "cpq_inv lt (cpq_assign lt xs) \<and> mset (cdata (cpq_assign lt xs)) = mset xs"
    using H [of "\<lparr>mark = 0, my_size = length xs, cdata = xs\<rparr>"]
    by (simp add: cpq_assign_def cpq_inv_def heap_prefix_def)
  have c: "cpq_inv lt (cpq_copy lt q) \<and> mset (cdata (cpq_copy lt q)) = mset (cdata q)"
  proof -
    have q: "mark q = length (cdata q)" "my_size q = length (cdata q)" "heap_prefix lt (cdata q) (length (cdata q))"
      using assms(2) by (auto simp: cpq_inv_def)
    show ?thesis
      using H [of "\<lparr>mark = mark q, my_size = my_size q, cdata = cdata q\<rparr>"] q
      by (simp add: cpq_copy_def cpq_inv_def)
  qed
  have z: "cpq_inv lt (cpq_clear q) \<and> cpq_is_empty (cpq_clear q)"
    by (simp add: cpq_clear_def cpq_inv_def cpq_is_empty_def heap_prefix_def)
  let ?p = "\<lparr>op_addr = 0, op_type = PUSH_OP, op_elem = x, op_status = WAIT\<rparr>"
  obtain q' fin where h: "handle_operations lt throws [?p] q = (q', fin)" by fastforce
  obtain p' where p': "fin = [p']" "request p' = request ?p" "cpq_inv lt q'"
    "pq_step lt (mset (cdata q)) p' = Some (mset (cdata q'))"
    using strict_weak_order.singleton_run [OF assms h] .
  have st: "op_status p' = (if throws (cdata q) x then FAILED else SUCCEEDED)"
    using h p'(1) by (auto simp: handle_operations_def split: if_splits)
  have ty: "op_type p' = PUSH_OP" "op_elem p' = x" using p'(2) by (auto simp: request_def split: if_splits)
  have "let (q', r) = cpq_push lt throws x q in cpq_inv lt q' \<and>
       (if throws (cdata q) x then r = Inl Bad_alloc \<and> mset (cdata q') = mset (cdata q)
        else r = Inr () \<and> mset (cdata q') = add_mset x (mset (cdata q)))"
    using h p' st ty by (simp add: cpq_push_def pq_step_def split: if_splits)
  with r a c z show ?thesis by simp
qed

theorem cpq_construction_and_push_witness:
  "cpq_inv std_less (cpq_of_range std_less [1, 4, 2 :: nat]) \<and>
   mset (cdata (cpq_of_range std_less [1, 4, 2 :: nat])) = mset [1, 4, 2]"
  using cpq_construction_and_push [OF std_less.strict_weak_order_axioms sample_queue_inv, of "[1, 4, 2]"]
  by simp

text \<open>
  What the move constructor leaves behind. The source vector is empty but its mark and size
  are still those of the moved elements, so a non-empty source breaks the handler's entry
  assertion \<^verbatim>\<open>mark == data.size()\<close>: it reports that it is not empty although no pop can succeed on it.
  The new queue is consistent.
\<close>

theorem cpq_move_leaves_source_inconsistent:
  assumes "cpq_inv lt q" and "cdata q \<noteq> []" and "cpq_move q = (new, src)"
  shows "cpq_inv lt new \<and> cdata new = cdata q \<and> \<not> cpq_inv lt src \<and> \<not> cpq_is_empty src \<and>
    (\<forall>q' x ok. cpq_try_pop lt e src = (q', x, ok) \<longrightarrow> \<not> ok)"
proof -
  have "cpq_inv lt new" "cdata new = cdata q" "cdata src = []" "my_size src = length (cdata q)"
    using assms by (auto simp: cpq_move_def cpq_inv_def)
  moreover have "\<not> ok" if "cpq_try_pop lt e src = (q', x, ok)" for q' x ok
    using that \<open>cdata src = []\<close>
    by (auto simp: cpq_try_pop_def handle_operations_def last_is_higher_def)
  ultimately show ?thesis using assms(2) by (auto simp: cpq_inv_def cpq_is_empty_def)
qed

theorem cpq_move_leaves_source_inconsistent_witness:
  "\<not> cpq_is_empty (snd (cpq_move sample_queue)) \<and> cdata (snd (cpq_move sample_queue)) = []"
proof -
  have m: "cpq_move sample_queue = (fst (cpq_move sample_queue), snd (cpq_move sample_queue))" by simp
  have ne: "cdata sample_queue \<noteq> []" by (simp add: sample_queue_def)
  show ?thesis using cpq_move_leaves_source_inconsistent [OF sample_queue_inv ne m]
    by (simp add: cpq_move_def)
qed

end
