(* ===== verification/Aggregator.thy ===== *)
theory Aggregator
  imports Prelude
begin

text \<open>
  \<^verbatim>\<open>include/tbb/internal/_aggregator_impl.h\<close>: many threads push operation nodes on a lock-free list;
  the thread that finds the list empty becomes the handler of the whole batch. Any number of operations,
  numbered by \<open>nat\<close>; a number is the address of an operation's node and stands for the thread that
  executes it. An operation whose status is not 0 when it is submitted is non-blocking: its \<^verbatim>\<open>execute\<close>
  returns without waiting when another operation leads the batch, and its node may be used again once it
  is handled. One rule per atomic access of the code.
\<close>

section \<open>State and steps\<close>

text \<open>
  Program counters of \<^verbatim>\<open>execute\<close> and \<^verbatim>\<open>start_handle_operations\<close>: \<open>Load\<close> reads the list head,
  \<open>Cas res\<close> is about to swap it, \<open>Wait\<close> spins on its own status, \<open>Posted\<close> has returned from the
  \<^verbatim>\<open>execute\<close> of a non-blocking operation that is not handled yet, \<open>SpinBusy\<close> waits for
  \<^verbatim>\<open>handler_busy == 0\<close>, \<open>StoreBusy\<close> is about to set it, \<open>Grab\<close> to take the list, and \<open>Handle p\<close> is
  inside \<^verbatim>\<open>handle_operations\<close> with the list from \<open>p\<close> on still to be handled.
\<close>

datatype agg_pc = Idle | Load | Cas "nat option" | Wait | Posted | SpinBusy | StoreBusy | Grab | Handle "nat option"

record aggregator =
  pending_operations :: "nat option"
  handler_busy :: bool
  next_op :: "nat \<Rightarrow> nat option"
  status :: "nat \<Rightarrow> nat"
  agg_pcs :: "nat \<Rightarrow> agg_pc"
  submitted :: "nat \<Rightarrow> nat"
  handled :: "nat \<Rightarrow> nat"

text \<open>\<open>submitted\<close> and \<open>handled\<close> count how often each node was put in the list and handled.\<close>

definition agg_init :: aggregator where
  "agg_init = \<lparr>pending_operations = None, handler_busy = False, next_op = (\<lambda>_. None),
     status = (\<lambda>_. 0), agg_pcs = (\<lambda>_. Idle), submitted = (\<lambda>_. 0), handled = (\<lambda>_. 0)\<rparr>"

inductive agg_step :: "aggregator \<Rightarrow> aggregator \<Rightarrow> bool" where
  start: "agg_pcs s i = Idle \<Longrightarrow>
    agg_step s (s\<lparr>agg_pcs := (agg_pcs s)(i := Load), status := (status s)(i := st),
                  next_op := (next_op s)(i := None)\<rparr>)"
| load: "agg_pcs s i = Load \<Longrightarrow>
    agg_step s (s\<lparr>agg_pcs := (agg_pcs s)(i := Cas (pending_operations s)),
                  next_op := (next_op s)(i := pending_operations s)\<rparr>)"
| cas_ok: "agg_pcs s i = Cas res \<Longrightarrow> pending_operations s = res \<Longrightarrow>
    agg_step s (s\<lparr>agg_pcs := (agg_pcs s)(i := if res = None then SpinBusy else if status s i = 0 then Wait else Posted),
                  pending_operations := Some i, submitted := (submitted s)(i := Suc (submitted s i))\<rparr>)"
| cas_fail: "agg_pcs s i = Cas res \<Longrightarrow> pending_operations s \<noteq> res \<Longrightarrow>
    agg_step s (s\<lparr>agg_pcs := (agg_pcs s)(i := Load)\<rparr>)"
| spin: "agg_pcs s i = SpinBusy \<Longrightarrow> \<not> handler_busy s \<Longrightarrow>
    agg_step s (s\<lparr>agg_pcs := (agg_pcs s)(i := StoreBusy)\<rparr>)"
| store: "agg_pcs s i = StoreBusy \<Longrightarrow>
    agg_step s (s\<lparr>agg_pcs := (agg_pcs s)(i := Grab), handler_busy := True\<rparr>)"
| grab: "agg_pcs s i = Grab \<Longrightarrow>
    agg_step s (s\<lparr>agg_pcs := (agg_pcs s)(i := Handle (pending_operations s)), pending_operations := None\<rparr>)"
| handle: "agg_pcs s i = Handle (Some p) \<Longrightarrow>
    agg_step s (s\<lparr>agg_pcs := (agg_pcs s)(p := if agg_pcs s p = Posted then Idle else agg_pcs s p, i := Handle (next_op s p)),
                  status := (status s)(p := 1), handled := (handled s)(p := Suc (handled s p))\<rparr>)"
| release: "agg_pcs s i = Handle None \<Longrightarrow>
    agg_step s (s\<lparr>agg_pcs := (agg_pcs s)(i := Idle), handler_busy := False\<rparr>)"
| wake: "agg_pcs s i = Wait \<Longrightarrow> status s i \<noteq> 0 \<Longrightarrow>
    agg_step s (s\<lparr>agg_pcs := (agg_pcs s)(i := Idle)\<rparr>)"

inductive agg_reachable :: "aggregator \<Rightarrow> bool" where
  init: "agg_reachable agg_init"
| step: "agg_reachable s \<Longrightarrow> agg_step s t \<Longrightarrow> agg_reachable t"

section \<open>The invariant\<close>

definition leading :: "agg_pc \<Rightarrow> bool" where
  "leading c \<longleftrightarrow> c = SpinBusy \<or> c = StoreBusy \<or> c = Grab"

definition in_handler :: "agg_pc \<Rightarrow> bool" where
  "in_handler c \<longleftrightarrow> c = Grab \<or> (\<exists>p. c = Handle p)"

lemma pc_kinds [simp]:
  "\<not> leading Idle" "\<not> leading Load" "\<not> leading (Cas r)" "\<not> leading Wait" "\<not> leading Posted" "leading SpinBusy"
  "leading StoreBusy" "leading Grab" "\<not> leading (Handle p)"
  "\<not> in_handler Idle" "\<not> in_handler Load" "\<not> in_handler (Cas r)" "\<not> in_handler Wait" "\<not> in_handler Posted"
  "\<not> in_handler SpinBusy" "\<not> in_handler StoreBusy" "in_handler Grab" "in_handler (Handle p)"
  by (simp_all add: leading_def in_handler_def)

text \<open>
  \<open>ps\<close> are the pending nodes (newest first) and \<open>hs\<close> those the handler still has to handle. What
  a program counter says about its own thread: a thread outside the list has its node in neither;
  a waiting thread has not been served exactly while its node is in one of them; a posted node is in one
  of them; the oldest
  pending node belongs to the thread that leads the next batch.
\<close>

fun thread_ok :: "nat list \<Rightarrow> nat list \<Rightarrow> aggregator \<Rightarrow> nat \<Rightarrow> agg_pc \<Rightarrow> bool" where
  "thread_ok ps hs s i Idle \<longleftrightarrow> i \<notin> set ps \<and> i \<notin> set hs"
| "thread_ok ps hs s i Load \<longleftrightarrow> i \<notin> set ps \<and> i \<notin> set hs"
| "thread_ok ps hs s i (Cas r) \<longleftrightarrow> i \<notin> set ps \<and> i \<notin> set hs \<and> next_op s i = r"
| "thread_ok ps hs s i Wait \<longleftrightarrow>
     (status s i = 0 \<longleftrightarrow> i \<in> set ps \<or> i \<in> set hs) \<and> (ps \<noteq> [] \<longrightarrow> last ps \<noteq> i)"
| "thread_ok ps hs s i Posted \<longleftrightarrow> (i \<in> set ps \<or> i \<in> set hs) \<and> status s i \<noteq> 0 \<and> (ps \<noteq> [] \<longrightarrow> last ps \<noteq> i)"
| "thread_ok ps hs s i SpinBusy \<longleftrightarrow> ps \<noteq> [] \<and> last ps = i"
| "thread_ok ps hs s i StoreBusy \<longleftrightarrow> ps \<noteq> [] \<and> last ps = i \<and> \<not> handler_busy s"
| "thread_ok ps hs s i Grab \<longleftrightarrow> ps \<noteq> [] \<and> last ps = i \<and> handler_busy s \<and> hs = []"
| "thread_ok ps hs s i (Handle p) \<longleftrightarrow> i \<notin> set ps \<and> handler_busy s \<and> chain (next_op s) p hs"

text \<open>\<open>h\<close> is the thread that holds the handler, if there is one.\<close>

definition agg_inv_with :: "nat list \<Rightarrow> nat list \<Rightarrow> nat option \<Rightarrow> aggregator \<Rightarrow> bool" where
  "agg_inv_with ps hs h s \<longleftrightarrow>
     (\<forall>i. thread_ok ps hs s i (agg_pcs s i)) \<and>
     chain (next_op s) (pending_operations s) ps \<and> distinct ps \<and> distinct hs \<and> set ps \<inter> set hs = {} \<and>
     (ps \<noteq> [] \<longrightarrow> leading (agg_pcs s (last ps))) \<and>
     (\<forall>i. in_handler (agg_pcs s i) \<longleftrightarrow> h = Some i) \<and>
     (handler_busy s \<longleftrightarrow> h \<noteq> None) \<and> (h = None \<longrightarrow> hs = []) \<and>
     (\<forall>i. submitted s i = handled s i + (if i \<in> set ps \<or> i \<in> set hs then 1 else 0))"

lemma agg_invD:
  assumes "agg_inv_with ps hs h s"
  shows "thread_ok ps hs s i (agg_pcs s i)" "chain (next_op s) (pending_operations s) ps"
    "distinct ps" "distinct hs" "set ps \<inter> set hs = {}" "ps \<noteq> [] \<Longrightarrow> leading (agg_pcs s (last ps))"
    "in_handler (agg_pcs s i) \<longleftrightarrow> h = Some i"
    "handler_busy s \<longleftrightarrow> h \<noteq> None" "h = None \<Longrightarrow> hs = []"
    "submitted s i = handled s i + (if i \<in> set ps \<or> i \<in> set hs then 1 else 0)"
  using assms unfolding agg_inv_with_def by blast+

lemma agg_invI:
  assumes "\<And>i. thread_ok ps hs s i (agg_pcs s i)" "chain (next_op s) (pending_operations s) ps"
    "distinct ps" "distinct hs" "set ps \<inter> set hs = {}" "ps \<noteq> [] \<Longrightarrow> leading (agg_pcs s (last ps))"
    "\<And>i. in_handler (agg_pcs s i) \<longleftrightarrow> h = Some i"
    "handler_busy s \<longleftrightarrow> h \<noteq> None" "h = None \<Longrightarrow> hs = []"
    "\<And>i. submitted s i = handled s i + (if i \<in> set ps \<or> i \<in> set hs then 1 else 0)"
  shows "agg_inv_with ps hs h s"
  using assms unfolding agg_inv_with_def by blast

lemma agg_inv_init: "agg_inv_with [] [] None agg_init"
  by (rule agg_invI) (simp_all add: agg_init_def)

text \<open>A thread that does not move keeps what its program counter says when these fields agree.\<close>

lemma thread_ok_frame:
  assumes "thread_ok ps hs s i c" "next_op t i = next_op s i" "status t i = status s i"
    "handler_busy t = handler_busy s" "\<And>p. chain (next_op s) p hs \<Longrightarrow> chain (next_op t) p hs"
  shows "thread_ok ps hs t i c"
  using assms by (cases c) simp_all

lemma inv_start:
  assumes inv: "agg_inv_with ps hs h s" and pc: "agg_pcs s i = Idle"
  shows "agg_inv_with ps hs h (s\<lparr>agg_pcs := (agg_pcs s)(i := Load), status := (status s)(i := st),
                  next_op := (next_op s)(i := None)\<rparr>)"
proof -
  have f: "i \<notin> set ps" "i \<notin> set hs" "h \<noteq> Some i"
    using agg_invD(1,7) [OF inv, of i] pc by simp_all
  have l: "ps \<noteq> [] \<Longrightarrow> last ps \<noteq> i" using f by auto
  show ?thesis
    using f l agg_invD(2-) [OF inv] pc
    by (intro agg_invI) (auto split: if_splits intro: thread_ok_frame [OF agg_invD(1) [OF inv]])
qed

lemma inv_load:
  assumes inv: "agg_inv_with ps hs h s" and pc: "agg_pcs s i = Load"
  shows "agg_inv_with ps hs h (s\<lparr>agg_pcs := (agg_pcs s)(i := Cas (pending_operations s)),
                  next_op := (next_op s)(i := pending_operations s)\<rparr>)"
proof -
  have f: "i \<notin> set ps" "i \<notin> set hs" "h \<noteq> Some i"
    using agg_invD(1,7) [OF inv, of i] pc by simp_all
  have l: "ps \<noteq> [] \<Longrightarrow> last ps \<noteq> i" using f by auto
  show ?thesis
    using f l agg_invD(2-) [OF inv] pc
    by (intro agg_invI) (auto split: if_splits intro: thread_ok_frame [OF agg_invD(1) [OF inv]])
qed

lemma inv_cas_ok:
  assumes inv: "agg_inv_with ps hs h s" and pc: "agg_pcs s i = Cas (pending_operations s)"
  shows "agg_inv_with (i # ps) hs h (s\<lparr>agg_pcs := (agg_pcs s)(i := if pending_operations s = None then SpinBusy else if status s i = 0 then Wait else Posted),
       pending_operations := Some i, submitted := (submitted s)(i := Suc (submitted s i))\<rparr>)" (is "agg_inv_with _ _ _ ?t")
proof -
  have f: "i \<notin> set ps" "i \<notin> set hs" "h \<noteq> Some i" "next_op s i = pending_operations s"
    using agg_invD(1,7) [OF inv, of i] pc by simp_all
  have n: "pending_operations s = None \<longleftrightarrow> ps = []" using agg_invD(2) [OF inv] by (cases ps) auto
  have l: "ps \<noteq> [] \<Longrightarrow> last ps \<noteq> i" using f by auto
  have o: "thread_ok (i # ps) hs ?t j (agg_pcs s j)" if "j \<noteq> i" for j
    using agg_invD(1) [OF inv, of j] that f by (cases "agg_pcs s j") auto
  show ?thesis
    using f l n agg_invD(2-) [OF inv] pc o
    by (intro agg_invI) (auto split: if_splits)
qed


lemma inv_cas_fail:
  assumes inv: "agg_inv_with ps hs h s" and pc: "agg_pcs s i = Cas res"
  shows "agg_inv_with ps hs h (s\<lparr>agg_pcs := (agg_pcs s)(i := Load)\<rparr>)"
proof -
  have f: "i \<notin> set ps" "i \<notin> set hs" "h \<noteq> Some i"
    using agg_invD(1,7) [OF inv, of i] pc by simp_all
  have l: "ps \<noteq> [] \<Longrightarrow> last ps \<noteq> i" using f by auto
  show ?thesis
    using f l agg_invD(2-) [OF inv] pc
    by (intro agg_invI) (auto split: if_splits intro: thread_ok_frame [OF agg_invD(1) [OF inv]])
qed

lemma inv_spin:
  assumes inv: "agg_inv_with ps hs h s" and pc: "agg_pcs s i = SpinBusy" "\<not> handler_busy s"
  shows "agg_inv_with ps hs h (s\<lparr>agg_pcs := (agg_pcs s)(i := StoreBusy)\<rparr>)"
proof -
  have f: "ps \<noteq> []" "last ps = i" "h \<noteq> Some i"
    using agg_invD(1,7) [OF inv, of i] pc by simp_all
  show ?thesis
    using f agg_invD(2-) [OF inv] pc thread_ok_frame [OF agg_invD(1) [OF inv]]
    by (intro agg_invI) (auto split: if_splits)
qed

lemma inv_store:
  assumes inv: "agg_inv_with ps hs h s" and pc: "agg_pcs s i = StoreBusy"
  shows "agg_inv_with ps hs (Some i) (s\<lparr>agg_pcs := (agg_pcs s)(i := Grab), handler_busy := True\<rparr>)" (is "agg_inv_with _ _ _ ?t")
proof -
  have f: "ps \<noteq> []" "last ps = i" "\<not> handler_busy s"
    using agg_invD(1) [OF inv, of i] pc by simp_all
  then have h: "h = None" "hs = []" using agg_invD(8,9) [OF inv] by simp_all
  have o: "thread_ok ps hs ?t j (agg_pcs s j)" if "j \<noteq> i" for j
    using agg_invD(1,7) [OF inv, of j] that f h by (cases "agg_pcs s j") auto
  show ?thesis
    using f h agg_invD(2-) [OF inv] pc o
    by (intro agg_invI) (auto split: if_splits)
qed

lemma inv_grab:
  assumes inv: "agg_inv_with ps hs h s" and pc: "agg_pcs s i = Grab"
  shows "agg_inv_with [] ps h (s\<lparr>agg_pcs := (agg_pcs s)(i := Handle (pending_operations s)), pending_operations := None\<rparr>)"
    (is "agg_inv_with _ _ _ ?t")
proof -
  have f: "ps \<noteq> []" "last ps = i" "handler_busy s" "hs = []" "h = Some i"
    using agg_invD(1,7) [OF inv, of i] pc by simp_all
  have nl: "\<not> leading (agg_pcs s j)" if "j \<noteq> i" for j
    using agg_invD(1) [OF inv, of j] that f by (cases "agg_pcs s j") auto
  have nh: "\<not> in_handler (agg_pcs s j)" if "j \<noteq> i" for j
    using agg_invD(7) [OF inv, of j] that f by simp
  have o: "thread_ok [] ps ?t j (agg_pcs s j)" if "j \<noteq> i" for j
    using agg_invD(1) [OF inv, of j] that f nl [of j] nh [of j] by (cases "agg_pcs s j") auto
  show ?thesis
    using f agg_invD(2-) [OF inv] pc o nh
    by (intro agg_invI) (auto split: if_splits)
qed

lemma inv_handle:
  assumes inv: "agg_inv_with ps hs h s" and pc: "agg_pcs s i = Handle (Some p)"
  shows "hs \<noteq> [] \<and> p = hd hs \<and> agg_inv_with ps (tl hs) h (s\<lparr>agg_pcs := (agg_pcs s)(p := if agg_pcs s p = Posted then Idle else agg_pcs s p, i := Handle (next_op s p)),
                  status := (status s)(p := 1), handled := (handled s)(p := Suc (handled s p))\<rparr>)" (is "_ \<and> _ \<and> agg_inv_with _ _ _ ?t")
proof -
  have f: "i \<notin> set ps" "handler_busy s" "chain (next_op s) (Some p) hs" "h = Some i"
    using agg_invD(1,7) [OF inv, of i] pc by simp_all
  then obtain hs' where hs: "hs = p # hs'" "chain (next_op s) (next_op s p) hs'" by (cases hs) auto
  then have np: "p \<notin> set ps" "p \<notin> set hs'" using agg_invD(4,5) [OF inv] by auto
  have nh: "\<not> in_handler (agg_pcs s j)" if "j \<noteq> i" for j
    using agg_invD(7) [OF inv, of j] that f by simp
  have o: "thread_ok ps hs' ?t j (agg_pcs ?t j)" if "j \<noteq> i" for j
    using agg_invD(1) [OF inv, of j] that f nh [of j] hs np by (cases "agg_pcs s j") auto
  have m: "in_handler (agg_pcs ?t j) = in_handler (agg_pcs s j)" "leading (agg_pcs ?t j) = leading (agg_pcs s j)" for j
    using f(4) agg_invD(7) [OF inv, of i] pc by auto
  have l: "ps \<noteq> [] \<Longrightarrow> last ps \<noteq> i" using f by auto
  show ?thesis
  proof (intro conjI agg_invI)
    show "thread_ok ps (tl hs) ?t j (agg_pcs ?t j)" for j using o [of j] hs f by (cases "j = i") auto
    show "in_handler (agg_pcs ?t j) \<longleftrightarrow> h = Some j" for j unfolding m by (rule agg_invD(7) [OF inv])
    show "ps \<noteq> [] \<Longrightarrow> leading (agg_pcs ?t (last ps))" unfolding m by (rule agg_invD(6) [OF inv])
  qed (use f hs np agg_invD(2-) [OF inv] in auto)
qed

lemma inv_release:
  assumes inv: "agg_inv_with ps hs h s" and pc: "agg_pcs s i = Handle None"
  shows "hs = [] \<and> agg_inv_with ps hs None (s\<lparr>agg_pcs := (agg_pcs s)(i := Idle), handler_busy := False\<rparr>)"
    (is "_ \<and> agg_inv_with _ _ _ ?t")
proof -
  have f: "i \<notin> set ps" "handler_busy s" "hs = []" "h = Some i"
    using agg_invD(1,7) [OF inv, of i] pc by simp_all
  have nh: "\<not> in_handler (agg_pcs s j)" if "j \<noteq> i" for j
    using agg_invD(7) [OF inv, of j] that f by simp
  have o: "thread_ok ps hs ?t j (agg_pcs s j)" if "j \<noteq> i" for j
    using agg_invD(1) [OF inv, of j] that f nh [of j] by (cases "agg_pcs s j") auto
  have l: "ps \<noteq> [] \<Longrightarrow> last ps \<noteq> i" using f by auto
  show ?thesis
    using f agg_invD(2-) [OF inv] pc o nh l
    by (intro conjI agg_invI) (auto split: if_splits)
qed

lemma inv_wake:
  assumes inv: "agg_inv_with ps hs h s" and pc: "agg_pcs s i = Wait" "status s i \<noteq> 0"
  shows "agg_inv_with ps hs h (s\<lparr>agg_pcs := (agg_pcs s)(i := Idle)\<rparr>)"
proof -
  have f: "i \<notin> set ps" "i \<notin> set hs" "h \<noteq> Some i"
    using agg_invD(1,7) [OF inv, of i] pc by simp_all
  have l: "ps \<noteq> [] \<Longrightarrow> last ps \<noteq> i" using f by auto
  show ?thesis
    using f l agg_invD(2-) [OF inv] pc
    by (intro agg_invI) (auto split: if_splits intro: thread_ok_frame [OF agg_invD(1) [OF inv]])
qed

definition agg_inv :: "aggregator \<Rightarrow> bool" where
  "agg_inv s \<longleftrightarrow> (\<exists>ps hs h. agg_inv_with ps hs h s)"

lemma agg_step_inv: "agg_step s t \<Longrightarrow> agg_inv s \<Longrightarrow> agg_inv t"
  unfolding agg_inv_def
  by (induction rule: agg_step.induct)
    (blast intro: inv_start inv_load inv_cas_ok inv_cas_fail inv_spin inv_store inv_grab inv_wake
       dest: inv_handle inv_release)+

lemma agg_reachable_inv: "agg_reachable s \<Longrightarrow> agg_inv s"
  by (induction rule: agg_reachable.induct) (use agg_inv_init agg_step_inv in \<open>auto simp: agg_inv_def [of agg_init]\<close>)

text \<open>A thread that leads or handles a batch can move.\<close>

lemma handler_moves:
  assumes inv: "agg_inv_with ps hs h s" and pc: "in_handler (agg_pcs s j)"
  shows "\<exists>t. agg_step s t \<and> agg_pcs s j \<noteq> Idle \<and> agg_pcs t j \<noteq> agg_pcs s j"
proof -
  consider "agg_pcs s j = Grab" | p where "agg_pcs s j = Handle (Some p)" | "agg_pcs s j = Handle None"
    using pc unfolding in_handler_def by (metis not_Some_eq)
  then show ?thesis
  proof cases
    case 1
    from agg_step.grab [OF this] 1 show ?thesis by fastforce
  next
    case (2 p)
    have "chain (next_op s) (Some p) hs" using agg_invD(1) [OF inv, of j] 2 by simp
    then have "next_op s p \<noteq> Some p" using agg_invD(4) [OF inv] by (cases hs; cases "tl hs") auto
    with agg_step.handle [OF 2] 2 show ?thesis by fastforce
  next
    case 3
    from agg_step.release [OF this] 3 show ?thesis by fastforce
  qed
qed

lemma movesI:
  "agg_step s t \<Longrightarrow> agg_pcs s j \<noteq> Idle \<Longrightarrow> agg_pcs t j \<noteq> agg_pcs s j \<Longrightarrow>
    \<exists>j t. agg_step s t \<and> agg_pcs s j \<noteq> Idle \<and> agg_pcs t j \<noteq> agg_pcs s j"
  by blast

lemma leader_moves:
  assumes inv: "agg_inv_with ps hs h s" and pc: "leading (agg_pcs s i)"
  shows "\<exists>j t. agg_step s t \<and> agg_pcs s j \<noteq> Idle \<and> agg_pcs t j \<noteq> agg_pcs s j"
proof -
  consider "agg_pcs s i = SpinBusy" "\<not> handler_busy s" | "agg_pcs s i = SpinBusy" "handler_busy s"
    | "agg_pcs s i = StoreBusy" | "agg_pcs s i = Grab" using pc by (auto simp: leading_def)
  then show ?thesis
  proof cases
    case 1
    show ?thesis by (rule movesI [OF agg_step.spin [OF 1], of i]) (use 1 in simp_all)
  next
    case 2
    then obtain j where "in_handler (agg_pcs s j)" using agg_invD(7,8) [OF inv] by auto
    with handler_moves [OF inv this] show ?thesis by blast
  next
    case 3
    show ?thesis by (rule movesI [OF agg_step.store [OF 3], of i]) (use 3 in simp_all)
  next
    case 4
    show ?thesis by (rule movesI [OF agg_step.grab [OF 4], of i]) (use 4 in simp_all)
  qed
qed

text \<open>While an operation is not handled, the leader or the handler can move.\<close>

lemma listed_moves:
  assumes inv: "agg_inv_with ps hs h s" and i: "i \<in> set ps \<or> i \<in> set hs"
  shows "\<exists>j t. agg_step s t \<and> agg_pcs s j \<noteq> Idle \<and> agg_pcs t j \<noteq> agg_pcs s j"
proof (cases "ps = []")
  case False
  then show ?thesis using leader_moves [OF inv agg_invD(6) [OF inv]] by blast
next
  case True
  then have "hs \<noteq> []" using i by auto
  then obtain j where "in_handler (agg_pcs s j)" using agg_invD(7,9) [OF inv] by auto
  with handler_moves [OF inv this] show ?thesis by blast
qed

section \<open>A sample execution\<close>

text \<open>Thread 0 submits and leads, thread 1 joins the same batch, thread 0 sets the busy flag and grabs.\<close>

definition agg_s1 :: aggregator where
  "agg_s1 = agg_init\<lparr>agg_pcs := (\<lambda>_. Idle)(0 := Load)\<rparr>"

definition agg_s2 :: aggregator where
  "agg_s2 = agg_init\<lparr>agg_pcs := (\<lambda>_. Idle)(0 := Cas None)\<rparr>"

definition agg_s3 :: aggregator where
  "agg_s3 = agg_init\<lparr>agg_pcs := (\<lambda>_. Idle)(0 := SpinBusy), pending_operations := Some 0,
     submitted := (\<lambda>_. 0)(0 := 1)\<rparr>"

definition agg_s4 :: aggregator where
  "agg_s4 = agg_s3\<lparr>agg_pcs := (\<lambda>_. Idle)(0 := Grab), handler_busy := True\<rparr>"

lemma agg_fields [simp]:
  "agg_pcs agg_init = (\<lambda>_. Idle)" "status agg_init = (\<lambda>_. 0)" "next_op agg_init = (\<lambda>_. None)"
  "pending_operations agg_init = None" "handler_busy agg_init = False" "submitted agg_init = (\<lambda>_. 0)"
  "handled agg_init = (\<lambda>_. 0)"
  by (simp_all add: agg_init_def)

lemma agg_s3_reachable: "agg_reachable agg_s3"
proof -
  have e: "(\<lambda>_. 0)(0 := (0::nat)) = (\<lambda>_. 0)" "(\<lambda>_. None)(0 := None) = (\<lambda>_. None)" by auto
  have 1: "agg_step agg_init agg_s1"
    using agg_step.start [of agg_init 0 0] by (simp add: agg_s1_def agg_init_def e)
  have 2: "agg_step agg_s1 agg_s2"
    using agg_step.load [of agg_s1 0] by (simp add: agg_s1_def agg_s2_def agg_init_def e)
  have 3: "agg_step agg_s2 agg_s3"
    using agg_step.cas_ok [of agg_s2 0 None] by (simp add: agg_s2_def agg_s3_def agg_init_def)
  show ?thesis using 1 2 3 by (blast intro: agg_reachable.intros)
qed

lemma agg_s4_reachable: "agg_reachable agg_s4"
proof -
  let ?m = "agg_s3\<lparr>agg_pcs := (\<lambda>_. Idle)(0 := StoreBusy)\<rparr>"
  have 1: "agg_step agg_s3 ?m" using agg_step.spin [of agg_s3 0] by (simp add: agg_s3_def)
  have 2: "agg_step ?m agg_s4" using agg_step.store [of ?m 0] by (simp add: agg_s4_def)
  show ?thesis using agg_s3_reachable 1 2 by (blast intro: agg_reachable.intros)
qed

section \<open>Properties\<close>

text \<open>
  C6: only one thread at a time is between setting \<^verbatim>\<open>handler_busy\<close> and clearing it, so the batch
  handlers built on the aggregator run one after the other; and only one thread at a time leads
  the next batch, so that the plain store to \<^verbatim>\<open>handler_busy\<close> cannot race.
\<close>

theorem aggregator_mutual_exclusion:
  assumes "agg_reachable s"
  shows "(in_handler (agg_pcs s i) \<longrightarrow> in_handler (agg_pcs s j) \<longrightarrow> i = j) \<and>
    (leading (agg_pcs s i) \<longrightarrow> leading (agg_pcs s j) \<longrightarrow> i = j)"
proof -
  obtain ps hs h where inv: "agg_inv_with ps hs h s"
    using agg_reachable_inv [OF assms] by (auto simp: agg_inv_def)
  have "i = last ps" if "leading (agg_pcs s i)" for i
    using agg_invD(1) [OF inv, of i] that by (cases "agg_pcs s i") simp_all
  then show ?thesis using agg_invD(7) [OF inv, of i] agg_invD(7) [OF inv, of j] by auto
qed

theorem aggregator_mutual_exclusion_witness:
  "in_handler (agg_pcs agg_s4 0) \<and> \<not> in_handler (agg_pcs agg_s4 1)"
proof -
  have "in_handler (agg_pcs agg_s4 0)" by (simp add: agg_s4_def)
  then show ?thesis using aggregator_mutual_exclusion [OF agg_s4_reachable, of 0 1] by auto
qed

text \<open>
  C10: every operation is handled exactly once for each time it is submitted, and before its \<^verbatim>\<open>execute\<close>
  returns unless it is non-blocking: a node outside the aggregator has been handled as often as it was
  submitted, one inside it at most once less; and only a non-blocking operation (its status was not 0)
  can be left behind by an \<^verbatim>\<open>execute\<close> that has returned, with exactly one handling still to come.
\<close>

theorem aggregator_exactly_once:
  assumes "agg_reachable s"
  shows "handled s i \<le> submitted s i \<and> submitted s i \<le> Suc (handled s i) \<and>
    (agg_pcs s i = Idle \<longrightarrow> handled s i = submitted s i) \<and>
    (agg_pcs s i = Posted \<longrightarrow> submitted s i = Suc (handled s i) \<and> status s i \<noteq> 0)"
proof -
  obtain ps hs h where inv: "agg_inv_with ps hs h s"
    using agg_reachable_inv [OF assms] by (auto simp: agg_inv_def)
  show ?thesis using agg_invD(10) [OF inv, of i] agg_invD(1) [OF inv, of i] by auto
qed

theorem aggregator_exactly_once_witness:
  "submitted agg_s3 0 = 1 \<and> handled agg_s3 0 \<le> submitted agg_s3 0"
  using aggregator_exactly_once [OF agg_s3_reachable, of 0] by (simp add: agg_s3_def)

text \<open>
  C32: no operation is lost and the aggregator does not block: while any thread is inside \<^verbatim>\<open>execute\<close>, or
  a non-blocking operation is not handled yet, some thread can take a step that changes its program counter.
\<close>

theorem aggregator_progress:
  assumes "agg_reachable s" and "agg_pcs s i \<noteq> Idle"
  shows "\<exists>j t. agg_step s t \<and> agg_pcs s j \<noteq> Idle \<and> agg_pcs t j \<noteq> agg_pcs s j"
proof -
  obtain ps hs h where inv: "agg_inv_with ps hs h s"
    using agg_reachable_inv [OF assms(1)] by (auto simp: agg_inv_def)
  show ?thesis
  proof (cases "agg_pcs s i")
    case Load
    show ?thesis by (rule movesI [OF agg_step.load [OF Load], of i]) (use Load in simp_all)
  next
    case (Cas r)
    show ?thesis
    proof (cases "pending_operations s = r")
      case True
      show ?thesis by (rule movesI [OF agg_step.cas_ok [OF Cas True], of i]) (use Cas in simp_all)
    next
      case False
      show ?thesis by (rule movesI [OF agg_step.cas_fail [OF Cas False], of i]) (use Cas in simp_all)
    qed
  next
    case Posted
    then have "i \<in> set ps \<or> i \<in> set hs" using agg_invD(1) [OF inv, of i] by simp
    then show ?thesis using listed_moves [OF inv] by blast
  next
    case Wait
    show ?thesis
    proof (cases "status s i = 0")
      case False
      show ?thesis by (rule movesI [OF agg_step.wake [OF Wait False], of i]) (use Wait in simp_all)
    next
      case True
      then have "i \<in> set ps \<or> i \<in> set hs" using agg_invD(1) [OF inv, of i] Wait by simp
      then show ?thesis using listed_moves [OF inv] by blast
    qed
  next
    case (Handle r)
    then have "in_handler (agg_pcs s i)" by simp
    with handler_moves [OF inv this] show ?thesis by blast
  qed (use assms(2) leader_moves [OF inv, of i] in simp_all)
qed

theorem aggregator_progress_witness:
  "agg_pcs agg_s3 0 = SpinBusy \<and>
   (\<exists>j t. agg_step agg_s3 t \<and> agg_pcs agg_s3 j \<noteq> Idle \<and> agg_pcs t j \<noteq> agg_pcs agg_s3 j)"
proof -
  have pc: "agg_pcs agg_s3 0 = SpinBusy" by (simp add: agg_s3_def)
  then have ne: "agg_pcs agg_s3 0 \<noteq> Idle" by simp
  show ?thesis using aggregator_progress [OF agg_s3_reachable ne] pc by simp
qed

end
