(* ===== verification/Spin_Rw_Mutex.thy ===== *)
theory Spin_Rw_Mutex
  imports Prelude
begin

unbundle bit_operations_syntax

text \<open>
  \<^verbatim>\<open>include/tbb/spin_rw_mutex.h\<close> and \<^verbatim>\<open>src/tbb/spin_rw_mutex.cpp\<close>: the reader-writer spin lock on one
  machine word. The word is kept at its width; every atomic access of the code is one step of a
  thread, and the threads (a list of program counters) interleave freely.
\<close>

section \<open>The lock word\<close>

definition WRITER :: "64 word" where "WRITER = 1"
definition WRITER_PENDING :: "64 word" where "WRITER_PENDING = 2"
definition READERS :: "64 word" where "READERS = NOT (WRITER OR WRITER_PENDING)"
definition ONE_READER :: "64 word" where "ONE_READER = 4"
definition BUSY :: "64 word" where "BUSY = WRITER OR READERS"

lemmas rw_consts = WRITER_def WRITER_PENDING_def READERS_def ONE_READER_def BUSY_def

section \<open>Steps of one thread\<close>

text \<open>
  \<open>AW_\<dots>\<close>, \<open>AR_\<dots>\<close>, \<open>UP_\<dots>\<close>, \<open>TW_\<dots>\<close> and \<open>TR_\<dots>\<close> are the points inside
  \<^verbatim>\<open>internal_acquire_writer\<close>, \<^verbatim>\<open>internal_acquire_reader\<close>, \<^verbatim>\<open>internal_upgrade\<close>,
  \<^verbatim>\<open>internal_try_acquire_writer\<close> and \<^verbatim>\<open>internal_try_acquire_reader\<close>; a thread at \<open>Reader\<close> or \<open>Writer\<close>
  holds the lock.
\<close>

datatype rw_pc = NoLock | Reader | Writer
  | AW_Load | AW_Cas "64 word" | AW_Or
  | AR_Load | AR_Add | AR_Undo
  | UP_Test "64 word" | UP_Spin | UP_Sub | UP_Release
  | TW_Load | TW_Cas "64 word"
  | TR_Load | TR_Add | TR_Undo

inductive rw_thread :: "64 word \<Rightarrow> rw_pc \<Rightarrow> 64 word \<Rightarrow> rw_pc \<Rightarrow> bool" where
  aw_call: "rw_thread s NoLock s AW_Load"
| aw_free: "s AND BUSY = 0 \<Longrightarrow> rw_thread s AW_Load s (AW_Cas s)"
| aw_busy: "s AND BUSY \<noteq> 0 \<Longrightarrow> s AND WRITER_PENDING = 0 \<Longrightarrow> rw_thread s AW_Load s AW_Or"
| aw_wait: "s AND BUSY \<noteq> 0 \<Longrightarrow> s AND WRITER_PENDING \<noteq> 0 \<Longrightarrow> rw_thread s AW_Load s AW_Load"
| aw_cas: "rw_thread s (AW_Cas s) WRITER Writer"
| aw_cas_fail: "s \<noteq> r \<Longrightarrow> rw_thread s (AW_Cas r) s AW_Load"
| aw_or: "rw_thread s AW_Or (s OR WRITER_PENDING) AW_Load"
| release_writer: "rw_thread s Writer (s AND READERS) NoLock"
| ar_call: "rw_thread s NoLock s AR_Load"
| ar_free: "s AND (WRITER OR WRITER_PENDING) = 0 \<Longrightarrow> rw_thread s AR_Load s AR_Add"
| ar_wait: "s AND (WRITER OR WRITER_PENDING) \<noteq> 0 \<Longrightarrow> rw_thread s AR_Load s AR_Load"
| ar_add: "s AND WRITER = 0 \<Longrightarrow> rw_thread s AR_Add (s + ONE_READER) Reader"
| ar_late: "s AND WRITER \<noteq> 0 \<Longrightarrow> rw_thread s AR_Add (s + ONE_READER) AR_Undo"
| ar_undo: "rw_thread s AR_Undo (s - ONE_READER) AR_Load"
| release_reader: "rw_thread s Reader (s - ONE_READER) NoLock"
| up_call: "rw_thread s Reader s (UP_Test s)"
| up_cas: "s AND READERS = ONE_READER \<or> s AND WRITER_PENDING = 0 \<Longrightarrow>
    rw_thread s (UP_Test s) (s OR WRITER OR WRITER_PENDING) UP_Spin"
| up_retry: "r AND READERS = ONE_READER \<or> r AND WRITER_PENDING = 0 \<Longrightarrow> s \<noteq> r \<Longrightarrow>
    rw_thread s (UP_Test r) s (UP_Test s)"
| up_slow: "\<not> (r AND READERS = ONE_READER \<or> r AND WRITER_PENDING = 0) \<Longrightarrow>
    rw_thread s (UP_Test r) s UP_Release"
| up_release: "rw_thread s UP_Release (s - ONE_READER) AW_Load"
| up_spin: "s AND READERS = ONE_READER \<Longrightarrow> rw_thread s UP_Spin s UP_Sub"
| up_spin_wait: "s AND READERS \<noteq> ONE_READER \<Longrightarrow> rw_thread s UP_Spin s UP_Spin"
| up_sub: "rw_thread s UP_Sub (s - (ONE_READER + WRITER_PENDING)) Writer"
| downgrade: "rw_thread s Writer (s + (ONE_READER - WRITER)) Reader"
| tw_call: "rw_thread s NoLock s TW_Load"
| tw_free: "s AND BUSY = 0 \<Longrightarrow> rw_thread s TW_Load s (TW_Cas s)"
| tw_busy: "s AND BUSY \<noteq> 0 \<Longrightarrow> rw_thread s TW_Load s NoLock"
| tw_cas: "rw_thread s (TW_Cas s) WRITER Writer"
| tw_cas_fail: "s \<noteq> r \<Longrightarrow> rw_thread s (TW_Cas r) s NoLock"
| tr_call: "rw_thread s NoLock s TR_Load"
| tr_free: "s AND (WRITER OR WRITER_PENDING) = 0 \<Longrightarrow> rw_thread s TR_Load s TR_Add"
| tr_busy: "s AND (WRITER OR WRITER_PENDING) \<noteq> 0 \<Longrightarrow> rw_thread s TR_Load s NoLock"
| tr_add: "s AND WRITER = 0 \<Longrightarrow> rw_thread s TR_Add (s + ONE_READER) Reader"
| tr_late: "s AND WRITER \<noteq> 0 \<Longrightarrow> rw_thread s TR_Add (s + ONE_READER) TR_Undo"
| tr_undo: "rw_thread s TR_Undo (s - ONE_READER) NoLock"

section \<open>The lock and its threads\<close>

record rw_mutex =
  state :: "64 word"
  threads :: "rw_pc list"

definition rw_init :: "nat \<Rightarrow> rw_mutex" where
  "rw_init n = \<lparr>state = 0, threads = replicate n NoLock\<rparr>"

inductive rw_step :: "rw_mutex \<Rightarrow> rw_mutex \<Rightarrow> bool" where
  thread: "i < length (threads m) \<Longrightarrow> rw_thread (state m) (threads m ! i) s' c' \<Longrightarrow>
    rw_step m \<lparr>state = s', threads = (threads m)[i := c']\<rparr>"

inductive rw_reachable :: "nat \<Rightarrow> rw_mutex \<Rightarrow> bool" for n where
  init: "rw_reachable n (rw_init n)"
| step: "rw_reachable n m \<Longrightarrow> rw_step m m' \<Longrightarrow> rw_reachable n m'"

section \<open>What the lock word encodes\<close>

definition enc :: "nat \<Rightarrow> bool \<Rightarrow> bool \<Rightarrow> 64 word" where
  "enc n p w = push_bit 2 (of_nat n) OR (if p then 2 else 0) OR (if w then 1 else 0)"

lemma bit_small:
  "bit (1::64 word) k \<longleftrightarrow> k = 0" "bit (2::64 word) k \<longleftrightarrow> k = 1"
proof -
  show "bit (1::64 word) k \<longleftrightarrow> k = 0" by (simp add: bit_1_iff)
  have "(2::64 word) = push_bit 1 1" by simp
  then show "bit (2::64 word) k \<longleftrightarrow> k = 1" by (simp only: bit_push_bit_iff bit_1_iff) auto
qed

lemma enc_add: "enc n p w = 4 * of_nat n + (if p then 2 else 0) + (if w then 1 else 0)"
proof -
  have 1: "push_bit 2 (of_nat n) OR (if p then 2 else 0) = push_bit 2 (of_nat n) + (if p then 2 else 0::64 word)"
    by (rule sym, rule disjunctive_add) (auto simp: bit_simps bit_small)
  have 2: "push_bit 2 (of_nat n) OR (if p then 2 else 0) OR (if w then 1 else 0)
    = (push_bit 2 (of_nat n) OR (if p then 2 else 0)) + (if w then 1 else 0::64 word)"
    unfolding or.assoc [symmetric]
    by (rule sym, rule disjunctive_add) (auto simp: bit_simps bit_small)
  show ?thesis unfolding enc_def 2 1 by (simp add: push_bit_eq_mult)
qed

lemma bit_consts:
  "bit WRITER k \<longleftrightarrow> k = 0" "bit WRITER_PENDING k \<longleftrightarrow> k = 1"
  "bit READERS k \<longleftrightarrow> 2 \<le> k \<and> k < 64" "bit BUSY k \<longleftrightarrow> k \<noteq> 1 \<and> k < 64"
proof -
  show 1: "bit WRITER k \<longleftrightarrow> k = 0" "bit WRITER_PENDING k \<longleftrightarrow> k = 1" for k
    unfolding rw_consts(1,2) by (rule bit_small)+
  show 2: "bit READERS k \<longleftrightarrow> 2 \<le> k \<and> k < 64" for k
    unfolding READERS_def by (simp only: bit_simps 1) auto
  show "bit BUSY k \<longleftrightarrow> k \<noteq> 1 \<and> k < 64"
    unfolding BUSY_def by (simp only: bit_simps 1 2) auto
qed

lemma bit_enc:
  "bit (enc n p w) k \<longleftrightarrow>
    (if k = 0 then w else if k = 1 then p else k < 64 \<and> bit (of_nat n :: 64 word) (k - 2))"
  unfolding enc_def by (auto simp: bit_simps bit_small)

lemma enc_and:
  "enc n p w AND WRITER = enc 0 False w" "enc n p w AND WRITER_PENDING = enc 0 p False"
  "enc n p w AND (WRITER OR WRITER_PENDING) = enc 0 p w"
  "enc n p w AND READERS = enc n False False" "enc n p w AND BUSY = enc n False w"
  "enc n p w OR WRITER_PENDING = enc n True w" "enc n p w OR WRITER OR WRITER_PENDING = enc n True True"
  by (rule bit_word_eqI, auto simp: bit_and_iff bit_or_iff bit_consts bit_enc)+

lemma enc_arith:
  "enc n p w + ONE_READER = enc (Suc n) p w"
  "enc (Suc n) p w - ONE_READER = enc n p w"
  "enc (Suc n) True w - (ONE_READER + WRITER_PENDING) = enc n False w"
  "enc n p True + (ONE_READER - WRITER) = enc (Suc n) p False"
  by (simp_all add: enc_add rw_consts(1,2,4) algebra_simps)

lemma enc_consts: "WRITER = enc 0 False True" "ONE_READER = enc 1 False False" "0 = enc 0 False False"
  by (simp_all add: enc_add rw_consts(1,2,4))

lemma unat_enc: "n < 2^61 \<Longrightarrow> unat (enc n p w) = 4 * n + 2 * of_bool p + of_bool w"
proof -
  assume a: "n < 2^61"
  have e: "enc n p w = word_of_nat (4 * n + 2 * of_bool p + of_bool w)" by (simp add: enc_add)
  have "4 * n + 2 * of_bool p + of_bool w < 2 ^ LENGTH(64)" using a by auto
  then show ?thesis unfolding e unat_of_nat by (rule mod_less)
qed

lemma enc_eq:
  assumes "m < 2^61" "n < 2^61"
  shows "enc m p w = enc n p' w' \<longleftrightarrow> m = n \<and> p = p' \<and> w = w'"
proof -
  have "enc m p w = enc n p' w' \<longleftrightarrow> 4 * m + 2 * of_bool p + of_bool w = 4 * n + 2 * of_bool p' + of_bool w'"
    using unat_enc [OF assms(1), of p w] unat_enc [OF assms(2), of p' w'] by (metis word_unat_eq_iff)
  then show ?thesis by (cases p; cases w; cases p'; cases w'; simp; presburger)
qed

section \<open>The invariant\<close>

text \<open>
  The threads the word counts as readers: real readers, readers in an upgrade up to the end of
  the exchange, and readers that came too late and are about to undo their increment.
\<close>

definition counted :: "rw_pc \<Rightarrow> bool" where
  "counted c \<longleftrightarrow> c \<in> {Reader, UP_Spin, UP_Sub, UP_Release, AR_Undo, TR_Undo} \<or> (\<exists>s. c = UP_Test s)"

definition reading :: "rw_pc \<Rightarrow> bool" where
  "reading c \<longleftrightarrow> c = Reader \<or> c = UP_Release \<or> (\<exists>s. c = UP_Test s)"

definition owning :: "rw_pc \<Rightarrow> bool" where
  "owning c \<longleftrightarrow> c = Writer \<or> c = UP_Spin \<or> c = UP_Sub"

text \<open>Threads that want to write and may have set the pending bit.\<close>

definition pending_pc :: "rw_pc \<Rightarrow> bool" where
  "pending_pc c \<longleftrightarrow> c \<in> {AW_Load, AW_Or, UP_Spin, UP_Sub} \<or> (\<exists>s. c = AW_Cas s)"

definition count_readers :: "rw_pc list \<Rightarrow> nat" where
  "count_readers cs = length (filter counted cs)"

text \<open>
  What a program counter says: \<open>q\<close> is the thread that set the writer bit, \<open>x\<close> whether it already
  excludes every reader, \<open>p\<close> the pending bit.
\<close>

fun rw_ok :: "nat option \<Rightarrow> bool \<Rightarrow> bool \<Rightarrow> nat \<Rightarrow> rw_pc \<Rightarrow> bool" where
  "rw_ok q x p i Writer \<longleftrightarrow> q = Some i \<and> x"
| "rw_ok q x p i UP_Sub \<longleftrightarrow> q = Some i \<and> x \<and> p"
| "rw_ok q x p i UP_Spin \<longleftrightarrow> q = Some i \<and> \<not> x \<and> p"
| "rw_ok q x p i Reader \<longleftrightarrow> q \<noteq> Some i \<and> \<not> x"
| "rw_ok q x p i UP_Release \<longleftrightarrow> q \<noteq> Some i \<and> \<not> x"
| "rw_ok q x p i (UP_Test s) \<longleftrightarrow> q \<noteq> Some i \<and> \<not> x"
| "rw_ok q x p i (AW_Cas s) \<longleftrightarrow> q \<noteq> Some i \<and> s AND BUSY = 0"
| "rw_ok q x p i (TW_Cas s) \<longleftrightarrow> q \<noteq> Some i \<and> s AND BUSY = 0"
| "rw_ok q x p i _ \<longleftrightarrow> q \<noteq> Some i"

definition rw_inv :: "nat option \<Rightarrow> bool \<Rightarrow> bool \<Rightarrow> rw_mutex \<Rightarrow> bool" where
  "rw_inv q x p m \<longleftrightarrow> length (threads m) < 2 ^ 60 \<and>
     state m = enc (count_readers (threads m)) p (q \<noteq> None) \<and>
     (\<forall>i < length (threads m). rw_ok q x p i (threads m ! i)) \<and>
     (x \<longrightarrow> q \<noteq> None) \<and> (\<forall>i. q = Some i \<longrightarrow> i < length (threads m)) \<and>
     (p \<longrightarrow> (\<exists>i < length (threads m). pending_pc (threads m ! i)))"

lemma rw_invD:
  assumes "rw_inv q x p m"
  shows "length (threads m) < 2 ^ 60" "state m = enc (count_readers (threads m)) p (q \<noteq> None)"
    "i < length (threads m) \<Longrightarrow> rw_ok q x p i (threads m ! i)" "x \<Longrightarrow> q \<noteq> None"
    "q = Some i \<Longrightarrow> i < length (threads m)"
    "p \<Longrightarrow> \<exists>i < length (threads m). pending_pc (threads m ! i)"
  using assms unfolding rw_inv_def by blast+

lemma counted_pc [simp]:
  "counted Reader" "counted UP_Spin" "counted UP_Sub" "counted UP_Release" "counted AR_Undo"
  "counted TR_Undo" "counted (UP_Test s)" "\<not> counted NoLock" "\<not> counted Writer" "\<not> counted AW_Load"
  "\<not> counted (AW_Cas s)" "\<not> counted AW_Or" "\<not> counted AR_Load" "\<not> counted AR_Add"
  "\<not> counted TW_Load" "\<not> counted (TW_Cas s)" "\<not> counted TR_Load" "\<not> counted TR_Add"
  by (auto simp: counted_def)

lemma pending_pc_simps [simp]:
  "pending_pc AW_Load" "pending_pc AW_Or" "pending_pc UP_Spin" "pending_pc UP_Sub" "pending_pc (AW_Cas s)"
  "\<not> pending_pc NoLock" "\<not> pending_pc Reader" "\<not> pending_pc Writer" "\<not> pending_pc AR_Load"
  "\<not> pending_pc AR_Add" "\<not> pending_pc AR_Undo" "\<not> pending_pc (UP_Test s)" "\<not> pending_pc UP_Release"
  "\<not> pending_pc TW_Load" "\<not> pending_pc (TW_Cas s)" "\<not> pending_pc TR_Load" "\<not> pending_pc TR_Add"
  "\<not> pending_pc TR_Undo"
  by (auto simp: pending_pc_def)

lemma rw_pc_kinds: "reading c \<Longrightarrow> counted c" "c \<noteq> UP_Sub \<Longrightarrow> \<not> counted c \<Longrightarrow> owning c \<Longrightarrow> c = Writer"
  by (auto simp: reading_def owning_def)

lemma rw_ok_owning: "rw_ok q x p i c \<Longrightarrow> owning c \<longleftrightarrow> q = Some i"
  by (cases c) (auto simp: owning_def)

lemma rw_ok_reading: "rw_ok q x p i c \<Longrightarrow> reading c \<Longrightarrow> \<not> x"
  by (cases c) (auto simp: reading_def)

lemma count_readers_le: "count_readers cs \<le> length cs"
  unfolding count_readers_def by (rule length_filter_le)

text \<open>One thread moves: the others keep what their program counters say.\<close>

lemma rw_inv_update:
  assumes "rw_inv q x p m" "i < length (threads m)"
    and "s' = enc (count_readers ((threads m)[i := c'])) p' (q' \<noteq> None)"
    and "rw_ok q' x' p' i c'"
    and "\<And>j. j < length (threads m) \<Longrightarrow> j \<noteq> i \<Longrightarrow> rw_ok q x p j (threads m ! j) \<Longrightarrow> rw_ok q' x' p' j (threads m ! j)"
    and "x' \<Longrightarrow> q' \<noteq> None" and "\<And>j. q' = Some j \<Longrightarrow> j = i \<or> q = Some j"
    and "p' \<Longrightarrow> pending_pc c' \<or> p \<and> \<not> pending_pc (threads m ! i)"
  shows "rw_inv q' x' p' \<lparr>state = s', threads = (threads m)[i := c']\<rparr>"
proof -
  have "\<exists>j < length (threads m). pending_pc ((threads m)[i := c'] ! j)" if "p'"
  proof (cases "pending_pc c'")
    case True
    then show ?thesis using assms(2) by (intro exI [of _ i]) simp
  next
    case False
    then have "p" "\<not> pending_pc (threads m ! i)" using assms(8) that by auto
    then obtain j where "j < length (threads m)" "pending_pc (threads m ! j)" "j \<noteq> i"
      using rw_invD(6) [OF assms(1)] by auto
    then show ?thesis by (intro exI [of _ j]) simp
  qed
  then show ?thesis
    unfolding rw_inv_def
    using assms rw_invD(1,3,5) [OF assms(1)] by (auto simp: nth_list_update)
qed

text \<open>How the count moves.\<close>

lemma count_same:
  "i < length cs \<Longrightarrow> counted c' = counted (cs ! i) \<Longrightarrow> count_readers (cs[i := c']) = count_readers cs"
  using length_filter_update [of i cs counted c'] by (simp add: count_readers_def)

lemma count_up:
  "i < length cs \<Longrightarrow> counted c' \<Longrightarrow> \<not> counted (cs ! i) \<Longrightarrow> count_readers (cs[i := c']) = Suc (count_readers cs)"
  using length_filter_update [of i cs counted c'] by (simp add: count_readers_def)

lemma count_down:
  "i < length cs \<Longrightarrow> \<not> counted c' \<Longrightarrow> counted (cs ! i) \<Longrightarrow> count_readers cs = Suc (count_readers (cs[i := c']))"
  using length_filter_update [of i cs counted c'] by (simp add: count_readers_def)

lemma rw_step_keep:
  assumes inv: "rw_inv q x p m" and i: "i < length (threads m)"
    and "rw_ok q x p i c'" "counted c' = counted (threads m ! i)"
    and "pending_pc (threads m ! i) \<Longrightarrow> pending_pc c'"
  shows "rw_inv q x p \<lparr>state = state m, threads = (threads m)[i := c']\<rparr>"
  by (rule rw_inv_update [OF inv i]) (use assms rw_invD(2,4) [OF inv] count_same [of i "threads m" c'] in auto)

lemma rw_step_add:
  assumes inv: "rw_inv q x p m" and i: "i < length (threads m)"
    and "rw_ok q x p i c'" "counted c'" "\<not> counted (threads m ! i)"
    and "pending_pc (threads m ! i) \<Longrightarrow> pending_pc c'"
  shows "rw_inv q x p \<lparr>state = state m + ONE_READER, threads = (threads m)[i := c']\<rparr>"
  by (rule rw_inv_update [OF inv i]) (use assms rw_invD(2,4) [OF inv] count_up [of i "threads m" c'] enc_arith(1) in auto)

lemma rw_step_sub:
  assumes inv: "rw_inv q x p m" and i: "i < length (threads m)"
    and "rw_ok q x p i c'" "\<not> counted c'" "counted (threads m ! i)"
    and "pending_pc (threads m ! i) \<Longrightarrow> pending_pc c'"
  shows "rw_inv q x p \<lparr>state = state m - ONE_READER, threads = (threads m)[i := c']\<rparr>"
  by (rule rw_inv_update [OF inv i]) (use assms rw_invD(2,4) [OF inv] count_down [of i "threads m" c'] enc_arith(2) in auto)


lemma count_lt: "rw_inv q x p m \<Longrightarrow> count_readers (threads m) < 2 ^ 61"
  using rw_invD(1) [of q x p m] count_readers_le [of "threads m"] by force

text \<open>What the tests of the code say about the threads.\<close>

lemma rw_tests:
  assumes "rw_inv q x p m"
  shows "state m AND WRITER = 0 \<longleftrightarrow> q = None"
    "state m AND WRITER_PENDING = 0 \<longleftrightarrow> \<not> p"
    "state m AND (WRITER OR WRITER_PENDING) = 0 \<longleftrightarrow> q = None \<and> \<not> p"
    "state m AND BUSY = 0 \<longleftrightarrow> q = None \<and> count_readers (threads m) = 0"
    "state m AND READERS = ONE_READER \<longleftrightarrow> count_readers (threads m) = 1"
  unfolding rw_invD(2) [OF assms] enc_and enc_consts(2,3)
  using enc_eq [of 0 0] count_lt [OF assms] enc_eq [OF count_lt [OF assms], of 0]
    enc_eq [OF count_lt [OF assms], of 1] by auto

lemma no_counted: "count_readers cs = 0 \<Longrightarrow> i < length cs \<Longrightarrow> \<not> counted (cs ! i)"
  using length_filter_pos [of i cs counted] by (auto simp: count_readers_def)

lemma one_counted:
  "count_readers cs = 1 \<Longrightarrow> i < length cs \<Longrightarrow> counted (cs ! i) \<Longrightarrow> j < length cs \<Longrightarrow> j \<noteq> i \<Longrightarrow> \<not> counted (cs ! j)"
  using length_filter_two [of i cs j counted] by (auto simp: count_readers_def)

lemma rw_ok_others:
  "rw_ok None False p j c \<Longrightarrow> \<not> counted c \<Longrightarrow> i \<noteq> j \<Longrightarrow> rw_ok (Some i) True p' j c"
  "rw_ok None x p j c \<Longrightarrow> i \<noteq> j \<Longrightarrow> rw_ok (Some i) x p' j c"
  "rw_ok (Some i) x p j c \<Longrightarrow> i \<noteq> j \<Longrightarrow> \<not> counted c \<Longrightarrow> rw_ok (Some i) True p' j c"
  "rw_ok (Some i) x p j c \<Longrightarrow> i \<noteq> j \<Longrightarrow> rw_ok None False p' j c"
  "rw_ok (Some i) x p j c \<Longrightarrow> i \<noteq> j \<Longrightarrow> rw_ok (Some i) x p' j c"
  "rw_ok q x p j c \<Longrightarrow> \<not> p \<Longrightarrow> rw_ok q x True j c"
  by (cases c; simp)+

lemma rw_cas_inv:
  assumes inv: "rw_inv q x p m" and i: "i < length (threads m)"
    and c: "threads m ! i = AW_Cas (state m) \<or> threads m ! i = TW_Cas (state m)"
  shows "rw_inv (Some i) True False \<lparr>state = WRITER, threads = (threads m)[i := Writer]\<rparr>"
proof -
  have "state m AND BUSY = 0" using rw_invD(3) [OF inv i] c by auto
  then have q: "q = None" "count_readers (threads m) = 0" using rw_tests(4) [OF inv] by simp_all
  then have x: "\<not> x" using rw_invD(4) [OF inv] by auto
  show ?thesis
    by (rule rw_inv_update [OF inv i])
      (use q x c i count_same [of i "threads m" Writer] no_counted [of "threads m"] enc_consts(1) rw_ok_others(1)
        in auto)
qed

lemma rw_or_inv:
  assumes inv: "rw_inv q x p m" and i: "i < length (threads m)" and c: "threads m ! i = AW_Or"
  shows "rw_inv q x True \<lparr>state = state m OR WRITER_PENDING, threads = (threads m)[i := AW_Load]\<rparr>"
proof (rule rw_inv_update [OF inv i])
  show "state m OR WRITER_PENDING = enc (count_readers ((threads m)[i := AW_Load])) True (q \<noteq> None)"
    using count_same [of i "threads m" AW_Load] i c rw_invD(2) [OF inv] enc_and(6) by simp
  show "rw_ok q x True j (threads m ! j)" if "rw_ok q x p j (threads m ! j)" for j
    using that rw_ok_others(6) [OF that] by (cases p) auto
qed (use rw_invD(3) [OF inv i] rw_invD(4) [OF inv] c in auto)

lemma rw_release_writer_inv:
  assumes inv: "rw_inv q x p m" and i: "i < length (threads m)" and c: "threads m ! i = Writer"
  shows "rw_inv None False False \<lparr>state = state m AND READERS, threads = (threads m)[i := NoLock]\<rparr>"
proof -
  have q: "q = Some i" "x" using rw_invD(3) [OF inv i] c by auto
  show ?thesis
    by (rule rw_inv_update [OF inv i])
      (use q c i rw_invD(2) [OF inv] count_same [of i "threads m" NoLock] enc_and(4) rw_ok_others(4) in auto)
qed

lemma rw_upgrade_inv:
  assumes inv: "rw_inv q x p m" and i: "i < length (threads m)"
    and c: "threads m ! i = UP_Test (state m)"
    and t: "state m AND READERS = ONE_READER \<or> state m AND WRITER_PENDING = 0"
  shows "rw_inv (Some i) False True \<lparr>state = state m OR WRITER OR WRITER_PENDING, threads = (threads m)[i := UP_Spin]\<rparr>"
proof -
  have x: "\<not> x" "q \<noteq> Some i" using rw_invD(3) [OF inv i] c by auto
  have q: "q = None"
  proof (rule ccontr)
    assume "q \<noteq> None"
    then obtain j where j: "q = Some j" "j < length (threads m)" "j \<noteq> i" using rw_invD(5) [OF inv] x by auto
    have "owning (threads m ! j)" using rw_ok_owning [OF rw_invD(3) [OF inv j(2)]] j by simp
    then have pc: "threads m ! j = UP_Spin" "p" using rw_invD(3) [OF inv j(2)] x(1) by (auto simp: owning_def)
    then have "count_readers (threads m) = 1" using t rw_tests(2,5) [OF inv] by simp
    then show False using one_counted [of "threads m" i j] i j c pc by simp
  qed
  show ?thesis
    by (rule rw_inv_update [OF inv i])
      (use q x c i rw_invD(2) [OF inv] count_same [of i "threads m" UP_Spin] enc_and(7) rw_ok_others(2) in auto)
qed

lemma rw_spin_inv:
  assumes inv: "rw_inv q x p m" and i: "i < length (threads m)" and c: "threads m ! i = UP_Spin"
    and t: "state m AND READERS = ONE_READER"
  shows "rw_inv q True p \<lparr>state = state m, threads = (threads m)[i := UP_Sub]\<rparr>"
proof -
  have q: "q = Some i" "p" using rw_invD(3) [OF inv i] c by auto
  have n: "\<not> counted (threads m ! j)" if "j < length (threads m)" "j \<noteq> i" for j
    using one_counted [of "threads m" i j] i c that t rw_tests(5) [OF inv] by simp
  show ?thesis
    by (rule rw_inv_update [OF inv i])
      (use q n c i rw_invD(2) [OF inv] count_same [of i "threads m" UP_Sub] rw_ok_others(3) in auto)
qed

lemma rw_sub_inv:
  assumes inv: "rw_inv q x p m" and i: "i < length (threads m)" and c: "threads m ! i = UP_Sub"
  shows "rw_inv q x False \<lparr>state = state m - (ONE_READER + WRITER_PENDING), threads = (threads m)[i := Writer]\<rparr>"
proof -
  have q: "q = Some i" "x" "p" using rw_invD(3) [OF inv i] c by auto
  show ?thesis
    by (rule rw_inv_update [OF inv i])
      (use q c i rw_invD(2) [OF inv] count_down [of i "threads m" Writer] enc_arith(3) rw_ok_others(5) in auto)
qed

lemma rw_downgrade_inv:
  assumes inv: "rw_inv q x p m" and i: "i < length (threads m)" and c: "threads m ! i = Writer"
  shows "rw_inv None False p \<lparr>state = state m + (ONE_READER - WRITER), threads = (threads m)[i := Reader]\<rparr>"
proof -
  have q: "q = Some i" "x" using rw_invD(3) [OF inv i] c by auto
  show ?thesis
    by (rule rw_inv_update [OF inv i])
      (use q c i rw_invD(2) [OF inv] count_up [of i "threads m" Reader] enc_arith(4) rw_ok_others(4) in auto)
qed

lemma ar_add_ok:
  assumes inv: "rw_inv q x p m" and "state m AND WRITER = 0" "rw_ok q x p i c" "c = AR_Add \<or> c = TR_Add"
  shows "rw_ok q x p i Reader"
  using assms rw_tests(1) [OF inv] rw_invD(4) [OF inv] by auto

lemma rw_step_inv:
  assumes "rw_step m m'" "rw_inv q x p m"
  shows "\<exists>q' x' p'. rw_inv q' x' p' m'"
  using assms
proof (cases rule: rw_step.cases)
  case (thread i s' c')
  note ok = rw_invD(3) [OF assms(2) thread(2)]
  note keep = rw_step_keep [OF assms(2) thread(2), of c']
    and add = rw_step_add [OF assms(2) thread(2), of c']
    and sub = rw_step_sub [OF assms(2) thread(2), of c']
  have "\<exists>q' x' p'. rw_inv q' x' p' \<lparr>state = s', threads = (threads m)[i := c']\<rparr>" using thread(3)
  proof (cases rule: rw_thread.cases)
    case aw_cas
    then show ?thesis using rw_cas_inv [OF assms(2) thread(2)] by auto
  next
    case tw_cas
    then show ?thesis using rw_cas_inv [OF assms(2) thread(2)] by auto
  next
    case aw_or
    then show ?thesis using rw_or_inv [OF assms(2) thread(2)] by auto
  next
    case release_writer
    then show ?thesis using rw_release_writer_inv [OF assms(2) thread(2)] by auto
  next
    case up_cas
    then show ?thesis using rw_upgrade_inv [OF assms(2) thread(2)] by auto
  next
    case up_spin
    then show ?thesis using rw_spin_inv [OF assms(2) thread(2)] by auto
  next
    case up_sub
    then show ?thesis using rw_sub_inv [OF assms(2) thread(2)] by auto
  next
    case downgrade
    then show ?thesis using rw_downgrade_inv [OF assms(2) thread(2)] by auto
  next
    case ar_add
    then show ?thesis using add ok ar_add_ok [OF assms(2), of i AR_Add] by auto
  next
    case tr_add
    then show ?thesis using add ok ar_add_ok [OF assms(2), of i TR_Add] by auto
  next
    case up_spin_wait
    then show ?thesis using keep ok by auto
  qed (use keep add sub ok in \<open>(force)+\<close>)
  then show ?thesis using thread(1) by simp
qed

lemma rw_inv_init: "n < 2 ^ 60 \<Longrightarrow> rw_inv None False False (rw_init n)"
  by (simp add: rw_inv_def rw_init_def count_readers_def enc_def)

lemma rw_reachable_inv:
  assumes "rw_reachable n m" "n < 2 ^ 60"
  shows "\<exists>q x p. rw_inv q x p m"
  using assms by (induction rule: rw_reachable.induct) (blast intro: rw_inv_init dest: rw_step_inv)+

lemma rw_reachable_length: "rw_reachable n m \<Longrightarrow> length (threads m) = n"
  by (induction rule: rw_reachable.induct) (auto simp: rw_init_def elim: rw_step.cases)

text \<open>The interface: who holds the lock.\<close>

definition holds_read :: "rw_mutex \<Rightarrow> nat \<Rightarrow> bool" where
  "holds_read m i \<longleftrightarrow> i < length (threads m) \<and> reading (threads m ! i)"

definition holds_write :: "rw_mutex \<Rightarrow> nat \<Rightarrow> bool" where
  "holds_write m i \<longleftrightarrow> i < length (threads m) \<and> threads m ! i = Writer"

definition upgrading :: "rw_mutex \<Rightarrow> nat \<Rightarrow> bool" where
  "upgrading m i \<longleftrightarrow> i < length (threads m) \<and> (threads m ! i = UP_Spin \<or> threads m ! i = UP_Sub)"

lemma rw_owner:
  assumes "rw_inv q x p m"
  shows "holds_write m i \<Longrightarrow> q = Some i \<and> x" "upgrading m i \<Longrightarrow> q = Some i" "holds_read m i \<Longrightarrow> \<not> x"
    "q = Some i \<Longrightarrow> holds_write m i \<or> upgrading m i"
proof -
  show "q = Some i \<Longrightarrow> holds_write m i \<or> upgrading m i"
    using rw_ok_owning [OF rw_invD(3) [OF assms, of i]] rw_invD(5) [OF assms, of i]
    by (auto simp: owning_def holds_write_def upgrading_def)
qed (use rw_invD(3) [OF assms, of i] rw_ok_reading [OF rw_invD(3) [OF assms, of i]] in
    \<open>auto simp: holds_write_def upgrading_def holds_read_def\<close>)

section \<open>\<^verbatim>\<open>unlock\<close>\<close>

text \<open>
  The ISO-style \<^verbatim>\<open>unlock\<close> does not know how the caller holds the lock: it looks at the writer bit of
  the word. \<open>rw_unlock\<close> is what it stores when no other thread moves between its test and its
  atomic operation.
\<close>

definition rw_unlock :: "64 word \<Rightarrow> 64 word" where
  "rw_unlock s = (if s AND WRITER \<noteq> 0 then s AND READERS else s - ONE_READER)"

section \<open>A sample execution\<close>

text \<open>Two threads acquire a read lock and thread 0 starts an upgrade.\<close>

fun rw_run :: "rw_mutex \<Rightarrow> (nat \<times> 64 word \<times> rw_pc) list \<Rightarrow> rw_mutex" where
  "rw_run m [] = m"
| "rw_run m ((i, s, c) # ss) = rw_run \<lparr>state = s, threads = (threads m)[i := c]\<rparr> ss"

fun rw_trace :: "rw_mutex \<Rightarrow> (nat \<times> 64 word \<times> rw_pc) list \<Rightarrow> bool" where
  "rw_trace m [] \<longleftrightarrow> True"
| "rw_trace m ((i, s, c) # ss) \<longleftrightarrow> i < length (threads m) \<and> rw_thread (state m) (threads m ! i) s c \<and>
     rw_trace \<lparr>state = s, threads = (threads m)[i := c]\<rparr> ss"

lemma rw_trace_reachable: "rw_trace m ss \<Longrightarrow> rw_reachable n m \<Longrightarrow> rw_reachable n (rw_run m ss)"
  by (induction m ss rule: rw_run.induct) (auto intro: rw_reachable.step rw_step.thread)

lemma rw_thread_call: "rw_thread s NoLock s AR_Load" "rw_thread s Reader s (UP_Test s)" "rw_thread s NoLock s TW_Load"
  by (auto intro: rw_thread.intros)

definition rw_sample_write :: rw_mutex where
  "rw_sample_write = \<lparr>state = 1, threads = [Writer, AR_Load]\<rparr>"

definition rw_sample_upgrade :: rw_mutex where
  "rw_sample_upgrade = \<lparr>state = 11, threads = [UP_Spin, Reader]\<rparr>"

inductive_simps rw_thread_simps:
  "rw_thread s NoLock s' c" "rw_thread s AR_Load s' c" "rw_thread s AR_Add s' c" "rw_thread s Reader s' c"
  "rw_thread s (UP_Test r) s' c" "rw_thread s TW_Load s' c" "rw_thread s (TW_Cas r) s' c"

lemma rw_sample_write_reachable: "rw_reachable 2 rw_sample_write"
proof -
  have "rw_trace (rw_init 2) [(0, 0, TW_Load), (0, 0, TW_Cas 0), (0, 1, Writer), (1, 1, AR_Load)]"
    by (simp add: rw_init_def numeral_2_eq_2 rw_thread_simps WRITER_def)
  from rw_trace_reachable [OF this rw_reachable.init] show ?thesis
    by (simp add: rw_init_def numeral_2_eq_2 rw_sample_write_def)
qed

lemma rw_sample_upgrade_reachable: "rw_reachable 2 rw_sample_upgrade"
proof -
  have "rw_trace (rw_init 2) [(0, 0, AR_Load), (0, 0, AR_Add), (0, 4, Reader), (1, 4, AR_Load), (1, 4, AR_Add),
     (1, 8, Reader), (0, 8, UP_Test 8), (0, 11, UP_Spin)]"
    by (simp add: rw_init_def numeral_2_eq_2 rw_thread_simps rw_consts)
  from rw_trace_reachable [OF this rw_reachable.init] show ?thesis
    by (simp add: rw_init_def numeral_2_eq_2 rw_sample_upgrade_def)
qed

section \<open>Properties\<close>

text \<open>
  C12: a thread that holds the write lock holds it alone: no other thread holds it for reading,
  for writing, or is in an in-place upgrade; and there is never more than one in-place upgrade,
  during which nobody writes.
\<close>

theorem rw_mutual_exclusion:
  assumes "rw_reachable n m" "n < 2 ^ 60"
  shows "(holds_write m i \<longrightarrow> \<not> holds_read m j \<and> \<not> upgrading m j \<and> (holds_write m j \<longrightarrow> j = i)) \<and>
    (upgrading m i \<longrightarrow> \<not> holds_write m j \<and> (upgrading m j \<longrightarrow> j = i))"
proof -
  obtain q x p where inv: "rw_inv q x p m" using rw_reachable_inv [OF assms] by blast
  have "\<not> (holds_write m i \<and> upgrading m i)" for i by (auto simp: holds_write_def upgrading_def)
  then show ?thesis using rw_owner [OF inv] by (metis option.inject)
qed

theorem rw_mutual_exclusion_witness:
  "holds_write rw_sample_write 0 \<and> \<not> holds_read rw_sample_write 1 \<and> \<not> upgrading rw_sample_write 1"
  using rw_mutual_exclusion [OF rw_sample_write_reachable, of 0 1]
  by (simp add: holds_write_def rw_sample_write_def)

text \<open>
  C34: the word is what the threads make it: its upper bits count the threads that read (late
  readers about to step back included) and never overflow, bit 0 says that some thread writes or
  upgrades, bit 1 is set only while some thread wants to write. So a lock nobody uses is zero.
\<close>

theorem rw_word_correct:
  assumes "rw_reachable n m" "n < 2 ^ 60"
  shows "\<exists>p. state m = enc (count_readers (threads m)) p (\<exists>i. holds_write m i \<or> upgrading m i) \<and>
      unat (state m) = 4 * count_readers (threads m) + 2 * of_bool p + of_bool (\<exists>i. holds_write m i \<or> upgrading m i) \<and>
      (p \<longrightarrow> (\<exists>i < n. pending_pc (threads m ! i))) \<and>
      ((\<forall>i < n. threads m ! i = NoLock) \<longrightarrow> state m = 0)"
proof -
  obtain q x p where inv: "rw_inv q x p m" using rw_reachable_inv [OF assms] by blast
  have len: "length (threads m) = n" by (rule rw_reachable_length [OF assms(1)])
  have q: "q \<noteq> None \<longleftrightarrow> (\<exists>i. holds_write m i \<or> upgrading m i)"
    using rw_owner [OF inv] by (metis not_Some_eq)
  have "state m = 0" if a: "\<forall>i < n. threads m ! i = NoLock"
  proof -
    have "count_readers (threads m) = 0"
      using a len by (auto simp: count_readers_def filter_empty_conv in_set_conv_nth)
    moreover have "\<not> p" using rw_invD(6) [OF inv] a len by auto
    moreover have "q = None" using q a len by (auto simp: holds_write_def upgrading_def)
    ultimately show ?thesis using rw_invD(2) [OF inv] by (simp add: enc_def)
  qed
  note zero = this
  show ?thesis
  proof (rule exI [of _ p], intro conjI impI)
    show e: "state m = enc (count_readers (threads m)) p (\<exists>i. holds_write m i \<or> upgrading m i)"
      using rw_invD(2) [OF inv] unfolding q .
    show "unat (state m) = 4 * count_readers (threads m) + 2 * of_bool p
        + of_bool (\<exists>i. holds_write m i \<or> upgrading m i)"
      unfolding e by (rule unat_enc [OF count_lt [OF inv]])
    show "p \<Longrightarrow> \<exists>i < n. pending_pc (threads m ! i)"
      using rw_invD(6) [OF inv] len by simp
    show "\<forall>i < n. threads m ! i = NoLock \<Longrightarrow> state m = 0" by (rule zero)
  qed
qed

theorem rw_word_correct_witness:
  "count_readers (threads rw_sample_upgrade) = 2 \<and>
   (\<exists>p. unat (state rw_sample_upgrade) = 4 * 2 + 2 * of_bool p + of_bool True)"
proof -
  have c: "count_readers (threads rw_sample_upgrade) = 2"
    by (simp add: rw_sample_upgrade_def count_readers_def)
  have "upgrading rw_sample_upgrade 0" by (simp add: rw_sample_upgrade_def upgrading_def)
  then have u: "(\<exists>i. holds_write rw_sample_upgrade i \<or> upgrading rw_sample_upgrade i) = True" by blast
  have l: "2 < (2::nat) ^ 60" by simp
  obtain p where "unat (state rw_sample_upgrade) = 4 * 2 + 2 * of_bool p + of_bool True"
    using rw_word_correct [OF rw_sample_upgrade_reachable l] unfolding c u by (elim exE conjE)
  then show ?thesis using c by blast
qed

text \<open>
  C37: \<^verbatim>\<open>unlock\<close> releases the writer's lock as \<^verbatim>\<open>internal_release_writer\<close> does, and a reader's lock
  as \<^verbatim>\<open>internal_release_reader\<close> does exactly when no in-place upgrade is waiting: during an upgrade the
  writer bit is already set, so a reader's \<^verbatim>\<open>unlock\<close> clears the upgrader's two bits and leaves the
  reader counted.
\<close>

theorem rw_unlock_during_upgrade:
  assumes "rw_reachable n m" "n < 2 ^ 60"
  shows "(holds_write m i \<longrightarrow> rw_unlock (state m) = state m AND READERS) \<and>
    (holds_read m i \<longrightarrow> (rw_unlock (state m) = state m - ONE_READER \<longleftrightarrow> (\<forall>j. \<not> upgrading m j)) \<and>
      (upgrading m j \<longrightarrow> rw_unlock (state m) = enc (count_readers (threads m)) False False))"
proof -
  obtain q x p where inv: "rw_inv q x p m" using rw_reachable_inv [OF assms] by blast
  have w: "state m AND WRITER = 0 \<longleftrightarrow> q = None" by (rule rw_tests(1) [OF inv])
  have r: "state m AND READERS = enc (count_readers (threads m)) False False"
    using rw_invD(2) [OF inv] enc_and(4) by simp
  have ne: "state m AND READERS \<noteq> state m - ONE_READER" if h: "holds_read m i"
  proof -
    have "counted (threads m ! i)" using h rw_pc_kinds(1) by (auto simp: holds_read_def)
    then have "0 < count_readers (threads m)"
      using h length_filter_pos unfolding holds_read_def count_readers_def by blast
    then obtain k where k: "count_readers (threads m) = Suc k" by (cases "count_readers (threads m)") auto
    have "enc (Suc k) False False \<noteq> enc k p (q \<noteq> None)"
      using enc_eq [of "Suc k" k] count_lt [OF inv] k by simp
    then show ?thesis unfolding r using rw_invD(2) [OF inv] k enc_arith(2) by simp
  qed
  have u: "q = None \<longleftrightarrow> (\<forall>j. \<not> upgrading m j)" if "holds_read m i"
    using rw_owner [OF inv] that by (metis not_Some_eq)
  show ?thesis
    using w r ne u rw_owner [OF inv] by (auto simp: rw_unlock_def)
qed

theorem rw_unlock_during_upgrade_witness:
  "holds_read rw_sample_upgrade 1 \<and> upgrading rw_sample_upgrade 0 \<and> rw_unlock (state rw_sample_upgrade) = enc 2 False False"
proof -
  have h: "holds_read rw_sample_upgrade 1" "upgrading rw_sample_upgrade 0" "count_readers (threads rw_sample_upgrade) = 2"
    by (simp_all add: rw_sample_upgrade_def count_readers_def holds_read_def upgrading_def reading_def)
  have "2 < (2::nat) ^ 60" by simp
  from rw_unlock_during_upgrade [OF rw_sample_upgrade_reachable this, of 1 0] h show ?thesis by simp
qed

end
