(* ===== verification/Item_Buffer.thy ===== *)
theory Item_Buffer
  imports Prelude
begin

unbundle bit_operations_syntax

text \<open>
  \<^verbatim>\<open>include/tbb/internal/_flow_graph_item_buffer_impl.h\<close>: the growing ring buffer behind the
  buffering nodes of the flow graph, and its reservable extension. The positions \<open>my_head\<close> and
  \<open>my_tail\<close> only grow; a slot is the position masked by the size. Raw memory that holds no
  constructed object is \<open>None\<close>. Differences of positions wrap below zero as those of \<^verbatim>\<open>size_t\<close> do; the
  positions themselves are natural numbers, since only \<open>2 ^ 64\<close> pushes on one buffer would wrap them.
\<close>

section \<open>Slots\<close>

datatype buffer_item_state = no_item | has_item | reserved_item

record 'a item_buffer =
  my_array :: "('a option \<times> buffer_item_state) list"
  my_array_size :: nat
  my_head :: nat
  my_tail :: nat

definition initial_buffer_size :: nat where "initial_buffer_size = 4"

text \<open>Subtraction on \<^verbatim>\<open>size_t\<close>: it wraps below zero.\<close>

definition size_sub :: "nat \<Rightarrow> nat \<Rightarrow> nat" where
  "size_sub a b = (if b \<le> a then a - b else a + 2 ^ 64 - b)"

definition size_add :: "nat \<Rightarrow> nat \<Rightarrow> nat" where
  "size_add a b = (a + b) mod 2 ^ 64"

definition slot_index :: "('a, 'z) item_buffer_scheme \<Rightarrow> nat \<Rightarrow> nat" where
  "slot_index b i = i AND (my_array_size b - 1)"

definition item :: "('a, 'z) item_buffer_scheme \<Rightarrow> nat \<Rightarrow> 'a option \<times> buffer_item_state" where
  "item b i = my_array b ! slot_index b i"

definition set_slot :: "('a, 'z) item_buffer_scheme \<Rightarrow> nat \<Rightarrow> 'a option \<times> buffer_item_state \<Rightarrow> ('a, 'z) item_buffer_scheme" where
  "set_slot b i v = b\<lparr>my_array := (my_array b)[slot_index b i := v]\<rparr>"

definition my_item_valid :: "('a, 'z) item_buffer_scheme \<Rightarrow> nat \<Rightarrow> bool" where
  "my_item_valid b i \<longleftrightarrow> snd (item b i) \<noteq> no_item"

definition my_item_reserved :: "('a, 'z) item_buffer_scheme \<Rightarrow> nat \<Rightarrow> bool" where
  "my_item_reserved b i \<longleftrightarrow> snd (item b i) = reserved_item"

definition get_my_item :: "('a, 'z) item_buffer_scheme \<Rightarrow> nat \<Rightarrow> 'a" where
  "get_my_item b i = the (fst (item b i))"

definition destroy_item :: "('a, 'z) item_buffer_scheme \<Rightarrow> nat \<Rightarrow> ('a, 'z) item_buffer_scheme" where
  "destroy_item b i = set_slot b i (None, no_item)"

definition set_my_item :: "('a, 'z) item_buffer_scheme \<Rightarrow> nat \<Rightarrow> 'a \<Rightarrow> ('a, 'z) item_buffer_scheme" where
  "set_my_item b i x =
     set_slot (if snd (item b i) \<noteq> no_item then destroy_item b i else b) i (Some x, has_item)"

definition fetch_item :: "('a, 'z) item_buffer_scheme \<Rightarrow> nat \<Rightarrow> 'a \<times> ('a, 'z) item_buffer_scheme" where
  "fetch_item b i = (get_my_item b i, destroy_item b i)"

definition move_item :: "('a, 'z) item_buffer_scheme \<Rightarrow> nat \<Rightarrow> nat \<Rightarrow> ('a, 'z) item_buffer_scheme" where
  "move_item b to from = destroy_item (set_my_item b to (get_my_item b from)) from"

definition place_item :: "('a, 'z) item_buffer_scheme \<Rightarrow> nat \<Rightarrow> 'a \<Rightarrow> ('a, 'z) item_buffer_scheme \<times> bool" where
  "place_item b here x = (if my_item_valid b here then (b, False) else (set_my_item b here x, True))"

definition swap_items :: "('a, 'z) item_buffer_scheme \<Rightarrow> nat \<Rightarrow> nat \<Rightarrow> ('a, 'z) item_buffer_scheme" where
  "swap_items b i j =
     (let temp = get_my_item b i; b' = set_my_item b i (get_my_item b j) in set_my_item b' j temp)"

definition reserve_item :: "('a, 'z) item_buffer_scheme \<Rightarrow> nat \<Rightarrow> ('a, 'z) item_buffer_scheme" where
  "reserve_item b i = set_slot b i (fst (item b i), reserved_item)"

definition release_item :: "('a, 'z) item_buffer_scheme \<Rightarrow> nat \<Rightarrow> ('a, 'z) item_buffer_scheme" where
  "release_item b i = set_slot b i (fst (item b i), has_item)"

section \<open>The ring\<close>

definition buffer_empty :: "('a, 'z) item_buffer_scheme \<Rightarrow> bool" where
  "buffer_empty b \<longleftrightarrow> my_head b = my_tail b"

text \<open>\<^verbatim>\<open>copy_front\<close> and \<^verbatim>\<open>copy_back\<close>.\<close>

definition copy_front :: "('a, 'z) item_buffer_scheme \<Rightarrow> 'a" where
  "copy_front b = get_my_item b (my_head b)"

definition copy_back :: "('a, 'z) item_buffer_scheme \<Rightarrow> 'a" where
  "copy_back b = get_my_item b (size_sub (my_tail b) 1)"

definition destroy_front :: "('a, 'z) item_buffer_scheme \<Rightarrow> ('a, 'z) item_buffer_scheme" where
  "destroy_front b = (destroy_item b (my_head b))\<lparr>my_head := my_head b + 1\<rparr>"

definition destroy_back :: "('a, 'z) item_buffer_scheme \<Rightarrow> ('a, 'z) item_buffer_scheme" where
  "destroy_back b = (destroy_item b (size_sub (my_tail b) 1))\<lparr>my_tail := size_sub (my_tail b) 1\<rparr>"

definition buffer_size :: "('a, 'z) item_buffer_scheme \<Rightarrow> nat \<Rightarrow> nat" where
  "buffer_size b new_tail = size_sub (if new_tail \<noteq> 0 then new_tail else my_tail b) (my_head b)"

definition capacity :: "('a, 'z) item_buffer_scheme \<Rightarrow> nat" where
  "capacity b = my_array_size b"

definition buffer_full :: "('a, 'z) item_buffer_scheme \<Rightarrow> bool" where
  "buffer_full b \<longleftrightarrow> buffer_size b 0 \<ge> capacity b"

text \<open>The doubling loop of \<^verbatim>\<open>grow_my_array\<close>; it starts from a positive size.\<close>

function grow_size :: "nat \<Rightarrow> nat \<Rightarrow> nat" where
  "grow_size new_size minimum_size =
     (if new_size = 0 \<or> minimum_size \<le> new_size then new_size else grow_size (new_size * 2) minimum_size)"
  by pat_completeness auto
termination by (relation "measure (\<lambda>(n, m). m - n)") auto

declare grow_size.simps [simp del]

definition grow_my_array :: "('a, 'z) item_buffer_scheme \<Rightarrow> nat \<Rightarrow> ('a, 'z) item_buffer_scheme" where
  "grow_my_array b minimum_size =
     (let new_size = grow_size (if my_array_size b \<noteq> 0 then 2 * my_array_size b else initial_buffer_size) minimum_size;
          new_array = fold (\<lambda>i arr. if my_item_valid b i
                                then arr[i AND (new_size - 1) := (Some (get_my_item b i), snd (item b i))] else arr)
                       [my_head b..<my_tail b] (replicate new_size (None, no_item))
      in b\<lparr>my_array := new_array, my_array_size := new_size\<rparr>)"

definition push_back :: "('a, 'z) item_buffer_scheme \<Rightarrow> 'a \<Rightarrow> ('a, 'z) item_buffer_scheme" where
  "push_back b v =
     (let b' = if buffer_full b then grow_my_array b (buffer_size b 0 + 1) else b
      in (set_my_item b' (my_tail b') v)\<lparr>my_tail := my_tail b' + 1\<rparr>)"

definition pop_back :: "('a, 'z) item_buffer_scheme \<Rightarrow> 'a option \<times> ('a, 'z) item_buffer_scheme" where
  "pop_back b = (if \<not> my_item_valid b (size_sub (my_tail b) 1) then (None, b)
                 else (Some (copy_back b), destroy_back b))"

definition pop_front :: "('a, 'z) item_buffer_scheme \<Rightarrow> 'a option \<times> ('a, 'z) item_buffer_scheme" where
  "pop_front b = (if \<not> my_item_valid b (my_head b) then (None, b)
                  else (Some (copy_front b), destroy_front b))"

text \<open>\<^verbatim>\<open>clean_up_buffer(true)\<close>, then the first array: what the constructor and \<^verbatim>\<open>reset\<close> leave.\<close>

definition buffer_reset :: "('a, 'z) item_buffer_scheme \<Rightarrow> ('a, 'z) item_buffer_scheme" where
  "buffer_reset b = grow_my_array (b\<lparr>my_array := [], my_array_size := 0, my_head := 0, my_tail := 0\<rparr>) initial_buffer_size"

section \<open>The reservable buffer\<close>

record 'a reservable_item_buffer = "'a item_buffer" +
  my_reserved :: bool

definition reservable_item_buffer_new :: "'a reservable_item_buffer" where
  "reservable_item_buffer_new = buffer_reset
     \<lparr>my_array = [], my_array_size = 0, my_head = 0, my_tail = 0, my_reserved = False\<rparr>"

definition reservable_reset :: "('a, 'z) reservable_item_buffer_scheme \<Rightarrow> ('a, 'z) reservable_item_buffer_scheme" where
  "reservable_reset b = buffer_reset (b\<lparr>my_reserved := False\<rparr>)"

definition reserve_front :: "('a, 'z) reservable_item_buffer_scheme \<Rightarrow> 'a option \<times> ('a, 'z) reservable_item_buffer_scheme" where
  "reserve_front b =
     (if my_reserved b \<or> \<not> my_item_valid b (my_head b) then (None, b)
      else (Some (copy_front b), reserve_item (b\<lparr>my_reserved := True\<rparr>) (my_head b)))"

definition consume_front :: "('a, 'z) reservable_item_buffer_scheme \<Rightarrow> ('a, 'z) reservable_item_buffer_scheme" where
  "consume_front b = (destroy_front b)\<lparr>my_reserved := False\<rparr>"

definition release_front :: "('a, 'z) reservable_item_buffer_scheme \<Rightarrow> ('a, 'z) reservable_item_buffer_scheme" where
  "release_front b = (release_item b (my_head b))\<lparr>my_reserved := False\<rparr>"

section \<open>Invariant and abstraction\<close>

text \<open>
  The array is a ring over the window of \<open>my_array_size\<close> positions from the head on: it has a
  power of two of slots, a slot is constructed exactly when it is not marked empty, and the part
  of the window behind the tail is empty. \<open>contents\<close> is what the positions hold.
\<close>

definition buffer_inv :: "('a, 'z) item_buffer_scheme \<Rightarrow> bool" where
  "buffer_inv b \<longleftrightarrow> (\<exists>k. my_array_size b = 2 ^ k) \<and> length (my_array b) = my_array_size b \<and>
     my_head b \<le> my_tail b \<and> my_tail b \<le> my_head b + my_array_size b \<and>
     (\<forall>i. fst (item b i) = None \<longleftrightarrow> snd (item b i) = no_item) \<and>
     (\<forall>i \<in> {my_tail b ..< my_head b + my_array_size b}. snd (item b i) = no_item)"

definition contents :: "('a, 'z) item_buffer_scheme \<Rightarrow> nat \<Rightarrow> 'a option" where
  "contents b i = (if my_head b \<le> i \<and> i < my_tail b then fst (item b i) else None)"

text \<open>A buffer without gaps, and the list it holds.\<close>

definition dense :: "('a, 'z) item_buffer_scheme \<Rightarrow> bool" where
  "dense b \<longleftrightarrow> (\<forall>i \<in> {my_head b ..< my_tail b}. contents b i \<noteq> None)"

definition buffer_list :: "('a, 'z) item_buffer_scheme \<Rightarrow> 'a list" where
  "buffer_list b = map (get_my_item b) [my_head b ..< my_tail b]"

lemma size_sub_le [simp]: "b \<le> a \<Longrightarrow> size_sub a b = a - b"
  by (simp add: size_sub_def)

lemma slot_index_mod: "my_array_size b = 2 ^ k \<Longrightarrow> slot_index b i = i mod my_array_size b"
  unfolding slot_index_def by (simp only: and_pow2)

lemma set_slot_fields [simp]:
  "my_head (set_slot b i v) = my_head b" "my_tail (set_slot b i v) = my_tail b"
  "my_array_size (set_slot b i v) = my_array_size b" "length (my_array (set_slot b i v)) = length (my_array b)"
  "slot_index (set_slot b i v) j = slot_index b j"
  by (simp_all add: set_slot_def slot_index_def)

lemma item_fields [simp]:
  "item (b\<lparr>my_head := h\<rparr>) i = item b i" "item (b\<lparr>my_tail := t\<rparr>) i = item b i"
  "item (c\<lparr>my_reserved := r\<rparr>) i = item c i"
  by (simp_all add: item_def slot_index_def)

lemma buffer_invD:
  assumes "buffer_inv b"
  shows "\<exists>k. my_array_size b = 2 ^ k" "length (my_array b) = my_array_size b"
    "my_head b \<le> my_tail b" "my_tail b \<le> my_head b + my_array_size b"
    "fst (item b i) = None \<longleftrightarrow> snd (item b i) = no_item"
    "my_tail b \<le> i \<Longrightarrow> i < my_head b + my_array_size b \<Longrightarrow> snd (item b i) = no_item"
    "0 < my_array_size b" "slot_index b i = i mod my_array_size b"
proof -
  from assms obtain k where k: "my_array_size b = 2 ^ k" unfolding buffer_inv_def by blast
  then show "\<exists>k. my_array_size b = 2 ^ k" "0 < my_array_size b" "slot_index b i = i mod my_array_size b"
    using slot_index_mod [OF k] by auto
qed (use assms in \<open>auto simp: buffer_inv_def\<close>)

lemma buffer_invI:
  assumes "my_array_size b = 2 ^ k" "length (my_array b) = my_array_size b"
    "my_head b \<le> my_tail b" "my_tail b \<le> my_head b + my_array_size b"
    "\<And>i. fst (item b i) = None \<longleftrightarrow> snd (item b i) = no_item"
    "\<And>i. my_tail b \<le> i \<Longrightarrow> i < my_head b + my_array_size b \<Longrightarrow> snd (item b i) = no_item"
  shows "buffer_inv b"
  using assms unfolding buffer_inv_def by auto

lemma item_set_slot:
  assumes "buffer_inv b"
  shows "item (set_slot b i v) j = (if i mod my_array_size b = j mod my_array_size b then v else item b j)"
  using buffer_invD(2,7) [OF assms] buffer_invD(8) [OF assms]
  by (simp add: item_def set_slot_def slot_index_def)

lemma item_set_slot_window:
  assumes "buffer_inv b" "my_head b \<le> i" "i < my_head b + my_array_size b"
    "my_head b \<le> j" "j < my_head b + my_array_size b"
  shows "item (set_slot b i v) j = (if i = j then v else item b j)"
  unfolding item_set_slot [OF assms(1)] using mod_window [of "my_head b" i _ j] assms by auto

lemma buffer_inv_set_slot:
  assumes inv: "buffer_inv b" and v: "fst v = None \<longleftrightarrow> snd v = no_item"
    and i: "my_head b \<le> i" "i < my_head b + my_array_size b" "i < my_tail b \<or> snd v = no_item"
  shows "buffer_inv (set_slot b i v)"
proof -
  obtain k where k: "my_array_size b = 2 ^ k" using buffer_invD(1) [OF inv] by blast
  show ?thesis
  proof (rule buffer_invI [of _ k])
    fix j assume "my_tail (set_slot b i v) \<le> j" "j < my_head (set_slot b i v) + my_array_size (set_slot b i v)"
    then show "snd (item (set_slot b i v) j) = no_item"
      using item_set_slot_window [OF inv i(1,2), of j] i buffer_invD(3,6) [OF inv] by auto
  qed (use k buffer_invD(2-4) [OF inv] buffer_invD(5) [OF inv] v in \<open>auto simp: item_set_slot [OF inv]\<close>)
qed

text \<open>Growing.\<close>

lemma grow_size_pow2:
  "0 < n \<Longrightarrow> (\<exists>k. n = 2 ^ k) \<Longrightarrow> (\<exists>k. grow_size n m = 2 ^ k) \<and> n \<le> grow_size n m \<and> m \<le> grow_size n m"
proof (induction n m rule: grow_size.induct)
  case (1 n m)
  show ?case
  proof (cases "m \<le> n")
    case True
    then show ?thesis using 1 by (simp add: grow_size.simps)
  next
    case False
    have e: "\<exists>k. n * 2 = 2 ^ k" using 1(3) by (metis power_Suc2)
    have "grow_size n m = grow_size (n * 2) m" using False 1(2) by (subst grow_size.simps) simp
    then show ?thesis using "1.IH" [OF _ _ e] False 1(2) by auto
  qed
qed

lemma fold_ring:
  assumes "t \<le> h + n" "0 < n"
  shows "length (fold (\<lambda>i arr. if P i then arr[i mod n := g i] else arr) [h..<t] (replicate n z)) = n"
    and "h \<le> j \<Longrightarrow> j < h + n \<Longrightarrow>
      fold (\<lambda>i arr. if P i then arr[i mod n := g i] else arr) [h..<t] (replicate n z) ! (j mod n)
        = (if j < t \<and> P j then g j else z)"
  using assms(1)
proof (induction t)
  case (Suc t)
  {
    case 1
    then show ?case using Suc(1) by (cases "h \<le> t") auto
  next
    case 2
    show ?case
    proof (cases "h \<le> t")
      case True
      have w: "t mod n = j mod n \<longleftrightarrow> t = j"
        using mod_window [of h t n j] 2 True by auto
      show ?thesis using Suc True 2 w assms(2) by (auto simp: nth_list_update less_Suc_eq)
    next
      case False
      then show ?thesis using assms(2) 2 by auto
    qed
  }
qed (use assms(2) in simp_all)

lemma item_valid_get: "buffer_inv b \<Longrightarrow> my_item_valid b i \<Longrightarrow> (Some (get_my_item b i), snd (item b i)) = item b i"
  using buffer_invD(5) [of b i] by (cases "item b i") (auto simp: my_item_valid_def get_my_item_def)

text \<open>What a larger array holds: the same items at the same positions, and room for the minimum.\<close>

lemma grow_array:
  assumes sz: "my_array_size b = 0 \<or> buffer_inv b" and h: "my_head b \<le> my_tail b"
    and e: "my_array_size b = 0 \<Longrightarrow> my_head b = my_tail b"
  shows "buffer_inv (grow_my_array b m)" "m \<le> my_array_size (grow_my_array b m)"
    "my_head (grow_my_array b m) = my_head b" "my_tail (grow_my_array b m) = my_tail b"
    "my_array_size b < my_array_size (grow_my_array b m)"
    "my_head b \<le> j \<Longrightarrow> j < my_tail b \<Longrightarrow> item (grow_my_array b m) j = item b j"
proof -
  let ?s = "if my_array_size b \<noteq> 0 then 2 * my_array_size b else initial_buffer_size"
  let ?n = "grow_size ?s m"
  let ?g = "grow_my_array b m"
  have "\<exists>k. ?s = 2 ^ k"
  proof (cases "my_array_size b = 0")
    case True
    have "(4::nat) = 2 ^ 2" by simp
    then show ?thesis using True unfolding initial_buffer_size_def by metis
  next
    case False
    then show ?thesis using sz buffer_invD(1) [of b] by (metis power_Suc)
  qed
  moreover have p: "0 < ?s" by (simp add: initial_buffer_size_def)
  ultimately obtain k where k: "?n = 2 ^ k" "?s \<le> ?n" "m \<le> ?n"
    using grow_size_pow2 [of ?s m] by blast
  have n0: "0 < ?n" using k p by linarith
  have le: "my_tail b \<le> my_head b + ?n"
    using sz h e k buffer_invD(4) [of b] by (cases "my_array_size b = 0") auto
  show f: "my_head ?g = my_head b" "my_tail ?g = my_tail b" "m \<le> my_array_size ?g" "my_array_size b < my_array_size ?g"
    using k p by (auto simp: grow_my_array_def Let_def split: if_splits)
  have sg: "my_array_size ?g = ?n" by (simp add: grow_my_array_def Let_def)
  have arr: "my_array ?g = fold (\<lambda>i arr. if my_item_valid b i
       then arr[i mod ?n := (Some (get_my_item b i), snd (item b i))] else arr) [my_head b..<my_tail b] (replicate ?n (None, no_item))"
    unfolding grow_my_array_def Let_def k(1) and_pow2 by simp
  have len: "length (my_array ?g) = ?n"
    unfolding arr by (rule fold_ring(1) [OF le n0])
  have it: "item ?g j = (if j < my_tail b \<and> my_item_valid b j then (Some (get_my_item b j), snd (item b j)) else (None, no_item))"
    if "my_head b \<le> j" "j < my_head b + ?n" for j
    unfolding item_def [of ?g] slot_index_mod [OF sg [unfolded k(1)]] sg arr
    by (rule fold_ring(2) [OF le n0 that])
  show i: "item ?g j = item b j" if "my_head b \<le> j" "j < my_tail b" for j
  proof -
    have inv: "buffer_inv b" using sz e that by auto
    show ?thesis using it [of j] that le item_valid_get [OF inv, of j] buffer_invD(5) [OF inv, of j]
      by (cases "item b j") (auto simp: my_item_valid_def)
  qed
  have ok: "fst (item ?g j) = None \<longleftrightarrow> snd (item ?g j) = no_item" for j
  proof -
    obtain i where "my_head b \<le> i" "i < my_head b + ?n" and m: "i mod ?n = j mod ?n"
      using window_repr [OF n0] by blast
    then have "fst (item ?g i) = None \<longleftrightarrow> snd (item ?g i) = no_item"
      using it by (auto simp: my_item_valid_def)
    moreover have "item ?g j = item ?g i"
      unfolding item_def slot_index_mod [OF sg [unfolded k(1)]] sg m ..
    ultimately show ?thesis by simp
  qed
  show "buffer_inv ?g"
    by (rule buffer_invI [of _ k]) (use sg k len f h le ok it in auto)
qed


section \<open>The buffer as a queue\<close>

definition queue_inv :: "('a, 'z) item_buffer_scheme \<Rightarrow> bool" where
  "queue_inv b \<longleftrightarrow> buffer_inv b \<and> dense b"

lemma queue_invD:
  assumes "queue_inv b"
  shows "buffer_inv b" "my_head b \<le> i \<Longrightarrow> i < my_tail b \<Longrightarrow> snd (item b i) \<noteq> no_item"
    "my_head b \<le> i \<Longrightarrow> i < my_tail b \<Longrightarrow> item b i = (Some (get_my_item b i), snd (item b i))"
proof -
  show i: "buffer_inv b" using assms by (simp add: queue_inv_def)
  show "snd (item b i) \<noteq> no_item" if "my_head b \<le> i" "i < my_tail b"
    using assms that buffer_invD(5) [OF i] by (auto simp: queue_inv_def dense_def contents_def)
  then show "item b i = (Some (get_my_item b i), snd (item b i))" if "my_head b \<le> i" "i < my_tail b"
    using item_valid_get [OF i, of i] that by (simp add: my_item_valid_def)
qed

lemma queue_invI:
  "buffer_inv b \<Longrightarrow> (\<And>i. my_head b \<le> i \<Longrightarrow> i < my_tail b \<Longrightarrow> snd (item b i) \<noteq> no_item) \<Longrightarrow> queue_inv b"
  unfolding queue_inv_def dense_def using buffer_invD(5) [of b] by (auto simp: contents_def)

lemma buffer_list_cong:
  "my_head b = my_head c \<Longrightarrow> my_tail b = my_tail c \<Longrightarrow>
    (\<And>i. my_head c \<le> i \<Longrightarrow> i < my_tail c \<Longrightarrow> fst (item b i) = fst (item c i)) \<Longrightarrow> buffer_list b = buffer_list c"
  by (auto simp: buffer_list_def get_my_item_def)

lemma get_my_item_simps [simp]:
  "get_my_item (b\<lparr>my_head := h\<rparr>) i = get_my_item b i" "get_my_item (b\<lparr>my_tail := t\<rparr>) i = get_my_item b i"
  "get_my_item (c\<lparr>my_reserved := r\<rparr>) i = get_my_item c i"
  by (simp_all add: get_my_item_def)

lemma buffer_size_0: "my_head b \<le> my_tail b \<Longrightarrow> buffer_size b 0 = my_tail b - my_head b"
  by (simp add: buffer_size_def)

lemma set_my_item_empty: "snd (item b i) = no_item \<Longrightarrow> set_my_item b i x = set_slot b i (Some x, has_item)"
  by (simp add: set_my_item_def)

text \<open>Storing at the tail of a buffer that has room.\<close>

lemma set_at_tail:
  assumes inv: "buffer_inv b" and room: "my_tail b < my_head b + my_array_size b"
  shows "buffer_inv ((set_my_item b (my_tail b) x)\<lparr>my_tail := my_tail b + 1\<rparr>)"
    "my_head b \<le> i \<Longrightarrow> i \<le> my_tail b \<Longrightarrow>
      item (set_my_item b (my_tail b) x) i = (if i = my_tail b then (Some x, has_item) else item b i)"
    "my_head (set_my_item b (my_tail b) x) = my_head b" "my_array_size (set_my_item b (my_tail b) x) = my_array_size b"
proof -
  have e: "set_my_item b (my_tail b) x = set_slot b (my_tail b) (Some x, has_item)"
    by (rule set_my_item_empty) (use buffer_invD(6) [OF inv, of "my_tail b"] room in simp)
  have it: "item (set_slot b (my_tail b) (Some x, has_item)) i = (if i = my_tail b then (Some x, has_item) else item b i)"
    if "my_head b \<le> i" "i < my_head b + my_array_size b" for i
    using item_set_slot_window [OF inv _ room that, of "(Some x, has_item)"] buffer_invD(3) [OF inv] by auto
  then show "item (set_my_item b (my_tail b) x) i = (if i = my_tail b then (Some x, has_item) else item b i)"
    if "my_head b \<le> i" "i \<le> my_tail b" unfolding e using that room by auto
  show "my_head (set_my_item b (my_tail b) x) = my_head b" "my_array_size (set_my_item b (my_tail b) x) = my_array_size b"
    unfolding e by simp_all
  obtain k where k: "my_array_size b = 2 ^ k" using buffer_invD(1) [OF inv] by blast
  show "buffer_inv ((set_my_item b (my_tail b) x)\<lparr>my_tail := my_tail b + 1\<rparr>)"
    unfolding e
    by (rule buffer_invI [of _ k])
      (use k buffer_invD(2-4) [OF inv] buffer_invD(5,6) [OF inv] room it in \<open>auto simp: item_set_slot [OF inv]\<close>)
qed

lemma push_back_queue:
  assumes q: "queue_inv b"
  shows "queue_inv (push_back b x)" "buffer_list (push_back b x) = buffer_list b @ [x]"
    "my_head (push_back b x) = my_head b" "my_tail (push_back b x) = my_tail b + 1"
    "my_head b \<le> i \<Longrightarrow> i < my_tail b \<Longrightarrow> item (push_back b x) i = item b i"
proof -
  note inv = queue_invD(1) [OF q]
  let ?c = "if buffer_full b then grow_my_array b (buffer_size b 0 + 1) else b"
  have g: "my_array_size b = 0 \<or> buffer_inv b" "my_array_size b = 0 \<Longrightarrow> my_head b = my_tail b"
    using inv buffer_invD(7) [OF inv] by auto
  note G = grow_array [OF g(1) buffer_invD(3) [OF inv] g(2)]
  have c: "buffer_inv ?c" "my_head ?c = my_head b" "my_tail ?c = my_tail b" "my_tail ?c < my_head ?c + my_array_size ?c"
    using inv G(1-5) [of "buffer_size b 0 + 1"] buffer_invD(3,4) [OF inv] buffer_size_0 [of b]
    by (auto simp: buffer_full_def capacity_def)
  have ci: "item ?c i = item b i" if "my_head b \<le> i" "i < my_tail b" for i
    using G(6) that by simp
  have p: "push_back b x = (set_my_item ?c (my_tail ?c) x)\<lparr>my_tail := my_tail ?c + 1\<rparr>"
    unfolding push_back_def Let_def ..
  note S = set_at_tail [OF c(1,4), where x = x]
  show f: "my_head (push_back b x) = my_head b" "my_tail (push_back b x) = my_tail b + 1"
    unfolding p using S(3) c by simp_all
  show i: "item (push_back b x) i = item b i" if "my_head b \<le> i" "i < my_tail b" for i
    unfolding p using S(2) [of i] c that ci by simp
  have t: "item (push_back b x) (my_tail b) = (Some x, has_item)"
    unfolding p using S(2) [of "my_tail b"] c buffer_invD(3) [OF inv] by simp
  show "queue_inv (push_back b x)"
    by (rule queue_invI) (use S(1) p f i t queue_invD(2) [OF q] in \<open>auto simp: less_Suc_eq\<close>)
  show "buffer_list (push_back b x) = buffer_list b @ [x]"
    using f i t buffer_invD(3) [OF inv] by (auto simp: buffer_list_def get_my_item_def)
qed

lemma destroy_front_inv:
  assumes inv: "buffer_inv b" and ne: "my_head b < my_tail b"
  shows "buffer_inv (destroy_front b)"
    "my_head (destroy_front b) = my_head b + 1" "my_tail (destroy_front b) = my_tail b"
    "my_head b < i \<Longrightarrow> i < my_tail b \<Longrightarrow> item (destroy_front b) i = item b i"
proof -
  obtain k where k: "my_array_size b = 2 ^ k" using buffer_invD(1) [OF inv] by blast
  let ?s = "set_slot b (my_head b) (None, no_item)"
  have it: "item ?s i = (if i = my_head b then (None, no_item) else item b i)"
    if "my_head b \<le> i" "i < my_head b + my_array_size b" for i
    using item_set_slot_window [OF inv _ _ that] ne buffer_invD(4) [OF inv] by auto
  have wrap: "item ?s (my_head b + my_array_size b) = (None, no_item)"
    unfolding item_set_slot [OF inv] by simp
  show f: "my_head (destroy_front b) = my_head b + 1" "my_tail (destroy_front b) = my_tail b"
    by (simp_all add: destroy_front_def destroy_item_def)
  show i: "item (destroy_front b) i = item b i" if "my_head b < i" "i < my_tail b" for i
    using it [of i] that buffer_invD(4) [OF inv] by (simp add: destroy_front_def destroy_item_def)
  show "buffer_inv (destroy_front b)"
  proof (rule buffer_invI [of _ k])
    fix j assume "my_tail (destroy_front b) \<le> j" "j < my_head (destroy_front b) + my_array_size (destroy_front b)"
    then show "snd (item (destroy_front b) j) = no_item"
      using it [of j] wrap ne buffer_invD(6) [OF inv, of j]
      by (cases "j = my_head b + my_array_size b") (auto simp: destroy_front_def destroy_item_def)
  qed (use k ne buffer_invD(2-4) [OF inv] buffer_invD(5) [OF inv] in
        \<open>auto simp: destroy_front_def destroy_item_def item_set_slot [OF inv]\<close>)
qed

lemma destroy_front_queue:
  assumes q: "queue_inv b" and ne: "my_head b < my_tail b"
  shows "queue_inv (destroy_front b)" "buffer_list (destroy_front b) = tl (buffer_list b)"
    "my_item_valid b (my_head b)" "buffer_list b \<noteq> []" "copy_front b = hd (buffer_list b)"
proof -
  note D = destroy_front_inv [OF queue_invD(1) [OF q] ne]
  show "queue_inv (destroy_front b)"
    by (rule queue_invI) (use D queue_invD(2) [OF q] in auto)
  show v: "my_item_valid b (my_head b)" using queue_invD(2) [OF q, of "my_head b"] ne by (simp add: my_item_valid_def)
  have u: "[my_head b..<my_tail b] = my_head b # [my_head b + 1..<my_tail b]" using ne by (simp add: upt_conv_Cons)
  show "buffer_list b \<noteq> []" "copy_front b = hd (buffer_list b)"
    using ne by (auto simp: buffer_list_def copy_front_def u)
  show "buffer_list (destroy_front b) = tl (buffer_list b)"
    using D by (auto simp: buffer_list_def u get_my_item_def)
qed

lemma destroy_back_queue:
  assumes q: "queue_inv b" and ne: "my_head b < my_tail b"
  shows "queue_inv (destroy_back b)" "buffer_list (destroy_back b) = butlast (buffer_list b)"
    "my_item_valid b (my_tail b - 1)" "buffer_list b \<noteq> []" "copy_back b = last (buffer_list b)"
    "my_head (destroy_back b) = my_head b" "my_tail (destroy_back b) = my_tail b - 1"
    "my_head b \<le> i \<Longrightarrow> i < my_tail b - 1 \<Longrightarrow> item (destroy_back b) i = item b i"
proof -
  note inv = queue_invD(1) [OF q]
  obtain k where k: "my_array_size b = 2 ^ k" using buffer_invD(1) [OF inv] by blast
  obtain t where t: "my_tail b = Suc t" using ne by (cases "my_tail b") auto
  let ?s = "set_slot b t (None, no_item)"
  have d: "destroy_back b = ?s\<lparr>my_tail := t\<rparr>" by (simp add: destroy_back_def destroy_item_def t)
  have it: "item ?s i = (if i = t then (None, no_item) else item b i)"
    if "my_head b \<le> i" "i < my_head b + my_array_size b" for i
    using item_set_slot_window [OF inv _ _ that, of t] ne t buffer_invD(4) [OF inv] by auto
  show f: "my_head (destroy_back b) = my_head b" "my_tail (destroy_back b) = my_tail b - 1"
    by (simp_all add: d t)
  show i: "item (destroy_back b) i = item b i" if "my_head b \<le> i" "i < my_tail b - 1" for i
    using it [of i] that t buffer_invD(4) [OF inv] by (simp add: d)
  have "buffer_inv (destroy_back b)"
    by (rule buffer_invI [of _ k])
      (use k ne t it buffer_invD(2-4) [OF inv] buffer_invD(5,6) [OF inv] in \<open>auto simp: d item_set_slot [OF inv]\<close>)
  then show "queue_inv (destroy_back b)"
    by (rule queue_invI) (use f i t queue_invD(2) [OF q] in auto)
  show v: "my_item_valid b (my_tail b - 1)" using queue_invD(2) [OF q, of t] ne t by (simp add: my_item_valid_def)
  have u: "[my_head b..<my_tail b] = [my_head b..<t] @ [t]" using ne t by simp
  show "buffer_list b \<noteq> []" "copy_back b = last (buffer_list b)"
    using ne t by (auto simp: buffer_list_def copy_back_def u)
  show "buffer_list (destroy_back b) = butlast (buffer_list b)"
    using i t by (auto simp: buffer_list_def u f get_my_item_def)
qed

lemma queue_empty:
  assumes q: "queue_inv b" and e: "my_head b = my_tail b"
  shows "buffer_list b = []" "\<not> my_item_valid b (my_head b)" "\<not> my_item_valid b (size_sub (my_tail b) 1)"
proof -
  note inv = queue_invD(1) [OF q]
  show "buffer_list b = []" using e by (simp add: buffer_list_def)
  have none: "\<not> my_item_valid b i" for i
  proof -
    obtain j where j: "my_head b \<le> j" "j < my_head b + my_array_size b" "j mod my_array_size b = i mod my_array_size b"
      using window_repr [OF buffer_invD(7) [OF inv]] by blast
    have "item b i = item b j" unfolding item_def using buffer_invD(8) [OF inv] j(3) by simp
    then show ?thesis using buffer_invD(6) [OF inv, of j] j e by (simp add: my_item_valid_def)
  qed
  then show "\<not> my_item_valid b (my_head b)" "\<not> my_item_valid b (size_sub (my_tail b) 1)" by simp_all
qed

section \<open>The queue interface\<close>

lemma list_pop_hd: "xs \<noteq> [] \<Longrightarrow> list_pop xs = (Some (hd xs), tl xs)"
  by (cases xs) simp_all

lemma pop_front_queue:
  assumes q: "queue_inv b"
  shows "queue_inv (snd (pop_front b))" "(fst (pop_front b), buffer_list (snd (pop_front b))) = list_pop (buffer_list b)"
proof -
  have "queue_inv (snd (pop_front b)) \<and> (fst (pop_front b), buffer_list (snd (pop_front b))) = list_pop (buffer_list b)"
  proof (cases "my_head b = my_tail b")
    case True
    then show ?thesis using queue_empty [OF q] q by (simp add: pop_front_def)
  next
    case False
    then have "my_head b < my_tail b" using buffer_invD(3) [OF queue_invD(1) [OF q]] by simp
    from destroy_front_queue [OF q this] show ?thesis by (simp add: pop_front_def list_pop_hd)
  qed
  then show "queue_inv (snd (pop_front b))"
    "(fst (pop_front b), buffer_list (snd (pop_front b))) = list_pop (buffer_list b)" by simp_all
qed

lemma pop_back_queue:
  assumes q: "queue_inv b"
  shows "queue_inv (snd (pop_back b))"
    "(fst (pop_back b), buffer_list (snd (pop_back b))) =
       (if buffer_list b = [] then (None, []) else (Some (last (buffer_list b)), butlast (buffer_list b)))"
proof -
  have "queue_inv (snd (pop_back b)) \<and> (fst (pop_back b), buffer_list (snd (pop_back b))) =
       (if buffer_list b = [] then (None, []) else (Some (last (buffer_list b)), butlast (buffer_list b)))"
  proof (cases "my_head b = my_tail b")
    case True
    then show ?thesis using queue_empty [OF q True] q by (simp add: pop_back_def)
  next
    case False
    then have l: "my_head b < my_tail b" using buffer_invD(3) [OF queue_invD(1) [OF q]] by simp
    then have "size_sub (my_tail b) 1 = my_tail b - 1" by simp
    with destroy_back_queue [OF q l] show ?thesis by (simp add: pop_back_def)
  qed
  then show "queue_inv (snd (pop_back b))" "(fst (pop_back b), buffer_list (snd (pop_back b))) =
       (if buffer_list b = [] then (None, []) else (Some (last (buffer_list b)), butlast (buffer_list b)))" by simp_all
qed

interpretation ring: fifo_queue queue_inv buffer_list push_back pop_front
  by unfold_locales (simp_all add: push_back_queue pop_front_queue)

lemma buffer_reset_queue: "queue_inv (buffer_reset b)" "buffer_list (buffer_reset b) = []"
  "my_head (buffer_reset b) = 0" "my_tail (buffer_reset b) = 0"
proof -
  let ?e = "b\<lparr>my_array := [], my_array_size := 0, my_head := 0, my_tail := 0\<rparr>"
  have e: "my_array_size ?e = 0 \<or> buffer_inv ?e" "my_head ?e \<le> my_tail ?e" "my_array_size ?e = 0 \<Longrightarrow> my_head ?e = my_tail ?e"
    by simp_all
  note G = grow_array [OF e, of initial_buffer_size]
  show f: "my_head (buffer_reset b) = 0" "my_tail (buffer_reset b) = 0"
    using G(3,4) by (simp_all add: buffer_reset_def)
  show "queue_inv (buffer_reset b)"
    by (rule queue_invI) (use G(1) f in \<open>simp_all add: buffer_reset_def\<close>)
  show "buffer_list (buffer_reset b) = []" using f by (simp add: buffer_list_def)
qed

lemma new_buffer_queue:
  "queue_inv reservable_item_buffer_new" "buffer_list reservable_item_buffer_new = []"
  unfolding reservable_item_buffer_new_def by (rule buffer_reset_queue)+

section \<open>Positions\<close>

text \<open>
  The same operations seen by position, for buffers with gaps: what each does to \<open>contents\<close>.
\<close>

lemma contents_fields [simp]:
  "contents (b\<lparr>my_reserved := r\<rparr>) = contents b" "buffer_inv (b\<lparr>my_reserved := r\<rparr>) = buffer_inv b"
  by (simp_all add: contents_def fun_eq_iff buffer_inv_def)

lemma set_slot_reserved [simp]:
  "set_slot (b\<lparr>my_reserved := r\<rparr>) i v = (set_slot b i v)\<lparr>my_reserved := r\<rparr>" "my_reserved (set_slot b i v) = my_reserved b"
  by (simp_all add: set_slot_def slot_index_def)

lemma contents_valid:
  assumes "buffer_inv b"
  shows "contents b i \<noteq> None \<longleftrightarrow> my_head b \<le> i \<and> i < my_tail b \<and> my_item_valid b i"
    "contents b i = Some x \<Longrightarrow> get_my_item b i = x"
  using buffer_invD(5) [OF assms, of i]
  by (auto simp: contents_def my_item_valid_def get_my_item_def split: if_splits)

text \<open>The test of the head slot sees exactly whether there is an item at the head.\<close>

lemma head_valid:
  assumes "buffer_inv b"
  shows "my_item_valid b (my_head b) \<longleftrightarrow> contents b (my_head b) \<noteq> None"
  using contents_valid(1) [OF assms, of "my_head b"] buffer_invD(3,7) [OF assms] buffer_invD(6) [OF assms, of "my_head b"]
  by (auto simp: my_item_valid_def le_less)

lemma contents_destroy_front:
  assumes inv: "buffer_inv b" and v: "contents b (my_head b) \<noteq> None"
  shows "buffer_inv (destroy_front b)" "contents (destroy_front b) = (contents b)(my_head b := None)"
    "my_head (destroy_front b) = my_head b + 1" "my_tail (destroy_front b) = my_tail b"
proof -
  have ne: "my_head b < my_tail b" using v by (auto simp: contents_def split: if_splits)
  note D = destroy_front_inv [OF inv ne]
  show "buffer_inv (destroy_front b)" "my_head (destroy_front b) = my_head b + 1"
    "my_tail (destroy_front b) = my_tail b" by (rule D)+
  show "contents (destroy_front b) = (contents b)(my_head b := None)"
    using D by (auto simp: contents_def fun_eq_iff)
qed

lemma contents_remark_front:
  assumes inv: "buffer_inv b" and v: "contents b (my_head b) \<noteq> None" and st: "s \<noteq> no_item"
  shows "buffer_inv (set_slot b (my_head b) (fst (item b (my_head b)), s))"
    "contents (set_slot b (my_head b) (fst (item b (my_head b)), s)) = contents b"
proof -
  have ne: "my_head b < my_tail b" "fst (item b (my_head b)) \<noteq> None"
    using v by (auto simp: contents_def split: if_splits)
  have h: "my_head b < my_head b + my_array_size b" using buffer_invD(7) [OF inv] by simp
  let ?v = "(fst (item b (my_head b)), s)"
  have it: "item (set_slot b (my_head b) ?v) i = (if i = my_head b then ?v else item b i)"
    if "my_head b \<le> i" "i < my_tail b" for i
    using item_set_slot_window [OF inv order_refl h, of i] that buffer_invD(4) [OF inv] by auto
  show "buffer_inv (set_slot b (my_head b) ?v)"
    by (rule buffer_inv_set_slot [OF inv]) (use ne st h in simp_all)
  show "contents (set_slot b (my_head b) ?v) = contents b"
    using it by (auto simp: contents_def fun_eq_iff)
qed

lemma contents_set_my_item:
  assumes inv: "buffer_inv b" and i: "my_head b \<le> i" "i < my_tail b" and e: "contents b i = None"
  shows "buffer_inv (set_my_item b i x)" "contents (set_my_item b i x) = (contents b)(i \<mapsto> x)"
    "my_head (set_my_item b i x) = my_head b" "my_tail (set_my_item b i x) = my_tail b"
proof -
  have "snd (item b i) = no_item" using e i buffer_invD(5) [OF inv, of i] by (simp add: contents_def)
  from set_my_item_empty [OF this] have s: "set_my_item b i x = set_slot b i (Some x, has_item)" .
  have w: "i < my_head b + my_array_size b" using i buffer_invD(4) [OF inv] by simp
  have it: "item (set_slot b i (Some x, has_item)) j = (if i = j then (Some x, has_item) else item b j)"
    if "my_head b \<le> j" "j < my_tail b" for j
    using item_set_slot_window [OF inv i(1) w, of j] that buffer_invD(4) [OF inv] by auto
  show "buffer_inv (set_my_item b i x)"
    unfolding s by (rule buffer_inv_set_slot [OF inv]) (use i w in simp_all)
  show "my_head (set_my_item b i x) = my_head b" "my_tail (set_my_item b i x) = my_tail b"
    by (simp_all add: s)
  show "contents (set_my_item b i x) = (contents b)(i \<mapsto> x)"
    unfolding s using it i by (auto simp: contents_def fun_eq_iff)
qed

lemma contents_grow:
  assumes "buffer_inv b"
  shows "contents (grow_my_array b m) = contents b"
  using grow_array [OF disjI2 [OF assms] buffer_invD(3) [OF assms]] buffer_invD(7) [OF assms]
  by (auto simp: contents_def fun_eq_iff)

text \<open>Moving the tail up inside the window opens empty positions.\<close>

lemma contents_new_tail:
  assumes inv: "buffer_inv b" and t: "my_tail b \<le> t" "t \<le> my_head b + my_array_size b"
  shows "buffer_inv (b\<lparr>my_tail := t\<rparr>)" "contents (b\<lparr>my_tail := t\<rparr>) = contents b"
proof -
  obtain k where k: "my_array_size b = 2 ^ k" using buffer_invD(1) [OF inv] by blast
  have n: "fst (item b i) = None" if "my_tail b \<le> i" "i < t" for i
    using that t buffer_invD(5,6) [OF inv, of i] by simp
  show "buffer_inv (b\<lparr>my_tail := t\<rparr>)"
    by (rule buffer_invI [of _ k]) (use k t buffer_invD(2-4) [OF inv] buffer_invD(5,6) [OF inv] in auto)
  show "contents (b\<lparr>my_tail := t\<rparr>) = contents b"
    using n t by (fastforce simp: contents_def fun_eq_iff)
qed

lemma buffer_list_contents:
  "queue_inv b \<Longrightarrow> map Some (buffer_list b) = map (contents b) [my_head b..<my_tail b]"
  using queue_invD(3) [of b] by (auto simp: buffer_list_def contents_def) (metis fst_conv)

lemma contents_push_back:
  assumes q: "buffer_inv b"
  shows "buffer_inv (push_back b x)" "contents (push_back b x) = (contents b)(my_tail b \<mapsto> x)"
    "my_head (push_back b x) = my_head b" "my_tail (push_back b x) = my_tail b + 1"
proof -
  let ?c = "if buffer_full b then grow_my_array b (buffer_size b 0 + 1) else b"
  have g: "my_array_size b = 0 \<or> buffer_inv b" "my_array_size b = 0 \<Longrightarrow> my_head b = my_tail b"
    using q buffer_invD(7) [OF q] by auto
  note G = grow_array [OF g(1) buffer_invD(3) [OF q] g(2)]
  have c: "buffer_inv ?c" "my_head ?c = my_head b" "my_tail ?c = my_tail b" "my_tail ?c < my_head ?c + my_array_size ?c"
    "contents ?c = contents b"
    using q G(1-5) [of "buffer_size b 0 + 1"] buffer_invD(3,4) [OF q] buffer_size_0 [of b] contents_grow [OF q]
    by (auto simp: buffer_full_def capacity_def)
  have p: "push_back b x = (set_my_item ?c (my_tail ?c) x)\<lparr>my_tail := my_tail ?c + 1\<rparr>"
    unfolding push_back_def Let_def ..
  note S = set_at_tail [OF c(1,4), where x = x]
  show "buffer_inv (push_back b x)" unfolding p by (rule S(1))
  show f: "my_head (push_back b x) = my_head b" "my_tail (push_back b x) = my_tail b + 1"
    unfolding p using S(3) c by simp_all
  have "contents (push_back b x) i = ((contents ?c)(my_tail b \<mapsto> x)) i" for i
    unfolding p using S(2) [of i] S(3) c(2,3) buffer_invD(3) [OF q]
    by (cases "i = my_tail b") (auto simp: contents_def)
  then show "contents (push_back b x) = (contents b)(my_tail b \<mapsto> x)" using c(5) by (simp add: fun_eq_iff)
qed

section \<open>Property\<close>

text \<open>
  C19: the item buffer is a FIFO queue of unbounded length: from the state the constructor leaves,
  any sequence of \<^verbatim>\<open>push_back\<close> and \<^verbatim>\<open>pop_front\<close> gives the answers of a list, through every growth of the
  array and wrap of the ring.
\<close>

theorem item_buffer_fifo:
  "fst (fifo_run push_back pop_front ops reservable_item_buffer_new) = fst (fifo_run list_push list_pop ops [])"
  using ring.run_refines [OF new_buffer_queue(1) prod.collapse [symmetric], of ops] new_buffer_queue(2)
  by (metis fst_conv)

end
