(* ===== verification/Buffer_Node.thy ===== *)
theory Buffer_Node
  imports Item_Buffer
begin

text \<open>
  The buffering nodes of \<^verbatim>\<open>include/tbb/flow_graph.h\<close>: \<^verbatim>\<open>buffer_node\<close>, \<^verbatim>\<open>queue_node\<close> and \<^verbatim>\<open>sequencer_node\<close>,
  with the successor cache of \<^verbatim>\<open>_flow_graph_impl.h\<close>. The receivers are other nodes, reached by
  virtual calls: \<open>put\<close> and \<open>reg\<close> are what their \<^verbatim>\<open>try_put_task\<close> and \<^verbatim>\<open>register_predecessor\<close> answer, any
  functions of the history of calls, which the node's state records.
\<close>

section \<open>Tasks\<close>

datatype task_ref = No_task | Enqueued | Body nat | Forwarder

text \<open>The result, and the tasks \<^verbatim>\<open>FLOW_SPAWN\<close> starts.\<close>

definition combine_tasks :: "task_ref \<Rightarrow> task_ref \<Rightarrow> task_ref \<times> task_ref list" where
  "combine_tasks left right =
     (if right = No_task then (left, [])
      else if left = No_task then (right, [])
      else if left = Enqueued then (right, [])
      else if right \<noteq> Enqueued then (right, [left])
      else (left, []))"

section \<open>The node\<close>

text \<open>A call a successor answered: it took the item, refused it, or turned the edge around.\<close>

datatype 'a event = Accepted nat 'a | Refused nat 'a | Reversed nat

record 'a buffer_node = "'a reservable_item_buffer" +
  my_successors :: "nat list"
  forwarder_busy :: bool
  events :: "'a event list"
  flow_spawned :: "task_ref list"

type_synonym 'a put_oracle = "'a event list \<Rightarrow> nat \<Rightarrow> 'a \<Rightarrow> task_ref"
type_synonym 'a reg_oracle = "'a event list \<Rightarrow> nat \<Rightarrow> bool"

text \<open>
  \<^verbatim>\<open>round_robin_cache::try_put_task\<close>: offer the item to each successor in turn; one that refuses
  may take over the edge, and is then erased. \<open>kept\<close> are the successors already passed.
\<close>

fun round_robin_put :: "'a put_oracle \<Rightarrow> 'a reg_oracle \<Rightarrow> 'a event list \<Rightarrow> nat list \<Rightarrow> nat list \<Rightarrow> 'a
    \<Rightarrow> task_ref \<times> nat list \<times> 'a event list" where
  "round_robin_put put reg ev kept [] t = (No_task, kept, ev)"
| "round_robin_put put reg ev kept (r # rs) t =
     (if put ev r t \<noteq> No_task then (put ev r t, kept @ r # rs, ev @ [Accepted r t])
      else
        let ev' = ev @ [Refused r t] in
        if reg ev' r then round_robin_put put reg (ev' @ [Reversed r]) kept rs t
        else round_robin_put put reg ev' (kept @ [r]) rs t)"

definition successors_try_put :: "'a put_oracle \<Rightarrow> 'a reg_oracle \<Rightarrow> 'a buffer_node \<Rightarrow> 'a \<Rightarrow> task_ref \<times> 'a buffer_node" where
  "successors_try_put put reg nd t =
     (let (task, ss, ev) = round_robin_put put reg (events nd) [] (my_successors nd) t
      in (task, nd\<lparr>my_successors := ss, events := ev\<rparr>))"

section \<open>Operations\<close>

datatype 'a op_type = Reg_succ nat | Rem_succ nat | Req_item | Res_item | Rel_res | Con_res
  | Put_item 'a | Try_fwd_task

datatype op_stat = SUCCEEDED | FAILED

text \<open>An operation's answer: its status, the item it hands out, and its \<^verbatim>\<open>ltask\<close>.\<close>

record 'a answer =
  ans_status :: op_stat
  ans_elem :: "'a option"
  ans_task :: task_ref

definition op_done :: "'a answer" where
  "op_done = \<lparr>ans_status = SUCCEEDED, ans_elem = None, ans_task = No_task\<rparr>"

definition got :: "'a option \<Rightarrow> 'a answer" where
  "got r = \<lparr>ans_status = (if r = None then FAILED else SUCCEEDED), ans_elem = r, ans_task = No_task\<rparr>"

text \<open>The three kinds of node; the sequencer carries its function from items to tags.\<close>

datatype 'a node_kind = Buffer_node | Queue_node | Sequencer_node "'a \<Rightarrow> nat"

definition internal_reg_succ :: "nat \<Rightarrow> 'a buffer_node \<Rightarrow> 'a buffer_node" where
  "internal_reg_succ r nd = nd\<lparr>my_successors := my_successors nd @ [r]\<rparr>"

text \<open>The first occurrence is erased.\<close>

definition internal_rem_succ :: "nat \<Rightarrow> 'a buffer_node \<Rightarrow> 'a buffer_node" where
  "internal_rem_succ r nd = nd\<lparr>my_successors := remove1 r (my_successors nd)\<rparr>"

text \<open>\<^verbatim>\<open>queue_node::internal_forward_task\<close>: its loop, then the tests around it.\<close>

fun queue_forward_loop :: "'a put_oracle \<Rightarrow> 'a reg_oracle \<Rightarrow> nat \<Rightarrow> task_ref \<Rightarrow> 'a buffer_node \<Rightarrow> nat \<times> task_ref \<times> 'a buffer_node" where
  "queue_forward_loop put reg 0 last_task nd = (0, last_task, nd)"
| "queue_forward_loop put reg (Suc counter) last_task nd =
     (if \<not> my_item_valid nd (my_head nd) then (Suc counter, last_task, nd)
      else let (new_task, nd') = successors_try_put put reg nd (copy_front nd) in
        if new_task \<noteq> No_task then
          let (t, sp) = combine_tasks last_task new_task
          in queue_forward_loop put reg counter t ((destroy_front nd')\<lparr>flow_spawned := flow_spawned nd' @ sp\<rparr>)
        else queue_forward_loop put reg counter last_task nd')"

definition queue_forward_task :: "'a put_oracle \<Rightarrow> 'a reg_oracle \<Rightarrow> 'a buffer_node \<Rightarrow> 'a answer \<times> 'a buffer_node" where
  "queue_forward_task put reg nd =
     (if my_reserved nd \<or> \<not> my_item_valid nd (my_head nd)
      then (\<lparr>ans_status = FAILED, ans_elem = None, ans_task = No_task\<rparr>, nd\<lparr>forwarder_busy := False\<rparr>)
      else let (counter, last_task, nd') = queue_forward_loop put reg (length (my_successors nd)) No_task nd in
        if last_task \<noteq> No_task \<and> counter = 0
        then (\<lparr>ans_status = SUCCEEDED, ans_elem = None, ans_task = last_task\<rparr>, nd')
        else (\<lparr>ans_status = FAILED, ans_elem = None, ans_task = last_task\<rparr>, nd'\<lparr>forwarder_busy := False\<rparr>))"

text \<open>\<^verbatim>\<open>buffer_node::internal_forward_task\<close> sends from the back.\<close>

fun buffer_forward_loop :: "'a put_oracle \<Rightarrow> 'a reg_oracle \<Rightarrow> nat \<Rightarrow> task_ref \<Rightarrow> 'a buffer_node \<Rightarrow> nat \<times> task_ref \<times> 'a buffer_node" where
  "buffer_forward_loop put reg 0 last_task nd = (0, last_task, nd)"
| "buffer_forward_loop put reg (Suc counter) last_task nd =
     (if buffer_empty nd \<or> \<not> my_item_valid nd (size_sub (my_tail nd) 1) then (Suc counter, last_task, nd)
      else let (new_task, nd') = successors_try_put put reg nd (copy_back nd) in
        if new_task \<noteq> No_task then
          let (t, sp) = combine_tasks last_task new_task
          in buffer_forward_loop put reg counter t ((destroy_back nd')\<lparr>flow_spawned := flow_spawned nd' @ sp\<rparr>)
        else buffer_forward_loop put reg counter last_task nd')"

definition buffer_forward_task :: "'a put_oracle \<Rightarrow> 'a reg_oracle \<Rightarrow> 'a buffer_node \<Rightarrow> 'a answer \<times> 'a buffer_node" where
  "buffer_forward_task put reg nd =
     (if my_reserved nd \<or> \<not> my_item_valid nd (size_sub (my_tail nd) 1)
      then (\<lparr>ans_status = FAILED, ans_elem = None, ans_task = No_task\<rparr>, nd\<lparr>forwarder_busy := False\<rparr>)
      else let (counter, last_task, nd') = buffer_forward_loop put reg (length (my_successors nd)) No_task nd in
        if last_task \<noteq> No_task \<and> counter = 0
        then (\<lparr>ans_status = SUCCEEDED, ans_elem = None, ans_task = last_task\<rparr>, nd')
        else (\<lparr>ans_status = FAILED, ans_elem = None, ans_task = last_task\<rparr>, nd'\<lparr>forwarder_busy := False\<rparr>))"

definition buffer_push :: "'a \<Rightarrow> 'a buffer_node \<Rightarrow> 'a answer \<times> 'a buffer_node" where
  "buffer_push x nd = (op_done, push_back nd x)"

text \<open>
  \<^verbatim>\<open>sequencer_node::internal_push\<close>: the item goes to the position its tag names. Tags are of type \<^verbatim>\<open>size_t\<close>, so
  the successor of the largest one is 0.
\<close>

definition sequencer_push :: "('a \<Rightarrow> nat) \<Rightarrow> 'a \<Rightarrow> 'a buffer_node \<Rightarrow> 'a answer \<times> 'a buffer_node" where
  "sequencer_push my_sequencer x nd =
     (let tag = my_sequencer x in
      if tag < my_head nd then (got None, nd)
      else
        let new_tail = (if size_add tag 1 > my_tail nd then size_add tag 1 else my_tail nd);
            nd1 = (if buffer_size nd new_tail > capacity nd then grow_my_array nd (buffer_size nd new_tail) else nd);
            (nd2, ok) = place_item (nd1\<lparr>my_tail := new_tail\<rparr>) tag x
        in (if ok then op_done else got None, nd2))"

definition buffer_pop :: "'a buffer_node \<Rightarrow> 'a answer \<times> 'a buffer_node" where
  "buffer_pop nd = (let (r, nd') = pop_back nd in (got r, nd'))"

definition queue_pop :: "'a buffer_node \<Rightarrow> 'a answer \<times> 'a buffer_node" where
  "queue_pop nd =
     (if my_reserved nd \<or> \<not> my_item_valid nd (my_head nd) then (got None, nd)
      else let (r, nd') = pop_front nd in (\<lparr>ans_status = SUCCEEDED, ans_elem = r, ans_task = No_task\<rparr>, nd'))"

definition buffer_reserve :: "'a buffer_node \<Rightarrow> 'a answer \<times> 'a buffer_node" where
  "buffer_reserve nd = (let (r, nd') = reserve_front nd in (got r, nd'))"

definition queue_reserve :: "'a buffer_node \<Rightarrow> 'a answer \<times> 'a buffer_node" where
  "queue_reserve nd =
     (if my_reserved nd \<or> \<not> my_item_valid nd (my_head nd) then (got None, nd)
      else let (r, nd') = reserve_front nd in (\<lparr>ans_status = SUCCEEDED, ans_elem = r, ans_task = No_task\<rparr>, nd'))"

text \<open>The virtual calls: which method each kind of node runs.\<close>

definition internal_forward_task :: "'a node_kind \<Rightarrow> 'a put_oracle \<Rightarrow> 'a reg_oracle \<Rightarrow> 'a buffer_node \<Rightarrow> 'a answer \<times> 'a buffer_node" where
  "internal_forward_task k = (case k of Buffer_node \<Rightarrow> buffer_forward_task | _ \<Rightarrow> queue_forward_task)"

definition internal_push :: "'a node_kind \<Rightarrow> 'a \<Rightarrow> 'a buffer_node \<Rightarrow> 'a answer \<times> 'a buffer_node" where
  "internal_push k = (case k of Sequencer_node s \<Rightarrow> sequencer_push s | _ \<Rightarrow> buffer_push)"

definition internal_pop :: "'a node_kind \<Rightarrow> 'a buffer_node \<Rightarrow> 'a answer \<times> 'a buffer_node" where
  "internal_pop k = (case k of Buffer_node \<Rightarrow> buffer_pop | _ \<Rightarrow> queue_pop)"

definition internal_reserve :: "'a node_kind \<Rightarrow> 'a buffer_node \<Rightarrow> 'a answer \<times> 'a buffer_node" where
  "internal_reserve k = (case k of Buffer_node \<Rightarrow> buffer_reserve | _ \<Rightarrow> queue_reserve)"

text \<open>One operation of the batch: its answer, the node after it, and whether it asks for forwarding.\<close>

definition node_op :: "'a node_kind \<Rightarrow> 'a put_oracle \<Rightarrow> 'a reg_oracle \<Rightarrow> 'a op_type \<Rightarrow> 'a buffer_node
    \<Rightarrow> 'a answer \<times> 'a buffer_node \<times> bool" where
  "node_op k put reg ty nd = (case ty of
      Reg_succ r \<Rightarrow> (op_done, internal_reg_succ r nd, True)
    | Rem_succ r \<Rightarrow> (op_done, internal_rem_succ r nd, False)
    | Req_item \<Rightarrow> (let (a, nd') = internal_pop k nd in (a, nd', False))
    | Res_item \<Rightarrow> (let (a, nd') = internal_reserve k nd in (a, nd', False))
    | Rel_res \<Rightarrow> (op_done, release_front nd, True)
    | Con_res \<Rightarrow> (op_done, consume_front nd, True)
    | Put_item x \<Rightarrow> (let (a, nd') = internal_push k x nd in (a, nd', ans_status a = SUCCEEDED))
    | Try_fwd_task \<Rightarrow> (let (a, nd') = internal_forward_task k put reg nd in (a, nd', False)))"

text \<open>
  \<^verbatim>\<open>handle_operations\<close>. As in the code, a \<open>Put_item\<close> overwrites \<^verbatim>\<open>try_forwarding\<close> with its own
  outcome. \<open>root\<close> says whether the graph has a root task; the forwarding task is combined into
  the answer of the last operation of the batch.
\<close>

fun node_batch :: "'a node_kind \<Rightarrow> 'a put_oracle \<Rightarrow> 'a reg_oracle \<Rightarrow> 'a op_type list \<Rightarrow> bool \<Rightarrow> 'a buffer_node
    \<Rightarrow> 'a answer list \<times> bool \<times> 'a buffer_node" where
  "node_batch k put reg [] try_forwarding nd = ([], try_forwarding, nd)"
| "node_batch k put reg (ty # op_list) try_forwarding nd =
     (let (a, nd', fw) = node_op k put reg ty nd;
          tf = (case ty of Put_item x \<Rightarrow> fw | _ \<Rightarrow> try_forwarding \<or> fw);
          (as, tf', nd'') = node_batch k put reg op_list tf nd'
      in (a # as, tf', nd''))"

definition node_handle_operations :: "'a node_kind \<Rightarrow> bool \<Rightarrow> 'a put_oracle \<Rightarrow> 'a reg_oracle \<Rightarrow> 'a op_type list
    \<Rightarrow> 'a buffer_node \<Rightarrow> 'a answer list \<times> 'a buffer_node" where
  "node_handle_operations k root put reg op_list nd =
     (let (as, try_forwarding, nd') = node_batch k put reg op_list False nd in
      if try_forwarding \<and> \<not> forwarder_busy nd' \<and> root then
        let (t, sp) = combine_tasks (ans_task (last as)) Forwarder
        in (butlast as @ [(last as)\<lparr>ans_task := t\<rparr>],
            nd'\<lparr>forwarder_busy := True, flow_spawned := flow_spawned nd' @ sp\<rparr>)
      else (as, nd'))"

definition node_new :: "'a buffer_node" where
  "node_new = buffer_reset
     \<lparr>my_array = [], my_array_size = 0, my_head = 0, my_tail = 0, my_reserved = False,
      my_successors = [], forwarder_busy = False, events = [], flow_spawned = []\<rparr>"

definition node_reset :: "'a buffer_node \<Rightarrow> 'a buffer_node" where
  "node_reset nd = (reservable_reset nd)\<lparr>forwarder_busy := False\<rparr>"

section \<open>What the operations do by position\<close>

fun accepted :: "'a event list \<Rightarrow> 'a list" where
  "accepted [] = []"
| "accepted (Accepted r t # es) = t # accepted es"
| "accepted (Refused r t # es) = accepted es"
| "accepted (Reversed r # es) = accepted es"

lemma accepted_append [simp]: "accepted (es @ fs) = accepted es @ accepted fs"
  by (induction es rule: accepted.induct) simp_all

lemma round_robin_put_events:
  "round_robin_put put reg ev kept ss t = (task, ss', ev') \<Longrightarrow>
    \<exists>evs. ev' = ev @ evs \<and> accepted evs = (if task = No_task then [] else [t])"
proof (induction put reg ev kept ss t arbitrary: task ss' ev' rule: round_robin_put.induct)
  case (2 put reg ev kept r rs t)
  show ?case
  proof (cases "put ev r t = No_task")
    case False
    then show ?thesis using 2(3) by auto
  next
    case True
    let ?e = "ev @ [Refused r t]"
    show ?thesis
    proof (cases "reg ?e r")
      case reg: True
      then have "round_robin_put put reg (?e @ [Reversed r]) kept rs t = (task, ss', ev')"
        using 2(3) True by (simp add: Let_def)
      from "2.IH"(1) [OF _ refl reg this] True show ?thesis by (auto intro!: exI [of _ "Refused r t # Reversed r # _"])
    next
      case reg: False
      then have "round_robin_put put reg ?e (kept @ [r]) rs t = (task, ss', ev')"
        using 2(3) True by (simp add: Let_def)
      from "2.IH"(2) [OF _ refl reg this] True show ?thesis by (auto intro!: exI [of _ "Refused r t # _"])
    qed
  qed
qed simp

lemma node_fields [simp]:
  "contents (nd\<lparr>my_successors := a\<rparr>) = contents nd" "buffer_inv (nd\<lparr>my_successors := a\<rparr>) = buffer_inv nd"
  "contents (nd\<lparr>forwarder_busy := b\<rparr>) = contents nd" "buffer_inv (nd\<lparr>forwarder_busy := b\<rparr>) = buffer_inv nd"
  "contents (nd\<lparr>events := c\<rparr>) = contents nd" "buffer_inv (nd\<lparr>events := c\<rparr>) = buffer_inv nd"
  "contents (nd\<lparr>flow_spawned := d\<rparr>) = contents nd" "buffer_inv (nd\<lparr>flow_spawned := d\<rparr>) = buffer_inv nd"
  by (simp_all add: contents_def fun_eq_iff buffer_inv_def item_def slot_index_def)

lemma destroy_front_fields [simp]:
  "my_successors (destroy_front nd) = my_successors nd" "forwarder_busy (destroy_front nd) = forwarder_busy nd"
  "events (destroy_front nd) = events nd" "flow_spawned (destroy_front nd) = flow_spawned nd"
  "my_reserved (destroy_front d) = my_reserved d"
  by (simp_all add: destroy_front_def destroy_item_def set_slot_def)

text \<open>The node hands out \<open>outs\<close>, from the head on, and keeps the rest.\<close>

definition advanced :: "'a buffer_node \<Rightarrow> 'a list \<Rightarrow> 'a buffer_node \<Rightarrow> bool" where
  "advanced nd outs nd' \<longleftrightarrow> buffer_inv nd' \<and> my_head nd \<le> my_head nd' \<and> my_tail nd' = my_tail nd \<and>
     map Some outs = map (contents nd) [my_head nd..<my_head nd'] \<and>
     contents nd' = (\<lambda>i. if i < my_head nd' then None else contents nd i)"

lemma contents_below: "i < my_head b \<Longrightarrow> contents b i = None"
  by (simp add: contents_def)

lemma contents_cut: "(\<lambda>i. if i < my_head b then None else contents b i) = contents b"
  by (auto simp: contents_def fun_eq_iff)

lemma advanced_refl: "buffer_inv nd \<Longrightarrow> advanced nd [] nd"
  by (simp add: advanced_def contents_cut)

lemma advanced_same:
  assumes "buffer_inv nd" "contents nd' = contents nd" "buffer_inv nd'" "my_head nd' = my_head nd" "my_tail nd' = my_tail nd"
  shows "advanced nd [] nd'"
  using assms contents_cut [of nd] by (simp add: advanced_def)

lemma advanced_front:
  assumes "buffer_inv nd" "contents nd (my_head nd) = Some x"
  shows "advanced nd [x] (destroy_front nd)"
  using contents_destroy_front [OF assms(1)] assms(2)
  by (auto simp: advanced_def fun_eq_iff contents_below)

lemma advanced_trans:
  assumes "advanced a xs b" "advanced b ys c"
  shows "advanced a (xs @ ys) c"
proof -
  have h: "my_head a \<le> my_head b" "my_head b \<le> my_head c" using assms by (auto simp: advanced_def)
  then have u: "[my_head a..<my_head c] = [my_head a..<my_head b] @ [my_head b..<my_head c]"
    using upt_add_eq_append [of "my_head a" "my_head b" "my_head c - my_head b"] by simp
  have "map (contents b) [my_head b..<my_head c] = map (contents a) [my_head b..<my_head c]"
    using assms(1) by (auto simp: advanced_def)
  then show ?thesis using assms h by (auto simp: advanced_def u fun_eq_iff)
qed

lemma front_item:
  assumes "buffer_inv nd" "my_item_valid nd (my_head nd)"
  shows "contents nd (my_head nd) = Some (copy_front nd)"
  using assms contents_valid(2) [OF assms(1), of "my_head nd"] head_valid [OF assms(1)]
  by (auto simp: copy_front_def)

lemma successors_try_put_props:
  assumes "successors_try_put put reg nd t = (task, nd')"
  shows "buffer_inv nd' = buffer_inv nd" "contents nd' = contents nd" "my_head nd' = my_head nd" "my_tail nd' = my_tail nd"
    "my_reserved nd' = my_reserved nd" "forwarder_busy nd' = forwarder_busy nd" "flow_spawned nd' = flow_spawned nd"
    "\<exists>evs. events nd' = events nd @ evs \<and> accepted evs = (if task = No_task then [] else [t])"
  using assms round_robin_put_events [of put reg "events nd" "[]" "my_successors nd" t task]
  by (auto simp: successors_try_put_def split: prod.splits)

lemma queue_forward_loop_props:
  "buffer_inv nd \<Longrightarrow> queue_forward_loop put reg c t nd = (c', t', nd') \<Longrightarrow>
    my_reserved nd' = my_reserved nd \<and> forwarder_busy nd' = forwarder_busy nd \<and>
    (\<exists>evs. events nd' = events nd @ evs \<and> advanced nd (accepted evs) nd')"
proof (induction c arbitrary: t nd c' t' nd')
  case 0
  then show ?case using advanced_refl by (auto intro!: exI [of _ "[]"])
next
  case (Suc counter last_task nd)
  show ?case
  proof (cases "my_item_valid nd (my_head nd)")
    case False
    then show ?thesis using Suc.prems advanced_refl by (auto intro!: exI [of _ "[]"])
  next
    case True
    obtain nt n1 where p: "successors_try_put put reg nd (copy_front nd) = (nt, n1)" by force
    note P = successors_try_put_props [OF p]
    from P(8) obtain e1 where e1: "events n1 = events nd @ e1"
      "accepted e1 = (if nt = No_task then [] else [copy_front nd])" by blast
    have b1: "buffer_inv n1" using P(1) Suc.prems(1) by simp
    have a1: "advanced nd [] n1" by (rule advanced_same) (use P b1 Suc.prems(1) in simp_all)
    show ?thesis
    proof (cases "nt = No_task")
      case nt: True
      then have "queue_forward_loop put reg counter last_task n1 = (c', t', nd')"
        using Suc.prems(2) True p by simp
      from Suc.IH [OF b1 this] nt obtain e2 where
        "my_reserved nd' = my_reserved n1" "forwarder_busy nd' = forwarder_busy n1" "events nd' = events n1 @ e2"
        "advanced n1 (accepted e2) nd'" by auto
      then show ?thesis using P e1 nt advanced_trans [OF a1] by (auto intro!: exI [of _ "e1 @ e2"])
    next
      case nt: False
      obtain t2 sp where c: "combine_tasks last_task nt = (t2, sp)" by force
      let ?n2 = "(destroy_front n1)\<lparr>flow_spawned := flow_spawned n1 @ sp\<rparr>"
      have q: "queue_forward_loop put reg counter t2 ?n2 = (c', t', nd')"
        using Suc.prems(2) True p nt c by simp
      have f: "contents n1 (my_head n1) = Some (copy_front nd)" using front_item [OF Suc.prems(1) True] P by simp
      have a2: "advanced n1 [copy_front nd] ?n2"
        using advanced_front [OF b1 f] by (simp add: advanced_def)
      have "buffer_inv ?n2" using a2 by (simp add: advanced_def)
      from Suc.IH [OF this q] obtain e2 where
        "my_reserved nd' = my_reserved ?n2" "forwarder_busy nd' = forwarder_busy ?n2" "events nd' = events ?n2 @ e2"
        "advanced ?n2 (accepted e2) nd'" by auto
      then show ?thesis using P e1 nt advanced_trans [OF advanced_trans [OF a1 a2]]
        by (auto intro!: exI [of _ "e1 @ e2"])
    qed
  qed
qed

section \<open>Runs of a node\<close>

text \<open>What goes in and comes out: accepted puts; items got, consumed, or taken by a successor.\<close>

definition op_in :: "'a op_type \<Rightarrow> 'a answer \<Rightarrow> 'a list" where
  "op_in ty a = (case ty of Put_item x \<Rightarrow> if ans_status a = SUCCEEDED then [x] else [] | _ \<Rightarrow> [])"

definition op_out :: "'a buffer_node \<Rightarrow> 'a op_type \<Rightarrow> 'a answer \<Rightarrow> 'a buffer_node \<Rightarrow> 'a list" where
  "op_out nd ty a nd' = (case ty of
      Req_item \<Rightarrow> (case ans_elem a of Some x \<Rightarrow> [x] | None \<Rightarrow> [])
    | Con_res \<Rightarrow> [copy_front nd]
    | Try_fwd_task \<Rightarrow> accepted (drop (length (events nd)) (events nd'))
    | _ \<Rightarrow> [])"

fun node_io :: "'a node_kind \<Rightarrow> 'a put_oracle \<Rightarrow> 'a reg_oracle \<Rightarrow> 'a op_type list \<Rightarrow> 'a buffer_node \<Rightarrow> 'a list \<times> 'a list" where
  "node_io k put reg [] nd = ([], [])"
| "node_io k put reg (ty # ops) nd =
     (let (a, nd', fw) = node_op k put reg ty nd; (is, os) = node_io k put reg ops nd'
      in (op_in ty a @ is, op_out nd ty a nd' @ os))"

text \<open>\<^verbatim>\<open>try_consume\<close> and \<^verbatim>\<open>try_release\<close> may only follow a successful \<^verbatim>\<open>try_reserve\<close>; the code asserts it.\<close>

definition op_allowed :: "'a op_type \<Rightarrow> 'a buffer_node \<Rightarrow> bool" where
  "op_allowed ty nd \<longleftrightarrow> (case ty of Con_res \<Rightarrow> my_reserved nd | Rel_res \<Rightarrow> my_reserved nd | _ \<Rightarrow> True)"

fun node_protocol :: "'a node_kind \<Rightarrow> 'a put_oracle \<Rightarrow> 'a reg_oracle \<Rightarrow> 'a op_type list \<Rightarrow> 'a buffer_node \<Rightarrow> bool" where
  "node_protocol k put reg [] nd \<longleftrightarrow> True"
| "node_protocol k put reg (ty # ops) nd \<longleftrightarrow>
     op_allowed ty nd \<and> node_protocol k put reg ops (fst (snd (node_op k put reg ty nd)))"

text \<open>
  Tags below \<open>2 ^ 63\<close>: then neither the new tail nor the size of the array, which grows by doubling,
  leaves \<^verbatim>\<open>size_t\<close>.
\<close>

definition tag_fits :: "'a node_kind \<Rightarrow> 'a op_type \<Rightarrow> bool" where
  "tag_fits k ty \<longleftrightarrow> (case k of Sequencer_node s \<Rightarrow> (case ty of Put_item x \<Rightarrow> s x < 2 ^ 63 | _ \<Rightarrow> True) | _ \<Rightarrow> True)"

definition node_inv :: "'a buffer_node \<Rightarrow> bool" where
  "node_inv nd \<longleftrightarrow> buffer_inv nd \<and> (my_reserved nd \<longrightarrow> contents nd (my_head nd) \<noteq> None)"

definition put_pos :: "'a node_kind \<Rightarrow> 'a buffer_node \<Rightarrow> 'a \<Rightarrow> nat" where
  "put_pos k nd x = (case k of Sequencer_node s \<Rightarrow> s x | _ \<Rightarrow> my_tail nd)"

text \<open>The node takes \<open>x\<close> at a free position at or behind the head.\<close>

definition stored :: "'a node_kind \<Rightarrow> 'a buffer_node \<Rightarrow> 'a \<Rightarrow> 'a buffer_node \<Rightarrow> bool" where
  "stored k nd x nd' \<longleftrightarrow> buffer_inv nd' \<and> my_head nd' = my_head nd \<and> my_reserved nd' = my_reserved nd \<and>
     my_tail nd' = max (my_tail nd) (Suc (put_pos k nd x)) \<and>
     my_head nd \<le> put_pos k nd x \<and> contents nd (put_pos k nd x) = None \<and>
     contents nd' = (contents nd)(put_pos k nd x \<mapsto> x)"

lemma push_back_reserved [simp]: "my_reserved (push_back nd x) = my_reserved nd"
  by (simp add: push_back_def Let_def grow_my_array_def set_my_item_def destroy_item_def set_slot_def)

lemma grow_reserved [simp]: "my_reserved (grow_my_array nd m) = my_reserved nd"
  by (simp add: grow_my_array_def Let_def)

lemma set_my_item_reserved [simp]: "my_reserved (set_my_item nd i x) = my_reserved nd"
  by (simp add: set_my_item_def destroy_item_def set_slot_def)

lemma queue_push_stored:
  assumes "buffer_inv nd" "k = Queue_node \<or> k = Buffer_node"
  shows "stored k nd x (push_back nd x)"
  using contents_push_back [OF assms(1), of x] assms(2) buffer_invD(3) [OF assms(1)]
  by (auto simp: stored_def put_pos_def contents_def)

lemma sequencer_push_cases:
  assumes inv: "buffer_inv nd" and p: "sequencer_push s x nd = (a, nd')" and fits: "s x < 2 ^ 63"
  shows "(ans_status a = SUCCEEDED \<and> stored (Sequencer_node s) nd x nd') \<or>
    (ans_status a = FAILED \<and> (s x < my_head nd \<or> contents nd (s x) \<noteq> None) \<and>
     advanced nd [] nd' \<and> my_head nd' = my_head nd \<and> my_reserved nd' = my_reserved nd)"
proof (cases "s x < my_head nd")
  case True
  then show ?thesis using p advanced_refl [OF inv] by (auto simp: sequencer_push_def got_def Let_def)
next
  case False
  have add: "size_add (s x) 1 = s x + 1" using fits by (simp add: size_add_def)
  let ?t = "if s x + 1 > my_tail nd then s x + 1 else my_tail nd"
  let ?n1 = "if buffer_size nd ?t > capacity nd then grow_my_array nd (buffer_size nd ?t) else nd"
  let ?n2 = "?n1\<lparr>my_tail := ?t\<rparr>"
  have t: "?t \<noteq> 0" "my_head nd \<le> ?t" "my_tail nd \<le> ?t" "s x < ?t" using False buffer_invD(3) [OF inv] by auto
  have sz: "buffer_size nd ?t = ?t - my_head nd" using t by (simp add: buffer_size_def)
  have z: "0 < my_array_size nd" by (rule buffer_invD(7) [OF inv])
  note G = grow_array [OF disjI2 [OF inv] buffer_invD(3) [OF inv]]
  have n1: "buffer_inv ?n1" "my_head ?n1 = my_head nd" "my_tail ?n1 = my_tail nd" "contents ?n1 = contents nd"
    "my_reserved ?n1 = my_reserved nd"
    using inv G(1-4) z contents_grow [OF inv] by auto
  have cap: "?t \<le> my_head ?n1 + my_array_size ?n1"
    using G(2) [of "buffer_size nd ?t"] G(3) [of "buffer_size nd ?t"] z t sz by (auto simp: capacity_def)
  note T = contents_new_tail [OF n1(1) _ cap]
  have n2: "buffer_inv ?n2" "contents ?n2 = contents nd" using T n1 t by simp_all
  have v: "my_item_valid ?n2 (s x) \<longleftrightarrow> contents nd (s x) \<noteq> None"
    using contents_valid(1) [OF n2(1), of "s x"] n2(2) t(4) False n1(2) by simp
  have p': "(a, nd') = (let (nd2, ok) = place_item ?n2 (s x) x in (if ok then op_done else got None, nd2))"
    using p False unfolding sequencer_push_def Let_def add by (simp only: if_False)
  show ?thesis
  proof (cases "contents nd (s x) = None")
    case False': False
    then have st: "s x < my_tail nd" by (auto simp: contents_def split: if_splits)
    have "a = got None" "nd' = ?n2" using p' v False' by (simp_all add: place_item_def)
    then show ?thesis
      using advanced_same [OF inv n2(2) n2(1)] n1 st False' by (simp add: got_def)
  next
    case True
    then have e: "a = op_done" "nd' = set_my_item ?n2 (s x) x" using p' v by (simp_all add: place_item_def)
    have "contents ?n2 (s x) = None" using True n2 by simp
    note S = contents_set_my_item [OF n2(1) _ _ this, of x]
    have "stored (Sequencer_node s) nd x nd'"
      using S t False n1 n2 True unfolding e by (auto simp: stored_def put_pos_def)
    then show ?thesis using e by (simp add: op_done_def)
  qed
qed

lemma forward_task_advanced:
  assumes inv: "buffer_inv nd" and p: "queue_forward_task put reg nd = (a, nd')"
  shows "my_reserved nd' = my_reserved nd"
    "advanced nd (accepted (drop (length (events nd)) (events nd'))) nd'"
    "my_reserved nd \<Longrightarrow> my_head nd' = my_head nd"
proof -
  have "my_reserved nd' = my_reserved nd \<and> advanced nd (accepted (drop (length (events nd)) (events nd'))) nd' \<and>
    (my_reserved nd \<longrightarrow> my_head nd' = my_head nd)"
  proof (cases "my_reserved nd \<or> \<not> my_item_valid nd (my_head nd)")
    case True
    then show ?thesis using p advanced_same [OF inv] inv by (auto simp: queue_forward_task_def)
  next
    case False
    obtain c t n1 where l: "queue_forward_loop put reg (length (my_successors nd)) No_task nd = (c, t, n1)"
      by (cases "queue_forward_loop put reg (length (my_successors nd)) No_task nd") auto
    then have n: "nd' = n1 \<or> nd' = n1\<lparr>forwarder_busy := False\<rparr>"
      using p False by (auto simp: queue_forward_task_def split: if_splits)
    from queue_forward_loop_props [OF inv l] obtain evs where
      e: "my_reserved n1 = my_reserved nd" "events n1 = events nd @ evs" "advanced nd (accepted evs) n1" by blast
    then show ?thesis using n False by (auto simp: advanced_def)
  qed
  then show "my_reserved nd' = my_reserved nd"
    "advanced nd (accepted (drop (length (events nd)) (events nd'))) nd'"
    "my_reserved nd \<Longrightarrow> my_head nd' = my_head nd" by simp_all
qed

text \<open>
  One operation of a \<^verbatim>\<open>queue_node\<close> or a \<^verbatim>\<open>sequencer_node\<close>: a successful put stores the item, any other
  operation hands out items from the head.
\<close>

lemma head_kept: "advanced nd [] nd' \<Longrightarrow> my_head nd' = my_head nd"
  by (auto simp: advanced_def)

lemma queue_node_op:
  assumes k: "k \<noteq> Buffer_node" and inv: "node_inv nd" and al: "op_allowed ty nd"
    and op: "node_op k put reg ty nd = (a, nd', fw)" and fits: "tag_fits k ty"
  shows "node_inv nd'"
    "(\<exists>x. op_in ty a = [x] \<and> op_out nd ty a nd' = [] \<and> stored k nd x nd') \<or>
     (op_in ty a = [] \<and> advanced nd (op_out nd ty a nd') nd')"
proof -
  have b: "buffer_inv nd" using inv by (simp add: node_inv_def)
  have "node_inv nd' \<and> ((\<exists>x. op_in ty a = [x] \<and> op_out nd ty a nd' = [] \<and> stored k nd x nd') \<or>
     (op_in ty a = [] \<and> advanced nd (op_out nd ty a nd') nd'))"
  proof (cases ty)
    case (Reg_succ r)
    then have "nd' = internal_reg_succ r nd" using op by (simp add: node_op_def)
    then show ?thesis using inv b Reg_succ advanced_same [OF b]
      by (auto simp: internal_reg_succ_def op_in_def op_out_def node_inv_def)
  next
    case (Rem_succ r)
    then have "nd' = internal_rem_succ r nd" using op by (simp add: node_op_def)
    then show ?thesis using inv b Rem_succ advanced_same [OF b]
      by (auto simp: internal_rem_succ_def op_in_def op_out_def node_inv_def)
  next
    case Req_item
    then have q: "queue_pop nd = (a, nd')"
      using op k by (cases k) (auto simp: node_op_def internal_pop_def split: prod.splits)
    show ?thesis
    proof (cases "my_reserved nd \<or> \<not> my_item_valid nd (my_head nd)")
      case True
      then show ?thesis using q inv advanced_refl [OF b] Req_item
        by (auto simp: queue_pop_def got_def op_in_def op_out_def)
    next
      case False
      then have "a = \<lparr>ans_status = SUCCEEDED, ans_elem = Some (copy_front nd), ans_task = No_task\<rparr>" "nd' = destroy_front nd"
        using q by (simp_all add: queue_pop_def pop_front_def)
      then show ?thesis using False advanced_front [OF b front_item [OF b]] Req_item
        by (auto simp: op_in_def op_out_def node_inv_def advanced_def)
    qed
  next
    case Res_item
    then have q: "queue_reserve nd = (a, nd')"
      using op k by (cases k) (auto simp: node_op_def internal_reserve_def split: prod.splits)
    show ?thesis
    proof (cases "my_reserved nd \<or> \<not> my_item_valid nd (my_head nd)")
      case True
      then show ?thesis using q inv advanced_refl [OF b] Res_item
        by (auto simp: queue_reserve_def got_def op_in_def op_out_def)
    next
      case False
      have f: "contents nd (my_head nd) \<noteq> None" using front_item [OF b] False by simp
      have "nd' = (set_slot nd (my_head nd) (fst (item nd (my_head nd)), reserved_item))\<lparr>my_reserved := True\<rparr>"
        using q False by (simp add: queue_reserve_def reserve_front_def reserve_item_def)
      then show ?thesis using contents_remark_front [OF b f, of reserved_item] f Res_item
        by (auto simp: op_in_def op_out_def node_inv_def intro!: advanced_same [OF b])
    qed
  next
    case Rel_res
    then have r: "my_reserved nd" using al by (simp add: op_allowed_def)
    then have f: "contents nd (my_head nd) \<noteq> None" using inv by (simp add: node_inv_def)
    have "nd' = (set_slot nd (my_head nd) (fst (item nd (my_head nd)), has_item))\<lparr>my_reserved := False\<rparr>"
      using op Rel_res by (simp add: node_op_def release_front_def release_item_def)
    then show ?thesis using contents_remark_front [OF b f, of has_item] f Rel_res
      by (auto simp: op_in_def op_out_def node_inv_def intro!: advanced_same [OF b])
  next
    case Con_res
    then have r: "my_reserved nd" using al by (simp add: op_allowed_def)
    then have f: "contents nd (my_head nd) \<noteq> None" using inv by (simp add: node_inv_def)
    then have f': "contents nd (my_head nd) = Some (copy_front nd)" using front_item [OF b] head_valid [OF b] by simp
    have "nd' = (destroy_front nd)\<lparr>my_reserved := False\<rparr>"
      using op Con_res by (simp add: node_op_def consume_front_def)
    then show ?thesis using advanced_front [OF b f'] Con_res
      by (auto simp: op_in_def op_out_def node_inv_def advanced_def)
  next
    case (Put_item x)
    then have q: "internal_push k x nd = (a, nd')" using op by (auto simp: node_op_def split: prod.splits)
    show ?thesis
    proof (cases k)
      case (Sequencer_node s)
      then have p: "sequencer_push s x nd = (a, nd')" using q by (simp add: internal_push_def)
      have "s x < 2 ^ 63" using fits Put_item Sequencer_node by (simp add: tag_fits_def)
      from sequencer_push_cases [OF b p this] show ?thesis
        using Put_item inv Sequencer_node
        by (auto simp: op_in_def op_out_def node_inv_def stored_def advanced_def)
    next
      case Queue_node
      then have "a = op_done" "nd' = push_back nd x" using q by (simp_all add: internal_push_def buffer_push_def)
      then show ?thesis using Put_item inv Queue_node queue_push_stored [OF b, of k x]
        by (auto simp: op_in_def op_out_def node_inv_def op_done_def stored_def)
    qed (use k in simp)
  next
    case Try_fwd_task
    then have q: "queue_forward_task put reg nd = (a, nd')"
      using op k by (cases k) (auto simp: node_op_def internal_forward_task_def split: prod.splits)
    note F = forward_task_advanced [OF b q]
    have "node_inv nd'"
    proof (cases "my_reserved nd")
      case True
      then show ?thesis using F inv by (simp add: node_inv_def advanced_def)
    next
      case False
      then show ?thesis using F inv by (simp add: node_inv_def advanced_def)
    qed
    then show ?thesis using F(2) Try_fwd_task by (simp add: op_in_def op_out_def)
  qed
  then show "node_inv nd'"
    "(\<exists>x. op_in ty a = [x] \<and> op_out nd ty a nd' = [] \<and> stored k nd x nd') \<or>
     (op_in ty a = [] \<and> advanced nd (op_out nd ty a nd') nd')" by blast+
qed

text \<open>
  The largest tag: its successor is 0, the tail stays, and the item is put into a slot behind the tail, where
  it is taken for the item of whatever tag the slot belongs to next.
\<close>

lemma sequencer_tag_wraps:
  assumes "s x = 2 ^ 64 - 1" "my_head nd \<le> my_tail nd" "my_tail nd \<le> my_head nd + my_array_size nd"
    "my_tail nd < 2 ^ 64" "my_head nd \<noteq> 2 ^ 64 - 1" "\<not> my_item_valid nd (2 ^ 64 - 1)" "my_tail nd \<noteq> 0"
  shows "sequencer_push s x nd = (op_done, set_my_item nd (2 ^ 64 - 1) x)"
proof -
  have "\<not> s x < my_head nd" "size_add (s x) 1 = 0" using assms(1,2,4) by (simp_all add: size_add_def)
  moreover have "\<not> buffer_size nd (my_tail nd) > capacity nd"
    using assms(2,3,7) by (simp add: buffer_size_def capacity_def)
  ultimately show ?thesis using assms(1,6) by (simp add: sequencer_push_def place_item_def Let_def)
qed

section \<open>Batches\<close>

text \<open>The handler's last step touches neither the items nor the reservation.\<close>

lemma handle_ring:
  assumes "node_handle_operations k root put reg ops nd = (as, nd')"
  obtains bs tf n1 where "node_batch k put reg ops False nd = (bs, tf, n1)"
    "contents nd' = contents n1" "my_head nd' = my_head n1" "my_tail nd' = my_tail n1"
    "buffer_inv nd' = buffer_inv n1" "my_reserved nd' = my_reserved n1" "my_successors nd' = my_successors n1"
    "forwarder_busy nd' \<longleftrightarrow> forwarder_busy n1 \<or> (tf \<and> root)"
proof -
  obtain bs tf n1 where b: "node_batch k put reg ops False nd = (bs, tf, n1)"
    by (cases "node_batch k put reg ops False nd") auto
  have "nd' = n1 \<and> \<not> (tf \<and> \<not> forwarder_busy n1 \<and> root) \<or>
      (\<exists>sp. nd' = n1\<lparr>forwarder_busy := True, flow_spawned := sp\<rparr> \<and> tf \<and> root)"
    using assms b by (auto simp: node_handle_operations_def split: if_splits prod.splits)
  then show ?thesis using that [OF b] by auto
qed

text \<open>The list a gap-free node holds.\<close>

lemma dense_list:
  assumes "node_inv nd" "dense nd"
  shows "queue_inv nd" "map Some (buffer_list nd) = map (contents nd) [my_head nd..<my_tail nd]"
  using assms buffer_list_contents [of nd] by (auto simp: queue_inv_def node_inv_def)

lemma dense_same:
  "contents nd' = contents nd \<Longrightarrow> my_head nd' = my_head nd \<Longrightarrow> my_tail nd' = my_tail nd \<Longrightarrow> dense nd' = dense nd"
  by (simp add: dense_def)

lemma advanced_tail:
  assumes "advanced nd outs nd'" "buffer_inv nd"
  shows "my_head nd' \<le> my_tail nd" "[my_head nd..<my_tail nd] = [my_head nd..<my_head nd'] @ [my_head nd'..<my_tail nd]"
proof -
  show l: "my_head nd' \<le> my_tail nd" using assms(1) buffer_invD(3) [of nd'] by (auto simp: advanced_def)
  have "my_head nd \<le> my_head nd'" using assms by (simp add: advanced_def)
  then show "[my_head nd..<my_tail nd] = [my_head nd..<my_head nd'] @ [my_head nd'..<my_tail nd]"
    using upt_add_eq_append [of "my_head nd" "my_head nd'" "my_tail nd - my_head nd'"] l by simp
qed

lemma queue_node_op_list:
  assumes inv: "node_inv nd" and d: "dense nd" and al: "op_allowed ty nd"
    and op: "node_op Queue_node put reg ty nd = (a, nd', fw)"
  shows "node_inv nd' \<and> dense nd' \<and> buffer_list nd @ op_in ty a = op_out nd ty a nd' @ buffer_list nd'"
proof -
  note Q = queue_node_op [OF _ inv al op, simplified tag_fits_def, simplified]
  have b: "buffer_inv nd" using inv by (simp add: node_inv_def)
  from Q(2) show ?thesis
  proof
    assume "\<exists>x. op_in ty a = [x] \<and> op_out nd ty a nd' = [] \<and> stored Queue_node nd x nd'"
    then obtain x where x: "op_in ty a = [x]" "op_out nd ty a nd' = []" "stored Queue_node nd x nd'" by blast
    then have s: "my_head nd' = my_head nd" "my_tail nd' = Suc (my_tail nd)" "contents nd' = (contents nd)(my_tail nd \<mapsto> x)"
      by (auto simp: stored_def put_pos_def)
    have d': "dense nd'" using d s by (auto simp: dense_def less_Suc_eq)
    have "map Some (buffer_list nd') = map Some (buffer_list nd @ [x])"
      using dense_list(2) [OF Q(1) d'] dense_list(2) [OF inv d] s buffer_invD(3) [OF b] by simp
    then have "buffer_list nd' = buffer_list nd @ [x]" by (metis list.inj_map_strong option.inject)
    then show ?thesis using Q(1) d' x by simp
  next
    assume x: "op_in ty a = [] \<and> advanced nd (op_out nd ty a nd') nd'"
    then have c: "contents nd' = (\<lambda>i. if i < my_head nd' then None else contents nd i)" "my_tail nd' = my_tail nd"
      "map Some (op_out nd ty a nd') = map (contents nd) [my_head nd..<my_head nd']" "my_head nd \<le> my_head nd'"
      by (auto simp: advanced_def)
    have d': "dense nd'" using d c by (auto simp: dense_def)
    have "map Some (op_out nd ty a nd' @ buffer_list nd') = map Some (buffer_list nd)"
      using dense_list(2) [OF Q(1) d'] dense_list(2) [OF inv d] c advanced_tail [OF conjunct2 [OF x] b] by auto
    then have "op_out nd ty a nd' @ buffer_list nd' = buffer_list nd" by (metis list.inj_map_strong option.inject)
    then show ?thesis using Q(1) d' x by simp
  qed
qed

lemma queue_node_batch_list:
  "node_inv nd \<Longrightarrow> dense nd \<Longrightarrow> node_protocol Queue_node put reg ops nd \<Longrightarrow>
   node_batch Queue_node put reg ops tf nd = (as, tf', nd') \<Longrightarrow> node_io Queue_node put reg ops nd = (ins, outs) \<Longrightarrow>
   node_inv nd' \<and> dense nd' \<and> buffer_list nd @ ins = outs @ buffer_list nd'"
proof (induction ops arbitrary: nd tf as tf' nd' ins outs)
  case (Cons ty ops)
  obtain a n1 fw where o: "node_op Queue_node put reg ty nd = (a, n1, fw)" by (cases "node_op Queue_node put reg ty nd")
  let ?tf = "case ty of Put_item x \<Rightarrow> fw | _ \<Rightarrow> tf \<or> fw"
  obtain bs where b: "node_batch Queue_node put reg ops ?tf n1 = (bs, tf', nd')"
    using Cons.prems(4) o by (cases "node_batch Queue_node put reg ops ?tf n1") (auto simp: Let_def)
  obtain is1 os1 where io: "node_io Queue_node put reg ops n1 = (is1, os1)" by (cases "node_io Queue_node put reg ops n1")
  have i: "ins = op_in ty a @ is1" "outs = op_out nd ty a n1 @ os1" using Cons.prems(5) o io by simp_all
  have al: "op_allowed ty nd" "node_protocol Queue_node put reg ops n1" using Cons.prems(3) o by simp_all
  have h: "node_inv n1" "dense n1" "buffer_list nd @ op_in ty a = op_out nd ty a n1 @ buffer_list n1"
    using queue_node_op_list [OF Cons.prems(1,2) al(1) o] by simp_all
  from Cons.IH [OF h(1,2) al(2) b io] have "node_inv nd'" "dense nd'" "buffer_list n1 @ is1 = os1 @ buffer_list nd'" by simp_all
  then show ?case using h(3) unfolding i by (metis append.assoc)
qed simp

definition in_sequence :: "('a \<Rightarrow> nat) \<Rightarrow> 'a buffer_node \<Rightarrow> bool" where
  "in_sequence s nd \<longleftrightarrow> (\<forall>i \<in> {my_head nd..<my_tail nd}. \<forall>x. contents nd i = Some x \<longrightarrow> s x = i)"

lemma in_sequenceD: "in_sequence s nd \<Longrightarrow> contents nd i = Some x \<Longrightarrow> s x = i"
  by (auto simp: in_sequence_def contents_def split: if_splits)

lemma sequencer_node_op_tags:
  assumes inv: "node_inv nd" and sq: "in_sequence s nd" and al: "op_allowed ty nd"
    and op: "node_op (Sequencer_node s) put reg ty nd = (a, nd', fw)" and fits: "\<And>x. ty = Put_item x \<Longrightarrow> s x < 2 ^ 63"
  shows "node_inv nd' \<and> in_sequence s nd' \<and> my_head nd \<le> my_head nd' \<and>
    map s (op_out nd ty a nd') = [my_head nd..<my_head nd'] \<and>
    ran (contents nd) \<union> set (op_in ty a) = set (op_out nd ty a nd') \<union> ran (contents nd')"
proof -
  have "tag_fits (Sequencer_node s) ty" using fits by (auto simp: tag_fits_def split: op_type.split)
  note Q = queue_node_op [OF _ inv al op this, simplified]
  have b: "buffer_inv nd" using inv by (simp add: node_inv_def)
  from Q(2) show ?thesis
  proof
    assume "\<exists>x. op_in ty a = [x] \<and> op_out nd ty a nd' = [] \<and> stored (Sequencer_node s) nd x nd'"
    then obtain x where x: "op_in ty a = [x]" "op_out nd ty a nd' = []" "stored (Sequencer_node s) nd x nd'" by blast
    then have c: "my_head nd' = my_head nd" "contents nd (s x) = None" "contents nd' = (contents nd)(s x \<mapsto> x)"
      by (auto simp: stored_def put_pos_def)
    have "in_sequence s nd'" using in_sequenceD [OF sq] c by (auto simp: in_sequence_def)
    then show ?thesis using Q(1) x c by (simp add: ran_map_upd)
  next
    assume x: "op_in ty a = [] \<and> advanced nd (op_out nd ty a nd') nd'"
    let ?os1 = "op_out nd ty a nd'"
    from x have c: "contents nd' = (\<lambda>i. if i < my_head nd' then None else contents nd i)"
      "map Some ?os1 = map (contents nd) [my_head nd..<my_head nd']" "my_head nd \<le> my_head nd'"
      by (auto simp: advanced_def)
    have q': "in_sequence s nd'" using in_sequenceD [OF sq] c by (auto simp: in_sequence_def split: if_splits)
    have len: "length ?os1 = my_head nd' - my_head nd" using arg_cong [OF c(2), of length] by simp
    have n: "contents nd (my_head nd + j) = Some (?os1 ! j)" if "j < my_head nd' - my_head nd" for j
      using arg_cong [OF c(2), of "\<lambda>l. l ! j"] that len by simp
    have m: "map s ?os1 = [my_head nd..<my_head nd']"
      by (rule nth_equalityI) (use len n in_sequenceD [OF sq] in auto)
    have "ran (contents nd) = set ?os1 \<union> ran (contents nd')"
    proof (intro equalityI subsetI)
      fix y assume "y \<in> ran (contents nd)"
      then obtain i where i: "contents nd i = Some y" by (auto simp: ran_def)
      show "y \<in> set ?os1 \<union> ran (contents nd')"
      proof (cases "i < my_head nd'")
        case True
        have "my_head nd \<le> i" using i by (auto simp: contents_def split: if_splits)
        then have "?os1 ! (i - my_head nd) = y" "i - my_head nd < length ?os1" using n [of "i - my_head nd"] i True len by simp_all
        then show ?thesis using nth_mem by blast
      next
        case False
        then have "contents nd' i = Some y" using i c by simp
        then show ?thesis by (auto simp: ran_def)
      qed
    next
      fix y assume "y \<in> set ?os1 \<union> ran (contents nd')"
      then show "y \<in> ran (contents nd)"
        using n len c(1) by (auto simp: ran_def in_set_conv_nth split: if_splits)
    qed
    then show ?thesis using Q(1) q' m c(3) x by simp
  qed
qed

lemma sequencer_node_batch_tags:
  "node_inv nd \<Longrightarrow> in_sequence s nd \<Longrightarrow> node_protocol (Sequencer_node s) put reg ops nd \<Longrightarrow>
   node_batch (Sequencer_node s) put reg ops tf nd = (as, tf', nd') \<Longrightarrow> node_io (Sequencer_node s) put reg ops nd = (ins, outs) \<Longrightarrow>
   \<forall>x. Put_item x \<in> set ops \<longrightarrow> s x < 2 ^ 63 \<Longrightarrow>
   node_inv nd' \<and> in_sequence s nd' \<and> my_head nd \<le> my_head nd' \<and> map s outs = [my_head nd..<my_head nd'] \<and>
   ran (contents nd) \<union> set ins = set outs \<union> ran (contents nd')"
proof (induction ops arbitrary: nd tf as tf' nd' ins outs)
  case (Cons ty ops)
  obtain a n1 fw where o: "node_op (Sequencer_node s) put reg ty nd = (a, n1, fw)"
    by (cases "node_op (Sequencer_node s) put reg ty nd")
  let ?tf = "case ty of Put_item x \<Rightarrow> fw | _ \<Rightarrow> tf \<or> fw"
  obtain bs where b: "node_batch (Sequencer_node s) put reg ops ?tf n1 = (bs, tf', nd')"
    using Cons.prems(4) o by (cases "node_batch (Sequencer_node s) put reg ops ?tf n1") (auto simp: Let_def)
  obtain is1 os1 where io: "node_io (Sequencer_node s) put reg ops n1 = (is1, os1)"
    by (cases "node_io (Sequencer_node s) put reg ops n1")
  have i: "ins = op_in ty a @ is1" "outs = op_out nd ty a n1 @ os1" using Cons.prems(5) o io by simp_all
  have al: "op_allowed ty nd" "node_protocol (Sequencer_node s) put reg ops n1" using Cons.prems(3) o by simp_all
  have h: "node_inv n1" "in_sequence s n1" "my_head nd \<le> my_head n1"
    "map s (op_out nd ty a n1) = [my_head nd..<my_head n1]"
    "ran (contents nd) \<union> set (op_in ty a) = set (op_out nd ty a n1) \<union> ran (contents n1)"
    using sequencer_node_op_tags [OF Cons.prems(1,2) al(1) o] Cons.prems(6) by simp_all
  have "\<forall>x. Put_item x \<in> set ops \<longrightarrow> s x < 2 ^ 63" using Cons.prems(6) by simp
  from Cons.IH [OF h(1,2) al(2) b io this] have j: "node_inv nd'" "in_sequence s nd'" "my_head n1 \<le> my_head nd'"
    "map s os1 = [my_head n1..<my_head nd']" "ran (contents n1) \<union> set is1 = set os1 \<union> ran (contents nd')" by simp_all
  have "[my_head nd..<my_head nd'] = [my_head nd..<my_head n1] @ [my_head n1..<my_head nd']"
    using upt_add_eq_append [of "my_head nd" "my_head n1" "my_head nd' - my_head n1"] h(3) j(3) by simp
  moreover have "ran (contents nd) \<union> (set (op_in ty a) \<union> set is1) = set (op_out nd ty a n1) \<union> (set os1 \<union> ran (contents nd'))"
    using h(5) j(5) by blast
  ultimately show ?case using h j unfolding i by (simp add: Un_assoc)
qed simp

lemma node_new_props:
  "node_inv (node_new :: 'a buffer_node)" "dense (node_new :: 'a buffer_node)" "buffer_list (node_new :: 'a buffer_node) = []"
  "my_head (node_new :: 'a buffer_node) = 0" "contents (node_new :: 'a buffer_node) = (\<lambda>_. None)"
proof -
  have q: "queue_inv (node_new :: 'a buffer_node)" "buffer_list (node_new :: 'a buffer_node) = []"
    "my_head (node_new :: 'a buffer_node) = 0" "my_tail (node_new :: 'a buffer_node) = 0"
    unfolding node_new_def by (rule buffer_reset_queue)+
  have "\<not> my_reserved (node_new :: 'a buffer_node)" by (simp add: node_new_def buffer_reset_def)
  then show "node_inv (node_new :: 'a buffer_node)" "dense (node_new :: 'a buffer_node)"
    using q(1) by (simp_all add: node_inv_def queue_inv_def)
  show "buffer_list (node_new :: 'a buffer_node) = []" "my_head (node_new :: 'a buffer_node) = 0" by (rule q)+
  show "contents (node_new :: 'a buffer_node) = (\<lambda>_. None)" using q(3,4) by (simp add: contents_def fun_eq_iff)
qed

section \<open>Sample batches\<close>

text \<open>Successors that take everything, and never take over an edge.\<close>

definition accept_all :: "'a put_oracle" where "accept_all ev r t = Body 0"
definition keep_edges :: "'a reg_oracle" where "keep_edges ev r = False"

definition sample_batch :: "nat op_type list" where
  "sample_batch = [Put_item 1, Put_item 0, Reg_succ 7, Try_fwd_task, Put_item 2, Req_item]"

lemma sample_protocol: "node_protocol k put reg sample_batch nd"
  by (simp add: sample_batch_def op_allowed_def)

lemma internal_rem_fields [simp]:
  "my_successors (set_slot nd i v) = my_successors nd" "forwarder_busy (set_slot nd i v) = forwarder_busy nd"
  "flow_spawned (set_slot nd i v) = flow_spawned nd"
  "my_successors (grow_my_array nd m) = my_successors nd" "forwarder_busy (grow_my_array nd m) = forwarder_busy nd"
  "flow_spawned (grow_my_array nd m) = flow_spawned nd"
  by (simp_all add: set_slot_def grow_my_array_def Let_def)

lemma sequencer_handle_tags:
  assumes "node_inv nd" and "in_sequence s nd" and "node_protocol (Sequencer_node s) put reg ops nd"
    and "node_handle_operations (Sequencer_node s) root put reg ops nd = (as, nd')"
    and "node_io (Sequencer_node s) put reg ops nd = (ins, outs)"
    and "\<forall>x. Put_item x \<in> set ops \<longrightarrow> s x < 2 ^ 63"
  shows "node_inv nd' \<and> in_sequence s nd' \<and> map s outs = [my_head nd..<my_head nd'] \<and>
    ran (contents nd) \<union> set ins = set outs \<union> ran (contents nd')"
proof -
  from assms(4) obtain bs tf n1 where b: "node_batch (Sequencer_node s) put reg ops False nd = (bs, tf, n1)"
    and e: "contents nd' = contents n1" "my_head nd' = my_head n1" "my_tail nd' = my_tail n1"
      "buffer_inv nd' = buffer_inv n1" "my_reserved nd' = my_reserved n1" by (rule handle_ring)
  from sequencer_node_batch_tags [OF assms(1-3) b assms(5,6)] e
  show ?thesis by (simp add: node_inv_def in_sequence_def)
qed

section \<open>Properties\<close>

text \<open>
  C15: a \<^verbatim>\<open>queue_node\<close> is a FIFO queue that loses and duplicates nothing, whatever its successors answer
  and however the batch mixes puts, gets, reservations, consumptions, releases, edge changes and
  forwarding tasks: what it held followed by what was put is what it handed out, in that order,
  followed by what it still holds.
\<close>

theorem queue_node_fifo:
  assumes "node_inv nd" and "dense nd" and "node_protocol Queue_node put reg ops nd"
    and "node_handle_operations Queue_node root put reg ops nd = (as, nd')"
    and "node_io Queue_node put reg ops nd = (ins, outs)"
  shows "node_inv nd' \<and> dense nd' \<and> buffer_list nd @ ins = outs @ buffer_list nd'"
proof -
  from assms(4) obtain bs tf n1 where b: "node_batch Queue_node put reg ops False nd = (bs, tf, n1)"
    and e: "contents nd' = contents n1" "my_head nd' = my_head n1" "my_tail nd' = my_tail n1"
      "buffer_inv nd' = buffer_inv n1" "my_reserved nd' = my_reserved n1" by (rule handle_ring)
  from queue_node_batch_list [OF assms(1-3) b assms(5)]
  have n: "node_inv n1" "dense n1" "buffer_list nd @ ins = outs @ buffer_list n1" by simp_all
  have i: "node_inv nd'" "dense nd'" using n(1,2) dense_same [OF e(1-3)] e by (simp_all add: node_inv_def)
  have "map Some (buffer_list nd') = map Some (buffer_list n1)"
    using dense_list(2) [OF i] dense_list(2) [OF n(1,2)] e by simp
  then have "buffer_list nd' = buffer_list n1" by (metis list.inj_map_strong option.inject)
  then show ?thesis using i n by simp
qed

theorem queue_node_fifo_witness:
  "fst (node_io Queue_node accept_all keep_edges sample_batch node_new) =
   snd (node_io Queue_node accept_all keep_edges sample_batch node_new) @
     buffer_list (snd (node_handle_operations Queue_node True accept_all keep_edges sample_batch node_new))"
  using queue_node_fifo [OF node_new_props(1,2) sample_protocol prod.collapse [symmetric] prod.collapse [symmetric]]
    node_new_props(3) by simp

text \<open>
  C16: a \<^verbatim>\<open>sequencer_node\<close> emits items in the order of their tags, every tag exactly once and none
  skipped: the items a batch hands out carry the tags from the old head up to the new one, and the items
  handed out or kept are exactly those held before or accepted by a put. The tags are below \<open>2 ^ 63\<close>; what
  the largest \<^verbatim>\<open>size_t\<close> does to the node is lemma \<^verbatim>\<open>sequencer_tag_wraps\<close>.
\<close>

theorem sequencer_node_in_order:
  assumes "node_inv nd" and "in_sequence s nd" and "node_protocol (Sequencer_node s) put reg ops nd"
    and "node_handle_operations (Sequencer_node s) root put reg ops nd = (as, nd')"
    and "node_io (Sequencer_node s) put reg ops nd = (ins, outs)"
    and "\<forall>x. Put_item x \<in> set ops \<longrightarrow> s x < 2 ^ 63"
  shows "node_inv nd' \<and> in_sequence s nd' \<and> map s outs = [my_head nd..<my_head nd'] \<and>
    ran (contents nd) \<union> set ins = set outs \<union> ran (contents nd')"
  by (rule sequencer_handle_tags [OF assms])

theorem sequencer_node_in_order_witness:
  "map id (snd (node_io (Sequencer_node id) accept_all keep_edges sample_batch node_new)) =
   [0..<my_head (snd (node_handle_operations (Sequencer_node id) True accept_all keep_edges sample_batch node_new))]"
proof -
  have "in_sequence id (node_new :: nat buffer_node)" by (simp add: in_sequence_def node_new_props)
  moreover have "\<forall>x. Put_item x \<in> set sample_batch \<longrightarrow> id x < (2::nat) ^ 63" by (auto simp: sample_batch_def)
  ultimately show ?thesis
    using sequencer_node_in_order [OF node_new_props(1) _ sample_protocol prod.collapse [symmetric] prod.collapse [symmetric]]
      node_new_props(4) [where 'a = nat] by simp
qed

text \<open>
  A \<^verbatim>\<open>buffer_node\<close> does not look at its reservation when it answers \<^verbatim>\<open>try_get\<close>. With a single item in
  it, \<^verbatim>\<open>try_reserve\<close> and a following \<^verbatim>\<open>try_get\<close> both hand out that item, and the \<^verbatim>\<open>try_consume\<close> that
  completes the reservation destroys an empty slot and moves the head past the tail: the buffer then
  computes a size of \<open>2 ^ 64 - 1\<close>.
\<close>

theorem buffer_node_get_ignores_reservation:
  assumes "node_inv nd" and "dense nd" and "buffer_list nd = [x]" and "\<not> my_reserved nd"
    and "node_op Buffer_node put reg Res_item nd = (a1, n1, f1)"
    and "node_op Buffer_node put reg Req_item n1 = (a2, n2, f2)"
    and "node_op Buffer_node put reg Con_res n2 = (a3, n3, f3)"
  shows "ans_elem a1 = Some x \<and> ans_elem a2 = Some x \<and>
    my_head n3 = Suc (my_tail n3) \<and> buffer_size n3 0 = 2 ^ 64 - 1"
proof -
  have b: "buffer_inv nd" using assms(1) by (simp add: node_inv_def)
  have t: "my_tail nd = Suc (my_head nd)"
    using arg_cong [OF assms(3), of length] buffer_invD(3) [OF b] by (simp add: buffer_list_def)
  have "map Some [x] = map (contents nd) [my_head nd]"
    using dense_list(2) [OF assms(1,2)] t unfolding assms(3) by simp
  then have c: "contents nd (my_head nd) = Some x" by simp
  then have v: "my_item_valid nd (my_head nd)" "copy_front nd = x"
    using head_valid [OF b] front_item [OF b] by auto
  let ?s = "set_slot nd (my_head nd) (fst (item nd (my_head nd)), reserved_item)"
  have n1: "n1 = ?s\<lparr>my_reserved := True\<rparr>" "ans_elem a1 = Some x"
    using assms(4,5) v by (auto simp: node_op_def internal_reserve_def buffer_reserve_def reserve_front_def
        reserve_item_def got_def)
  have cn: "contents nd (my_head nd) \<noteq> None" using c by simp
  note R = contents_remark_front [OF b cn, of reserved_item, simplified]
  have c1: "buffer_inv n1" "contents n1 (my_head nd) = Some x" "my_head n1 = my_head nd" "my_tail n1 = my_tail nd"
    using R c n1(1) by simp_all
  have i: "size_sub (my_tail n1) 1 = my_head nd" using c1(4) t by simp
  have v1: "my_item_valid n1 (my_head nd)" "get_my_item n1 (my_head nd) = x"
    using contents_valid [OF c1(1)] c1(2) by auto
  then have n2: "ans_elem a2 = Some x" "n2 = destroy_back n1"
    using assms(6) i by (auto simp: node_op_def internal_pop_def buffer_pop_def pop_back_def copy_back_def got_def)
  have h2: "my_head n2 = my_head nd" "my_tail n2 = my_head nd"
    unfolding n2 destroy_back_def i using c1(3) by (simp_all add: destroy_item_def)
  have "n3 = consume_front n2" using assms(7) by (simp add: node_op_def)
  then have h3: "my_head n3 = Suc (my_head nd)" "my_tail n3 = my_head nd"
    using h2 by (simp_all add: consume_front_def destroy_front_def destroy_item_def)
  have "buffer_size n3 0 = 2 ^ 64 - 1"
    unfolding buffer_size_def size_sub_def h3 by simp
  then show ?thesis using n1(2) n2(1) h3 by simp
qed

theorem buffer_node_get_ignores_reservation_witness:
  "let n = push_back node_new (5 :: nat);
       (a1, n1, f1) = node_op Buffer_node accept_all keep_edges Res_item n;
       (a2, n2, f2) = node_op Buffer_node accept_all keep_edges Req_item n1;
       (a3, n3, f3) = node_op Buffer_node accept_all keep_edges Con_res n2
   in ans_elem a1 = Some 5 \<and> ans_elem a2 = Some 5 \<and> buffer_size n3 0 = 2 ^ 64 - 1"
proof -
  let ?n = "push_back node_new (5 :: nat)"
  have q: "queue_inv (node_new :: nat buffer_node)" using node_new_props(1,2) [where 'a = nat] by (simp add: queue_inv_def node_inv_def)
  have r: "\<not> my_reserved ?n" by (simp add: node_new_def buffer_reset_def)
  have l: "buffer_list ?n = [5]" using push_back_queue(2) [OF q] node_new_props(3) by simp
  have i: "node_inv ?n" "dense ?n" using push_back_queue(1) [OF q, of 5] r by (simp_all add: node_inv_def queue_inv_def)
  obtain a1 n1 f1 where o1: "node_op Buffer_node accept_all keep_edges Res_item ?n = (a1, n1, f1)"
    by (cases "node_op Buffer_node accept_all keep_edges Res_item ?n")
  obtain a2 n2 f2 where o2: "node_op Buffer_node accept_all keep_edges Req_item n1 = (a2, n2, f2)"
    by (cases "node_op Buffer_node accept_all keep_edges Req_item n1")
  obtain a3 n3 f3 where o3: "node_op Buffer_node accept_all keep_edges Con_res n2 = (a3, n3, f3)"
    by (cases "node_op Buffer_node accept_all keep_edges Con_res n2")
  show ?thesis
    using buffer_node_get_ignores_reservation [OF i l r o1 o2 o3] by (simp only: Let_def o1 o2 o3 prod.case)
qed

text \<open>
  Forwarding is not lost by a \<^verbatim>\<open>queue_node\<close> or \<^verbatim>\<open>buffer_node\<close>: after a batch that put an item, added a
  successor, or ended a reservation, a forwarding task is on its way (\<^verbatim>\<open>forwarder_busy\<close>).
\<close>

lemma batch_forwarding:
  assumes "\<And>s. k \<noteq> Sequencer_node s"
  shows "node_batch k put reg ops tf nd = (as, tf', nd') \<Longrightarrow>
    tf' \<longleftrightarrow> tf \<or> (\<exists>ty \<in> set ops. ty = Rel_res \<or> ty = Con_res \<or> (\<exists>r. ty = Reg_succ r) \<or> (\<exists>x. ty = Put_item x))"
proof (induction ops arbitrary: tf nd as)
  case (Cons ty ops)
  obtain a n1 fw where o: "node_op k put reg ty nd = (a, n1, fw)" by (cases "node_op k put reg ty nd")
  have p: "internal_push k x nd = (b, m) \<Longrightarrow> ans_status b = SUCCEEDED" for x b m
    using assms by (cases k) (auto simp: internal_push_def buffer_push_def op_done_def)
  let ?tf = "case ty of Put_item x \<Rightarrow> fw | _ \<Rightarrow> tf \<or> fw"
  obtain bs where b: "node_batch k put reg ops ?tf n1 = (bs, tf', nd')"
    using Cons.prems o by (cases "node_batch k put reg ops ?tf n1") (auto simp: Let_def)
  from Cons.IH [OF b] show ?case using o p
    by (cases ty) (auto simp: node_op_def split: prod.splits dest: p)
qed simp

theorem queue_node_forwards:
  assumes "k = Queue_node \<or> k = Buffer_node"
    and "Put_item x \<in> set ops \<or> Reg_succ r \<in> set ops \<or> Rel_res \<in> set ops \<or> Con_res \<in> set ops"
    and "node_handle_operations k True put reg ops nd = (as, nd')"
  shows "forwarder_busy nd'"
proof -
  from assms(3) obtain bs tf n1 where b: "node_batch k put reg ops False nd = (bs, tf, n1)"
    and f: "forwarder_busy nd' \<longleftrightarrow> forwarder_busy n1 \<or> (tf \<and> True)" by (rule handle_ring)
  have "k \<noteq> Sequencer_node s" for s using assms(1) by auto
  from batch_forwarding [OF this b] assms(2) f show ?thesis by auto
qed

theorem queue_node_forwards_witness:
  "forwarder_busy (snd (node_handle_operations Queue_node True accept_all keep_edges sample_batch node_new))"
proof -
  have m: "Put_item 1 \<in> set sample_batch" by (simp add: sample_batch_def)
  show ?thesis
    by (rule queue_node_forwards [OF _ _ prod.collapse [symmetric], where x = 1 and r = 0]) (use m in simp_all)
qed

text \<open>
  A \<^verbatim>\<open>sequencer_node\<close> can lose a request to forward: in \<^verbatim>\<open>handle_operations\<close> a put overwrites
  \<^verbatim>\<open>try_forwarding\<close> with its own success, so a duplicate that comes after a new successor in the
  same batch cancels the forwarding the successor needs. The items stay, the successor is registered,
  and no task serves it; in the other order the same two operations start the forwarder.
\<close>

theorem sequencer_duplicate_cancels_forwarding:
  assumes "node_inv nd" and "contents nd (s x) \<noteq> None" and "\<not> forwarder_busy nd"
    and "node_handle_operations (Sequencer_node s) True put reg [Reg_succ r, Put_item x] nd = (as, n1)"
    and "node_handle_operations (Sequencer_node s) True put reg [Put_item x, Reg_succ r] nd = (bs, n2)"
  shows "\<not> forwarder_busy n1 \<and> my_successors n1 = my_successors nd @ [r] \<and> contents n1 = contents nd \<and>
    flow_spawned n1 = flow_spawned nd \<and>
    forwarder_busy n2 \<and> my_successors n2 = my_successors nd @ [r] \<and> contents n2 = contents nd"
proof -
  have b: "buffer_inv nd" using assms(1) by (simp add: node_inv_def)
  have st: "my_head nd \<le> s x" "s x < my_tail nd" using assms(2) by (auto simp: contents_def split: if_splits)
  have cap: "\<not> buffer_size nd (my_tail nd) > capacity nd"
    using st buffer_invD(3,4) [OF b] by (simp add: buffer_size_def capacity_def)
  have v: "my_item_valid nd (s x)" using contents_valid(1) [OF b, of "s x"] assms(2) by simp
  have add: "\<not> my_tail nd < size_add (s x) 1"
    using st(2) mod_less_eq_dividend [of "s x + 1" "2 ^ 64"] by (simp add: size_add_def)
  have p: "sequencer_push s x m = (got None, m)"
    if "my_array m = my_array nd" "my_array_size m = my_array_size nd" "my_head m = my_head nd" "my_tail m = my_tail nd"
    for m :: "'a buffer_node"
    using that st cap v add by (simp add: sequencer_push_def Let_def buffer_size_def capacity_def place_item_def
        my_item_valid_def item_def slot_index_def)
  have n1: "n1 = internal_reg_succ r nd"
    using assms(3,4) p [of "internal_reg_succ r nd"]
    by (auto simp: node_handle_operations_def node_op_def internal_push_def internal_reg_succ_def got_def)
  have n2: "\<exists>sp. n2 = (internal_reg_succ r nd)\<lparr>forwarder_busy := True, flow_spawned := sp\<rparr>"
    using assms(3,5) p [of nd]
    by (auto simp: node_handle_operations_def node_op_def internal_push_def internal_reg_succ_def got_def
        split: prod.splits)
  show ?thesis using n1 n2 assms(3) by (auto simp: internal_reg_succ_def)
qed

end
