(* ===== verification/Limiter_Node.thy ===== *)
theory Limiter_Node
  imports Prelude
begin

text \<open>
  \<^verbatim>\<open>limiter_node\<close> of \<^verbatim>\<open>include/tbb/flow_graph.h\<close> with its reservable predecessor cache and broadcast
  successor cache (\<^verbatim>\<open>_flow_graph_impl.h\<close>). Many threads are inside the node at once; each section
  under \<^verbatim>\<open>my_mutex\<close>, and each call to another node, is one step. The neighbours' answers are free.
\<close>

section \<open>State\<close>

text \<open>
  \<open>TP_\<dots>\<close> are the points inside \<^verbatim>\<open>try_put_task\<close>, \<open>FW_\<dots>\<close> those inside \<^verbatim>\<open>forward_task\<close>: \<open>Send\<close> is about to
  call the successors, \<open>Ok\<close> and \<open>Fail\<close> know their answer and have not yet taken the lock again;
  \<open>FW_Ask\<close> waits for the reserved predecessor's answer; \<open>FW_Fail r\<close> has \<^verbatim>\<open>reserved == r\<close>.
\<close>

datatype lim_pc = L_Idle | TP_Send | TP_Ok | TP_Fail
  | FW_Start | FW_Reserve | FW_Ask | FW_Send | FW_Ok | FW_Fail bool

text \<open>
  \<open>fwd_tasks\<close> are the forwarding tasks spawned and not yet run. \<open>passed\<close> and \<open>decs\<close> count the messages a
  successor took and the calls of \<^verbatim>\<open>decrement_counter\<close>.
\<close>

record limiter =
  my_threshold :: nat
  my_count :: nat
  my_tries :: nat
  my_predecessors :: "nat list"
  reserved_src :: "nat option"
  lim_successors :: "nat list"
  root_task :: bool
  fwd_tasks :: nat
  lim_pcs :: "lim_pc list"
  passed :: nat
  decs :: nat

definition lim_init :: "nat \<Rightarrow> nat \<Rightarrow> limiter" where
  "lim_init threshold n =
     \<lparr>my_threshold = threshold, my_count = 0, my_tries = 0, my_predecessors = [], reserved_src = None,
      lim_successors = [], root_task = True, fwd_tasks = 0, lim_pcs = replicate n L_Idle, passed = 0, decs = 0\<rparr>"

definition check_conditions :: "limiter \<Rightarrow> bool" where
  "check_conditions s \<longleftrightarrow>
     my_count s + my_tries s < my_threshold s \<and> my_predecessors s \<noteq> [] \<and> lim_successors s \<noteq> []"

text \<open>Spawn or return a forwarding task if the conditions hold and the graph has a root task.\<close>

definition spawn_if :: "bool \<Rightarrow> limiter \<Rightarrow> limiter" where
  "spawn_if b s = (if b \<and> root_task s then s\<lparr>fwd_tasks := fwd_tasks s + 1\<rparr> else s)"

definition at :: "limiter \<Rightarrow> nat \<Rightarrow> lim_pc \<Rightarrow> limiter" where
  "at s i c = s\<lparr>lim_pcs := (lim_pcs s)[i := c]\<rparr>"

text \<open>
  \<^verbatim>\<open>broadcast_cache::try_put_task\<close>: \<open>acc\<close> are the successors that take the message, \<open>tov\<close> those that take over
  the edge when they refuse, and are erased. The call succeeds if anyone took the message.
\<close>

definition broadcast_ok :: "(nat \<Rightarrow> bool) \<Rightarrow> limiter \<Rightarrow> bool" where
  "broadcast_ok acc s \<longleftrightarrow> list_ex acc (lim_successors s)"

definition broadcast :: "(nat \<Rightarrow> bool) \<Rightarrow> (nat \<Rightarrow> bool) \<Rightarrow> limiter \<Rightarrow> limiter" where
  "broadcast acc tov s =
     s\<lparr>lim_successors := filter (\<lambda>r. acc r \<or> \<not> tov r) (lim_successors s),
       passed := passed s + (if broadcast_ok acc s then 1 else 0)\<rparr>"

section \<open>Steps\<close>

inductive lim_step :: "limiter \<Rightarrow> limiter \<Rightarrow> bool" where
  put_full: "i < length (lim_pcs s) \<Longrightarrow> lim_pcs s ! i = L_Idle \<Longrightarrow> my_count s + my_tries s \<ge> my_threshold s \<Longrightarrow>
    lim_step s s"
| put_enter: "i < length (lim_pcs s) \<Longrightarrow> lim_pcs s ! i = L_Idle \<Longrightarrow> my_count s + my_tries s < my_threshold s \<Longrightarrow>
    lim_step s (at (s\<lparr>my_tries := my_tries s + 1\<rparr>) i TP_Send)"
| put_send: "i < length (lim_pcs s) \<Longrightarrow> lim_pcs s ! i = TP_Send \<Longrightarrow>
    lim_step s (at (broadcast acc tov s) i (if broadcast_ok acc s then TP_Ok else TP_Fail))"
| put_ok: "i < length (lim_pcs s) \<Longrightarrow> lim_pcs s ! i = TP_Ok \<Longrightarrow>
    lim_step s (at (s\<lparr>my_count := my_count s + 1, my_tries := my_tries s - 1\<rparr>) i L_Idle)"
| put_fail: "i < length (lim_pcs s) \<Longrightarrow> lim_pcs s ! i = TP_Fail \<Longrightarrow> t = s\<lparr>my_tries := my_tries s - 1\<rparr> \<Longrightarrow>
    lim_step s (at (spawn_if (check_conditions t) t) i L_Idle)"
| fwd_run: "i < length (lim_pcs s) \<Longrightarrow> lim_pcs s ! i = L_Idle \<Longrightarrow> fwd_tasks s > 0 \<Longrightarrow>
    lim_step s (at (s\<lparr>fwd_tasks := fwd_tasks s - 1\<rparr>) i FW_Start)"
| fwd_enter: "i < length (lim_pcs s) \<Longrightarrow> lim_pcs s ! i = FW_Start \<Longrightarrow> check_conditions s \<Longrightarrow>
    lim_step s (at (s\<lparr>my_tries := my_tries s + 1\<rparr>) i FW_Reserve)"
| fwd_skip: "i < length (lim_pcs s) \<Longrightarrow> lim_pcs s ! i = FW_Start \<Longrightarrow> \<not> check_conditions s \<Longrightarrow>
    lim_step s (at s i L_Idle)"
| fwd_pop: "i < length (lim_pcs s) \<Longrightarrow> lim_pcs s ! i = FW_Reserve \<Longrightarrow> reserved_src s = None \<Longrightarrow>
    my_predecessors s = p # ps \<Longrightarrow>
    lim_step s (at (s\<lparr>my_predecessors := ps, reserved_src := Some p\<rparr>) i FW_Ask)"
| fwd_none: "i < length (lim_pcs s) \<Longrightarrow> lim_pcs s ! i = FW_Reserve \<Longrightarrow>
    reserved_src s \<noteq> None \<or> my_predecessors s = [] \<Longrightarrow> lim_step s (at s i (FW_Fail False))"
| fwd_granted: "i < length (lim_pcs s) \<Longrightarrow> lim_pcs s ! i = FW_Ask \<Longrightarrow> reserved_src s = Some p \<Longrightarrow>
    lim_step s (at (s\<lparr>my_predecessors := my_predecessors s @ [p]\<rparr>) i FW_Send)"
| fwd_denied: "i < length (lim_pcs s) \<Longrightarrow> lim_pcs s ! i = FW_Ask \<Longrightarrow>
    lim_step s (at (s\<lparr>reserved_src := None\<rparr>) i FW_Reserve)"
| fwd_send: "i < length (lim_pcs s) \<Longrightarrow> lim_pcs s ! i = FW_Send \<Longrightarrow>
    lim_step s (at (broadcast acc tov s) i (if broadcast_ok acc s then FW_Ok else FW_Fail True))"
| fwd_ok: "i < length (lim_pcs s) \<Longrightarrow> lim_pcs s ! i = FW_Ok \<Longrightarrow>
    t = s\<lparr>my_count := my_count s + 1, my_tries := my_tries s - 1, reserved_src := None\<rparr> \<Longrightarrow>
    lim_step s (at (spawn_if (check_conditions t) t) i L_Idle)"
| fwd_fail: "i < length (lim_pcs s) \<Longrightarrow> lim_pcs s ! i = FW_Fail r \<Longrightarrow>
    t = s\<lparr>my_tries := my_tries s - 1, reserved_src := (if r then None else reserved_src s)\<rparr> \<Longrightarrow>
    lim_step s (at (spawn_if (check_conditions t) t) i L_Idle)"
| decrement: "i < length (lim_pcs s) \<Longrightarrow> lim_pcs s ! i = L_Idle \<Longrightarrow>
    lim_step s (at (s\<lparr>my_count := (if my_count s \<noteq> 0 then my_count s - 1 else my_count s), decs := decs s + 1\<rparr>) i FW_Start)"
| register_successor: "t = s\<lparr>lim_successors := lim_successors s @ [r]\<rparr> \<Longrightarrow>
    lim_step s (spawn_if (lim_successors s = [] \<and> my_predecessors s \<noteq> [] \<and> my_count s + my_tries s < my_threshold s) t)"
| remove_successor: "lim_step s (s\<lparr>lim_successors := remove1 r (lim_successors s)\<rparr>)"
| register_predecessor: "t = s\<lparr>my_predecessors := my_predecessors s @ [p]\<rparr> \<Longrightarrow>
    lim_step s (spawn_if (my_count s + my_tries s < my_threshold s \<and> lim_successors s \<noteq> []) t)"
| remove_predecessor: "my_predecessors s = ps @ p # qs \<Longrightarrow> p \<notin> set ps \<Longrightarrow>
    lim_step s (s\<lparr>my_predecessors := qs @ ps\<rparr>)"
| remove_no_predecessor: "lim_step s s"

inductive lim_reachable :: "nat \<Rightarrow> nat \<Rightarrow> limiter \<Rightarrow> bool" for threshold n where
  init: "lim_reachable threshold n (lim_init threshold n)"
| step: "lim_reachable threshold n s \<Longrightarrow> lim_step s t \<Longrightarrow> lim_reachable threshold n t"

text \<open>\<^verbatim>\<open>reset\<close>, run on an idle graph.\<close>

definition lim_reset :: "limiter \<Rightarrow> limiter" where
  "lim_reset s = s\<lparr>my_count := 0, my_predecessors := [], reserved_src := None\<rparr>"

section \<open>Invariants\<close>

definition trying :: "lim_pc \<Rightarrow> bool" where
  "trying c \<longleftrightarrow> c \<noteq> L_Idle \<and> c \<noteq> FW_Start"

definition succeeded :: "lim_pc \<Rightarrow> bool" where
  "succeeded c \<longleftrightarrow> c = TP_Ok \<or> c = FW_Ok"

definition forwarding :: "lim_pc \<Rightarrow> bool" where
  "forwarding c \<longleftrightarrow> c \<noteq> L_Idle \<and> c \<noteq> TP_Send \<and> c \<noteq> TP_Ok \<and> c \<noteq> TP_Fail"

definition how_many :: "(lim_pc \<Rightarrow> bool) \<Rightarrow> limiter \<Rightarrow> nat" where
  "how_many P s = length (filter P (lim_pcs s))"

definition lim_inv :: "limiter \<Rightarrow> bool" where
  "lim_inv s \<longleftrightarrow> my_tries s = how_many trying s \<and> my_count s + my_tries s \<le> my_threshold s \<and>
     passed s \<le> my_count s + how_many succeeded s + decs s"

definition lim_live :: "limiter \<Rightarrow> bool" where
  "lim_live s \<longleftrightarrow> root_task s \<and> (check_conditions s \<longrightarrow> fwd_tasks s > 0 \<or> (\<exists>c \<in> set (lim_pcs s). forwarding c))"

lemma lim_pc_kinds [simp]:
  "\<not> trying L_Idle" "trying TP_Send" "trying TP_Ok" "trying TP_Fail" "\<not> trying FW_Start" "trying FW_Reserve"
  "trying FW_Ask" "trying FW_Send" "trying FW_Ok" "trying (FW_Fail r)"
  "\<not> succeeded L_Idle" "\<not> succeeded TP_Send" "succeeded TP_Ok" "\<not> succeeded TP_Fail" "\<not> succeeded FW_Start"
  "\<not> succeeded FW_Reserve" "\<not> succeeded FW_Ask" "\<not> succeeded FW_Send" "succeeded FW_Ok" "\<not> succeeded (FW_Fail r)"
  "\<not> forwarding L_Idle" "\<not> forwarding TP_Send" "\<not> forwarding TP_Ok" "\<not> forwarding TP_Fail" "forwarding FW_Start"
  "forwarding FW_Reserve" "forwarding FW_Ask" "forwarding FW_Send" "forwarding FW_Ok" "forwarding (FW_Fail r)"
  by (simp_all add: trying_def succeeded_def forwarding_def)

lemma at_fields [simp]:
  "my_threshold (at s i c) = my_threshold s" "my_count (at s i c) = my_count s" "my_tries (at s i c) = my_tries s"
  "my_predecessors (at s i c) = my_predecessors s" "lim_successors (at s i c) = lim_successors s"
  "root_task (at s i c) = root_task s" "fwd_tasks (at s i c) = fwd_tasks s" "passed (at s i c) = passed s"
  "decs (at s i c) = decs s" "lim_pcs (at s i c) = (lim_pcs s)[i := c]"
  by (simp_all add: at_def)

lemma spawn_fields [simp]:
  "my_threshold (spawn_if b s) = my_threshold s" "my_count (spawn_if b s) = my_count s" "my_tries (spawn_if b s) = my_tries s"
  "my_predecessors (spawn_if b s) = my_predecessors s" "lim_successors (spawn_if b s) = lim_successors s"
  "root_task (spawn_if b s) = root_task s" "passed (spawn_if b s) = passed s"
  "decs (spawn_if b s) = decs s" "lim_pcs (spawn_if b s) = lim_pcs s"
  "fwd_tasks (spawn_if b s) = (if b \<and> root_task s then fwd_tasks s + 1 else fwd_tasks s)"
  by (simp_all add: spawn_if_def)

lemma broadcast_fields [simp]:
  "my_threshold (broadcast a b s) = my_threshold s" "my_count (broadcast a b s) = my_count s" "my_tries (broadcast a b s) = my_tries s"
  "my_predecessors (broadcast a b s) = my_predecessors s"
  "root_task (broadcast a b s) = root_task s" "fwd_tasks (broadcast a b s) = fwd_tasks s"
  "decs (broadcast a b s) = decs s" "lim_pcs (broadcast a b s) = lim_pcs s"
  "passed (broadcast a b s) = passed s + (if broadcast_ok a s then 1 else 0)"
  by (simp_all add: broadcast_def)

text \<open>The counts when one thread moves.\<close>

lemma how_many_move:
  assumes "i < length (lim_pcs s)" "lim_pcs t = (lim_pcs s)[i := c]"
  shows "how_many P t + of_bool (P (lim_pcs s ! i)) = how_many P s + of_bool (P c)"
  unfolding how_many_def assms(2) by (rule length_filter_update [OF assms(1)])

lemma lim_inv_move:
  assumes "lim_inv s" "i < length (lim_pcs s)" "lim_pcs t = (lim_pcs s)[i := c]" "my_threshold t = my_threshold s"
    and "my_tries t + of_bool (trying (lim_pcs s ! i)) = my_tries s + of_bool (trying c)"
    and "my_count t + my_tries t \<le> my_threshold s"
    and "passed t + my_count s + decs s + of_bool (succeeded (lim_pcs s ! i))
          \<le> passed s + my_count t + decs t + of_bool (succeeded c)"
  shows "lim_inv t"
  using assms how_many_move [OF assms(2,3), of trying] how_many_move [OF assms(2,3), of succeeded]
  unfolding lim_inv_def by linarith

lemma trying_pos: "lim_inv s \<Longrightarrow> i < length (lim_pcs s) \<Longrightarrow> trying (lim_pcs s ! i) \<Longrightarrow> 0 < my_tries s"
  using length_filter_pos [of i "lim_pcs s" trying] by (simp add: lim_inv_def how_many_def)

lemma lim_step_inv: "lim_step s t \<Longrightarrow> lim_inv s \<Longrightarrow> lim_inv t"
proof (induction rule: lim_step.induct)
  case (put_enter i s)
  show ?case by (rule lim_inv_move [OF put_enter(4,1)]) (use put_enter in auto)
next
  case (put_send i s acc tov)
  show ?case by (rule lim_inv_move [OF put_send(3,1)]) (use put_send in \<open>auto simp: lim_inv_def\<close>)
next
  case (put_ok i s)
  then have "0 < my_tries s" by (intro trying_pos) auto
  then show ?case by (intro lim_inv_move [OF put_ok(3,1)]) (use put_ok in \<open>auto simp: lim_inv_def\<close>)
next
  case (put_fail i s t)
  then have "0 < my_tries s" by (intro trying_pos) auto
  then show ?case by (intro lim_inv_move [OF put_fail(4,1)]) (use put_fail in \<open>auto simp: lim_inv_def\<close>)
next
  case (fwd_run i s)
  show ?case by (rule lim_inv_move [OF fwd_run(4,1)]) (use fwd_run in \<open>auto simp: lim_inv_def\<close>)
next
  case (fwd_enter i s)
  show ?case by (rule lim_inv_move [OF fwd_enter(4,1)]) (use fwd_enter in \<open>auto simp: check_conditions_def\<close>)
next
  case (fwd_skip i s)
  show ?case by (rule lim_inv_move [OF fwd_skip(4,1)]) (use fwd_skip in \<open>auto simp: lim_inv_def\<close>)
next
  case (fwd_pop i s p ps)
  show ?case by (rule lim_inv_move [OF fwd_pop(5,1)]) (use fwd_pop in \<open>auto simp: lim_inv_def\<close>)
next
  case (fwd_none i s)
  show ?case by (rule lim_inv_move [OF fwd_none(4,1)]) (use fwd_none in \<open>auto simp: lim_inv_def\<close>)
next
  case (fwd_granted i s p)
  show ?case by (rule lim_inv_move [OF fwd_granted(4,1)]) (use fwd_granted in \<open>auto simp: lim_inv_def\<close>)
next
  case (fwd_denied i s)
  show ?case by (rule lim_inv_move [OF fwd_denied(3,1)]) (use fwd_denied in \<open>auto simp: lim_inv_def\<close>)
next
  case (fwd_send i s acc tov)
  show ?case by (rule lim_inv_move [OF fwd_send(3,1)]) (use fwd_send in \<open>auto simp: lim_inv_def\<close>)
next
  case (fwd_ok i s t)
  then have "0 < my_tries s" by (intro trying_pos) auto
  then show ?case by (intro lim_inv_move [OF fwd_ok(4,1)]) (use fwd_ok in \<open>auto simp: lim_inv_def\<close>)
next
  case (fwd_fail i s r t)
  then have "0 < my_tries s" by (intro trying_pos) auto
  then show ?case by (intro lim_inv_move [OF fwd_fail(4,1)]) (use fwd_fail in \<open>auto simp: lim_inv_def\<close>)
next
  case (decrement i s)
  show ?case by (rule lim_inv_move [OF decrement(3,1)]) (use decrement in \<open>auto simp: lim_inv_def\<close>)
qed (auto simp: lim_inv_def how_many_def)

lemma forwarding_kept:
  assumes "i < length cs" "\<exists>c \<in> set cs. forwarding c" "\<not> forwarding (cs ! i) \<or> forwarding c'"
  shows "\<exists>c \<in> set (cs[i := c']). forwarding c"
proof -
  obtain j where "j < length cs" "forwarding (cs ! j)" using assms(2) by (auto simp: in_set_conv_nth)
  then show ?thesis using assms(1,3) by (cases "i = j") (auto simp: set_conv_nth intro!: exI [of _ j])
qed

lemma forwarding_new: "i < length cs \<Longrightarrow> forwarding c' \<Longrightarrow> \<exists>c \<in> set (cs[i := c']). forwarding c"
  using set_update_memI by fastforce

lemma lim_step_live: "lim_step s t \<Longrightarrow> lim_live s \<Longrightarrow> lim_live t"
proof (induction rule: lim_step.induct)
  case (put_ok i s)
  have "i < length (lim_pcs s)" "\<not> forwarding (lim_pcs s ! i)" using put_ok by simp_all
  note K = forwarding_kept [OF this(1) _ disjI1 [OF this(2)]]
  show ?case using put_ok K by (auto simp: lim_live_def check_conditions_def)
next
  case (put_enter i s)
  have "i < length (lim_pcs s)" "\<not> forwarding (lim_pcs s ! i)" using put_enter by simp_all
  note K = forwarding_kept [OF this(1) _ disjI1 [OF this(2)]]
  show ?case using put_enter K by (auto simp: lim_live_def check_conditions_def)
next
  case (put_send i s acc tov)
  have "i < length (lim_pcs s)" "\<not> forwarding (lim_pcs s ! i)" using put_send by simp_all
  note K = forwarding_kept [OF this(1) _ disjI1 [OF this(2)]]
  have "check_conditions (broadcast acc tov s) \<Longrightarrow> check_conditions s"
    by (auto simp: check_conditions_def broadcast_def)
  then show ?case using put_send K by (auto simp: lim_live_def check_conditions_def)
qed (auto simp: lim_live_def check_conditions_def broadcast_def forwarding_kept forwarding_new)


lemma lim_threshold: "lim_step s t \<Longrightarrow> my_threshold t = my_threshold s \<and> length (lim_pcs t) = length (lim_pcs s)"
  by (induction rule: lim_step.induct) auto

lemma lim_reachable_props:
  "lim_reachable threshold n s \<Longrightarrow> lim_inv s \<and> lim_live s \<and> my_threshold s = threshold \<and> length (lim_pcs s) = n"
proof (induction rule: lim_reachable.induct)
  case init
  show ?case by (simp add: lim_init_def lim_inv_def lim_live_def how_many_def check_conditions_def)
next
  case (step s t)
  then show ?case using lim_step_inv lim_step_live lim_threshold by auto
qed

lemma succeeded_le: "how_many succeeded s \<le> how_many trying s"
proof -
  have "{i. i < length (lim_pcs s) \<and> succeeded (lim_pcs s ! i)} \<subseteq> {i. i < length (lim_pcs s) \<and> trying (lim_pcs s ! i)}"
    by (auto simp: succeeded_def trying_def)
  then show ?thesis unfolding how_many_def length_filter_conv_card by (intro card_mono) auto
qed

section \<open>Sample executions\<close>

text \<open>
  Thread 0 puts a message that the successor takes; before thread 0 counts it, the message has
  been processed and thread 1 delivers the decrement.
\<close>

definition lim_taken :: limiter where
  "lim_taken = \<lparr>my_threshold = 1, my_count = 0, my_tries = 1, my_predecessors = [], reserved_src = None,
     lim_successors = [7], root_task = True, fwd_tasks = 0, lim_pcs = [TP_Ok, L_Idle], passed = 1, decs = 0\<rparr>"

definition lim_stuck :: limiter where
  "lim_stuck = \<lparr>my_threshold = 1, my_count = 1, my_tries = 0, my_predecessors = [], reserved_src = None,
     lim_successors = [7], root_task = True, fwd_tasks = 0, lim_pcs = [L_Idle, L_Idle], passed = 1, decs = 1\<rparr>"

text \<open>A predecessor arrives while the limiter has room.\<close>

definition lim_ready :: limiter where
  "lim_ready = \<lparr>my_threshold = 1, my_count = 0, my_tries = 0, my_predecessors = [3], reserved_src = None,
     lim_successors = [7], root_task = True, fwd_tasks = 1, lim_pcs = [L_Idle, L_Idle], passed = 0, decs = 0\<rparr>"

lemma lim_first: "lim_reachable 1 2 ((lim_init 1 2)\<lparr>lim_successors := [7]\<rparr>)"
proof -
  have "lim_step (lim_init 1 2) ((lim_init 1 2)\<lparr>lim_successors := [7]\<rparr>)"
    using lim_step.register_successor [of "(lim_init 1 2)\<lparr>lim_successors := [7]\<rparr>" "lim_init 1 2" 7]
    by (simp add: lim_init_def spawn_if_def)
  then show ?thesis by (blast intro: lim_reachable.intros)
qed

lemma lim_taken_reachable: "lim_reachable 1 2 lim_taken"
proof -
  let ?s = "(lim_init 1 2)\<lparr>lim_successors := [7]\<rparr>"
  let ?t = "?s\<lparr>my_tries := 1, lim_pcs := [TP_Send, L_Idle]\<rparr>"
  have 1: "lim_step ?s ?t" using lim_step.put_enter [of 0 ?s] by (simp add: lim_init_def at_def numeral_2_eq_2)
  have 2: "lim_step ?t lim_taken" using lim_step.put_send [of 0 ?t "\<lambda>_. True" "\<lambda>_. False"]
    by (simp add: lim_init_def at_def broadcast_def broadcast_ok_def lim_taken_def)
  show ?thesis using lim_first 1 2 by (blast intro: lim_reachable.intros)
qed

lemma lim_ready_reachable: "lim_reachable 1 2 lim_ready"
proof -
  let ?s = "(lim_init 1 2)\<lparr>lim_successors := [7]\<rparr>"
  have "lim_step ?s lim_ready" using lim_step.register_predecessor [of "?s\<lparr>my_predecessors := [3]\<rparr>" ?s 3]
    by (simp add: lim_init_def spawn_if_def lim_ready_def numeral_2_eq_2)
  then show ?thesis using lim_first by (blast intro: lim_reachable.intros)
qed

section \<open>Properties\<close>

text \<open>
  C21: the limiter never lets more than \<^verbatim>\<open>my_threshold\<close> unacknowledged messages through: however many
  threads put, forward, decrement and change edges at once, the messages successors took are at
  most the threshold plus the decrements received, \<^verbatim>\<open>my_count + my_tries\<close> stays within the threshold, and
  \<^verbatim>\<open>my_tries\<close> is the number of threads inside an attempt.
\<close>

theorem limiter_bound:
  assumes "lim_reachable threshold n s"
  shows "my_count s + my_tries s \<le> threshold \<and> passed s \<le> threshold + decs s \<and> my_tries s = how_many trying s"
proof -
  have i: "lim_inv s" "my_threshold s = threshold" using lim_reachable_props [OF assms] by simp_all
  then show ?thesis using succeeded_le [of s] by (auto simp: lim_inv_def)
qed

theorem limiter_bound_witness:
  "passed lim_taken = 1 \<and> passed lim_taken \<le> 1 + decs lim_taken \<and> how_many trying lim_taken = 1"
  using limiter_bound [OF lim_taken_reachable] by (simp add: lim_taken_def)

text \<open>
  C36: the limiter does not sleep on work: whenever it has room, a predecessor and a successor, a
  forwarding task is waiting to run or some thread is inside \<^verbatim>\<open>forward_task\<close>.
\<close>

theorem limiter_no_lost_wakeup:
  assumes "lim_reachable threshold n s" and "check_conditions s"
  shows "fwd_tasks s > 0 \<or> (\<exists>c. c \<in> set (lim_pcs s) \<and> forwarding c)"
  using lim_reachable_props [OF assms(1)] assms(2) by (auto simp: lim_live_def)

theorem limiter_no_lost_wakeup_witness:
  "check_conditions lim_ready \<and> (fwd_tasks lim_ready > 0 \<or> (\<exists>c. c \<in> set (lim_pcs lim_ready) \<and> forwarding c))"
proof -
  have "check_conditions lim_ready" by (simp add: check_conditions_def lim_ready_def)
  with limiter_no_lost_wakeup [OF lim_ready_reachable this] show ?thesis by simp
qed

text \<open>
  A decrement can be lost. \<^verbatim>\<open>decrement_counter\<close> ignores a decrement while \<^verbatim>\<open>my_count\<close> is zero, but a
  message is counted only after the successor's \<^verbatim>\<open>try_put_task\<close> has returned; when its decrement comes
  in between, the limiter ends with every message acknowledged, nobody inside, and its count at the
  threshold: it refuses every further message.
\<close>

theorem limiter_decrement_lost:
  "\<exists>s. lim_reachable 1 2 s \<and> passed s = 1 \<and> decs s = passed s \<and> lim_pcs s = [L_Idle, L_Idle] \<and>
     fwd_tasks s = 0 \<and> my_count s + my_tries s \<ge> my_threshold s"
proof -
  let ?a = "lim_taken\<lparr>decs := 1, lim_pcs := [TP_Ok, FW_Start]\<rparr>"
  let ?b = "lim_taken\<lparr>decs := 1, lim_pcs := [TP_Ok, L_Idle]\<rparr>"
  have 1: "lim_step lim_taken ?a" using lim_step.decrement [of 1 lim_taken] by (simp add: lim_taken_def at_def)
  have 2: "lim_step ?a ?b" using lim_step.fwd_skip [of 1 ?a] by (simp add: lim_taken_def at_def check_conditions_def)
  have 3: "lim_step ?b lim_stuck" using lim_step.put_ok [of 0 ?b] by (simp add: lim_taken_def at_def lim_stuck_def)
  have "lim_reachable 1 2 lim_stuck" using lim_taken_reachable 1 2 3 by (blast intro: lim_reachable.intros)
  then show ?thesis by (intro exI [of _ lim_stuck]) (simp add: lim_stuck_def)
qed

end
