(* ===== verification/Tagged_Buffer.thy ===== *)
theory Tagged_Buffer
  imports Prelude
begin

unbundle bit_operations_syntax

text \<open>
  \<^verbatim>\<open>include/tbb/internal/_flow_graph_tagged_buffer_impl.h\<close>: the hash table in which a tag-matching
  join node keeps its messages. Elements live in one array and are linked by index: each bucket is a
  chain, and so is the free list. A destroyed value is \<open>None\<close>; following a null pointer is \<open>None\<close>.
\<close>

section \<open>The table\<close>

record 'v element =
  e_next :: "nat option"
  e_tag :: "64 word"
  e_val :: "'v option"

record 'v tagged_buffer =
  my_size :: nat
  nelements :: nat
  pointer_array :: "nat option list"
  elements_array :: "'v element list"
  free_list :: "nat option"

definition INITIAL_SIZE :: nat where "INITIAL_SIZE = 8"

definition NO_TAG :: "64 word" where "NO_TAG = 0"

definition hash :: "64 word \<Rightarrow> 64 word" where
  "hash t = t * 0x9E3779B97F4A7C15"

text \<open>\<^verbatim>\<open>hash(t) & mask()\<close> for a table of \<open>sz\<close> buckets.\<close>

definition bucket_index :: "nat \<Rightarrow> 64 word \<Rightarrow> nat" where
  "bucket_index sz t = unat (hash t AND (of_nat sz - 1))"

definition next_of :: "'v tagged_buffer \<Rightarrow> nat \<Rightarrow> nat option" where
  "next_of tb p = e_next (elements_array tb ! p)"

text \<open>The elements a loop over bucket \<open>h\<close> visits.\<close>

definition bucket :: "'v tagged_buffer \<Rightarrow> nat \<Rightarrow> nat list" where
  "bucket tb h = walk (length (elements_array tb)) (next_of tb) (pointer_array tb ! h)"

definition set_up_free_list :: "nat \<Rightarrow> 'v element list \<times> nat option" where
  "set_up_free_list sz =
     (map (\<lambda>i. \<lparr>e_next = Some (i + 1), e_tag = NO_TAG, e_val = None\<rparr>) [0..<sz - 1] @
        [\<lparr>e_next = None, e_tag = NO_TAG, e_val = None\<rparr>], Some 0)"

text \<open>\<^verbatim>\<open>internal_initialize_buffer\<close> for a given table size.\<close>

definition initialize_buffer :: "nat \<Rightarrow> nat \<Rightarrow> 'v tagged_buffer" where
  "initialize_buffer sz ne =
     (let (els, fl) = set_up_free_list (sz div 2)
      in \<lparr>my_size = sz, nelements = ne, pointer_array = replicate sz None, elements_array = els, free_list = fl\<rparr>)"

definition tagged_buffer_new :: "'v tagged_buffer" where
  "tagged_buffer_new = initialize_buffer INITIAL_SIZE 0"

text \<open>\<^verbatim>\<open>internal_free_buffer\<close> then \<^verbatim>\<open>internal_initialize_buffer\<close>.\<close>

definition tagged_reset :: "'v tagged_buffer \<Rightarrow> 'v tagged_buffer" where
  "tagged_reset tb = initialize_buffer INITIAL_SIZE 0"

definition internal_tagged_insert :: "'v tagged_buffer \<Rightarrow> 64 word \<Rightarrow> 'v \<Rightarrow> 'v tagged_buffer option" where
  "internal_tagged_insert tb t v =
     (let h = bucket_index (my_size tb) t in
      case free_list tb of
        None \<Rightarrow> None
      | Some e \<Rightarrow> Some (tb\<lparr>free_list := next_of tb e,
          elements_array := (elements_array tb)[e := \<lparr>e_next = pointer_array tb ! h, e_tag = t, e_val = Some v\<rparr>],
          pointer_array := (pointer_array tb)[h := Some e]\<rparr>))"

text \<open>\<^verbatim>\<open>grow_array\<close>: move every chain into a table of twice the size.\<close>

fun move_elements :: "'v tagged_buffer \<Rightarrow> nat list \<Rightarrow> 'v tagged_buffer \<Rightarrow> 'v tagged_buffer option" where
  "move_elements old [] new = Some new"
| "move_elements old (p # ps) new =
     (case internal_tagged_insert new (e_tag (elements_array old ! p)) (the (e_val (elements_array old ! p))) of
        None \<Rightarrow> None
      | Some new' \<Rightarrow> move_elements old ps new')"

definition grow_array :: "'v tagged_buffer \<Rightarrow> 'v tagged_buffer option" where
  "grow_array tb =
     move_elements tb (concat (map (bucket tb) [0..<my_size tb]))
       (initialize_buffer (my_size tb * 2) (nelements tb))"

definition tagged_find_ref :: "'v tagged_buffer \<Rightarrow> 64 word \<Rightarrow> nat option" where
  "tagged_find_ref tb t =
     List.find (\<lambda>p. e_tag (elements_array tb ! p) = t) (bucket tb (bucket_index (my_size tb) t))"

definition tagged_find :: "'v tagged_buffer \<Rightarrow> 64 word \<Rightarrow> 'v option" where
  "tagged_find tb t =
     (case tagged_find_ref tb t of Some p \<Rightarrow> e_val (elements_array tb ! p) | None \<Rightarrow> None)"

definition tagged_insert :: "'v tagged_buffer \<Rightarrow> 64 word \<Rightarrow> 'v \<Rightarrow> (bool \<times> 'v tagged_buffer) option" where
  "tagged_insert tb t v =
     (case tagged_find_ref tb t of
        Some p \<Rightarrow> Some (False, tb\<lparr>elements_array := (elements_array tb)[p := (elements_array tb ! p)\<lparr>e_val := Some v\<rparr>]\<rparr>)
      | None \<Rightarrow>
        (let tb1 = tb\<lparr>nelements := nelements tb + 1\<rparr>;
             tb2 = (if nelements tb1 * 2 > my_size tb1 then grow_array tb1 else Some tb1)
         in case tb2 of None \<Rightarrow> None | Some tb' \<Rightarrow> map_option (Pair True) (internal_tagged_insert tb' t v)))"

text \<open>The loop of \<^verbatim>\<open>tagged_delete\<close>: the element with the tag, and the one before it.\<close>

fun find_with_prev :: "'v tagged_buffer \<Rightarrow> 64 word \<Rightarrow> nat option \<Rightarrow> nat list \<Rightarrow> (nat option \<times> nat) option" where
  "find_with_prev tb t prev [] = None"
| "find_with_prev tb t prev (p # ps) =
     (if e_tag (elements_array tb ! p) = t then Some (prev, p) else find_with_prev tb t (Some p) ps)"

text \<open>
  \<open>None\<close> is the failed assertion of the last line: the tag is not in the table. (A build without
  assertions leaves the table as it is.)
\<close>

definition tagged_delete :: "'v tagged_buffer \<Rightarrow> 64 word \<Rightarrow> 'v tagged_buffer option" where
  "tagged_delete tb t =
     (let h = bucket_index (my_size tb) t in
      case find_with_prev tb t None (bucket tb h) of
        None \<Rightarrow> None
      | Some (prev, p) \<Rightarrow>
        let els = (elements_array tb)[p := (elements_array tb ! p)\<lparr>e_val := None, e_tag := NO_TAG\<rparr>];
            tb1 = (case prev of
                Some q \<Rightarrow> tb\<lparr>elements_array := els[q := (els ! q)\<lparr>e_next := e_next (els ! p)\<rparr>]\<rparr>
              | None \<Rightarrow> tb\<lparr>elements_array := els, pointer_array := (pointer_array tb)[h := e_next (els ! p)]\<rparr>);
            els1 = elements_array tb1
        in Some (tb1\<lparr>elements_array := els1[p := (els1 ! p)\<lparr>e_next := free_list tb1\<rparr>],
               free_list := Some p, nelements := nelements tb1 - 1\<rparr>))"

section \<open>Invariant\<close>

text \<open>
  An element is live when its value is constructed. The chain of a bucket visits exactly the
  live elements that hash to it, the free list the others, each once; live tags are distinct.
\<close>

definition live :: "'v tagged_buffer \<Rightarrow> nat \<Rightarrow> bool" where
  "live tb p \<longleftrightarrow> p < length (elements_array tb) \<and> e_val (elements_array tb ! p) \<noteq> None"

definition tag_of :: "'v tagged_buffer \<Rightarrow> nat \<Rightarrow> 64 word" where
  "tag_of tb p = e_tag (elements_array tb ! p)"

definition free_elements :: "'v tagged_buffer \<Rightarrow> nat list" where
  "free_elements tb = walk (length (elements_array tb)) (next_of tb) (free_list tb)"

definition table_inv :: "'v tagged_buffer \<Rightarrow> bool" where
  "table_inv tb \<longleftrightarrow> 2 \<le> my_size tb \<and> length (pointer_array tb) = my_size tb \<and>
     length (elements_array tb) = my_size tb div 2 \<and>
     (\<forall>h < my_size tb. chain (next_of tb) (pointer_array tb ! h) (bucket tb h) \<and> distinct (bucket tb h) \<and>
        set (bucket tb h) = {p. live tb p \<and> bucket_index (my_size tb) (tag_of tb p) = h}) \<and>
     chain (next_of tb) (free_list tb) (free_elements tb) \<and> distinct (free_elements tb) \<and>
     set (free_elements tb) = {p. p < length (elements_array tb) \<and> \<not> live tb p} \<and>
     inj_on (tag_of tb) {p. live tb p}"

definition tagged_inv :: "'v tagged_buffer \<Rightarrow> bool" where
  "tagged_inv tb \<longleftrightarrow> table_inv tb \<and> nelements tb = card {p. live tb p}"

lemma bucket_index_less: "0 < sz \<Longrightarrow> bucket_index sz t < sz"
proof -
  assume sz: "0 < sz"
  let ?m = "of_nat sz - 1 :: 64 word"
  have "unat (hash t AND ?m) \<le> unat ?m" by (simp add: word_and_le1 flip: word_le_nat_alt)
  also have "unat ?m < sz"
  proof (cases "sz < 2 ^ 64")
    case True
    have "?m = of_nat (sz - 1)" using sz by (simp add: of_nat_diff)
    then have "unat ?m = (sz - 1) mod 2 ^ 64" by (simp add: unat_of_nat)
    then show ?thesis using True sz by simp
  next
    case False
    then show ?thesis using unsigned_less [of ?m, where 'a = nat] by simp
  qed
  finally show ?thesis by (simp add: bucket_index_def)
qed

lemma table_invD:
  assumes "table_inv tb"
  shows "2 \<le> my_size tb" "length (pointer_array tb) = my_size tb" "length (elements_array tb) = my_size tb div 2"
    "h < my_size tb \<Longrightarrow> chain (next_of tb) (pointer_array tb ! h) (bucket tb h)"
    "h < my_size tb \<Longrightarrow> distinct (bucket tb h)"
    "h < my_size tb \<Longrightarrow> set (bucket tb h) = {p. live tb p \<and> bucket_index (my_size tb) (tag_of tb p) = h}"
    "chain (next_of tb) (free_list tb) (free_elements tb)" "distinct (free_elements tb)"
    "set (free_elements tb) = {p. p < length (elements_array tb) \<and> \<not> live tb p}"
    "inj_on (tag_of tb) {p. live tb p}"
  using assms unfolding table_inv_def by blast+

lemma walk_distinct:
  assumes "chain nx p xs" "distinct xs" "set xs \<subseteq> {p. p < n}"
  shows "walk n nx p = xs"
proof (rule walk_chain [OF assms(1)])
  have "length xs = card (set xs)" using assms(2) by (simp add: distinct_card)
  also have "\<dots> \<le> card {p. p < n}" using assms(3) by (intro card_mono) auto
  finally show "length xs \<le> n" by simp
qed

lemma table_invI:
  assumes "2 \<le> my_size tb" "length (pointer_array tb) = my_size tb" "length (elements_array tb) = my_size tb div 2"
    "\<And>h. h < my_size tb \<Longrightarrow> \<exists>xs. chain (next_of tb) (pointer_array tb ! h) xs \<and> distinct xs \<and>
        set xs = {p. live tb p \<and> bucket_index (my_size tb) (tag_of tb p) = h}"
    "\<exists>fs. chain (next_of tb) (free_list tb) fs \<and> distinct fs \<and> set fs = {p. p < length (elements_array tb) \<and> \<not> live tb p}"
    "inj_on (tag_of tb) {p. live tb p}"
  shows "table_inv tb"
proof -
  have "chain (next_of tb) (pointer_array tb ! h) (bucket tb h) \<and> distinct (bucket tb h) \<and>
        set (bucket tb h) = {p. live tb p \<and> bucket_index (my_size tb) (tag_of tb p) = h}" if hs: "h < my_size tb" for h
  proof -
    obtain xs where xs: "chain (next_of tb) (pointer_array tb ! h) xs" "distinct xs"
        "set xs = {p. live tb p \<and> bucket_index (my_size tb) (tag_of tb p) = h}" using assms(4) [OF hs] by blast
    have "set xs \<subseteq> {p. p < length (elements_array tb)}" using xs(3) by (auto simp: live_def)
    with xs show ?thesis unfolding bucket_def using walk_distinct [OF xs(1,2)] by simp
  qed
  moreover have "chain (next_of tb) (free_list tb) (free_elements tb) \<and> distinct (free_elements tb) \<and>
     set (free_elements tb) = {p. p < length (elements_array tb) \<and> \<not> live tb p}"
  proof -
    obtain fs where fs: "chain (next_of tb) (free_list tb) fs" "distinct fs"
      "set fs = {p. p < length (elements_array tb) \<and> \<not> live tb p}" using assms(5) by blast
    have "set fs \<subseteq> {p. p < length (elements_array tb)}" using fs(3) by auto
    with fs show ?thesis unfolding free_elements_def using walk_distinct [OF fs(1,2)] by simp
  qed
  ultimately show ?thesis using assms unfolding table_inv_def by blast
qed

lemma live_finite [simp]: "finite {p. live tb p}"
  by (rule finite_subset [of _ "{..<length (elements_array tb)}"]) (auto simp: live_def)

section \<open>What a table holds\<close>

definition holds :: "'v tagged_buffer \<Rightarrow> 64 word \<Rightarrow> 'v \<Rightarrow> bool" where
  "holds tb t v \<longleftrightarrow> (\<exists>p. live tb p \<and> tag_of tb p = t \<and> e_val (elements_array tb ! p) = Some v)"

lemma find_ref_cases:
  assumes "table_inv tb"
  shows "tagged_find_ref tb t = Some p \<longleftrightarrow> live tb p \<and> tag_of tb p = t"
    "tagged_find_ref tb t = None \<longleftrightarrow> (\<forall>p. live tb p \<longrightarrow> tag_of tb p \<noteq> t)"
proof -
  let ?h = "bucket_index (my_size tb) t"
  have h: "?h < my_size tb" using bucket_index_less table_invD(1) [OF assms] by simp
  have s: "p \<in> set (bucket tb ?h) \<and> tag_of tb p = t \<longleftrightarrow> live tb p \<and> tag_of tb p = t" for p
    using table_invD(6) [OF assms h] by auto
  show n: "tagged_find_ref tb t = None \<longleftrightarrow> (\<forall>p. live tb p \<longrightarrow> tag_of tb p \<noteq> t)"
    unfolding tagged_find_ref_def find_None_iff using s by (auto simp: tag_of_def)
  have u: "p = q" if "live tb p" "tag_of tb p = t" "live tb q" "tag_of tb q = t" for p q
    using table_invD(10) [OF assms] that by (auto dest: inj_onD)
  have o: "live tb p \<and> tag_of tb p = t" if "tagged_find_ref tb t = Some p" for p
  proof -
    have "p \<in> set (bucket tb ?h) \<and> tag_of tb p = t"
      using that unfolding tagged_find_ref_def find_Some_iff tag_of_def by auto
    then show ?thesis using s by blast
  qed
  show "tagged_find_ref tb t = Some p \<longleftrightarrow> live tb p \<and> tag_of tb p = t"
  proof
    show "live tb p \<and> tag_of tb p = t" if "tagged_find_ref tb t = Some p" using o [OF that] .
    show "tagged_find_ref tb t = Some p" if l: "live tb p \<and> tag_of tb p = t"
    proof (cases "tagged_find_ref tb t")
      case None
      then show ?thesis using n l by blast
    next
      case (Some q)
      then show ?thesis using o [OF Some] u l by blast
    qed
  qed
qed

lemma find_holds:
  assumes "table_inv tb"
  shows "tagged_find tb t = Some v \<longleftrightarrow> holds tb t v"
proof (cases "tagged_find_ref tb t")
  case None
  then show ?thesis using find_ref_cases(2) [OF assms, of t] by (auto simp: tagged_find_def holds_def)
next
  case (Some p)
  then have "live tb p" "tag_of tb p = t" using find_ref_cases(1) [OF assms] by auto
  moreover have "q = p" if "live tb q" "tag_of tb q = t" for q
    using table_invD(10) [OF assms] that calculation by (auto dest: inj_onD)
  ultimately have "holds tb t v \<longleftrightarrow> e_val (elements_array tb ! p) = Some v" unfolding holds_def by metis
  then show ?thesis using Some by (simp add: tagged_find_def)
qed

lemma option_eqI: "(\<And>v. a = Some v \<longleftrightarrow> b = Some v) \<Longrightarrow> a = b"
  by (cases a; cases b) auto

lemma find_eqI:
  assumes "table_inv a" "table_inv b" "\<And>t v. holds b t v \<longleftrightarrow> (if t = k then x = Some v else holds a t v)"
  shows "tagged_find b = (tagged_find a)(k := x)"
proof
  fix t
  have "tagged_find b t = Some v \<longleftrightarrow> ((tagged_find a)(k := x)) t = Some v" for v
    unfolding find_holds [OF assms(2)] assms(3) using find_holds [OF assms(1), of t v] by simp
  then show "tagged_find b t = ((tagged_find a)(k := x)) t" by (rule option_eqI)
qed

text \<open>Inserting a new tag while an element is free.\<close>

lemma insert_ok:
  assumes inv: "table_inv tb" and free: "card {p. live tb p} < length (elements_array tb)"
    and new: "\<And>p. live tb p \<Longrightarrow> tag_of tb p \<noteq> t"
  obtains tb' where "internal_tagged_insert tb t v = Some tb'" "table_inv tb'" "my_size tb' = my_size tb"
    "card {p. live tb' p} = Suc (card {p. live tb p})" "nelements tb' = nelements tb"
    "length (elements_array tb') = length (elements_array tb)"
    "\<And>u w. holds tb' u w \<longleftrightarrow> (if u = t then w = v else holds tb u w)"
proof -
  let ?n = "length (elements_array tb)"
  let ?h = "bucket_index (my_size tb) t"
  have h: "?h < my_size tb" using bucket_index_less table_invD(1) [OF inv] by simp
  have "free_elements tb \<noteq> []"
  proof
    assume "free_elements tb = []"
    then have "{..<?n} \<subseteq> {p. live tb p}" using table_invD(9) [OF inv] by auto
    then have "card {..<?n} \<le> card {p. live tb p}" by (intro card_mono) auto
    then show False using free by simp
  qed
  then obtain e fs where fs: "free_elements tb = e # fs" by (cases "free_elements tb") auto
  then have e: "free_list tb = Some e" "chain (next_of tb) (next_of tb e) fs" "e \<notin> set fs" "distinct fs"
    "e < ?n" "\<not> live tb e" "set fs = {p. p < ?n \<and> \<not> live tb p} - {e}"
    using table_invD(7-9) [OF inv] by auto
  define u where "u = tb\<lparr>free_list := next_of tb e,
      elements_array := (elements_array tb)[e := \<lparr>e_next = pointer_array tb ! ?h, e_tag = t, e_val = Some v\<rparr>],
      pointer_array := (pointer_array tb)[?h := Some e]\<rparr>"
  have r: "internal_tagged_insert tb t v = Some u"
    using e(1) by (simp add: internal_tagged_insert_def Let_def u_def)
  have uf: "my_size u = my_size tb" "nelements u = nelements tb" "free_list u = next_of tb e"
    "pointer_array u = (pointer_array tb)[?h := Some e]"
    "elements_array u = (elements_array tb)[e := \<lparr>e_next = pointer_array tb ! ?h, e_tag = t, e_val = Some v\<rparr>]"
    "length (elements_array u) = ?n"
    by (simp_all add: u_def)
  have l: "live u p \<longleftrightarrow> p = e \<or> live tb p" for p
    using e(5) by (auto simp: live_def uf nth_list_update)
  have tg: "tag_of u p = (if p = e then t else tag_of tb p)" for p
    using e(5) by (auto simp: tag_of_def uf nth_list_update)
  have nx: "next_of u p = (if p = e then pointer_array tb ! ?h else next_of tb p)" for p
    using e(5) by (auto simp: next_of_def uf nth_list_update)
  have "table_inv u"
  proof (rule table_invI)
    fix h' assume h': "h' < my_size u"
    let ?xs = "bucket tb h'"
    have h'': "h' < my_size tb" using h' uf by simp
    have ne: "e \<notin> set ?xs" using table_invD(6) [OF inv h''] e(6) by auto
    have "chain (next_of u) (pointer_array tb ! h') ?xs = chain (next_of tb) (pointer_array tb ! h') ?xs"
      by (rule chain_cong) (use ne nx in auto)
    then have c: "chain (next_of u) (pointer_array tb ! h') ?xs" using table_invD(4) [OF inv h''] by simp
    show "\<exists>xs. chain (next_of u) (pointer_array u ! h') xs \<and> distinct xs \<and>
        set xs = {p. live u p \<and> bucket_index (my_size u) (tag_of u p) = h'}"
    proof (cases "h' = ?h")
      case True
      have "chain (next_of u) (Some e) (e # ?xs)" using c nx True by simp
      then show ?thesis
        using True table_invD(2) [OF inv] table_invD(5,6) [OF inv h''] h'' ne l tg e(6)
        by (intro exI [of _ "e # ?xs"]) (auto simp: uf)
    next
      case False
      then show ?thesis
        using table_invD(2) [OF inv] table_invD(5,6) [OF inv h''] h'' ne l tg e(6) c
        by (intro exI [of _ ?xs]) (auto simp: uf)
    qed
  next
    have "chain (next_of u) (free_list u) fs = chain (next_of tb) (free_list u) fs"
      by (rule chain_cong) (use e(3) nx in auto)
    then have "chain (next_of u) (free_list u) fs" using e(2) uf(3) by simp
    then show "\<exists>fs. chain (next_of u) (free_list u) fs \<and> distinct fs \<and>
        set fs = {p. p < length (elements_array u) \<and> \<not> live u p}"
      using e(4,7) l uf(6) by (intro exI [of _ fs]) auto
  next
    show "inj_on (tag_of u) {p. live u p}"
      using table_invD(10) [OF inv] new e(6) by (auto simp: inj_on_def l tg)
  qed (use table_invD(1-3) [OF inv] uf in simp_all)
  moreover have "{p. live u p} = insert e {p. live tb p}" using l by auto
  then have "card {p. live u p} = Suc (card {p. live tb p})" using e(6) by simp
  moreover have "holds u k w \<longleftrightarrow> (if k = t then w = v else holds tb k w)" for k w
  proof -
    have v1: "e_val (elements_array u ! p) = (if p = e then Some v else e_val (elements_array tb ! p))" for p
      using e(5) by (auto simp: uf nth_list_update)
    show ?thesis
    proof (cases "k = t")
      case True
      then show ?thesis unfolding holds_def l tg v1 using new by auto
    next
      case False
      then show ?thesis unfolding holds_def l tg v1 using e(6) by auto
    qed
  qed
  ultimately show thesis using r uf by (intro that [of u]) simp_all
qed


lemma holds_live: "live tb p \<Longrightarrow> \<exists>w. holds tb (tag_of tb p) w"
  by (auto simp: holds_def live_def)

lemma holds_tag: "holds tb t w \<Longrightarrow> \<exists>p. live tb p \<and> tag_of tb p = t"
  by (auto simp: holds_def)

lemma move_ok:
  assumes old: "\<And>p. p \<in> set ps \<Longrightarrow> live old p" and d: "distinct (map (tag_of old) ps)"
  shows "table_inv new \<Longrightarrow> card {p. live new p} + length ps \<le> length (elements_array new) \<Longrightarrow>
    (\<And>p w. p \<in> set ps \<Longrightarrow> \<not> holds new (tag_of old p) w) \<Longrightarrow>
    \<exists>new'. move_elements old ps new = Some new' \<and> table_inv new' \<and> my_size new' = my_size new \<and>
      nelements new' = nelements new \<and> length (elements_array new') = length (elements_array new) \<and>
      card {p. live new' p} = card {p. live new p} + length ps \<and>
      (\<forall>k w. holds new' k w \<longleftrightarrow> holds new k w \<or> (\<exists>p \<in> set ps. tag_of old p = k \<and> e_val (elements_array old ! p) = Some w))"
  using old d
proof (induction ps arbitrary: new)
  case (Cons p ps)
  let ?t = "tag_of old p" and ?v = "the (e_val (elements_array old ! p))"
  have v: "e_val (elements_array old ! p) = Some ?v" using Cons.prems(4) by (auto simp: live_def)
  have nw: "tag_of new q \<noteq> ?t" if "live new q" for q
    using holds_live [OF that] Cons.prems(3) [of p] by auto
  have room: "card {p. live new p} < length (elements_array new)" using Cons.prems(2) by simp
  obtain n1 where n1: "internal_tagged_insert new ?t ?v = Some n1" "table_inv n1" "my_size n1 = my_size new"
    "card {p. live n1 p} = Suc (card {p. live new p})" "nelements n1 = nelements new"
    "length (elements_array n1) = length (elements_array new)"
    "\<And>u w. holds n1 u w \<longleftrightarrow> (if u = ?t then w = ?v else holds new u w)"
    using insert_ok [OF Cons.prems(1) room nw] by blast
  have ne: "\<not> holds n1 (tag_of old q) w" if "q \<in> set ps" for q w
    using n1(7) Cons.prems(3) [of q] Cons.prems(5) that by (auto simp: image_iff)
  have c: "card {p. live n1 p} + length ps \<le> length (elements_array n1)" using Cons.prems(2) n1(4,6) by simp
  have o: "\<And>q. q \<in> set ps \<Longrightarrow> live old q" "distinct (map (tag_of old) ps)" using Cons.prems(4,5) by auto
  obtain n2 where n2: "move_elements old ps n1 = Some n2" "table_inv n2" "my_size n2 = my_size n1"
      "nelements n2 = nelements n1" "length (elements_array n2) = length (elements_array n1)"
      "card {p. live n2 p} = card {p. live n1 p} + length ps"
      "\<And>k w. holds n2 k w \<longleftrightarrow> holds n1 k w \<or> (\<exists>p \<in> set ps. tag_of old p = k \<and> e_val (elements_array old ! p) = Some w)"
    using Cons.IH [OF n1(2) c ne o] by blast
  have m: "move_elements old (p # ps) new = Some n2" using n1(1) n2(1) by (simp add: tag_of_def)
  have hn: "\<not> holds new ?t w" for w using Cons.prems(3) [of p] by simp
  have "holds n2 k w \<longleftrightarrow> holds new k w \<or> (\<exists>q \<in> set (p # ps). tag_of old q = k \<and> e_val (elements_array old ! q) = Some w)" for k w
    unfolding n2(7) n1(7) using v hn by (cases "k = ?t") auto
  then show ?case using m n2(2-6) n1(3-6) by auto
qed simp

lemma chain_upt:
  "i < n \<Longrightarrow> (\<And>j. i \<le> j \<Longrightarrow> j < n \<Longrightarrow> nx j = (if j = n - 1 then None else Some (j + 1))) \<Longrightarrow> chain nx (Some i) [i..<n]"
proof (induction "n - i" arbitrary: i)
  case (Suc m)
  show ?case
  proof (cases "Suc i = n")
    case True
    then show ?thesis using Suc.prems by (simp add: upt_conv_Cons)
  next
    case False
    then have "Suc i < n" "nx i = Some (Suc i)" "m = n - Suc i" using Suc.prems(1) Suc.prems(2) [of i] Suc.hyps(2) by auto
    then have "chain nx (Some (Suc i)) [Suc i..<n]" using Suc.hyps(1) [of "Suc i"] Suc.prems(2) by auto
    then show ?thesis using Suc.prems(1) \<open>nx i = Some (Suc i)\<close> by (simp add: upt_conv_Cons)
  qed
qed simp

lemma initialize_props:
  assumes "2 \<le> sz"
  shows "table_inv (initialize_buffer sz ne :: 'v tagged_buffer)" "\<not> live (initialize_buffer sz ne :: 'v tagged_buffer) p" "my_size (initialize_buffer sz ne :: 'v tagged_buffer) = sz"
    "nelements (initialize_buffer sz ne :: 'v tagged_buffer) = ne" "length (elements_array (initialize_buffer sz ne :: 'v tagged_buffer)) = sz div 2"
proof -
  define tb where "tb = (initialize_buffer sz ne :: 'v tagged_buffer)"
  have n: "0 < sz div 2" using assms by simp
  have f: "my_size tb = sz" "nelements tb = ne" "pointer_array tb = replicate sz None" "free_list tb = Some 0"
    "length (elements_array tb) = sz div 2"
    using n by (simp_all add: tb_def initialize_buffer_def set_up_free_list_def)
  have e: "elements_array tb ! i = \<lparr>e_next = (if i = sz div 2 - 1 then None else Some (i + 1)), e_tag = NO_TAG, e_val = None\<rparr>"
    if "i < sz div 2" for i
    using that by (auto simp: tb_def initialize_buffer_def set_up_free_list_def nth_append)
  have l: "\<not> live tb p" for p using e f(5) by (auto simp: live_def)
  have "chain (next_of tb) (Some 0) [0..<sz div 2]"
    by (rule chain_upt) (use n e in \<open>auto simp: next_of_def\<close>)
  then have fc: "\<exists>fs. chain (next_of tb) (free_list tb) fs \<and> distinct fs \<and> set fs = {p. p < length (elements_array tb) \<and> \<not> live tb p}"
    using f l by (intro exI [of _ "[0..<sz div 2]"]) auto
  show "table_inv (initialize_buffer sz ne :: 'v tagged_buffer)"
    unfolding tb_def [symmetric] by (rule table_invI) (use assms f l fc in auto)
  show "\<not> live (initialize_buffer sz ne :: 'v tagged_buffer) p" "my_size (initialize_buffer sz ne :: 'v tagged_buffer) = sz"
    "nelements (initialize_buffer sz ne :: 'v tagged_buffer) = ne" "length (elements_array (initialize_buffer sz ne :: 'v tagged_buffer)) = sz div 2"
    using l f by (simp_all add: tb_def)
qed

text \<open>The elements of all buckets are the live elements, each once.\<close>

lemma all_buckets:
  assumes inv: "table_inv tb"
  shows "set (concat (map (bucket tb) [0..<my_size tb])) = {p. live tb p}"
    "distinct (concat (map (bucket tb) [0..<my_size tb]))"
proof -
  have i: "bucket_index (my_size tb) (tag_of tb p) < my_size tb" for p
    using bucket_index_less table_invD(1) [OF inv] by simp
  show "set (concat (map (bucket tb) [0..<my_size tb])) = {p. live tb p}"
    using table_invD(6) [OF inv] i by auto
  have "distinct (concat (map (bucket tb) [0..<n]))" if "n \<le> my_size tb" for n
    using that
  proof (induction n)
    case (Suc n)
    have "x \<notin> set (bucket tb n)" if "x \<in> set (bucket tb m)" "m < n" for x m
      using table_invD(6) [OF inv, of m] table_invD(6) [OF inv, of n] Suc.prems that by auto
    then show ?case using Suc table_invD(5) [OF inv, of n] by auto
  qed simp
  then show "distinct (concat (map (bucket tb) [0..<my_size tb]))" by simp
qed

lemma grow_ok:
  assumes inv: "table_inv tb"
  obtains tb' where "grow_array tb = Some tb'" "table_inv tb'" "my_size tb' = my_size tb * 2"
    "nelements tb' = nelements tb" "length (elements_array tb') = my_size tb"
    "card {p. live tb' p} = card {p. live tb p}" "\<And>k w. holds tb' k w \<longleftrightarrow> holds tb k w"
proof -
  let ?ps = "concat (map (bucket tb) [0..<my_size tb])"
  let ?n = "initialize_buffer (my_size tb * 2) (nelements tb) :: 'a tagged_buffer"
  have z: "2 \<le> my_size tb * 2" using table_invD(1) [OF inv] by simp
  note I = initialize_props [OF z, where ne = "nelements tb" and 'v = 'a]
  note B = all_buckets [OF inv]
  have len: "length ?ps = card {p. live tb p}" using distinct_card [OF B(2)] B(1) by simp
  have "card {p. live tb p} \<le> length (elements_array tb)"
    using card_mono [of "{..<length (elements_array tb)}" "{p. live tb p}"] by (auto simp: live_def)
  then have c: "card {p. live ?n p} + length ?ps \<le> length (elements_array ?n)"
    using I(2,5) table_invD(3) [OF inv] len by simp
  have t: "distinct (map (tag_of tb) ?ps)"
    unfolding distinct_map using B table_invD(10) [OF inv] by simp
  have o: "\<And>p. p \<in> set ?ps \<Longrightarrow> live tb p" using B(1) by blast
  have nh: "\<not> holds ?n k w" for k w using I(2) by (auto simp: holds_def)
  obtain tb' where r: "move_elements tb ?ps ?n = Some tb'" "table_inv tb'" "my_size tb' = my_size ?n"
      "nelements tb' = nelements ?n" "length (elements_array tb') = length (elements_array ?n)"
      "card {p. live tb' p} = card {p. live ?n p} + length ?ps"
      "\<And>k w. holds tb' k w \<longleftrightarrow> holds ?n k w \<or> (\<exists>p \<in> set ?ps. tag_of tb p = k \<and> e_val (elements_array tb ! p) = Some w)"
    using move_ok [OF o t I(1) c nh] by blast
  have "holds tb' k w \<longleftrightarrow> holds tb k w" for k w
    unfolding r(7) B(1) using nh by (auto simp: holds_def)
  then show thesis
    using r I(2-5) len by (intro that [of tb']) (simp_all add: grow_array_def)
qed

lemma tagged_new_inv:
  "tagged_inv (tagged_buffer_new :: 'v tagged_buffer)" "tagged_find (tagged_buffer_new :: 'v tagged_buffer) = (\<lambda>_. None)"
proof -
  have z: "2 \<le> (8 :: nat)" by simp
  note I = initialize_props [OF z, where ne = 0 and 'v = 'v]
  have t: "table_inv (tagged_buffer_new :: 'v tagged_buffer)" "\<not> live (tagged_buffer_new :: 'v tagged_buffer) p"
    "nelements (tagged_buffer_new :: 'v tagged_buffer) = 0" for p
    unfolding tagged_buffer_new_def INITIAL_SIZE_def by (rule I)+
  then show "tagged_inv (tagged_buffer_new :: 'v tagged_buffer)" by (simp add: tagged_inv_def)
  have "tagged_find (tagged_buffer_new :: 'v tagged_buffer) k = None" for k
    using find_holds [OF t(1), of k] t(2)
    by (cases "tagged_find (tagged_buffer_new :: 'v tagged_buffer) k") (auto simp: holds_def)
  then show "tagged_find (tagged_buffer_new :: 'v tagged_buffer) = (\<lambda>_. None)" by auto
qed

lemma nelements_upd [simp]:
  "table_inv (tb\<lparr>nelements := n\<rparr>) = table_inv tb" "live (tb\<lparr>nelements := n\<rparr>) = live tb"
  "holds (tb\<lparr>nelements := n\<rparr>) k w = holds tb k w"
proof -
  have e: "next_of (tb\<lparr>nelements := n\<rparr>) = next_of tb" "live (tb\<lparr>nelements := n\<rparr>) = live tb"
    "tag_of (tb\<lparr>nelements := n\<rparr>) = tag_of tb"
    by (auto simp: fun_eq_iff next_of_def live_def tag_of_def)
  then show "live (tb\<lparr>nelements := n\<rparr>) = live tb" "holds (tb\<lparr>nelements := n\<rparr>) k w = holds tb k w"
    by (simp_all add: holds_def)
  have "bucket (tb\<lparr>nelements := n\<rparr>) = bucket tb" "free_elements (tb\<lparr>nelements := n\<rparr>) = free_elements tb"
    by (rule ext, simp add: bucket_def e) (simp add: free_elements_def e)
  then show "table_inv (tb\<lparr>nelements := n\<rparr>) = table_inv tb" using e by (simp add: table_inv_def)
qed

text \<open>Replacing the value of a live element.\<close>

lemma replace_value:
  fixes tb :: "'v tagged_buffer" and v :: 'v
  assumes inv: "table_inv tb" and p: "live tb p"
  defines "u \<equiv> tb\<lparr>elements_array := (elements_array tb)[p := (elements_array tb ! p)\<lparr>e_val := Some v\<rparr>]\<rparr>"
  shows "table_inv u" "live u q = live tb q" "nelements u = nelements tb"
    "holds u k w \<longleftrightarrow> (if k = tag_of tb p then w = v else holds tb k w)"
proof -
  have pl: "p < length (elements_array tb)" using p by (simp add: live_def)
  have f: "my_size u = my_size tb" "pointer_array u = pointer_array tb" "free_list u = free_list tb"
    "length (elements_array u) = length (elements_array tb)" by (simp_all add: u_def)
  show "nelements u = nelements tb" by (simp add: u_def)
  have e: "next_of u = next_of tb" "live u = live tb" "tag_of u = tag_of tb"
    using p pl by (auto simp: fun_eq_iff next_of_def live_def tag_of_def u_def nth_list_update)
  have b: "bucket u = bucket tb" "free_elements u = free_elements tb"
    by (rule ext, simp add: bucket_def e f) (simp add: free_elements_def e f)
  show "table_inv u" using inv e f b by (simp add: table_inv_def)
  show "live u q = live tb q" using e by simp
  have v1: "e_val (elements_array u ! q) = (if q = p then Some v else e_val (elements_array tb ! q))" for q
    using pl by (auto simp: u_def nth_list_update)
  have un: "q = p" if "live tb q" "tag_of tb q = tag_of tb p" for q
    using table_invD(10) [OF inv] p that by (auto dest: inj_onD)
  show "holds u k w \<longleftrightarrow> (if k = tag_of tb p then w = v else holds tb k w)"
  proof (cases "k = tag_of tb p")
    case True
    then show ?thesis unfolding holds_def e v1 using p un by auto
  next
    case False
    then show ?thesis unfolding holds_def e v1 by auto
  qed
qed

lemma tagged_insert_law:
  assumes "tagged_inv tb"
  shows "\<exists>tb'. tagged_insert tb t v = Some (tagged_find tb t = None, tb') \<and> tagged_inv tb' \<and>
    tagged_find tb' = (tagged_find tb)(t \<mapsto> v)"
proof -
  have inv: "table_inv tb" and ne: "nelements tb = card {p. live tb p}" using assms by (simp_all add: tagged_inv_def)
  show ?thesis
  proof (cases "tagged_find_ref tb t")
    case (Some p)
    then have p: "live tb p" "tag_of tb p = t" using find_ref_cases(1) [OF inv] by auto
    let ?u = "tb\<lparr>elements_array := (elements_array tb)[p := (elements_array tb ! p)\<lparr>e_val := Some v\<rparr>]\<rparr>"
    note R = replace_value [OF inv p(1), where v = v]
    have "tagged_insert tb t v = Some (False, ?u)" using Some by (simp add: tagged_insert_def)
    moreover have "tagged_find tb t \<noteq> None" using Some p(1) by (auto simp: tagged_find_def live_def)
    moreover have "tagged_inv ?u" using R(1-3) ne by (simp add: tagged_inv_def)
    moreover have "tagged_find ?u = (tagged_find tb)(t \<mapsto> v)"
      by (rule find_eqI [OF inv R(1)]) (use R(4) p(2) in auto)
    ultimately show ?thesis by auto
  next
    case None
    have new: "tag_of tb p \<noteq> t" if "live tb p" for p using find_ref_cases(2) [OF inv] None that by blast
    have nf: "tagged_find tb t = None" using None by (simp add: tagged_find_def)
    let ?b = "tb\<lparr>nelements := nelements tb + 1\<rparr>"
    have ib: "table_inv ?b" using inv by simp
    have "\<exists>c. (if nelements ?b * 2 > my_size ?b then grow_array ?b else Some ?b) = Some c \<and> table_inv c \<and>
      nelements c = nelements tb + 1 \<and> card {p. live c p} = card {p. live tb p} \<and>
      card {p. live c p} < length (elements_array c) \<and> (\<forall>k w. holds c k w \<longleftrightarrow> holds tb k w)"
    proof (cases "nelements ?b * 2 > my_size ?b")
      case True
      obtain c where c: "grow_array ?b = Some c" "table_inv c" "nelements c = nelements ?b"
        "length (elements_array c) = my_size ?b" "card {p. live c p} = card {p. live ?b p}" "\<And>k w. holds c k w = holds ?b k w"
        by (rule grow_ok [OF ib], rule that; assumption)
      have "card {p. live tb p} \<le> length (elements_array tb)"
        using card_mono [of "{..<length (elements_array tb)}" "{p. live tb p}"] by (auto simp: live_def)
      then have "card {p. live tb p} < my_size tb" using table_invD(1,3) [OF inv] by linarith
      then show ?thesis using True c by auto
    next
      case False
      then have "card {p. live tb p} < length (elements_array tb)" using ne table_invD(3) [OF inv] by simp
      then show ?thesis using False inv by auto
    qed
    then obtain c where c: "(if nelements ?b * 2 > my_size ?b then grow_array ?b else Some ?b) = Some c" "table_inv c"
      "nelements c = nelements tb + 1" "card {p. live c p} = card {p. live tb p}"
      "card {p. live c p} < length (elements_array c)" "\<forall>k w. holds c k w \<longleftrightarrow> holds tb k w" by (elim exE conjE, intro that)
    have newc: "tag_of c p \<noteq> t" if "live c p" for p
    proof -
      obtain w where "holds c (tag_of c p) w" using holds_live [OF \<open>live c p\<close>] by blast
      then have "holds tb (tag_of c p) w" using c(6) by simp
      then obtain q where "live tb q" "tag_of tb q = tag_of c p" by (blast dest: holds_tag)
      then show ?thesis using new [of q] by simp
    qed
    obtain d where d: "internal_tagged_insert c t v = Some d" "table_inv d" "card {p. live d p} = Suc (card {p. live c p})"
      "nelements d = nelements c" "\<And>u w. holds d u w \<longleftrightarrow> (if u = t then w = v else holds c u w)"
      by (rule insert_ok [OF c(2,5), of t v], erule newc, rule that; assumption)
    have "tagged_insert tb t v = Some (True, d)"
      unfolding tagged_insert_def Let_def None option.case(1) c(1) option.case(2) d(1) by simp
    moreover have "tagged_inv d" using d(2-4) c(3,4) ne by (simp add: tagged_inv_def)
    moreover have "tagged_find d = (tagged_find tb)(t \<mapsto> v)"
      by (rule find_eqI [OF inv d(2)]) (use d(5) c(6) in auto)
    ultimately show ?thesis using nf by auto
  qed
qed

text \<open>Unlinking an element from its chain.\<close>

lemma find_with_prev_cases:
  "find_with_prev tb t q xs = None \<longleftrightarrow> (\<forall>x \<in> set xs. tag_of tb x \<noteq> t)"
  "find_with_prev tb t q xs = Some (r, p) \<Longrightarrow> tag_of tb p = t \<and>
    (\<exists>ys zs. xs = ys @ p # zs \<and> r = (if ys = [] then q else Some (last ys)))"
proof -
  show "find_with_prev tb t q xs = None \<longleftrightarrow> (\<forall>x \<in> set xs. tag_of tb x \<noteq> t)"
    by (induction xs arbitrary: q) (auto simp: tag_of_def)
  show "find_with_prev tb t q xs = Some (r, p) \<Longrightarrow> tag_of tb p = t \<and>
    (\<exists>ys zs. xs = ys @ p # zs \<and> r = (if ys = [] then q else Some (last ys)))"
  proof (induction xs arbitrary: q)
    case (Cons x xs)
    show ?case
    proof (cases "tag_of tb x = t")
      case True
      then show ?thesis using Cons.prems by (auto simp: tag_of_def intro!: exI [of _ "[]"])
    next
      case False
      then have "find_with_prev tb t (Some x) xs = Some (r, p)" using Cons.prems by (simp add: tag_of_def)
      from Cons.IH [OF this] obtain ys zs where "tag_of tb p = t" "xs = ys @ p # zs"
        "r = (if ys = [] then Some x else Some (last ys))" by blast
      then show ?thesis by (intro conjI exI [of _ "x # ys"] exI [of _ zs]) auto
    qed
  qed simp
qed

lemma chain_unlink:
  "chain nx q (ys @ p # zs) \<Longrightarrow> distinct (ys @ p # zs) \<Longrightarrow>
    (\<And>x. x \<in> set (ys @ zs) \<Longrightarrow> ny x = (if ys \<noteq> [] \<and> x = last ys then nx p else nx x)) \<Longrightarrow>
    chain ny (if ys = [] then nx p else q) (ys @ zs)"
proof (induction ys arbitrary: q)
  case Nil
  then have "chain nx (nx p) zs" by simp
  moreover have "chain ny (nx p) zs = chain nx (nx p) zs" by (rule chain_cong) (use Nil in auto)
  ultimately show ?case by simp
next
  case (Cons y ys)
  have c: "q = Some y" "chain nx (nx y) (ys @ p # zs)" using Cons.prems(1) by simp_all
  have n: "\<And>x. x \<in> set (ys @ zs) \<Longrightarrow> ny x = (if ys \<noteq> [] \<and> x = last ys then nx p else nx x)"
    using Cons.prems(2,3) by (auto split: if_splits)
  from Cons.IH [OF c(2) _ n] Cons.prems(2) have i: "chain ny (if ys = [] then nx p else nx y) (ys @ zs)" by simp
  have "ny y = (if ys = [] then nx p else nx y)" using Cons.prems(2) Cons.prems(3) [of y] by (auto split: if_splits)
  then show ?case using c(1) i by simp
qed


lemma tagged_delete_law:
  assumes "tagged_inv tb"
  shows "tagged_find tb t = None \<Longrightarrow> tagged_delete tb t = None"
    "tagged_find tb t \<noteq> None \<Longrightarrow>
      \<exists>u. tagged_delete tb t = Some u \<and> tagged_inv u \<and> tagged_find u = (tagged_find tb)(t := None)"
proof -
  have inv: "table_inv tb" and ne: "nelements tb = card {p. live tb p}" using assms by (simp_all add: tagged_inv_def)
  let ?h = "bucket_index (my_size tb) t"
  have h: "?h < my_size tb" using bucket_index_less table_invD(1) [OF inv] by simp
  have "case tagged_delete tb t of None \<Rightarrow> tagged_find tb t = None
    | Some u \<Rightarrow> tagged_find tb t \<noteq> None \<and> tagged_inv u \<and> tagged_find u = (tagged_find tb)(t := None)"
  proof (cases "find_with_prev tb t None (bucket tb ?h)")
    case None
    then have "tag_of tb x \<noteq> t" if "x \<in> set (bucket tb ?h)" for x using find_with_prev_cases(1) that by metis
    then have "\<not> holds tb t w" for w using table_invD(6) [OF inv h] by (auto simp: holds_def)
    then have "tagged_find tb t = None" using find_holds [OF inv, of t] by (cases "tagged_find tb t") auto
    then show ?thesis using None by (simp add: tagged_delete_def Let_def)
  next
    case (Some rp)
    then obtain r p where rp: "find_with_prev tb t None (bucket tb ?h) = Some (r, p)" by (cases rp) auto
    from find_with_prev_cases(2) [OF rp] obtain ys zs where x: "tag_of tb p = t" "bucket tb ?h = ys @ p # zs"
      "r = (if ys = [] then None else Some (last ys))" by blast
    define u where "u = the (tagged_delete tb t)"
    have some: "tagged_delete tb t = Some u" unfolding u_def tagged_delete_def using rp by (simp add: Let_def)
    have pl: "live tb p" using table_invD(6) [OF inv h] x(2) by auto
    have pn: "p < length (elements_array tb)" using pl by (simp add: live_def)
    have d: "distinct (ys @ p # zs)" using table_invD(5) [OF inv h] x(2) by simp
    have q: "last ys \<noteq> p" "last ys < length (elements_array tb)" "live tb (last ys)" if "ys \<noteq> []"
    proof -
      have "last ys \<in> set ys" using that by simp
      then show "last ys \<noteq> p" using d by auto
      have "last ys \<in> set (bucket tb ?h)" unfolding x(2) using that by simp
      then show "live tb (last ys)" using table_invD(6) [OF inv h] by blast
      then show "last ys < length (elements_array tb)" by (simp add: live_def)
    qed
    have f: "my_size u = my_size tb" "free_list u = Some p" "nelements u = nelements tb - 1"
      "length (elements_array u) = length (elements_array tb)"
      "pointer_array u = (if ys = [] then (pointer_array tb)[?h := next_of tb p] else pointer_array tb)"
      unfolding u_def tagged_delete_def using rp x(3) pn by (simp_all add: Let_def next_of_def)
    have nx: "next_of u y = (if y = p then free_list tb else if ys \<noteq> [] \<and> y = last ys then next_of tb p else next_of tb y)" for y
      unfolding u_def tagged_delete_def using rp x(3) pn q by (auto simp: Let_def next_of_def nth_list_update)
    have ev: "e_val (elements_array u ! y) = (if y = p then None else e_val (elements_array tb ! y))" for y
      unfolding u_def tagged_delete_def using rp x(3) pn q by (auto simp: Let_def nth_list_update)
    have tg: "y \<noteq> p \<Longrightarrow> tag_of u y = tag_of tb y" for y
      unfolding u_def tagged_delete_def tag_of_def using rp x(3) pn q by (auto simp: Let_def nth_list_update)
    have l: "live u y \<longleftrightarrow> live tb y \<and> y \<noteq> p" for y
      unfolding live_def f ev by auto
    have "table_inv u"
    proof (rule table_invI)
      fix h' assume h': "h' < my_size u"
      then have h'': "h' < my_size tb" using f by simp
      show "\<exists>xs. chain (next_of u) (pointer_array u ! h') xs \<and> distinct xs \<and>
        set xs = {p. live u p \<and> bucket_index (my_size u) (tag_of u p) = h'}"
      proof (cases "h' = ?h")
        case True
        have "chain (next_of u) (if ys = [] then next_of tb p else pointer_array tb ! ?h) (ys @ zs)"
          by (rule chain_unlink [OF table_invD(4) [OF inv h, unfolded x(2)] d]) (use d nx in auto)
        moreover have "pointer_array u ! h' = (if ys = [] then next_of tb p else pointer_array tb ! ?h)"
          unfolding f True using h table_invD(2) [OF inv] by simp
        moreover have "set (ys @ zs) = set (bucket tb ?h) - {p}" using d x(2) by auto
        then have "set (ys @ zs) = {p. live u p \<and> bucket_index (my_size u) (tag_of u p) = h'}"
          unfolding table_invD(6) [OF inv h] True l f using tg by auto
        ultimately show ?thesis using d by (intro exI [of _ "ys @ zs"]) auto
      next
        case False
        have np: "p \<notin> set (bucket tb h')" using table_invD(6) [OF inv h''] x(1) False by auto
        have nq: "last ys \<notin> set (bucket tb h')" if "ys \<noteq> []"
        proof -
          have "last ys \<in> set (bucket tb ?h)" unfolding x(2) using that by simp
          then show ?thesis using table_invD(6) [OF inv h] table_invD(6) [OF inv h''] False by auto
        qed
        have "chain (next_of u) (pointer_array tb ! h') (bucket tb h') = chain (next_of tb) (pointer_array tb ! h') (bucket tb h')"
          by (rule chain_cong) (use nx np nq in auto)
        moreover have "pointer_array u ! h' = pointer_array tb ! h'" unfolding f using False by simp
        moreover have "set (bucket tb h') = {p. live u p \<and> bucket_index (my_size u) (tag_of u p) = h'}"
          unfolding table_invD(6) [OF inv h''] l f by (rule Collect_cong) (use tg x(1) False in metis)
        ultimately show ?thesis using table_invD(4,5) [OF inv h''] by (intro exI [of _ "bucket tb h'"]) auto
      qed
    next
      have np: "p \<notin> set (free_elements tb)" using table_invD(9) [OF inv] pl by auto
      have nq: "last ys \<notin> set (free_elements tb)" if "ys \<noteq> []" using table_invD(9) [OF inv] q(3) [OF that] by auto
      have "chain (next_of u) (free_list tb) (free_elements tb) = chain (next_of tb) (free_list tb) (free_elements tb)"
        by (rule chain_cong) (use nx np nq in auto)
      then have "chain (next_of u) (free_list u) (p # free_elements tb)" using table_invD(7) [OF inv] f nx by simp
      then show "\<exists>fs. chain (next_of u) (free_list u) fs \<and> distinct fs \<and>
          set fs = {p. p < length (elements_array u) \<and> \<not> live u p}"
        using np pn table_invD(8,9) [OF inv] l f by (intro exI [of _ "p # free_elements tb"]) auto
    next
      show "inj_on (tag_of u) {p. live u p}"
        using table_invD(10) [OF inv] tg by (auto simp: inj_on_def l)
    qed (use table_invD(1-3) [OF inv] f in auto)
    moreover have "{y. live u y} = {y. live tb y} - {p}" using l by auto
    then have "nelements u = card {y. live u y}" using f ne pl by simp
    moreover have un: "y = p" if "live tb y" "tag_of tb y = t" for y
      using table_invD(10) [OF inv] pl x(1) that by (auto dest: inj_onD)
    have "holds u k w \<longleftrightarrow> k \<noteq> t \<and> holds tb k w" for k w
      unfolding holds_def l ev using tg un x(1) by (auto; metis)
    then have "tagged_find u = (tagged_find tb)(t := None)"
      by (intro find_eqI [OF inv \<open>table_inv u\<close>]) auto
    moreover have "tagged_find tb t \<noteq> None"
    proof -
      obtain w where "holds tb t w" using pl x(1) by (auto simp: holds_def live_def)
      then show ?thesis using find_holds [OF inv, of t] by auto
    qed
    ultimately show ?thesis unfolding some by (simp add: tagged_inv_def)
  qed
  then show "tagged_find tb t = None \<Longrightarrow> tagged_delete tb t = None"
    "tagged_find tb t \<noteq> None \<Longrightarrow>
      \<exists>u. tagged_delete tb t = Some u \<and> tagged_inv u \<and> tagged_find u = (tagged_find tb)(t := None)"
    by (auto split: option.splits)
qed

section \<open>The table is a map\<close>

interpretation tags: map_interface tagged_inv tagged_find tagged_insert tagged_delete
  by unfold_locales (auto intro: tagged_insert_law tagged_delete_law)

text \<open>
  C23: the tagged buffer is a map. From construction on, any sequence of insertions, deletions and look-ups
  answers as a map does, through every growth of the table: no insertion ever runs out of free elements
  (a null \<^verbatim>\<open>free_list\<close> would be followed), and the assertion of \<^verbatim>\<open>tagged_delete\<close> fails exactly when the sequence
  deletes a tag that is not in the map, which then has no answer either.
\<close>

theorem tagged_buffer_is_map:
  "map_option (\<lambda>(as, tb). (as, tagged_find tb)) (map_run tagged_insert tagged_delete tagged_find ops tagged_buffer_new) =
     map_run map_insert map_delete (\<lambda>m. m) ops (\<lambda>_. None)"
  using tags.run_refines [OF tagged_new_inv(1), of ops] unfolding tagged_new_inv(2) .

end
