(* ===== verification/Lru_Cache.thy ===== *)
theory Lru_Cache
  imports Prelude
begin

text \<open>
  \<^verbatim>\<open>include/tbb/concurrent_lru_cache.h\<close>. The two serial operations run inside the aggregator, so each is
  one step; computing a missing value, waiting for another thread's computation and releasing a
  handle are steps of the client threads. An iterator into the LRU list is the key it stands for.
\<close>

section \<open>State and serial operations\<close>

record 'v map_value =
  my_value :: "'v option"
  my_ref_counter :: nat
  my_lru_list_iterator :: bool
  my_is_ready :: bool

text \<open>\<open>my_lru_list_iterator\<close> is whether the iterator differs from \<^verbatim>\<open>my_lru_list.end()\<close>.\<close>

record ('k, 'v) lru_cache =
  my_number_of_lru_history_items :: nat
  my_map_storage :: "'k \<rightharpoonup> 'v map_value"
  my_lru_list :: "'k list"

definition lru_cache_new :: "nat \<Rightarrow> ('k, 'v) lru_cache" where
  "lru_cache_new n = \<lparr>my_number_of_lru_history_items = n, my_map_storage = Map.empty, my_lru_list = []\<rparr>"

text \<open>The cache afterwards, and \<^verbatim>\<open>is_new_value_needed\<close>.\<close>

definition retrieve_serial :: "'k \<Rightarrow> ('k, 'v) lru_cache \<Rightarrow> ('k, 'v) lru_cache \<times> bool" where
  "retrieve_serial k c =
     (case my_map_storage c k of
        None \<Rightarrow>
          (c\<lparr>my_map_storage := (my_map_storage c)(k \<mapsto>
               \<lparr>my_value = None, my_ref_counter = 0 + 1, my_lru_list_iterator = False, my_is_ready = False\<rparr>)\<rparr>, True)
      | Some it \<Rightarrow>
          let c' = (if my_lru_list_iterator it then c\<lparr>my_lru_list := remove1 k (my_lru_list c)\<rparr> else c);
              it' = it\<lparr>my_lru_list_iterator := False, my_ref_counter := my_ref_counter it + 1\<rparr>
          in (c'\<lparr>my_map_storage := (my_map_storage c')(k \<mapsto> it')\<rparr>, False))"

text \<open>The eviction loop; \<open>None\<close> when \<^verbatim>\<open>back()\<close> is called on an empty list.\<close>

fun evict :: "nat \<Rightarrow> ('k, 'v) lru_cache \<Rightarrow> ('k, 'v) lru_cache option" where
  "evict 0 c = Some c"
| "evict (Suc n) c =
     (if my_lru_list c = [] then None
      else let it_to_evict = last (my_lru_list c) in
        evict n (c\<lparr>my_lru_list := butlast (my_lru_list c),
                   my_map_storage := (my_map_storage c)(it_to_evict := None)\<rparr>))"

definition signal_end_of_usage_serial :: "'k \<Rightarrow> ('k, 'v) lru_cache \<Rightarrow> ('k, 'v) lru_cache option" where
  "signal_end_of_usage_serial k c =
     (case my_map_storage c k of
        None \<Rightarrow> None
      | Some it \<Rightarrow>
        let it' = it\<lparr>my_ref_counter := my_ref_counter it - 1\<rparr>;
            c1 = c\<lparr>my_map_storage := (my_map_storage c)(k \<mapsto> it')\<rparr>
        in if my_ref_counter it' \<noteq> 0 then Some c1
           else
             case (if length (my_lru_list c1) \<ge> my_number_of_lru_history_items c1
                   then evict (1 + length (my_lru_list c1) - my_number_of_lru_history_items c1) c1
                   else Some c1) of
               None \<Rightarrow> None
             | Some c2 \<Rightarrow> Some (c2\<lparr>my_lru_list := k # my_lru_list c2,
                 my_map_storage := (my_map_storage c2)(k \<mapsto> it'\<lparr>my_lru_list_iterator := True\<rparr>)\<rparr>))"

section \<open>Client threads\<close>

text \<open>
  \<open>Compute k\<close> runs the value function, \<open>WaitReady k\<close> spins on \<^verbatim>\<open>my_is_ready\<close>, \<open>Holding k\<close> owns a handle. The
  value function may throw instead of returning its value: then \<^verbatim>\<open>operator[]\<close> leaves without a handle.
\<close>

datatype 'k lru_pc = Outside | Compute 'k | WaitReady 'k | Holding 'k

record ('k, 'v) lru_system =
  cache :: "('k, 'v) lru_cache"
  clients :: "'k lru_pc list"

inductive lru_step :: "('k \<Rightarrow> 'v) \<Rightarrow> ('k, 'v) lru_system \<Rightarrow> ('k, 'v) lru_system \<Rightarrow> bool"
  for my_value_function where
  retrieve: "i < length (clients s) \<Longrightarrow> clients s ! i = Outside \<Longrightarrow> retrieve_serial k (cache s) = (c, new) \<Longrightarrow>
    lru_step my_value_function s \<lparr>cache = c, clients = (clients s)[i := if new then Compute k else WaitReady k]\<rparr>"
| compute: "i < length (clients s) \<Longrightarrow> clients s ! i = Compute k \<Longrightarrow> my_map_storage (cache s) k = Some it \<Longrightarrow>
    lru_step my_value_function s \<lparr>cache = (cache s)\<lparr>my_map_storage :=
        (my_map_storage (cache s))(k \<mapsto> it\<lparr>my_value := Some (my_value_function k), my_is_ready := True\<rparr>)\<rparr>,
      clients = (clients s)[i := Holding k]\<rparr>"
| throw: "i < length (clients s) \<Longrightarrow> clients s ! i = Compute k \<Longrightarrow>
    lru_step my_value_function s (s\<lparr>clients := (clients s)[i := Outside]\<rparr>)"
| ready: "i < length (clients s) \<Longrightarrow> clients s ! i = WaitReady k \<Longrightarrow> my_map_storage (cache s) k = Some it \<Longrightarrow>
    my_is_ready it \<Longrightarrow> lru_step my_value_function s (s\<lparr>clients := (clients s)[i := Holding k]\<rparr>)"
| release: "i < length (clients s) \<Longrightarrow> clients s ! i = Holding k \<Longrightarrow>
    signal_end_of_usage_serial k (cache s) = Some c \<Longrightarrow>
    lru_step my_value_function s \<lparr>cache = c, clients = (clients s)[i := Outside]\<rparr>"

definition lru_init :: "nat \<Rightarrow> nat \<Rightarrow> ('k, 'v) lru_system" where
  "lru_init n m = \<lparr>cache = lru_cache_new n, clients = replicate m Outside\<rparr>"

inductive lru_steps :: "('k \<Rightarrow> 'v) \<Rightarrow> ('k, 'v) lru_system \<Rightarrow> ('k, 'v) lru_system \<Rightarrow> bool" for f where
  refl: "lru_steps f s s"
| step: "lru_steps f s t \<Longrightarrow> lru_step f t u \<Longrightarrow> lru_steps f s u"

section \<open>Invariant\<close>

definition uses :: "'k \<Rightarrow> 'k lru_pc \<Rightarrow> bool" where
  "uses k c \<longleftrightarrow> c = Compute k \<or> c = WaitReady k \<or> c = Holding k"

definition users :: "'k \<Rightarrow> 'k lru_pc list \<Rightarrow> nat" where
  "users k cs = length (filter (uses k) cs)"

text \<open>
  The LRU list is what it should be: no repetition, at most the allowed number of items, exactly the
  records without references.
\<close>

definition cache_inv :: "('k, 'v) lru_cache \<Rightarrow> bool" where
  "cache_inv c \<longleftrightarrow> distinct (my_lru_list c) \<and> length (my_lru_list c) \<le> my_number_of_lru_history_items c \<and>
     (\<forall>k. k \<in> set (my_lru_list c) \<longleftrightarrow> (\<exists>it. my_map_storage c k = Some it \<and> my_ref_counter it = 0)) \<and>
     (\<forall>k it. my_map_storage c k = Some it \<longrightarrow> my_lru_list_iterator it = (my_ref_counter it = 0))"

text \<open>What a client's program counter says about its record.\<close>

definition client_ok :: "('k \<Rightarrow> 'v) \<Rightarrow> ('k, 'v) lru_cache \<Rightarrow> 'k lru_pc \<Rightarrow> bool" where
  "client_ok f c pc = (case pc of
      Outside \<Rightarrow> True
    | Compute k \<Rightarrow> \<exists>it. my_map_storage c k = Some it \<and> \<not> my_is_ready it \<and> 0 < my_ref_counter it
    | WaitReady k \<Rightarrow> \<exists>it. my_map_storage c k = Some it \<and> 0 < my_ref_counter it
    | Holding k \<Rightarrow> \<exists>it. my_map_storage c k = Some it \<and> my_is_ready it \<and> 0 < my_ref_counter it \<and>
        my_value it = Some (f k))"

definition lru_inv :: "('k \<Rightarrow> 'v) \<Rightarrow> ('k, 'v) lru_system \<Rightarrow> bool" where
  "lru_inv f s \<longleftrightarrow> cache_inv (cache s) \<and>
     (\<forall>k it. my_map_storage (cache s) k = Some it \<longrightarrow> users k (clients s) \<le> my_ref_counter it \<and>
        (my_is_ready it \<longrightarrow> my_value it = Some (f k))) \<and>
     (\<forall>i < length (clients s). client_ok f (cache s) (clients s ! i)) \<and>
     (\<forall>k i j. i < length (clients s) \<longrightarrow> j < length (clients s) \<longrightarrow> clients s ! i = Compute k \<longrightarrow>
        clients s ! j = Compute k \<longrightarrow> i = j)"

section \<open>The serial operations\<close>

lemma cache_invD:
  assumes "cache_inv c"
  shows "distinct (my_lru_list c)" "length (my_lru_list c) \<le> my_number_of_lru_history_items c"
    "k \<in> set (my_lru_list c) \<longleftrightarrow> (\<exists>it. my_map_storage c k = Some it \<and> my_ref_counter it = 0)"
    "my_map_storage c k = Some it \<Longrightarrow> my_lru_list_iterator it \<longleftrightarrow> my_ref_counter it = 0"
  using assms unfolding cache_inv_def by blast+

lemma cache_invI:
  assumes "distinct (my_lru_list c)" "length (my_lru_list c) \<le> my_number_of_lru_history_items c"
    "\<And>k. k \<in> set (my_lru_list c) \<longleftrightarrow> (\<exists>it. my_map_storage c k = Some it \<and> my_ref_counter it = 0)"
    "\<And>k it. my_map_storage c k = Some it \<Longrightarrow> my_lru_list_iterator it \<longleftrightarrow> my_ref_counter it = 0"
  shows "cache_inv c"
  using assms unfolding cache_inv_def by blast

lemma retrieve_props:
  assumes inv: "cache_inv c" and r: "retrieve_serial k c = (c', new)"
  shows "cache_inv c'" "my_number_of_lru_history_items c' = my_number_of_lru_history_items c"
    "new \<longleftrightarrow> my_map_storage c k = None" "my_lru_list c' = remove1 k (my_lru_list c)"
    "\<exists>it'. my_map_storage c' = (my_map_storage c)(k \<mapsto> it') \<and>
       (case my_map_storage c k of None \<Rightarrow> my_ref_counter it' = 1 \<and> \<not> my_is_ready it'
        | Some it \<Rightarrow> my_ref_counter it' = my_ref_counter it + 1 \<and> my_is_ready it' = my_is_ready it \<and> my_value it' = my_value it)"
proof -
  have "cache_inv c' \<and> my_number_of_lru_history_items c' = my_number_of_lru_history_items c \<and>
    (new \<longleftrightarrow> my_map_storage c k = None) \<and> my_lru_list c' = remove1 k (my_lru_list c) \<and>
    (\<exists>it'. my_map_storage c' = (my_map_storage c)(k \<mapsto> it') \<and>
       (case my_map_storage c k of None \<Rightarrow> my_ref_counter it' = 1 \<and> \<not> my_is_ready it'
        | Some it \<Rightarrow> my_ref_counter it' = my_ref_counter it + 1 \<and> my_is_ready it' = my_is_ready it \<and> my_value it' = my_value it))"
  proof (cases "my_map_storage c k")
    case None
    then have n: "k \<notin> set (my_lru_list c)" using cache_invD(3) [OF inv, of k] by simp
    have c': "c' = c\<lparr>my_map_storage := (my_map_storage c)(k \<mapsto>
        \<lparr>my_value = None, my_ref_counter = 1, my_lru_list_iterator = False, my_is_ready = False\<rparr>)\<rparr>" "new"
      using r None by (auto simp: retrieve_serial_def)
    have "cache_inv c'" unfolding c'(1)
      by (rule cache_invI) (use cache_invD [OF inv] n in \<open>auto split: if_splits\<close>)
    then show ?thesis using c' n None by (auto simp: remove1_idem)
  next
    case (Some it)
    let ?it = "it\<lparr>my_lru_list_iterator := False, my_ref_counter := my_ref_counter it + 1\<rparr>"
    have l: "(if my_lru_list_iterator it then remove1 k (my_lru_list c) else my_lru_list c) = remove1 k (my_lru_list c)"
      using cache_invD(3) [OF inv, of k] cache_invD(4) [OF inv Some] Some by (auto simp: remove1_idem)
    have c': "c' = c\<lparr>my_lru_list := remove1 k (my_lru_list c), my_map_storage := (my_map_storage c)(k \<mapsto> ?it)\<rparr>" "\<not> new"
      using r Some l by (auto simp: retrieve_serial_def Let_def split: if_splits)
    have "cache_inv c'" unfolding c'(1)
    proof (rule cache_invI)
      show "length (my_lru_list (c\<lparr>my_lru_list := remove1 k (my_lru_list c), my_map_storage := (my_map_storage c)(k \<mapsto> ?it)\<rparr>))
        \<le> my_number_of_lru_history_items (c\<lparr>my_lru_list := remove1 k (my_lru_list c), my_map_storage := (my_map_storage c)(k \<mapsto> ?it)\<rparr>)"
        using cache_invD(2) [OF inv] length_remove1 [of k "my_lru_list c"] by (auto split: if_splits)
    qed (use cache_invD(1,3,4) [OF inv] in \<open>auto split: if_splits\<close>)
    moreover have "my_map_storage c' = (my_map_storage c)(k \<mapsto> ?it)" unfolding c'(1) by simp
    moreover have "my_ref_counter ?it = my_ref_counter it + 1 \<and> my_is_ready ?it = my_is_ready it \<and> my_value ?it = my_value it"
      by simp
    ultimately show ?thesis using c' unfolding Some option.case(2) by (intro conjI exI [of _ ?it]) auto
  qed
  then show "cache_inv c'" "my_number_of_lru_history_items c' = my_number_of_lru_history_items c"
    "new \<longleftrightarrow> my_map_storage c k = None" "my_lru_list c' = remove1 k (my_lru_list c)"
    "\<exists>it'. my_map_storage c' = (my_map_storage c)(k \<mapsto> it') \<and>
       (case my_map_storage c k of None \<Rightarrow> my_ref_counter it' = 1 \<and> \<not> my_is_ready it'
        | Some it \<Rightarrow> my_ref_counter it' = my_ref_counter it + 1 \<and> my_is_ready it' = my_is_ready it \<and> my_value it' = my_value it)"
    by blast+
qed

lemma restrict_all [simp]: "m |` UNIV = m" "(m |` (UNIV - {k}))(k \<mapsto> v) = m(k \<mapsto> v)"
  by (auto simp: fun_eq_iff restrict_map_def)

lemma evict_some:
  "n \<le> length (my_lru_list c) \<Longrightarrow> distinct (my_lru_list c) \<Longrightarrow> evict n c = Some (c\<lparr>my_lru_list := take (length (my_lru_list c) - n) (my_lru_list c),
     my_map_storage := my_map_storage c |` (- set (drop (length (my_lru_list c) - n) (my_lru_list c)))\<rparr>)"
proof (induction n arbitrary: c)
  case (Suc n)
  let ?l = "my_lru_list c"
  have ne: "?l \<noteq> []" using Suc.prems by auto
  let ?d = "c\<lparr>my_lru_list := butlast ?l, my_map_storage := (my_map_storage c)(last ?l := None)\<rparr>"
  have "evict (Suc n) c = evict n ?d" using ne by (simp add: Let_def)
  also have "\<dots> = Some (?d\<lparr>my_lru_list := take (length (my_lru_list ?d) - n) (my_lru_list ?d),
     my_map_storage := my_map_storage ?d |` (- set (drop (length (my_lru_list ?d) - n) (my_lru_list ?d)))\<rparr>)"
    by (rule Suc.IH) (use Suc.prems in \<open>simp_all add: distinct_butlast\<close>)
  also have "take (length (my_lru_list ?d) - n) (my_lru_list ?d) = take (length ?l - Suc n) ?l"
    using ne by (simp add: take_butlast)
  also have "my_map_storage ?d |` (- set (drop (length (my_lru_list ?d) - n) (my_lru_list ?d))) =
      my_map_storage c |` (- set (drop (length ?l - Suc n) ?l))"
  proof -
    have "drop (length ?l - Suc n) ?l = drop (length ?l - Suc n) (butlast ?l @ [last ?l])" using ne by simp
    also have "\<dots> = drop (length ?l - Suc n) (butlast ?l) @ [last ?l]" using Suc.prems(1) by simp
    finally show ?thesis by (auto simp: fun_eq_iff restrict_map_def)
  qed
  finally show ?case by simp
qed simp

lemma release_props:
  assumes inv: "cache_inv c" and n: "0 < my_number_of_lru_history_items c"
    and k: "my_map_storage c k = Some it" "0 < my_ref_counter it"
  obtains c' where "signal_end_of_usage_serial k c = Some c'" "cache_inv c'"
    "my_number_of_lru_history_items c' = my_number_of_lru_history_items c"
    "my_lru_list c' = (if my_ref_counter it = 1 then k # take (my_number_of_lru_history_items c - 1) (my_lru_list c) else my_lru_list c)"
    "\<exists>it'. my_map_storage c' k = Some it' \<and> my_ref_counter it' = my_ref_counter it - 1 \<and> my_value it' = my_value it \<and>
       my_is_ready it' = my_is_ready it"
    "\<And>j. j \<noteq> k \<Longrightarrow> my_map_storage c' j =
       (if my_ref_counter it = 1 \<and> j \<in> set (drop (my_number_of_lru_history_items c - 1) (my_lru_list c)) then None else my_map_storage c j)"
proof -
  let ?N = "my_number_of_lru_history_items c" and ?l = "my_lru_list c"
  let ?it = "it\<lparr>my_ref_counter := my_ref_counter it - 1\<rparr>"
  let ?c1 = "c\<lparr>my_map_storage := (my_map_storage c)(k \<mapsto> ?it)\<rparr>"
  have kl: "k \<notin> set ?l" using cache_invD(3) [OF inv, of k] k by simp
  note D = cache_invD [OF inv]
  show thesis
  proof (cases "my_ref_counter it = 1")
    case False
    have s: "signal_end_of_usage_serial k c = Some ?c1"
      using k False by (simp add: signal_end_of_usage_serial_def Let_def)
    have i: "cache_inv ?c1"
      by (rule cache_invI) (use D(1,2) D(3,4) kl k False in \<open>auto split: if_splits\<close>)
    show thesis by (rule that [OF s i]) (use False in auto)
  next
    case True
    let ?n = "1 + length ?l - ?N"
    let ?st = "\<lambda>j. if j \<in> set (drop (?N - 1) ?l) then None else my_map_storage c j"
    have e: "(if length (my_lru_list ?c1) \<ge> my_number_of_lru_history_items ?c1
        then evict (1 + length (my_lru_list ?c1) - my_number_of_lru_history_items ?c1) ?c1 else Some ?c1)
      = Some (?c1\<lparr>my_lru_list := take (?N - 1) ?l, my_map_storage := my_map_storage ?c1 |` (- set (drop (?N - 1) ?l))\<rparr>)"
    proof (cases "length ?l \<ge> ?N")
      case True
      then have "length ?l = ?N" "?n = 1" "length ?l - 1 = ?N - 1" using D(2) by auto
      then show ?thesis using evict_some [of ?n ?c1] D(1) n by simp
    next
      case False
      then have "take (?N - 1) ?l = ?l" "drop (?N - 1) ?l = []" by auto
      then show ?thesis using False by simp
    qed
    let ?c3 = "?c1\<lparr>my_lru_list := k # take (?N - 1) ?l,
        my_map_storage := (my_map_storage ?c1 |` (- set (drop (?N - 1) ?l)))(k \<mapsto> ?it\<lparr>my_lru_list_iterator := True\<rparr>)\<rparr>"
    have s: "signal_end_of_usage_serial k c = Some ?c3"
      unfolding signal_end_of_usage_serial_def k(1) option.case(2) Let_def e using True by simp
    have td: "set ?l = set (take (?N - 1) ?l) \<union> set (drop (?N - 1) ?l)" "set (take (?N - 1) ?l) \<inter> set (drop (?N - 1) ?l) = {}"
      using set_take_disj_set_drop_if_distinct [OF D(1), of "?N - 1" "?N - 1"] by (auto simp flip: set_append)
    have kt: "k \<notin> set (take (?N - 1) ?l)" "k \<notin> set (drop (?N - 1) ?l)" using kl td by auto
    have i: "cache_inv ?c3"
    proof (rule cache_invI)
      fix j
      have "j \<in> set (take (?N - 1) ?l) \<longleftrightarrow> j \<notin> set (drop (?N - 1) ?l) \<and> (\<exists>it. my_map_storage c j = Some it \<and> my_ref_counter it = 0)"
        using td D(3) [of j] by auto
      then show "j \<in> set (my_lru_list ?c3) \<longleftrightarrow> (\<exists>it. my_map_storage ?c3 j = Some it \<and> my_ref_counter it = 0)"
        using True by (auto simp: restrict_map_def)
    next
      show "distinct (my_lru_list ?c3)" using kt D(1) by simp
      show "length (my_lru_list ?c3) \<le> my_number_of_lru_history_items ?c3" using n by simp
      show "my_lru_list_iterator jt \<longleftrightarrow> my_ref_counter jt = 0" if "my_map_storage ?c3 j = Some jt" for j jt
        using that D(4) [of j jt] True by (auto simp: restrict_map_def split: if_splits)
    qed
    show thesis by (rule that [OF s i]) (use True kt in \<open>auto simp: restrict_map_def\<close>)
  qed
qed


section \<open>The invariant of the system\<close>

lemma uses_simps [simp]:
  "uses k (Compute j) \<longleftrightarrow> k = j" "uses k (WaitReady j) \<longleftrightarrow> k = j" "uses k (Holding j) \<longleftrightarrow> k = j" "\<not> uses k Outside"
  by (auto simp: uses_def)

lemma users_move:
  "i < length cs \<Longrightarrow> users k (cs[i := c]) + of_bool (uses k (cs ! i)) = users k cs + of_bool (uses k c)"
  unfolding users_def by (rule length_filter_update)

lemma users_two:
  "i < length cs \<Longrightarrow> j < length cs \<Longrightarrow> i \<noteq> j \<Longrightarrow> uses k (cs ! i) \<Longrightarrow> uses k (cs ! j) \<Longrightarrow> 2 \<le> users k cs"
  unfolding users_def by (rule length_filter_two)

lemma users_pos: "i < length cs \<Longrightarrow> uses k (cs ! i) \<Longrightarrow> 0 < users k cs"
  unfolding users_def by (rule length_filter_pos)

lemma lru_invD:
  assumes "lru_inv f s"
  shows "cache_inv (cache s)"
    "my_map_storage (cache s) k = Some it \<Longrightarrow> users k (clients s) \<le> my_ref_counter it"
    "my_map_storage (cache s) k = Some it \<Longrightarrow> my_is_ready it \<Longrightarrow> my_value it = Some (f k)"
    "i < length (clients s) \<Longrightarrow> client_ok f (cache s) (clients s ! i)"
    "i < length (clients s) \<Longrightarrow> j < length (clients s) \<Longrightarrow> clients s ! i = Compute k \<Longrightarrow> clients s ! j = Compute k \<Longrightarrow> i = j"
  using assms unfolding lru_inv_def by blast+

lemma lru_invI:
  assumes "cache_inv (cache s)"
    "\<And>k it. my_map_storage (cache s) k = Some it \<Longrightarrow> users k (clients s) \<le> my_ref_counter it"
    "\<And>k it. my_map_storage (cache s) k = Some it \<Longrightarrow> my_is_ready it \<Longrightarrow> my_value it = Some (f k)"
    "\<And>i. i < length (clients s) \<Longrightarrow> client_ok f (cache s) (clients s ! i)"
    "\<And>k i j. i < length (clients s) \<Longrightarrow> j < length (clients s) \<Longrightarrow> clients s ! i = Compute k \<Longrightarrow> clients s ! j = Compute k \<Longrightarrow> i = j"
  shows "lru_inv f s"
  using assms unfolding lru_inv_def by blast

lemma client_ok_frame:
  assumes "client_ok f c pc"
    "\<And>k it. uses k pc \<Longrightarrow> my_map_storage c k = Some it \<Longrightarrow> 0 < my_ref_counter it \<Longrightarrow>
       \<exists>it'. my_map_storage c' k = Some it' \<and> my_value it' = my_value it \<and> my_is_ready it' = my_is_ready it \<and> 0 < my_ref_counter it'"
  shows "client_ok f c' pc"
proof (cases pc)
  case (Compute k)
  then show ?thesis using assms(1) assms(2) [of k] by (fastforce simp: client_ok_def)
next
  case (WaitReady k)
  then show ?thesis using assms(1) assms(2) [of k] by (fastforce simp: client_ok_def)
next
  case (Holding k)
  then show ?thesis using assms(1) assms(2) [of k] by (fastforce simp: client_ok_def)
qed (simp add: client_ok_def)

lemma nth_move: "i < length cs \<Longrightarrow> cs[i := c] ! j = (if i = j then c else cs ! j)"
  by simp

text \<open>One client moves.\<close>

lemma lru_move:
  assumes inv: "lru_inv f s" and i: "i < length (clients s)" and c: "cache_inv c"
    and cnt: "\<And>k it. my_map_storage c k = Some it \<Longrightarrow> users k ((clients s)[i := pc]) \<le> my_ref_counter it"
    and rdy: "\<And>k it. my_map_storage c k = Some it \<Longrightarrow> my_is_ready it \<Longrightarrow> my_value it = Some (f k)"
    and me: "client_ok f c pc"
    and oth: "\<And>j. j < length (clients s) \<Longrightarrow> j \<noteq> i \<Longrightarrow> client_ok f (cache s) (clients s ! j) \<Longrightarrow> client_ok f c (clients s ! j)"
    and uniq: "\<And>j k. pc = Compute k \<Longrightarrow> j < length (clients s) \<Longrightarrow> j \<noteq> i \<Longrightarrow> clients s ! j \<noteq> Compute k"
  shows "lru_inv f \<lparr>cache = c, clients = (clients s)[i := pc]\<rparr>"
proof (rule lru_invI)
  fix k j l
  assume *: "j < length (clients \<lparr>cache = c, clients = (clients s)[i := pc]\<rparr>)" "l < length (clients \<lparr>cache = c, clients = (clients s)[i := pc]\<rparr>)"
    "clients \<lparr>cache = c, clients = (clients s)[i := pc]\<rparr> ! j = Compute k" "clients \<lparr>cache = c, clients = (clients s)[i := pc]\<rparr> ! l = Compute k"
  then show "j = l"
    using uniq [of k] lru_invD(5) [OF inv, of j l k] i by (auto simp: nth_list_update split: if_splits)
qed (use c cnt rdy me oth lru_invD(4) [OF inv] i in \<open>auto simp: nth_list_update\<close>)

lemma lru_step_inv:
  assumes "lru_step f s t" "lru_inv f s" "0 < my_number_of_lru_history_items (cache s)"
  shows "lru_inv f t \<and> my_number_of_lru_history_items (cache t) = my_number_of_lru_history_items (cache s)"
  using assms
proof (induction rule: lru_step.induct)
  case (retrieve i s k c new)
  note inv = retrieve(4) and cinv = lru_invD(1) [OF retrieve(4)]
  note R = retrieve_props [OF cinv retrieve(3)]
  obtain it' where it': "my_map_storage c = (my_map_storage (cache s))(k \<mapsto> it')"
    "case my_map_storage (cache s) k of None \<Rightarrow> my_ref_counter it' = 1 \<and> \<not> my_is_ready it'
      | Some it \<Rightarrow> my_ref_counter it' = my_ref_counter it + 1 \<and> my_is_ready it' = my_is_ready it \<and> my_value it' = my_value it"
    using R(5) by blast
  have no: "\<not> uses k (clients s ! j)" if "my_map_storage (cache s) k = None" "j < length (clients s)" for j
    using lru_invD(4) [OF inv that(2)] that(1) by (cases "clients s ! j") (auto simp: client_ok_def)
  have nu: "users k (clients s) = 0" if "my_map_storage (cache s) k = None"
    using no [OF that] by (auto simp: users_def filter_empty_conv in_set_conv_nth)
  let ?pc = "if new then Compute k else WaitReady k"
  have "lru_inv f \<lparr>cache = c, clients = (clients s)[i := ?pc]\<rparr>"
  proof (rule lru_move [OF inv retrieve(1) R(1)])
    fix j it assume "my_map_storage c j = Some it"
    then show "users j ((clients s)[i := ?pc]) \<le> my_ref_counter it"
      using users_move [OF retrieve(1), of j ?pc] retrieve(2) it' nu lru_invD(2) [OF inv, of j]
      by (cases "my_map_storage (cache s) k") (auto split: if_splits)
  next
    fix j it assume "my_map_storage c j = Some it" "my_is_ready it"
    then show "my_value it = Some (f j)"
      using it' lru_invD(3) [OF inv, of j] by (cases "my_map_storage (cache s) k") (auto split: if_splits)
  next
    show "client_ok f c ?pc" using R(3) it' by (auto simp: client_ok_def split: option.splits)
  next
    fix j assume "client_ok f (cache s) (clients s ! j)"
    then show "client_ok f c (clients s ! j)"
      by (rule client_ok_frame) (use it' in \<open>auto split: option.splits\<close>)
  next
    fix j l assume "?pc = Compute l" "j < length (clients s)" "j \<noteq> i"
    then show "clients s ! j \<noteq> Compute l" using R(3) no [of j] by (auto split: if_splits)
  qed
  then show ?case using R(2) by simp
next
  case (compute i s k it)
  note inv = compute(4) and cinv = lru_invD(1) [OF compute(4)]
  let ?it = "it\<lparr>my_value := Some (f k), my_is_ready := True\<rparr>"
  let ?c = "(cache s)\<lparr>my_map_storage := (my_map_storage (cache s))(k \<mapsto> ?it)\<rparr>"
  have pos: "0 < my_ref_counter it" using lru_invD(4) [OF inv compute(1)] compute(2,3) by (auto simp: client_ok_def)
  have c: "cache_inv ?c"
    by (rule cache_invI) (use cache_invD [OF cinv] compute(3) in \<open>auto split: if_splits\<close>)
  have "lru_inv f \<lparr>cache = ?c, clients = (clients s)[i := Holding k]\<rparr>"
  proof (rule lru_move [OF inv compute(1) c])
    fix j jt assume "my_map_storage ?c j = Some jt"
    then show "users j ((clients s)[i := Holding k]) \<le> my_ref_counter jt"
      using users_move [OF compute(1), of j "Holding k"] compute(2,3) lru_invD(2) [OF inv, of j] by (auto split: if_splits)
  next
    fix j jt assume "my_map_storage ?c j = Some jt" "my_is_ready jt"
    then show "my_value jt = Some (f j)" using lru_invD(3) [OF inv, of j] by (auto split: if_splits)
  next
    show "client_ok f ?c (Holding k)" using pos by (simp add: client_ok_def)
  next
    fix j assume j: "j < length (clients s)" "j \<noteq> i" "client_ok f (cache s) (clients s ! j)"
    have "clients s ! j \<noteq> Compute k" using lru_invD(5) [OF inv j(1) compute(1) _ compute(2)] j(2) by blast
    then show "client_ok f ?c (clients s ! j)"
      using j(3) pos lru_invD(3) [OF inv, of k it] compute(3)
      by (cases "clients s ! j") (auto simp: client_ok_def)
  qed simp
  then show ?case by simp
next
  case (throw i s k)
  note inv = throw(3) and cinv = lru_invD(1) [OF throw(3)]
  have "lru_inv f \<lparr>cache = cache s, clients = (clients s)[i := Outside]\<rparr>"
  proof (rule lru_move [OF inv throw(1) cinv])
    fix j jt assume "my_map_storage (cache s) j = Some jt"
    then show "users j ((clients s)[i := Outside]) \<le> my_ref_counter jt"
      using users_move [OF throw(1), of j Outside] lru_invD(2) [OF inv, of j] by auto
  qed (use lru_invD(3) [OF inv] in \<open>auto simp: client_ok_def\<close>)
  then show ?case by (cases s) simp
next
  case (ready i s k it)
  note inv = ready(5) and cinv = lru_invD(1) [OF ready(5)]
  have "lru_inv f \<lparr>cache = cache s, clients = (clients s)[i := Holding k]\<rparr>"
  proof (rule lru_move [OF inv ready(1) cinv])
    fix j jt assume "my_map_storage (cache s) j = Some jt"
    then show "users j ((clients s)[i := Holding k]) \<le> my_ref_counter jt"
      using users_move [OF ready(1), of j "Holding k"] ready(2) lru_invD(2) [OF inv, of j] by auto
  next
    show "client_ok f (cache s) (Holding k)"
      using lru_invD(4) [OF inv ready(1)] ready(2-4) lru_invD(3) [OF inv ready(3,4)] by (auto simp: client_ok_def)
  qed (use lru_invD(3) [OF inv] in auto)
  then show ?case by (cases s) simp
next
  case (release i s k c)
  note inv = release(4) and cinv = lru_invD(1) [OF release(4)]
  obtain it where it: "my_map_storage (cache s) k = Some it" "0 < my_ref_counter it"
    using lru_invD(4) [OF inv release(1)] release(2) by (auto simp: client_ok_def)
  obtain c0 where c0: "signal_end_of_usage_serial k (cache s) = Some c0" "cache_inv c0"
    "my_number_of_lru_history_items c0 = my_number_of_lru_history_items (cache s)"
    "\<exists>it'. my_map_storage c0 k = Some it' \<and> my_ref_counter it' = my_ref_counter it - 1 \<and> my_value it' = my_value it \<and>
       my_is_ready it' = my_is_ready it"
    "\<And>j. j \<noteq> k \<Longrightarrow> my_map_storage c0 j = (if my_ref_counter it = 1 \<and>
        j \<in> set (drop (my_number_of_lru_history_items (cache s) - 1) (my_lru_list (cache s))) then None else my_map_storage (cache s) j)"
    by (rule release_props [OF cinv release(5) it], rule that; assumption)
  have "c0 = c" using release(3) c0(1) by simp
  note c0 = c0 [unfolded this]
  from c0(4) obtain it' where it': "my_map_storage c k = Some it'" "my_ref_counter it' = my_ref_counter it - 1"
    "my_value it' = my_value it" "my_is_ready it' = my_is_ready it" by blast
  note P = c0(2,3) it' c0(5)
  have keep: "my_map_storage c j = my_map_storage (cache s) j" if "j \<noteq> k" "my_map_storage (cache s) j = Some jt" "0 < my_ref_counter jt" for j jt
  proof -
    have "j \<notin> set (my_lru_list (cache s))" using cache_invD(3) [OF cinv, of j] that by auto
    then show ?thesis using P(7) [OF that(1)] in_set_dropD by fastforce
  qed
  have sub: "my_map_storage (cache s) j = Some jt" if "my_map_storage c j = Some jt" "j \<noteq> k" for j jt
    using P(7) [OF that(2)] that(1) by (auto split: if_splits)
  have "lru_inv f \<lparr>cache = c, clients = (clients s)[i := Outside]\<rparr>"
  proof (rule lru_move [OF inv release(1) P(1)])
    fix j jt assume jt: "my_map_storage c j = Some jt"
    show "users j ((clients s)[i := Outside]) \<le> my_ref_counter jt"
    proof (cases "j = k")
      case True
      then show ?thesis using users_move [OF release(1), of k Outside] release(2) lru_invD(2) [OF inv it(1)] P(3,4) jt by simp
    next
      case False
      then show ?thesis
        using users_move [OF release(1), of j Outside] release(2) lru_invD(2) [OF inv sub [OF jt]] by simp
    qed
  next
    fix j jt assume jt: "my_map_storage c j = Some jt" "my_is_ready jt"
    show "my_value jt = Some (f j)"
    proof (cases "j = k")
      case True
      then show ?thesis using lru_invD(3) [OF inv it(1)] P(3,5,6) jt by auto
    next
      case False
      then show ?thesis using lru_invD(3) [OF inv sub [OF jt(1)]] jt(2) by blast
    qed
  next
    fix j assume j: "j < length (clients s)" "j \<noteq> i" "client_ok f (cache s) (clients s ! j)"
    from j(3) show "client_ok f c (clients s ! j)"
    proof (rule client_ok_frame)
      fix l jt assume l: "uses l (clients s ! j)" "my_map_storage (cache s) l = Some jt" "0 < my_ref_counter jt"
      show "\<exists>it'. my_map_storage c l = Some it' \<and> my_value it' = my_value jt \<and> my_is_ready it' = my_is_ready jt \<and> 0 < my_ref_counter it'"
      proof (cases "l = k")
        case True
        have "uses k (clients s ! i)" using release(2) by simp
        then have "2 \<le> users k (clients s)" using users_two [OF release(1) j(1)] j(2) l(1) True by simp
        then show ?thesis using lru_invD(2) [OF inv it(1)] P(3-6) it l(2) True by auto
      next
        case False
        then show ?thesis using keep [OF False l(2,3)] l by simp
      qed
    qed
  qed (simp_all add: client_ok_def)
  then show ?case using P(2) by simp
qed

lemma lru_steps_inv:
  assumes "lru_steps f s t" "lru_inv f s" "0 < my_number_of_lru_history_items (cache s)"
  shows "lru_inv f t \<and> my_number_of_lru_history_items (cache t) = my_number_of_lru_history_items (cache s) \<and>
    length (clients t) = length (clients s)"
  using assms
proof (induction rule: lru_steps.induct)
  case (step s t u)
  then have "length (clients u) = length (clients t)" by (auto elim: lru_step.cases)
  then show ?case using step lru_step_inv [of f t u] by simp
qed simp

lemma lru_init_inv: "lru_inv f (lru_init n m)"
  by (rule lru_invI) (auto simp: lru_init_def lru_cache_new_def client_ok_def cache_inv_def)

lemma lru_reachable:
  assumes "lru_steps f (lru_init n m) s" "0 < n"
  shows "lru_inv f s" "my_number_of_lru_history_items (cache s) = n" "length (clients s) = m"
proof -
  have "0 < my_number_of_lru_history_items (cache (lru_init n m :: ('a, 'b) lru_system))"
    "my_number_of_lru_history_items (cache (lru_init n m :: ('a, 'b) lru_system)) = n"
    "length (clients (lru_init n m :: ('a, 'b) lru_system)) = m"
    using assms(2) by (simp_all add: lru_init_def lru_cache_new_def)
  then show "lru_inv f s" "my_number_of_lru_history_items (cache s) = n" "length (clients s) = m"
    using lru_steps_inv [OF assms(1) lru_init_inv] by simp_all
qed

text \<open>A record whose computation was abandoned, and a client that waits for it.\<close>

definition abandoned :: "'k \<Rightarrow> nat \<Rightarrow> ('k, 'v) lru_system \<Rightarrow> bool" where
  "abandoned k j s \<longleftrightarrow> j < length (clients s) \<and> clients s ! j = WaitReady k \<and> Compute k \<notin> set (clients s) \<and>
     (\<exists>it. my_map_storage (cache s) k = Some it \<and> \<not> my_is_ready it)"

lemma not_computing:
  "Compute k \<notin> set cs \<Longrightarrow> c \<noteq> Compute k \<Longrightarrow> Compute k \<notin> set (cs[i := c])"
  using set_update_subset_insert [of cs i c] by auto

lemma abandoned_step:
  assumes "lru_step f s t" "lru_inv f s" "0 < my_number_of_lru_history_items (cache s)" "abandoned k j s"
  shows "abandoned k j t"
  using assms(1)
proof (cases rule: lru_step.cases)
  case (retrieve i l c new)
  note R = retrieve_props [OF lru_invD(1) [OF assms(2)] retrieve(4)]
  obtain it where it: "my_map_storage (cache s) k = Some it" "\<not> my_is_ready it" using assms(4) by (auto simp: abandoned_def)
  have ij: "i \<noteq> j" using assms(4) retrieve(3) by (auto simp: abandoned_def)
  obtain it' where it': "my_map_storage c = (my_map_storage (cache s))(l \<mapsto> it')"
      "l = k \<longrightarrow> \<not> my_is_ready it'"
    using R(5) it by (cases "l = k") auto
  have "(if new then Compute l else WaitReady l) \<noteq> Compute k" using R(3) it by auto
  then have "Compute k \<notin> set ((clients s)[i := if new then Compute l else WaitReady l])"
    using not_computing assms(4) by (fastforce simp: abandoned_def)
  then show ?thesis using assms(4) retrieve(1) it it' ij by (auto simp: abandoned_def)
next
  case (compute i l it)
  then have "l \<noteq> k" using assms(4) by (auto simp: abandoned_def in_set_conv_nth)
  then show ?thesis using assms(4) compute not_computing [of k "clients s"]
    by (auto simp: abandoned_def nth_list_update)
next
  case (throw i l)
  then show ?thesis using assms(4) not_computing [of k "clients s"] by (auto simp: abandoned_def nth_list_update)
next
  case (ready i l it)
  then show ?thesis using assms(4) not_computing [of k "clients s"] by (auto simp: abandoned_def nth_list_update)
next
  case (release i l c)
  have cinv: "cache_inv (cache s)" by (rule lru_invD(1) [OF assms(2)])
  obtain it where it: "my_map_storage (cache s) l = Some it" "0 < my_ref_counter it" "my_is_ready it"
    using lru_invD(4) [OF assms(2) release(2)] release(3) by (auto simp: client_ok_def)
  obtain kt where kt: "my_map_storage (cache s) k = Some kt" "\<not> my_is_ready kt" using assms(4) by (auto simp: abandoned_def)
  have "0 < users k (clients s)" using assms(4) users_pos [of j "clients s" k] by (auto simp: abandoned_def)
  then have "0 < my_ref_counter kt" using lru_invD(2) [OF assms(2) kt(1)] by simp
  then have nl: "k \<notin> set (my_lru_list (cache s))" using cache_invD(3) [OF cinv, of k] kt(1) by auto
  have ne: "k \<noteq> l" using it kt by auto
  obtain c0 where c0: "signal_end_of_usage_serial l (cache s) = Some c0"
    "\<And>j. j \<noteq> l \<Longrightarrow> my_map_storage c0 j = (if my_ref_counter it = 1 \<and>
        j \<in> set (drop (my_number_of_lru_history_items (cache s) - 1) (my_lru_list (cache s))) then None else my_map_storage (cache s) j)"
    by (rule release_props [OF cinv assms(3) it(1,2)], rule that; assumption)
  have "my_map_storage c k = Some kt" using c0 release(4) ne kt(1) nl by (auto dest: in_set_dropD)
  then show ?thesis using assms(4) release kt(2) not_computing [of k "clients s"]
    by (auto simp: abandoned_def nth_list_update)
qed

lemma abandoned_steps:
  assumes "lru_steps f s t" "lru_inv f s" "0 < my_number_of_lru_history_items (cache s)" "abandoned k j s"
  shows "abandoned k j t"
  using assms
proof (induction rule: lru_steps.induct)
  case (step s t u)
  then show ?case using abandoned_step [OF step(2)] lru_steps_inv [OF step(1)] by simp
qed simp

section \<open>Sample executions\<close>

lemma lru_steps_one: "lru_step f s t \<Longrightarrow> lru_steps f s t"
  by (rule lru_steps.step [OF lru_steps.refl])

definition lru_s1 :: "(nat, nat) lru_system" where
  "lru_s1 = \<lparr>cache = \<lparr>my_number_of_lru_history_items = 1,
       my_map_storage = [5 \<mapsto> \<lparr>my_value = None, my_ref_counter = 1, my_lru_list_iterator = False, my_is_ready = False\<rparr>],
       my_lru_list = []\<rparr>, clients = [Compute 5, Outside]\<rparr>"

definition lru_s2 :: "(nat, nat) lru_system" where
  "lru_s2 = \<lparr>cache = \<lparr>my_number_of_lru_history_items = 1,
       my_map_storage = [5 \<mapsto> \<lparr>my_value = None, my_ref_counter = 2, my_lru_list_iterator = False, my_is_ready = False\<rparr>],
       my_lru_list = []\<rparr>, clients = [Compute 5, WaitReady 5]\<rparr>"

definition lru_s3 :: "(nat, nat) lru_system" where
  "lru_s3 = \<lparr>cache = \<lparr>my_number_of_lru_history_items = 1,
       my_map_storage = [5 \<mapsto> \<lparr>my_value = Some 6, my_ref_counter = 2, my_lru_list_iterator = False, my_is_ready = True\<rparr>],
       my_lru_list = []\<rparr>, clients = [Holding 5, WaitReady 5]\<rparr>"

lemma lru_samples:
  "lru_steps Suc (lru_init 1 2) lru_s2" "lru_steps Suc (lru_init 1 2) lru_s3"
proof -
  have 1: "lru_step Suc (lru_init 1 2) lru_s1"
    using lru_step.retrieve [of 0 "lru_init 1 2 :: (nat, nat) lru_system" 5]
    by (simp add: lru_init_def lru_cache_new_def retrieve_serial_def lru_s1_def numeral_2_eq_2)
  have r: "retrieve_serial 5 (cache lru_s1) = (cache lru_s2, False)"
    by (simp add: retrieve_serial_def lru_s1_def lru_s2_def numeral_2_eq_2)
  have "lru_step Suc lru_s1 \<lparr>cache = cache lru_s2, clients = (clients lru_s1)[1 := if False then Compute 5 else WaitReady 5]\<rparr>"
    by (rule lru_step.retrieve [OF _ _ r]) (simp_all add: lru_s1_def)
  then have 2: "lru_step Suc lru_s1 lru_s2" by (simp add: lru_s1_def lru_s2_def)
  let ?it = "\<lparr>my_value = None, my_ref_counter = 2, my_lru_list_iterator = False, my_is_ready = False\<rparr> :: nat map_value"
  have "lru_step Suc lru_s2 \<lparr>cache = (cache lru_s2)\<lparr>my_map_storage :=
        (my_map_storage (cache lru_s2))(5 \<mapsto> ?it\<lparr>my_value := Some (Suc 5), my_is_ready := True\<rparr>)\<rparr>,
      clients = (clients lru_s2)[0 := Holding 5]\<rparr>"
    by (rule lru_step.compute) (simp_all add: lru_s2_def)
  then have 3: "lru_step Suc lru_s2 lru_s3" by (simp add: lru_s2_def lru_s3_def)
  show "lru_steps Suc (lru_init 1 2) lru_s2" "lru_steps Suc (lru_init 1 2) lru_s3"
    using 1 2 3 by (blast intro: lru_steps.intros)+
qed

section \<open>Properties\<close>

text \<open>
  C29: a handle keeps its value: while a client holds a handle for \<open>k\<close> the record of \<open>k\<close> is in the cache,
  ready, with the value the function gives for \<open>k\<close>, whatever other clients retrieve, release and evict.
  Each missing value is being computed by at most one client, and the LRU list holds exactly the
  records without references, each once and at most the allowed number.
\<close>

theorem lru_cache_handles_valid:
  assumes "lru_steps f (lru_init n m) s" and "0 < n" and "i < m"
  shows "(clients s ! i = Holding k \<longrightarrow> (\<exists>it. my_map_storage (cache s) k = Some it \<and> my_is_ready it \<and>
        my_value it = Some (f k) \<and> users k (clients s) \<le> my_ref_counter it)) \<and>
    (clients s ! i = Compute k \<longrightarrow> j < m \<longrightarrow> clients s ! j = Compute k \<longrightarrow> i = j) \<and>
    distinct (my_lru_list (cache s)) \<and> length (my_lru_list (cache s)) \<le> n \<and>
    (k \<in> set (my_lru_list (cache s)) \<longleftrightarrow> (\<exists>it. my_map_storage (cache s) k = Some it \<and> my_ref_counter it = 0))"
proof -
  note R = lru_reachable [OF assms(1,2)]
  note C = cache_invD [OF lru_invD(1) [OF R(1)]]
  have h: "\<exists>it. my_map_storage (cache s) k = Some it \<and> my_is_ready it \<and>
        my_value it = Some (f k) \<and> users k (clients s) \<le> my_ref_counter it" if "clients s ! i = Holding k"
    using lru_invD(4) [OF R(1), of i] lru_invD(2) [OF R(1), of k] R(3) assms(3) that by (auto simp: client_ok_def)
  show ?thesis
    using h lru_invD(5) [OF R(1), of i j k] C(1,2) C(3) [of k] R(2,3) assms(3) by auto
qed

theorem lru_cache_handles_valid_witness:
  "\<exists>it. my_map_storage (cache lru_s3) 5 = Some it \<and> my_is_ready it \<and> my_value it = Some 6"
  using lru_cache_handles_valid [OF lru_samples(2), of 0 5] by (auto simp: lru_s3_def)

text \<open>
  Eviction is least recently used: releasing the last handle of \<open>k\<close> puts \<open>k\<close> in front of the list and
  drops the records beyond the allowed number from its end, and only those records leave the
  storage; retrieving \<open>k\<close> takes it out of the list and keeps the order of the others.
\<close>

theorem lru_cache_evicts_oldest:
  assumes "cache_inv c" and "0 < my_number_of_lru_history_items c"
    and "my_map_storage c k = Some it" and "my_ref_counter it = 1"
  shows "\<exists>c'. signal_end_of_usage_serial k c = Some c' \<and> cache_inv c' \<and>
      my_lru_list c' = k # take (my_number_of_lru_history_items c - 1) (my_lru_list c) \<and>
      dom (my_map_storage c') = dom (my_map_storage c) - set (drop (my_number_of_lru_history_items c - 1) (my_lru_list c)) \<and>
      my_lru_list (fst (retrieve_serial k c')) = take (my_number_of_lru_history_items c - 1) (my_lru_list c)"
proof -
  have pos: "0 < my_ref_counter it" using assms(4) by simp
  let ?d = "set (drop (my_number_of_lru_history_items c - 1) (my_lru_list c))"
  obtain c' where c': "signal_end_of_usage_serial k c = Some c'" "cache_inv c'"
    "my_lru_list c' = (if my_ref_counter it = 1 then k # take (my_number_of_lru_history_items c - 1) (my_lru_list c) else my_lru_list c)"
    "\<exists>it'. my_map_storage c' k = Some it' \<and> my_ref_counter it' = my_ref_counter it - 1 \<and> my_value it' = my_value it \<and>
       my_is_ready it' = my_is_ready it"
    "\<And>j. j \<noteq> k \<Longrightarrow> my_map_storage c' j = (if my_ref_counter it = 1 \<and> j \<in> ?d then None else my_map_storage c j)"
    by (rule release_props [OF assms(1,2,3) pos], rule that; assumption)
  have "k \<notin> set (my_lru_list c)" using cache_invD(3) [OF assms(1), of k] assms(3) pos by simp
  then have kd: "k \<notin> ?d" by (auto dest: in_set_dropD)
  have "j \<in> dom (my_map_storage c') \<longleftrightarrow> j \<in> dom (my_map_storage c) - ?d" for j
    using c'(4) c'(5) [of j] assms(3,4) kd by (cases "j = k") (auto simp: domIff simp del: not_None_eq split: if_splits)
  then have d: "dom (my_map_storage c') = dom (my_map_storage c) - ?d" by blast
  have "my_lru_list (fst (retrieve_serial k c')) = remove1 k (my_lru_list c')"
    using retrieve_props(4) [OF c'(2) prod.collapse [symmetric]] .
  then show ?thesis using c'(1-3) d assms(4) by simp
qed

theorem lru_cache_evicts_oldest_witness:
  "\<exists>c'. signal_end_of_usage_serial (5::nat) \<lparr>my_number_of_lru_history_items = 1,
       my_map_storage = [5 \<mapsto> \<lparr>my_value = Some True, my_ref_counter = 1, my_lru_list_iterator = False, my_is_ready = True\<rparr>,
         8 \<mapsto> \<lparr>my_value = Some False, my_ref_counter = 0, my_lru_list_iterator = True, my_is_ready = True\<rparr>],
       my_lru_list = [8]\<rparr> = Some c' \<and> my_lru_list c' = [5] \<and> dom (my_map_storage c') = {5}"
proof -
  let ?it = "\<lparr>my_value = Some True, my_ref_counter = 1, my_lru_list_iterator = False, my_is_ready = True\<rparr>"
  let ?c = "\<lparr>my_number_of_lru_history_items = 1,
       my_map_storage = [5 \<mapsto> ?it,
         8 \<mapsto> \<lparr>my_value = Some False, my_ref_counter = 0, my_lru_list_iterator = True, my_is_ready = True\<rparr>],
       my_lru_list = [8]\<rparr> :: (nat, bool) lru_cache"
  have i: "cache_inv ?c" by (rule cache_invI) (auto split: if_splits)
  have h: "0 < my_number_of_lru_history_items ?c" "my_map_storage ?c 5 = Some ?it" "my_ref_counter ?it = 1" by simp_all
  from lru_cache_evicts_oldest [OF i h] show ?thesis by auto
qed

text \<open>
  A cache built with no history items fails on the first release: the eviction loop then runs
  once on an empty list, and \<^verbatim>\<open>back()\<close> of the empty list is undefined.
\<close>

theorem lru_cache_zero_history_undefined:
  "signal_end_of_usage_serial k (fst (retrieve_serial k (lru_cache_new 0))) = None"
  by (simp add: signal_end_of_usage_serial_def retrieve_serial_def lru_cache_new_def Let_def)

text \<open>
  When the value function throws, clients that already wait for that key wait for ever: the record
  stays in the cache, not ready, and every later retrieval finds it and waits as well, so nobody
  computes the value again.
\<close>

theorem lru_cache_throw_blocks_waiters:
  assumes "lru_steps f (lru_init n m) s" and "0 < n" and "i < m" and "j < m"
    and "clients s ! i = Compute k" and "clients s ! j = WaitReady k"
    and "lru_steps f (s\<lparr>clients := (clients s)[i := Outside]\<rparr>) t"
  shows "lru_step f s (s\<lparr>clients := (clients s)[i := Outside]\<rparr>) \<and> clients t ! j = WaitReady k \<and>
    snd (retrieve_serial k (cache t)) = False"
proof -
  note R = lru_reachable [OF assms(1,2)]
  let ?u = "s\<lparr>clients := (clients s)[i := Outside]\<rparr>"
  have i: "i < length (clients s)" using R(3) assms(3) by simp
  have st: "lru_step f s ?u" by (rule lru_step.throw [OF i assms(5)])
  have n: "0 < my_number_of_lru_history_items (cache s)" using R(2) assms(2) by simp
  have inv: "lru_inv f ?u" "0 < my_number_of_lru_history_items (cache ?u)" using lru_step_inv [OF st R(1) n] n by simp_all
  have "\<exists>it. my_map_storage (cache s) k = Some it \<and> \<not> my_is_ready it"
    using lru_invD(4) [OF R(1) i] assms(5) by (auto simp: client_ok_def)
  moreover have "Compute k \<notin> set (clients ?u)"
    using lru_invD(5) [OF R(1) i _ assms(5)] i by (auto simp: in_set_conv_nth nth_list_update split: if_splits)
  moreover have "j < length (clients ?u)" "clients ?u ! j = WaitReady k"
    using assms(4-6) R(3) by (cases "i = j"; force)+
  ultimately have "abandoned k j ?u" by (simp add: abandoned_def)
  from abandoned_steps [OF assms(7) inv this] have a: "abandoned k j t" .
  then have "snd (retrieve_serial k (cache t)) = False"
    by (auto simp: abandoned_def retrieve_serial_def Let_def)
  then show ?thesis using st a by (simp add: abandoned_def)
qed

theorem lru_cache_throw_blocks_waiters_witness:
  "clients lru_s2 = [Compute 5, WaitReady 5] \<and>
   lru_step Suc lru_s2 (lru_s2\<lparr>clients := (clients lru_s2)[0 := Outside]\<rparr>)"
  using lru_cache_throw_blocks_waiters [OF lru_samples(1), of 0 1 5, OF _ _ _ _ _ lru_steps.refl]
  by (simp add: lru_s2_def)

end
