(* ===== verification/Concurrent_Queue.thy ===== *)
theory Concurrent_Queue
  imports Prelude
begin

unbundle bit_operations_syntax

text \<open>
  \<^verbatim>\<open>include/tbb/internal/_concurrent_queue_impl.h\<close> (namespace \<^verbatim>\<open>strict_ppl\<close>) and
  \<^verbatim>\<open>include/tbb/concurrent_queue.h\<close>: the unbounded concurrent queue. Tickets are dealt out by two
  counters and spread over eight micro queues; each micro queue is a list of pages and two counters
  that say whose turn it is. The first half models the operations one call at a time, the second half
  threads that take tickets and wait for their turn in any order. Tickets are natural numbers: only
  \<open>2 ^ 64\<close> pushes on one queue would wrap them.
\<close>

section \<open>Micro queues\<close>

definition n_queue :: nat where "n_queue = 8"

definition phi :: nat where "phi = 3"

text \<open>A slot is raw memory (\<open>None\<close>) or a constructed item; the mask has a bit for each valid slot.\<close>

record 'a page =
  mask :: "64 word"
  slots :: "nat \<Rightarrow> 'a option"

text \<open>
  \<open>pages\<close> lists the valid pages from \<^verbatim>\<open>head_page\<close> on; \<open>poisoned\<close> says that the invalid page at address 1 has
  been appended behind them (it is \<^verbatim>\<open>head_page\<close> itself when the list is empty).
\<close>

record 'a micro_queue =
  pages :: "'a page list"
  poisoned :: bool
  mq_head_counter :: nat
  mq_tail_counter :: nat

datatype 'r outcome = Spins | Undefined | Returns 'r

definition new_page :: "'a page" where
  "new_page = \<lparr>mask = 0, slots = \<lambda>_. None\<rparr>"

definition copy_item :: "nat \<Rightarrow> 'a \<Rightarrow> 'a page \<Rightarrow> 'a page" where
  "copy_item index x p = p\<lparr>slots := (slots p)(index := Some x), mask := mask p OR push_bit index 1\<rparr>"

definition invalidate_page :: "nat \<Rightarrow> 'a micro_queue \<Rightarrow> 'a micro_queue" where
  "invalidate_page k q =
     (let q' = q\<lparr>mq_tail_counter := k + n_queue + 1\<rparr> in
      if pages q' \<noteq> [] \<and> \<not> poisoned q' then q'\<lparr>poisoned := True\<rparr>
      else q'\<lparr>pages := [], poisoned := True\<rparr>)"

text \<open>
  \<open>alloc\<close> is whether the page allocation succeeds, \<open>item\<close> what the item constructor gives (\<open>None\<close>: it
  throws), \<open>nie\<close> is \<^verbatim>\<open>n_invalid_entries\<close>. The result holds the queue, \<open>nie\<close> and whether \<^verbatim>\<open>push\<close> throws.
  A ticket whose turn has not come spins; an odd counter marks a broken queue.
\<close>

definition micro_push :: "nat \<Rightarrow> bool \<Rightarrow> 'a option \<Rightarrow> nat \<Rightarrow> 'a micro_queue \<Rightarrow> nat \<Rightarrow> ('a micro_queue \<times> nat \<times> bool) outcome" where
  "micro_push items_per_page alloc item ticket q nie =
     (let k = ticket - ticket mod n_queue; index = k div n_queue mod items_per_page in
      if index = 0 \<and> \<not> alloc then Returns (invalidate_page k q, nie + 1, True)
      else if mq_tail_counter q \<noteq> k then
        (if odd (mq_tail_counter q) then Returns (q, nie + 1, True) else Spins)
      else
        let q' = (if index = 0
                  then (if pages q \<noteq> [] \<and> \<not> poisoned q then q\<lparr>pages := pages q @ [new_page]\<rparr>
                        else q\<lparr>pages := [new_page], poisoned := False\<rparr>)
                  else q)
        in if pages q' = [] \<or> poisoned q' then Undefined
           else case item of
              Some x \<Rightarrow> Returns (q'\<lparr>pages := butlast (pages q') @ [copy_item index x (last (pages q'))],
                                 mq_tail_counter := mq_tail_counter q' + n_queue\<rparr>, nie, False)
            | None \<Rightarrow> Returns (q'\<lparr>mq_tail_counter := mq_tail_counter q' + n_queue\<rparr>, nie + 1, True))"

text \<open>The destructor of the finalizer: it unlinks a used-up page and passes the turn on.\<close>

definition pop_finalizer :: "bool \<Rightarrow> nat \<Rightarrow> 'a micro_queue \<Rightarrow> 'a micro_queue" where
  "pop_finalizer free_page my_ticket q =
     (if free_page then q\<lparr>pages := tl (pages q)\<rparr> else q)\<lparr>mq_head_counter := my_ticket\<rparr>"

text \<open>
  The popped item, or \<open>None\<close> for an invalid entry. A ticket spins until the items before it are popped and
  its own item is pushed. With no valid page left, \<^verbatim>\<open>head_page\<close> is dereferenced at address 0 or 1.
\<close>

definition micro_pop :: "nat \<Rightarrow> nat \<Rightarrow> 'a micro_queue \<Rightarrow> nat \<Rightarrow> ('a micro_queue \<times> nat \<times> 'a option) outcome" where
  "micro_pop items_per_page ticket q nie =
     (let k = ticket - ticket mod n_queue in
      if mq_head_counter q \<noteq> k then Spins
      else if mq_tail_counter q = k then Spins
      else case pages q of [] \<Rightarrow> Undefined
      | p # ps \<Rightarrow>
        let index = k div n_queue mod items_per_page; done = pop_finalizer (index = items_per_page - 1) (k + n_queue)
        in if mask p AND push_bit index 1 \<noteq> 0
           then Returns (done (q\<lparr>pages := p\<lparr>slots := (slots p)(index := None)\<rparr> # ps\<rparr>), nie, slots p index)
           else Returns (done q, nie - 1, None))"

section \<open>The queue, one call at a time\<close>

record 'a concurrent_queue =
  head_counter :: nat
  tail_counter :: nat
  items_per_page :: nat
  n_invalid_entries :: nat
  array :: "'a micro_queue list"

definition cq_index :: "nat \<Rightarrow> nat" where
  "cq_index k = k * phi mod n_queue"

definition cq_choose :: "'a concurrent_queue \<Rightarrow> nat \<Rightarrow> 'a micro_queue" where
  "cq_choose r k = array r ! cq_index k"

definition empty_micro_queue :: "'a micro_queue" where
  "empty_micro_queue = \<lparr>pages = [], poisoned = False, mq_head_counter = 0, mq_tail_counter = 0\<rparr>"

definition page_capacity :: "nat \<Rightarrow> nat" where
  "page_capacity item_size = (if item_size \<le> 8 then 32 else if item_size \<le> 16 then 16 else if item_size \<le> 32 then 8
     else if item_size \<le> 64 then 4 else if item_size \<le> 128 then 2 else 1)"

definition cq_new :: "nat \<Rightarrow> 'a concurrent_queue" where
  "cq_new item_size = \<lparr>head_counter = 0, tail_counter = 0, items_per_page = page_capacity item_size,
     n_invalid_entries = 0, array = replicate n_queue empty_micro_queue\<rparr>"

text \<open>A micro queue operation run on the micro queue of a ticket.\<close>

definition at_queue :: "nat \<Rightarrow> ('a micro_queue \<Rightarrow> nat \<Rightarrow> ('a micro_queue \<times> nat \<times> 'r) outcome)
    \<Rightarrow> 'a concurrent_queue \<Rightarrow> ('a concurrent_queue \<times> 'r) outcome" where
  "at_queue k op r =
     (case op (cq_choose r k) (n_invalid_entries r) of
        Spins \<Rightarrow> Spins | Undefined \<Rightarrow> Undefined
      | Returns (q, nie, x) \<Rightarrow> Returns (r\<lparr>array := (array r)[cq_index k := q], n_invalid_entries := nie\<rparr>, x))"

definition internal_push :: "bool \<Rightarrow> 'a option \<Rightarrow> 'a concurrent_queue \<Rightarrow> ('a concurrent_queue \<times> bool) outcome" where
  "internal_push alloc item r =
     (let k = tail_counter r in
      at_queue k (micro_push (items_per_page r) alloc item k) (r\<lparr>tail_counter := k + 1\<rparr>))"

lemma at_queue_counters:
  "at_queue k op r = Returns (r', x) \<Longrightarrow> head_counter r' = head_counter r \<and> tail_counter r' = tail_counter r \<and>
    items_per_page r' = items_per_page r \<and> length (array r') = length (array r)"
  by (auto simp: at_queue_def split: outcome.splits)

text \<open>The loop of \<^verbatim>\<open>internal_try_pop\<close>: it takes a ticket per round, until the item of one is valid.\<close>

function internal_try_pop :: "'a concurrent_queue \<Rightarrow> ('a concurrent_queue \<times> 'a option) outcome" where
  "internal_try_pop r =
     (let k = head_counter r in
      if int (tail_counter r) - int k \<le> 0 then Returns (r, None)
      else case at_queue k (micro_pop (items_per_page r) k) (r\<lparr>head_counter := k + 1\<rparr>) of
        Spins \<Rightarrow> Spins | Undefined \<Rightarrow> Undefined
      | Returns (r', x) \<Rightarrow> (if x = None then internal_try_pop r' else Returns (r', x)))"
  by pat_completeness auto

termination
  by (relation "measure (\<lambda>r. tail_counter r - head_counter r)") (auto dest!: at_queue_counters)

declare internal_try_pop.simps [simp del]

definition internal_size :: "'a concurrent_queue \<Rightarrow> nat" where
  "internal_size r = nat (int (tail_counter r) - int (head_counter r) - int (n_invalid_entries r))"

definition internal_empty :: "'a concurrent_queue \<Rightarrow> bool" where
  "internal_empty r \<longleftrightarrow> tail_counter r = head_counter r + n_invalid_entries r"

text \<open>\<^verbatim>\<open>clear\<close> pops while the queue is not empty; \<open>fuel\<close> bounds the number of pops.\<close>

fun clear :: "nat \<Rightarrow> 'a concurrent_queue \<Rightarrow> 'a concurrent_queue outcome" where
  "clear fuel r =
     (if internal_empty r then Returns r
      else case fuel of 0 \<Rightarrow> Spins
        | Suc fuel' \<Rightarrow> (case internal_try_pop r of
            Spins \<Rightarrow> Spins | Undefined \<Rightarrow> Undefined | Returns (r', x) \<Rightarrow> clear fuel' r'))"

text \<open>The page behind \<^verbatim>\<open>tail_page\<close> is freed, and it alone; the result counts the pages that stay allocated.\<close>

definition finish_clear_queue :: "'a micro_queue \<Rightarrow> nat" where
  "finish_clear_queue q = (if pages q \<noteq> [] \<and> \<not> poisoned q then length (pages q) - 1 else length (pages q))"

definition internal_finish_clear :: "'a concurrent_queue \<Rightarrow> nat" where
  "internal_finish_clear r = sum_list (map finish_clear_queue (array r))"

section \<open>Micro queues: representation\<close>

abbreviation hd_slot :: "'a micro_queue \<Rightarrow> nat" where "hd_slot q \<equiv> mq_head_counter q div n_queue"

abbreviation tl_slot :: "'a micro_queue \<Rightarrow> nat" where "tl_slot q \<equiv> mq_tail_counter q div n_queue"

text \<open>The page and the entry of position \<open>n\<close>, the \<open>n\<close>-th entry ever pushed on the micro queue.\<close>

definition page_of :: "nat \<Rightarrow> 'a micro_queue \<Rightarrow> nat \<Rightarrow> 'a page" where
  "page_of ipp q n = pages q ! (n div ipp - hd_slot q div ipp)"

definition entry :: "nat \<Rightarrow> 'a micro_queue \<Rightarrow> nat \<Rightarrow> 'a option" where
  "entry ipp q n = (if bit (mask (page_of ipp q n)) (n mod ipp) then slots (page_of ipp q n) (n mod ipp) else None)"

text \<open>The number of pages that \<open>n\<close> entries take, counted from the very first one.\<close>

definition pages_for :: "nat \<Rightarrow> nat \<Rightarrow> nat" where
  "pages_for ipp n = (if n mod ipp = 0 then n div ipp else n div ipp + 1)"

lemma pages_for_Suc: "0 < ipp \<Longrightarrow> pages_for ipp (Suc n) = Suc (n div ipp)"
  by (auto simp: pages_for_def div_Suc mod_Suc)

lemma page_in_use: "0 < ipp \<Longrightarrow> n < t \<Longrightarrow> n div ipp < pages_for ipp t"
proof (cases "t mod ipp = 0")
  case True
  assume "0 < ipp" "n < t"
  then have "n div ipp < t div ipp" using True less_mult_imp_div_less [of n "t div ipp" ipp] by (auto elim: dvdE)
  then show ?thesis using True by (simp add: pages_for_def)
qed (simp add: pages_for_def div_le_mono less_Suc_eq_le)

definition mq_ok :: "nat \<Rightarrow> 'a micro_queue \<Rightarrow> bool" where
  "mq_ok ipp q \<longleftrightarrow> \<not> poisoned q \<and> n_queue dvd mq_head_counter q \<and> n_queue dvd mq_tail_counter q \<and>
     hd_slot q \<le> tl_slot q \<and>
     length (pages q) = pages_for ipp (tl_slot q) - hd_slot q div ipp \<and>
     (\<forall>n. hd_slot q \<le> n \<and> n < tl_slot q \<longrightarrow> bit (mask (page_of ipp q n)) (n mod ipp) \<longrightarrow>
        slots (page_of ipp q n) (n mod ipp) \<noteq> None) \<and>
     (\<forall>n. tl_slot q \<le> n \<and> n div ipp - hd_slot q div ipp < length (pages q) \<longrightarrow> \<not> bit (mask (page_of ipp q n)) (n mod ipp))"

lemma mq_okD:
  assumes "mq_ok ipp q"
  shows "\<not> poisoned q" "n_queue dvd mq_head_counter q" "n_queue dvd mq_tail_counter q" "hd_slot q \<le> tl_slot q"
    "length (pages q) = pages_for ipp (tl_slot q) - hd_slot q div ipp"
    "hd_slot q \<le> n \<Longrightarrow> n < tl_slot q \<Longrightarrow> bit (mask (page_of ipp q n)) (n mod ipp) \<Longrightarrow>
       slots (page_of ipp q n) (n mod ipp) \<noteq> None"
    "tl_slot q \<le> n \<Longrightarrow> n div ipp - hd_slot q div ipp < length (pages q) \<Longrightarrow> \<not> bit (mask (page_of ipp q n)) (n mod ipp)"
  using assms unfolding mq_ok_def by blast+

lemma mq_okI:
  assumes "\<not> poisoned q" "n_queue dvd mq_head_counter q" "n_queue dvd mq_tail_counter q" "hd_slot q \<le> tl_slot q"
    "length (pages q) = pages_for ipp (tl_slot q) - hd_slot q div ipp"
    "\<And>n. hd_slot q \<le> n \<Longrightarrow> n < tl_slot q \<Longrightarrow> bit (mask (page_of ipp q n)) (n mod ipp) \<Longrightarrow>
       slots (page_of ipp q n) (n mod ipp) \<noteq> None"
    "\<And>n. tl_slot q \<le> n \<Longrightarrow> n div ipp - hd_slot q div ipp < length (pages q) \<Longrightarrow> \<not> bit (mask (page_of ipp q n)) (n mod ipp)"
  shows "mq_ok ipp q"
  using assms unfolding mq_ok_def by blast

lemma empty_mq_ok: "mq_ok ipp empty_micro_queue"
  by (rule mq_okI) (simp_all add: empty_micro_queue_def pages_for_def)

lemma bit_copy_item:
  "i < 64 \<Longrightarrow> bit (mask (copy_item i x p)) j \<longleftrightarrow> j = i \<or> bit (mask p) j"
  by (auto simp: copy_item_def bit_or_iff bit_exp_iff possible_bit_word)

lemma slots_copy_item: "slots (copy_item i x p) j = (if j = i then Some x else slots p j)"
  by (simp add: copy_item_def)

text \<open>Linking a page for the next position, when the last one is full.\<close>

definition linked :: "nat \<Rightarrow> 'a micro_queue \<Rightarrow> 'a micro_queue" where
  "linked ipp q = (if tl_slot q mod ipp = 0
     then (if pages q \<noteq> [] \<and> \<not> poisoned q then q\<lparr>pages := pages q @ [new_page]\<rparr>
           else q\<lparr>pages := [new_page], poisoned := False\<rparr>) else q)"

lemma linked_props:
  assumes ok: "mq_ok ipp q" and ipp: "0 < ipp"
  shows "\<not> poisoned (linked ipp q)" "mq_head_counter (linked ipp q) = mq_head_counter q"
    "mq_tail_counter (linked ipp q) = mq_tail_counter q"
    "length (pages (linked ipp q)) = Suc (tl_slot q div ipp - hd_slot q div ipp)"
    "hd_slot q \<le> n \<Longrightarrow> n < tl_slot q \<Longrightarrow> page_of ipp (linked ipp q) n = page_of ipp q n"
    "tl_slot q \<le> n \<Longrightarrow> n div ipp = tl_slot q div ipp \<Longrightarrow> \<not> bit (mask (page_of ipp (linked ipp q) n)) (n mod ipp)"
proof -
  note D = mq_okD [OF ok]
  have le: "hd_slot q div ipp \<le> tl_slot q div ipp" using D(4) by (rule div_le_mono)
  show 1: "\<not> poisoned (linked ipp q)" "mq_head_counter (linked ipp q) = mq_head_counter q"
    "mq_tail_counter (linked ipp q) = mq_tail_counter q" using D(1) by (auto simp: linked_def)
  have pg: "pages (linked ipp q) = (if tl_slot q mod ipp = 0 then pages q @ [new_page] else pages q)"
    using D(1) by (auto simp: linked_def)
  show 2: "length (pages (linked ipp q)) = Suc (tl_slot q div ipp - hd_slot q div ipp)"
    using D(5) le by (auto simp: pg pages_for_def Suc_diff_le)
  show "page_of ipp (linked ipp q) n = page_of ipp q n" if n: "hd_slot q \<le> n" "n < tl_slot q"
    using page_in_use [OF ipp n(2)] div_le_mono [OF n(1), of ipp] D(5) by (auto simp: page_of_def pg 1 nth_append)
  show "\<not> bit (mask (page_of ipp (linked ipp q) n)) (n mod ipp)" if n: "tl_slot q \<le> n" "n div ipp = tl_slot q div ipp"
  proof (cases "tl_slot q mod ipp = 0")
    case True
    have "length (pages q) = tl_slot q div ipp - hd_slot q div ipp" using D(5) True by (simp add: pages_for_def)
    then show ?thesis using True n(2) by (simp add: page_of_def pg 1 nth_append new_page_def)
  next
    case False
    have "length (pages q) = Suc (tl_slot q div ipp - hd_slot q div ipp)" using 2 pg False by simp
    then show ?thesis using D(7) [OF n(1)] n(2) False by (simp add: page_of_def pg 1)
  qed
qed


lemma butlast_last_update: "xs \<noteq> [] \<Longrightarrow> butlast xs @ [x] = xs[length xs - 1 := x]"
  by (metis append_butlast_last_id length_append_singleton diff_Suc_1' list_update_length length_butlast)

lemma micro_push_ok:
  assumes ok: "mq_ok ipp q" and ipp: "0 < ipp" "ipp \<le> 64" and turn: "ticket - ticket mod n_queue = mq_tail_counter q"
  obtains q' where "micro_push ipp True item ticket q nie = Returns (q', nie + of_bool (item = None), item = None)"
    "mq_ok ipp q'" "mq_head_counter q' = mq_head_counter q" "mq_tail_counter q' = mq_tail_counter q + n_queue"
    "entry ipp q' (tl_slot q) = item"
    "\<And>n. hd_slot q \<le> n \<Longrightarrow> n < tl_slot q \<Longrightarrow> entry ipp q' n = entry ipp q n"
proof -
  let ?l = "linked ipp q" and ?i = "tl_slot q mod ipp"
  note L = linked_props [OF ok ipp(1)] and D = mq_okD [OF ok]
  define m where "m = tl_slot q div ipp - hd_slot q div ipp"
  have le: "hd_slot q div ipp \<le> tl_slot q div ipp" using D(4) by (rule div_le_mono)
  have len: "length (pages ?l) = Suc m" using L(4) by (simp add: m_def)
  have i: "?i < 64" using ipp by (metis mod_less_divisor less_le_trans)
  define q' where "q' = ?l\<lparr>pages := (case item of Some x \<Rightarrow> (pages ?l)[m := copy_item ?i x (pages ?l ! m)] | None \<Rightarrow> pages ?l),
      mq_tail_counter := mq_tail_counter q + n_queue\<rparr>"
  have ne: "pages ?l \<noteq> []" using len by auto
  have upd: "butlast (pages ?l) @ [copy_item ?i x (last (pages ?l))] = (pages ?l)[m := copy_item ?i x (pages ?l ! m)]" for x
    using butlast_last_update [OF ne] last_conv_nth [OF ne] len by simp
  have run: "micro_push ipp True item ticket q nie = Returns (q', nie + of_bool (item = None), item = None)"
    using ne L(1,3) turn unfolding micro_push_def Let_def linked_def [symmetric] turn
    by (simp add: linked_def [symmetric] q'_def upd split: option.split)
  have hd: "hd_slot q' = hd_slot q" "mq_head_counter q' = mq_head_counter q" "tl_slot q' = Suc (tl_slot q)"
    "mq_tail_counter q' = mq_tail_counter q + n_queue"
    using L(2) by (simp_all add: q'_def n_queue_def)
  have pm: "page_of ipp q' n = (if n div ipp - hd_slot q div ipp = m then (case item of Some x \<Rightarrow> copy_item ?i x (page_of ipp ?l n)
      | None \<Rightarrow> page_of ipp ?l n) else page_of ipp ?l n)" for n
    using len L(2) by (auto simp: page_of_def q'_def split: option.split)
  have dm: "n mod ipp = ?i \<longleftrightarrow> n = tl_slot q" if "n div ipp = tl_slot q div ipp" for n
    using that by (metis div_mult_mod_eq)
  have last_page: "n div ipp - hd_slot q div ipp = m \<longleftrightarrow> n div ipp = tl_slot q div ipp" if "hd_slot q \<le> n" for n
    using div_le_mono [OF that, of ipp] le unfolding m_def by linarith
  have old: "slots (page_of ipp q' n) (n mod ipp) = slots (page_of ipp q n) (n mod ipp)"
    "bit (mask (page_of ipp q' n)) (n mod ipp) = bit (mask (page_of ipp q n)) (n mod ipp)"
    if "hd_slot q \<le> n" "n < tl_slot q" for n
    using pm [of n] L(5) [OF that] dm [of n] last_page [OF that(1)] that(2) i
    by (auto simp: bit_copy_item slots_copy_item split: option.splits)
  have new: "bit (mask (page_of ipp q' n)) (n mod ipp) \<longleftrightarrow> n = tl_slot q \<and> item \<noteq> None"
    if "tl_slot q \<le> n" "n div ipp = tl_slot q div ipp" for n
    using pm [of n] L(6) [OF that] dm [OF that(2)] that(2) i by (auto simp: m_def bit_copy_item split: option.splits)
  have item: "slots (page_of ipp q' (tl_slot q)) ?i = item" if "item \<noteq> None"
    using pm [of "tl_slot q"] that by (auto simp: m_def slots_copy_item)
  have "mq_ok ipp q'"
  proof (rule mq_okI)
    show "\<not> poisoned q'" "n_queue dvd mq_head_counter q'" "n_queue dvd mq_tail_counter q'" "hd_slot q' \<le> tl_slot q'"
      using L(1) D(2-4) hd by (simp_all add: q'_def)
    show "length (pages q') = pages_for ipp (tl_slot q') - hd_slot q' div ipp"
    proof -
      have "length (pages q') = Suc m" using len by (simp add: q'_def split: option.split)
      then show ?thesis using le by (simp add: hd(1,3) pages_for_Suc [OF ipp(1)] m_def Suc_diff_le)
    qed
    show "slots (page_of ipp q' n) (n mod ipp) \<noteq> None"
      if "hd_slot q' \<le> n" "n < tl_slot q'" "bit (mask (page_of ipp q' n)) (n mod ipp)" for n
    proof (cases "n = tl_slot q")
      case True
      then show ?thesis using that(3) new [of n] item by auto
    next
      case False
      then have "hd_slot q \<le> n" "n < tl_slot q" using that(1,2) hd by auto
      then show ?thesis using old that(3) D(6) by simp
    qed
    show "\<not> bit (mask (page_of ipp q' n)) (n mod ipp)"
      if n: "tl_slot q' \<le> n" "n div ipp - hd_slot q' div ipp < length (pages q')" for n
    proof -
      have "tl_slot q \<le> n" "n \<noteq> tl_slot q" using n(1) hd(3) by auto
      moreover have "n div ipp - hd_slot q div ipp \<le> m" using n(2) hd(1) len by (simp add: q'_def less_Suc_eq_le split: option.splits)
      then have "n div ipp = tl_slot q div ipp" using div_le_mono [OF \<open>tl_slot q \<le> n\<close>, of ipp] le unfolding m_def by linarith
      ultimately show ?thesis using new by blast
    qed
  qed
  moreover have "entry ipp q' (tl_slot q) = item" using new [of "tl_slot q"] item by (auto simp: entry_def)
  moreover have "entry ipp q' n = entry ipp q n" if "hd_slot q \<le> n" "n < tl_slot q" for n
    using old [OF that] by (simp add: entry_def)
  ultimately show ?thesis using that [OF run] hd by simp
qed


lemma mask_test: "(m :: 64 word) AND 2 ^ i = 0 \<longleftrightarrow> \<not> bit m i"
  by (simp add: bit_iff_and_push_bit_not_eq_0)

lemma div_Suc_page: "0 < ipp \<Longrightarrow> Suc n div ipp = (if n mod ipp = ipp - 1 then Suc (n div ipp) else n div ipp)"
  by (auto simp: div_Suc mod_Suc)

lemma micro_pop_ok:
  assumes ok: "mq_ok ipp q" and ipp: "0 < ipp" and turn: "ticket - ticket mod n_queue = mq_head_counter q"
    and pushed: "hd_slot q < tl_slot q"
  obtains q' where "micro_pop ipp ticket q nie =
      Returns (q', (if entry ipp q (hd_slot q) = None then nie - 1 else nie), entry ipp q (hd_slot q))"
    "mq_ok ipp q'" "mq_head_counter q' = mq_head_counter q + n_queue" "mq_tail_counter q' = mq_tail_counter q"
    "\<And>n. hd_slot q < n \<Longrightarrow> n < tl_slot q \<Longrightarrow> entry ipp q' n = entry ipp q n"
proof -
  let ?i = "hd_slot q mod ipp"
  note D = mq_okD [OF ok]
  have len: "0 < length (pages q)" using D(5) page_in_use [OF ipp pushed] by simp
  then obtain p ps where ps: "pages q = p # ps" by (cases "pages q") auto
  have pe: "page_of ipp q (hd_slot q) = p" by (simp add: page_of_def ps)
  let ?free = "?i = ipp - 1"
  define p' where "p' = (if bit (mask p) ?i then p\<lparr>slots := (slots p)(?i := None)\<rparr> else p)"
  define q' where "q' = q\<lparr>pages := if ?free then ps else p' # ps, mq_head_counter := mq_head_counter q + n_queue\<rparr>"
  have ne: "bit (mask p) ?i \<Longrightarrow> slots p ?i \<noteq> None" using D(6) [of "hd_slot q"] pushed by (simp add: pe)
  have e: "entry ipp q (hd_slot q) = (if bit (mask p) ?i then slots p ?i else None)" by (simp add: entry_def pe)
  have tk: "mq_tail_counter q \<noteq> mq_head_counter q" using pushed by auto
  have run: "micro_pop ipp ticket q nie =
      Returns (q', (if entry ipp q (hd_slot q) = None then nie - 1 else nie), entry ipp q (hd_slot q))"
    using tk ne by (auto simp: micro_pop_def turn ps mask_test e q'_def p'_def pop_finalizer_def Let_def)
  have hd: "mq_head_counter q' = mq_head_counter q + n_queue" "mq_tail_counter q' = mq_tail_counter q"
    "hd_slot q' = Suc (hd_slot q)" "tl_slot q' = tl_slot q" by (simp_all add: q'_def n_queue_def)
  have pg: "page_of ipp q' n = (if \<not> ?free \<and> n div ipp = hd_slot q div ipp then p' else page_of ipp q n)"
    if "hd_slot q < n" for n
  proof -
    have "hd_slot q div ipp \<le> n div ipp" "Suc (hd_slot q) div ipp \<le> n div ipp" using that by (auto intro: div_le_mono)
    then show ?thesis unfolding page_of_def hd(3) div_Suc_page [OF ipp] by (auto simp: q'_def ps nth_Cons diff_Suc split: nat.splits)
  qed
  have dm: "n mod ipp \<noteq> ?i" if "hd_slot q < n" "n div ipp = hd_slot q div ipp" for n
    using that by (metis div_mult_mod_eq less_irrefl)
  have keep: "mask (page_of ipp q' n) = mask (page_of ipp q n)"
    "slots (page_of ipp q' n) (n mod ipp) = slots (page_of ipp q n) (n mod ipp)" if "hd_slot q < n" for n
    using pg [OF that] dm [OF that] by (auto simp: page_of_def ps p'_def)
  have plen: "length (pages q') = pages_for ipp (tl_slot q) - Suc (hd_slot q) div ipp"
    using D(5) ps by (auto simp: q'_def div_Suc_page [OF ipp] diff_Suc split: nat.splits)
  have "mq_ok ipp q'"
  proof (rule mq_okI)
    show "\<not> poisoned q'" using D(1) by (simp add: q'_def)
    show "n_queue dvd mq_head_counter q'" "n_queue dvd mq_tail_counter q'" using D(2,3) by (simp_all add: hd(1,2))
    show "hd_slot q' \<le> tl_slot q'" using pushed unfolding hd(3,4) by simp
    show "length (pages q') = pages_for ipp (tl_slot q') - hd_slot q' div ipp" using plen unfolding hd(3,4) .
    show "slots (page_of ipp q' n) (n mod ipp) \<noteq> None"
      if "hd_slot q' \<le> n" "n < tl_slot q'" "bit (mask (page_of ipp q' n)) (n mod ipp)" for n
      using that keep [of n] D(6) [of n] unfolding hd(3,4) by simp
    show "\<not> bit (mask (page_of ipp q' n)) (n mod ipp)"
      if n: "tl_slot q' \<le> n" "n div ipp - hd_slot q' div ipp < length (pages q')" for n
    proof -
      have "hd_slot q < n" using n(1) pushed unfolding hd(4) by simp
      moreover have "n div ipp - hd_slot q div ipp < length (pages q)"
        using n(2) plen div_le_mono [of "hd_slot q" "Suc (hd_slot q)" ipp] unfolding hd(3) D(5) by linarith
      ultimately show ?thesis using keep(1) D(7) n(1) unfolding hd(4) by simp
    qed
  qed
  then show ?thesis using that [OF run] hd keep by (simp add: entry_def)
qed

section \<open>Tickets\<close>

text \<open>
  A ticket is the pair of its micro queue and its position there. \<open>queue_rel\<close> relates the micro queues to the
  tickets: \<open>P\<close> are the tickets taken by pushes that have not had their turn, \<open>Q\<close> those of pops, \<open>f\<close> says
  what was pushed under a ticket.
\<close>

definition queue_rel :: "nat set \<Rightarrow> nat set \<Rightarrow> (nat \<Rightarrow> 'a option) \<Rightarrow> 'a concurrent_queue \<Rightarrow> bool" where
  "queue_rel P Q f r \<longleftrightarrow> length (array r) = n_queue \<and> 0 < items_per_page r \<and> items_per_page r \<le> 64 \<and>
     head_counter r \<le> tail_counter r \<and> P \<subseteq> {..<tail_counter r} \<and> Q \<subseteq> {..<head_counter r} \<and>
     (\<forall>k. mq_ok (items_per_page r) (cq_choose r k)) \<and>
     (\<forall>k. k div n_queue < tl_slot (cq_choose r k) \<longleftrightarrow> k < tail_counter r \<and> k \<notin> P) \<and>
     (\<forall>k. k div n_queue < hd_slot (cq_choose r k) \<longleftrightarrow> k < head_counter r \<and> k \<notin> Q) \<and>
     (\<forall>k. hd_slot (cq_choose r k) \<le> k div n_queue \<longrightarrow> k div n_queue < tl_slot (cq_choose r k) \<longrightarrow>
        entry (items_per_page r) (cq_choose r k) (k div n_queue) = f k)"

lemma queue_relD:
  assumes "queue_rel P Q f r"
  shows "length (array r) = n_queue" "0 < items_per_page r" "items_per_page r \<le> 64"
    "head_counter r \<le> tail_counter r" "P \<subseteq> {..<tail_counter r}" "Q \<subseteq> {..<head_counter r}"
    "mq_ok (items_per_page r) (cq_choose r k)"
    "k div n_queue < tl_slot (cq_choose r k) \<longleftrightarrow> k < tail_counter r \<and> k \<notin> P"
    "k div n_queue < hd_slot (cq_choose r k) \<longleftrightarrow> k < head_counter r \<and> k \<notin> Q"
    "hd_slot (cq_choose r k) \<le> k div n_queue \<Longrightarrow> k div n_queue < tl_slot (cq_choose r k) \<Longrightarrow>
        entry (items_per_page r) (cq_choose r k) (k div n_queue) = f k"
  using assms unfolding queue_rel_def by blast+

lemma queue_relI:
  assumes "length (array r) = n_queue" "0 < items_per_page r" "items_per_page r \<le> 64"
    "head_counter r \<le> tail_counter r" "P \<subseteq> {..<tail_counter r}" "Q \<subseteq> {..<head_counter r}"
    "\<And>k. mq_ok (items_per_page r) (cq_choose r k)"
    "\<And>k. k div n_queue < tl_slot (cq_choose r k) \<longleftrightarrow> k < tail_counter r \<and> k \<notin> P"
    "\<And>k. k div n_queue < hd_slot (cq_choose r k) \<longleftrightarrow> k < head_counter r \<and> k \<notin> Q"
    "\<And>k. hd_slot (cq_choose r k) \<le> k div n_queue \<Longrightarrow> k div n_queue < tl_slot (cq_choose r k) \<Longrightarrow>
        entry (items_per_page r) (cq_choose r k) (k div n_queue) = f k"
  shows "queue_rel P Q f r"
  using assms unfolding queue_rel_def by blast

lemma page_capacity_range: "0 < page_capacity n" "page_capacity n \<le> 64"
  by (simp_all add: page_capacity_def)

lemma cq_index_less: "cq_index k < n_queue"
  by (simp add: cq_index_def n_queue_def)

lemma queue_rel_new: "queue_rel {} {} f (cq_new n)"
  by (rule queue_relI)
    (simp_all add: cq_new_def cq_choose_def page_capacity_range cq_index_less empty_mq_ok, simp_all add: empty_micro_queue_def)

lemma cq_index_eq: "cq_index a = cq_index b \<longleftrightarrow> a mod n_queue = b mod n_queue"
proof -
  have 1: "k mod 8 = (k * 3 mod 8) * 3 mod 8" for k :: nat
  proof -
    have "(k * 3 mod 8) * 3 mod 8 = (k + 8 * k) mod 8" by (simp only: mod_mult_left_eq) simp
    then show ?thesis by (simp only: mod_mult_self2)
  qed
  have 2: "k * 3 mod 8 = (k mod 8) * 3 mod 8" for k :: nat by (simp only: mod_mult_left_eq)
  show ?thesis unfolding cq_index_def n_queue_def phi_def
  proof
    assume "a * 3 mod 8 = b * 3 mod 8"
    then show "a mod 8 = b mod 8" unfolding 1 [of a] 1 [of b] by (simp only:)
  next
    assume "a mod 8 = b mod 8"
    then show "a * 3 mod 8 = b * 3 mod 8" unfolding 2 [of a] 2 [of b] by (simp only:)
  qed
qed

lemma ticket_unique: "cq_index a = cq_index b \<Longrightarrow> a div n_queue = b div n_queue \<Longrightarrow> a = b"
  unfolding cq_index_eq by (metis div_mult_mod_eq)

lemma ticket_base: "ticket - ticket mod n_queue = n_queue * (ticket div n_queue)"
  by (simp add: minus_mod_eq_mult_div)

lemma same_queue_le: "cq_index a = cq_index b \<Longrightarrow> a div n_queue \<le> b div n_queue \<longleftrightarrow> a \<le> b"
  using div_mult_mod_eq [of a 8] div_mult_mod_eq [of b 8] div_le_mono [of a b 8] unfolding cq_index_eq n_queue_def by linarith

lemma slot_counter: "mq_ok ipp q \<Longrightarrow> mq_tail_counter q = n_queue * tl_slot q" "mq_ok ipp q \<Longrightarrow> mq_head_counter q = n_queue * hd_slot q"
  by (simp_all add: mq_okD)

text \<open>The first ticket of those that wait has its turn.\<close>

lemma turn_aux:
  assumes "\<And>k. k div n_queue < c (cq_index k) \<longleftrightarrow> k < (t::nat) \<and> k \<notin> P" "k \<in> P \<or> k = t" "\<And>j. j \<in> P \<Longrightarrow> k \<le> j" "k \<le> t"
  shows "c (cq_index k) = k div n_queue"
proof -
  have "\<not> k div n_queue < c (cq_index k)" using assms(1) [of k] assms(2) by auto
  moreover have "k div n_queue \<le> c (cq_index k)"
  proof (cases "k < n_queue")
    case False
    have i: "cq_index (k - n_queue) = cq_index k" using False by (simp add: cq_index_eq le_mod_geq)
    have "k - n_queue < k" using False by (simp add: n_queue_def)
    then have "k - n_queue < t" "k - n_queue \<notin> P" using assms(2-4) by fastforce+
    then have "(k - n_queue) div n_queue < c (cq_index k)" using assms(1) [of "k - n_queue"] i by simp
    then show ?thesis using False by (simp add: n_queue_def)
  qed simp
  ultimately show ?thesis by simp
qed

lemma first_push_turn:
  assumes "queue_rel P Q f r" "k \<in> P" "\<And>j. j \<in> P \<Longrightarrow> k \<le> j"
  shows "tl_slot (cq_choose r k) = k div n_queue"
  using turn_aux [of "\<lambda>i. tl_slot (array r ! i)" "tail_counter r" P k] queue_relD(5,8) [OF assms(1)] assms(2,3)
  by (fastforce simp: cq_choose_def)

lemma first_pop_turn:
  assumes "queue_rel P Q f r" "k \<in> Q" "\<And>j. j \<in> Q \<Longrightarrow> k \<le> j"
  shows "hd_slot (cq_choose r k) = k div n_queue"
  using turn_aux [of "\<lambda>i. hd_slot (array r ! i)" "head_counter r" Q k] queue_relD(6,9) [OF assms(1)] assms(2,3)
  by (fastforce simp: cq_choose_def)


section \<open>Steps of a thread\<close>

lemma queue_rel_take_push:
  assumes "queue_rel P Q f r"
  shows "queue_rel (insert (tail_counter r) P) Q f (r\<lparr>tail_counter := tail_counter r + 1\<rparr>)"
proof -
  note D = queue_relD [OF assms]
  have c: "cq_choose (r\<lparr>tail_counter := n\<rparr>) k = cq_choose r k" for n k by (simp add: cq_choose_def)
  show ?thesis by (rule queue_relI) (use D in \<open>auto simp: c less_Suc_eq\<close>)
qed

lemma queue_rel_take_pop:
  assumes "queue_rel P Q f r" "head_counter r < tail_counter r"
  shows "queue_rel P (insert (head_counter r) Q) f (r\<lparr>head_counter := head_counter r + 1\<rparr>)"
proof -
  note D = queue_relD [OF assms(1)]
  have c: "cq_choose (r\<lparr>head_counter := n\<rparr>) k = cq_choose r k" for n k by (simp add: cq_choose_def)
  show ?thesis by (rule queue_relI) (use D assms(2) in \<open>auto simp: c less_Suc_eq\<close>)
qed

text \<open>What replacing one micro queue does to \<^verbatim>\<open>choose\<close>.\<close>

lemma choose_update:
  "length (array r) = n_queue \<Longrightarrow> cq_choose (r\<lparr>array := (array r)[cq_index k := q], n_invalid_entries := m\<rparr>) j =
     (if cq_index j = cq_index k then q else cq_choose r j)"
  using cq_index_less [of k] by (simp add: cq_choose_def)

lemma choose_cong: "cq_index j = cq_index k \<Longrightarrow> cq_choose r j = cq_choose r k"
  by (simp add: cq_choose_def)

lemma push_step:
  assumes rel: "queue_rel P Q f r" and k: "k \<in> P" and turn: "tl_slot (cq_choose r k) = k div n_queue"
  obtains r' where "at_queue k (micro_push (items_per_page r) True item k) r = Returns (r', item = None)"
    "queue_rel (P - {k}) Q (f(k := item)) r'" "head_counter r' = head_counter r" "tail_counter r' = tail_counter r"
    "n_invalid_entries r' = n_invalid_entries r + of_bool (item = None)"
proof -
  note D = queue_relD [OF rel]
  let ?q = "cq_choose r k" and ?p = "items_per_page r"
  note ok = D(7) [of k]
  have t: "k - k mod n_queue = mq_tail_counter ?q" using slot_counter(1) [OF ok, unfolded turn] unfolding ticket_base by (rule sym)
  obtain q' where q': "micro_push ?p True item k ?q (n_invalid_entries r) =
      Returns (q', n_invalid_entries r + of_bool (item = None), item = None)"
    "mq_ok ?p q'" "mq_head_counter q' = mq_head_counter ?q" "mq_tail_counter q' = mq_tail_counter ?q + n_queue"
    "entry ?p q' (tl_slot ?q) = item"
    "\<And>n. hd_slot ?q \<le> n \<Longrightarrow> n < tl_slot ?q \<Longrightarrow> entry ?p q' n = entry ?p ?q n"
    by (rule micro_push_ok [OF ok D(2,3) t]) (rule that; assumption)
  have ts: "tl_slot q' = Suc (tl_slot ?q)" "hd_slot q' = hd_slot ?q" using q'(3,4) by (simp_all add: n_queue_def)
  define r' where "r' = r\<lparr>array := (array r)[cq_index k := q'], n_invalid_entries := n_invalid_entries r + of_bool (item = None)\<rparr>"
  have ch: "cq_choose r' j = (if cq_index j = cq_index k then q' else cq_choose r j)" for j
    unfolding r'_def by (rule choose_update [OF D(1)])
  have sel: "head_counter r' = head_counter r" "tail_counter r' = tail_counter r" "items_per_page r' = ?p"
    "length (array r') = n_queue" using D(1) by (simp_all add: r'_def)
  have "queue_rel (P - {k}) Q (f(k := item)) r'"
  proof (rule queue_relI, unfold sel)
    show "0 < ?p" "?p \<le> 64" "head_counter r \<le> tail_counter r" "P - {k} \<subseteq> {..<tail_counter r}" "Q \<subseteq> {..<head_counter r}"
      using D(2-6) by auto
    show "mq_ok ?p (cq_choose r' j)" for j using D(7) [of j] q'(2) by (simp add: ch)
    show "j div n_queue < tl_slot (cq_choose r' j) \<longleftrightarrow> j < tail_counter r \<and> j \<notin> P - {k}" for j
    proof (cases "cq_index j = cq_index k")
      case True
      have "j div n_queue < Suc (k div n_queue) \<longleftrightarrow> j div n_queue < k div n_queue \<or> j = k"
        using ticket_unique [OF True] by (auto simp: less_Suc_eq)
      then show ?thesis using D(8) [of j] choose_cong [OF True, of r] k D(5) True by (auto simp: ch ts turn)
    next
      case False
      then show ?thesis using D(8) [of j] by (auto simp: ch)
    qed
    show "j div n_queue < hd_slot (cq_choose r' j) \<longleftrightarrow> j < head_counter r \<and> j \<notin> Q" for j
      using D(9) [of j] choose_cong [of j k r] by (cases "cq_index j = cq_index k") (simp_all add: ch ts)
    show "entry ?p (cq_choose r' j) (j div n_queue) = (f(k := item)) j"
      if j: "hd_slot (cq_choose r' j) \<le> j div n_queue" "j div n_queue < tl_slot (cq_choose r' j)" for j
    proof (cases "cq_index j = cq_index k")
      case True
      show ?thesis
      proof (cases "j = k")
        case False
        then have "j div n_queue \<noteq> k div n_queue" using ticket_unique [OF True] by blast
        then have "hd_slot ?q \<le> j div n_queue" "j div n_queue < tl_slot ?q" using j True by (simp_all add: ch ts turn)
        then show ?thesis using q'(6) [of "j div n_queue"] D(10) [of j] choose_cong [OF True, of r] True False by (simp add: ch)
      qed (simp add: ch q'(5) [unfolded turn])
    next
      case False
      then show ?thesis using j D(10) [of j] by (auto simp: ch)
    qed
  qed simp
  moreover have "at_queue k (micro_push ?p True item k) r = Returns (r', item = None)"
    by (simp add: at_queue_def q'(1) r'_def)
  ultimately show ?thesis using that sel by (simp add: r'_def)
qed

lemma pop_step:
  assumes rel: "queue_rel P Q f r" and k: "k \<in> Q" "k \<notin> P" and turn: "hd_slot (cq_choose r k) = k div n_queue"
  obtains r' where "at_queue k (micro_pop (items_per_page r) k) r = Returns (r', f k)"
    "queue_rel P (Q - {k}) f r'" "head_counter r' = head_counter r" "tail_counter r' = tail_counter r"
    "n_invalid_entries r' = (if f k = None then n_invalid_entries r - 1 else n_invalid_entries r)"
proof -
  note D = queue_relD [OF rel]
  let ?q = "cq_choose r k" and ?p = "items_per_page r"
  note ok = D(7) [of k]
  have t: "k - k mod n_queue = mq_head_counter ?q" using slot_counter(2) [OF ok, unfolded turn] unfolding ticket_base by (rule sym)
  have "k < tail_counter r" using k(1) D(4,6) by auto
  then have lt: "hd_slot ?q < tl_slot ?q" using D(8) [of k] k(2) turn by simp
  have e: "entry ?p ?q (hd_slot ?q) = f k" using D(10) [of k] lt turn by simp
  obtain q' where q': "micro_pop ?p k ?q (n_invalid_entries r) =
      Returns (q', (if f k = None then n_invalid_entries r - 1 else n_invalid_entries r), f k)"
    "mq_ok ?p q'" "mq_head_counter q' = mq_head_counter ?q + n_queue" "mq_tail_counter q' = mq_tail_counter ?q"
    "\<And>n. hd_slot ?q < n \<Longrightarrow> n < tl_slot ?q \<Longrightarrow> entry ?p q' n = entry ?p ?q n"
    by (rule micro_pop_ok [OF ok D(2) t lt, unfolded e]) (rule that; assumption)
  have ts: "tl_slot q' = tl_slot ?q" "hd_slot q' = Suc (hd_slot ?q)" using q'(3,4) by (simp_all add: n_queue_def)
  define r' where "r' = r\<lparr>array := (array r)[cq_index k := q'],
      n_invalid_entries := (if f k = None then n_invalid_entries r - 1 else n_invalid_entries r)\<rparr>"
  have ch: "cq_choose r' j = (if cq_index j = cq_index k then q' else cq_choose r j)" for j
    unfolding r'_def by (rule choose_update [OF D(1)])
  have sel: "head_counter r' = head_counter r" "tail_counter r' = tail_counter r" "items_per_page r' = ?p"
    "length (array r') = n_queue" using D(1) by (simp_all add: r'_def)
  have "queue_rel P (Q - {k}) f r'"
  proof (rule queue_relI, unfold sel)
    show "0 < ?p" "?p \<le> 64" "head_counter r \<le> tail_counter r" "P \<subseteq> {..<tail_counter r}" "Q - {k} \<subseteq> {..<head_counter r}"
      using D(2-6) by auto
    show "mq_ok ?p (cq_choose r' j)" for j using D(7) [of j] q'(2) by (simp add: ch)
    show "j div n_queue < tl_slot (cq_choose r' j) \<longleftrightarrow> j < tail_counter r \<and> j \<notin> P" for j
      using D(8) [of j] choose_cong [of j k r] by (cases "cq_index j = cq_index k") (simp_all add: ch ts)
    show "j div n_queue < hd_slot (cq_choose r' j) \<longleftrightarrow> j < head_counter r \<and> j \<notin> Q - {k}" for j
    proof (cases "cq_index j = cq_index k")
      case True
      have "j div n_queue < Suc (k div n_queue) \<longleftrightarrow> j div n_queue < k div n_queue \<or> j = k"
        using ticket_unique [OF True] by (auto simp: less_Suc_eq)
      then show ?thesis using D(9) [of j] choose_cong [OF True, of r] k D(6) True by (auto simp: ch ts turn)
    next
      case False
      then show ?thesis using D(9) [of j] by (auto simp: ch)
    qed
    show "entry ?p (cq_choose r' j) (j div n_queue) = f j"
      if "hd_slot (cq_choose r' j) \<le> j div n_queue" "j div n_queue < tl_slot (cq_choose r' j)" for j
      using that q'(5) [of "j div n_queue"] D(10) [of j] choose_cong [of j k r] by (auto simp: ch ts split: if_splits)
  qed simp
  moreover have "at_queue k (micro_pop ?p k) r = Returns (r', f k)"
    by (simp add: at_queue_def q'(1) r'_def)
  ultimately show ?thesis using that sel by (simp add: r'_def)
qed


section \<open>One call at a time\<close>

fun valid :: "'a option list \<Rightarrow> 'a list" where
  "valid [] = []"
| "valid (None # xs) = valid xs"
| "valid (Some x # xs) = x # valid xs"

lemma valid_append [simp]: "valid (xs @ ys) = valid xs @ valid ys"
  by (induction xs rule: valid.induct) auto

lemma length_valid: "length (valid xs) + length (filter (\<lambda>x. x = None) xs) = length xs"
  by (induction xs rule: valid.induct) auto

definition entries :: "(nat \<Rightarrow> 'a option) \<Rightarrow> 'a concurrent_queue \<Rightarrow> 'a option list" where
  "entries f r = map f [head_counter r..<tail_counter r]"

text \<open>The queue holds the valid entries between the two counters, and counts the invalid ones.\<close>

definition holds :: "'a concurrent_queue \<Rightarrow> 'a list \<Rightarrow> bool" where
  "holds r xs \<longleftrightarrow> (\<exists>f. queue_rel {} {} f r \<and> xs = valid (entries f r) \<and>
     n_invalid_entries r = length (filter (\<lambda>x. x = None) (entries f r)))"

lemma holds_new: "holds (cq_new n) []"
  using queue_rel_new [of _ n] by (auto simp: holds_def entries_def cq_new_def)

lemma holds_size: "holds r xs \<Longrightarrow> internal_size r = length xs \<and> (internal_empty r \<longleftrightarrow> xs = [])"
proof -
  assume "holds r xs"
  then obtain f where f: "queue_rel {} {} f r" "xs = valid (entries f r)"
    "n_invalid_entries r = length (filter (\<lambda>x. x = None) (entries f r))" unfolding holds_def by blast
  have "length xs + n_invalid_entries r = tail_counter r - head_counter r"
    using length_valid [of "entries f r"] unfolding f(2,3) by (simp add: entries_def)
  moreover have "head_counter r \<le> tail_counter r" using queue_relD(4) [OF f(1)] .
  ultimately have n: "tail_counter r = head_counter r + n_invalid_entries r + length xs" by simp
  show ?thesis unfolding internal_size_def internal_empty_def n by simp
qed

lemma holds_push:
  assumes "holds r xs"
  obtains r' where "internal_push True item r = Returns (r', item = None)"
    "holds r' (xs @ valid [item])"
proof -
  obtain f where f: "queue_rel {} {} f r" "xs = valid (entries f r)"
    "n_invalid_entries r = length (filter (\<lambda>x. x = None) (entries f r))" using assms unfolding holds_def by blast
  let ?k = "tail_counter r" and ?r = "r\<lparr>tail_counter := tail_counter r + 1\<rparr>"
  note t = queue_rel_take_push [OF f(1)]
  have turn: "tl_slot (cq_choose ?r ?k) = ?k div n_queue" by (rule first_push_turn [OF t]) auto
  obtain r' where r': "at_queue ?k (micro_push (items_per_page ?r) True item ?k) ?r = Returns (r', item = None)"
    "queue_rel ({?k} - {?k}) {} (f(?k := item)) r'" "head_counter r' = head_counter ?r" "tail_counter r' = tail_counter ?r"
    "n_invalid_entries r' = n_invalid_entries ?r + of_bool (item = None)"
    by (rule push_step [OF t _ turn]) auto
  have "head_counter r \<le> tail_counter r" using queue_relD(4) [OF f(1)] .
  then have "entries (f(?k := item)) r' = entries f r @ [item]" using r'(3,4) by (simp add: entries_def)
  then have "holds r' (xs @ valid [item])"
    using r'(2,5) f(2,3) unfolding holds_def by (intro exI [of _ "f(?k := item)"]) simp
  moreover have "internal_push True item r = Returns (r', item = None)" using r'(1) by (simp add: internal_push_def Let_def)
  ultimately show ?thesis using that by blast
qed

lemma holds_try_pop:
  assumes "holds r xs"
  shows "\<exists>r'. internal_try_pop r = Returns (r', fst (list_pop xs)) \<and> holds r' (snd (list_pop xs))"
  using assms
proof (induction "tail_counter r - head_counter r" arbitrary: r)
  case 0
  then have "tail_counter r \<le> head_counter r" "xs = []" by (auto simp: holds_def entries_def)
  then show ?case using 0(2) by (simp add: internal_try_pop.simps [of r])
next
  case (Suc n)
  obtain f where f: "queue_rel {} {} f r" "xs = valid (entries f r)"
    "n_invalid_entries r = length (filter (\<lambda>x. x = None) (entries f r))" using Suc.prems unfolding holds_def by blast
  let ?k = "head_counter r" and ?r = "r\<lparr>head_counter := head_counter r + 1\<rparr>"
  have lt: "head_counter r < tail_counter r" using Suc(2) by simp
  note t = queue_rel_take_pop [OF f(1) lt]
  have turn: "hd_slot (cq_choose ?r ?k) = ?k div n_queue" by (rule first_pop_turn [OF t]) auto
  obtain r' where r': "at_queue ?k (micro_pop (items_per_page ?r) ?k) ?r = Returns (r', f ?k)"
    "queue_rel {} ({?k} - {?k}) f r'" "head_counter r' = head_counter ?r" "tail_counter r' = tail_counter ?r"
    "n_invalid_entries r' = (if f ?k = None then n_invalid_entries ?r - 1 else n_invalid_entries ?r)"
    by (rule pop_step [OF t _ _ turn]) auto
  have e: "entries f r = f ?k # entries f r'" using r'(3,4) lt by (simp add: entries_def upt_conv_Cons)
  have h: "holds r' (valid (entries f r'))"
    using r'(2,5) f(3) unfolding holds_def e by (intro exI [of _ f]) auto
  have step: "internal_try_pop r = (if f ?k = None then internal_try_pop r' else Returns (r', f ?k))"
    using r'(1) lt by (subst internal_try_pop.simps) (simp add: Let_def)
  show ?case
  proof (cases "f ?k")
    case None
    then have "xs = valid (entries f r')" using f(2) e by simp
    moreover have "n = tail_counter r' - head_counter r'" using Suc(2) r'(3,4) by simp
    ultimately show ?thesis using Suc(1) [of r'] h step None by simp
  next
    case (Some x)
    then show ?thesis using f(2) e h step by simp
  qed
qed

text \<open>A sequence of calls; \<open>Push None\<close> is a push whose item constructor throws.\<close>

fun cq_run :: "'a option fifo_op list \<Rightarrow> 'a concurrent_queue \<Rightarrow> ('a option list \<times> 'a concurrent_queue) outcome" where
  "cq_run [] r = Returns ([], r)"
| "cq_run (Push item # ops) r =
     (case internal_push True item r of Spins \<Rightarrow> Spins | Undefined \<Rightarrow> Undefined | Returns (r', threw) \<Rightarrow> cq_run ops r')"
| "cq_run (Pop # ops) r =
     (case internal_try_pop r of Spins \<Rightarrow> Spins | Undefined \<Rightarrow> Undefined | Returns (r', x) \<Rightarrow>
        (case cq_run ops r' of Spins \<Rightarrow> Spins | Undefined \<Rightarrow> Undefined | Returns (xs, t) \<Rightarrow> Returns (x # xs, t)))"

fun completed :: "'a option fifo_op list \<Rightarrow> 'a fifo_op list" where
  "completed [] = []"
| "completed (Push None # ops) = completed ops"
| "completed (Push (Some x) # ops) = Push x # completed ops"
| "completed (Pop # ops) = Pop # completed ops"

lemma cq_run_refines:
  "holds r xs \<Longrightarrow> \<exists>r'. cq_run ops r = Returns (fst (fifo_run list_push list_pop (completed ops) xs), r') \<and>
     holds r' (snd (fifo_run list_push list_pop (completed ops) xs))"
proof (induction ops arbitrary: r xs rule: completed.induct)
  case (2 ops)
  from holds_push [OF 2(2), of None] obtain r' where "internal_push True None r = Returns (r', True)" "holds r' xs" by auto
  then show ?case using 2(1) [of r' xs] by simp
next
  case (3 x ops)
  from holds_push [OF 3(2), of "Some x"] obtain r' where "internal_push True (Some x) r = Returns (r', False)" "holds r' (xs @ [x])"
    by auto
  then show ?case using 3(1) [of r' "xs @ [x]"] by (simp add: list_push_def)
next
  case (4 ops)
  obtain r' where r': "internal_try_pop r = Returns (r', fst (list_pop xs))" "holds r' (snd (list_pop xs))"
    using holds_try_pop [OF 4(2)] by blast
  from 4(1) [OF r'(2)] show ?case by (auto simp: r'(1) case_prod_beta Let_def)
qed simp

section \<open>Copying\<close>

definition copy_slot :: "'a page \<Rightarrow> 'a page \<Rightarrow> nat \<Rightarrow> 'a page" where
  "copy_slot src dst i = (if mask dst AND push_bit i 1 \<noteq> 0 then dst\<lparr>slots := (slots dst)(i := slots src i)\<rparr> else dst)"

definition make_copy :: "'a page \<Rightarrow> nat \<Rightarrow> nat \<Rightarrow> 'a page" where
  "make_copy src_page begin_in_page end_in_page =
     foldl (copy_slot src_page) \<lparr>mask = mask src_page, slots = \<lambda>_. None\<rparr> [begin_in_page..<end_in_page]"

text \<open>
  The copy of a micro queue when nothing throws: the first page from the position of the head, the middle
  pages in full, the last one up to the tail. \<open>Undefined\<close>: the invalid page would be read.
\<close>

definition assign_queue :: "nat \<Rightarrow> 'a micro_queue \<Rightarrow> 'a micro_queue outcome" where
  "assign_queue ipp src =
     (case pages src of
        [] \<Rightarrow> Returns (src\<lparr>pages := [], poisoned := False\<rparr>)
      | srcp # rest \<Rightarrow>
        if poisoned src then Undefined
        else
          let n_items = (mq_tail_counter src - mq_head_counter src) div n_queue;
              index = mq_head_counter src div n_queue mod ipp;
              end_in_first_page = (if index + n_items < ipp then index + n_items else ipp);
              head_page = make_copy srcp index end_in_first_page
          in if rest = [] then Returns (src\<lparr>pages := [head_page]\<rparr>)
             else
               let middle = map (\<lambda>p. make_copy p 0 ipp) (butlast rest);
                   i = mq_tail_counter src div n_queue mod ipp;
                   last_index = (if i = 0 then ipp else i)
               in Returns (src\<lparr>pages := head_page # middle @ [make_copy (last rest) 0 last_index]\<rparr>))"

fun assign_queues :: "nat \<Rightarrow> 'a micro_queue list \<Rightarrow> 'a micro_queue list outcome" where
  "assign_queues ipp [] = Returns []"
| "assign_queues ipp (q # qs) =
     (case assign_queue ipp q of Spins \<Rightarrow> Spins | Undefined \<Rightarrow> Undefined | Returns q' \<Rightarrow>
        (case assign_queues ipp qs of Spins \<Rightarrow> Spins | Undefined \<Rightarrow> Undefined | Returns qs' \<Rightarrow> Returns (q' # qs')))"

definition assign :: "'a concurrent_queue \<Rightarrow> 'a concurrent_queue outcome" where
  "assign src = (case assign_queues (items_per_page src) (array src) of
       Spins \<Rightarrow> Spins | Undefined \<Rightarrow> Undefined
     | Returns qs \<Rightarrow> Returns \<lparr>head_counter = head_counter src, tail_counter = tail_counter src,
         items_per_page = items_per_page src, n_invalid_entries = n_invalid_entries src, array = qs\<rparr>)"

lemma make_copy_eq:
  "e \<le> 64 \<Longrightarrow> make_copy p b e = \<lparr>mask = mask p, slots = \<lambda>i. if b \<le> i \<and> i < e \<and> bit (mask p) i then slots p i else None\<rparr>"
proof (induction e)
  case (Suc e)
  show ?case
  proof (cases "b \<le> e")
    case True
    have "make_copy p b (Suc e) = copy_slot p (make_copy p b e) e" using True by (simp add: make_copy_def)
    then show ?thesis using Suc True by (auto simp: copy_slot_def mask_test fun_eq_iff less_Suc_eq)
  qed (use Suc in \<open>auto simp: make_copy_def fun_eq_iff\<close>)
qed (simp add: make_copy_def)

lemma make_copy_mask [simp]: "e \<le> 64 \<Longrightarrow> mask (make_copy p b e) = mask p"
  by (simp add: make_copy_eq)

lemma mod_same_page: "a div p = b div p \<Longrightarrow> a mod p \<le> b mod p \<longleftrightarrow> a \<le> (b::nat)"
  by (metis add_le_cancel_left div_mult_mod_eq)

text \<open>In a sound micro queue, every page is copied with all entries between the counters.\<close>

lemma assign_queue_ok:
  assumes ok: "mq_ok ipp q" and ipp: "0 < ipp" "ipp \<le> 64"
  obtains q' where "assign_queue ipp q = Returns q'" "mq_ok ipp q'" "mq_head_counter q' = mq_head_counter q"
    "mq_tail_counter q' = mq_tail_counter q"
    "\<And>n. hd_slot q \<le> n \<Longrightarrow> n < tl_slot q \<Longrightarrow> entry ipp q' n = entry ipp q n"
proof -
  note D = mq_okD [OF ok]
  define lo hi where "lo j = (if j = 0 then hd_slot q mod ipp else 0)"
    and "hi j = (if Suc j = length (pages q) \<and> tl_slot q mod ipp \<noteq> 0 then tl_slot q mod ipp else ipp)" for j :: nat
  define ps where "ps = map (\<lambda>j. make_copy (pages q ! j) (lo j) (hi j)) [0..<length (pages q)]"
  have run: "assign_queue ipp q = Returns (q\<lparr>pages := ps\<rparr>)"
  proof (cases "pages q")
    case Nil
    then show ?thesis using D(1) by (simp add: assign_queue_def ps_def)
  next
    case (Cons p rest)
    let ?H = "hd_slot q" and ?T = "tl_slot q"
    have n: "(mq_tail_counter q - mq_head_counter q) div n_queue = ?T - ?H"
      using D(2,3) by (auto elim!: dvdE simp: n_queue_def simp flip: diff_mult_distrib2)
    have H: "?H div ipp * ipp + ?H mod ipp = ?H" "?T div ipp * ipp + ?T mod ipp = ?T" by simp_all
    have l: "Suc (length rest) = pages_for ipp ?T - ?H div ipp" using D(5) Cons by simp
    show ?thesis
    proof (cases "rest = []")
      case True
      have "(if ?H mod ipp + (?T - ?H) < ipp then ?H mod ipp + (?T - ?H) else ipp) = hi 0"
      proof (cases "?T mod ipp = 0")
        case T: True
        then have "?T div ipp = Suc (?H div ipp)" using l True by (simp add: pages_for_def)
        then have "?T = ?H div ipp * ipp + ipp" using H(2) T by simp
        moreover have "?H mod ipp < ipp" using ipp(1) by simp
        ultimately have "\<not> ?H mod ipp + (?T - ?H) < ipp" using H(1) by linarith
        then show ?thesis using T by (simp add: hi_def)
      next
        case False
        then have "?T div ipp = ?H div ipp" using l True by (simp add: pages_for_def)
        then have "?T div ipp * ipp = ?H div ipp * ipp" by simp
        then have "?H mod ipp + (?T - ?H) = ?T mod ipp" using H D(4) by linarith
        then show ?thesis using ipp(1) False True Cons by (simp add: hi_def)
      qed
      then show ?thesis using True D(1) Cons n by (simp add: assign_queue_def ps_def lo_def)
    next
      case False
      have last_index: "\<not> a < b - Suc 0 \<Longrightarrow> a < b \<Longrightarrow> b - Suc 0 = a" for a b :: nat by simp
      have "?H div ipp < ?T div ipp" using l False by (cases rest) (auto simp: pages_for_def split: if_splits)
      then have "(?H div ipp + 1) * ipp \<le> ?T div ipp * ipp" by (intro mult_right_mono) auto
      then have "\<not> ?H mod ipp + (?T - ?H) < ipp" using H D(4) unfolding add_mult_distrib by linarith
      then have "assign_queue ipp q = Returns (q\<lparr>pages := make_copy p (?H mod ipp) ipp # map (\<lambda>p. make_copy p 0 ipp) (butlast rest)
          @ [make_copy (last rest) 0 (if ?T mod ipp = 0 then ipp else ?T mod ipp)]\<rparr>)"
        using False D(1) Cons n by (simp add: assign_queue_def Let_def)
      also have "make_copy p (?H mod ipp) ipp # map (\<lambda>p. make_copy p 0 ipp) (butlast rest)
          @ [make_copy (last rest) 0 (if ?T mod ipp = 0 then ipp else ?T mod ipp)] = ps"
        by (rule nth_equalityI) (use False in \<open>auto dest: last_index simp: ps_def Cons lo_def hi_def nth_Cons nth_append nth_butlast last_conv_nth
            simp del: upt_Suc split: nat.splits\<close>)
      finally show ?thesis .
    qed
  qed
  have hi: "hi j \<le> 64" for j using ipp by (auto simp: hi_def intro: order_trans [OF less_imp_le [OF mod_less_divisor]])
  have in_range: "lo (n div ipp - hd_slot q div ipp) \<le> n mod ipp \<and> n mod ipp < hi (n div ipp - hd_slot q div ipp)"
    if "hd_slot q \<le> n" "n < tl_slot q" for n
  proof -
    have le: "hd_slot q div ipp \<le> n div ipp" "n div ipp \<le> tl_slot q div ipp" using that by (auto intro: div_le_mono)
    have "n mod ipp < tl_slot q mod ipp" if "n div ipp = tl_slot q div ipp"
      using mod_same_page [of "tl_slot q" ipp n] that \<open>n < tl_slot q\<close> by (metis not_le)
    moreover have "hd_slot q mod ipp \<le> n mod ipp" if "n div ipp = hd_slot q div ipp"
      using mod_same_page [of "hd_slot q" ipp n] that \<open>hd_slot q \<le> n\<close> by simp
    moreover have "n div ipp = tl_slot q div ipp" if "Suc (n div ipp - hd_slot q div ipp) = length (pages q)" "tl_slot q mod ipp \<noteq> 0"
      using that D(5) le by (simp add: pages_for_def)
    ultimately show ?thesis using le ipp(1) by (auto simp: lo_def hi_def)
  qed
  have pg: "n div ipp - hd_slot q div ipp < length (pages q) \<Longrightarrow> page_of ipp (q\<lparr>pages := ps\<rparr>) n =
      make_copy (page_of ipp q n) (lo (n div ipp - hd_slot q div ipp)) (hi (n div ipp - hd_slot q div ipp))" for n
    by (simp add: page_of_def ps_def)
  have len: "n div ipp - hd_slot q div ipp < length (pages q)" if "hd_slot q \<le> n" "n < tl_slot q" for n
    using page_in_use [OF ipp(1) that(2)] div_le_mono [OF that(1), of ipp] D(5) by simp
  have m: "bit (mask (page_of ipp (q\<lparr>pages := ps\<rparr>) n)) i = bit (mask (page_of ipp q n)) i"
    if "n div ipp - hd_slot q div ipp < length (pages q)" for n i
    using pg [OF that] hi by simp
  have s: "bit (mask (page_of ipp q n)) (n mod ipp) \<Longrightarrow>
      slots (page_of ipp (q\<lparr>pages := ps\<rparr>) n) (n mod ipp) = slots (page_of ipp q n) (n mod ipp)"
    if "hd_slot q \<le> n" "n < tl_slot q" for n
    using pg [OF len [OF that]] in_range [OF that] hi by (simp add: make_copy_eq)
  have "mq_ok ipp (q\<lparr>pages := ps\<rparr>)"
  proof (rule mq_okI)
    show "slots (page_of ipp (q\<lparr>pages := ps\<rparr>) n) (n mod ipp) \<noteq> None"
      if "hd_slot (q\<lparr>pages := ps\<rparr>) \<le> n" "n < tl_slot (q\<lparr>pages := ps\<rparr>)"
        "bit (mask (page_of ipp (q\<lparr>pages := ps\<rparr>) n)) (n mod ipp)" for n
      using that s [of n] m [of n] len [of n] D(6) [of n] by simp
    show "\<not> bit (mask (page_of ipp (q\<lparr>pages := ps\<rparr>) n)) (n mod ipp)"
      if "tl_slot (q\<lparr>pages := ps\<rparr>) \<le> n" "n div ipp - hd_slot (q\<lparr>pages := ps\<rparr>) div ipp < length (pages (q\<lparr>pages := ps\<rparr>))" for n
      using that m [of n] D(7) [of n] by (simp add: ps_def)
  qed (use D(1-5) in \<open>simp_all add: ps_def\<close>)
  moreover have "entry ipp (q\<lparr>pages := ps\<rparr>) n = entry ipp q n" if "hd_slot q \<le> n" "n < tl_slot q" for n
    using m [OF len [OF that]] s [OF that] by (simp add: entry_def)
  ultimately show ?thesis using that [OF run] by simp
qed


lemma assign_queues_ok:
  "\<lbrakk>\<And>q. q \<in> set qs \<Longrightarrow> mq_ok ipp q; 0 < ipp; ipp \<le> 64\<rbrakk> \<Longrightarrow> \<exists>qs'. assign_queues ipp qs = Returns qs' \<and>
    list_all2 (\<lambda>q q'. mq_ok ipp q' \<and> mq_head_counter q' = mq_head_counter q \<and> mq_tail_counter q' = mq_tail_counter q \<and>
      (\<forall>n. hd_slot q \<le> n \<and> n < tl_slot q \<longrightarrow> entry ipp q' n = entry ipp q n)) qs qs'"
proof (induction qs)
  case (Cons q qs)
  obtain q' where q': "assign_queue ipp q = Returns q'" "mq_ok ipp q'" "mq_head_counter q' = mq_head_counter q"
    "mq_tail_counter q' = mq_tail_counter q" "\<And>n. hd_slot q \<le> n \<Longrightarrow> n < tl_slot q \<Longrightarrow> entry ipp q' n = entry ipp q n"
    by (rule assign_queue_ok [OF Cons.prems(1) [of q] Cons.prems(2,3)]) auto
  obtain qs' where qs': "assign_queues ipp qs = Returns qs'"
    "list_all2 (\<lambda>q q'. mq_ok ipp q' \<and> mq_head_counter q' = mq_head_counter q \<and> mq_tail_counter q' = mq_tail_counter q \<and>
      (\<forall>n. hd_slot q \<le> n \<and> n < tl_slot q \<longrightarrow> entry ipp q' n = entry ipp q n)) qs qs'"
    using Cons by force
  then show ?case using q' by (intro exI [of _ "q' # qs'"]) simp
qed simp

lemma assign_holds:
  assumes "holds r xs"
  obtains r' where "assign r = Returns r'" "holds r' xs"
proof -
  obtain f where f: "queue_rel {} {} f r" "xs = valid (entries f r)"
    "n_invalid_entries r = length (filter (\<lambda>x. x = None) (entries f r))" using assms unfolding holds_def by blast
  note D = queue_relD [OF f(1)]
  let ?p = "items_per_page r"
  have ok: "mq_ok ?p q" if m: "q \<in> set (array r)" for q
  proof -
    obtain i where i: "i < n_queue" "q = array r ! i" using m D(1) unfolding in_set_conv_nth by auto
    then have "cq_index (i * 3) = i" using mod_mult_self2 [of i 8 i] by (simp add: cq_index_def phi_def n_queue_def)
    then show ?thesis using D(7) [of "i * 3"] i by (simp add: cq_choose_def)
  qed
  obtain qs where qs: "assign_queues ?p (array r) = Returns qs"
    "list_all2 (\<lambda>q q'. mq_ok ?p q' \<and> mq_head_counter q' = mq_head_counter q \<and> mq_tail_counter q' = mq_tail_counter q \<and>
      (\<forall>n. hd_slot q \<le> n \<and> n < tl_slot q \<longrightarrow> entry ?p q' n = entry ?p q n)) (array r) qs"
    using assign_queues_ok [OF ok D(2,3)] by auto
  let ?r = "\<lparr>head_counter = head_counter r, tail_counter = tail_counter r,
         items_per_page = ?p, n_invalid_entries = n_invalid_entries r, array = qs\<rparr>"
  have q: "mq_ok ?p (cq_choose ?r k)" "mq_head_counter (cq_choose ?r k) = mq_head_counter (cq_choose r k)"
    "mq_tail_counter (cq_choose ?r k) = mq_tail_counter (cq_choose r k)"
    "hd_slot (cq_choose r k) \<le> n \<Longrightarrow> n < tl_slot (cq_choose r k) \<Longrightarrow> entry ?p (cq_choose ?r k) n = entry ?p (cq_choose r k) n" for k n
    using list_all2_nthD [OF qs(2), of "cq_index k"] cq_index_less [of k] D(1) by (simp_all add: cq_choose_def)
  have "queue_rel {} {} f ?r"
    by (rule queue_relI) (use D q list_all2_lengthD [OF qs(2)] in simp_all)
  then have "holds ?r xs" using f(2,3) unfolding holds_def by (intro exI [of _ f]) (simp add: entries_def)
  moreover have "assign r = Returns ?r" using qs(1) by (simp add: assign_def)
  ultimately show ?thesis using that by blast
qed

section \<open>Iterators\<close>

text \<open>\<open>it_array\<close> holds the pages from the iterator's current page of each micro queue on.\<close>

record 'a iterator_rep =
  it_head_counter :: nat
  it_array :: "'a page list list"

text \<open>The item \<open>k\<close> and whether it is valid; at the tail there is no item.\<close>

definition get_item :: "'a concurrent_queue \<Rightarrow> 'a iterator_rep \<Rightarrow> nat \<Rightarrow> ('a option \<times> bool) outcome" where
  "get_item r it k =
     (if k = tail_counter r then Returns (None, True)
      else case it_array it ! cq_index k of [] \<Rightarrow> Undefined
        | p # ps \<Rightarrow> let i = k div n_queue mod items_per_page r in Returns (slots p i, mask p AND push_bit i 1 \<noteq> 0))"

text \<open>\<open>Undefined\<close>: the iterator is already past the last element.\<close>

function it_advance :: "'a concurrent_queue \<Rightarrow> 'a iterator_rep \<Rightarrow> ('a iterator_rep \<times> 'a option) outcome" where
  "it_advance r it =
     (let k = it_head_counter it; i = k div n_queue mod items_per_page r; j = cq_index k in
      if k \<ge> tail_counter r then Undefined
      else let it' = (if i = items_per_page r - 1 then it\<lparr>it_array := (it_array it)[j := tl (it_array it ! j)]\<rparr> else it)
                     \<lparr>it_head_counter := k + 1\<rparr>
        in case get_item r it' (k + 1) of
             Spins \<Rightarrow> Spins | Undefined \<Rightarrow> Undefined
           | Returns (item, ok) \<Rightarrow> (if ok then Returns (it', item) else it_advance r it'))"
  by pat_completeness auto

termination
  by (relation "measure (\<lambda>(r, it). tail_counter r - it_head_counter it)") (auto simp: Let_def split: if_splits)

declare it_advance.simps [simp del]

definition it_begin :: "'a concurrent_queue \<Rightarrow> ('a iterator_rep \<times> 'a option) outcome" where
  "it_begin r = (let it = \<lparr>it_head_counter = head_counter r, it_array = map pages (array r)\<rparr> in
     case get_item r it (head_counter r) of
       Spins \<Rightarrow> Spins | Undefined \<Rightarrow> Undefined
     | Returns (item, ok) \<Rightarrow> (if ok then Returns (it, item) else it_advance r it))"

text \<open>The loop over \<^verbatim>\<open>unsafe_begin()\<close> to \<^verbatim>\<open>unsafe_end()\<close>, at most \<open>n\<close> elements.\<close>

fun iterate :: "nat \<Rightarrow> 'a concurrent_queue \<Rightarrow> ('a iterator_rep \<times> 'a option) outcome \<Rightarrow> 'a list outcome" where
  "iterate n r Spins = Spins"
| "iterate n r Undefined = Undefined"
| "iterate n r (Returns (it, None)) = Returns []"
| "iterate 0 r (Returns (it, Some x)) = Spins"
| "iterate (Suc n) r (Returns (it, Some x)) =
     (case iterate n r (it_advance r it) of Spins \<Rightarrow> Spins | Undefined \<Rightarrow> Undefined | Returns xs \<Rightarrow> Returns (x # xs))"


definition it_ok :: "'a concurrent_queue \<Rightarrow> 'a iterator_rep \<Rightarrow> bool" where
  "it_ok r it \<longleftrightarrow> head_counter r \<le> it_head_counter it \<and> it_head_counter it \<le> tail_counter r \<and> length (it_array it) = n_queue \<and>
     (\<exists>hs. (\<forall>k. k div n_queue < hs (cq_index k) \<longleftrightarrow> k < it_head_counter it) \<and>
       (\<forall>j < n_queue. hd_slot (array r ! j) \<le> hs j \<and>
          it_array it ! j = drop (hs j div items_per_page r - hd_slot (array r ! j) div items_per_page r) (pages (array r ! j))))"

lemma it_ok_begin:
  "queue_rel {} {} f r \<Longrightarrow> it_ok r \<lparr>it_head_counter = head_counter r, it_array = map pages (array r)\<rparr>"
proof -
  assume rel: "queue_rel {} {} f r"
  note D = queue_relD [OF rel]
  have "k div n_queue < hd_slot (array r ! cq_index k) \<longleftrightarrow> k < head_counter r" for k
    using D(9) [of k] by (simp add: cq_choose_def)
  then show ?thesis using D(1,4) unfolding it_ok_def by (intro conjI exI [of _ "\<lambda>j. hd_slot (array r ! j)"]) simp_all
qed

lemma valid_Cons: "valid (x # xs) = valid [x] @ valid xs"
  by (cases x) simp_all

lemma it_page:
  assumes rel: "queue_rel {} {} f r" and it: "it_ok r it" and k: "k = it_head_counter it" "k < tail_counter r"
  shows "it_array it ! cq_index k = drop (k div n_queue div items_per_page r - hd_slot (cq_choose r k) div items_per_page r) (pages (cq_choose r k))"
    "hd_slot (cq_choose r k) \<le> k div n_queue" "k div n_queue < tl_slot (cq_choose r k)"
    "k div n_queue div items_per_page r - hd_slot (cq_choose r k) div items_per_page r < length (pages (cq_choose r k))"
proof -
  note D = queue_relD [OF rel]
  obtain hs where hs: "\<And>k. k div n_queue < hs (cq_index k) \<longleftrightarrow> k < it_head_counter it"
    "\<And>j. j < n_queue \<Longrightarrow> hd_slot (array r ! j) \<le> hs j \<and>
          it_array it ! j = drop (hs j div items_per_page r - hd_slot (array r ! j) div items_per_page r) (pages (array r ! j))"
    using it unfolding it_ok_def by blast
  have "hs (cq_index k) = k div n_queue"
    by (rule turn_aux [where t = k and P = "{}"]) (use hs(1) k(1) in auto)
  then show 1: "it_array it ! cq_index k = drop (k div n_queue div items_per_page r - hd_slot (cq_choose r k) div items_per_page r) (pages (cq_choose r k))"
    "hd_slot (cq_choose r k) \<le> k div n_queue"
    using hs(2) [OF cq_index_less [of k]] by (simp_all add: cq_choose_def)
  show 2: "k div n_queue < tl_slot (cq_choose r k)" using D(8) [of k] k(2) by simp
  show "k div n_queue div items_per_page r - hd_slot (cq_choose r k) div items_per_page r < length (pages (cq_choose r k))"
    using page_in_use [OF D(2) 2] div_le_mono [OF 1(2), of "items_per_page r"] mq_okD(5) [OF D(7) [of k]] by simp
qed

lemma get_item_ok:
  assumes rel: "queue_rel {} {} f r" and it: "it_ok r it"
  shows "get_item r it (it_head_counter it) = (if it_head_counter it = tail_counter r then Returns (None, True)
      else Returns (slots (page_of (items_per_page r) (cq_choose r (it_head_counter it)) (it_head_counter it div n_queue))
        (it_head_counter it div n_queue mod items_per_page r), f (it_head_counter it) \<noteq> None))"
    "it_head_counter it < tail_counter r \<Longrightarrow> f (it_head_counter it) = Some x \<Longrightarrow>
      slots (page_of (items_per_page r) (cq_choose r (it_head_counter it)) (it_head_counter it div n_queue))
        (it_head_counter it div n_queue mod items_per_page r) = Some x"
proof -
  note D = queue_relD [OF rel]
  let ?k = "it_head_counter it" and ?p = "items_per_page r"
  let ?q = "cq_choose r ?k" and ?n = "it_head_counter it div n_queue"
  have le: "?k \<le> tail_counter r" using it by (simp add: it_ok_def)
  note P = it_page [OF rel it refl]
  have e: "entry ?p ?q ?n = f ?k" if "?k < tail_counter r" using D(10) [OF P(2,3) [OF that]] .
  have v: "bit (mask (page_of ?p ?q ?n)) (?n mod ?p) \<longleftrightarrow> f ?k \<noteq> None" if "?k < tail_counter r"
    using e [OF that] mq_okD(6) [OF D(7) P(2,3) [OF that]] by (auto simp: entry_def split: if_splits)
  show "slots (page_of ?p ?q ?n) (?n mod ?p) = Some x" if "?k < tail_counter r" "f ?k = Some x"
    using e [OF that(1)] that(2) by (simp add: entry_def split: if_splits)
  have a: "it_array it ! cq_index ?k = page_of ?p ?q ?n # drop (Suc (?n div ?p - hd_slot ?q div ?p)) (pages ?q)" if "?k < tail_counter r"
    unfolding P(1) [OF that] page_of_def by (rule Cons_nth_drop_Suc [symmetric, OF P(4) [OF that]])
  show "get_item r it ?k = (if ?k = tail_counter r then Returns (None, True)
      else Returns (slots (page_of ?p ?q ?n) (?n mod ?p), f ?k \<noteq> None))"
    using le a v by (auto simp: get_item_def mask_test Let_def)
qed

lemma it_ok_next:
  assumes rel: "queue_rel {} {} f r" and it: "it_ok r it" and k: "k = it_head_counter it" "k < tail_counter r"
  shows "it_ok r ((if k div n_queue mod items_per_page r = items_per_page r - 1
      then it\<lparr>it_array := (it_array it)[cq_index k := tl (it_array it ! cq_index k)]\<rparr> else it)\<lparr>it_head_counter := k + 1\<rparr>)"
    (is "it_ok r ?it")
proof -
  note D = queue_relD [OF rel]
  let ?p = "items_per_page r"
  obtain hs where hs: "\<And>k. k div n_queue < hs (cq_index k) \<longleftrightarrow> k < it_head_counter it"
    "\<And>j. j < n_queue \<Longrightarrow> hd_slot (array r ! j) \<le> hs j \<and>
          it_array it ! j = drop (hs j div ?p - hd_slot (array r ! j) div ?p) (pages (array r ! j))"
    and l: "head_counter r \<le> k" "length (it_array it) = n_queue"
    using it k(1) unfolding it_ok_def by blast
  have t: "hs (cq_index k) = k div n_queue"
    by (rule turn_aux [where t = k and P = "{}"]) (use hs(1) k(1) in auto)
  let ?hs = "hs(cq_index k := Suc (k div n_queue))"
  have "j div n_queue < ?hs (cq_index j) \<longleftrightarrow> j < it_head_counter ?it" for j
  proof (cases "cq_index j = cq_index k")
    case True
    have "j div n_queue < Suc (k div n_queue) \<longleftrightarrow> j div n_queue < k div n_queue \<or> j = k"
      using ticket_unique [OF True] by (auto simp: less_Suc_eq)
    then show ?thesis using hs(1) [of j] True t k(1) by auto
  next
    case False
    then show ?thesis using hs(1) [of j] k(1) by (auto simp: less_Suc_eq)
  qed
  moreover have "hd_slot (array r ! j) \<le> ?hs j \<and>
      it_array ?it ! j = drop (?hs j div ?p - hd_slot (array r ! j) div ?p) (pages (array r ! j))" if "j < n_queue" for j
  proof (cases "j = cq_index k")
    case True
    have h: "hd_slot (array r ! j) \<le> k div n_queue" "it_array it ! j = drop (k div n_queue div ?p - hd_slot (array r ! j) div ?p) (pages (array r ! j))"
      using hs(2) [OF that] t True by simp_all
    have "hd_slot (array r ! j) div ?p \<le> k div n_queue div ?p" using h(1) by (rule div_le_mono)
    then show ?thesis using h True l(2) that by (auto simp: div_Suc_page [OF D(2)] Suc_diff_le tl_drop drop_Suc)
  next
    case False
    then show ?thesis using hs(2) [OF that] by simp
  qed
  ultimately show ?thesis using l k(2) unfolding it_ok_def by (intro conjI exI [of _ ?hs]) simp_all
qed

lemma it_advance_ok:
  assumes rel: "queue_rel {} {} f r"
  shows "it_ok r it \<Longrightarrow> it_head_counter it < tail_counter r \<Longrightarrow> \<exists>it' item. it_advance r it = Returns (it', item) \<and> it_ok r it' \<and>
    it_head_counter it < it_head_counter it' \<and> (item \<noteq> None \<longrightarrow> it_head_counter it' < tail_counter r) \<and>
    valid (map f [Suc (it_head_counter it)..<tail_counter r]) =
      (case item of None \<Rightarrow> [] | Some x \<Rightarrow> x # valid (map f [Suc (it_head_counter it')..<tail_counter r]))"
proof (induction "tail_counter r - it_head_counter it" arbitrary: it)
  case (Suc n)
  let ?k = "it_head_counter it"
  define it1 where "it1 = (if ?k div n_queue mod items_per_page r = items_per_page r - 1
      then it\<lparr>it_array := (it_array it)[cq_index ?k := tl (it_array it ! cq_index ?k)]\<rparr> else it)\<lparr>it_head_counter := ?k + 1\<rparr>"
  have ok: "it_ok r it1" unfolding it1_def by (rule it_ok_next [OF rel Suc.prems(1) refl Suc.prems(2)])
  have h: "it_head_counter it1 = Suc ?k" by (simp add: it1_def)
  note G = get_item_ok [OF rel ok, unfolded h]
  have adv: "it_advance r it = (case get_item r it1 (Suc ?k) of Spins \<Rightarrow> Spins | Undefined \<Rightarrow> Undefined
      | Returns (item, ok) \<Rightarrow> (if ok then Returns (it1, item) else it_advance r it1))"
    using Suc.prems(2) unfolding it_advance.simps [of r it] Let_def it1_def [symmetric] by simp
  show ?case
  proof (cases "Suc ?k = tail_counter r")
    case True
    then show ?thesis using adv G(1) ok h by auto
  next
    case False
    then have lt: "Suc ?k < tail_counter r" using Suc.prems(2) by simp
    have m: "valid (map f [Suc ?k..<tail_counter r]) = valid [f (Suc ?k)] @ valid (map f [Suc (Suc ?k)..<tail_counter r])"
      unfolding upt_conv_Cons [OF lt] list.map by (rule valid_Cons)
    show ?thesis
    proof (cases "f (Suc ?k)")
      case None
      then have "it_advance r it = it_advance r it1" using adv G(1) False by simp
      moreover have "n = tail_counter r - it_head_counter it1" using Suc(2) h by simp
      ultimately show ?thesis using Suc(1) [OF _ ok] lt h m None by fastforce
    next
      case (Some x)
      then show ?thesis using adv G(1) G(2) [OF lt Some] False ok h lt m by simp
    qed
  qed
qed simp

lemma iterate_ok:
  assumes rel: "queue_rel {} {} f r"
  shows "it_ok r it \<Longrightarrow> it_head_counter it < tail_counter r \<Longrightarrow> tail_counter r - it_head_counter it \<le> n \<Longrightarrow>
    iterate n r (Returns (it, Some x)) = Returns (x # valid (map f [Suc (it_head_counter it)..<tail_counter r]))"
proof (induction n arbitrary: it x)
  case (Suc n)
  obtain it' item where a: "it_advance r it = Returns (it', item)" "it_ok r it'"
    "it_head_counter it < it_head_counter it'" "item \<noteq> None \<longrightarrow> it_head_counter it' < tail_counter r"
    "valid (map f [Suc (it_head_counter it)..<tail_counter r]) =
      (case item of None \<Rightarrow> [] | Some x \<Rightarrow> x # valid (map f [Suc (it_head_counter it')..<tail_counter r]))"
    using it_advance_ok [OF rel Suc.prems(1,2)] by blast
  show ?case
  proof (cases item)
    case None
    then show ?thesis using a by simp
  next
    case (Some y)
    then have "iterate n r (Returns (it', Some y)) = Returns (y # valid (map f [Suc (it_head_counter it')..<tail_counter r]))"
      using Suc.IH [OF a(2), of y] a(3,4) Suc.prems(3) by simp
    then show ?thesis using a(1,5) Some by simp
  qed
qed simp

lemma iterate_holds:
  assumes "holds r xs"
  shows "iterate (tail_counter r - head_counter r) r (it_begin r) = Returns xs"
proof -
  obtain f where rel: "queue_rel {} {} f r" and xs: "xs = valid (entries f r)" using assms unfolding holds_def by blast
  let ?it = "\<lparr>it_head_counter = head_counter r, it_array = map pages (array r)\<rparr>"
  have ok: "it_ok r ?it" by (rule it_ok_begin [OF rel])
  note G = get_item_ok [OF rel ok, simplified]
  show ?thesis
  proof (cases "head_counter r = tail_counter r")
    case True
    then show ?thesis using G(1) xs by (simp add: it_begin_def entries_def)
  next
    case False
    then have lt: "head_counter r < tail_counter r" using queue_relD(4) [OF rel] by simp
    have e: "xs = valid [f (head_counter r)] @ valid (map f [Suc (head_counter r)..<tail_counter r])"
      unfolding xs entries_def upt_conv_Cons [OF lt] list.map by (rule valid_Cons)
    show ?thesis
    proof (cases "f (head_counter r)")
      case None
      obtain it' item where a: "it_advance r ?it = Returns (it', item)" "it_ok r it'"
        "head_counter r < it_head_counter it'" "item \<noteq> None \<longrightarrow> it_head_counter it' < tail_counter r"
        "valid (map f [Suc (head_counter r)..<tail_counter r]) =
          (case item of None \<Rightarrow> [] | Some x \<Rightarrow> x # valid (map f [Suc (it_head_counter it')..<tail_counter r]))"
        using it_advance_ok [OF rel ok] lt by auto
      have "it_begin r = Returns (it', item)" using G(1) None False a(1) by (simp add: it_begin_def)
      then show ?thesis using e None a iterate_ok [OF rel a(2)] by (cases item) auto
    next
      case (Some x)
      then have "it_begin r = Returns (?it, Some x)" using G(1) G(2) [OF lt Some] False by (simp add: it_begin_def)
      then show ?thesis using iterate_ok [OF rel ok] lt e Some by simp
    qed
  qed
qed

section \<open>Many threads\<close>

text \<open>
  A thread that pushes takes a ticket (\<^verbatim>\<open>tail_counter++\<close>) and then runs the micro queue's push when it is its
  turn; a thread that pops takes a ticket while the queue looks non-empty, runs the micro queue's pop, and
  tries again when the entry is invalid. \<open>pushed\<close> and \<open>popped\<close> record what happened, for the statements only.
\<close>

datatype 'a cq_pc = Idle | Pushing nat "'a option" | Trying | Popping nat

record 'a cq_system =
  rep :: "'a concurrent_queue"
  threads :: "'a cq_pc list"
  pushed :: "nat \<rightharpoonup> 'a option"
  popped :: "(nat \<times> 'a) list"

inductive cq_step :: "'a cq_system \<Rightarrow> 'a cq_system \<Rightarrow> bool" where
  push_ticket: "i < length (threads s) \<Longrightarrow> threads s ! i = Idle \<Longrightarrow> k = tail_counter (rep s) \<Longrightarrow>
    cq_step s (s\<lparr>rep := (rep s)\<lparr>tail_counter := k + 1\<rparr>, threads := (threads s)[i := Pushing k item]\<rparr>)"
| push_turn: "i < length (threads s) \<Longrightarrow> threads s ! i = Pushing k item \<Longrightarrow>
    at_queue k (micro_push (items_per_page (rep s)) True item k) (rep s) = Returns (r, threw) \<Longrightarrow>
    cq_step s (s\<lparr>rep := r, threads := (threads s)[i := Idle], pushed := (pushed s)(k \<mapsto> item)\<rparr>)"
| pop_call: "i < length (threads s) \<Longrightarrow> threads s ! i = Idle \<Longrightarrow>
    cq_step s (s\<lparr>threads := (threads s)[i := Trying]\<rparr>)"
| pop_empty: "i < length (threads s) \<Longrightarrow> threads s ! i = Trying \<Longrightarrow>
    int (tail_counter (rep s)) - int (head_counter (rep s)) \<le> 0 \<Longrightarrow>
    cq_step s (s\<lparr>threads := (threads s)[i := Idle]\<rparr>)"
| pop_ticket: "i < length (threads s) \<Longrightarrow> threads s ! i = Trying \<Longrightarrow> k = head_counter (rep s) \<Longrightarrow>
    \<not> int (tail_counter (rep s)) - int k \<le> 0 \<Longrightarrow>
    cq_step s (s\<lparr>rep := (rep s)\<lparr>head_counter := k + 1\<rparr>, threads := (threads s)[i := Popping k]\<rparr>)"
| pop_turn: "i < length (threads s) \<Longrightarrow> threads s ! i = Popping k \<Longrightarrow>
    at_queue k (micro_pop (items_per_page (rep s)) k) (rep s) = Returns (r, Some x) \<Longrightarrow>
    cq_step s (s\<lparr>rep := r, threads := (threads s)[i := Idle], popped := popped s @ [(k, x)]\<rparr>)"
| pop_skip: "i < length (threads s) \<Longrightarrow> threads s ! i = Popping k \<Longrightarrow>
    at_queue k (micro_pop (items_per_page (rep s)) k) (rep s) = Returns (r, None) \<Longrightarrow>
    cq_step s (s\<lparr>rep := r, threads := (threads s)[i := Trying]\<rparr>)"

definition cq_init :: "nat \<Rightarrow> nat \<Rightarrow> 'a cq_system" where
  "cq_init item_size n = \<lparr>rep = cq_new item_size, threads = replicate n Idle, pushed = Map.empty, popped = []\<rparr>"

inductive cq_reachable :: "nat \<Rightarrow> nat \<Rightarrow> 'a cq_system \<Rightarrow> bool" for item_size n where
  init: "cq_reachable item_size n (cq_init item_size n)"
| step: "cq_reachable item_size n s \<Longrightarrow> cq_step s t \<Longrightarrow> cq_reachable item_size n t"

text \<open>The tickets threads hold.\<close>

fun push_tk :: "'a cq_pc \<Rightarrow> nat option" where
  "push_tk (Pushing k item) = Some k"
| "push_tk _ = None"

fun pop_tk :: "'a cq_pc \<Rightarrow> nat option" where
  "pop_tk (Popping k) = Some k"
| "pop_tk _ = None"

definition tickets :: "('p \<Rightarrow> nat option) \<Rightarrow> 'p list \<Rightarrow> nat set" where
  "tickets g ts = {k. \<exists>i < length ts. g (ts ! i) = Some k}"

definition own :: "('p \<Rightarrow> nat option) \<Rightarrow> 'p list \<Rightarrow> bool" where
  "own g ts \<longleftrightarrow> (\<forall>i j k. i < length ts \<longrightarrow> j < length ts \<longrightarrow> g (ts ! i) = Some k \<longrightarrow> g (ts ! j) = Some k \<longrightarrow> i = j)"

lemma tickets_update:
  "i < length ts \<Longrightarrow> k \<in> tickets g (ts[i := pc]) \<longleftrightarrow> g pc = Some k \<or> (\<exists>j < length ts. j \<noteq> i \<and> g (ts ! j) = Some k)"
  by (auto simp: tickets_def nth_list_update)

lemma ownD: "own g ts \<Longrightarrow> i < length ts \<Longrightarrow> j < length ts \<Longrightarrow> g (ts ! i) = Some k \<Longrightarrow> g (ts ! j) = Some k \<Longrightarrow> i = j"
  unfolding own_def by blast

lemma own_update:
  assumes "own g ts" "i < length ts" "\<And>k j. g pc = Some k \<Longrightarrow> j < length ts \<Longrightarrow> g (ts ! j) \<noteq> Some k"
  shows "own g (ts[i := pc])"
  unfolding own_def length_list_update
proof (intro allI impI)
  fix a b k
  assume "a < length ts" "b < length ts" "g (ts[i := pc] ! a) = Some k" "g (ts[i := pc] ! b) = Some k"
  then show "a = b" using ownD [OF assms(1), of a b k] assms(2) assms(3) [of k a] assms(3) [of k b]
    by (simp add: nth_list_update split: if_splits)
qed

lemma tickets_remove:
  assumes "own g ts" "i < length ts" "g (ts ! i) = Some k" "g pc = None"
  shows "tickets g (ts[i := pc]) = tickets g ts - {k}" "own g (ts[i := pc])"
proof -
  have "j \<in> tickets g (ts[i := pc]) \<longleftrightarrow> j \<in> tickets g ts - {k}" for j
    using ownD [OF assms(1) _ assms(2) _ assms(3)] assms(3,4) unfolding Diff_iff insert_iff tickets_update [OF assms(2)] unfolding tickets_def by auto
  then show "tickets g (ts[i := pc]) = tickets g ts - {k}" by blast
qed (rule own_update [OF assms(1,2)], simp add: assms(4))

lemma tickets_add:
  assumes "own g ts" "i < length ts" "g (ts ! i) = None" "g pc = Some k" "k \<notin> tickets g ts"
  shows "tickets g (ts[i := pc]) = insert k (tickets g ts)" "own g (ts[i := pc])"
proof -
  have "j \<in> tickets g (ts[i := pc]) \<longleftrightarrow> j \<in> insert k (tickets g ts)" for j
    using assms(3,4) unfolding Diff_iff insert_iff tickets_update [OF assms(2)] unfolding tickets_def by auto
  then show "tickets g (ts[i := pc]) = insert k (tickets g ts)" by blast
qed (rule own_update [OF assms(1,2)], use assms(4,5) in \<open>auto simp: tickets_def\<close>)

lemma tickets_same:
  assumes "own g ts" "i < length ts" "g (ts ! i) = None" "g pc = None"
  shows "tickets g (ts[i := pc]) = tickets g ts" "own g (ts[i := pc])"
proof -
  have "j \<in> tickets g (ts[i := pc]) \<longleftrightarrow> j \<in> tickets g ts" for j
    using assms(3,4) unfolding tickets_update [OF assms(2)] unfolding tickets_def by auto
  then show "tickets g (ts[i := pc]) = tickets g ts" by blast
qed (rule own_update [OF assms(1,2)], simp add: assms(4))

lemma tickets_mem: "i < length ts \<Longrightarrow> g (ts ! i) = Some k \<Longrightarrow> k \<in> tickets g ts"
  by (auto simp: tickets_def)

definition item_of :: "'a cq_system \<Rightarrow> nat \<Rightarrow> 'a option" where
  "item_of s k = (case pushed s k of None \<Rightarrow> None | Some item \<Rightarrow> item)"

definition cq_inv :: "'a cq_system \<Rightarrow> bool" where
  "cq_inv s \<longleftrightarrow> queue_rel (tickets push_tk (threads s)) (tickets pop_tk (threads s)) (item_of s) (rep s) \<and>
     own push_tk (threads s) \<and> own pop_tk (threads s) \<and>
     dom (pushed s) = {..<tail_counter (rep s)} - tickets push_tk (threads s) \<and>
     set (popped s) = {(k, x). k < head_counter (rep s) \<and> k \<notin> tickets pop_tk (threads s) \<and> item_of s k = Some x} \<and>
     distinct (map fst (popped s))"

lemma cq_invD:
  assumes "cq_inv s"
  shows "queue_rel (tickets push_tk (threads s)) (tickets pop_tk (threads s)) (item_of s) (rep s)"
    "own push_tk (threads s)" "own pop_tk (threads s)"
    "dom (pushed s) = {..<tail_counter (rep s)} - tickets push_tk (threads s)"
    "set (popped s) = {(k, x). k < head_counter (rep s) \<and> k \<notin> tickets pop_tk (threads s) \<and> item_of s k = Some x}"
    "distinct (map fst (popped s))"
  using assms unfolding cq_inv_def by blast+

lemma cq_init_inv: "cq_inv (cq_init item_size n)"
proof -
  have "tickets g (replicate n Idle) = {}" "own g (replicate n Idle)" if "g Idle = None" for g :: "'a cq_pc \<Rightarrow> nat option"
    using that by (auto simp: tickets_def own_def)
  then show ?thesis using queue_rel_new by (simp add: cq_inv_def cq_init_def) (simp add: cq_new_def)
qed


text \<open>A micro queue operation returns only for the ticket whose turn it is.\<close>

lemma push_returns_turn:
  assumes rel: "queue_rel P Q f r" and run: "at_queue k (micro_push (items_per_page r) True item k) r = Returns res"
  shows "tl_slot (cq_choose r k) = k div n_queue"
proof (rule ccontr)
  assume n: "\<not> ?thesis"
  note ok = queue_relD(7) [OF rel, of k]
  have "mq_tail_counter (cq_choose r k) \<noteq> k - k mod n_queue" using n unfolding ticket_base by (auto simp: n_queue_def)
  moreover have "even (mq_tail_counter (cq_choose r k))" using mq_okD(3) [OF ok] by (auto simp: n_queue_def)
  ultimately show False using run by (auto simp: at_queue_def micro_push_def Let_def split: if_splits)
qed

lemma pop_returns_turn:
  assumes rel: "queue_rel P Q f r" and run: "at_queue k (micro_pop (items_per_page r) k) r = Returns res"
  shows "hd_slot (cq_choose r k) = k div n_queue" "k \<notin> P"
proof -
  note ok = queue_relD(7) [OF rel, of k]
  let ?q = "cq_choose r k"
  have c: "mq_head_counter ?q = n_queue * (k div n_queue)" "mq_tail_counter ?q \<noteq> n_queue * (k div n_queue)"
    using run unfolding at_queue_def micro_pop_def ticket_base by (auto simp: Let_def split: if_splits)
  show h: "hd_slot ?q = k div n_queue" using c(1) by (simp add: n_queue_def)
  have "tl_slot ?q \<noteq> k div n_queue" using c(2) slot_counter(1) [OF ok] by auto
  then have "k div n_queue < tl_slot ?q" using h mq_okD(4) [OF ok] by simp
  then show "k \<notin> P" using queue_relD(8) [OF rel, of k] by blast
qed

lemma cq_push_turn_inv:
  assumes inv: "cq_inv s" and i: "i < length (threads s)" "threads s ! i = Pushing k item"
    and run: "at_queue k (micro_push (items_per_page (rep s)) True item k) (rep s) = Returns (r, threw)"
  shows "cq_inv (s\<lparr>rep := r, threads := (threads s)[i := Idle], pushed := (pushed s)(k \<mapsto> item)\<rparr>)" (is "cq_inv ?t")
proof -
  note I = cq_invD [OF inv] and D = queue_relD [OF cq_invD(1) [OF inv]]
  have k: "k \<in> tickets push_tk (threads s)" using tickets_mem [of i "threads s" push_tk] i by auto
  note turn = push_returns_turn [OF I(1) run]
  obtain r' where r': "at_queue k (micro_push (items_per_page (rep s)) True item k) (rep s) = Returns (r', item = None)"
    "queue_rel (tickets push_tk (threads s) - {k}) (tickets pop_tk (threads s)) ((item_of s)(k := item)) r'"
    "head_counter r' = head_counter (rep s)" "tail_counter r' = tail_counter (rep s)"
    by (rule push_step [OF I(1) k turn]) blast
  have r: "r = r'" using r'(1) run by simp
  have P: "tickets push_tk (threads ?t) = tickets push_tk (threads s) - {k}" "own push_tk (threads ?t)"
    using tickets_remove [OF I(2) i(1)] i(2) by simp_all
  have Q: "tickets pop_tk (threads ?t) = tickets pop_tk (threads s)" "own pop_tk (threads ?t)"
    using tickets_same [OF I(3) i(1)] i(2) by simp_all
  have e: "item_of ?t = (item_of s)(k := item)" by (simp add: item_of_def fun_eq_iff)
  have "\<not> (k < head_counter (rep s) \<and> k \<notin> tickets pop_tk (threads s))"
    using D(9) [of k] turn mq_okD(4) [OF D(7) [of k]] by simp
  then have "set (popped s) = {(j, x). j < head_counter r' \<and> j \<notin> tickets pop_tk (threads s) \<and> ((item_of s)(k := item)) j = Some x}"
    using I(5) r'(3) by (auto split: if_splits)
  moreover have "dom (pushed ?t) = {..<tail_counter r'} - (tickets push_tk (threads s) - {k})" using I(4) D(5) k r'(4) by auto
  ultimately show ?thesis unfolding cq_inv_def P Q e using r'(2) P(2) Q(2) I(6) r by simp
qed

lemma cq_pop_turn_inv:
  assumes inv: "cq_inv s" and i: "i < length (threads s)" "threads s ! i = Popping k"
    and run: "at_queue k (micro_pop (items_per_page (rep s)) k) (rep s) = Returns (r, y)"
    and pc: "pop_tk pc = None" "push_tk pc = None"
  shows "cq_inv (s\<lparr>rep := r, threads := (threads s)[i := pc],
      popped := popped s @ (case y of None \<Rightarrow> [] | Some x \<Rightarrow> [(k, x)])\<rparr>)" (is "cq_inv ?t")
proof -
  note I = cq_invD [OF inv] and D = queue_relD [OF cq_invD(1) [OF inv]]
  have k: "k \<in> tickets pop_tk (threads s)" using tickets_mem [of i "threads s" pop_tk] i by auto
  note turn = pop_returns_turn [OF I(1) run]
  obtain r' where r': "at_queue k (micro_pop (items_per_page (rep s)) k) (rep s) = Returns (r', item_of s k)"
    "queue_rel (tickets push_tk (threads s)) (tickets pop_tk (threads s) - {k}) (item_of s) r'"
    "head_counter r' = head_counter (rep s)" "tail_counter r' = tail_counter (rep s)"
    by (rule pop_step [OF I(1) k turn(2,1)]) blast
  have r: "r = r'" "y = item_of s k" using r'(1) run by simp_all
  have P: "tickets push_tk (threads ?t) = tickets push_tk (threads s)" "own push_tk (threads ?t)"
    using tickets_same [OF I(2) i(1)] i(2) pc by simp_all
  have Q: "tickets pop_tk (threads ?t) = tickets pop_tk (threads s) - {k}" "own pop_tk (threads ?t)"
    using tickets_remove [OF I(3) i(1)] i(2) pc by simp_all
  have e: "item_of ?t = item_of s" by (simp add: item_of_def fun_eq_iff)
  have kh: "k < head_counter (rep s)" using D(6) k by auto
  have "set (popped ?t) = {(j, x). j < head_counter r' \<and> j \<notin> tickets pop_tk (threads s) - {k} \<and> item_of s j = Some x}"
    using I(5) r'(3) kh r(2) by (auto split: option.splits)
  moreover have "distinct (map fst (popped ?t))" using I(5,6) k by (auto split: option.split)
  ultimately show ?thesis unfolding cq_inv_def P Q e using r'(2) P(2) Q(2) I(4) r(1) r'(4) by simp
qed

lemma cq_step_inv:
  assumes "cq_step s t" "cq_inv s"
  shows "cq_inv t"
  using assms(1)
proof (cases rule: cq_step.cases)
  case (push_ticket i k item)
  note I = cq_invD [OF assms(2)] and D = queue_relD [OF cq_invD(1) [OF assms(2)]]
  have new: "k \<notin> tickets push_tk (threads s)" using D(5) push_ticket(4) by auto
  have P: "tickets push_tk (threads t) = insert k (tickets push_tk (threads s))" "own push_tk (threads t)"
    using tickets_add [OF I(2) push_ticket(2) _ _ new] push_ticket(1,3) by simp_all
  have Q: "tickets pop_tk (threads t) = tickets pop_tk (threads s)" "own pop_tk (threads t)"
    using tickets_same [OF I(3) push_ticket(2)] push_ticket(1,3) by simp_all
  have s: "item_of t = item_of s" "popped t = popped s" "pushed t = pushed s"
    using push_ticket(1) by (auto simp: item_of_def fun_eq_iff)
  have r: "rep t = (rep s)\<lparr>tail_counter := tail_counter (rep s) + 1\<rparr>" using push_ticket(1,4) by simp
  show ?thesis unfolding cq_inv_def P Q s r
    using queue_rel_take_push [OF I(1)] I(4-6) P(2) Q(2) new push_ticket(4) by auto
next
  case (push_turn i k item r threw)
  then show ?thesis using cq_push_turn_inv [OF assms(2)] by blast
next
  case (pop_ticket i k)
  note I = cq_invD [OF assms(2)] and D = queue_relD [OF cq_invD(1) [OF assms(2)]]
  have lt: "head_counter (rep s) < tail_counter (rep s)" using pop_ticket(4,5) by simp
  have new: "k \<notin> tickets pop_tk (threads s)" using D(6) pop_ticket(4) by auto
  have P: "tickets push_tk (threads t) = tickets push_tk (threads s)" "own push_tk (threads t)"
    using tickets_same [OF I(2) pop_ticket(2)] pop_ticket(1,3) by simp_all
  have Q: "tickets pop_tk (threads t) = insert k (tickets pop_tk (threads s))" "own pop_tk (threads t)"
    using tickets_add [OF I(3) pop_ticket(2) _ _ new] pop_ticket(1,3) by simp_all
  have s: "item_of t = item_of s" "popped t = popped s" "pushed t = pushed s"
    using pop_ticket(1) by (auto simp: item_of_def fun_eq_iff)
  have r: "rep t = (rep s)\<lparr>head_counter := head_counter (rep s) + 1\<rparr>" using pop_ticket(1,4) by simp
  show ?thesis unfolding cq_inv_def P Q s r
    using queue_rel_take_pop [OF I(1) lt] I(4-6) P(2) Q(2) new pop_ticket(4) by auto
next
  case (pop_turn i k r x)
  then show ?thesis using cq_pop_turn_inv [OF assms(2) pop_turn(2-4), of Idle] by simp
next
  case (pop_skip i k r)
  then show ?thesis using cq_pop_turn_inv [OF assms(2) pop_skip(2-4), of Trying] by simp
next
  case (pop_call i)
  note I = cq_invD [OF assms(2)]
  show ?thesis using tickets_same [OF I(2) pop_call(2)] tickets_same [OF I(3) pop_call(2)] pop_call(1,3) assms(2)
    by (simp add: cq_inv_def item_of_def [abs_def])
next
  case (pop_empty i)
  note I = cq_invD [OF assms(2)]
  show ?thesis using tickets_same [OF I(2) pop_empty(2)] tickets_same [OF I(3) pop_empty(2)] pop_empty(1,3) assms(2)
    by (simp add: cq_inv_def item_of_def [abs_def])
qed

lemma cq_reachable_inv: "cq_reachable item_size n s \<Longrightarrow> cq_inv s \<and> length (threads s) = n"
proof (induction rule: cq_reachable.induct)
  case (step s t)
  then have "length (threads t) = length (threads s)" by (auto elim: cq_step.cases)
  then show ?case using step cq_step_inv by auto
qed (use cq_init_inv in \<open>simp add: cq_init_def\<close>)

text \<open>The oldest waiting ticket can always proceed.\<close>

lemma cq_progress:
  assumes inv: "cq_inv s" and i: "i < length (threads s)" "threads s ! i \<noteq> Idle" "threads s ! i \<noteq> Trying"
  shows "\<exists>t j. cq_step s t \<and> j < length (threads s) \<and> threads s ! j \<noteq> Idle \<and> threads s ! j \<noteq> Trying \<and>
    (threads t ! j = Idle \<or> threads t ! j = Trying)"
proof -
  note I = cq_invD [OF inv] and D = queue_relD [OF cq_invD(1) [OF inv]]
  show ?thesis
  proof (cases "tickets push_tk (threads s) = {}")
    case False
    define k where "k = (LEAST k. k \<in> tickets push_tk (threads s))"
    have k: "k \<in> tickets push_tk (threads s)" unfolding k_def using False by (meson LeastI ex_in_conv)
    have min: "\<And>j. j \<in> tickets push_tk (threads s) \<Longrightarrow> k \<le> j" unfolding k_def by (rule Least_le)
    obtain j where j0: "j < length (threads s)" "push_tk (threads s ! j) = Some k" using k by (auto simp: tickets_def)
    then obtain item where j: "threads s ! j = Pushing k item" by (cases "threads s ! j") auto
    obtain r' where r': "at_queue k (micro_push (items_per_page (rep s)) True item k) (rep s) = Returns (r', item = None)"
      by (rule push_step [OF I(1) k first_push_turn [OF I(1) k min]]) blast
    from cq_step.push_turn [OF j0(1) j r'] show ?thesis using j0(1) j by (intro exI conjI) (assumption | simp)+
  next
    case True
    then have "push_tk (threads s ! i) = None" using tickets_mem [of i "threads s" push_tk] i(1) by (metis empty_iff not_None_eq)
    then obtain k0 where "threads s ! i = Popping k0" using i by (cases "threads s ! i") auto
    then have ne: "tickets pop_tk (threads s) \<noteq> {}" using tickets_mem [of i "threads s" pop_tk] i(1) by auto
    define k where "k = (LEAST k. k \<in> tickets pop_tk (threads s))"
    have k: "k \<in> tickets pop_tk (threads s)" unfolding k_def using ne by (meson LeastI ex_in_conv)
    have min: "\<And>j. j \<in> tickets pop_tk (threads s) \<Longrightarrow> k \<le> j" unfolding k_def by (rule Least_le)
    obtain j where j0: "j < length (threads s)" "pop_tk (threads s ! j) = Some k" using k by (auto simp: tickets_def)
    then have j: "threads s ! j = Popping k" by (cases "threads s ! j") auto
    obtain r' where r': "at_queue k (micro_pop (items_per_page (rep s)) k) (rep s) = Returns (r', item_of s k)"
      by (rule pop_step [OF I(1) k _ first_pop_turn [OF I(1) k min]]) (use True in blast)+
    show ?thesis
    proof (cases "item_of s k")
      case None
      from cq_step.pop_skip [OF j0(1) j r' [unfolded None]] show ?thesis using j0(1) j by (intro exI conjI) (assumption | simp)+
    next
      case (Some x)
      from cq_step.pop_turn [OF j0(1) j r' [unfolded Some]] show ?thesis using j0(1) j by (intro exI conjI) (assumption | simp)+
    qed
  qed
qed


section \<open>A sample execution\<close>

lemma cq_sample:
  obtains s1 s2 :: "bool cq_system" where "cq_reachable 8 1 s1" "threads s1 = [Pushing 0 (Some True)]"
    "cq_reachable 8 1 s2" "threads s2 = [Idle]" "pushed s2 = [0 \<mapsto> Some True]" "head_counter (rep s2) = 1"
proof -
  define s0 :: "bool cq_system" where "s0 = cq_init 8 1"
  have r0: "cq_reachable 8 1 s0" unfolding s0_def by (rule cq_reachable.init)
  have f0: "threads s0 = [Idle]" "tail_counter (rep s0) = 0" "head_counter (rep s0) = 0" "pushed s0 = Map.empty"
    by (simp_all add: s0_def cq_init_def cq_new_def)
  define s1 where "s1 = s0\<lparr>rep := (rep s0)\<lparr>tail_counter := 0 + 1\<rparr>, threads := (threads s0)[0 := Pushing 0 (Some True)]\<rparr>"
  have st1: "cq_step s0 s1" unfolding s1_def by (rule cq_step.push_ticket) (simp_all add: f0)
  have r1: "cq_reachable 8 1 s1" by (rule cq_reachable.step [OF r0 st1])
  have f1: "threads s1 = [Pushing 0 (Some True)]" "pushed s1 = Map.empty" "tail_counter (rep s1) = 1" "head_counter (rep s1) = 0"
    by (simp_all add: s1_def f0)
  note i1 = cq_invD [OF conjunct1 [OF cq_reachable_inv [OF r1]]]
  have P: "tickets push_tk (threads s1) = {0}" by (auto simp: f1 tickets_def)
  obtain r2 where r2: "at_queue 0 (micro_push (items_per_page (rep s1)) True (Some True) 0) (rep s1) = Returns (r2, Some True = None)"
    "head_counter r2 = head_counter (rep s1)" "tail_counter r2 = tail_counter (rep s1)"
    by (rule push_step [OF i1(1) _ first_push_turn [OF i1(1)], of 0 "Some True"]) (auto simp: P)
  define s2 where "s2 = s1\<lparr>rep := r2, threads := (threads s1)[0 := Idle], pushed := (pushed s1)(0 \<mapsto> Some True)\<rparr>"
  have st2: "cq_step s1 s2" unfolding s2_def by (rule cq_step.push_turn [OF _ _ r2(1)]) (simp_all add: f1)
  have rc2: "cq_reachable 8 1 s2" by (rule cq_reachable.step [OF r1 st2])
  have f2: "threads s2 = [Idle]" "pushed s2 = [0 \<mapsto> Some True]" "tail_counter (rep s2) = 1" "head_counter (rep s2) = 0"
    using r2(2,3) by (simp_all add: s2_def f1)
  define s3 where "s3 = s2\<lparr>threads := (threads s2)[0 := Trying]\<rparr>"
  have st3: "cq_step s2 s3" unfolding s3_def by (rule cq_step.pop_call) (simp_all add: f2)
  have rc3: "cq_reachable 8 1 s3" by (rule cq_reachable.step [OF rc2 st3])
  define s4 where "s4 = s3\<lparr>rep := (rep s3)\<lparr>head_counter := 0 + 1\<rparr>, threads := (threads s3)[0 := Popping 0]\<rparr>"
  have st4: "cq_step s3 s4" unfolding s4_def by (rule cq_step.pop_ticket) (simp_all add: f2 s3_def)
  have rc4: "cq_reachable 8 1 s4" by (rule cq_reachable.step [OF rc3 st4])
  have f4: "threads s4 = [Popping 0]" "pushed s4 = [0 \<mapsto> Some True]" "head_counter (rep s4) = 1"
    by (simp_all add: s4_def s3_def f2)
  note i4 = cq_invD [OF conjunct1 [OF cq_reachable_inv [OF rc4]]]
  have Q: "tickets pop_tk (threads s4) = {0}" "tickets push_tk (threads s4) = {}" by (auto simp: f4 tickets_def)
  have item: "item_of s4 0 = Some True" by (simp add: item_of_def f4)
  obtain r5 where r5: "at_queue 0 (micro_pop (items_per_page (rep s4)) 0) (rep s4) = Returns (r5, item_of s4 0)"
    "head_counter r5 = head_counter (rep s4)"
    by (rule pop_step [OF i4(1) _ _ first_pop_turn [OF i4(1)]]) (auto simp: Q)
  define s5 where "s5 = s4\<lparr>rep := r5, threads := (threads s4)[0 := Idle], popped := popped s4 @ [(0, True)]\<rparr>"
  have st5: "cq_step s4 s5" unfolding s5_def by (rule cq_step.pop_turn [OF _ _ r5(1) [unfolded item]]) (simp_all add: f4)
  show ?thesis
    by (rule that [OF r1 f1(1) cq_reachable.step [OF rc4 st5]]) (simp_all add: s5_def f4 r5(2))
qed

section \<open>Properties\<close>

text \<open>
  C8: used by one thread at a time, the concurrent queue is a first-in first-out queue: no call
  spins or follows an invalid pointer, pops return the pushed items in order and fail only when the queue
  is empty; pushes whose constructor throws leave no trace; \<^verbatim>\<open>unsafe_size\<close> and \<^verbatim>\<open>empty\<close> are exact.
\<close>

theorem concurrent_queue_fifo:
  "\<exists>r. cq_run ops (cq_new item_size) = Returns (fst (fifo_run list_push list_pop (completed ops) []), r) \<and>
     internal_size r = length (snd (fifo_run list_push list_pop (completed ops) [])) \<and>
     (internal_empty r \<longleftrightarrow> snd (fifo_run list_push list_pop (completed ops) []) = [])"
  using cq_run_refines [OF holds_new [of item_size], of ops] holds_size by blast

text \<open>
  Copying gives an equal queue and iterating visits its items: after any calls, \<^verbatim>\<open>assign\<close> succeeds, the
  copy answers every further sequence of calls as the original does, and the iterators of both
  enumerate the items in queue order.
\<close>

theorem concurrent_queue_copy:
  "\<exists>rs r c. cq_run ops (cq_new item_size) = Returns (rs, r) \<and> assign r = Returns c \<and>
     (\<exists>r2 c2 rs2. cq_run ops2 r = Returns (rs2, r2) \<and> cq_run ops2 c = Returns (rs2, c2)) \<and>
     iterate (tail_counter r - head_counter r) r (it_begin r) = Returns (snd (fifo_run list_push list_pop (completed ops) [])) \<and>
     iterate (tail_counter c - head_counter c) c (it_begin c) = Returns (snd (fifo_run list_push list_pop (completed ops) []))"
proof -
  let ?xs = "snd (fifo_run list_push list_pop (completed ops) [])"
  obtain r where r: "cq_run ops (cq_new item_size) = Returns (fst (fifo_run list_push list_pop (completed ops) []), r)" "holds r ?xs"
    using cq_run_refines [OF holds_new [of item_size], of ops] by blast
  obtain c where c: "assign r = Returns c" "holds c ?xs" by (rule assign_holds [OF r(2)])
  show ?thesis
    using r c cq_run_refines [OF r(2), of ops2] cq_run_refines [OF c(2), of ops2] iterate_holds [OF r(2)] iterate_holds [OF c(2)]
    by blast
qed

text \<open>
  C11: under every interleaving of any number of threads each ticket is popped at most once, and exactly
  the items pushed under the tickets that pops have taken and finished come out, each under its own
  ticket; a ticket counts as pushed exactly when it was dealt out and its push is no longer waiting.
\<close>

theorem concurrent_queue_each_once:
  assumes "cq_reachable item_size n s"
  shows "distinct (map fst (popped s)) \<and>
    ((k, x) \<in> set (popped s) \<longleftrightarrow>
      k < head_counter (rep s) \<and> k \<notin> tickets pop_tk (threads s) \<and> pushed s k = Some (Some x)) \<and>
    (k \<in> dom (pushed s) \<longleftrightarrow> k < tail_counter (rep s) \<and> k \<notin> tickets push_tk (threads s)) \<and>
    head_counter (rep s) \<le> tail_counter (rep s) \<and> own push_tk (threads s) \<and> own pop_tk (threads s)"
proof -
  note I = cq_invD [OF conjunct1 [OF cq_reachable_inv [OF assms]]]
  have "item_of s k = Some x \<longleftrightarrow> pushed s k = Some (Some x)" by (auto simp: item_of_def split: option.split)
  then show ?thesis using I(2-6) queue_relD(4) [OF I(1)] by (simp del: domIff)
qed

theorem concurrent_queue_each_once_witness:
  "\<exists>s :: bool cq_system. cq_reachable 8 1 s \<and> (0, True) \<in> set (popped s)"
proof -
  obtain s :: "bool cq_system" where s: "cq_reachable 8 1 s" "threads s = [Idle]" "pushed s = [0 \<mapsto> Some True]" "head_counter (rep s) = 1"
    by (rule cq_sample) blast
  have "tickets pop_tk (threads s) = {}" by (auto simp: s(2) tickets_def)
  then show ?thesis using concurrent_queue_each_once [OF s(1), of 0 True] s by auto
qed

text \<open>
  No lost turn: whenever some thread has taken a ticket, one of the threads that have can finish its
  micro queue operation, so the waiting loops cannot all wait for each other.
\<close>

theorem concurrent_queue_progress:
  assumes "cq_reachable item_size n s" and "i < n" and "threads s ! i \<notin> {Idle, Trying}"
  shows "\<exists>t j. cq_step s t \<and> j < n \<and> threads s ! j \<notin> {Idle, Trying} \<and> threads t ! j \<in> {Idle, Trying}"
  using cq_progress [of s i] cq_reachable_inv [OF assms(1)] assms(2,3) by simp

theorem concurrent_queue_progress_witness:
  "\<exists>(s :: bool cq_system) t. cq_reachable 8 1 s \<and> threads s = [Pushing 0 (Some True)] \<and> cq_step s t"
proof -
  obtain s :: "bool cq_system" where s: "cq_reachable 8 1 s" "threads s = [Pushing 0 (Some True)]" by (rule cq_sample) blast
  then show ?thesis using concurrent_queue_progress [OF s(1), of 0] by auto
qed

text \<open>
  After a page allocation failed in \<^verbatim>\<open>push\<close>, the next \<^verbatim>\<open>try_pop\<close> takes the ticket of the failed push and
  dereferences the invalid page at address 1.
\<close>

theorem concurrent_queue_pop_after_bad_alloc:
  "\<exists>r. internal_push False item (cq_new item_size) = Returns (r, True) \<and> internal_try_pop r = Undefined"
proof -
  have "0 < page_capacity item_size" by (rule page_capacity_range)
  then show ?thesis
    by (simp add: internal_push_def at_queue_def micro_push_def cq_choose_def cq_new_def cq_index_def n_queue_def phi_def
        empty_micro_queue_def invalidate_page_def internal_try_pop.simps micro_pop_def Let_def)
qed

text \<open>
  Pages of items whose constructor threw leak: with one item per page and nine throwing pushes the
  queue counts as empty, so \<^verbatim>\<open>clear\<close> pops nothing, and \<^verbatim>\<open>internal_finish_clear\<close> frees one page of the two in
  the first micro queue.
\<close>

theorem concurrent_queue_leaks_invalid_pages:
  "case cq_run (replicate 9 (Push None)) (cq_new 200) of Returns (rs, r) \<Rightarrow>
      (case clear 0 r of Returns r' \<Rightarrow> internal_finish_clear r' = 1 | _ \<Rightarrow> False) | _ \<Rightarrow> False"
  by code_simp

end
