(* ===== verification/Blocked_Range.thy ===== *)
theory Blocked_Range
  imports Prelude
begin

text \<open>
  \<^verbatim>\<open>include/tbb/blocked_range.h\<close>, \<^verbatim>\<open>blocked_range2d.h\<close> and \<^verbatim>\<open>blocked_range3d.h\<close> over \<^verbatim>\<open>size_t\<close> values, and the
  Range concept that the partitioners rely on, as a locale. A split returns the range that stays (the
  first part) and the new range (the second part). The size of the right part of a proportional split is
  computed in 32-bit floating point; that computation is the parameter \<open>fpart\<close>.
\<close>

section \<open>The Range concept\<close>

datatype split_obj = Split | Proportional nat nat

record 'r range_ops =
  range_empty :: "'r \<Rightarrow> bool"
  range_is_divisible :: "'r \<Rightarrow> bool"
  range_split :: "split_obj \<Rightarrow> 'r \<Rightarrow> 'r \<times> 'r"

text \<open>The proportions that the affinity partitioner asks for.\<close>

fun good_split :: "split_obj \<Rightarrow> bool" where
  "good_split Split = True"
| "good_split (Proportional left right) \<longleftrightarrow> 0 < right \<and> right \<le> left \<and> left \<le> 2 * right"

text \<open>
  What a range promises: a divisible range splits into two nonempty parts with the same iterations, and
  \<open>items\<close> are the iterations it stands for.
\<close>

locale range_concept =
  fixes ops :: "'r range_ops" and ok :: "'r \<Rightarrow> bool" and items :: "'r \<Rightarrow> 'i multiset"
  assumes split_items: "ok r \<Longrightarrow> range_is_divisible ops r \<Longrightarrow> good_split s \<Longrightarrow>
      items (fst (range_split ops s r)) + items (snd (range_split ops s r)) = items r"
    and split_ok: "ok r \<Longrightarrow> range_is_divisible ops r \<Longrightarrow> good_split s \<Longrightarrow>
      ok (fst (range_split ops s r)) \<and> ok (snd (range_split ops s r))"
    and split_nonempty: "ok r \<Longrightarrow> range_is_divisible ops r \<Longrightarrow> good_split s \<Longrightarrow>
      items (fst (range_split ops s r)) \<noteq> {#} \<and> items (snd (range_split ops s r)) \<noteq> {#}"
    and empty_items: "ok r \<Longrightarrow> range_empty ops r \<longleftrightarrow> items r = {#}"
begin

lemma split_sizes:
  assumes "ok r" "range_is_divisible ops r" "good_split s" "range_split ops s r = (a, b)"
  shows "size (items a) + size (items b) = size (items r)" "0 < size (items a)" "0 < size (items b)"
  using arg_cong [OF split_items [OF assms(1-3)], of size] split_nonempty [OF assms(1-3)] assms(4)
  by (simp_all add: size_union nonempty_has_size)

end

section \<open>One dimension\<close>

record blocked_range =
  my_end :: "64 word"
  my_begin :: "64 word"
  my_grainsize :: "64 word"

definition br_size :: "blocked_range \<Rightarrow> 64 word" where
  "br_size r = my_end r - my_begin r"

definition br_empty :: "blocked_range \<Rightarrow> bool" where
  "br_empty r \<longleftrightarrow> \<not> my_begin r < my_end r"

definition br_is_divisible :: "blocked_range \<Rightarrow> bool" where
  "br_is_divisible r \<longleftrightarrow> my_grainsize r < br_size r"

text \<open>\<^verbatim>\<open>do_split\<close>: the range that stays, and the middle.\<close>

fun do_split :: "(nat \<Rightarrow> nat \<Rightarrow> nat \<Rightarrow> nat) \<Rightarrow> split_obj \<Rightarrow> blocked_range \<Rightarrow> blocked_range \<times> 64 word" where
  "do_split fpart Split r =
     (let middle = my_begin r + (my_end r - my_begin r) div 2 in (r\<lparr>my_end := middle\<rparr>, middle))"
| "do_split fpart (Proportional left right) r =
     (let right_part = of_nat (fpart (unat (br_size r)) left right); middle = my_end r - right_part
      in (r\<lparr>my_end := middle\<rparr>, middle))"

text \<open>The splitting constructor initialises \<^verbatim>\<open>my_end\<close> from the old range before \<^verbatim>\<open>do_split\<close> changes it.\<close>

definition br_split :: "(nat \<Rightarrow> nat \<Rightarrow> nat \<Rightarrow> nat) \<Rightarrow> split_obj \<Rightarrow> blocked_range \<Rightarrow> blocked_range \<times> blocked_range" where
  "br_split fpart s r =
     (let (r', middle) = do_split fpart s r
      in (r', \<lparr>my_end = my_end r, my_begin = middle, my_grainsize = my_grainsize r'\<rparr>))"

definition br_ops :: "(nat \<Rightarrow> nat \<Rightarrow> nat \<Rightarrow> nat) \<Rightarrow> blocked_range range_ops" where
  "br_ops fpart = \<lparr>range_empty = br_empty, range_is_divisible = br_is_divisible, range_split = br_split fpart\<rparr>"

section \<open>Two and three dimensions\<close>

record blocked_range2d =
  my_rows :: blocked_range
  my_cols :: blocked_range

definition br2_empty :: "blocked_range2d \<Rightarrow> bool" where
  "br2_empty r \<longleftrightarrow> br_empty (my_rows r) \<or> br_empty (my_cols r)"

definition br2_is_divisible :: "blocked_range2d \<Rightarrow> bool" where
  "br2_is_divisible r \<longleftrightarrow> br_is_divisible (my_rows r) \<or> br_is_divisible (my_cols r)"

text \<open>
  \<^verbatim>\<open>a.size()*double(b.grainsize()) < b.size()*double(a.grainsize())\<close>, exact as long as the products stay
  below \<open>2 ^ 53\<close>.
\<close>

definition coarser :: "blocked_range \<Rightarrow> blocked_range \<Rightarrow> bool" where
  "coarser a b \<longleftrightarrow> unat (br_size a) * unat (my_grainsize b) < unat (br_size b) * unat (my_grainsize a)"

definition br2_split :: "(nat \<Rightarrow> nat \<Rightarrow> nat \<Rightarrow> nat) \<Rightarrow> split_obj \<Rightarrow> blocked_range2d \<Rightarrow> blocked_range2d \<times> blocked_range2d" where
  "br2_split fpart s r =
     (if coarser (my_rows r) (my_cols r)
      then (let (c, m) = do_split fpart s (my_cols r)
            in (r\<lparr>my_cols := c\<rparr>, r\<lparr>my_cols := (my_cols r)\<lparr>my_begin := m\<rparr>\<rparr>))
      else (let (c, m) = do_split fpart s (my_rows r)
            in (r\<lparr>my_rows := c\<rparr>, r\<lparr>my_rows := (my_rows r)\<lparr>my_begin := m\<rparr>\<rparr>)))"

definition br2_ops :: "(nat \<Rightarrow> nat \<Rightarrow> nat \<Rightarrow> nat) \<Rightarrow> blocked_range2d range_ops" where
  "br2_ops fpart = \<lparr>range_empty = br2_empty, range_is_divisible = br2_is_divisible, range_split = br2_split fpart\<rparr>"

record blocked_range3d =
  my_pages3 :: blocked_range
  my_rows3 :: blocked_range
  my_cols3 :: blocked_range

definition br3_empty :: "blocked_range3d \<Rightarrow> bool" where
  "br3_empty r \<longleftrightarrow> br_empty (my_pages3 r) \<or> br_empty (my_rows3 r) \<or> br_empty (my_cols3 r)"

definition br3_is_divisible :: "blocked_range3d \<Rightarrow> bool" where
  "br3_is_divisible r \<longleftrightarrow> br_is_divisible (my_pages3 r) \<or> br_is_divisible (my_rows3 r) \<or> br_is_divisible (my_cols3 r)"

definition br3_split :: "(nat \<Rightarrow> nat \<Rightarrow> nat \<Rightarrow> nat) \<Rightarrow> split_obj \<Rightarrow> blocked_range3d \<Rightarrow> blocked_range3d \<times> blocked_range3d" where
  "br3_split fpart s r =
     (let split_cols = (let (c, m) = do_split fpart s (my_cols3 r)
            in (r\<lparr>my_cols3 := c\<rparr>, r\<lparr>my_cols3 := (my_cols3 r)\<lparr>my_begin := m\<rparr>\<rparr>));
          split_rows = (let (c, m) = do_split fpart s (my_rows3 r)
            in (r\<lparr>my_rows3 := c\<rparr>, r\<lparr>my_rows3 := (my_rows3 r)\<lparr>my_begin := m\<rparr>\<rparr>));
          split_pages = (let (c, m) = do_split fpart s (my_pages3 r)
            in (r\<lparr>my_pages3 := c\<rparr>, r\<lparr>my_pages3 := (my_pages3 r)\<lparr>my_begin := m\<rparr>\<rparr>))
      in if coarser (my_pages3 r) (my_rows3 r)
         then (if coarser (my_rows3 r) (my_cols3 r) then split_cols else split_rows)
         else (if coarser (my_pages3 r) (my_cols3 r) then split_cols else split_pages))"

definition br3_ops :: "(nat \<Rightarrow> nat \<Rightarrow> nat \<Rightarrow> nat) \<Rightarrow> blocked_range3d range_ops" where
  "br3_ops fpart = \<lparr>range_empty = br3_empty, range_is_divisible = br3_is_divisible, range_split = br3_split fpart\<rparr>"

section \<open>The laws\<close>

text \<open>What the model asks of the floating-point computation, and the exact computation, which satisfies it.\<close>

definition good_fpart :: "(nat \<Rightarrow> nat \<Rightarrow> nat \<Rightarrow> nat) \<Rightarrow> bool" where
  "good_fpart fpart \<longleftrightarrow> (\<forall>n l r. 2 \<le> n \<longrightarrow> 0 < r \<longrightarrow> r \<le> l \<longrightarrow> l \<le> 2 * r \<longrightarrow> 0 < fpart n l r \<and> fpart n l r < n)"

definition exact_part :: "nat \<Rightarrow> nat \<Rightarrow> nat \<Rightarrow> nat" where
  "exact_part n l r = (2 * n * r + (l + r)) div (2 * (l + r))"

lemma exact_part_good: "good_fpart exact_part"
proof -
  have "0 < exact_part n l r \<and> exact_part n l r < n" if "2 \<le> n" "0 < r" "r \<le> l" "l \<le> 2 * r" for n l r
  proof -
    have "2 * (l + r) \<le> 2 * n * r + (l + r)"
    proof -
      define x where "x = 2 * n * r"
      have "4 * r \<le> x" using that(1) by (simp add: x_def)
      then show ?thesis unfolding x_def [symmetric] using that(2,4) by presburger
    qed
    moreover have "2 * n * r + (l + r) < n * (2 * (l + r))"
    proof -
      define y where "y = 2 * n * l"
      have "4 * l \<le> y" using that(1) by (simp add: y_def)
      moreover have "n * (2 * (l + r)) = y + 2 * n * r" by (simp add: y_def algebra_simps)
      ultimately show ?thesis using that(2,3) by linarith
    qed
    ultimately show ?thesis using that(2) unfolding exact_part_def
      by (simp add: div_greater_zero_iff less_mult_imp_div_less)
  qed
  then show ?thesis unfolding good_fpart_def by blast
qed

definition br_ok :: "blocked_range \<Rightarrow> bool" where
  "br_ok r \<longleftrightarrow> my_begin r \<le> my_end r \<and> 0 < my_grainsize r"

definition br_items :: "blocked_range \<Rightarrow> 64 word set" where
  "br_items r = {my_begin r..<my_end r}"

lemma br_split_parts:
  assumes ok: "br_ok r" and div: "br_is_divisible r" and s: "good_split s" "good_fpart fpart"
  obtains m where "do_split fpart s r = (r\<lparr>my_end := m\<rparr>, m)" "my_begin r < m" "m < my_end r"
proof -
  define b e where "b = unat (my_begin r)" and "e = unat (my_end r)"
  have le: "my_begin r \<le> my_end r" "0 < my_grainsize r" using ok by (auto simp: br_ok_def)
  have sz: "unat (br_size r) = e - b" using le(1) by (simp add: br_size_def unat_sub b_def e_def)
  have "0 < unat (my_grainsize r)" using le(2) by (simp add: word_less_nat_alt)
  then have two: "2 \<le> e - b" using div sz by (simp add: br_is_divisible_def word_less_nat_alt)
  have e64: "e < 2 ^ 64" using unsigned_less [of "my_end r"] by (simp add: e_def)
  show ?thesis
  proof (cases s)
    case Split
    let ?m = "my_begin r + (my_end r - my_begin r) div 2"
    have h: "unat ((my_end r - my_begin r) div 2) = (e - b) div 2"
      using sz by (simp add: unat_div br_size_def)
    have "unat (my_begin r) + unat ((my_end r - my_begin r) div 2) < 2 ^ LENGTH(64)"
      using e64 two unfolding h b_def [symmetric] by simp
    then have m: "unat ?m = b + (e - b) div 2"
      unfolding unat_add_lem by (simp add: h b_def)
    have "b < b + (e - b) div 2" "b + (e - b) div 2 < e" using two by auto
    then show ?thesis using that [of ?m] Split m by (simp add: word_less_nat_alt b_def e_def Let_def)
  next
    case (Proportional left right)
    let ?p = "fpart (e - b) left right"
    have p: "0 < ?p" "?p < e - b" using s two Proportional unfolding good_fpart_def by auto
    have u: "unat (of_nat ?p :: 64 word) = ?p" using p e64 by (simp add: unat_of_nat)
    let ?m = "my_end r - of_nat ?p"
    have le: "of_nat ?p \<le> my_end r" using p u by (simp add: word_le_nat_alt e_def [symmetric])
    have m: "unat ?m = e - ?p" unfolding unat_sub [OF le] u by (simp only: e_def)
    show ?thesis using that [of ?m] Proportional m p by (simp add: word_less_nat_alt b_def [symmetric] e_def [symmetric] sz Let_def)
  qed
qed

lemma interval_split: "b < m \<Longrightarrow> m < e \<Longrightarrow> {b..<e} = {b..<m} \<union> {m..<e} \<and> {b..<m} \<inter> {m..<e} = {} \<and> {b..<m} \<noteq> {} \<and> {m..<e} \<noteq> {}"
  for b m e :: "64 word"
  by (auto simp: ivl_disj_un)


text \<open>Shrinking one side of a product of ranges to either half.\<close>

lemma do_split_halves:
  assumes ok: "br_ok r" and div: "br_is_divisible r" and s: "good_split s" "good_fpart fpart"
  obtains m where "do_split fpart s r = (r\<lparr>my_end := m\<rparr>, m)"
    "br_ok (r\<lparr>my_end := m\<rparr>)" "br_ok (r\<lparr>my_begin := m\<rparr>)"
    "br_items r = br_items (r\<lparr>my_end := m\<rparr>) \<union> br_items (r\<lparr>my_begin := m\<rparr>)"
    "br_items (r\<lparr>my_end := m\<rparr>) \<inter> br_items (r\<lparr>my_begin := m\<rparr>) = {}"
    "br_items (r\<lparr>my_end := m\<rparr>) \<noteq> {}" "br_items (r\<lparr>my_begin := m\<rparr>) \<noteq> {}"
proof -
  obtain m where m: "do_split fpart s r = (r\<lparr>my_end := m\<rparr>, m)" "my_begin r < m" "m < my_end r"
    by (rule br_split_parts [OF assms])
  have i: "br_items (r\<lparr>my_end := m\<rparr>) = {my_begin r..<m}" "br_items (r\<lparr>my_begin := m\<rparr>) = {m..<my_end r}"
    "br_items r = {my_begin r..<my_end r}" by (simp_all add: br_items_def)
  show ?thesis
    by (rule that [OF m(1)], unfold i) (use ok m(2,3) interval_split [OF m(2,3)] in \<open>auto simp: br_ok_def\<close>)
qed

lemma mset_set_parts:
  "finite A \<Longrightarrow> finite B \<Longrightarrow> A \<inter> B = {} \<Longrightarrow> mset_set A + mset_set B = mset_set (A \<union> B)"
  by (simp add: mset_set_Union)

definition br1_items :: "blocked_range \<Rightarrow> 64 word multiset" where
  "br1_items r = mset_set (br_items r)"

lemma br_range_concept:
  assumes "good_fpart fpart"
  shows "range_concept (br_ops fpart) br_ok br1_items"
proof
  fix r s assume h: "br_ok r" "range_is_divisible (br_ops fpart) r" "good_split s"
  then have d: "br_is_divisible r" by (simp add: br_ops_def)
  obtain m where m: "do_split fpart s r = (r\<lparr>my_end := m\<rparr>, m)"
    "br_ok (r\<lparr>my_end := m\<rparr>)" "br_ok (r\<lparr>my_begin := m\<rparr>)"
    "br_items r = br_items (r\<lparr>my_end := m\<rparr>) \<union> br_items (r\<lparr>my_begin := m\<rparr>)"
    "br_items (r\<lparr>my_end := m\<rparr>) \<inter> br_items (r\<lparr>my_begin := m\<rparr>) = {}"
    "br_items (r\<lparr>my_end := m\<rparr>) \<noteq> {}" "br_items (r\<lparr>my_begin := m\<rparr>) \<noteq> {}"
    by (rule do_split_halves [OF h(1) d h(3) assms])
  have e: "range_split (br_ops fpart) s r = (r\<lparr>my_end := m\<rparr>, r\<lparr>my_begin := m\<rparr>)"
    using m(1) by (simp add: br_ops_def br_split_def)
  have f: "finite (br_items x)" for x by (simp add: br_items_def)
  show "br1_items (fst (range_split (br_ops fpart) s r)) + br1_items (snd (range_split (br_ops fpart) s r)) = br1_items r"
    unfolding e fst_conv snd_conv br1_items_def mset_set_parts [OF f f m(5)] m(4) [symmetric] ..
  show "br_ok (fst (range_split (br_ops fpart) s r)) \<and> br_ok (snd (range_split (br_ops fpart) s r))"
    unfolding e using m(2,3) by simp
  show "br1_items (fst (range_split (br_ops fpart) s r)) \<noteq> {#} \<and> br1_items (snd (range_split (br_ops fpart) s r)) \<noteq> {#}"
    unfolding e using m(6,7) f by (simp add: br1_items_def mset_set_empty_iff)
next
  fix r assume "br_ok r"
  then show "range_empty (br_ops fpart) r \<longleftrightarrow> br1_items r = {#}" by (auto simp: br_ops_def br_empty_def br1_items_def br_items_def mset_set_empty_iff)
qed

text \<open>The comparison of the sides picks a divisible one.\<close>

lemma coarser_divisible:
  assumes "br_ok a" "br_ok b" "br_is_divisible a \<or> br_is_divisible b"
  shows "if coarser a b then br_is_divisible b else br_is_divisible a"
proof -
  define m g n h where "m = unat (br_size a)" and "g = unat (my_grainsize a)" and "n = unat (br_size b)"
    and "h = unat (my_grainsize b)"
  have pos: "0 < g" "0 < h" using assms(1,2) by (simp_all add: br_ok_def word_less_nat_alt g_def h_def)
  have d: "br_is_divisible a \<longleftrightarrow> g < m" "br_is_divisible b \<longleftrightarrow> h < n"
    by (simp_all add: br_is_divisible_def word_less_nat_alt m_def g_def n_def h_def)
  have c: "coarser a b \<longleftrightarrow> m * h < n * g" by (simp add: coarser_def m_def g_def n_def h_def)
  have "h < n" if "m * h < n * g" "g < m"
  proof -
    have "g * h < n * g" using that by (meson less_imp_le mult_le_mono1 order_le_less_trans)
    then show ?thesis using pos by simp
  qed
  moreover have "g < m" if "\<not> m * h < n * g" "h < n"
  proof -
    have "h * g < n * g" using that(2) pos(1) by simp
    then have "h * g < m * h" using that(1) by linarith
    then show ?thesis using pos by simp
  qed
  ultimately show ?thesis using assms(3) unfolding d c by auto
qed

lemma times_parts:
  "A \<inter> B = {} \<Longrightarrow> (A \<union> B) \<times> C = A \<times> C \<union> B \<times> C \<and> (A \<times> C) \<inter> (B \<times> C) = {}"
  "A \<inter> B = {} \<Longrightarrow> C \<times> (A \<union> B) = C \<times> A \<union> C \<times> B \<and> (C \<times> A) \<inter> (C \<times> B) = {}"
  by auto

lemma br_empty_items: "br_empty r \<longleftrightarrow> br_items r = {}"
  by (auto simp: br_empty_def br_items_def)

definition br2_items :: "blocked_range2d \<Rightarrow> (64 word \<times> 64 word) multiset" where
  "br2_items r = mset_set (br_items (my_rows r) \<times> br_items (my_cols r))"

definition br2_ok :: "blocked_range2d \<Rightarrow> bool" where
  "br2_ok r \<longleftrightarrow> br_ok (my_rows r) \<and> br_ok (my_cols r) \<and> br_items (my_rows r) \<noteq> {} \<and> br_items (my_cols r) \<noteq> {}"

lemma finite_br_items [simp]: "finite (br_items x)"
  by (simp add: br_items_def)

lemma br2_range_concept:
  assumes fp: "good_fpart fpart"
  shows "range_concept (br2_ops fpart) br2_ok br2_items"
proof -
  have main: "br2_items (fst (br2_split fpart s r)) + br2_items (snd (br2_split fpart s r)) = br2_items r \<and>
      br2_ok (fst (br2_split fpart s r)) \<and> br2_ok (snd (br2_split fpart s r)) \<and>
      br2_items (fst (br2_split fpart s r)) \<noteq> {#} \<and> br2_items (snd (br2_split fpart s r)) \<noteq> {#}"
    if h: "br2_ok r" "br2_is_divisible r" "good_split s" for r s
  proof -
    have ok: "br_ok (my_rows r)" "br_ok (my_cols r)" "br_items (my_rows r) \<noteq> {}" "br_items (my_cols r) \<noteq> {}"
      using h(1) by (auto simp: br2_ok_def)
    note c = coarser_divisible [OF ok(1,2), OF h(2) [unfolded br2_is_divisible_def]]
    show ?thesis
    proof (cases "coarser (my_rows r) (my_cols r)")
      case True
      then have d: "br_is_divisible (my_cols r)" using c by simp
      show ?thesis
        by (rule do_split_halves [OF ok(2) d h(3) fp])
          (use True ok in \<open>auto simp: br2_split_def br2_items_def br2_ok_def mset_set_empty_iff mset_set_parts times_parts\<close>)
    next
      case False
      then have d: "br_is_divisible (my_rows r)" using c by simp
      show ?thesis
        by (rule do_split_halves [OF ok(1) d h(3) fp])
          (use False ok in \<open>auto simp: br2_split_def br2_items_def br2_ok_def mset_set_empty_iff mset_set_parts times_parts\<close>)
    qed
  qed
  show ?thesis by unfold_locales (use main in \<open>auto simp: br2_ops_def br2_empty_def br2_ok_def br2_items_def mset_set_empty_iff br_empty_items\<close>)
qed

definition br3_items :: "blocked_range3d \<Rightarrow> (64 word \<times> 64 word \<times> 64 word) multiset" where
  "br3_items r = mset_set (br_items (my_pages3 r) \<times> br_items (my_rows3 r) \<times> br_items (my_cols3 r))"

definition br3_ok :: "blocked_range3d \<Rightarrow> bool" where
  "br3_ok r \<longleftrightarrow> br_ok (my_pages3 r) \<and> br_ok (my_rows3 r) \<and> br_ok (my_cols3 r) \<and>
     br_items (my_pages3 r) \<noteq> {} \<and> br_items (my_rows3 r) \<noteq> {} \<and> br_items (my_cols3 r) \<noteq> {}"


lemma br3_range_concept:
  assumes fp: "good_fpart fpart"
  shows "range_concept (br3_ops fpart) br3_ok br3_items"
proof -
  have main: "br3_items (fst (br3_split fpart s r)) + br3_items (snd (br3_split fpart s r)) = br3_items r \<and>
      br3_ok (fst (br3_split fpart s r)) \<and> br3_ok (snd (br3_split fpart s r)) \<and>
      br3_items (fst (br3_split fpart s r)) \<noteq> {#} \<and> br3_items (snd (br3_split fpart s r)) \<noteq> {#}"
    if h: "br3_ok r" "br3_is_divisible r" "good_split s" for r s
  proof -
    let ?p = "my_pages3 r" and ?r = "my_rows3 r" and ?c = "my_cols3 r"
    have ok: "br_ok ?p" "br_ok ?r" "br_ok ?c" "br_items ?p \<noteq> {}" "br_items ?r \<noteq> {}" "br_items ?c \<noteq> {}"
      using h(1) by (auto simp: br3_ok_def)
    consider (c1) "coarser ?p ?r" "coarser ?r ?c" "br_is_divisible ?c" | (r) "coarser ?p ?r" "\<not> coarser ?r ?c" "br_is_divisible ?r"
      | (c2) "\<not> coarser ?p ?r" "coarser ?p ?c" "br_is_divisible ?c" | (p) "\<not> coarser ?p ?r" "\<not> coarser ?p ?c" "br_is_divisible ?p"
      using coarser_divisible [OF ok(1,2)] coarser_divisible [OF ok(2,3)] coarser_divisible [OF ok(1,3)] h(2)
      unfolding br3_is_divisible_def by metis
    then show ?thesis
    proof cases
      case c1
      show ?thesis by (rule do_split_halves [OF ok(3) c1(3) h(3) fp])
        (use c1 ok in \<open>auto simp: br3_split_def br3_items_def br3_ok_def mset_set_empty_iff mset_set_parts times_parts\<close>)
    next
      case r
      show ?thesis by (rule do_split_halves [OF ok(2) r(3) h(3) fp])
        (use r ok in \<open>auto simp: br3_split_def br3_items_def br3_ok_def mset_set_empty_iff mset_set_parts times_parts\<close>)
    next
      case c2
      show ?thesis by (rule do_split_halves [OF ok(3) c2(3) h(3) fp])
        (use c2 ok in \<open>auto simp: br3_split_def br3_items_def br3_ok_def mset_set_empty_iff mset_set_parts times_parts\<close>)
    next
      case p
      show ?thesis by (rule do_split_halves [OF ok(1) p(3) h(3) fp])
        (use p ok in \<open>auto simp: br3_split_def br3_items_def br3_ok_def mset_set_empty_iff mset_set_parts times_parts\<close>)
    qed
  qed
  show ?thesis by unfold_locales (use main in \<open>auto simp: br3_ops_def br3_empty_def br3_ok_def br3_items_def mset_set_empty_iff br_empty_items\<close>)
qed

text \<open>The laws hold outright with the exact computation.\<close>

interpretation exact1: range_concept "br_ops exact_part" br_ok br1_items
  by (rule br_range_concept [OF exact_part_good])

interpretation exact2: range_concept "br2_ops exact_part" br2_ok br2_items
  by (rule br2_range_concept [OF exact_part_good])

interpretation exact3: range_concept "br3_ops exact_part" br3_ok br3_items
  by (rule br3_range_concept [OF exact_part_good])

end
