(* ===== verification/Partitioner.thy ===== *)
theory Partitioner
  imports Blocked_Range
begin

text \<open>
  \<^verbatim>\<open>include/tbb/partitioner.h\<close> and \<^verbatim>\<open>include/tbb/parallel_for.h\<close>: the pool of ranges, the simple, auto and
  affinity partitioners, and the tasks of a parallel loop under any schedule. What the tasks learn from
  the scheduler (was this task stolen, was its sibling stolen, is the group cancelled) is arbitrary.
\<close>

section \<open>The range pool\<close>

type_synonym depth_t = "8 word"

definition max_capacity :: nat where "max_capacity = 8"

record 'r range_vector =
  my_head :: nat
  my_tail :: nat
  my_size :: nat
  my_depth :: "depth_t list"
  my_pool :: "'r option list"

definition range_vector_new :: "'r \<Rightarrow> 'r range_vector" where
  "range_vector_new elem = \<lparr>my_head = 0, my_tail = 0, my_size = 1, my_depth = replicate max_capacity 0,
     my_pool = (replicate max_capacity None)[0 := Some elem]\<rparr>"

definition pool_back :: "'r range_vector \<Rightarrow> 'r" where
  "pool_back v = the (my_pool v ! my_head v)"

definition pool_front :: "'r range_vector \<Rightarrow> 'r" where
  "pool_front v = the (my_pool v ! my_tail v)"

definition front_depth :: "'r range_vector \<Rightarrow> depth_t" where
  "front_depth v = my_depth v ! my_tail v"

definition back_depth :: "'r range_vector \<Rightarrow> depth_t" where
  "back_depth v = my_depth v ! my_head v"

definition pool_is_divisible :: "'r range_ops \<Rightarrow> depth_t \<Rightarrow> 'r range_vector \<Rightarrow> bool" where
  "pool_is_divisible ops max_depth v \<longleftrightarrow> back_depth v < max_depth \<and> range_is_divisible ops (pool_back v)"

text \<open>The old range moves to the new head and is split there; the second part stays behind it.\<close>

definition split_back :: "'r range_ops \<Rightarrow> 'r range_vector \<Rightarrow> 'r range_vector" where
  "split_back ops v =
     (let prev = my_head v; head = (my_head v + 1) mod max_capacity;
          (first, second) = range_split ops Split (the (my_pool v ! prev));
          d = my_depth v ! prev + 1
      in v\<lparr>my_head := head, my_pool := (my_pool v)[head := Some first, prev := Some second],
           my_depth := (my_depth v)[prev := d, head := d], my_size := my_size v + 1\<rparr>)"

function split_to_fill :: "'r range_ops \<Rightarrow> depth_t \<Rightarrow> 'r range_vector \<Rightarrow> 'r range_vector" where
  "split_to_fill ops max_depth v =
     (if my_size v < max_capacity \<and> pool_is_divisible ops max_depth v
      then split_to_fill ops max_depth (split_back ops v) else v)"
  by pat_completeness auto

termination
  by (relation "measure (\<lambda>(ops, d, v). max_capacity - my_size v)") (auto simp: split_back_def Let_def split: prod.splits)

declare split_to_fill.simps [simp del]

definition pool_pop_back :: "'r range_vector \<Rightarrow> 'r range_vector" where
  "pool_pop_back v = v\<lparr>my_pool := (my_pool v)[my_head v := None], my_size := my_size v - 1,
     my_head := (my_head v + max_capacity - 1) mod max_capacity\<rparr>"

definition pool_pop_front :: "'r range_vector \<Rightarrow> 'r range_vector" where
  "pool_pop_front v = v\<lparr>my_pool := (my_pool v)[my_tail v := None], my_size := my_size v - 1,
     my_tail := (my_tail v + 1) mod max_capacity\<rparr>"

section \<open>Partitions\<close>

definition factor_power :: nat where "factor_power = 4"

definition factor :: nat where "factor = 2 ^ factor_power"

definition demand_depth_add :: depth_t where "demand_depth_add = 2"

definition init_depth :: depth_t where "init_depth = 5"

definition initial_chunks :: nat where "initial_chunks = 2"

datatype delay = start | pass

record adaptive_partition =
  my_divisor :: nat
  my_max_depth :: depth_t

record affinity_partition = adaptive_partition +
  slot_begin :: nat
  my_delay :: delay

datatype partition = Simple_partition | Auto_partition adaptive_partition | Affinity_partition affinity_partition

text \<open>\<open>threads\<close> is the number of threads of the arena: \<^verbatim>\<open>get_initial_auto_partitioner_divisor()\<close> is four times it.\<close>

definition initial_divisor :: "nat \<Rightarrow> nat" where
  "initial_divisor threads = 4 * threads div 4"

definition auto_new :: "nat \<Rightarrow> adaptive_partition" where
  "auto_new threads = \<lparr>my_divisor = initial_divisor threads * initial_chunks, my_max_depth = init_depth\<rparr>"

definition affinity_new :: "nat \<Rightarrow> affinity_partition" where
  "affinity_new threads = \<lparr>my_divisor = initial_divisor threads * factor, my_max_depth = of_nat factor_power + 1,
     slot_begin = 0, my_delay = start\<rparr>"

text \<open>\<^verbatim>\<open>__TBB_Log2\<close>.\<close>

fun log2_floor :: "nat \<Rightarrow> nat" where
  "log2_floor n = (if n < 2 then 0 else 1 + log2_floor (n div 2))"

declare log2_floor.simps [simp del]

text \<open>The splitting constructor: the old partition afterwards, and the new one.\<close>

definition adaptive_split :: "('z) adaptive_partition_scheme \<Rightarrow> ('z) adaptive_partition_scheme \<times> ('z) adaptive_partition_scheme" where
  "adaptive_split src =
     (let d = my_divisor src div 2; old = my_divisor src - d
      in (src\<lparr>my_divisor := old,
            my_max_depth := (if d \<noteq> 0 then my_max_depth src + of_nat (log2_floor (old div d)) else my_max_depth src)\<rparr>,
          src\<lparr>my_divisor := d\<rparr>))"

text \<open>The share of the new partition in whole groups of \<open>factor\<close> slots, leaving at least one group on each side.\<close>

definition round_divisor :: "nat \<Rightarrow> nat \<Rightarrow> nat" where
  "round_divisor d total_divisor =
     (let d1 = (d + factor div 2) div factor * factor
      in if d1 = 0 then factor else if d1 = total_divisor then total_divisor - factor else d1)"

text \<open>\<open>fdiv n left right\<close> is the share of the divisor, computed in floating point.\<close>

definition affinity_split :: "(nat \<Rightarrow> nat \<Rightarrow> nat \<Rightarrow> nat) \<Rightarrow> split_obj \<Rightarrow> affinity_partition \<Rightarrow> affinity_partition \<times> affinity_partition" where
  "affinity_split fdiv s p =
     (case s of
        Split \<Rightarrow> (let (p', c) = adaptive_split p
                  in (p', c\<lparr>slot_begin := slot_begin p + my_divisor p', my_delay := pass\<rparr>))
      | Proportional left right \<Rightarrow>
          (let d = fdiv (my_divisor p) left right; old = my_divisor p - d; total_divisor = d + old;
               d2 = round_divisor d total_divisor; old' = total_divisor - d2
           in (p\<lparr>my_divisor := old'\<rparr>, p\<lparr>my_divisor := d2, slot_begin := slot_begin p + old', my_delay := start\<rparr>)))"

fun partition_split :: "(nat \<Rightarrow> nat \<Rightarrow> nat \<Rightarrow> nat) \<Rightarrow> split_obj \<Rightarrow> partition \<Rightarrow> partition \<times> partition" where
  "partition_split fdiv s Simple_partition = (Simple_partition, Simple_partition)"
| "partition_split fdiv s (Auto_partition p) = map_prod Auto_partition Auto_partition (adaptive_split p)"
| "partition_split fdiv s (Affinity_partition p) = map_prod Affinity_partition Affinity_partition (affinity_split fdiv s p)"

text \<open>\<open>stolen\<close>: the task is stolen and its parent still waits for the left task.\<close>

definition adaptive_being_stolen :: "bool \<Rightarrow> 'z adaptive_partition_scheme \<Rightarrow> 'z adaptive_partition_scheme" where
  "adaptive_being_stolen stolen p =
     (if my_divisor p = 0
      then (if stolen
            then p\<lparr>my_divisor := 1, my_max_depth := (if my_max_depth p = 0 then my_max_depth p + 1 else my_max_depth p) + demand_depth_add\<rparr>
            else p\<lparr>my_divisor := 1\<rparr>)
      else p)"

fun check_being_stolen :: "bool \<Rightarrow> partition \<Rightarrow> partition" where
  "check_being_stolen stolen Simple_partition = Simple_partition"
| "check_being_stolen stolen (Auto_partition p) = Auto_partition (adaptive_being_stolen stolen p)"
| "check_being_stolen stolen (Affinity_partition p) = Affinity_partition (adaptive_being_stolen stolen p)"

definition auto_is_divisible :: "adaptive_partition \<Rightarrow> bool \<times> adaptive_partition" where
  "auto_is_divisible p =
     (if my_divisor p > 1 then (True, p)
      else if my_divisor p \<noteq> 0 \<and> my_max_depth p \<noteq> 0
           then (True, p\<lparr>my_max_depth := my_max_depth p - 1, my_divisor := 0\<rparr>)
           else (False, p))"

fun is_divisible :: "partition \<Rightarrow> bool \<times> partition" where
  "is_divisible Simple_partition = (True, Simple_partition)"
| "is_divisible (Auto_partition p) = map_prod id Auto_partition (auto_is_divisible p)"
| "is_divisible (Affinity_partition p) = (my_divisor p > factor, Affinity_partition p)"

text \<open>\<open>peer\<close>: the right sibling was stolen.\<close>

definition auto_check_for_demand :: "bool \<Rightarrow> adaptive_partition \<Rightarrow> bool \<times> adaptive_partition" where
  "auto_check_for_demand peer p =
     (if peer then (True, p\<lparr>my_max_depth := my_max_depth p + demand_depth_add\<rparr>) else (False, p))"

definition affinity_check_for_demand :: "bool \<Rightarrow> affinity_partition \<Rightarrow> bool \<times> affinity_partition" where
  "affinity_check_for_demand peer p =
     (case my_delay p of
        pass \<Rightarrow>
          if my_divisor p > 1 then (True, p)
          else if my_divisor p \<noteq> 0 \<and> my_max_depth p \<noteq> 0 then (True, p\<lparr>my_divisor := 0\<rparr>)
          else if peer then (True, p\<lparr>my_max_depth := my_max_depth p + demand_depth_add\<rparr>)
          else (False, p)
      | start \<Rightarrow> (False, p\<lparr>my_delay := pass\<rparr>))"

fun check_for_demand :: "bool \<Rightarrow> partition \<Rightarrow> bool \<times> partition" where
  "check_for_demand peer Simple_partition = (False, Simple_partition)"
| "check_for_demand peer (Auto_partition p) = map_prod id Auto_partition (auto_check_for_demand peer p)"
| "check_for_demand peer (Affinity_partition p) = map_prod id Affinity_partition (affinity_check_for_demand peer p)"

fun max_depth :: "partition \<Rightarrow> depth_t" where
  "max_depth Simple_partition = 0"
| "max_depth (Auto_partition p) = my_max_depth p"
| "max_depth (Affinity_partition p) = my_max_depth p"

fun align_depth :: "depth_t \<Rightarrow> partition \<Rightarrow> partition" where
  "align_depth base Simple_partition = Simple_partition"
| "align_depth base (Auto_partition p) = Auto_partition (p\<lparr>my_max_depth := my_max_depth p - base\<rparr>)"
| "align_depth base (Affinity_partition p) = Affinity_partition (p\<lparr>my_max_depth := my_max_depth p - base\<rparr>)"

text \<open>\<open>in_proportion\<close>: the range type supports proportional splits.\<close>

fun get_split :: "bool \<Rightarrow> partition \<Rightarrow> split_obj" where
  "get_split in_proportion Simple_partition = Split"
| "get_split in_proportion (Auto_partition p) = Split"
| "get_split in_proportion (Affinity_partition p) =
     (if in_proportion
      then (let size = my_divisor p div factor; right = size div 2; left = size - right in Proportional left right)
      else Proportional 1 1)"

text \<open>
  \<^verbatim>\<open>set_affinity\<close> on the shared array of affinities, in which 0 is no affinity; \<open>None\<close> when the slot is
  outside the array.
\<close>

fun set_affinity :: "partition \<Rightarrow> nat list \<Rightarrow> nat list option" where
  "set_affinity (Affinity_partition p) my_array =
     (if my_divisor p = 0 then Some my_array
      else if slot_begin p < length my_array
           then Some (if my_array ! slot_begin p = 0 then my_array[slot_begin p := slot_begin p div factor + 1] else my_array)
           else None)"
| "set_affinity _ my_array = Some my_array"

fun note_affinity :: "nat \<Rightarrow> partition \<Rightarrow> nat list \<Rightarrow> nat list option" where
  "note_affinity aid (Affinity_partition p) my_array =
     (if my_divisor p = 0 then Some my_array
      else if slot_begin p < length my_array then Some (my_array[slot_begin p := aid]) else None)"
| "note_affinity aid _ my_array = Some my_array"

text \<open>\<^verbatim>\<open>affinity_partitioner_base_v3::resize\<close>: the array keeps its values when the size stays the same.\<close>

definition resize :: "nat \<Rightarrow> nat \<Rightarrow> nat list \<Rightarrow> nat list" where
  "resize threads fac my_array =
     (let new_size = (if fac \<noteq> 0 then fac * threads else 0)
      in if new_size \<noteq> length my_array then replicate new_size 0 else my_array)"

section \<open>The tasks of a parallel loop\<close>

datatype 'r phase = Spawned | Dividing | Pool "'r range_vector" | Finished

record 'r start_for =
  my_range :: 'r
  my_partition :: partition
  phase :: "'r phase"

record 'r loop_system =
  tasks :: "'r start_for list"
  bodies :: "'r list"
  affinities :: "nat list"
  cancelled :: bool

text \<open>
  \<^verbatim>\<open>offer_work\<close>: the new task gets the range \<open>r\<close> and its part of the partition; \<open>base\<close> is the depth of a range from
  the pool.
\<close>

definition offer_work :: "partition \<Rightarrow> 'r \<Rightarrow> depth_t option \<Rightarrow> nat list \<Rightarrow> ('r start_for \<times> nat list) option" where
  "offer_work child r base affs =
     (case set_affinity child affs of None \<Rightarrow> None
      | Some affs' \<Rightarrow> Some (\<lparr>my_range = r,
          my_partition = (case base of None \<Rightarrow> child | Some d \<Rightarrow> align_depth d child), phase = Spawned\<rparr>, affs'))"

text \<open>One round of the loop over the range pool.\<close>

datatype 'r round_result = Offer 'r depth_t | Again | Run 'r

definition pool_round :: "'r range_ops \<Rightarrow> bool \<Rightarrow> 'r range_vector \<Rightarrow> partition \<Rightarrow> 'r range_vector \<times> partition \<times> 'r round_result" where
  "pool_round ops peer v p =
     (let v1 = split_to_fill ops (max_depth p) v; (demand, p1) = check_for_demand peer p
      in if demand \<and> my_size v1 > 1 then (pool_pop_front v1, p1, Offer (pool_front v1) (front_depth v1))
         else if demand \<and> pool_is_divisible ops (max_depth p1) v1 then (v1, p1, Again)
         else (pool_pop_back v1, p1, Run (pool_back v1)))"

definition next_phase :: "bool \<Rightarrow> 'r range_vector \<Rightarrow> 'r phase" where
  "next_phase cancel v = (if my_size v \<noteq> 0 \<and> \<not> cancel then Pool v else Finished)"

text \<open>
  Each step runs one task up to the next call of the scheduler or the body. \<open>begin_task\<close>: a thread whose
  affinity id differs from the task's (\<open>aid\<close>) notes it, then \<^verbatim>\<open>execute\<close> begins; tasks of a cancelled group are
  dropped instead.
\<close>

inductive loop_step :: "'r range_ops \<Rightarrow> bool \<Rightarrow> (nat \<Rightarrow> nat \<Rightarrow> nat \<Rightarrow> nat) \<Rightarrow> 'r loop_system \<Rightarrow> 'r loop_system \<Rightarrow> bool"
  for ops in_proportion fdiv where
  begin_task: "i < length (tasks s) \<Longrightarrow> t = tasks s ! i \<Longrightarrow> phase t = Spawned \<Longrightarrow> \<not> cancelled s \<Longrightarrow>
    (case aid of None \<Rightarrow> Some (affinities s) | Some a \<Rightarrow> note_affinity a (my_partition t) (affinities s)) = Some affs \<Longrightarrow>
    loop_step ops in_proportion fdiv s
      (s\<lparr>tasks := (tasks s)[i := t\<lparr>my_partition := check_being_stolen stolen (my_partition t), phase := Dividing\<rparr>],
         affinities := affs\<rparr>)"
| drop_task: "i < length (tasks s) \<Longrightarrow> t = tasks s ! i \<Longrightarrow> phase t = Spawned \<Longrightarrow> cancelled s \<Longrightarrow>
    loop_step ops in_proportion fdiv s (s\<lparr>tasks := (tasks s)[i := t\<lparr>phase := Finished\<rparr>]\<rparr>)"
| divide: "i < length (tasks s) \<Longrightarrow> t = tasks s ! i \<Longrightarrow> phase t = Dividing \<Longrightarrow>
    range_is_divisible ops (my_range t) \<Longrightarrow> is_divisible (my_partition t) = (True, p) \<Longrightarrow>
    range_split ops (get_split in_proportion p) (my_range t) = (left, right) \<Longrightarrow>
    partition_split fdiv (get_split in_proportion p) p = (p', child) \<Longrightarrow>
    offer_work child right None (affinities s) = Some (new, affs) \<Longrightarrow>
    loop_step ops in_proportion fdiv s
      (s\<lparr>tasks := (tasks s)[i := t\<lparr>my_range := left, my_partition := p'\<rparr>] @ [new], affinities := affs\<rparr>)"
| divided: "i < length (tasks s) \<Longrightarrow> t = tasks s ! i \<Longrightarrow> phase t = Dividing \<Longrightarrow>
    (divisible, p) = (if range_is_divisible ops (my_range t) then is_divisible (my_partition t) else (False, my_partition t)) \<Longrightarrow>
    \<not> divisible \<Longrightarrow>
    loop_step ops in_proportion fdiv s
      (if \<not> range_is_divisible ops (my_range t) \<or> max_depth p = 0
       then s\<lparr>tasks := (tasks s)[i := t\<lparr>my_partition := p, phase := Finished\<rparr>], bodies := bodies s @ [my_range t]\<rparr>
       else s\<lparr>tasks := (tasks s)[i := t\<lparr>my_partition := p, phase := Pool (range_vector_new (my_range t))\<rparr>]\<rparr>)"
| pool_offer: "i < length (tasks s) \<Longrightarrow> t = tasks s ! i \<Longrightarrow> phase t = Pool v \<Longrightarrow>
    pool_round ops peer v (my_partition t) = (v', p, Offer r d) \<Longrightarrow>
    partition_split fdiv Split p = (p', child) \<Longrightarrow> offer_work child r (Some d) (affinities s) = Some (new, affs) \<Longrightarrow>
    loop_step ops in_proportion fdiv s
      (s\<lparr>tasks := (tasks s)[i := t\<lparr>my_partition := p', phase := next_phase (cancelled s) v'\<rparr>] @ [new], affinities := affs\<rparr>)"
| pool_again: "i < length (tasks s) \<Longrightarrow> t = tasks s ! i \<Longrightarrow> phase t = Pool v \<Longrightarrow>
    pool_round ops peer v (my_partition t) = (v', p, Again) \<Longrightarrow>
    loop_step ops in_proportion fdiv s
      (s\<lparr>tasks := (tasks s)[i := t\<lparr>my_partition := p, phase := next_phase (cancelled s) v'\<rparr>]\<rparr>)"
| pool_run: "i < length (tasks s) \<Longrightarrow> t = tasks s ! i \<Longrightarrow> phase t = Pool v \<Longrightarrow>
    pool_round ops peer v (my_partition t) = (v', p, Run r) \<Longrightarrow>
    loop_step ops in_proportion fdiv s
      (s\<lparr>tasks := (tasks s)[i := t\<lparr>my_partition := p, phase := next_phase (cancelled s) v'\<rparr>], bodies := bodies s @ [r]\<rparr>)"
| cancel: "\<not> cancelled s \<Longrightarrow> loop_step ops in_proportion fdiv s (s\<lparr>cancelled := True\<rparr>)"

text \<open>\<^verbatim>\<open>start_for::run\<close>: nothing for an empty range, otherwise the root task. The affinity array comes from an earlier loop.\<close>

definition loop_run :: "'r range_ops \<Rightarrow> nat \<Rightarrow> partition \<Rightarrow> nat list \<Rightarrow> 'r \<Rightarrow> 'r loop_system" where
  "loop_run ops threads p my_array r =
     \<lparr>tasks = (if range_empty ops r then [] else [\<lparr>my_range = r, my_partition = p, phase = Spawned\<rparr>]), bodies = [],
      affinities = (case p of Affinity_partition _ \<Rightarrow> resize threads factor my_array | _ \<Rightarrow> my_array), cancelled = False\<rparr>"

text \<open>The partition objects that the three partitioners create for the root task.\<close>

definition root_partitions :: "nat \<Rightarrow> partition set" where
  "root_partitions threads = {Simple_partition, Auto_partition (auto_new threads), Affinity_partition (affinity_new threads)}"

inductive loop_steps :: "'r range_ops \<Rightarrow> bool \<Rightarrow> (nat \<Rightarrow> nat \<Rightarrow> nat \<Rightarrow> nat) \<Rightarrow> nat \<Rightarrow> 'r loop_system \<Rightarrow> 'r loop_system \<Rightarrow> bool"
  for ops in_proportion fdiv where
  none: "loop_steps ops in_proportion fdiv 0 s s"
| more: "loop_steps ops in_proportion fdiv n s t \<Longrightarrow> loop_step ops in_proportion fdiv t u \<Longrightarrow>
    loop_steps ops in_proportion fdiv (Suc n) s u"

section \<open>The pool is a list of ranges\<close>

definition ranges :: "'r range_vector \<Rightarrow> 'r list" where
  "ranges v = map (\<lambda>i. the (my_pool v ! ((my_tail v + i) mod max_capacity))) [0..<my_size v]"

definition pool_ok :: "'r range_vector \<Rightarrow> bool" where
  "pool_ok v \<longleftrightarrow> length (my_pool v) = max_capacity \<and> length (my_depth v) = max_capacity \<and> my_size v \<le> max_capacity \<and>
     my_tail v < max_capacity \<and> my_head v < max_capacity \<and>
     (my_head v + 1) mod max_capacity = (my_tail v + my_size v) mod max_capacity"

lemma slot_inj:
  assumes "i < max_capacity" "j < max_capacity" "(t + i) mod max_capacity = (t + j) mod max_capacity"
  shows "i = j"
proof -
  have aux: "i = j" if "i \<le> j" "j < max_capacity" "(t + j) mod max_capacity = (t + i) mod max_capacity" for i j
  proof -
    have "max_capacity dvd (t + j) - (t + i)" using that(1,3) by (subst mod_eq_dvd_iff_nat [symmetric]) auto
    then have "max_capacity dvd j - i" by simp
    then show ?thesis using that(1,2) by (auto dest!: dvd_imp_le)
  qed
  show ?thesis using aux [of i j] aux [of j i] assms by (cases "i \<le> j") auto
qed

lemma slot_neq: "i < j \<Longrightarrow> j < max_capacity \<Longrightarrow> (t + i) mod max_capacity \<noteq> (t + j) mod max_capacity"
  using slot_inj [of i j t] by auto

lemma head_slot:
  assumes "pool_ok v" "0 < my_size v"
  shows "my_head v = (my_tail v + (my_size v - 1)) mod max_capacity"
proof -
  have m: "0 < max_capacity" "my_head v < max_capacity" using assms(1) by (auto simp: pool_ok_def)
  have "(1 + my_head v) mod max_capacity = (my_tail v + my_size v) mod max_capacity"
    using assms(1) by (simp add: pool_ok_def)
  also have "my_tail v + my_size v = 1 + (my_tail v + (my_size v - 1))" using assms(2) by simp
  finally have "(1 + my_head v) mod max_capacity = (1 + (my_tail v + (my_size v - 1)) mod max_capacity) mod max_capacity"
    by (simp only: mod_add_right_eq)
  then show ?thesis using slot_inj [OF m(2) mod_less_divisor [OF m(1)]] by blast
qed

lemma length_ranges [simp]: "length (ranges v) = my_size v"
  by (simp add: ranges_def)

lemma nth_ranges: "i < my_size v \<Longrightarrow> ranges v ! i = the (my_pool v ! ((my_tail v + i) mod max_capacity))"
  by (simp add: ranges_def)

lemma pool_back_last: "pool_ok v \<Longrightarrow> 0 < my_size v \<Longrightarrow> pool_back v = last (ranges v)"
  using last_conv_nth [of "ranges v"] by (auto simp: pool_back_def head_slot nth_ranges simp flip: length_greater_0_conv)

lemma pool_front_hd: "pool_ok v \<Longrightarrow> 0 < my_size v \<Longrightarrow> pool_front v = hd (ranges v)"
  using hd_conv_nth [of "ranges v"] by (auto simp: pool_front_def nth_ranges pool_ok_def simp flip: length_greater_0_conv)

lemma new_ranges: "pool_ok (range_vector_new r)" "ranges (range_vector_new r) = [r]" "my_size (range_vector_new r) = 1"
  by (simp_all add: pool_ok_def range_vector_new_def ranges_def max_capacity_def)

lemma pop_back_ranges:
  assumes ok: "pool_ok v" and ne: "0 < my_size v"
  shows "pool_ok (pool_pop_back v)" "ranges (pool_pop_back v) = butlast (ranges v)"
proof -
  note h = head_slot [OF assms]
  have m: "my_head v < max_capacity" using ok by (simp add: pool_ok_def)
  have "((my_head v + max_capacity - 1) mod max_capacity + 1) mod max_capacity = (my_head v + max_capacity - 1 + 1) mod max_capacity"
    by (rule mod_add_left_eq)
  also have "\<dots> = (my_head v + max_capacity) mod max_capacity" using m by simp
  also have "\<dots> = my_head v" using m by simp
  finally have "((my_head v + max_capacity - 1) mod max_capacity + 1) mod max_capacity = (my_tail v + (my_size v - 1)) mod max_capacity"
    using h by simp
  moreover have "my_size v - 1 \<le> max_capacity" using ok by (simp add: pool_ok_def le_diff_conv)
  ultimately show "pool_ok (pool_pop_back v)" using ok ne m by (simp add: pool_ok_def pool_pop_back_def)
  show "ranges (pool_pop_back v) = butlast (ranges v)"
  proof (rule nth_equalityI)
    fix i assume i: "i < length (ranges (pool_pop_back v))"
    then have "i < my_size v - 1" by (simp add: pool_pop_back_def)
    moreover have "(my_tail v + i) mod max_capacity \<noteq> my_head v"
      unfolding h by (rule slot_neq) (use calculation ok ne in \<open>simp_all add: pool_ok_def less_eq_Suc_le\<close>)
    ultimately show "ranges (pool_pop_back v) ! i = butlast (ranges v) ! i"
      by (simp add: nth_ranges nth_butlast pool_pop_back_def)
  qed (simp add: pool_pop_back_def)
qed

lemma pop_front_ranges:
  assumes ok: "pool_ok v" and ne: "0 < my_size v"
  shows "pool_ok (pool_pop_front v)" "ranges (pool_pop_front v) = tl (ranges v)"
proof -
  have "((my_tail v + 1) mod max_capacity + (my_size v - 1)) mod max_capacity = (my_tail v + 1 + (my_size v - 1)) mod max_capacity"
    by (rule mod_add_left_eq)
  moreover have "my_size v - 1 \<le> max_capacity" using ok by (simp add: pool_ok_def le_diff_conv)
  ultimately show "pool_ok (pool_pop_front v)" using ok ne by (simp add: pool_ok_def pool_pop_front_def)
  show "ranges (pool_pop_front v) = tl (ranges v)"
  proof (rule nth_equalityI)
    fix i assume i: "i < length (ranges (pool_pop_front v))"
    then have "Suc i < my_size v" by (simp add: pool_pop_front_def)
    moreover have "(my_tail v + Suc i) mod max_capacity \<noteq> my_tail v"
      using slot_inj [of "Suc i" 0 "my_tail v"] calculation ok unfolding pool_ok_def by auto
    ultimately show "ranges (pool_pop_front v) ! i = tl (ranges v) ! i"
      by (simp add: nth_ranges nth_tl pool_pop_front_def mod_Suc_eq mod_add_left_eq)
  qed (simp add: pool_pop_front_def)
qed

lemma split_back_ranges:
  assumes ok: "pool_ok v" and ne: "0 < my_size v" "my_size v < max_capacity"
    and sp: "range_split ops Split (last (ranges v)) = (first, second)"
  shows "pool_ok (split_back ops v)" "ranges (split_back ops v) = butlast (ranges v) @ [second, first]"
    "my_size (split_back ops v) = Suc (my_size v)"
proof -
  note h = head_slot [OF ok ne(1)]
  have sp': "range_split ops Split (the (my_pool v ! my_head v)) = (first, second)"
    using sp pool_back_last [OF ok ne(1)] by (simp add: pool_back_def)
  define hd' where "hd' = (my_head v + 1) mod max_capacity"
  have hd': "hd' = (my_tail v + my_size v) mod max_capacity" using ok by (simp add: hd'_def pool_ok_def)
  have pool: "my_pool (split_back ops v) = (my_pool v)[hd' := Some first, my_head v := Some second]"
    "my_tail (split_back ops v) = my_tail v" "my_head (split_back ops v) = hd'"
    "length (my_depth (split_back ops v)) = length (my_depth v)" "my_size (split_back ops v) = Suc (my_size v)"
    using sp' by (simp_all add: split_back_def Let_def hd'_def)
  show "my_size (split_back ops v) = Suc (my_size v)" by (rule pool(5))
  have "(hd' + 1) mod max_capacity = (my_tail v + Suc (my_size v)) mod max_capacity"
    unfolding hd' by (simp add: mod_Suc_eq)
  moreover have "hd' < max_capacity" by (simp add: hd' max_capacity_def)
  ultimately show "pool_ok (split_back ops v)" using ok ne(2) unfolding pool_ok_def pool by simp
  have ne_hd: "hd' \<noteq> my_head v"
    using slot_inj [of "my_size v" "my_size v - 1" "my_tail v"] ne unfolding h hd' by (metis Suc_pred' diff_less less_trans n_not_Suc_n zero_less_one)
  have l: "length (my_pool v) = max_capacity" "hd' < max_capacity" "my_head v < max_capacity"
    using ok by (auto simp: pool_ok_def hd' max_capacity_def)
  show "ranges (split_back ops v) = butlast (ranges v) @ [second, first]"
  proof (rule nth_equalityI)
    show "length (ranges (split_back ops v)) = length (butlast (ranges v) @ [second, first])" using pool ne by simp
    fix i assume i: "i < length (ranges (split_back ops v))"
    then have i: "i < Suc (my_size v)" using pool by simp
    consider "i < my_size v - 1" | "i = my_size v - 1" | "i = my_size v" using i by linarith
    then show "ranges (split_back ops v) ! i = (butlast (ranges v) @ [second, first]) ! i"
    proof cases
      case 1
      have "(my_tail v + i) mod max_capacity \<noteq> my_head v" "(my_tail v + i) mod max_capacity \<noteq> hd'"
        using slot_neq [of i "my_size v - 1" "my_tail v"] slot_neq [of i "my_size v" "my_tail v"] 1 ne unfolding h hd' by simp_all
      then show ?thesis using 1 by (simp add: nth_ranges pool nth_append nth_butlast)
    next
      case 2
      then have "(my_tail v + i) mod max_capacity = my_head v" using h by simp
      then show ?thesis using 2 ne l by (simp add: nth_ranges pool nth_append)
    next
      case 3
      then have "(my_tail v + i) mod max_capacity = hd'" using hd' by simp
      moreover have "\<not> my_size v < my_size v - Suc 0" by simp
      ultimately show ?thesis using 3 ne ne_hd l by (simp add: nth_ranges pool nth_append)
    qed
  qed
qed

section \<open>Partitions stay within their slots\<close>

text \<open>
  An affinity partition with more than one slot owns the \<open>my_divisor\<close> slots from \<open>slot_begin\<close> on; while it may
  still be split in proportion it owns whole groups of \<open>factor\<close> slots.
\<close>

fun partition_ok :: "nat \<Rightarrow> partition \<Rightarrow> bool" where
  "partition_ok n (Affinity_partition p) \<longleftrightarrow> (factor < my_divisor p \<longrightarrow> factor dvd my_divisor p) \<and>
     (slot_begin p + my_divisor p \<le> n \<or> my_divisor p \<le> 1)"
| "partition_ok n _ = True"

fun fresh :: "nat \<Rightarrow> partition \<Rightarrow> bool" where
  "fresh n (Affinity_partition p) \<longleftrightarrow> (my_divisor p \<noteq> 0 \<longrightarrow> slot_begin p < n)"
| "fresh n _ = True"

fun narrow :: "partition \<Rightarrow> bool" where
  "narrow (Affinity_partition p) \<longleftrightarrow> my_divisor p \<le> factor"
| "narrow _ = True"

lemma factor_eq [simp]: "factor = 16"
  by (simp add: factor_def factor_power_def)

lemma root_partition_ok:
  "p \<in> root_partitions threads \<Longrightarrow> partition_ok (factor * threads) p \<and> fresh (factor * threads) p"
  by (auto simp: root_partitions_def affinity_new_def initial_divisor_def)

lemma being_stolen_ok: "partition_ok n p \<Longrightarrow> partition_ok n (check_being_stolen stolen p)"
  by (cases p) (auto simp: adaptive_being_stolen_def)

lemma align_ok: "partition_ok n (align_depth d p) = partition_ok n p" "fresh n (align_depth d p) = fresh n p"
  by (cases p; simp)+

lemma is_divisible_ok:
  "is_divisible p = (b, q) \<Longrightarrow> partition_ok n p \<Longrightarrow> partition_ok n q"
  "is_divisible p = (False, q) \<Longrightarrow> narrow q"
  by (cases p; auto simp: auto_is_divisible_def split: if_splits)+

lemma affinity_demand_fields:
  "affinity_check_for_demand peer p = (b, q) \<Longrightarrow> slot_begin q = slot_begin p \<and> (my_divisor q = my_divisor p \<or> my_divisor q = 0)"
  by (auto simp: affinity_check_for_demand_def split: if_splits delay.splits)

lemma demand_ok:
  assumes "check_for_demand peer p = (b, q)"
  shows "partition_ok n p \<Longrightarrow> partition_ok n q" "narrow p \<Longrightarrow> narrow q"
proof -
  have "(partition_ok n p \<longrightarrow> partition_ok n q) \<and> (narrow p \<longrightarrow> narrow q)"
  proof (cases p)
    case (Affinity_partition a)
    obtain b' a' where a': "affinity_check_for_demand peer a = (b', a')" by fastforce
    then have q: "q = Affinity_partition a'" using assms Affinity_partition by simp
    show ?thesis using affinity_demand_fields [OF a'] by (auto simp: Affinity_partition q)
  qed (use assms in \<open>auto simp: auto_check_for_demand_def split: if_splits\<close>)
  then show "partition_ok n p \<Longrightarrow> partition_ok n q" "narrow p \<Longrightarrow> narrow q" by blast+
qed

lemma split_narrow:
  assumes "partition_ok n p" "narrow p" "partition_split fdiv Split p = (q, c)"
  shows "partition_ok n q \<and> narrow q \<and> partition_ok n c \<and> fresh n c"
  using assms by (cases p) (auto simp: affinity_split_def adaptive_split_def Let_def)

lemma round_divisor_ok:
  assumes "d \<le> 16 * k" "2 \<le> k"
  shows "16 dvd round_divisor d (16 * k)" "16 \<le> round_divisor d (16 * k)" "round_divisor d (16 * k) + 16 \<le> 16 * k"
proof -
  define m where "m = (d + 8) div 16"
  have m: "m \<le> k" using assms(1) by (simp add: m_def)
  have r: "round_divisor d (16 * k) = (if m = 0 then 16 else if m = k then 16 * k - 16 else 16 * m)"
    by (simp add: round_divisor_def m_def Let_def)
  show "16 dvd round_divisor d (16 * k)" "16 \<le> round_divisor d (16 * k)" "round_divisor d (16 * k) + 16 \<le> 16 * k"
    using m assms(2) by (auto simp: r dvd_diff_nat)
qed

lemma split_wide:
  assumes fdiv: "\<And>n l r. fdiv n l r \<le> n" and p: "partition_ok n p" "is_divisible p0 = (True, p)"
    and sp: "partition_split fdiv (get_split in_proportion p) p = (q, c)"
  shows "partition_ok n q \<and> partition_ok n c \<and> fresh n c"
proof (cases p)
  case (Affinity_partition a)
  have big: "factor < my_divisor a" using p(2) Affinity_partition by (cases p0) (auto simp: auto_is_divisible_def split: if_splits)
  obtain k where k: "my_divisor a = 16 * k" using p(1) big Affinity_partition by (auto elim: dvdE)
  have k2: "2 \<le> k" using big k by simp
  obtain l r where lr: "get_split in_proportion p = Proportional l r"
    using Affinity_partition by (cases in_proportion) (simp_all add: Let_def)
  let ?d = "fdiv (16 * k) l r"
  have sp': "partition_split fdiv (Proportional l r) (Affinity_partition a) = (q, c)"
    using sp unfolding lr unfolding Affinity_partition .
  have d: "?d \<le> 16 * k" by (rule fdiv)
  then have dd: "?d + (16 * k - ?d) = 16 * k" by simp
  define d2 where "d2 = round_divisor ?d (16 * k)"
  have q: "q = Affinity_partition (a\<lparr>my_divisor := 16 * k - d2\<rparr>)"
    "c = Affinity_partition (a\<lparr>my_divisor := d2, slot_begin := slot_begin a + (16 * k - d2), my_delay := start\<rparr>)"
    using sp' by (simp_all add: affinity_split_def Let_def k dd d2_def)
  note d2 = round_divisor_ok [OF d k2, folded d2_def]
  have "slot_begin a + 16 * k \<le> n" using p(1) big k Affinity_partition by auto
  moreover have "16 dvd 16 * k - d2" using d2(1) by (simp add: dvd_diff_nat)
  moreover have "slot_begin a + (16 * k - d2) < n" "slot_begin a + (16 * k - d2) + d2 \<le> n"
    using calculation(1) d2(2,3) by linarith+
  ultimately show ?thesis using d2 by (simp add: q)
qed (use sp in \<open>auto simp: adaptive_split_def Let_def\<close>)

lemma get_split_good:
  "is_divisible p0 = (True, p) \<Longrightarrow> partition_ok n p \<Longrightarrow> good_split (get_split in_proportion p)"
proof (cases p)
  case (Affinity_partition a)
  assume h: "is_divisible p0 = (True, p)" "partition_ok n p"
  have big: "factor < my_divisor a" using h(1) Affinity_partition by (cases p0) (auto simp: auto_is_divisible_def split: if_splits)
  obtain k where k: "my_divisor a = 16 * k" using h(2) big Affinity_partition by (auto elim: dvdE)
  then have "2 \<le> k" using big by simp
  then have "0 < k div 2 \<and> k div 2 \<le> k - k div 2 \<and> k - k div 2 \<le> 2 * (k div 2)" by linarith
  then show ?thesis using Affinity_partition k by (simp add: Let_def)
qed auto

lemma set_affinity_fresh: "fresh (length affs) p \<Longrightarrow> \<exists>a. set_affinity p affs = Some a \<and> length a = length affs"
  by (cases p) auto

lemma note_affinity_fresh: "fresh (length affs) p \<Longrightarrow> \<exists>a. note_affinity i p affs = Some a \<and> length a = length affs"
  by (cases p) auto

section \<open>One round of the pool loop\<close>

context range_concept
begin

definition good_range :: "'r \<Rightarrow> bool" where
  "good_range r \<longleftrightarrow> ok r \<and> items r \<noteq> {#}"

definition total :: "'r list \<Rightarrow> 'i multiset" where
  "total rs = sum_list (map items rs)"

lemma total_append [simp]: "total (xs @ ys) = total xs + total ys" "total (x # xs) = items x + total xs" "total [] = {#}"
  by (simp_all add: total_def)

definition good_pool :: "'r range_vector \<Rightarrow> bool" where
  "good_pool v \<longleftrightarrow> pool_ok v \<and> 0 < my_size v \<and> (\<forall>r \<in> set (ranges v). good_range r)"

lemma good_pool_new: "good_range r \<Longrightarrow> good_pool (range_vector_new r)"
  by (simp add: good_pool_def new_ranges)

lemma ranges_snoc: "good_pool v \<Longrightarrow> ranges v = butlast (ranges v) @ [pool_back v]"
  using pool_back_last [of v] append_butlast_last_id [of "ranges v"] by (auto simp: good_pool_def simp flip: length_greater_0_conv)

lemma ranges_cons: "good_pool v \<Longrightarrow> ranges v = pool_front v # tl (ranges v)"
  using pool_front_hd [of v] hd_Cons_tl [of "ranges v"] by (auto simp: good_pool_def simp flip: length_greater_0_conv)

lemma split_back_good:
  assumes v: "good_pool v" and d: "my_size v < max_capacity" "pool_is_divisible ops md v"
  shows "good_pool (split_back ops v)" "total (ranges (split_back ops v)) = total (ranges v)"
    "my_size (split_back ops v) = Suc (my_size v)"
proof -
  have ok: "pool_ok v" "0 < my_size v" "\<forall>r \<in> set (ranges v). good_range r" using v by (auto simp: good_pool_def)
  obtain a b where ab: "range_split ops Split (pool_back v) = (a, b)" by fastforce
  note S = split_back_ranges [OF ok(1,2) d(1) ab [unfolded pool_back_last [OF ok(1,2)]]]
  show "my_size (split_back ops v) = Suc (my_size v)" by (rule S(3))
  have g: "good_range (pool_back v)" "\<forall>r \<in> set (butlast (ranges v)). good_range r"
    using ok(3) by (subst (asm) ranges_snoc [OF v], simp)+
  have div: "range_is_divisible ops (pool_back v)" using d(2) by (simp add: pool_is_divisible_def)
  have gab: "good_range a" "good_range b" "items a + items b = items (pool_back v)"
    using split_items [of "pool_back v" Split] split_ok [of "pool_back v" Split] split_nonempty [of "pool_back v" Split] g(1) div ab
    by (auto simp: good_range_def)
  show "good_pool (split_back ops v)" using S ok(2) g(2) gab by (auto simp: good_pool_def)
  have "total (ranges v) = total (butlast (ranges v)) + items (pool_back v)"
    by (subst ranges_snoc [OF v]) simp
  then show "total (ranges (split_back ops v)) = total (ranges v)"
    using S(2) gab(3) by (simp add: ac_simps)
qed

lemma split_to_fill_good:
  "good_pool v \<Longrightarrow> good_pool (split_to_fill ops md v) \<and> total (ranges (split_to_fill ops md v)) = total (ranges v) \<and>
    (my_size (split_to_fill ops md v) = 1 \<longrightarrow> split_to_fill ops md v = v \<and> \<not> pool_is_divisible ops md v) \<and>
    my_size v \<le> my_size (split_to_fill ops md v)"
proof (induction "max_capacity - my_size v" arbitrary: v)
  case (Suc n)
  show ?case
  proof (cases "pool_is_divisible ops md v")
    case True
    have lt: "my_size v < max_capacity" using Suc(2) by simp
    note S = split_back_good [OF Suc.prems lt True]
    have "split_to_fill ops md v = split_to_fill ops md (split_back ops v)"
      using lt True by (subst split_to_fill.simps) simp
    moreover have "n = max_capacity - my_size (split_back ops v)" using Suc(2) S(3) by simp
    note IH = Suc(1) [OF this S(1)]
    moreover have "my_size (split_to_fill ops md (split_back ops v)) \<noteq> 1" "my_size v \<le> my_size (split_to_fill ops md (split_back ops v))"
      using IH S(3) Suc.prems by (auto simp: good_pool_def)
    ultimately show ?thesis using S(2) by simp
  next
    case False
    then show ?thesis using Suc.prems by (simp add: split_to_fill.simps [of ops md v])
  qed
next
  case 0
  then show ?case by (simp add: split_to_fill.simps [of ops md v] good_pool_def max_capacity_def)
qed

lemma pool_round_good:
  assumes v: "good_pool v" and r: "pool_round ops peer v p = (v', p', res)"
  shows "case res of
      Offer x d \<Rightarrow> good_pool v' \<and> good_range x \<and> total (ranges v) = total (ranges v') + items x
    | Again \<Rightarrow> v' = v \<and> my_size v = 1 \<and> \<not> pool_is_divisible ops (max_depth p) v \<and> pool_is_divisible ops (max_depth p') v
    | Run x \<Rightarrow> (my_size v' = 0 \<or> good_pool v') \<and> good_range x \<and> total (ranges v) = total (ranges v') + items x"
    and "p' = snd (check_for_demand peer p)"
proof -
  define v1 where "v1 = split_to_fill ops (max_depth p) v"
  note F = split_to_fill_good [OF v, of "max_depth p", folded v1_def]
  have g: "good_pool v1" "total (ranges v1) = total (ranges v)" using F by auto
  have ok: "pool_ok v1" "0 < my_size v1" "\<forall>r \<in> set (ranges v1). good_range r" using g(1) by (auto simp: good_pool_def)
  obtain demand p1 where d: "check_for_demand peer p = (demand, p1)" by fastforce
  have run: "pool_round ops peer v p = (if demand \<and> my_size v1 > 1 then (pool_pop_front v1, p1, Offer (pool_front v1) (front_depth v1))
         else if demand \<and> pool_is_divisible ops (max_depth p1) v1 then (v1, p1, Again)
         else (pool_pop_back v1, p1, Run (pool_back v1)))"
    by (simp add: pool_round_def v1_def [symmetric] d)
  show "p' = snd (check_for_demand peer p)" using r run d by (auto split: if_splits)
  define fs bs where "fs = tl (ranges v1)" and "bs = butlast (ranges v1)"
  have cs: "ranges v1 = pool_front v1 # fs" "ranges v1 = bs @ [pool_back v1]"
    unfolding fs_def bs_def by (rule ranges_cons [OF g(1)], rule ranges_snoc [OF g(1)])
  have f: "total (ranges v1) = items (pool_front v1) + total (tl (ranges v1))" "good_range (pool_front v1)"
      "\<forall>r \<in> set (tl (ranges v1)). good_range r"
    using ok(3) unfolding fs_def [symmetric] unfolding cs(1) by simp_all
  have b: "total (ranges v1) = total (butlast (ranges v1)) + items (pool_back v1)" "good_range (pool_back v1)"
      "\<forall>r \<in> set (butlast (ranges v1)). good_range r"
    using ok(3) unfolding bs_def [symmetric] unfolding cs(2) by simp_all
  note PF = pop_front_ranges [OF ok(1,2)] and PB = pop_back_ranges [OF ok(1,2)]
  have sz: "my_size (pool_pop_front v1) = my_size v1 - 1" "my_size (pool_pop_back v1) = my_size v1 - 1"
    by (simp_all add: pool_pop_front_def pool_pop_back_def)
  consider (off) "demand" "my_size v1 > 1" | (again) "demand" "my_size v1 = 1" "pool_is_divisible ops (max_depth p1) v1"
    | (run) "\<not> (demand \<and> my_size v1 > 1)" "\<not> (demand \<and> pool_is_divisible ops (max_depth p1) v1)" using ok(2) by linarith
  then show "case res of
      Offer x d \<Rightarrow> good_pool v' \<and> good_range x \<and> total (ranges v) = total (ranges v') + items x
    | Again \<Rightarrow> v' = v \<and> my_size v = 1 \<and> \<not> pool_is_divisible ops (max_depth p) v \<and> pool_is_divisible ops (max_depth p') v
    | Run x \<Rightarrow> (my_size v' = 0 \<or> good_pool v') \<and> good_range x \<and> total (ranges v) = total (ranges v') + items x"
  proof cases
    case off
    then show ?thesis using r run f PF sz g(2) by (auto simp: good_pool_def ac_simps)
  next
    case again
    then show ?thesis using r run F by auto
  next
    case run': run
    then show ?thesis using r run b PB sz g(2) by (auto simp: good_pool_def ac_simps)
  qed
qed

end


section \<open>All tasks of a loop\<close>

locale parallel_loop = range_concept ops ok items
  for ops :: "'r range_ops" and ok :: "'r \<Rightarrow> bool" and items :: "'r \<Rightarrow> 'i multiset" +
  fixes in_proportion :: bool and fdiv :: "nat \<Rightarrow> nat \<Rightarrow> nat \<Rightarrow> nat"
  assumes fdiv: "fdiv n l r \<le> n"
begin

text \<open>The iterations a task still has to run, and its share of the termination measure.\<close>

definition pending :: "'r start_for \<Rightarrow> 'i multiset" where
  "pending t = (case phase t of Finished \<Rightarrow> {#} | Pool v \<Rightarrow> total (ranges v) | _ \<Rightarrow> items (my_range t))"

definition weight :: "'r start_for \<Rightarrow> nat" where
  "weight t = (case phase t of
      Finished \<Rightarrow> 0
    | Spawned \<Rightarrow> 6 * size (pending t) - 2
    | Dividing \<Rightarrow> 6 * size (pending t) - 3
    | Pool v \<Rightarrow> 6 * size (pending t) - 5 + of_bool (my_size v = 1 \<and> \<not> pool_is_divisible ops (max_depth (my_partition t)) v))"

definition task_ok :: "nat \<Rightarrow> 'r start_for \<Rightarrow> bool" where
  "task_ok n t \<longleftrightarrow> partition_ok n (my_partition t) \<and>
     (case phase t of
        Finished \<Rightarrow> True
      | Spawned \<Rightarrow> good_range (my_range t) \<and> fresh n (my_partition t)
      | Dividing \<Rightarrow> good_range (my_range t)
      | Pool v \<Rightarrow> good_pool v \<and> narrow (my_partition t))"

definition all_pending :: "'r start_for list \<Rightarrow> 'i multiset" where
  "all_pending ts = sum_list (map pending ts)"

definition all_weight :: "'r loop_system \<Rightarrow> nat" where
  "all_weight s = sum_list (map weight (tasks s)) + of_bool (\<not> cancelled s)"

text \<open>Every iteration has been run or is pending, once; a cancelled loop may lose some.\<close>

definition loop_inv :: "'i multiset \<Rightarrow> nat \<Rightarrow> 'r loop_system \<Rightarrow> bool" where
  "loop_inv I n s \<longleftrightarrow> length (affinities s) = n \<and> (\<forall>t \<in> set (tasks s). task_ok n t) \<and>
     total (bodies s) + all_pending (tasks s) \<subseteq># I \<and>
     (\<not> cancelled s \<longrightarrow> total (bodies s) + all_pending (tasks s) = I)"

lemma size_pos: "good_range r \<Longrightarrow> 0 < size (items r)"
  by (simp add: good_range_def nonempty_has_size)

lemma good_pool_size: "good_pool v \<Longrightarrow> 0 < size (total (ranges v))"
proof -
  assume v: "good_pool v"
  then obtain r rs where "ranges v = r # rs" "good_range r" unfolding good_pool_def
    using length_ranges [of v] by (cases "ranges v") auto
  then show ?thesis using size_pos [of r] by simp
qed

lemma sum_list_update_nat: "i < length xs \<Longrightarrow> sum_list (map f (xs[i := y])) + f (xs ! i) = sum_list (map f xs) + (f y :: nat)"
  by (induction xs arbitrary: i) (auto split: nat.split)

lemma all_pending_update: "i < length ts \<Longrightarrow> all_pending (ts[i := y]) + pending (ts ! i) = all_pending ts + pending y"
  unfolding all_pending_def
proof (induction ts arbitrary: i)
  case (Cons t ts)
  then show ?case by (cases i) (auto simp: ac_simps)
qed simp

lemma all_pending_snoc: "all_pending (ts @ [t]) = all_pending ts + pending t"
  by (simp add: all_pending_def)

text \<open>
  What a step does to the bookkeeping: task \<open>i\<close> becomes \<open>y\<close>, the tasks \<open>new\<close> appear and the bodies \<open>bs\<close> are run;
  \<open>exact\<close> when no iteration is lost.
\<close>

lemma loop_inv_step:
  assumes inv: "loop_inv I n s" and i: "i < length (tasks s)"
    and s': "tasks s' = (tasks s)[i := y] @ new" "bodies s' = bodies s @ bs" "length (affinities s') = n" "cancelled s' = cancelled s"
    and ok: "task_ok n y" "\<And>t. t \<in> set new \<Longrightarrow> task_ok n t"
    and sub: "pending y + all_pending new + total bs \<subseteq># pending (tasks s ! i)"
    and exact: "\<not> cancelled s \<Longrightarrow> pending y + all_pending new + total bs = pending (tasks s ! i)"
    and less: "weight y + sum_list (map weight new) < weight (tasks s ! i)"
  shows "loop_inv I n s' \<and> all_weight s' < all_weight s"
proof -
  have tasks_ok: "\<forall>t \<in> set (tasks s'). task_ok n t"
    using inv ok s'(1) set_update_subset_insert [of "tasks s" i y] unfolding loop_inv_def by auto
  have u: "all_pending ((tasks s)[i := y]) + pending (tasks s ! i) = all_pending (tasks s) + pending y"
    by (rule all_pending_update [OF i])
  define lost where "lost = pending (tasks s ! i) - (pending y + all_pending new + total bs)"
  have l: "pending (tasks s ! i) = pending y + all_pending new + total bs + lost"
    using sub by (simp add: lost_def)
  have p: "all_pending (tasks s') = all_pending ((tasks s)[i := y]) + all_pending new"
    by (simp add: s'(1) all_pending_def)
  have e: "total (bodies s') + all_pending (tasks s') + lost = total (bodies s) + all_pending (tasks s)"
  proof -
    have "all_pending ((tasks s)[i := y]) + (all_pending new + total bs + lost) + pending y = all_pending (tasks s) + pending y"
      using u unfolding l by (simp add: ac_simps)
    then have "all_pending ((tasks s)[i := y]) + (all_pending new + total bs + lost) = all_pending (tasks s)" by simp
    then show ?thesis unfolding p s'(2) total_append by (simp add: ac_simps)
  qed
  have "total (bodies s) + all_pending (tasks s) \<subseteq># I" using inv by (simp add: loop_inv_def)
  then have "total (bodies s') + all_pending (tasks s') \<subseteq># I"
    unfolding e [symmetric] by (rule subset_mset.order_trans [OF mset_subset_eq_add_left])
  moreover have "total (bodies s') + all_pending (tasks s') = I" if "\<not> cancelled s'"
  proof -
    have "lost = {#}" using exact that s'(4) by (simp add: lost_def)
    then show ?thesis using e inv that s'(4) by (simp add: loop_inv_def)
  qed
  ultimately have "loop_inv I n s'" unfolding loop_inv_def using tasks_ok s'(3) by blast
  moreover have "all_weight s' < all_weight s"
    using sum_list_update_nat [OF i, of weight y] less s'(4) by (simp add: all_weight_def s'(1))
  ultimately show ?thesis ..
qed

text \<open>A task whose pool loop goes on with \<open>v\<close>.\<close>

lemma pool_task:
  assumes "good_pool v" "narrow p" "partition_ok n p"
  shows "task_ok n (t\<lparr>my_partition := p, phase := next_phase c v\<rparr>)"
    "pending (t\<lparr>my_partition := p, phase := next_phase c v\<rparr>) = (if c then {#} else total (ranges v))"
    "weight (t\<lparr>my_partition := p, phase := next_phase c v\<rparr>) \<le> 6 * size (total (ranges v)) - 4"
  using assms good_pool_size [OF assms(1)]
  by (auto simp: task_ok_def pending_def weight_def next_phase_def good_pool_def)

lemma pool_task_done:
  assumes "my_size v = 0" "partition_ok n p"
  shows "task_ok n (t\<lparr>my_partition := p, phase := next_phase c v\<rparr>)"
    "pending (t\<lparr>my_partition := p, phase := next_phase c v\<rparr>) = {#}"
    "weight (t\<lparr>my_partition := p, phase := next_phase c v\<rparr>) = 0"
  using assms by (auto simp: task_ok_def pending_def weight_def next_phase_def)

lemma total_none: "my_size v = 0 \<Longrightarrow> total (ranges v) = {#}"
  by (simp add: ranges_def)

lemma offer_work_ok:
  assumes "offer_work c r d affs = Some (new, affs')" "partition_ok (length affs) c" "fresh (length affs) c" "good_range r"
  shows "task_ok (length affs) new" "pending new = items r" "weight new = 6 * size (items r) - 2" "length affs' = length affs"
proof -
  obtain a where a: "set_affinity c affs = Some a" "length a = length affs" using set_affinity_fresh [OF assms(3)] by blast
  have "new = \<lparr>my_range = r, my_partition = (case d of None \<Rightarrow> c | Some b \<Rightarrow> align_depth b c), phase = Spawned\<rparr>" "affs' = a"
    using assms(1) a by (simp_all add: offer_work_def)
  then show "task_ok (length affs) new" "pending new = items r" "weight new = 6 * size (items r) - 2" "length affs' = length affs"
    using assms(2-4) a(2) by (auto simp: task_ok_def pending_def weight_def align_ok split: option.split)
qed

lemma loop_step_inv:
  assumes "loop_step ops in_proportion fdiv s s'" "loop_inv I n s"
  shows "loop_inv I n s' \<and> all_weight s' < all_weight s"
  using assms(1)
proof (cases rule: loop_step.cases)
  case (begin_task i t aid affs stolen)
  have ok: "task_ok n t" using assms(2) begin_task(2,3) by (auto simp: loop_inv_def)
  have len: "length (affinities s) = n" using assms(2) by (simp add: loop_inv_def)
  have g: "good_range (my_range t)" "fresh n (my_partition t)" "partition_ok n (my_partition t)"
    using ok begin_task(4) by (auto simp: task_ok_def)
  have "length affs = n"
  proof (cases aid)
    case (Some a)
    then show ?thesis using begin_task(6) note_affinity_fresh [of "affinities s" "my_partition t" a] g(2) len by auto
  qed (use begin_task(6) len in auto)
  then show ?thesis
    using begin_task g size_pos [OF g(1)] being_stolen_ok [OF g(3)]
    by (intro loop_inv_step [OF assms(2) begin_task(2), where new = "[]" and bs = "[]"
          and y = "t\<lparr>my_partition := check_being_stolen stolen (my_partition t), phase := Dividing\<rparr>"])
      (auto simp: task_ok_def pending_def weight_def all_pending_def)
next
  case (drop_task i t)
  have ok: "task_ok n t" using assms(2) drop_task(2,3) by (auto simp: loop_inv_def)
  then have g: "good_range (my_range t)" "partition_ok n (my_partition t)" using drop_task(4) by (auto simp: task_ok_def)
  show ?thesis
    using drop_task g size_pos [OF g(1)] assms(2)
    by (intro loop_inv_step [OF assms(2) drop_task(2), where new = "[]" and bs = "[]" and y = "t\<lparr>phase := Finished\<rparr>"])
      (auto simp: task_ok_def pending_def weight_def all_pending_def loop_inv_def)
next
  case (divide i t p left right p' child new affs)
  have ok: "task_ok n t" using assms(2) divide(2,3) by (auto simp: loop_inv_def)
  then have g: "good_range (my_range t)" "partition_ok n (my_partition t)" using divide(4) by (auto simp: task_ok_def)
  have len: "length (affinities s) = n" using assms(2) by (simp add: loop_inv_def)
  note p = is_divisible_ok(1) [OF divide(6) g(2)]
  have gs: "good_split (get_split in_proportion p)" by (rule get_split_good [OF divide(6) p])
  have r: "good_range left" "good_range right" "items left + items right = items (my_range t)"
    using split_items [OF _ divide(5) gs] split_ok [OF _ divide(5) gs] split_nonempty [OF _ divide(5) gs] g(1) divide(7)
    by (auto simp: good_range_def)
  note w = split_wide [OF fdiv p divide(6) divide(8)]
  note o = offer_work_ok [OF divide(9), unfolded len, OF _ _ r(2)]
  have sz: "size (items left) + size (items right) = size (items (my_range t))"
    using arg_cong [OF r(3), of size] by (simp add: size_union)
  let ?y = "t\<lparr>my_range := left, my_partition := p'\<rparr>"
  have y: "task_ok n ?y" "pending ?y = items left" "weight ?y = 6 * size (items left) - 3"
    using r(1) w divide(4) by (simp_all add: task_ok_def pending_def weight_def)
  have tw: "weight t = 6 * size (items (my_range t)) - 3" "pending t = items (my_range t)"
    using divide(4) by (simp_all add: weight_def pending_def)
  show ?thesis
    using divide(1-3) w o y tw sz size_pos [OF r(1)] size_pos [OF r(2)] r(3)
    by (intro loop_inv_step [OF assms(2) divide(2), where new = "[new]" and bs = "[]" and y = ?y])
      (auto simp: all_pending_def)
next
  case (divided i t divisible p)
  have ok: "task_ok n t" using assms(2) divided(2,3) by (auto simp: loop_inv_def)
  then have g: "good_range (my_range t)" "partition_ok n (my_partition t)" using divided(4) by (auto simp: task_ok_def)
  have len: "length (affinities s) = n" using assms(2) by (simp add: loop_inv_def)
  have p: "partition_ok n p" "range_is_divisible ops (my_range t) \<Longrightarrow> narrow p"
  proof -
    have e: "range_is_divisible ops (my_range t) \<Longrightarrow> is_divisible (my_partition t) = (False, p)"
      "\<not> range_is_divisible ops (my_range t) \<Longrightarrow> p = my_partition t"
      using divided(5) [symmetric] divided(6) by simp_all
    show "range_is_divisible ops (my_range t) \<Longrightarrow> narrow p" using is_divisible_ok(2) [OF e(1)] .
    show "partition_ok n p" using is_divisible_ok(1) [OF e(1) g(2)] e(2) g(2)
      by (cases "range_is_divisible ops (my_range t)") simp_all
  qed
  show ?thesis
  proof (cases "\<not> range_is_divisible ops (my_range t) \<or> max_depth p = 0")
    case True
    then show ?thesis
      using divided g p size_pos [OF g(1)] len
      by (intro loop_inv_step [OF assms(2) divided(2), where new = "[]" and bs = "[my_range t]" and y = "t\<lparr>my_partition := p, phase := Finished\<rparr>"])
        (auto simp: task_ok_def pending_def weight_def all_pending_def)
  next
    case False
    then show ?thesis
      using divided g p size_pos [OF g(1)] len good_pool_new [OF g(1)]
      by (intro loop_inv_step [OF assms(2) divided(2), where new = "[]" and bs = "[]"
          and y = "t\<lparr>my_partition := p, phase := Pool (range_vector_new (my_range t))\<rparr>"])
        (auto simp: task_ok_def pending_def weight_def all_pending_def new_ranges)
  qed
next
  case cancel
  then show ?thesis using assms(2) by (auto simp: loop_inv_def all_weight_def)
next
  case (pool_offer i t v peer v' p r d p' child new affs)
  have ok: "task_ok n t" using assms(2) pool_offer(2,3) by (auto simp: loop_inv_def)
  then have g: "good_pool v" "partition_ok n (my_partition t)" "narrow (my_partition t)" using pool_offer(4) by (auto simp: task_ok_def)
  have len: "length (affinities s) = n" using assms(2) by (simp add: loop_inv_def)
  obtain b where d: "check_for_demand peer (my_partition t) = (b, p)"
    using pool_round_good(2) [OF g(1) pool_offer(5)] by (metis prod.collapse)
  have r: "good_pool v'" "good_range r" "total (ranges v) = total (ranges v') + items r"
    using pool_round_good(1) [OF g(1) pool_offer(5)] by auto
  note w = split_narrow [OF demand_ok(1) [OF d g(2)] demand_ok(2) [OF d g(3)] pool_offer(6)]
  note o = offer_work_ok [OF pool_offer(7), unfolded len, OF _ _ r(2)]
  have w': "narrow p'" "partition_ok n p'" using w by simp_all
  note y = pool_task [OF r(1) w', where t = t and c = "cancelled s"]
  have sz: "size (total (ranges v)) = size (total (ranges v')) + size (items r)" by (simp add: r(3))
  have tw: "6 * size (total (ranges v)) - 5 \<le> weight t" "pending t = total (ranges v)"
    using pool_offer(4) by (simp_all add: weight_def pending_def)
  have "weight (t\<lparr>my_partition := p', phase := next_phase (cancelled s) v'\<rparr>) + (6 * size (items r) - 2) < weight t"
    using y(3) tw(1) sz size_pos [OF r(2)] good_pool_size [OF r(1)] by linarith
  then show ?thesis
    using pool_offer(1-3) w o y(1,2) r(3) tw(2)
    by (intro loop_inv_step [OF assms(2) pool_offer(2), where new = "[new]" and bs = "[]" and y = "t\<lparr>my_partition := p', phase := next_phase (cancelled s) v'\<rparr>"])
      (auto simp: all_pending_def)
next
  case (pool_again i t v peer v' p)
  have ok: "task_ok n t" using assms(2) pool_again(2,3) by (auto simp: loop_inv_def)
  then have g: "good_pool v" "partition_ok n (my_partition t)" "narrow (my_partition t)" using pool_again(4) by (auto simp: task_ok_def)
  have len: "length (affinities s) = n" using assms(2) by (simp add: loop_inv_def)
  obtain b where d: "check_for_demand peer (my_partition t) = (b, p)"
    using pool_round_good(2) [OF g(1) pool_again(5)] by (metis prod.collapse)
  have r: "v' = v" "my_size v = 1" "\<not> pool_is_divisible ops (max_depth (my_partition t)) v" "pool_is_divisible ops (max_depth p) v"
    using pool_round_good(1) [OF g(1) pool_again(5)] by auto
  have tw: "weight t = 6 * size (total (ranges v)) - 5 + 1" "pending t = total (ranges v)"
    using pool_again(4) r by (simp_all add: weight_def pending_def)
  note y = pool_task [OF g(1) demand_ok(2) [OF d g(3)] demand_ok(1) [OF d g(2)], where t = t and c = "cancelled s"]
  have yw: "weight (t\<lparr>my_partition := p, phase := next_phase (cancelled s) v\<rparr>) \<le> 6 * size (total (ranges v)) - 5"
    using r by (simp add: weight_def pending_def next_phase_def)
  show ?thesis
    using pool_again(1-3) y(1,2) r(1) tw yw len
    by (intro loop_inv_step [OF assms(2) pool_again(2), where new = "[]" and bs = "[]" and y = "t\<lparr>my_partition := p, phase := next_phase (cancelled s) v'\<rparr>"]) (auto simp: all_pending_def)
next
  case (pool_run i t v peer v' p r)
  have ok: "task_ok n t" using assms(2) pool_run(2,3) by (auto simp: loop_inv_def)
  then have g: "good_pool v" "partition_ok n (my_partition t)" "narrow (my_partition t)" using pool_run(4) by (auto simp: task_ok_def)
  have len: "length (affinities s) = n" using assms(2) by (simp add: loop_inv_def)
  obtain b where d: "check_for_demand peer (my_partition t) = (b, p)"
    using pool_round_good(2) [OF g(1) pool_run(5)] by (metis prod.collapse)
  have r: "my_size v' = 0 \<or> good_pool v'" "good_range r" "total (ranges v) = total (ranges v') + items r"
    using pool_round_good(1) [OF g(1) pool_run(5)] by auto
  have p: "partition_ok n p" "narrow p" by (rule demand_ok(1) [OF d g(2)], rule demand_ok(2) [OF d g(3)])
  have sz: "size (total (ranges v)) = size (total (ranges v')) + size (items r)" by (simp add: r(3))
  have tw: "6 * size (total (ranges v)) - 5 \<le> weight t" "pending t = total (ranges v)"
    using pool_run(4) by (simp_all add: weight_def pending_def)
  show ?thesis
  proof (cases "my_size v' = 0")
    case True
    note y = pool_task_done [OF True p(1), where t = t and c = "cancelled s"]
    show ?thesis
      using pool_run(1-3) y total_none [OF True] sz size_pos [OF r(2)] r(3) tw len
      by (intro loop_inv_step [OF assms(2) pool_run(2), where new = "[]" and bs = "[r]" and y = "t\<lparr>my_partition := p, phase := next_phase (cancelled s) v'\<rparr>"]) (auto simp: all_pending_def)
  next
    case False
    then have gv: "good_pool v'" using r(1) by simp
    note y = pool_task [OF gv p(2,1), where t = t and c = "cancelled s"]
    show ?thesis
      using pool_run(1-3) y sz size_pos [OF r(2)] good_pool_size [OF gv] r(3) tw len
      by (intro loop_inv_step [OF assms(2) pool_run(2), where new = "[]" and bs = "[r]" and y = "t\<lparr>my_partition := p, phase := next_phase (cancelled s) v'\<rparr>"]) (auto simp: all_pending_def)
  qed
qed

end

context parallel_loop
begin

lemma loop_steps_inv:
  "loop_steps ops in_proportion fdiv k s s' \<Longrightarrow> loop_inv I n s \<Longrightarrow> loop_inv I n s' \<and> all_weight s' + k \<le> all_weight s"
proof (induction rule: loop_steps.induct)
  case (more k s t u)
  then show ?case using loop_step_inv [OF more(2), of I n] by fastforce
qed simp

lemma loop_run_inv:
  assumes "ok r" "p \<in> root_partitions threads"
  shows "loop_inv (items r) (length (affinities (loop_run ops threads p arr r))) (loop_run ops threads p arr r)"
    "all_weight (loop_run ops threads p arr r) \<le> 6 * size (items r) + 1"
proof -
  let ?s = "loop_run ops threads p arr r"
  let ?n = "length (affinities ?s)"
  have p: "partition_ok ?n p \<and> fresh ?n p"
    using root_partition_ok [OF assms(2)] assms(2)
    by (auto simp: loop_run_def resize_def root_partitions_def Let_def)
  show "loop_inv (items r) ?n ?s"
    using p assms(1) empty_items [OF assms(1)]
    by (auto simp: loop_inv_def loop_run_def all_pending_def pending_def task_ok_def good_range_def)
  show "all_weight ?s \<le> 6 * size (items r) + 1"
    by (auto simp: all_weight_def loop_run_def weight_def pending_def)
qed

lemma loop_progress:
  assumes inv: "loop_inv I n s" and t: "i < length (tasks s)" "phase (tasks s ! i) \<noteq> Finished"
  shows "\<exists>s'. loop_step ops in_proportion fdiv s s' \<and> tasks s' \<noteq> tasks s"
proof -
  let ?t = "tasks s ! i"
  have ok: "task_ok n ?t" and len: "length (affinities s) = n" using inv t by (auto simp: loop_inv_def)
  have step: "\<exists>s'. loop_step ops in_proportion fdiv s s' \<and> cancelled s' = cancelled s"
  proof (cases "phase ?t")
    case Spawned
    show ?thesis
    proof (cases "cancelled s")
      case True
      show ?thesis by (rule exI, rule conjI, rule loop_step.drop_task [OF t(1) refl Spawned True]) simp
    next
      case False
      show ?thesis by (rule exI, rule conjI, rule loop_step.begin_task [OF t(1) refl Spawned False, where aid = None and stolen = False]) simp_all
    qed
  next
    case Dividing
    then have g: "good_range (my_range ?t)" "partition_ok n (my_partition ?t)" using ok by (auto simp: task_ok_def)
    obtain b q where bq: "is_divisible (my_partition ?t) = (b, q)" by fastforce
    show ?thesis
    proof (cases "range_is_divisible ops (my_range ?t) \<and> b")
      case True
      obtain left right where lr: "range_split ops (get_split in_proportion q) (my_range ?t) = (left, right)" by fastforce
      obtain q' c where c: "partition_split fdiv (get_split in_proportion q) q = (q', c)" by fastforce
      have bt: "is_divisible (my_partition ?t) = (True, q)" using bq True by simp
      have "fresh n c" using split_wide [OF fdiv is_divisible_ok(1) [OF bq g(2)] bt c] by simp
      then obtain a where "set_affinity c (affinities s) = Some a" using set_affinity_fresh [of "affinities s" c] len by blast
      then obtain new affs where o: "offer_work c right None (affinities s) = Some (new, affs)" by (simp add: offer_work_def)
      show ?thesis by (rule exI, rule conjI, rule loop_step.divide [OF t(1) refl Dividing conjunct1 [OF True] bt lr c o]) simp
    next
      case False
      obtain d p where dp: "(d, p) = (if range_is_divisible ops (my_range ?t) then is_divisible (my_partition ?t) else (False, my_partition ?t))"
        by (metis prod.exhaust)
      have nd: "\<not> d" using dp bq False by (auto split: if_splits)
      show ?thesis by (rule exI, rule conjI, rule loop_step.divided [OF t(1) refl Dividing dp nd]) simp
    qed
  next
    case (Pool v)
    then have g: "good_pool v" "partition_ok n (my_partition ?t)" "narrow (my_partition ?t)" using ok by (auto simp: task_ok_def)
    obtain v' p res where r: "pool_round ops False v (my_partition ?t) = (v', p, res)" by (metis prod.exhaust)
    show ?thesis
    proof (cases res)
      case (Offer x d)
      obtain b where dm: "check_for_demand False (my_partition ?t) = (b, p)"
        using pool_round_good(2) [OF g(1) r] by (metis prod.collapse)
      obtain q' c where c: "partition_split fdiv Split p = (q', c)" by fastforce
      have "fresh n c" using split_narrow [OF demand_ok(1) [OF dm g(2)] demand_ok(2) [OF dm g(3)] c] by simp
      then obtain a where "set_affinity c (affinities s) = Some a" using set_affinity_fresh [of "affinities s" c] len by blast
      then obtain new affs where o: "offer_work c x (Some d) (affinities s) = Some (new, affs)" by (simp add: offer_work_def)
      show ?thesis by (rule exI, rule conjI, rule loop_step.pool_offer [OF t(1) refl Pool r [unfolded Offer] c o]) simp
    next
      case Again
      show ?thesis by (rule exI, rule conjI, rule loop_step.pool_again [OF t(1) refl Pool r [unfolded Again]]) simp
    next
      case (Run x)
      show ?thesis by (rule exI, rule conjI, rule loop_step.pool_run [OF t(1) refl Pool r [unfolded Run]]) simp
    qed
  qed (use t in simp)
  then obtain s' where s': "loop_step ops in_proportion fdiv s s'" "cancelled s' = cancelled s" by blast
  have "all_weight s' < all_weight s" using loop_step_inv [OF s'(1) inv] by simp
  then have "tasks s' \<noteq> tasks s" using s'(2) by (auto simp: all_weight_def)
  then show ?thesis using s'(1) by blast
qed

lemma covers:
  assumes "ok r" and "p \<in> root_partitions threads"
    and run: "loop_steps ops in_proportion fdiv k (loop_run ops threads p arr r) s"
  shows "sum_list (map items (bodies s)) \<subseteq># items r" "k \<le> 6 * size (items r) + 1"
    "\<not> cancelled s \<Longrightarrow> phase ` set (tasks s) \<subseteq> {Finished} \<Longrightarrow> sum_list (map items (bodies s)) = items r"
    "loop_inv (items r) (length (affinities (loop_run ops threads p arr r))) s"
proof -
  note I = loop_steps_inv [OF run loop_run_inv(1) [OF assms(1,2)]]
  show "k \<le> 6 * size (items r) + 1" using I loop_run_inv(2) [OF assms(1,2), of arr] by linarith
  show inv: "loop_inv (items r) (length (affinities (loop_run ops threads p arr r))) s" using I by blast
  have "total (bodies s) \<subseteq># total (bodies s) + all_pending (tasks s)" by simp
  also have "\<dots> \<subseteq># items r" using inv by (simp add: loop_inv_def)
  finally show "sum_list (map items (bodies s)) \<subseteq># items r" by (simp add: total_def)
  assume c: "\<not> cancelled s" and f: "phase ` set (tasks s) \<subseteq> {Finished}"
  have "all_pending ts = {#}" if "phase ` set ts \<subseteq> {Finished}" for ts
    using that by (induction ts) (auto simp: all_pending_def pending_def)
  then show "sum_list (map items (bodies s)) = items r" using inv c f by (simp add: loop_inv_def total_def)
qed

lemma never_stuck:
  assumes "ok r" and "p \<in> root_partitions threads"
    and run: "loop_steps ops in_proportion fdiv k (loop_run ops threads p arr r) s"
    and "i < length (tasks s)" and "phase (tasks s ! i) \<noteq> Finished"
  shows "\<exists>s'. loop_step ops in_proportion fdiv s s' \<and> tasks s' \<noteq> tasks s"
  by (rule loop_progress [OF covers(4) [OF assms(1-3)] assms(4,5)])

lemma slots_in_bounds:
  assumes "ok r" and "p \<in> root_partitions threads"
    and run: "loop_steps ops in_proportion fdiv k (loop_run ops threads p arr r) s"
    and t: "t \<in> set (tasks s)" "phase t = Spawned"
  shows "fresh (length (affinities (loop_run ops threads p arr r))) (my_partition t)"
    "length (affinities s) = length (affinities (loop_run ops threads p arr r))"
  using covers(4) [OF assms(1-3)] t by (auto simp: loop_inv_def task_ok_def)

end

text \<open>The laws hold for blocked ranges and the exact computations.\<close>

definition exact_fdiv :: "nat \<Rightarrow> nat \<Rightarrow> nat \<Rightarrow> nat" where
  "exact_fdiv n l r = n * r div (l + r)"

lemma exact_fdiv_le: "exact_fdiv n l r \<le> n"
proof -
  have "n * r div (l + r) \<le> n * (l + r) div (l + r)" by (rule div_le_mono) simp
  also have "\<dots> \<le> n" by (cases "l + r = 0") simp_all
  finally show ?thesis by (simp add: exact_fdiv_def)
qed


interpretation loop1: parallel_loop "br_ops exact_part" br_ok br1_items True exact_fdiv
  by unfold_locales (rule exact_fdiv_le)

interpretation loop3: parallel_loop "br3_ops exact_part" br3_ok br3_items True exact_fdiv
  by unfold_locales (rule exact_fdiv_le)

section \<open>Properties\<close>

text \<open>
  Splitting a divisible blocked range in two or three dimensions, in halves or in proportion, gives
  two nonempty ranges whose iterations are exactly those of the original, each once: the side that the
  comparison of the aspect ratios picks is always divisible.
\<close>

theorem blocked_range_split_partitions:
  assumes "good_fpart fpart" and "good_split s" and "br3_ok r" and "br3_is_divisible r"
    and "br2_ok q" and "br2_is_divisible q"
  shows "br3_items (fst (br3_split fpart s r)) + br3_items (snd (br3_split fpart s r)) = br3_items r \<and>
    br3_items (fst (br3_split fpart s r)) \<noteq> {#} \<and> br3_items (snd (br3_split fpart s r)) \<noteq> {#} \<and>
    br2_items (fst (br2_split fpart s q)) + br2_items (snd (br2_split fpart s q)) = br2_items q \<and>
    br2_items (fst (br2_split fpart s q)) \<noteq> {#} \<and> br2_items (snd (br2_split fpart s q)) \<noteq> {#}"
  using range_concept.split_items [OF br3_range_concept [OF assms(1)] assms(3) _ assms(2)]
    range_concept.split_nonempty [OF br3_range_concept [OF assms(1)] assms(3) _ assms(2)]
    range_concept.split_items [OF br2_range_concept [OF assms(1)] assms(5) _ assms(2)]
    range_concept.split_nonempty [OF br2_range_concept [OF assms(1)] assms(5) _ assms(2)] assms(4,6)
  by (simp add: br3_ops_def br2_ops_def)

theorem blocked_range_split_partitions_witness:
  "let r = \<lparr>my_pages3 = \<lparr>my_end = 4, my_begin = 0, my_grainsize = 1\<rparr>, my_rows3 = \<lparr>my_end = 3, my_begin = 1, my_grainsize = 1\<rparr>,
       my_cols3 = \<lparr>my_end = 9, my_begin = 5, my_grainsize = 2\<rparr>\<rparr>
   in br3_items (fst (br3_split exact_part (Proportional 2 1) r)) + br3_items (snd (br3_split exact_part (Proportional 2 1) r)) = br3_items r"
proof -
  let ?a = "\<lparr>my_end = 4, my_begin = 0, my_grainsize = 1\<rparr>" and ?b = "\<lparr>my_end = 3, my_begin = 1, my_grainsize = 1\<rparr>"
    and ?c = "\<lparr>my_end = 9, my_begin = 5, my_grainsize = 2\<rparr>"
  have ok: "br3_ok \<lparr>my_pages3 = ?a, my_rows3 = ?b, my_cols3 = ?c\<rparr>" "br2_ok \<lparr>my_rows = ?a, my_cols = ?b\<rparr>"
    by (simp_all add: br3_ok_def br2_ok_def br_ok_def br_items_def)
  have d: "br3_is_divisible \<lparr>my_pages3 = ?a, my_rows3 = ?b, my_cols3 = ?c\<rparr>" "br2_is_divisible \<lparr>my_rows = ?a, my_cols = ?b\<rparr>"
    by (simp_all add: br3_is_divisible_def br2_is_divisible_def br_is_divisible_def br_size_def)
  show ?thesis
    using blocked_range_split_partitions [OF exact_part_good _ ok(1) d(1) ok(2) d(2), of "Proportional 2 1"] by (simp add: Let_def)
qed

text \<open>
  C3: a parallel loop runs each iteration exactly once, whatever the partitioner, the number of threads,
  the schedule and the stealing: no iteration is ever run twice, when all tasks have finished without
  a cancellation every iteration has been run, and any execution takes at most six steps per iteration
  (plus one), so the loop terminates.
\<close>

theorem parallel_for_covers_range:
  assumes "range_concept ops ok items" and "\<forall>n l r. fdiv n l r \<le> n" and "ok r" and "p \<in> root_partitions threads"
    and "loop_steps ops in_proportion fdiv k (loop_run ops threads p arr r) s"
  shows "sum_list (map items (bodies s)) \<subseteq># items r \<and> k \<le> 6 * size (items r) + 1 \<and>
    (\<not> cancelled s \<and> phase ` set (tasks s) \<subseteq> {Finished} \<longrightarrow> sum_list (map items (bodies s)) = items r)"
proof -
  have l: "parallel_loop ops ok items fdiv" using assms(1,2) by (simp add: parallel_loop_def parallel_loop_axioms_def)
  show ?thesis using parallel_loop.covers [OF l assms(3-5)] by blast
qed

theorem parallel_for_covers_range_witness:
  "let r = \<lparr>my_end = 9, my_begin = 4, my_grainsize = 5\<rparr>; ops = br_ops exact_part; s0 = loop_run ops 2 Simple_partition [] r;
       s1 = s0\<lparr>tasks := [\<lparr>my_range = r, my_partition = Simple_partition, phase = Dividing\<rparr>]\<rparr>;
       s2 = s1\<lparr>tasks := [\<lparr>my_range = r, my_partition = Simple_partition, phase = Finished\<rparr>], bodies := [r]\<rparr>
   in loop_steps ops True exact_fdiv 2 s0 s2 \<and> sum_list (map br1_items (bodies s2)) = br1_items r"
proof -
  let ?r = "\<lparr>my_end = 9, my_begin = 4, my_grainsize = 5\<rparr> :: blocked_range"
  let ?ops = "br_ops exact_part"
  let ?s0 = "loop_run ?ops 2 Simple_partition [] ?r"
  let ?t1 = "\<lparr>my_range = ?r, my_partition = Simple_partition, phase = Dividing\<rparr>"
  let ?s1 = "?s0\<lparr>tasks := [?t1]\<rparr>"
  let ?s2 = "?s1\<lparr>tasks := [\<lparr>my_range = ?r, my_partition = Simple_partition, phase = Finished\<rparr>], bodies := [?r]\<rparr>"
  have f: "tasks ?s0 = [\<lparr>my_range = ?r, my_partition = Simple_partition, phase = Spawned\<rparr>]" "bodies ?s0 = []" "\<not> cancelled ?s0"
    by (simp_all add: loop_run_def br_ops_def br_empty_def)
  have "loop_step ?ops True exact_fdiv ?s0
      (?s0\<lparr>tasks := (tasks ?s0)[0 := \<lparr>my_range = ?r, my_partition = Simple_partition, phase = Spawned\<rparr>
         \<lparr>my_partition := check_being_stolen False (my_partition \<lparr>my_range = ?r, my_partition = Simple_partition, phase = Spawned\<rparr>),
          phase := Dividing\<rparr>], affinities := affinities ?s0\<rparr>)"
    by (rule loop_step.begin_task [where aid = None]) (simp_all add: f)
  then have 1: "loop_step ?ops True exact_fdiv ?s0 ?s1" by (simp add: f)
  have nd: "\<not> range_is_divisible ?ops ?r" by (simp add: br_ops_def br_is_divisible_def br_size_def)
  have "loop_step ?ops True exact_fdiv ?s1
      (if \<not> range_is_divisible ?ops (my_range ?t1) \<or> max_depth Simple_partition = 0
       then ?s1\<lparr>tasks := (tasks ?s1)[0 := ?t1\<lparr>my_partition := Simple_partition, phase := Finished\<rparr>], bodies := bodies ?s1 @ [my_range ?t1]\<rparr>
       else ?s1\<lparr>tasks := (tasks ?s1)[0 := ?t1\<lparr>my_partition := Simple_partition, phase := Pool (range_vector_new (my_range ?t1))\<rparr>]\<rparr>)"
    by (rule loop_step.divided [where divisible = False]) (simp_all add: nd)
  then have 2: "loop_step ?ops True exact_fdiv ?s1 ?s2" by (simp add: f nd)
  have run: "loop_steps ?ops True exact_fdiv 2 ?s0 ?s2"
    using loop_steps.more [OF loop_steps.more [OF loop_steps.none 1] 2] by (simp add: numeral_2_eq_2)
  have ok: "br_ok ?r" by (simp add: br_ok_def)
  have p: "Simple_partition \<in> root_partitions 2" by (simp add: root_partitions_def)
  have "sum_list (map br1_items (bodies ?s2)) = br1_items ?r"
    using parallel_for_covers_range [OF br_range_concept [OF exact_part_good] _ ok p run] exact_fdiv_le f(3) by simp
  then show ?thesis using run by (simp add: Let_def)
qed

text \<open>
  C35: a parallel loop never gets stuck: while a task is unfinished some step changes the tasks, and the
  affinity slots that a spawned task sets or notes lie inside the shared array of
  \<open>factor\<close> slots per thread.
\<close>

theorem parallel_for_never_stuck:
  assumes "range_concept ops ok items" and "\<forall>n l r. fdiv n l r \<le> n" and "ok r" and "p \<in> root_partitions threads"
    and "loop_steps ops in_proportion fdiv k (loop_run ops threads p arr r) s"
    and "i < length (tasks s)" and "phase (tasks s ! i) \<noteq> Finished"
  shows "(\<exists>s'. loop_step ops in_proportion fdiv s s' \<and> tasks s' \<noteq> tasks s) \<and>
    (phase (tasks s ! i) = Spawned \<longrightarrow> note_affinity a (my_partition (tasks s ! i)) (affinities s) \<noteq> None)"
proof -
  have l: "parallel_loop ops ok items fdiv" using assms(1,2) by (simp add: parallel_loop_def parallel_loop_axioms_def)
  show ?thesis
    using parallel_loop.never_stuck [OF l assms(3-7)] parallel_loop.slots_in_bounds [OF l assms(3-5) nth_mem [OF assms(6)]]
      note_affinity_fresh [of "affinities s" "my_partition (tasks s ! i)" a] by force
qed

theorem parallel_for_never_stuck_witness:
  "\<exists>s'. loop_step (br_ops exact_part) True exact_fdiv
     (loop_run (br_ops exact_part) 2 (Affinity_partition (affinity_new 2)) [] \<lparr>my_end = 9, my_begin = 4, my_grainsize = 1\<rparr>) s'"
proof -
  let ?r = "\<lparr>my_end = 9, my_begin = 4, my_grainsize = 1\<rparr> :: blocked_range"
  let ?s = "loop_run (br_ops exact_part) 2 (Affinity_partition (affinity_new 2)) [] ?r"
  have h: "\<forall>n l r. exact_fdiv n l r \<le> n" "br_ok ?r" "Affinity_partition (affinity_new 2) \<in> root_partitions 2"
    "0 < length (tasks ?s)" "phase (tasks ?s ! 0) \<noteq> Finished"
    using exact_fdiv_le by (simp_all add: br_ok_def root_partitions_def loop_run_def br_ops_def br_empty_def)
  show ?thesis
    using parallel_for_never_stuck [OF br_range_concept [OF exact_part_good] h(1-3) loop_steps.none h(4,5)] by blast
qed

end
