(* ===== verification/Reduce_Tasks.thy ===== *)
theory Reduce_Tasks
  imports Partitioner
begin

text \<open>
  \<^verbatim>\<open>include/tbb/parallel_reduce.h\<close>: the tasks of \<^verbatim>\<open>parallel_reduce\<close>. They divide their ranges as the tasks of
  a loop do (one task of \<^verbatim>\<open>Partitioner\<close> at a time, \<open>task_move\<close>), but their bodies accumulate: a finish task
  stands above each divided task, and a right child that starts before its left sibling has ended splits
  a body of its own, which the finish task joins later. The tree of tasks and the table of bodies are the
  state; a step takes any task that may run. The locales state what the user's range and body promise;
  the invariant says which iterations each body has accumulated, in order.

  The address of a body is a number: 0 is the user's, the others are the \<^verbatim>\<open>zombie_space\<close> of a finish task.
  The splitting constructor of a body may run while the original is used (the Body requirements of the
  source ask for it), so a right child begins in one step. Cancellation is not modelled here.
\<close>

section \<open>Ranges with an order\<close>

text \<open>The iterations of a range in their order; a split keeps it.\<close>

locale ordered_range =
  fixes ops :: "'r range_ops" and ok :: "'r \<Rightarrow> bool" and sq :: "'r \<Rightarrow> 'i list"
  assumes split_sq: "ok r \<Longrightarrow> range_is_divisible ops r \<Longrightarrow> good_split s \<Longrightarrow>
      sq (fst (range_split ops s r)) @ sq (snd (range_split ops s r)) = sq r"
    and split_seq_ok: "ok r \<Longrightarrow> range_is_divisible ops r \<Longrightarrow> good_split s \<Longrightarrow>
      ok (fst (range_split ops s r)) \<and> ok (snd (range_split ops s r))"
    and split_sq_nonempty: "ok r \<Longrightarrow> range_is_divisible ops r \<Longrightarrow> good_split s \<Longrightarrow>
      sq (fst (range_split ops s r)) \<noteq> [] \<and> sq (snd (range_split ops s r)) \<noteq> []"
    and empty_sq: "ok r \<Longrightarrow> range_empty ops r \<longleftrightarrow> sq r = []"

sublocale ordered_range \<subseteq> range_concept ops ok "\<lambda>r. mset (sq r)"
proof
  fix r s assume h: "ok r" "range_is_divisible ops r" "good_split s"
  show "mset (sq (fst (range_split ops s r))) + mset (sq (snd (range_split ops s r))) = mset (sq r)"
    using arg_cong [OF split_sq [OF h], of mset] by simp
  show "ok (fst (range_split ops s r)) \<and> ok (snd (range_split ops s r))" by (rule split_seq_ok [OF h])
  show "mset (sq (fst (range_split ops s r))) \<noteq> {#} \<and> mset (sq (snd (range_split ops s r))) \<noteq> {#}"
    using split_sq_nonempty [OF h] by simp
next
  fix r assume "ok r"
  then show "range_empty ops r \<longleftrightarrow> mset (sq r) = {#}" using empty_sq by simp
qed

locale ordered_loop = ordered_range ops ok sq
  for ops :: "'r range_ops" and ok :: "'r \<Rightarrow> bool" and sq :: "'r \<Rightarrow> 'i list" +
  fixes in_proportion :: bool and fdiv :: "nat \<Rightarrow> nat \<Rightarrow> nat \<Rightarrow> nat"
  assumes fdiv_le: "fdiv n l r \<le> n"

sublocale ordered_loop \<subseteq> parallel_loop ops ok "\<lambda>r. mset (sq r)" in_proportion fdiv
  by unfold_locales (rule fdiv_le)

section \<open>One task\<close>

text \<open>What one task does to itself and to the affinity slots, the tasks it offers and the subranges it runs.\<close>

definition task_move :: "'r range_ops \<Rightarrow> bool \<Rightarrow> (nat \<Rightarrow> nat \<Rightarrow> nat \<Rightarrow> nat) \<Rightarrow> 'r start_for \<Rightarrow> nat list \<Rightarrow>
    'r start_for \<Rightarrow> 'r start_for list \<Rightarrow> 'r list \<Rightarrow> nat list \<Rightarrow> bool" where
  "task_move ops in_proportion fdiv t affs t' new runs affs' \<longleftrightarrow> loop_step ops in_proportion fdiv
     \<lparr>tasks = [t], bodies = [], affinities = affs, cancelled = False\<rparr>
     \<lparr>tasks = t' # new, bodies = runs, affinities = affs', cancelled = False\<rparr>"

context ordered_loop
begin

definition in_order :: "'r range_vector \<Rightarrow> 'i list" where
  "in_order v = concat (map sq (rev (ranges v)))"

definition to_run :: "'r start_for \<Rightarrow> 'i list" where
  "to_run t = (case phase t of Finished \<Rightarrow> [] | Pool v \<Rightarrow> in_order v | _ \<Rightarrow> sq (my_range t))"

lemma split_back_in_order:
  assumes v: "good_pool v" and d: "my_size v < max_capacity" "pool_is_divisible ops md v"
  shows "in_order (split_back ops v) = in_order v"
proof -
  have ok: "pool_ok v" "0 < my_size v" "\<forall>r \<in> set (ranges v). good_range r" using v by (auto simp: good_pool_def)
  obtain a b where ab: "range_split ops Split (pool_back v) = (a, b)" by fastforce
  note S = split_back_ranges [OF ok(1,2) d(1) ab [unfolded pool_back_last [OF ok(1,2)]]]
  define bs where "bs = butlast (ranges v)"
  have r: "ranges v = bs @ [pool_back v]" unfolding bs_def by (rule ranges_snoc [OF v])
  have "ok (pool_back v)" using ok(3) r by (simp add: good_range_def)
  then have "sq a @ sq b = sq (pool_back v)"
    using split_sq [of "pool_back v" Split] d(2) ab by (simp add: pool_is_divisible_def)
  moreover have "ranges (split_back ops v) = bs @ [b, a]" using S(2) by (simp add: bs_def)
  ultimately show ?thesis using r by (simp add: in_order_def)
qed

lemma split_to_fill_in_order: "good_pool v \<Longrightarrow> in_order (split_to_fill ops md v) = in_order v"
proof (induction "max_capacity - my_size v" arbitrary: v)
  case (Suc n)
  have lt: "my_size v < max_capacity" using Suc(2) by simp
  show ?case
  proof (cases "pool_is_divisible ops md v")
    case True
    note S = split_back_good [OF Suc.prems lt True]
    have "n = max_capacity - my_size (split_back ops v)" using Suc(2) S(3) by simp
    then show ?thesis using Suc(1) [OF _ S(1)] split_back_in_order [OF Suc.prems lt True] lt True
      by (simp add: split_to_fill.simps [of ops md v])
  qed (simp add: split_to_fill.simps [of ops md v])
next
  case 0
  then show ?case by (simp add: split_to_fill.simps [of ops md v])
qed

lemma pool_round_in_order:
  assumes v: "good_pool v" and r: "pool_round ops peer v p = (v', p', res)"
  shows "case res of Offer x d \<Rightarrow> in_order v = in_order v' @ sq x | Again \<Rightarrow> in_order v' = in_order v
    | Run x \<Rightarrow> in_order v = sq x @ in_order v'"
proof -
  define v1 where "v1 = split_to_fill ops (max_depth p) v"
  have g: "good_pool v1" using split_to_fill_good [OF v] by (simp add: v1_def)
  have o: "in_order v1 = in_order v" unfolding v1_def by (rule split_to_fill_in_order [OF v])
  have ok: "pool_ok v1" "0 < my_size v1" using g by (auto simp: good_pool_def)
  define fs bs where "fs = tl (ranges v1)" and "bs = butlast (ranges v1)"
  have c: "ranges v1 = pool_front v1 # fs" "ranges v1 = bs @ [pool_back v1]"
    unfolding fs_def bs_def by (rule ranges_cons [OF g], rule ranges_snoc [OF g])
  have f: "in_order v1 = in_order (pool_pop_front v1) @ sq (pool_front v1)"
    using pop_front_ranges(2) [OF ok] unfolding fs_def [symmetric] by (simp add: in_order_def c(1))
  have b: "in_order v1 = sq (pool_back v1) @ in_order (pool_pop_back v1)"
    using pop_back_ranges(2) [OF ok] unfolding bs_def [symmetric] by (simp add: in_order_def c(2))
  show ?thesis using r f b o
    by (auto simp: pool_round_def v1_def [symmetric] split: prod.splits if_splits)
qed

lemma pool_to_run:
  "good_pool v \<Longrightarrow> to_run (t\<lparr>my_partition := p, phase := next_phase False v\<rparr>) = in_order v"
  "my_size v = 0 \<Longrightarrow> to_run (t\<lparr>my_partition := p, phase := next_phase False v\<rparr>) = in_order v"
  by (auto simp: to_run_def next_phase_def good_pool_def in_order_def ranges_def)

lemma offer_work_to_run: "offer_work c r d affs = Some (new, affs') \<Longrightarrow> to_run new = sq r \<and> phase new = Spawned"
  by (auto simp: offer_work_def to_run_def split: option.splits)

lemma task_move_ok:
  assumes m: "task_move ops in_proportion fdiv t affs t' new runs affs'" and ok: "task_ok (length affs) t"
  shows "task_ok (length affs) t'" "\<forall>u\<in>set new. task_ok (length affs) u" "length affs' = length affs"
    "weight t' + sum_list (map weight new) < weight t"
proof -
  let ?s = "\<lparr>tasks = [t], bodies = [], affinities = affs, cancelled = False\<rparr>"
  have "loop_inv (pending t) (length affs) ?s" using ok by (simp add: loop_inv_def all_pending_def)
  from loop_step_inv [OF m [unfolded task_move_def] this]
  show "task_ok (length affs) t'" "\<forall>u\<in>set new. task_ok (length affs) u" "length affs' = length affs"
    "weight t' + sum_list (map weight new) < weight t"
    by (simp_all add: loop_inv_def all_weight_def)
qed

lemma task_move_order:
  assumes m: "task_move ops in_proportion fdiv t affs t' new runs affs'" and ok: "task_ok (length affs) t"
  shows "concat (map sq runs) @ to_run t' @ concat (map to_run new) = to_run t \<and>
    (new = [] \<or> (runs = [] \<and> (\<exists>u. new = [u] \<and> phase u = Spawned))) \<and>
    (phase t = Spawned \<longrightarrow> new = [] \<and> runs = []) \<and> phase t' \<noteq> Spawned \<and> (\<forall>x\<in>set runs. ok x)"
  using m [unfolded task_move_def]
proof (cases rule: loop_step.cases)
  case (divide i u p left right p' child nw as)
  then have u: "u = t" "phase t = Dividing" "i = 0" by auto
  have g: "ok (my_range t)" "partition_ok (length affs) (my_partition t)"
    using ok u(2) by (auto simp: task_ok_def good_range_def)
  have gs: "good_split (get_split in_proportion p)"
    using get_split_good [OF divide(6)] is_divisible_ok(1) [OF divide(6)] g(2) u by blast
  have "sq left @ sq right = sq (my_range t)"
    using split_sq [OF g(1) _ gs] divide(5,7) u by auto
  then show ?thesis using divide u offer_work_to_run [OF divide(9)] by (auto simp: to_run_def)
next
  case (pool_offer i u v peer v' p r d p' child nw as)
  then have u: "u = t" "phase t = Pool v" "i = 0" by auto
  have g: "good_pool v" using ok u(2) by (auto simp: task_ok_def)
  have "good_pool v'" using pool_round_good(1) [OF g pool_offer(5)] by simp
  then have tr: "to_run (t\<lparr>my_partition := p', phase := next_phase False v'\<rparr>) = in_order v'"
    by (rule pool_to_run(1))
  have e: "t' = t\<lparr>my_partition := p', phase := next_phase False v'\<rparr>" "new = [nw]" "runs = []"
    using pool_offer u by auto
  have "phase t' \<noteq> Spawned" unfolding e by (simp add: next_phase_def)
  moreover have "to_run t = in_order v" using u by (simp add: to_run_def)
  ultimately show ?thesis using offer_work_to_run [OF pool_offer(7)] pool_round_in_order [OF g pool_offer(5)] u tr
    unfolding e by simp
next
  case (pool_again i u v peer v' p)
  then have u: "u = t" "phase t = Pool v" "i = 0" by auto
  have g: "good_pool v" using ok u(2) by (auto simp: task_ok_def)
  have "v' = v" using pool_round_good(1) [OF g pool_again(5)] by simp
  then show ?thesis using pool_again u pool_to_run(1) [OF g] by (auto simp: to_run_def next_phase_def)
next
  case (pool_run i u v peer v' p r)
  then have u: "u = t" "phase t = Pool v" "i = 0" by auto
  have g: "good_pool v" using ok u(2) by (auto simp: task_ok_def)
  have "my_size v' = 0 \<or> good_pool v'" using pool_round_good(1) [OF g pool_run(5)] by simp
  then have "to_run (t\<lparr>my_partition := p, phase := next_phase False v'\<rparr>) = in_order v'" using pool_to_run by blast
  moreover have "ok r" using pool_round_good(1) [OF g pool_run(5)] by (simp add: good_range_def)
  ultimately show ?thesis using pool_run u pool_round_in_order [OF g pool_run(5)]
    by (auto simp: to_run_def next_phase_def)
next
  case (divided i u d p)
  then have u: "u = t" "phase t = Dividing" "i = 0" by auto
  moreover have "ok (my_range t)" using ok u(2) by (auto simp: task_ok_def good_range_def)
  ultimately show ?thesis using divided
    by (auto simp: to_run_def in_order_def new_ranges split: if_splits)
qed (auto simp: to_run_def)

lemma task_move_exists:
  assumes ok: "task_ok (length affs) t" and f: "phase t \<noteq> Finished"
  shows "\<exists>t' new runs affs'. task_move ops in_proportion fdiv t affs t' new runs affs'"
proof -
  let ?s = "\<lparr>tasks = [t], bodies = [], affinities = affs, cancelled = False\<rparr>"
  have "loop_inv (pending t) (length affs) ?s" using ok by (simp add: loop_inv_def all_pending_def)
  then obtain s' where s': "loop_step ops in_proportion fdiv ?s s'" "tasks s' \<noteq> tasks ?s"
    using loop_progress [of "pending t" "length affs" ?s 0] f by auto
  have "\<not> cancelled s'" "\<exists>t' new. tasks s' = t' # new"
    using s' by (cases rule: loop_step.cases; auto split: if_splits)+
  then obtain t' new where "s' = \<lparr>tasks = t' # new, bodies = bodies s', affinities = affinities s', cancelled = False\<rparr>"
    by (cases s') auto
  then show ?thesis using s'(1) unfolding task_move_def by metis
qed

end

section \<open>The tasks of a reduction\<close>

datatype reduction_context = root_task | left_child | right_child

text \<open>A task has the range and partition of a loop task, the body it accumulates in, and its place.\<close>

record 'r start_reduce =
  sr_task :: "'r start_for"
  sr_body :: nat
  sr_context :: reduction_context

record finish_reduce =
  has_right_zombie :: bool
  fr_context :: reduction_context
  fr_body :: "nat option"
  zombie_space :: nat

datatype 'r reduce_tree = Ended | Leaf "'r start_reduce" | Join finish_reduce "'r reduce_tree" "'r reduce_tree"

record ('r, 'b) reduce_body =
  apply_body :: "'r \<Rightarrow> 'b \<Rightarrow> 'b"
  join_body :: "'b \<Rightarrow> 'b \<Rightarrow> 'b"
  split_body :: "'b \<Rightarrow> 'b"

record 'b reduce_env =
  body_of :: "nat \<Rightarrow> 'b"
  next_body :: nat
  affinity_ids :: "nat list"

text \<open>\<^verbatim>\<open>finish_reduce\<close>: the constructor, \<^verbatim>\<open>allocate_sibling\<close> with \<^verbatim>\<open>offer_work\<close>, and the two halves of \<^verbatim>\<open>execute\<close>.\<close>

definition finish_new :: "reduction_context \<Rightarrow> nat \<Rightarrow> finish_reduce" where
  "finish_new ctx space = \<lparr>has_right_zombie = False, fr_context = ctx, fr_body = None, zombie_space = space\<rparr>"

definition run_bodies :: "('r, 'b) reduce_body \<Rightarrow> 'r list \<Rightarrow> nat \<Rightarrow> (nat \<Rightarrow> 'b) \<Rightarrow> nat \<Rightarrow> 'b" where
  "run_bodies B runs p m = m(p := fold (apply_body B) runs (m p))"

definition offer_child :: "'r start_reduce \<Rightarrow> 'r start_for \<Rightarrow> 'r start_for \<Rightarrow> nat \<Rightarrow> 'r reduce_tree" where
  "offer_child s t' u space = Join (finish_new (sr_context s) space)
     (Leaf (s\<lparr>sr_task := t', sr_context := left_child\<rparr>))
     (Leaf \<lparr>sr_task = u, sr_body = sr_body s, sr_context = right_child\<rparr>)"

definition begin_right :: "('r, 'b) reduce_body \<Rightarrow> finish_reduce \<Rightarrow> 'r start_reduce \<Rightarrow> (nat \<Rightarrow> 'b) \<Rightarrow>
    finish_reduce \<times> 'r start_reduce \<times> (nat \<Rightarrow> 'b)" where
  "begin_right B f s m =
     (if fr_body f = None
      then (f\<lparr>has_right_zombie := True\<rparr>, s\<lparr>sr_body := zombie_space f\<rparr>,
            m(zombie_space f := split_body B (m (sr_body s))))
      else (f, s, m))"

definition join_zombie :: "('r, 'b) reduce_body \<Rightarrow> finish_reduce \<Rightarrow> (nat \<Rightarrow> 'b) \<Rightarrow> nat \<Rightarrow> 'b" where
  "join_zombie B f m =
     (case fr_body f of None \<Rightarrow> m
      | Some p \<Rightarrow> if has_right_zombie f then m(p := join_body B (m p) (m (zombie_space f))) else m)"

text \<open>One step of any task. A leaf works (\<open>work\<close>) or gives away a part of its range (\<open>offer\<close>); a right child
  first looks whether the left body is back (\<open>begin_right\<close>); a left child that ends stores its body in the
  finish task above it (\<open>end_left\<close>), and so does a finish task (\<open>finish_left\<close>) after joining.\<close>

inductive reduce_step :: "'r range_ops \<Rightarrow> bool \<Rightarrow> (nat \<Rightarrow> nat \<Rightarrow> nat \<Rightarrow> nat) \<Rightarrow> ('r, 'b) reduce_body \<Rightarrow>
    'r reduce_tree \<Rightarrow> 'b reduce_env \<Rightarrow> 'r reduce_tree \<Rightarrow> 'b reduce_env \<Rightarrow> bool"
  for ops in_proportion fdiv B where
  work: "phase (sr_task s) \<noteq> Spawned \<or> sr_context s \<noteq> right_child \<Longrightarrow>
    task_move ops in_proportion fdiv (sr_task s) (affinity_ids e) t' [] runs affs \<Longrightarrow>
    reduce_step ops in_proportion fdiv B (Leaf s) e (Leaf (s\<lparr>sr_task := t'\<rparr>))
      (e\<lparr>body_of := run_bodies B runs (sr_body s) (body_of e), affinity_ids := affs\<rparr>)"
| offer: "task_move ops in_proportion fdiv (sr_task s) (affinity_ids e) t' [u] runs affs \<Longrightarrow>
    reduce_step ops in_proportion fdiv B (Leaf s) e (offer_child s t' u (next_body e))
      (e\<lparr>next_body := next_body e + 1, affinity_ids := affs\<rparr>)"
| begin_right: "phase (sr_task s) = Spawned \<Longrightarrow> sr_context s = right_child \<Longrightarrow>
    task_move ops in_proportion fdiv (sr_task s) (affinity_ids e) t' [] runs affs \<Longrightarrow>
    begin_right B f s (body_of e) = (f', s', m) \<Longrightarrow>
    reduce_step ops in_proportion fdiv B (Join f l (Leaf s)) e (Join f' l (Leaf (s'\<lparr>sr_task := t'\<rparr>)))
      (e\<lparr>body_of := m, affinity_ids := affs\<rparr>)"
| end_left: "phase (sr_task s) = Finished \<Longrightarrow> sr_context s = left_child \<Longrightarrow>
    reduce_step ops in_proportion fdiv B (Join f (Leaf s) r) e (Join (f\<lparr>fr_body := Some (sr_body s)\<rparr>) Ended r) e"
| end_other: "phase (sr_task s) = Finished \<Longrightarrow> sr_context s \<noteq> left_child \<Longrightarrow>
    reduce_step ops in_proportion fdiv B (Leaf s) e Ended e"
| finish_left: "fr_context f = left_child \<Longrightarrow>
    reduce_step ops in_proportion fdiv B (Join g (Join f Ended Ended) r) e
      (Join (g\<lparr>fr_body := fr_body f\<rparr>) Ended r) (e\<lparr>body_of := join_zombie B f (body_of e)\<rparr>)"
| finish_other: "fr_context f \<noteq> left_child \<Longrightarrow>
    reduce_step ops in_proportion fdiv B (Join f Ended Ended) e Ended
      (e\<lparr>body_of := join_zombie B f (body_of e)\<rparr>)"
| in_left: "reduce_step ops in_proportion fdiv B l e l' e' \<Longrightarrow>
    reduce_step ops in_proportion fdiv B (Join f l r) e (Join f l' r) e'"
| in_right: "reduce_step ops in_proportion fdiv B r e r' e' \<Longrightarrow>
    reduce_step ops in_proportion fdiv B (Join f l r) e (Join f l r') e'"

inductive reduce_steps :: "'r range_ops \<Rightarrow> bool \<Rightarrow> (nat \<Rightarrow> nat \<Rightarrow> nat \<Rightarrow> nat) \<Rightarrow> ('r, 'b) reduce_body \<Rightarrow>
    nat \<Rightarrow> 'r reduce_tree \<Rightarrow> 'b reduce_env \<Rightarrow> 'r reduce_tree \<Rightarrow> 'b reduce_env \<Rightarrow> bool"
  for ops in_proportion fdiv B where
  none: "reduce_steps ops in_proportion fdiv B 0 \<tau> e \<tau> e"
| more: "reduce_step ops in_proportion fdiv B \<tau> e \<tau>1 e1 \<Longrightarrow>
    reduce_steps ops in_proportion fdiv B n \<tau>1 e1 \<tau>2 e2 \<Longrightarrow>
    reduce_steps ops in_proportion fdiv B (Suc n) \<tau> e \<tau>2 e2"

definition reduce_run :: "'r range_ops \<Rightarrow> nat \<Rightarrow> partition \<Rightarrow> nat list \<Rightarrow> 'r \<Rightarrow> 'b \<Rightarrow> 'r reduce_tree \<times> 'b reduce_env" where
  "reduce_run ops threads p my_array r b =
     (if range_empty ops r then Ended
      else Leaf \<lparr>sr_task = \<lparr>my_range = r, my_partition = p, phase = Spawned\<rparr>, sr_body = 0, sr_context = root_task\<rparr>,
      \<lparr>body_of = (\<lambda>_. b), next_body = 1,
       affinity_ids = (case p of Affinity_partition _ \<Rightarrow> resize threads factor my_array | _ \<Rightarrow> my_array)\<rparr>)"

section \<open>What a reduction promises\<close>

locale reduction_body =
  fixes B :: "('r, 'b) reduce_body" and ok :: "'r \<Rightarrow> bool" and sq :: "'r \<Rightarrow> 'i list"
    and accumulated :: "'b \<Rightarrow> 'i list \<Rightarrow> bool"
  assumes split_acc: "accumulated b xs \<Longrightarrow> accumulated (split_body B b) []"
    and apply_acc: "accumulated b xs \<Longrightarrow> ok r \<Longrightarrow> accumulated (apply_body B r b) (xs @ sq r)"
    and join_acc: "accumulated b xs \<Longrightarrow> accumulated c ys \<Longrightarrow> accumulated (join_body B b c) (xs @ ys)"

text \<open>The bodies a tree may hold, and those it has constructed.\<close>

fun spaces :: "'r reduce_tree \<Rightarrow> nat set" where
  "spaces Ended = {}"
| "spaces (Leaf s) = {}"
| "spaces (Join f l r) = insert (zombie_space f) (spaces l \<union> spaces r)"

fun own_spaces :: "'r reduce_tree \<Rightarrow> bool" where
  "own_spaces (Join f l r) \<longleftrightarrow> own_spaces l \<and> own_spaces r \<and> zombie_space f \<notin> spaces l \<union> spaces r \<and>
     spaces l \<inter> spaces r = {}"
| "own_spaces _ \<longleftrightarrow> True"

fun constructed :: "'r reduce_tree \<Rightarrow> nat set" where
  "constructed Ended = {}"
| "constructed (Leaf s) = {}"
| "constructed (Join f l r) = (if has_right_zombie f then {zombie_space f} else {}) \<union> constructed l \<union> constructed r"

lemma constructed_spaces: "constructed \<tau> \<subseteq> spaces \<tau>"
  by (induction \<tau>) auto

definition not_begun :: "'r reduce_tree \<Rightarrow> bool" where
  "not_begun \<tau> \<longleftrightarrow> (\<exists>s. \<tau> = Leaf s \<and> phase (sr_task s) = Spawned)"

context ordered_loop
begin

fun tree_ok :: "nat \<Rightarrow> nat \<Rightarrow> reduction_context \<Rightarrow> 'r reduce_tree \<Rightarrow> bool" where
  "tree_ok n b c Ended \<longleftrightarrow> True"
| "tree_ok n b c (Leaf s) \<longleftrightarrow> sr_body s = b \<and> sr_context s = c \<and> task_ok n (sr_task s)"
| "tree_ok n b c (Join f l r) \<longleftrightarrow> fr_context f = c \<and> tree_ok n b left_child l \<and>
     fr_body f = (if l = Ended then Some b else None) \<and>
     (if has_right_zombie f then tree_ok n (zombie_space f) right_child r \<and> \<not> not_begun r
      else tree_ok n b right_child r \<and> (l = Ended \<or> not_begun r))"

fun remaining :: "(nat \<Rightarrow> 'i list) \<Rightarrow> 'r reduce_tree \<Rightarrow> 'i list" where
  "remaining k Ended = []"
| "remaining k (Leaf s) = to_run (sr_task s)"
| "remaining k (Join f l r) = remaining k l @ (if has_right_zombie f then k (zombie_space f) else []) @ remaining k r"

lemma remaining_cong: "(\<And>x. x \<in> spaces \<tau> \<Longrightarrow> k x = k' x) \<Longrightarrow> remaining k \<tau> = remaining k' \<tau>"
  by (induction \<tau>) auto

fun tree_weight :: "'r reduce_tree \<Rightarrow> nat" where
  "tree_weight Ended = 0"
| "tree_weight (Leaf s) = 3 * weight (sr_task s) + 1"
| "tree_weight (Join f l r) = tree_weight l + tree_weight r + 1"

end

section \<open>Every step keeps the order\<close>

locale ordered_reduction = ordered_loop ops ok sq in_proportion fdiv + reduction_body B ok sq accumulated
  for ops :: "'r range_ops" and ok :: "'r \<Rightarrow> bool" and sq :: "'r \<Rightarrow> 'i list" and in_proportion fdiv
    and B :: "('r, 'b) reduce_body" and accumulated :: "'b \<Rightarrow> 'i list \<Rightarrow> bool"
begin

definition good_state :: "nat \<Rightarrow> nat \<Rightarrow> reduction_context \<Rightarrow> 'r reduce_tree \<Rightarrow> 'b reduce_env \<Rightarrow> (nat \<Rightarrow> 'i list) \<Rightarrow> bool" where
  "good_state n b c \<tau> e k \<longleftrightarrow> tree_ok n b c \<tau> \<and> length (affinity_ids e) = n \<and> own_spaces \<tau> \<and> b \<notin> spaces \<tau> \<and>
     (\<forall>x\<in>insert b (spaces \<tau>). x < next_body e) \<and> (\<forall>x\<in>insert b (constructed \<tau>). accumulated (body_of e x) (k x))"

lemma good_stateD:
  assumes "good_state n b c \<tau> e k"
  shows "tree_ok n b c \<tau>" "length (affinity_ids e) = n" "own_spaces \<tau>" "b \<notin> spaces \<tau>" "b < next_body e"
    "x \<in> spaces \<tau> \<Longrightarrow> x < next_body e" "accumulated (body_of e b) (k b)"
    "x \<in> constructed \<tau> \<Longrightarrow> accumulated (body_of e x) (k x)"
  using assms by (simp_all add: good_state_def)

lemma good_stateI:
  assumes "tree_ok n b c \<tau>" "length (affinity_ids e) = n" "own_spaces \<tau>" "b \<notin> spaces \<tau>" "b < next_body e"
    "\<And>x. x \<in> spaces \<tau> \<Longrightarrow> x < next_body e" "accumulated (body_of e b) (k b)"
    "\<And>x. x \<in> constructed \<tau> \<Longrightarrow> accumulated (body_of e x) (k x)"
  shows "good_state n b c \<tau> e k"
  using assms by (simp add: good_state_def)

definition step_result :: "nat \<Rightarrow> nat \<Rightarrow> reduction_context \<Rightarrow> 'r reduce_tree \<Rightarrow> 'b reduce_env \<Rightarrow> (nat \<Rightarrow> 'i list) \<Rightarrow>
    'r reduce_tree \<Rightarrow> 'b reduce_env \<Rightarrow> (nat \<Rightarrow> 'i list) \<Rightarrow> bool" where
  "step_result n b c \<tau> e k \<tau>' e' k' \<longleftrightarrow> good_state n b c \<tau>' e' k' \<and>
     k' b @ remaining k' \<tau>' = k b @ remaining k \<tau> \<and>
     (\<forall>x. x \<notin> insert b (spaces \<tau>) \<longrightarrow> x < next_body e \<longrightarrow> k' x = k x \<and> body_of e' x = body_of e x) \<and>
     spaces \<tau>' \<subseteq> spaces \<tau> \<union> {next_body e..} \<and> next_body e \<le> next_body e' \<and>
     tree_weight \<tau>' < tree_weight \<tau> \<and> (\<tau>' = Ended \<longrightarrow> c \<noteq> left_child) \<and> \<not> not_begun \<tau>'"

lemma run_bodies_acc:
  "accumulated x xs \<Longrightarrow> \<forall>r\<in>set runs. ok r \<Longrightarrow> accumulated (fold (apply_body B) runs x) (xs @ concat (map sq runs))"
proof (induction runs arbitrary: x xs)
  case (Cons r rs)
  then show ?case using apply_acc [of x xs r] Cons.IH [of "apply_body B r x" "xs @ sq r"] by simp
qed simp

lemma work_ok:
  assumes g: "good_state n b c (Leaf s) e k"
    and m: "task_move ops in_proportion fdiv (sr_task s) (affinity_ids e) t' [] runs affs"
  shows "\<exists>k'. step_result n b c (Leaf s) e k (Leaf (s\<lparr>sr_task := t'\<rparr>))
    (e\<lparr>body_of := run_bodies B runs (sr_body s) (body_of e), affinity_ids := affs\<rparr>) k'"
proof -
  note d = good_stateD [OF g]
  have s: "sr_body s = b" "sr_context s = c" "task_ok (length (affinity_ids e)) (sr_task s)" using d(1,2) by simp_all
  note o = task_move_ok [OF m s(3)] and q = task_move_order [OF m s(3)]
  let ?k = "k(b := k b @ concat (map sq runs))"
  have "accumulated (fold (apply_body B) runs (body_of e b)) (?k b)"
    using run_bodies_acc [OF d(7)] q by simp
  then have "good_state n b c (Leaf (s\<lparr>sr_task := t'\<rparr>))
      (e\<lparr>body_of := run_bodies B runs (sr_body s) (body_of e), affinity_ids := affs\<rparr>) ?k"
    using d(5) d(2) o(1,3) s by (intro good_stateI) (simp_all add: run_bodies_def)
  then show ?thesis using q o(4) s(1) by (intro exI [of _ ?k]) (auto simp: step_result_def run_bodies_def not_begun_def)
qed

lemma offer_ok:
  assumes g: "good_state n b c (Leaf s) e k"
    and m: "task_move ops in_proportion fdiv (sr_task s) (affinity_ids e) t' [u] runs affs"
  shows "\<exists>k'. step_result n b c (Leaf s) e k (offer_child s t' u (next_body e))
    (e\<lparr>next_body := next_body e + 1, affinity_ids := affs\<rparr>) k'"
proof -
  note d = good_stateD [OF g]
  have s: "sr_body s = b" "sr_context s = c" "task_ok (length (affinity_ids e)) (sr_task s)" using d(1,2) by simp_all
  note o = task_move_ok [OF m s(3)] and q = task_move_order [OF m s(3)]
  have "good_state n b c (offer_child s t' u (next_body e)) (e\<lparr>next_body := next_body e + 1, affinity_ids := affs\<rparr>) k"
    using d(2,5,7) o q s
    by (intro good_stateI) (auto simp: offer_child_def finish_new_def not_begun_def)
  then show ?thesis using q o(4) s(1)
    by (intro exI [of _ k]) (auto simp: step_result_def offer_child_def finish_new_def not_begun_def)
qed

lemma begin_right_ok:
  assumes g: "good_state n b c (Join f l (Leaf s)) e k"
    and p: "phase (sr_task s) = Spawned"
    and m: "task_move ops in_proportion fdiv (sr_task s) (affinity_ids e) t' [] runs affs"
    and bg: "begin_right B f s (body_of e) = (f', s', mm)"
  shows "\<exists>k'. step_result n b c (Join f l (Leaf s)) e k (Join f' l (Leaf (s'\<lparr>sr_task := t'\<rparr>)))
    (e\<lparr>body_of := mm, affinity_ids := affs\<rparr>) k'"
proof -
  note d = good_stateD [OF g]
  have nb: "not_begun (Leaf s)" using p by (simp add: not_begun_def)
  have z: "\<not> has_right_zombie f" using d(1) nb by (auto split: if_splits)
  have s: "sr_body s = b" "sr_context s = right_child" "task_ok (length (affinity_ids e)) (sr_task s)"
    and f: "fr_context f = c" "tree_ok n b left_child l" "fr_body f = (if l = Ended then Some b else None)"
    using d(1,2) z by simp_all
  note o = task_move_ok [OF m s(3)] and q = task_move_order [OF m s(3)]
  have t': "to_run t' = to_run (sr_task s)" "phase t' \<noteq> Spawned" using q p by auto
  show ?thesis
  proof (cases "l = Ended")
    case True
    then have e: "f' = f" "s' = s" "mm = body_of e" using bg f(3) by (simp_all add: begin_right_def)
    have "good_state n b c (Join f' l (Leaf (s'\<lparr>sr_task := t'\<rparr>))) (e\<lparr>body_of := mm, affinity_ids := affs\<rparr>) k"
      unfolding e using d o s f True z by (intro good_stateI) (simp_all add: not_begun_def)
    then show ?thesis using t' o(4) z unfolding e
      by (intro exI [of _ k]) (auto simp: step_result_def not_begun_def)
  next
    case False
    let ?z = "zombie_space f"
    have e: "f' = f\<lparr>has_right_zombie := True\<rparr>" "s' = s\<lparr>sr_body := ?z\<rparr>"
        "mm = (body_of e)(?z := split_body B (body_of e b))"
      using bg f(3) False s(1) by (simp_all add: begin_right_def)
    let ?k = "k(?z := [])"
    have zb: "?z \<noteq> b" "?z \<notin> spaces l" using d(3,4) by auto
    have cl: "constructed l \<subseteq> spaces l" by (rule constructed_spaces)
    have "good_state n b c (Join f' l (Leaf (s'\<lparr>sr_task := t'\<rparr>))) (e\<lparr>body_of := mm, affinity_ids := affs\<rparr>) ?k"
    proof (rule good_stateI)
      show "tree_ok n b c (Join f' l (Leaf (s'\<lparr>sr_task := t'\<rparr>)))"
        unfolding e using o(1) d(2) s f t'(2) False by (simp add: not_begun_def)
      fix x assume "x \<in> constructed (Join f' l (Leaf (s'\<lparr>sr_task := t'\<rparr>)))"
      then have "x = ?z \<or> (x \<noteq> ?z \<and> x \<in> constructed l)" using zb cl unfolding e by auto
      then show "accumulated (body_of (e\<lparr>body_of := mm, affinity_ids := affs\<rparr>) x) (?k x)"
        using split_acc [OF d(7)] d(8) unfolding e by auto
    qed (use d zb o in \<open>simp_all add: e\<close>)
    moreover have "remaining ?k l = remaining k l" by (rule remaining_cong) (use zb in auto)
    ultimately show ?thesis using t' o(4) z zb unfolding e
      by (intro exI [of _ ?k]) (auto simp: step_result_def not_begun_def)
  qed
qed

lemma to_run_finished: "phase t = Finished \<Longrightarrow> to_run t = []"
  by (simp add: to_run_def)

lemma end_left_ok:
  assumes g: "good_state n b c (Join f (Leaf s) r) e k" and p: "phase (sr_task s) = Finished"
  shows "\<exists>k'. step_result n b c (Join f (Leaf s) r) e k (Join (f\<lparr>fr_body := Some (sr_body s)\<rparr>) Ended r) e k'"
proof -
  note d = good_stateD [OF g]
  have "good_state n b c (Join (f\<lparr>fr_body := Some (sr_body s)\<rparr>) Ended r) e k"
    using d by (intro good_stateI) (auto split: if_splits)
  then show ?thesis using to_run_finished [OF p] by (intro exI [of _ k]) (auto simp: step_result_def not_begun_def)
qed

lemma end_other_ok:
  assumes g: "good_state n b c (Leaf s) e k" and p: "phase (sr_task s) = Finished" "sr_context s \<noteq> left_child"
  shows "\<exists>k'. step_result n b c (Leaf s) e k Ended e k'"
proof -
  note d = good_stateD [OF g]
  have "good_state n b c Ended e k" using d by (intro good_stateI) auto
  then show ?thesis using to_run_finished [OF p(1)] d(1) p(2)
    by (intro exI [of _ k]) (auto simp: step_result_def not_begun_def)
qed

text \<open>The end of a finish task: what the zombie has accumulated follows what its body had.\<close>

definition joined :: "finish_reduce \<Rightarrow> nat \<Rightarrow> (nat \<Rightarrow> 'i list) \<Rightarrow> nat \<Rightarrow> 'i list" where
  "joined f b k = (if has_right_zombie f then k(b := k b @ k (zombie_space f)) else k)"

lemma joined_acc:
  assumes "fr_body f = Some b" "accumulated (m b) (k b)"
    "has_right_zombie f \<Longrightarrow> accumulated (m (zombie_space f)) (k (zombie_space f))"
  shows "accumulated (join_zombie B f m b) (joined f b k b)"
    "x \<noteq> b \<Longrightarrow> join_zombie B f m x = m x" "x \<noteq> b \<Longrightarrow> joined f b k x = k x"
    "joined f b k b = k b @ (if has_right_zombie f then k (zombie_space f) else [])"
  using assms join_acc by (auto simp: join_zombie_def joined_def)

lemma finish_left_ok:
  assumes g: "good_state n b c (Join g' (Join f Ended Ended) r) e k"
  shows "\<exists>k'. step_result n b c (Join g' (Join f Ended Ended) r) e k (Join (g'\<lparr>fr_body := fr_body f\<rparr>) Ended r)
    (e\<lparr>body_of := join_zombie B f (body_of e)\<rparr>) k'"
proof -
  note d = good_stateD [OF g]
  have f: "fr_body f = Some b" using d(1) by simp
  have "has_right_zombie f \<Longrightarrow> accumulated (body_of e (zombie_space f)) (k (zombie_space f))"
    using d(8) by simp
  note j = joined_acc [OF f d(7) this]
  have ne: "x \<noteq> b" if "x \<in> spaces r \<or> x = zombie_space g'" for x using that d(4) by auto
  have nz: "x \<in> constructed r \<Longrightarrow> x \<noteq> b" for x using ne constructed_spaces by blast
  have "good_state n b c (Join (g'\<lparr>fr_body := fr_body f\<rparr>) Ended r) (e\<lparr>body_of := join_zombie B f (body_of e)\<rparr>) (joined f b k)"
    using d f j ne nz by (intro good_stateI) (auto split: if_splits)
  moreover have "remaining (joined f b k) r = remaining k r" by (rule remaining_cong) (use ne j(3) in auto)
  ultimately show ?thesis using j ne
    by (intro exI [of _ "joined f b k"]) (auto simp: step_result_def not_begun_def)
qed

lemma finish_other_ok:
  assumes g: "good_state n b c (Join f Ended Ended) e k" and p: "fr_context f \<noteq> left_child"
  shows "\<exists>k'. step_result n b c (Join f Ended Ended) e k Ended (e\<lparr>body_of := join_zombie B f (body_of e)\<rparr>) k'"
proof -
  note d = good_stateD [OF g]
  have f: "fr_body f = Some b" using d(1) by simp
  have "has_right_zombie f \<Longrightarrow> accumulated (body_of e (zombie_space f)) (k (zombie_space f))"
    using d(8) by simp
  note j = joined_acc [OF f d(7) this]
  have "good_state n b c Ended (e\<lparr>body_of := join_zombie B f (body_of e)\<rparr>) (joined f b k)"
    using d j by (intro good_stateI) auto
  then show ?thesis using j d(1) p
    by (intro exI [of _ "joined f b k"]) (auto simp: step_result_def not_begun_def)
qed

lemma in_left_ok:
  assumes g: "good_state n b c (Join f l r) e k" and ne: "l \<noteq> Ended"
    and IH: "\<And>k. good_state n b left_child l e k \<Longrightarrow> \<exists>k'. step_result n b left_child l e k l' e' k'"
  shows "\<exists>k'. step_result n b c (Join f l r) e k (Join f l' r) e' k'"
proof -
  note d = good_stateD [OF g]
  have "good_state n b left_child l e k" using d by (intro good_stateI) auto
  then obtain k' where s: "step_result n b left_child l e k l' e' k'" using IH by blast
  then have gl: "good_state n b left_child l' e' k'" and eq: "k' b @ remaining k' l' = k b @ remaining k l"
    and fr: "\<And>x. x \<notin> insert b (spaces l) \<Longrightarrow> x < next_body e \<Longrightarrow> k' x = k x \<and> body_of e' x = body_of e x"
    and sp: "spaces l' \<subseteq> spaces l \<union> {next_body e..}" "next_body e \<le> next_body e'"
    and w: "tree_weight l' < tree_weight l" and end': "l' \<noteq> Ended"
    by (auto simp: step_result_def)
  note dl = good_stateD [OF gl]
  have out: "x \<notin> insert b (spaces l) \<and> x < next_body e" if "x \<in> spaces r \<or> x = zombie_space f" for x
    using that d(3,4) d(6) by auto
  have same: "k' x = k x" "body_of e' x = body_of e x" if "x \<in> spaces r \<or> x = zombie_space f" for x
    using fr [of x] out [OF that] by auto
  have "good_state n b c (Join f l' r) e' k'"
  proof (rule good_stateI)
    show "tree_ok n b c (Join f l' r)" using d(1) dl(1) ne end' by auto
    show "own_spaces (Join f l' r)" using d(3) dl(3) sp(1) out by fastforce
    show "b \<notin> spaces (Join f l' r)" using d(4) dl(4) by simp
    show "x < next_body e'" if "x \<in> spaces (Join f l' r)" for x
      using that dl(6) out sp(2) by (auto intro: less_le_trans)
    fix x assume "x \<in> constructed (Join f l' r)"
    then consider "x \<in> constructed l'" | "x \<in> constructed (Join f l r)" "x \<in> spaces r \<or> x = zombie_space f"
      using constructed_spaces [of r] by (auto split: if_splits)
    then show "accumulated (body_of e' x) (k' x)"
    proof cases
      case 2
      then show ?thesis using same [OF 2(2)] d(8) [OF 2(1)] by simp
    qed (rule dl(8))
  qed (use dl in simp_all)
  moreover have "remaining k' r = remaining k r" by (rule remaining_cong) (use same in auto)
  ultimately show ?thesis using eq fr sp w same(1) [of "zombie_space f"]
    by (intro exI [of _ k']) (auto simp: step_result_def not_begun_def)
qed

lemma in_right_ok:
  assumes g: "good_state n b c (Join f l r) e k" and st: "has_right_zombie f \<or> l = Ended"
    and IH: "\<And>b k. good_state n b right_child r e k \<Longrightarrow> \<exists>k'. step_result n b right_child r e k r' e' k'"
  shows "\<exists>k'. step_result n b c (Join f l r) e k (Join f l r') e' k'"
proof -
  note d = good_stateD [OF g]
  let ?b = "if has_right_zombie f then zombie_space f else b"
  have gr: "good_state n ?b right_child r e k" using d by (intro good_stateI) (auto split: if_splits)
  then obtain k' where s: "step_result n ?b right_child r e k r' e' k'" using IH by blast
  then have gr': "good_state n ?b right_child r' e' k'" and eq: "k' ?b @ remaining k' r' = k ?b @ remaining k r"
    and fr: "\<And>x. x \<notin> insert ?b (spaces r) \<Longrightarrow> x < next_body e \<Longrightarrow> k' x = k x \<and> body_of e' x = body_of e x"
    and sp: "spaces r' \<subseteq> spaces r \<union> {next_body e..}" "next_body e \<le> next_body e'"
    and w: "tree_weight r' < tree_weight r" and nb: "\<not> not_begun r'"
    by (auto simp: step_result_def)
  note dr = good_stateD [OF gr']
  have bz: "b \<noteq> zombie_space f" "b \<notin> spaces r" "zombie_space f \<notin> spaces r" "zombie_space f \<notin> spaces l"
    "b \<notin> spaces l" using d(3,4) by auto
  have same: "k' x = k x \<and> body_of e' x = body_of e x"
    if "x \<in> spaces l \<or> (has_right_zombie f \<and> x = b)" for x
  proof -
    have "x \<noteq> ?b \<and> x \<notin> spaces r \<and> x < next_body e" using that
    proof
      assume "x \<in> spaces l"
      then show ?thesis using d(3) d(6) [of x] bz by auto
    qed (use bz d(5) in auto)
    then show ?thesis using fr [of x] by blast
  qed
  have z: "zombie_space f < next_body e" using d(6) by simp
  have "good_state n b c (Join f l r') e' k'"
  proof (rule good_stateI)
    show "tree_ok n b c (Join f l r')" using d(1) dr(1) nb st by (auto split: if_splits)
    show "own_spaces (Join f l r')"
    proof -
      have "zombie_space f \<notin> spaces r'" using sp(1) bz z by auto
      moreover have "x < next_body e" if "x \<in> spaces l" for x using that d(6) by simp
      then have "spaces l \<inter> spaces r' = {}" using sp(1) d(3) by fastforce
      ultimately show ?thesis using d(3) dr(3) by simp
    qed
    show "b \<notin> spaces (Join f l r')" using bz sp(1) d(5) by auto
    show "b < next_body e'" using d(5) sp(2) by simp
    show "x < next_body e'" if "x \<in> spaces (Join f l r')" for x
      using that dr(6) d(6) [of x] sp(2) by (auto intro: less_le_trans)
    show "accumulated (body_of e' b) (k' b)"
      using dr(7) same [of b] d(7) by (cases "has_right_zombie f") auto
    fix x assume "x \<in> constructed (Join f l r')"
    then consider "x \<in> constructed r'" | "x \<in> constructed l" | "has_right_zombie f" "x = zombie_space f"
      by (auto split: if_splits)
    then show "accumulated (body_of e' x) (k' x)"
    proof cases
      case 2
      then have "x \<in> spaces l" using constructed_spaces by blast
      then show ?thesis using same [of x] d(8) [of x] 2 by simp
    next
      case 3
      then show ?thesis using dr(7) by simp
    qed (rule dr(8))
  qed (use dr in simp_all)
  moreover have "remaining k' l = remaining k l" by (rule remaining_cong) (use same in auto)
  moreover have "k' b @ remaining k' (Join f l r') = k b @ remaining k (Join f l r)"
  proof (cases "has_right_zombie f")
    case True
    then show ?thesis using eq same [of b] calculation(2) by simp
  next
    case False
    then show ?thesis using eq st by simp
  qed
  ultimately show ?thesis using fr sp w bz
    by (intro exI [of _ k']) (auto simp: step_result_def not_begun_def)
qed

lemma no_step_ended: "reduce_step ops in_proportion fdiv B \<tau> e \<tau>' e' \<Longrightarrow> \<tau> \<noteq> Ended"
  by (auto elim: reduce_step.cases)

lemma waiting_right:
  assumes "reduce_step ops in_proportion fdiv B (Leaf s) e r' e'" "sr_context s = right_child"
    "task_ok (length (affinity_ids e)) (sr_task s)"
  shows "phase (sr_task s) \<noteq> Spawned"
  using assms(1)
proof (cases rule: reduce_step.cases)
  case (offer t' u runs affs)
  then show ?thesis using task_move_order [OF offer(3) assms(3)] by auto
qed (use assms in auto)

lemma reduce_step_ok:
  "reduce_step ops in_proportion fdiv B \<tau> e \<tau>' e' \<Longrightarrow> good_state n b c \<tau> e k \<Longrightarrow>
    \<exists>k'. step_result n b c \<tau> e k \<tau>' e' k'"
proof (induction arbitrary: b c k rule: reduce_step.induct)
  case (work s e t' runs affs)
  then show ?case using work_ok by blast
next
  case (offer s e t' u runs affs)
  then show ?case using offer_ok by blast
next
  case (begin_right s e t' runs affs f f' s' m l)
  then show ?case using begin_right_ok by blast
next
  case (end_left s f r e)
  then show ?case using end_left_ok by blast
next
  case (end_other s e)
  then show ?case using end_other_ok by blast
next
  case (finish_left f g r e)
  then show ?case using finish_left_ok by blast
next
  case (finish_other f e)
  then show ?case using finish_other_ok by blast
next
  case (in_left l e l' e' f r)
  show ?case by (rule in_left_ok [OF in_left.prems no_step_ended [OF in_left.hyps] in_left.IH])
next
  case (in_right r e r' e' f l)
  have t: "tree_ok n b c (Join f l r)" "length (affinity_ids e) = n" using good_stateD(1,2) [OF in_right.prems] .
  have "has_right_zombie f \<or> l = Ended"
  proof (rule ccontr)
    assume no: "\<not> (has_right_zombie f \<or> l = Ended)"
    then obtain s where s: "r = Leaf s" "phase (sr_task s) = Spawned" using t(1) by (auto simp: not_begun_def)
    then show False using waiting_right [of s e r' e'] in_right.hyps t no by auto
  qed
  then show ?case by (rule in_right_ok [OF in_right.prems _ in_right.IH])
qed

lemma reduce_steps_ok:
  "reduce_steps ops in_proportion fdiv B m \<tau> e \<tau>' e' \<Longrightarrow> good_state n b c \<tau> e k \<Longrightarrow>
    \<exists>k'. good_state n b c \<tau>' e' k' \<and> k' b @ remaining k' \<tau>' = k b @ remaining k \<tau> \<and>
      m + tree_weight \<tau>' \<le> tree_weight \<tau>"
proof (induction arbitrary: k rule: reduce_steps.induct)
  case (more \<tau> e \<tau>1 e1 m \<tau>2 e2)
  obtain k1 where k1: "step_result n b c \<tau> e k \<tau>1 e1 k1" using reduce_step_ok [OF more.hyps(1) more.prems] by blast
  then have "good_state n b c \<tau>1 e1 k1" by (simp add: step_result_def)
  from more.IH [OF this] k1 show ?case by (force simp: step_result_def)
qed auto

section \<open>Some task can always go on\<close>

definition ready :: "'r reduce_tree \<Rightarrow> bool" where
  "ready \<tau> \<longleftrightarrow> (\<exists>s. \<tau> = Leaf s \<and> phase (sr_task s) = Finished) \<or> (\<exists>f. \<tau> = Join f Ended Ended)"

lemma leaf_progress:
  assumes t: "tree_ok (length (affinity_ids e)) b c (Leaf s)"
    and nr: "\<not> (c = right_child \<and> not_begun (Leaf s))" "\<not> (c = left_child \<and> ready (Leaf s))"
  shows "\<exists>\<tau>' e'. reduce_step ops in_proportion fdiv B (Leaf s) e \<tau>' e'"
proof (cases "phase (sr_task s) = Finished")
  case True
  then have "sr_context s \<noteq> left_child" using t nr(2) by (auto simp: ready_def)
  then show ?thesis using True reduce_step.end_other [of s ops in_proportion fdiv B e] by blast
next
  case False
  have ok: "task_ok (length (affinity_ids e)) (sr_task s)" using t by simp
  obtain t' new runs affs where m: "task_move ops in_proportion fdiv (sr_task s) (affinity_ids e) t' new runs affs"
    using task_move_exists [OF ok False] by blast
  have "phase (sr_task s) \<noteq> Spawned \<or> sr_context s \<noteq> right_child" using nr(1) t by (auto simp: not_begun_def)
  then show ?thesis using m task_move_order [OF m ok] reduce_step.work [of s ops in_proportion fdiv e t' runs affs B]
      reduce_step.offer [of ops in_proportion fdiv s e t' _ runs affs B] by blast
qed

lemma begin_progress:
  assumes t: "task_ok (length (affinity_ids e)) (sr_task s)" "sr_context s = right_child" "phase (sr_task s) = Spawned"
  shows "\<exists>\<tau>' e'. reduce_step ops in_proportion fdiv B (Join f l (Leaf s)) e \<tau>' e'"
proof -
  obtain t' new runs affs where m: "task_move ops in_proportion fdiv (sr_task s) (affinity_ids e) t' new runs affs"
    using task_move_exists [OF t(1)] t(3) by auto
  have "new = []" using task_move_order [OF m t(1)] t(3) by blast
  moreover obtain f' s' mm where "begin_right B f s (body_of e) = (f', s', mm)" by (metis prod.exhaust)
  ultimately show ?thesis using reduce_step.begin_right [OF t(3,2)] m by blast
qed

lemma tree_progress:
  "tree_ok (length (affinity_ids e)) b c \<tau> \<Longrightarrow> \<tau> \<noteq> Ended \<Longrightarrow> \<not> (c = right_child \<and> not_begun \<tau>) \<Longrightarrow>
    \<not> (c = left_child \<and> ready \<tau>) \<Longrightarrow> \<exists>\<tau>' e'. reduce_step ops in_proportion fdiv B \<tau> e \<tau>' e'"
proof (induction \<tau> arbitrary: b c)
  case (Leaf s)
  show ?case by (rule leaf_progress [OF Leaf.prems(1,3,4)])
next
  case (Join f l r)
  let ?n = "length (affinity_ids e)"
  have t: "fr_context f = c" "tree_ok ?n b left_child l" using Join.prems(1) by simp_all
  obtain b' where r: "tree_ok ?n b' right_child r" using Join.prems(1) by (auto split: if_splits)
  show ?case
  proof (cases "l = Ended")
    case False
    show ?thesis
    proof (cases "ready l")
      case True
      then consider s where "l = Leaf s" "phase (sr_task s) = Finished" | g where "l = Join g Ended Ended"
        by (auto simp: ready_def)
      then show ?thesis
      proof cases
        case 1
        then show ?thesis using reduce_step.end_left t(2) by fastforce
      next
        case 2
        then show ?thesis using reduce_step.finish_left t(2) by fastforce
      qed
    next
      case nr: False
      then show ?thesis using Join.IH(1) [OF t(2) False] reduce_step.in_left by blast
    qed
  next
    case l: True
    consider "r = Ended" | "r \<noteq> Ended" "not_begun r" | "r \<noteq> Ended" "\<not> not_begun r" by blast
    then show ?thesis
    proof cases
      case 1
      then have "c \<noteq> left_child" using Join.prems(4) l by (auto simp: ready_def)
      then show ?thesis using reduce_step.finish_other t(1) l 1 by fastforce
    next
      case 2
      then obtain s where "r = Leaf s" "phase (sr_task s) = Spawned" by (auto simp: not_begun_def)
      then show ?thesis using begin_progress [of e s] r by auto
    next
      case 3
      then show ?thesis using Join.IH(2) [OF r] reduce_step.in_right by blast
    qed
  qed
qed simp

lemma reduce_run_good:
  assumes "ok r" "p \<in> root_partitions threads" "accumulated b xs" "reduce_run ops threads p arr r b = (\<tau>, e)"
  shows "good_state (length (affinity_ids e)) 0 root_task \<tau> e (\<lambda>_. xs)" "remaining (\<lambda>_. xs) \<tau> = sq r"
    "tree_weight \<tau> \<le> 18 * length (sq r) + 1"
proof -
  let ?n = "length (affinity_ids e)"
  have e: "affinity_ids e = (case p of Affinity_partition _ \<Rightarrow> resize threads factor arr | _ \<Rightarrow> arr)"
    "body_of e = (\<lambda>_. b)" "next_body e = 1"
    using assms(4) by (auto simp: reduce_run_def)
  have p: "partition_ok ?n p \<and> fresh ?n p"
    using root_partition_ok [OF assms(2)] assms(2) unfolding e(1)
    by (auto simp: resize_def root_partitions_def Let_def)
  have t: "\<tau> = (if range_empty ops r then Ended
      else Leaf \<lparr>sr_task = \<lparr>my_range = r, my_partition = p, phase = Spawned\<rparr>, sr_body = 0, sr_context = root_task\<rparr>)"
    using assms(4) by (simp add: reduce_run_def)
  have "good_range r" if "\<not> range_empty ops r" using that assms(1) empty_sq by (simp add: good_range_def)
  then show "good_state ?n 0 root_task \<tau> e (\<lambda>_. xs)"
    using p e(2,3) assms(3) by (intro good_stateI) (auto simp: t task_ok_def split: if_splits)
  show "remaining (\<lambda>_. xs) \<tau> = sq r" using empty_sq [OF assms(1)] by (simp add: t to_run_def)
  show "tree_weight \<tau> \<le> 18 * length (sq r) + 1" by (simp add: t weight_def pending_def)
qed

end

end
