(* ===== verification/Parallel_Reduce.thy ===== *)
theory Parallel_Reduce
  imports Reduce_Tasks
begin

text \<open>
  \<^verbatim>\<open>include/tbb/parallel_reduce.h\<close>: runs of \<^verbatim>\<open>parallel_reduce\<close> as a whole, \<^verbatim>\<open>lambda_reduce_body\<close> on blocked
  ranges, and \<^verbatim>\<open>parallel_deterministic_reduce\<close>, whose tasks always divide in halves and whose finish tasks
  always own a second body.
\<close>

section \<open>Whole runs\<close>

context ordered_reduction
begin

lemma reduces_in_order:
  assumes r: "ok r" "p \<in> root_partitions threads" "accumulated b xs" "reduce_run ops threads p arr r b = (\<tau>0, e0)"
    and st: "reduce_steps ops in_proportion fdiv B m \<tau>0 e0 \<tau> e"
  shows "m \<le> 18 * length (sq r) + 1" "\<tau> = Ended \<Longrightarrow> accumulated (body_of e 0) (xs @ sq r)"
    "\<tau> \<noteq> Ended \<Longrightarrow> \<exists>\<tau>' e'. reduce_step ops in_proportion fdiv B \<tau> e \<tau>' e'"
proof -
  note g = reduce_run_good [OF r]
  obtain k where k: "good_state (length (affinity_ids e0)) 0 root_task \<tau> e k" "k 0 @ remaining k \<tau> = xs @ sq r"
    "m + tree_weight \<tau> \<le> tree_weight \<tau>0"
    using reduce_steps_ok [OF st g(1)] g(2) by auto
  show "m \<le> 18 * length (sq r) + 1" using k(3) g(3) by linarith
  show "accumulated (body_of e 0) (xs @ sq r)" if "\<tau> = Ended" using good_stateD(7) [OF k(1)] k(2) that by simp
  assume n: "\<tau> \<noteq> Ended"
  have "tree_ok (length (affinity_ids e)) 0 root_task \<tau>" using good_stateD(1,2) [OF k(1)] by simp
  then show "\<exists>\<tau>' e'. reduce_step ops in_proportion fdiv B \<tau> e \<tau>' e'" by (rule tree_progress [OF _ n]) simp_all
qed

lemma reduce_steps_snoc:
  "reduce_steps ops in_proportion fdiv B m \<tau> e \<tau>1 e1 \<Longrightarrow> reduce_step ops in_proportion fdiv B \<tau>1 e1 \<tau>2 e2 \<Longrightarrow>
    reduce_steps ops in_proportion fdiv B (Suc m) \<tau> e \<tau>2 e2"
  by (induction rule: reduce_steps.induct) (auto intro: reduce_steps.intros)

lemma reduce_completes:
  assumes "ok r" "p \<in> root_partitions threads" "accumulated b xs" "reduce_run ops threads p arr r b = (\<tau>0, e0)"
  shows "\<exists>m e. reduce_steps ops in_proportion fdiv B m \<tau>0 e0 Ended e"
proof (rule ccontr)
  assume no: "\<not> (\<exists>m e. reduce_steps ops in_proportion fdiv B m \<tau>0 e0 Ended e)"
  have "\<exists>\<tau> e. reduce_steps ops in_proportion fdiv B m \<tau>0 e0 \<tau> e" for m
  proof (induction m)
    case (Suc m)
    then obtain \<tau> e where s: "reduce_steps ops in_proportion fdiv B m \<tau>0 e0 \<tau> e" by blast
    then have "\<tau> \<noteq> Ended" using no by blast
    then show ?case using reduces_in_order(3) [OF assms s] reduce_steps_snoc [OF s] by blast
  qed (use reduce_steps.none in blast)
  then show False using reduces_in_order(1) [OF assms] by (metis Suc_n_not_le_n)
qed

end

section \<open>Blocked ranges in order\<close>

definition br_seq :: "blocked_range \<Rightarrow> 64 word list" where
  "br_seq r = map word_of_nat [unat (my_begin r)..<unat (my_end r)]"

lemma br_ordered_range:
  assumes fp: "good_fpart fpart"
  shows "ordered_range (br_ops fpart) br_ok br_seq"
proof
  fix r s assume h: "br_ok r" "range_is_divisible (br_ops fpart) r" "good_split s"
  then have d: "br_is_divisible r" by (simp add: br_ops_def)
  obtain m where m: "do_split fpart s r = (r\<lparr>my_end := m\<rparr>, m)" "my_begin r < m" "m < my_end r"
    by (rule br_split_parts [OF h(1) d h(3) fp])
  have e: "range_split (br_ops fpart) s r = (r\<lparr>my_end := m\<rparr>, r\<lparr>my_begin := m\<rparr>)"
    using m(1) by (simp add: br_ops_def br_split_def)
  have lt: "unat (my_begin r) < unat m" "unat m < unat (my_end r)" using m(2,3) by (simp_all add: word_less_nat_alt)
  then have "[unat (my_begin r)..<unat m] @ [unat m..<unat (my_end r)] = [unat (my_begin r)..<unat (my_end r)]"
    using upt_add_eq_append [of "unat (my_begin r)" "unat m" "unat (my_end r) - unat m"] by simp
  then show "br_seq (fst (range_split (br_ops fpart) s r)) @ br_seq (snd (range_split (br_ops fpart) s r)) = br_seq r"
    unfolding e by (simp add: br_seq_def flip: map_append)
  show "br_ok (fst (range_split (br_ops fpart) s r)) \<and> br_ok (snd (range_split (br_ops fpart) s r))"
    unfolding e using h(1) m(2,3) by (auto simp: br_ok_def)
  show "br_seq (fst (range_split (br_ops fpart) s r)) \<noteq> [] \<and> br_seq (snd (range_split (br_ops fpart) s r)) \<noteq> []"
    unfolding e using lt by (simp add: br_seq_def)
next
  fix r assume "br_ok r"
  then show "range_empty (br_ops fpart) r \<longleftrightarrow> br_seq r = []"
    by (auto simp: br_ops_def br_empty_def br_seq_def word_less_nat_alt)
qed

section \<open>The body made of functions\<close>

record ('r, 'v) lambda_reduce_body =
  identity_element :: 'v
  my_real_body :: "'r \<Rightarrow> 'v \<Rightarrow> 'v"
  my_reduction :: "'v \<Rightarrow> 'v \<Rightarrow> 'v"
  my_value :: 'v

definition lambda_new :: "'v \<Rightarrow> ('r \<Rightarrow> 'v \<Rightarrow> 'v) \<Rightarrow> ('v \<Rightarrow> 'v \<Rightarrow> 'v) \<Rightarrow> ('r, 'v) lambda_reduce_body" where
  "lambda_new ident body reduction =
     \<lparr>identity_element = ident, my_real_body = body, my_reduction = reduction, my_value = ident\<rparr>"

definition lambda_split :: "('r, 'v) lambda_reduce_body \<Rightarrow> ('r, 'v) lambda_reduce_body" where
  "lambda_split other = other\<lparr>my_value := identity_element other\<rparr>"

definition lambda_apply :: "'r \<Rightarrow> ('r, 'v) lambda_reduce_body \<Rightarrow> ('r, 'v) lambda_reduce_body" where
  "lambda_apply r b = b\<lparr>my_value := my_real_body b r (my_value b)\<rparr>"

definition lambda_join :: "('r, 'v) lambda_reduce_body \<Rightarrow> ('r, 'v) lambda_reduce_body \<Rightarrow> ('r, 'v) lambda_reduce_body" where
  "lambda_join b rhs = b\<lparr>my_value := my_reduction b (my_value b) (my_value rhs)\<rparr>"

definition lambda_ops :: "('r, ('r, 'v) lambda_reduce_body) reduce_body" where
  "lambda_ops = \<lparr>apply_body = lambda_apply, join_body = lambda_join, split_body = lambda_split\<rparr>"

definition parallel_reduce_result :: "(nat \<Rightarrow> ('r, 'v) lambda_reduce_body) \<Rightarrow> 'v" where
  "parallel_reduce_result m = my_value (m 0)"

definition lambda_accumulated :: "'v \<Rightarrow> ('r \<Rightarrow> 'v \<Rightarrow> 'v) \<Rightarrow> ('v \<Rightarrow> 'v \<Rightarrow> 'v) \<Rightarrow> ('i \<Rightarrow> 'v) \<Rightarrow>
    ('r, 'v) lambda_reduce_body \<Rightarrow> 'i list \<Rightarrow> bool" where
  "lambda_accumulated ident rb red f b xs \<longleftrightarrow>
     b = \<lparr>identity_element = ident, my_real_body = rb, my_reduction = red, my_value = foldl red ident (map f xs)\<rparr>"

lemma foldl_unit:
  assumes assoc: "\<And>x y z. red (red x y) z = red x (red y z)" and unit: "\<And>x. red x ident = x"
  shows "red v (foldl red ident ys) = foldl red v ys"
  using unit by (induction ys rule: rev_induct) (simp_all flip: assoc)

lemma lambda_reduction:
  assumes assoc: "\<And>x y z. red (red x y) z = red x (red y z)" and unit: "\<And>x. red x ident = x"
    and rb: "\<And>r v. ok r \<Longrightarrow> rb r v = foldl red v (map f (sq r))"
  shows "reduction_body lambda_ops ok sq (lambda_accumulated ident rb red f)"
proof
  fix b c and xs ys r
  assume b: "lambda_accumulated ident rb red f b xs"
  then show "lambda_accumulated ident rb red f (split_body lambda_ops b) []"
    by (simp add: lambda_accumulated_def lambda_ops_def lambda_split_def)
  show "lambda_accumulated ident rb red f (apply_body lambda_ops r b) (xs @ sq r)" if "ok r"
    using b rb [OF that] by (simp add: lambda_accumulated_def lambda_ops_def lambda_apply_def)
  show "lambda_accumulated ident rb red f (join_body lambda_ops b c) (xs @ ys)"
    if "lambda_accumulated ident rb red f c ys"
    using b that foldl_unit [OF assoc unit] by (simp add: lambda_accumulated_def lambda_ops_def lambda_join_def)
qed

text \<open>The contracts hold for blocked ranges and the body that lists the iterations it is given.\<close>

definition list_body :: "blocked_range \<Rightarrow> 64 word list \<Rightarrow> 64 word list" where
  "list_body r v = v @ br_seq r"

lemma foldl_singletons: "foldl (@) v (map (\<lambda>x. [x]) ys) = v @ ys"
  by (induction ys arbitrary: v) simp_all

interpretation seq1: ordered_range "br_ops exact_part" br_ok br_seq
  by (rule br_ordered_range [OF exact_part_good])

interpretation oloop1: ordered_loop "br_ops exact_part" br_ok br_seq True exact_fdiv
  by unfold_locales (rule exact_fdiv_le)

interpretation listing: reduction_body lambda_ops br_ok br_seq "lambda_accumulated [] list_body (@) (\<lambda>x. [x])"
  by (rule lambda_reduction) (simp_all add: list_body_def foldl_singletons)

interpretation listed: ordered_reduction "br_ops exact_part" br_ok br_seq True exact_fdiv lambda_ops
    "lambda_accumulated [] list_body (@) (\<lambda>x. [x])"
  by unfold_locales

section \<open>The deterministic reduction\<close>

text \<open>A task holds its range and the body it works with; a finish task its left body and the right one it owns.\<close>

datatype 'r det_tree = Det_ended | Det_task 'r nat | Det_finish nat nat "'r det_tree" "'r det_tree"

inductive det_step :: "'r range_ops \<Rightarrow> ('r, 'b) reduce_body \<Rightarrow> 'r det_tree \<Rightarrow> 'b reduce_env \<Rightarrow>
    'r det_tree \<Rightarrow> 'b reduce_env \<Rightarrow> bool"
  for ops B where
  det_leaf: "\<not> range_is_divisible ops r \<Longrightarrow>
    det_step ops B (Det_task r p) e Det_ended (e\<lparr>body_of := run_bodies B [r] p (body_of e)\<rparr>)"
| det_divide: "range_is_divisible ops r \<Longrightarrow> range_split ops Split r = (left, right) \<Longrightarrow> q = next_body e \<Longrightarrow>
    det_step ops B (Det_task r p) e (Det_finish p q (Det_task left p) (Det_task right q))
      (e\<lparr>body_of := (body_of e)(q := split_body B (body_of e p)), next_body := q + 1\<rparr>)"
| det_join: "det_step ops B (Det_finish p q Det_ended Det_ended) e Det_ended
    (e\<lparr>body_of := (body_of e)(p := join_body B (body_of e p) (body_of e q))\<rparr>)"
| det_left: "det_step ops B l e l' e' \<Longrightarrow> det_step ops B (Det_finish p q l r) e (Det_finish p q l' r) e'"
| det_right: "det_step ops B r e r' e' \<Longrightarrow> det_step ops B (Det_finish p q l r) e (Det_finish p q l r') e'"

inductive det_steps :: "'r range_ops \<Rightarrow> ('r, 'b) reduce_body \<Rightarrow> nat \<Rightarrow> 'r det_tree \<Rightarrow> 'b reduce_env \<Rightarrow>
    'r det_tree \<Rightarrow> 'b reduce_env \<Rightarrow> bool"
  for ops B where
  none: "det_steps ops B 0 \<tau> e \<tau> e"
| more: "det_steps ops B n \<tau> e \<tau>1 e1 \<Longrightarrow> det_step ops B \<tau>1 e1 \<tau>2 e2 \<Longrightarrow> det_steps ops B (Suc n) \<tau> e \<tau>2 e2"

definition det_run :: "'r range_ops \<Rightarrow> 'r \<Rightarrow> 'b \<Rightarrow> 'r det_tree \<times> 'b reduce_env" where
  "det_run ops r b = (if range_empty ops r then Det_ended else Det_task r 0,
     \<lparr>body_of = (\<lambda>_. b), next_body = 1, affinity_ids = []\<rparr>)"

text \<open>The same splits and joins without tasks; the number bounds the depth.\<close>

fun det_reduce :: "'r range_ops \<Rightarrow> ('r, 'b) reduce_body \<Rightarrow> nat \<Rightarrow> 'r \<Rightarrow> 'b \<Rightarrow> 'b option" where
  "det_reduce ops B n r b =
     (if \<not> range_is_divisible ops r then Some (apply_body B r b)
      else case n of 0 \<Rightarrow> None
        | Suc m \<Rightarrow> (case range_split ops Split r of (left, right) \<Rightarrow>
            (case det_reduce ops B m left b of None \<Rightarrow> None
             | Some x \<Rightarrow> (case det_reduce ops B m right (split_body B b) of None \<Rightarrow> None
                 | Some y \<Rightarrow> Some (join_body B x y)))))"

declare det_reduce.simps [simp del]

lemma det_reduce_more: "det_reduce ops B n r b = Some x \<Longrightarrow> n \<le> n' \<Longrightarrow> det_reduce ops B n' r b = Some x"
proof (induction n arbitrary: r b x n')
  case 0
  then show ?case by (simp add: det_reduce.simps [of ops B _ r b] split: if_splits)
next
  case (Suc n)
  obtain m' where m': "n' = Suc m'" "n \<le> m'" using Suc.prems(2) by (cases n') auto
  show ?case
  proof (cases "range_is_divisible ops r")
    case True
    obtain left right where lr: "range_split ops Split r = (left, right)" by fastforce
    obtain y z where y: "det_reduce ops B n left b = Some y" and z: "det_reduce ops B n right (split_body B b) = Some z"
      and x: "x = join_body B y z"
      using Suc.prems(1) True lr by (simp add: det_reduce.simps [of ops B "Suc n" r b] split: option.splits)
    show ?thesis using Suc.IH [OF y m'(2)] Suc.IH [OF z m'(2)] True lr
      by (simp add: m'(1) x det_reduce.simps [of ops B "Suc m'" r b])
  qed (use Suc.prems(1) in \<open>simp add: det_reduce.simps [of ops B _ r b]\<close>)
qed

fun det_slots :: "'r det_tree \<Rightarrow> nat set" where
  "det_slots (Det_finish p q l r) = insert q (det_slots l \<union> det_slots r)"
| "det_slots _ = {}"

context ordered_range
begin

lemma halves:
  assumes "ok r" "range_is_divisible ops r" "range_split ops Split r = (left, right)"
  shows "ok left" "ok right" "sq left \<noteq> []" "sq right \<noteq> []" "sq left @ sq right = sq r"
    "length (sq left) < length (sq r)" "length (sq right) < length (sq r)"
proof -
  show g: "ok left" "ok right" "sq left \<noteq> []" "sq right \<noteq> []" "sq left @ sq right = sq r"
    using split_seq_ok [OF assms(1,2), of Split] split_sq_nonempty [OF assms(1,2), of Split] split_sq [OF assms(1,2), of Split]
      assms(3) by simp_all
  show "length (sq left) < length (sq r)" "length (sq right) < length (sq r)"
    using g(3,4) unfolding g(5) [symmetric] by simp_all
qed

lemma det_reduce_total: "ok r \<Longrightarrow> length (sq r) \<le> n \<Longrightarrow> \<exists>x. det_reduce ops B n r b = Some x"
proof (induction n arbitrary: r b)
  case 0
  then have "\<not> range_is_divisible ops r" using halves [of r] by (metis le_zero_eq not_less_zero prod.exhaust)
  then show ?case by (simp add: det_reduce.simps)
next
  case (Suc n)
  show ?case
  proof (cases "range_is_divisible ops r")
    case True
    obtain left right where lr: "range_split ops Split r = (left, right)" by fastforce
    note h = halves [OF Suc.prems(1) True lr]
    obtain x where x: "det_reduce ops B n left b = Some x" using Suc.IH [of left b] h Suc.prems(2) by auto
    obtain y where y: "det_reduce ops B n right (split_body B b) = Some y"
      using Suc.IH [of right "split_body B b"] h Suc.prems(2) by auto
    show ?thesis using True lr x y by (simp add: det_reduce.simps [of ops B "Suc n"])
  qed (simp add: det_reduce.simps)
qed

definition det_value :: "('r, 'b) reduce_body \<Rightarrow> 'r \<Rightarrow> 'b \<Rightarrow> 'b" where
  "det_value B r b = the (det_reduce ops B (length (sq r)) r b)"

lemma det_value_eq: "ok r \<Longrightarrow> length (sq r) \<le> n \<Longrightarrow> det_reduce ops B n r b = Some (det_value B r b)"
  using det_reduce_total [of r "length (sq r)" B b] det_reduce_more [of ops B "length (sq r)" r b _ n]
  by (auto simp: det_value_def)

lemma det_value_leaf: "ok r \<Longrightarrow> \<not> range_is_divisible ops r \<Longrightarrow> det_value B r b = apply_body B r b"
  by (simp add: det_value_def det_reduce.simps)

lemma det_value_split:
  assumes "ok r" "range_is_divisible ops r" "range_split ops Split r = (left, right)"
  shows "det_value B r b = join_body B (det_value B left b) (det_value B right (split_body B b))"
proof -
  note h = halves [OF assms]
  obtain n where n: "length (sq r) = Suc n" using h(6) by (cases "length (sq r)") auto
  have v: "det_reduce ops B n left b = Some (det_value B left b)"
    "det_reduce ops B n right (split_body B b) = Some (det_value B right (split_body B b))"
    using h n by (auto intro!: det_value_eq)
  show ?thesis using det_value_eq [OF assms(1), of "Suc n" B b] n assms(2,3) v
    by (simp add: det_reduce.simps [of ops B "Suc n"])
qed

fun det_ok :: "nat \<Rightarrow> 'r det_tree \<Rightarrow> bool" where
  "det_ok p Det_ended \<longleftrightarrow> True"
| "det_ok p (Det_task r p') \<longleftrightarrow> p' = p \<and> ok r \<and> sq r \<noteq> []"
| "det_ok p (Det_finish p' q l r) \<longleftrightarrow> p' = p \<and> q \<noteq> p \<and> det_ok p l \<and> det_ok q r \<and> p \<notin> det_slots l \<union> det_slots r \<and>
     q \<notin> det_slots l \<union> det_slots r \<and> det_slots l \<inter> det_slots r = {}"

fun det_outcome :: "('r, 'b) reduce_body \<Rightarrow> (nat \<Rightarrow> 'b) \<Rightarrow> nat \<Rightarrow> 'r det_tree \<Rightarrow> 'b" where
  "det_outcome B m p Det_ended = m p"
| "det_outcome B m p (Det_task r p') = det_value B r (m p)"
| "det_outcome B m p (Det_finish p' q l r) = join_body B (det_outcome B m p l) (det_outcome B m q r)"

fun det_weight :: "'r det_tree \<Rightarrow> nat" where
  "det_weight Det_ended = 0"
| "det_weight (Det_task r p) = 3 * length (sq r) - 2"
| "det_weight (Det_finish p q l r) = det_weight l + det_weight r + 1"

lemma det_outcome_cong:
  "m p = m' p \<Longrightarrow> (\<And>x. x \<in> det_slots \<tau> \<Longrightarrow> m x = m' x) \<Longrightarrow> det_outcome B m p \<tau> = det_outcome B m' p \<tau>"
proof (induction \<tau> arbitrary: p)
  case (Det_finish p' q l r)
  have "det_outcome B m p l = det_outcome B m' p l" by (rule Det_finish.IH(1)) (use Det_finish.prems in auto)
  moreover have "det_outcome B m q r = det_outcome B m' q r" by (rule Det_finish.IH(2)) (use Det_finish.prems in auto)
  ultimately show ?case by simp
qed simp_all

definition det_result :: "('r, 'b) reduce_body \<Rightarrow> nat \<Rightarrow> 'r det_tree \<Rightarrow> 'b reduce_env \<Rightarrow> 'r det_tree \<Rightarrow> 'b reduce_env \<Rightarrow> bool" where
  "det_result B p \<tau> e \<tau>' e' \<longleftrightarrow> det_ok p \<tau>' \<and> det_slots \<tau>' \<subseteq> det_slots \<tau> \<union> {next_body e..<next_body e'} \<and>
     next_body e \<le> next_body e' \<and> det_outcome B (body_of e') p \<tau>' = det_outcome B (body_of e) p \<tau> \<and>
     (\<forall>x<next_body e. x \<notin> insert p (det_slots \<tau>) \<longrightarrow> body_of e' x = body_of e x) \<and> det_weight \<tau>' < det_weight \<tau>"

lemma det_resultD:
  assumes "det_result B p \<tau> e \<tau>' e'"
  shows "det_ok p \<tau>'" "det_slots \<tau>' \<subseteq> det_slots \<tau> \<union> {next_body e..<next_body e'}" "next_body e \<le> next_body e'"
    "det_outcome B (body_of e') p \<tau>' = det_outcome B (body_of e) p \<tau>"
    "x < next_body e \<Longrightarrow> x \<notin> insert p (det_slots \<tau>) \<Longrightarrow> body_of e' x = body_of e x" "det_weight \<tau>' < det_weight \<tau>"
  using assms by (simp_all add: det_result_def)

lemma det_left_ok:
  assumes r: "det_result B p l e l' e'" and ok: "det_ok p (Det_finish p q l r)"
    and n: "p < next_body e" "det_slots (Det_finish p q l r) \<subseteq> {..<next_body e}"
  shows "det_result B p (Det_finish p q l r) e (Det_finish p q l' r) e'"
proof -
  note d = det_resultD [OF r]
  have "det_outcome B (body_of e') q r = det_outcome B (body_of e) q r"
    by (rule det_outcome_cong) (use d(5) ok n in auto)
  moreover have "det_ok p (Det_finish p q l' r)" using d(1,2) ok n by fastforce
  ultimately show ?thesis using d n unfolding det_result_def by auto
qed

lemma det_right_ok:
  assumes r: "det_result B q r e r' e'" and ok: "det_ok p (Det_finish p q l r)"
    and n: "p < next_body e" "det_slots (Det_finish p q l r) \<subseteq> {..<next_body e}"
  shows "det_result B p (Det_finish p q l r) e (Det_finish p q l r') e'"
proof -
  note d = det_resultD [OF r]
  have "det_outcome B (body_of e') p l = det_outcome B (body_of e) p l"
    by (rule det_outcome_cong) (use d(5) ok n in auto)
  moreover have "det_ok p (Det_finish p q l r')" using d(1,2) ok n by fastforce
  ultimately show ?thesis using d n unfolding det_result_def by auto
qed

lemma det_step_ok:
  "det_step ops B \<tau> e \<tau>' e' \<Longrightarrow> det_ok p \<tau> \<Longrightarrow> p < next_body e \<Longrightarrow> det_slots \<tau> \<subseteq> {..<next_body e} \<Longrightarrow>
    det_result B p \<tau> e \<tau>' e'"
proof (induction arbitrary: p rule: det_step.induct)
  case (det_leaf r p' e)
  then show ?case by (cases "sq r") (simp_all add: det_result_def det_value_leaf run_bodies_def)
next
  case (det_divide r left right q e p')
  have r: "ok r" "p' = p" using det_divide.prems(1) by simp_all
  note h = halves [OF r(1) det_divide.hyps(1,2)]
  have "det_weight (Det_finish p q (Det_task left p) (Det_task right q)) < det_weight (Det_task r p)"
    using h(3,4) unfolding det_weight.simps h(5) [symmetric] by (cases "sq left"; cases "sq right"; simp)
  then show ?case using r h det_divide det_value_split [OF r(1) det_divide.hyps(1,2), of B "body_of e p"]
    by (simp add: det_result_def)
next
  case (det_join p' q e)
  then show ?case by (simp add: det_result_def)
next
  case (det_left l e l' e' p' q r)
  have "det_result B p l e l' e'" by (rule det_left.IH) (use det_left.prems in auto)
  then show ?case using det_left_ok [of B p l e l' e' q r] det_left.prems by simp
next
  case (det_right r e r' e' p' q l)
  have "det_result B q r e r' e'" by (rule det_right.IH) (use det_right.prems in auto)
  then show ?case using det_right_ok [of B q r e r' e' p l] det_right.prems by simp
qed

lemma det_steps_ok:
  "det_steps ops B n \<tau> e \<tau>' e' \<Longrightarrow> det_ok p \<tau> \<Longrightarrow> p < next_body e \<Longrightarrow> det_slots \<tau> \<subseteq> {..<next_body e} \<Longrightarrow>
    det_ok p \<tau>' \<and> p < next_body e' \<and> det_slots \<tau>' \<subseteq> {..<next_body e'} \<and>
    det_outcome B (body_of e') p \<tau>' = det_outcome B (body_of e) p \<tau> \<and> n + det_weight \<tau>' \<le> det_weight \<tau>"
proof (induction rule: det_steps.induct)
  case (more n \<tau> e \<tau>1 e1 \<tau>2 e2)
  then have h: "det_ok p \<tau>1" "p < next_body e1" "det_slots \<tau>1 \<subseteq> {..<next_body e1}"
    "det_outcome B (body_of e1) p \<tau>1 = det_outcome B (body_of e) p \<tau>" "n + det_weight \<tau>1 \<le> det_weight \<tau>" by auto
  note d = det_resultD [OF det_step_ok [OF more.hyps(2) h(1-3)]]
  have "det_slots \<tau>2 \<subseteq> {..<next_body e2}" using d(2,3) h(3) by fastforce
  then show ?case using d(1,3,4,6) h by auto
qed simp

lemma det_progress: "\<tau> \<noteq> Det_ended \<Longrightarrow> \<exists>\<tau>' e'. det_step ops B \<tau> e \<tau>' e'"
proof (induction \<tau>)
  case (Det_task r p)
  obtain left right where "range_split ops Split r = (left, right)" by fastforce
  then show ?case using det_step.det_leaf [of ops r B p e] det_step.det_divide [of ops r left right "next_body e" e B p] by blast
next
  case (Det_finish p q l r)
  consider "l \<noteq> Det_ended" | "r \<noteq> Det_ended" | "l = Det_ended" "r = Det_ended" by blast
  then show ?case
  proof cases
    case 1
    then show ?thesis using Det_finish.IH(1) det_step.det_left [of ops B l e _ _ p q r] by blast
  next
    case 2
    then show ?thesis using Det_finish.IH(2) det_step.det_right [of ops B r e _ _ p q l] by blast
  next
    case 3
    then show ?thesis using det_step.det_join [of ops B p q e] by blast
  qed
qed simp

lemma det_run_correct:
  assumes r: "ok r" and run: "det_run ops r b = (\<tau>0, e0)" "det_steps ops B m \<tau>0 e0 \<tau> e"
  shows "m \<le> 3 * length (sq r)"
    "\<tau> = Det_ended \<Longrightarrow> Some (body_of e 0) = (if range_empty ops r then Some b else det_reduce ops B (length (sq r)) r b)"
proof -
  have i: "det_ok 0 \<tau>0" "0 < next_body e0" "det_slots \<tau>0 \<subseteq> {..<next_body e0}" "det_weight \<tau>0 \<le> 3 * length (sq r)"
    "det_outcome B (body_of e0) 0 \<tau>0 = (if range_empty ops r then b else det_value B r b)"
    using run(1) r empty_sq by (auto simp: det_run_def split: if_splits)
  note d = det_steps_ok [OF run(2) i(1-3)]
  show "m \<le> 3 * length (sq r)" using d i(4) by linarith
  show "Some (body_of e 0) = (if range_empty ops r then Some b else det_reduce ops B (length (sq r)) r b)" if "\<tau> = Det_ended"
    using d i(5) that det_value_eq [OF r order_refl, of B b] by simp
qed

lemma det_completes:
  assumes r: "ok r" and run: "det_run ops r b = (\<tau>0, e0)"
  shows "\<exists>m e. det_steps ops B m \<tau>0 e0 Det_ended e"
proof (rule ccontr)
  assume no: "\<not> (\<exists>m e. det_steps ops B m \<tau>0 e0 Det_ended e)"
  have "\<exists>\<tau> e. det_steps ops B m \<tau>0 e0 \<tau> e" for m
  proof (induction m)
    case (Suc m)
    then obtain \<tau> e where s: "det_steps ops B m \<tau>0 e0 \<tau> e" by blast
    then have "\<tau> \<noteq> Det_ended" using no by blast
    then show ?case using det_progress [of \<tau> B e] det_steps.more [OF s] by blast
  qed (use det_steps.none in blast)
  then show False using det_run_correct(1) [OF r run] by (metis Suc_n_not_le_n)
qed

end

section \<open>Properties\<close>

text \<open>
  C30: \<^verbatim>\<open>parallel_reduce\<close> with a body class: any execution takes at most 18 steps per iteration (plus one),
  some task can go on until all have ended, and then the user's body has accumulated the iterations of
  the whole range in their order.
\<close>

theorem parallel_reduce_in_order:
  assumes "ordered_range ops ok sq" and "\<forall>n l r. fdiv n l r \<le> n" and "reduction_body B ok sq accumulated"
    and "ok r" and "p \<in> root_partitions threads" and "accumulated b xs"
    and "reduce_run ops threads p arr r b = (\<tau>0, e0)" and "reduce_steps ops in_proportion fdiv B m \<tau>0 e0 \<tau> e"
  shows "m \<le> 18 * length (sq r) + 1 \<and> (\<tau> = Ended \<longrightarrow> accumulated (body_of e 0) (xs @ sq r)) \<and>
    (\<tau> \<noteq> Ended \<longrightarrow> (\<exists>\<tau>' e'. reduce_step ops in_proportion fdiv B \<tau> e \<tau>' e'))"
proof -
  have l: "ordered_reduction ops ok sq fdiv B accumulated"
    using assms(1-3) by (simp add: ordered_reduction_def ordered_loop_def ordered_loop_axioms_def)
  show ?thesis using ordered_reduction.reduces_in_order [OF l assms(4-8)] by blast
qed

theorem parallel_reduce_in_order_witness:
  "\<exists>m \<tau>0 e0 e. reduce_run (br_ops exact_part) 4 Simple_partition [] \<lparr>my_end = 9, my_begin = 4, my_grainsize = 1\<rparr>
      (lambda_new [] list_body (@)) = (\<tau>0, e0) \<and>
    reduce_steps (br_ops exact_part) True exact_fdiv lambda_ops m \<tau>0 e0 Ended e \<and>
    lambda_accumulated [] list_body (@) (\<lambda>x. [x]) (body_of e 0) [4, 5, 6, 7, 8]"
proof -
  let ?r = "\<lparr>my_end = 9, my_begin = 4, my_grainsize = 1\<rparr> :: blocked_range"
  let ?b = "lambda_new [] list_body (@)"
  obtain \<tau>0 e0 where run: "reduce_run (br_ops exact_part) 4 Simple_partition [] ?r ?b = (\<tau>0, e0)" by fastforce
  have h: "\<forall>n l r. exact_fdiv n l r \<le> n" "br_ok ?r" "Simple_partition \<in> root_partitions 4"
    "lambda_accumulated [] list_body (@) (\<lambda>x. [x]) ?b []"
    using exact_fdiv_le by (simp_all add: br_ok_def root_partitions_def lambda_accumulated_def lambda_new_def)
  obtain m e where s: "reduce_steps (br_ops exact_part) True exact_fdiv lambda_ops m \<tau>0 e0 Ended e"
    using listed.reduce_completes [OF h(2-4) run] by blast
  have "lambda_accumulated [] list_body (@) (\<lambda>x. [x]) (body_of e 0) ([] @ br_seq ?r)"
    using parallel_reduce_in_order [OF br_ordered_range [OF exact_part_good] h(1) listing.reduction_body_axioms h(2-4) run s]
    by blast
  moreover have "br_seq ?r = [4, 5, 6, 7, 8]" by (simp add: br_seq_def upt_rec)
  ultimately show ?thesis using run s by (metis append_Nil)
qed

text \<open>
  C14: \<^verbatim>\<open>parallel_reduce\<close> with functions on a blocked range: when the reduction is associative, the identity
  is neutral on the right and the function folds the iterations of its subrange into the value it is
  given, the result is the fold over the whole range from left to right; commutativity is not needed,
  whatever the partitioner, the schedule and the stealing.
\<close>

theorem parallel_reduce_folds:
  assumes "good_fpart fpart" and "\<forall>n l r. fdiv n l r \<le> n" and "br_ok r" and "p \<in> root_partitions threads"
    and "\<forall>x y z. red (red x y) z = red x (red y z)" and "\<forall>x. red x ident = x"
    and "\<forall>r v. br_ok r \<longrightarrow> rb r v = foldl red v (map f (br_seq r))"
    and "reduce_run (br_ops fpart) threads p arr r (lambda_new ident rb red) = (\<tau>0, e0)"
    and "reduce_steps (br_ops fpart) in_proportion fdiv lambda_ops m \<tau>0 e0 Ended e"
  shows "parallel_reduce_result (body_of e) = foldl red ident (map f (br_seq r))"
proof -
  have "reduction_body lambda_ops br_ok br_seq (lambda_accumulated ident rb red f)"
    by (rule lambda_reduction) (use assms(5-7) in auto)
  then have l: "ordered_reduction (br_ops fpart) br_ok br_seq fdiv lambda_ops (lambda_accumulated ident rb red f)"
    using br_ordered_range [OF assms(1)] assms(2) by (simp add: ordered_reduction_def ordered_loop_def ordered_loop_axioms_def)
  have "lambda_accumulated ident rb red f (lambda_new ident rb red) []" by (simp add: lambda_accumulated_def lambda_new_def)
  from ordered_reduction.reduces_in_order(2) [OF l assms(3,4) this assms(8,9) refl]
  show ?thesis by (simp add: lambda_accumulated_def parallel_reduce_result_def)
qed

theorem parallel_reduce_folds_witness:
  "\<exists>m \<tau>0 e0 e. reduce_run (br_ops exact_part) 4 Simple_partition [] \<lparr>my_end = 9, my_begin = 4, my_grainsize = 1\<rparr>
      (lambda_new [] list_body (@)) = (\<tau>0, e0) \<and>
    reduce_steps (br_ops exact_part) True exact_fdiv lambda_ops m \<tau>0 e0 Ended e \<and>
    parallel_reduce_result (body_of e) = [4, 5, 6, 7, 8]"
proof -
  let ?r = "\<lparr>my_end = 9, my_begin = 4, my_grainsize = 1\<rparr> :: blocked_range"
  obtain \<tau>0 e0 where run: "reduce_run (br_ops exact_part) 4 Simple_partition [] ?r (lambda_new [] list_body (@)) = (\<tau>0, e0)" by fastforce
  have h: "\<forall>n l r. exact_fdiv n l r \<le> n" "br_ok ?r" "Simple_partition \<in> root_partitions 4"
    "lambda_accumulated [] list_body (@) (\<lambda>x. [x]) (lambda_new [] list_body (@)) []"
    using exact_fdiv_le by (simp_all add: br_ok_def root_partitions_def lambda_accumulated_def lambda_new_def)
  obtain m e where s: "reduce_steps (br_ops exact_part) True exact_fdiv lambda_ops m \<tau>0 e0 Ended e"
    using listed.reduce_completes [OF h(2-4) run] by blast
  have "parallel_reduce_result (body_of e) = foldl (@) [] (map (\<lambda>x. [x]) (br_seq ?r))"
    by (rule parallel_reduce_folds [OF exact_part_good h(1-3) _ _ _ run s]) (simp_all add: list_body_def foldl_singletons)
  moreover have "br_seq ?r = [4, 5, 6, 7, 8]" by (simp add: br_seq_def upt_rec)
  ultimately show ?thesis using run s by (metis foldl_singletons append_Nil)
qed

text \<open>
  C31: \<^verbatim>\<open>parallel_deterministic_reduce\<close> applies the body to the same subranges and joins the results in the
  same order on every run: the user's body ends as the sequential recursion leaves it, for any body class
  and any schedule; a run takes at most three steps per iteration and never gets stuck.
\<close>

theorem deterministic_reduce_schedule_free:
  assumes "ordered_range ops ok sq" and "ok r" and "det_run ops r b = (\<tau>0, e0)" and "det_steps ops B m \<tau>0 e0 \<tau> e"
  shows "m \<le> 3 * length (sq r) \<and>
    (if \<tau> = Det_ended
     then Some (body_of e 0) = (if range_empty ops r then Some b else det_reduce ops B (length (sq r)) r b)
     else (\<exists>\<tau>' e'. det_step ops B \<tau> e \<tau>' e'))"
  using ordered_range.det_run_correct [OF assms] ordered_range.det_progress [OF assms(1), of \<tau> B e] by simp

theorem deterministic_reduce_schedule_free_witness:
  "\<exists>m \<tau>0 e0 e. det_run (br_ops exact_part) \<lparr>my_end = 9, my_begin = 4, my_grainsize = 2\<rparr>
      (lambda_new (0::int) (\<lambda>r v. v - uint (my_begin (r::blocked_range))) (-)) = (\<tau>0, e0) \<and>
    det_steps (br_ops exact_part) lambda_ops m \<tau>0 e0 Det_ended e \<and> parallel_reduce_result (body_of e) = - 5"
proof -
  let ?r = "\<lparr>my_end = 9, my_begin = 4, my_grainsize = 2\<rparr> :: blocked_range"
  let ?b = "lambda_new (0::int) (\<lambda>r v. v - uint (my_begin (r::blocked_range))) (-)"
  obtain \<tau>0 e0 where run: "det_run (br_ops exact_part) ?r ?b = (\<tau>0, e0)" by fastforce
  have ok: "br_ok ?r" by (simp add: br_ok_def)
  obtain m e where s: "det_steps (br_ops exact_part) lambda_ops m \<tau>0 e0 Det_ended e"
    using seq1.det_completes [OF ok run] by blast
  have ne: "\<not> range_empty (br_ops exact_part) ?r" by (simp add: br_ops_def br_empty_def)
  have "Some (body_of e 0) = det_reduce (br_ops exact_part) lambda_ops (length (br_seq ?r)) ?r ?b"
    using deterministic_reduce_schedule_free [OF br_ordered_range [OF exact_part_good] ok run s] ne by simp
  then have "Some (parallel_reduce_result (body_of e)) =
      map_option my_value (det_reduce (br_ops exact_part) lambda_ops (length (br_seq ?r)) ?r ?b)"
    by (metis option.map(2) parallel_reduce_result_def)
  also have "\<dots> = Some (- 5)" by code_simp
  finally show ?thesis using run s by blast
qed

end
