(* ===== verification/Parallel_Sort.thy ===== *)
theory Parallel_Sort
  imports Prelude
begin

text \<open>
  \<^verbatim>\<open>parallel_sort\<close> (include/tbb/parallel_sort.h): the quicksort range whose splitting constructor
  partitions the array around a pseudo median, the body that sorts a piece serially, the pretest
  that looks for a descent in parallel and cancels the group when it finds one, and the function
  that composes them. The array is a list, an iterator an index; \<^verbatim>\<open>comp\<close> is \<open>lt\<close> and \<^verbatim>\<open>std::sort\<close> a
  parameter that sorts the list of a segment. A failed assertion or an index that would run out
  of the array is \<open>None\<close>. \<^verbatim>\<open>parallel_for\<close> splits and runs pieces in any order, so the two parallel
  loops are step relations.
\<close>

section \<open>The range\<close>

record qs_range =
  qs_begin :: nat
  qs_size :: nat

definition grainsize :: nat where
  "grainsize = 500"

definition qs_empty :: "qs_range \<Rightarrow> bool" where
  "qs_empty r \<longleftrightarrow> qs_size r = 0"

definition qs_is_divisible :: "qs_range \<Rightarrow> bool" where
  "qs_is_divisible r \<longleftrightarrow> qs_size r \<ge> grainsize"

definition median_of_three :: "('a \<Rightarrow> 'a \<Rightarrow> bool) \<Rightarrow> 'a list \<Rightarrow> nat \<Rightarrow> nat \<Rightarrow> nat \<Rightarrow> nat \<Rightarrow> nat" where
  "median_of_three lt a b l m r =
     (if lt (a ! (b + l)) (a ! (b + m))
      then (if lt (a ! (b + m)) (a ! (b + r)) then m
            else if lt (a ! (b + l)) (a ! (b + r)) then r else l)
      else (if lt (a ! (b + r)) (a ! (b + m)) then m
            else if lt (a ! (b + r)) (a ! (b + l)) then r else l))"

definition pseudo_median_of_nine :: "('a \<Rightarrow> 'a \<Rightarrow> bool) \<Rightarrow> 'a list \<Rightarrow> qs_range \<Rightarrow> nat" where
  "pseudo_median_of_nine lt a r =
     (let b = qs_begin r; off = qs_size r div 8 in
      median_of_three lt a b
        (median_of_three lt a b 0 off (off * 2))
        (median_of_three lt a b (off * 3) (off * 4) (off * 5))
        (median_of_three lt a b (off * 6) (off * 7) (qs_size r - 1)))"

text \<open>\<^verbatim>\<open>do { --j; } while( comp( *key0, array[j] ) )\<close>, with its assertion \<open>i \<le> j\<close>.\<close>

fun scan_down :: "('a \<Rightarrow> 'a \<Rightarrow> bool) \<Rightarrow> 'a list \<Rightarrow> nat \<Rightarrow> nat \<Rightarrow> nat \<Rightarrow> nat option" where
  "scan_down lt a b i 0 = None"
| "scan_down lt a b i (Suc j) =
     (if j < i then None
      else if lt (a ! b) (a ! (b + j)) then scan_down lt a b i j
      else Some j)"

text \<open>
  \<^verbatim>\<open>do { if( i==j ) goto partition; ++i; } while( comp( array[i], *key0 ) )\<close>; the flag of the
  result says that the loop was left by the \<^verbatim>\<open>goto\<close>.
\<close>

function scan_up :: "('a \<Rightarrow> 'a \<Rightarrow> bool) \<Rightarrow> 'a list \<Rightarrow> nat \<Rightarrow> nat \<Rightarrow> nat \<Rightarrow> (bool \<times> nat) option" where
  "scan_up lt a b i j =
     (if i > j then None
      else if i = j then Some (True, i)
      else if lt (a ! (b + Suc i)) (a ! b) then scan_up lt a b (Suc i) j
      else Some (False, Suc i))"
  by pat_completeness auto
termination by (relation "measure (\<lambda>(lt, a, b, i, j). j - i)") auto

declare scan_up.simps [simp del]

lemma scan_down_less: "scan_down lt a b i j = Some j' \<Longrightarrow> j' < j \<and> i \<le> j'"
  by (induction j) (auto split: if_splits)

definition swap_at :: "'a list \<Rightarrow> nat \<Rightarrow> nat \<Rightarrow> 'a list" where
  "swap_at a i j = a[i := a ! j, j := a ! i]"

text \<open>The loop \<^verbatim>\<open>for(;;)\<close> of the splitting constructor; the result is the array and \<^verbatim>\<open>j\<close> at the label.\<close>

function partition_loop :: "('a \<Rightarrow> 'a \<Rightarrow> bool) \<Rightarrow> 'a list \<Rightarrow> nat \<Rightarrow> nat \<Rightarrow> nat \<Rightarrow> ('a list \<times> nat) option" where
  "partition_loop lt a b i j =
     (if \<not> i < j then None
      else case scan_down lt a b i j of
        None \<Rightarrow> None
      | Some j' \<Rightarrow>
          (case scan_up lt a b i j' of
             None \<Rightarrow> None
           | Some (jump, i') \<Rightarrow>
               if jump \<or> i' = j' then Some (a, j')
               else partition_loop lt (swap_at a (b + i') (b + j')) b i' j'))"
  by pat_completeness auto
termination
  by (relation "measure (\<lambda>(lt, a, b, i, j). j)") (auto dest: scan_down_less)

declare partition_loop.simps [simp del]

definition qs_split :: "('a \<Rightarrow> 'a \<Rightarrow> bool) \<Rightarrow> 'a list \<Rightarrow> qs_range \<Rightarrow> ('a list \<times> qs_range \<times> qs_range) option" where
  "qs_split lt a r =
     (let b = qs_begin r; m = pseudo_median_of_nine lt a r;
          a1 = (if m \<noteq> 0 then swap_at a b (b + m) else a) in
      case partition_loop lt a1 b 0 (qs_size r) of
        None \<Rightarrow> None
      | Some (a2, j) \<Rightarrow>
          Some (swap_at a2 (b + j) b, r\<lparr>qs_size := j\<rparr>,
                \<lparr>qs_begin = b + (j + 1), qs_size = qs_size r - (j + 1)\<rparr>))"

section \<open>The serial body and the parallel sort of the pieces\<close>

definition segment :: "'a list \<Rightarrow> qs_range \<Rightarrow> 'a list" where
  "segment a r = take (qs_size r) (drop (qs_begin r) a)"

definition qs_body :: "('a list \<Rightarrow> 'a list) \<Rightarrow> 'a list \<Rightarrow> qs_range \<Rightarrow> 'a list" where
  "qs_body std_sort a r =
     take (qs_begin r) a @ std_sort (segment a r) @ drop (qs_begin r + qs_size r) a"

text \<open>
  \<^verbatim>\<open>parallel_for\<close> over a quicksort range: any range that is still there is split, when it is
  divisible, or given to the body. The ranges are listed by position.
\<close>

inductive sort_step :: "('a \<Rightarrow> 'a \<Rightarrow> bool) \<Rightarrow> ('a list \<Rightarrow> 'a list) \<Rightarrow> 'a list \<times> qs_range list \<Rightarrow> 'a list \<times> qs_range list \<Rightarrow> bool"
  for lt std_sort where
  split: "qs_is_divisible r \<Longrightarrow> qs_split lt a r = Some (a', left, right) \<Longrightarrow>
    sort_step lt std_sort (a, us @ r # vs) (a', us @ left # right # vs)"
| body: "sort_step lt std_sort (a, us @ r # vs) (qs_body std_sort a r, us @ vs)"

section \<open>The pretest\<close>

text \<open>The serial part: \<^verbatim>\<open>for ( k = begin; k != begin + serial_cutoff; ++k )\<close>; true when no descent is found.\<close>

definition serial_cutoff :: nat where
  "serial_cutoff = 9"

fun serial_pretest :: "('a \<Rightarrow> 'a \<Rightarrow> bool) \<Rightarrow> 'a list \<Rightarrow> nat \<Rightarrow> nat \<Rightarrow> bool" where
  "serial_pretest lt a k 0 \<longleftrightarrow> True"
| "serial_pretest lt a k (Suc n) \<longleftrightarrow> (if lt (a ! (k + 1)) (a ! k) then False else serial_pretest lt a (k + 1) n)"

text \<open>A block of the pretest: its position \<^verbatim>\<open>k\<close>, its end and the counter \<^verbatim>\<open>i\<close>.\<close>

record block =
  pos :: nat
  stop :: nat
  counter :: nat

text \<open>
  One iteration of one block, with what happens to the block (\<open>None\<close> when it is left) and the
  cancellation flag of the group.
\<close>

definition pretest_iter :: "('a \<Rightarrow> 'a \<Rightarrow> bool) \<Rightarrow> 'a list \<Rightarrow> bool \<Rightarrow> block \<Rightarrow> block option \<times> bool" where
  "pretest_iter lt a cancelled b =
     (if pos b = stop b then (None, cancelled)
      else if counter b mod 64 = 0 \<and> cancelled then (None, cancelled)
      else if lt (a ! pos b) (a ! (pos b - 1)) then (None, True)
      else (Some (b\<lparr>pos := pos b + 1, counter := counter b + 1\<rparr>), cancelled))"

definition opt_list :: "'a option \<Rightarrow> 'a list" where
  "opt_list m = (case m of None \<Rightarrow> [] | Some x \<Rightarrow> [x])"

text \<open>A task of a cancelled group that has not begun is skipped.\<close>

inductive pretest_step :: "('a \<Rightarrow> 'a \<Rightarrow> bool) \<Rightarrow> 'a list \<Rightarrow> block list \<times> bool \<Rightarrow> block list \<times> bool \<Rightarrow> bool"
  for lt a where
  iter: "pretest_iter lt a c b = (m, c') \<Longrightarrow> pretest_step lt a (us @ b # vs, c) (us @ opt_list m @ vs, c')"
| skip: "pretest_step lt a (us @ b # vs, True) (us @ vs, True)"

definition blocks_of :: "(nat \<times> nat) list \<Rightarrow> block list" where
  "blocks_of ps = map (\<lambda>(l, h). \<lparr>pos = l, stop = h, counter = 0\<rparr>) ps"

definition covers :: "(nat \<times> nat) list \<Rightarrow> nat \<Rightarrow> nat \<Rightarrow> bool" where
  "covers ps l h \<longleftrightarrow> list_all (\<lambda>(l, h). l \<le> h) ps \<and>
     mset (concat (map (\<lambda>(l, h). [l..<h]) ps)) = mset [l..<h]"

section \<open>The function\<close>

definition min_parallel_size :: nat where
  "min_parallel_size = 500"

inductive parallel_quick_sort :: "('a \<Rightarrow> 'a \<Rightarrow> bool) \<Rightarrow> ('a list \<Rightarrow> 'a list) \<Rightarrow> 'a list \<Rightarrow> 'a list \<Rightarrow> bool"
  for lt std_sort a where
  descent: "\<not> serial_pretest lt a 0 serial_cutoff \<Longrightarrow>
    (sort_step lt std_sort)\<^sup>*\<^sup>* (a, [\<lparr>qs_begin = 0, qs_size = length a\<rparr>]) (a', []) \<Longrightarrow>
    parallel_quick_sort lt std_sort a a'"
| cancelled: "serial_pretest lt a 0 serial_cutoff \<Longrightarrow> covers ps (serial_cutoff + 1) (length a) \<Longrightarrow>
    (pretest_step lt a)\<^sup>*\<^sup>* (blocks_of ps, False) ([], True) \<Longrightarrow>
    (sort_step lt std_sort)\<^sup>*\<^sup>* (a, [\<lparr>qs_begin = 0, qs_size = length a\<rparr>]) (a', []) \<Longrightarrow>
    parallel_quick_sort lt std_sort a a'"
| presorted: "serial_pretest lt a 0 serial_cutoff \<Longrightarrow> covers ps (serial_cutoff + 1) (length a) \<Longrightarrow>
    (pretest_step lt a)\<^sup>*\<^sup>* (blocks_of ps, False) ([], False) \<Longrightarrow>
    parallel_quick_sort lt std_sort a a"

inductive parallel_sort :: "('a \<Rightarrow> 'a \<Rightarrow> bool) \<Rightarrow> ('a list \<Rightarrow> 'a list) \<Rightarrow> 'a list \<Rightarrow> 'a list \<Rightarrow> bool"
  for lt std_sort a where
  empty: "a = [] \<Longrightarrow> parallel_sort lt std_sort a a"
| serial: "a \<noteq> [] \<Longrightarrow> length a < min_parallel_size \<Longrightarrow> parallel_sort lt std_sort a (std_sort a)"
| parallel: "\<not> length a < min_parallel_size \<Longrightarrow> parallel_quick_sort lt std_sort a a' \<Longrightarrow>
    parallel_sort lt std_sort a a'"

section \<open>Reordering a segment\<close>

definition reorders :: "'a list \<Rightarrow> 'a list \<Rightarrow> nat \<Rightarrow> nat \<Rightarrow> bool" where
  "reorders a a' b n \<longleftrightarrow> length a' = length a \<and> mset a' = mset a \<and>
     (\<forall>k. k < b \<or> b + n \<le> k \<longrightarrow> a' ! k = a ! k)"

lemma reordersI:
  "length a' = length a \<Longrightarrow> mset a' = mset a \<Longrightarrow> (\<And>k. k < b \<or> b + n \<le> k \<Longrightarrow> a' ! k = a ! k) \<Longrightarrow>
    reorders a a' b n"
  by (simp add: reorders_def)

lemma reordersD:
  assumes "reorders a a' b n"
  shows reorders_length: "length a' = length a" and reorders_mset: "mset a' = mset a"
    and reorders_outside: "k < b \<or> b + n \<le> k \<Longrightarrow> a' ! k = a ! k"
  using assms by (auto simp: reorders_def)

lemma reorders_refl [simp]: "reorders a a b n"
  by (simp add: reorders_def)

lemma reorders_trans: "reorders a a1 b n \<Longrightarrow> reorders a1 a2 b n \<Longrightarrow> reorders a a2 b n"
  by (simp add: reorders_def)

lemma length_swap_at [simp]: "length (swap_at a i j) = length a"
  by (simp add: swap_at_def)

lemma nth_swap_at:
  "i < length a \<Longrightarrow> j < length a \<Longrightarrow>
    swap_at a i j ! k = (if k = j then a ! i else if k = i then a ! j else a ! k)"
  by (simp add: swap_at_def nth_list_update)

lemma reorders_swap:
  assumes "b \<le> i" "i < b + n" "b \<le> j" "j < b + n" "b + n \<le> length a"
  shows "reorders a (swap_at a i j) b n"
proof (rule reordersI)
  show "mset (swap_at a i j) = mset a"
    unfolding swap_at_def using assms by (intro mset_update_swap) auto
qed (use assms in \<open>auto simp: nth_swap_at\<close>)

text \<open>Every element of the reordered segment was in the segment.\<close>

lemma reorders_segment:
  assumes re: "reorders a a' b n" and le: "b + n \<le> length a"
  shows "mset (take n (drop b a')) = mset (take n (drop b a))"
proof -
  have split: "xs = take b xs @ take n (drop b xs) @ drop (b + n) xs" for xs :: "'a list"
    by (metis append_take_drop_id drop_drop add.commute)
  have len: "length a' = length a" using reorders_length [OF re] .
  have "take b a' = take b a"
    by (rule nth_equalityI) (use len reorders_outside [OF re] in auto)
  moreover have "drop (b + n) a' = drop (b + n) a"
    by (rule nth_equalityI) (use len reorders_outside [OF re] in auto)
  moreover have "mset (take b a') + (mset (take n (drop b a')) + mset (drop (b + n) a')) =
      mset (take b a) + (mset (take n (drop b a)) + mset (drop (b + n) a))"
    using reorders_mset [OF re] split [of a] split [of a'] by (metis mset_append)
  ultimately show ?thesis by simp
qed

lemma reorders_from:
  assumes re: "reorders a a' b n" and le: "b + n \<le> length a" and k: "b \<le> k" "k < b + n"
  obtains k' where "b \<le> k'" "k' < b + n" "a' ! k = a ! k'"
proof -
  have "a' ! k = take n (drop b a') ! (k - b)" using k le reorders_length [OF re] by simp
  moreover have "k - b < length (take n (drop b a'))" using k le reorders_length [OF re] by simp
  ultimately have "a' ! k \<in> set (take n (drop b a'))" using nth_mem by metis
  then have "a' ! k \<in> set (take n (drop b a))" using reorders_segment [OF re le] by (metis set_mset_mset)
  then obtain m where "m < n" "a' ! k = a ! (b + m)"
    by (auto simp: in_set_conv_nth)
  then show thesis using that [of "b + m"] by simp
qed

section \<open>The partition\<close>

context strict_weak_order
begin

lemma scan_down_stops:
  assumes "i < j" "\<not> lt (a ! b) (a ! (b + i))"
  obtains j' where "scan_down lt a b i j = Some j'" "i \<le> j'" "j' < j"
    "\<not> lt (a ! b) (a ! (b + j'))" "\<And>k. j' < k \<Longrightarrow> k < j \<Longrightarrow> lt (a ! b) (a ! (b + k))"
proof -
  have "\<exists>j'. scan_down lt a b i j = Some j' \<and> i \<le> j' \<and> j' < j \<and>
      \<not> lt (a ! b) (a ! (b + j')) \<and> (\<forall>k. j' < k \<longrightarrow> k < j \<longrightarrow> lt (a ! b) (a ! (b + k)))"
    using assms
  proof (induction j)
    case (Suc j)
    show ?case
    proof (cases "lt (a ! b) (a ! (b + j))")
      case True
      then have "i < j" using Suc.prems by (metis less_antisym)
      from Suc.IH [OF this Suc.prems(2)] obtain j' where
        h: "scan_down lt a b i j = Some j'" "i \<le> j'" "j' < j" "\<not> lt (a ! b) (a ! (b + j'))"
          "\<forall>k. j' < k \<longrightarrow> k < j \<longrightarrow> lt (a ! b) (a ! (b + k))" by blast
      have "scan_down lt a b i (Suc j) = Some j'" using h(1) True \<open>i < j\<close> by simp
      then show ?thesis using h True by (auto simp: less_Suc_eq intro!: exI [of _ j'])
    next
      case False
      then show ?thesis using Suc.prems(1) by (auto intro!: exI [of _ j])
    qed
  qed simp
  then show thesis using that by blast
qed

lemma scan_up_stops:
  assumes "i \<le> j"
  obtains jump i' where "scan_up lt a b i j = Some (jump, i')" "i \<le> i'" "i' \<le> j"
    "\<And>k. i < k \<Longrightarrow> k < i' \<Longrightarrow> lt (a ! (b + k)) (a ! b)"
    "jump \<Longrightarrow> i' = j" "jump \<Longrightarrow> i < i' \<Longrightarrow> lt (a ! (b + i')) (a ! b)"
    "\<not> jump \<Longrightarrow> i < i' \<and> \<not> lt (a ! (b + i')) (a ! b)"
proof -
  have "\<exists>jump i'. scan_up lt a b i j = Some (jump, i') \<and> i \<le> i' \<and> i' \<le> j \<and>
     (\<forall>k. i < k \<longrightarrow> k < i' \<longrightarrow> lt (a ! (b + k)) (a ! b)) \<and>
     (jump \<longrightarrow> i' = j \<and> (i < i' \<longrightarrow> lt (a ! (b + i')) (a ! b))) \<and>
     (\<not> jump \<longrightarrow> i < i' \<and> \<not> lt (a ! (b + i')) (a ! b))"
    using assms
  proof (induction "j - i" arbitrary: i)
    case 0
    then have "j = i" by simp
    then show ?case by (subst scan_up.simps) auto
  next
    case (Suc d)
    then have ij: "i < j" "i \<noteq> j" "\<not> i > j" by auto
    show ?case
    proof (cases "lt (a ! (b + Suc i)) (a ! b)")
      case True
      then have eq: "scan_up lt a b i j = scan_up lt a b (Suc i) j"
        using ij by (subst scan_up.simps) simp
      have "d = j - Suc i" "Suc i \<le> j" using Suc ij by auto
      from Suc.hyps(1) [OF this] obtain jump i' where
        h: "scan_up lt a b (Suc i) j = Some (jump, i')" "Suc i \<le> i'" "i' \<le> j"
          "\<forall>k. Suc i < k \<longrightarrow> k < i' \<longrightarrow> lt (a ! (b + k)) (a ! b)"
          "jump \<longrightarrow> i' = j \<and> (Suc i < i' \<longrightarrow> lt (a ! (b + i')) (a ! b))"
          "\<not> jump \<longrightarrow> Suc i < i' \<and> \<not> lt (a ! (b + i')) (a ! b)" by blast
      have "\<forall>k. i < k \<longrightarrow> k < i' \<longrightarrow> lt (a ! (b + k)) (a ! b)"
        using h(4) True by (metis Suc_lessI)
      moreover have "jump \<longrightarrow> i' = j \<and> (i < i' \<longrightarrow> lt (a ! (b + i')) (a ! b))"
        using h(2,5) True by (metis le_neq_implies_less)
      ultimately show ?thesis unfolding eq using h by auto
    next
      case False
      then have eq: "scan_up lt a b i j = Some (False, Suc i)"
        using ij by (subst scan_up.simps) simp
      show ?thesis unfolding eq using False ij by auto
    qed
  qed
  then show thesis using that by blast
qed

end

text \<open>
  What the loop keeps: the elements up to \<open>i\<close> are not above the key \<open>a ! b\<close>, those from \<open>j\<close> on not
  below it.
\<close>

definition parted :: "('a \<Rightarrow> 'a \<Rightarrow> bool) \<Rightarrow> 'a list \<Rightarrow> nat \<Rightarrow> nat \<Rightarrow> nat \<Rightarrow> nat \<Rightarrow> bool" where
  "parted lt a b n i j \<longleftrightarrow>
     (\<forall>k \<le> i. \<not> lt (a ! b) (a ! (b + k))) \<and> (\<forall>k < n. j \<le> k \<longrightarrow> \<not> lt (a ! (b + k)) (a ! b))"

lemma partedI:
  "(\<And>k. k \<le> i \<Longrightarrow> \<not> lt (a ! b) (a ! (b + k))) \<Longrightarrow>
   (\<And>k. k < n \<Longrightarrow> j \<le> k \<Longrightarrow> \<not> lt (a ! (b + k)) (a ! b)) \<Longrightarrow> parted lt a b n i j"
  by (simp add: parted_def)

lemma partedD:
  assumes "parted lt a b n i j"
  shows parted_low: "k \<le> i \<Longrightarrow> \<not> lt (a ! b) (a ! (b + k))"
    and parted_high: "k < n \<Longrightarrow> j \<le> k \<Longrightarrow> \<not> lt (a ! (b + k)) (a ! b)"
  using assms by (simp_all add: parted_def)

context strict_weak_order
begin

lemma partition_loop_parts:
  assumes "i < j" "j \<le> n" "b + n \<le> length a" "parted lt a b n i j"
  obtains a' j' where "partition_loop lt a b i j = Some (a', j')" "j' < n" "reorders a a' b n"
    "a' ! b = a ! b" "parted lt a' b n j' (Suc j')"
proof -
  have "\<exists>a' j'. partition_loop lt a b i j = Some (a', j') \<and> j' < n \<and> reorders a a' b n \<and>
      a' ! b = a ! b \<and> parted lt a' b n j' (Suc j')"
    using assms
  proof (induction j arbitrary: a i rule: less_induct)
    case (less j)
    note low = parted_low [OF less.prems(4)] and high = parted_high [OF less.prems(4)]
    obtain d where d: "scan_down lt a b i j = Some d" "i \<le> d" "d < j" "\<not> lt (a ! b) (a ! (b + d))"
      "\<And>k. d < k \<Longrightarrow> k < j \<Longrightarrow> lt (a ! b) (a ! (b + k))"
      using scan_down_stops [OF less.prems(1) low [OF order_refl]] by blast
    obtain jump u where u: "scan_up lt a b i d = Some (jump, u)" "i \<le> u" "u \<le> d"
      "\<And>k. i < k \<Longrightarrow> k < u \<Longrightarrow> lt (a ! (b + k)) (a ! b)"
      "jump \<Longrightarrow> u = d" "jump \<Longrightarrow> i < u \<Longrightarrow> lt (a ! (b + u)) (a ! b)"
      "\<not> jump \<Longrightarrow> i < u \<and> \<not> lt (a ! (b + u)) (a ! b)"
      using scan_up_stops [OF d(2)] by blast
    have high': "\<not> lt (a ! (b + k)) (a ! b)" if "k < n" "d < k" for k
      using high [of k] d(5) [of k] asym that by (metis not_le_imp_less)
    have low': "\<not> lt (a ! b) (a ! (b + k))" if "k < u" for k
      using low [of k] u(4) [of k] asym that by (metis not_le_imp_less)
    show ?case
    proof (cases "jump \<or> u = d")
      case True
      then have eq: "u = d" using u(5) by blast
      have "partition_loop lt a b i j = Some (a, d)"
        using less.prems(1) d(1) u(1) True by (subst partition_loop.simps) simp
      moreover have "parted lt a b n d (Suc d)"
        by (rule partedI) (use low' d(4) high' eq in \<open>auto simp: le_less\<close>)
      ultimately show ?thesis using d(3) less.prems(2) by auto
    next
      case False
      let ?a = "swap_at a (b + u) (b + d)"
      have ud: "i < u" "u < d" "\<not> lt (a ! (b + u)) (a ! b)" using u(3,7) False by auto
      have dn: "d < n" using d(3) less.prems(2) by simp
      have eq: "partition_loop lt a b i j = partition_loop lt ?a b u d"
        using less.prems(1) d(1) u(1) False by (subst partition_loop.simps) simp
      have in_range: "b + u < length a" "b + d < length a" using ud dn less.prems(3) by auto
      note nth = nth_swap_at [OF in_range]
      have key: "?a ! b = a ! b" using ud by (simp add: nth)
      have "parted lt ?a b n u d"
      proof (rule partedI)
        fix k assume "k \<le> u"
        then show "\<not> lt (?a ! b) (?a ! (b + k))"
          using d(4) low' [of k] ud unfolding key nth by auto
      next
        fix k assume "k < n" "d \<le> k"
        then show "\<not> lt (?a ! (b + k)) (?a ! b)"
          using ud high' [of k] unfolding key nth by auto
      qed
      moreover have "b + n \<le> length ?a" using less.prems(3) by simp
      ultimately obtain a' j' where h: "partition_loop lt ?a b u d = Some (a', j')" "j' < n"
        "reorders ?a a' b n" "a' ! b = ?a ! b" "parted lt a' b n j' (Suc j')"
        using less.IH [OF d(3) ud(2) less_imp_le [OF dn]] by blast
      have "reorders a ?a b n" by (rule reorders_swap) (use ud dn less.prems(3) in auto)
      then have "reorders a a' b n" using h(3) reorders_trans by blast
      then show ?thesis unfolding eq using h key by auto
    qed
  qed
  then show thesis using that by blast
qed

text \<open>
  The splitting constructor never fails on a nonempty range: its result is the array reordered
  within the range and the two parts left and right of the key, which are ordered about it.
\<close>

lemma median_of_three_less:
  "l < n \<Longrightarrow> m < n \<Longrightarrow> r < n \<Longrightarrow> median_of_three lt a b l m r < n"
  by (simp add: median_of_three_def)

lemma pseudo_median_less:
  assumes "0 < qs_size r"
  shows "pseudo_median_of_nine lt a r < qs_size r"
  unfolding pseudo_median_of_nine_def Let_def
  by (intro median_of_three_less) (use assms in linarith)+

lemma qs_split_parts:
  assumes n: "0 < qs_size r" "qs_begin r + qs_size r \<le> length a"
  obtains a' j where "j < qs_size r"
    "qs_split lt a r = Some (a', \<lparr>qs_begin = qs_begin r, qs_size = j\<rparr>,
       \<lparr>qs_begin = qs_begin r + j + 1, qs_size = qs_size r - (j + 1)\<rparr>)"
    "reorders a a' (qs_begin r) (qs_size r)"
    "\<And>k. k \<le> j \<Longrightarrow> \<not> lt (a' ! (qs_begin r + j)) (a' ! (qs_begin r + k))"
    "\<And>k. j \<le> k \<Longrightarrow> k < qs_size r \<Longrightarrow> \<not> lt (a' ! (qs_begin r + k)) (a' ! (qs_begin r + j))"
proof -
  let ?b = "qs_begin r" and ?n = "qs_size r"
  define m where "m = pseudo_median_of_nine lt a r"
  have mn: "m < ?n" unfolding m_def by (rule pseudo_median_less [OF n(1)])
  define a1 where "a1 = (if m \<noteq> 0 then swap_at a ?b (?b + m) else a)"
  have re1: "reorders a a1 ?b ?n"
    unfolding a1_def using mn n by (auto intro: reorders_swap)
  have len1: "?b + ?n \<le> length a1" using n(2) reorders_length [OF re1] by simp
  have "parted lt a1 ?b ?n 0 ?n" by (rule partedI) (auto simp: irrefl)
  then obtain a2 j where p: "partition_loop lt a1 ?b 0 ?n = Some (a2, j)" "j < ?n"
    "reorders a1 a2 ?b ?n" "parted lt a2 ?b ?n j (Suc j)"
    using partition_loop_parts [OF n(1) order_refl len1] by blast
  define a3 where "a3 = swap_at a2 (?b + j) ?b"
  have len2: "?b + ?n \<le> length a2" using len1 reorders_length [OF p(3)] by simp
  have in_range: "?b + j < length a2" "?b < length a2" using p(2) len2 n(1) by auto
  note nth = nth_swap_at [OF in_range, folded a3_def]
  have re3: "reorders a2 a3 ?b ?n"
    unfolding a3_def by (rule reorders_swap) (use p(2) len2 n(1) in auto)
  have eq: "qs_split lt a r = Some (a3, r\<lparr>qs_size := j\<rparr>,
      \<lparr>qs_begin = ?b + (j + 1), qs_size = ?n - (j + 1)\<rparr>)"
    unfolding qs_split_def Let_def m_def [symmetric] a1_def [symmetric] a3_def by (simp add: p(1))
  show thesis
  proof (rule that [OF p(2)])
    show "qs_split lt a r = Some (a3, \<lparr>qs_begin = ?b, qs_size = j\<rparr>,
        \<lparr>qs_begin = ?b + j + 1, qs_size = ?n - (j + 1)\<rparr>)"
      unfolding eq by (cases r) simp
    show "reorders a a3 ?b ?n" using re1 p(3) re3 reorders_trans by blast
    have key: "a3 ! (?b + j) = a2 ! ?b" by (simp add: nth)
    show "\<not> lt (a3 ! (?b + j)) (a3 ! (?b + k))" if k: "k \<le> j" for k
      using parted_low [OF p(4), of k] parted_low [OF p(4), of j] k unfolding key nth
      by (auto simp: irrefl)
    show "\<not> lt (a3 ! (?b + k)) (a3 ! (?b + j))" if k: "j \<le> k" "k < ?n" for k
      using parted_high [OF p(4), of k] k unfolding key nth by (auto simp: irrefl)
  qed
qed

end

section \<open>Sorting the pieces\<close>

abbreviation qs_end :: "qs_range \<Rightarrow> nat" where
  "qs_end r \<equiv> qs_begin r + qs_size r"

definition inside :: "nat \<Rightarrow> qs_range \<Rightarrow> bool" where
  "inside p r \<longleftrightarrow> qs_begin r \<le> p \<and> p < qs_end r"

text \<open>
  Two positions that are not in the same range are in order, and the ranges follow one another
  within the array.
\<close>

definition sort_inv :: "('a \<Rightarrow> 'a \<Rightarrow> bool) \<Rightarrow> 'a list \<Rightarrow> 'a list \<times> qs_range list \<Rightarrow> bool" where
  "sort_inv lt a0 s \<longleftrightarrow> (case s of (a, rs) \<Rightarrow>
     mset a = mset a0 \<and>
     (\<forall>r \<in> set rs. qs_end r \<le> length a) \<and>
     sorted_wrt (\<lambda>r s. qs_end r \<le> qs_begin s) rs \<and>
     (\<forall>p q. p < q \<longrightarrow> q < length a \<longrightarrow> (\<exists>r \<in> set rs. inside p r \<and> inside q r) \<or> \<not> lt (a ! q) (a ! p)))"

lemma sort_invI:
  assumes "mset a = mset a0" "\<And>r. r \<in> set rs \<Longrightarrow> qs_end r \<le> length a"
    "sorted_wrt (\<lambda>r s. qs_end r \<le> qs_begin s) rs"
    "\<And>p q. p < q \<Longrightarrow> q < length a \<Longrightarrow> (\<exists>r \<in> set rs. inside p r \<and> inside q r) \<or> \<not> lt (a ! q) (a ! p)"
  shows "sort_inv lt a0 (a, rs)"
  using assms by (simp add: sort_inv_def)

lemma sort_invD:
  assumes "sort_inv lt a0 (a, rs)"
  shows sort_inv_mset: "mset a = mset a0"
    and sort_inv_bounds: "r \<in> set rs \<Longrightarrow> qs_end r \<le> length a"
    and sort_inv_ordered: "sorted_wrt (\<lambda>r s. qs_end r \<le> qs_begin s) rs"
    and sort_inv_pairs: "p < q \<Longrightarrow> q < length a \<Longrightarrow>
      (\<exists>r \<in> set rs. inside p r \<and> inside q r) \<or> \<not> lt (a ! q) (a ! p)"
  using assms by (auto simp: sort_inv_def)

text \<open>A range is replaced by the ranges \<open>ns\<close> after its segment was reordered.\<close>

lemma sort_inv_replace:
  assumes inv: "sort_inv lt a0 (a, us @ r # vs)"
    and re: "reorders a a' (qs_begin r) (qs_size r)"
    and sub: "\<And>s. s \<in> set ns \<Longrightarrow> qs_begin r \<le> qs_begin s \<and> qs_end s \<le> qs_end r"
    and ord: "sorted_wrt (\<lambda>r s. qs_end r \<le> qs_begin s) ns"
    and pairs: "\<And>p q. p < q \<Longrightarrow> inside p r \<Longrightarrow> inside q r \<Longrightarrow>
      (\<exists>s \<in> set ns. inside p s \<and> inside q s) \<or> \<not> lt (a' ! q) (a' ! p)"
  shows "sort_inv lt a0 (a', us @ ns @ vs)"
proof (rule sort_invI)
  note len = reorders_length [OF re]
  have le: "qs_end r \<le> length a" using sort_inv_bounds [OF inv, of r] by simp
  show "mset a' = mset a0" using reorders_mset [OF re] sort_inv_mset [OF inv] by simp
  have before: "qs_end s \<le> qs_begin r" if "s \<in> set us" for s
    using sort_inv_ordered [OF inv] that by (simp add: sorted_wrt_append)
  have behind: "qs_end r \<le> qs_begin s" if "s \<in> set vs" for s
    using sort_inv_ordered [OF inv] that by (simp add: sorted_wrt_append)
  show "qs_end s \<le> length a'" if "s \<in> set (us @ ns @ vs)" for s
    using that sub [of s] sort_inv_bounds [OF inv, of s] le len by auto
  have us_ns: "qs_end x \<le> qs_begin y" if "x \<in> set us" "y \<in> set ns" for x y
    using before [OF that(1)] sub [OF that(2)] by linarith
  have ns_vs: "qs_end x \<le> qs_begin y" if "x \<in> set ns" "y \<in> set vs" for x y
    using behind [OF that(2)] sub [OF that(1)] by linarith
  show "sorted_wrt (\<lambda>r s. qs_end r \<le> qs_begin s) (us @ ns @ vs)"
    using sort_inv_ordered [OF inv] ord us_ns ns_vs by (simp add: sorted_wrt_append ball_Un)
  fix p q assume pq: "p < q" "q < length a'"
  have from_old: "\<exists>k'. a' ! k = a ! k' \<and> k' < length a \<and> (if inside k r then inside k' r else k' = k)"
    if "k < length a" for k
  proof (cases "inside k r")
    case True
    then have "qs_begin r \<le> k" "k < qs_end r" by (auto simp: inside_def)
    from reorders_from [OF re le this] obtain k' where "qs_begin r \<le> k'" "k' < qs_end r" "a' ! k = a ! k'" .
    then show ?thesis using True le by (auto simp: inside_def)
  next
    case False
    then show ?thesis using reorders_outside [OF re, of k] that by (auto simp: inside_def)
  qed
  have "p < length a" "q < length a" using pq len by auto
  obtain p' where p': "a' ! p = a ! p'" "p' < length a" "if inside p r then inside p' r else p' = p"
    using from_old [OF \<open>p < length a\<close>] by blast
  obtain q' where q': "a' ! q = a ! q'" "q' < length a" "if inside q r then inside q' r else q' = q"
    using from_old [OF \<open>q < length a\<close>] by blast
  show "(\<exists>s \<in> set (us @ ns @ vs). inside p s \<and> inside q s) \<or> \<not> lt (a' ! q) (a' ! p)"
  proof (cases "inside p r \<and> inside q r")
    case True
    then show ?thesis using pairs [OF pq(1)] by auto
  next
    case False
    have "p' < q'" using p'(3) q'(3) pq(1) False by (auto simp: inside_def split: if_splits)
    from sort_inv_pairs [OF inv this q'(2)] show ?thesis
    proof
      assume "\<exists>s \<in> set (us @ r # vs). inside p' s \<and> inside q' s"
      then obtain s where s: "s \<in> set (us @ r # vs)" "inside p' s" "inside q' s" by blast
      have other: "s \<in> set us \<union> set vs"
        using s p'(3) q'(3) False by (auto split: if_splits)
      then have "qs_end s \<le> qs_begin r \<or> qs_end r \<le> qs_begin s" using before behind by blast
      then have "\<not> inside p' r" "\<not> inside q' r" using s by (auto simp: inside_def)
      then have "p' = p" "q' = q" using p'(3) q'(3) by (auto split: if_splits)
      then show ?thesis using other s by auto
    next
      assume "\<not> lt (a ! q') (a ! p')"
      then show ?thesis using p'(1) q'(1) by simp
    qed
  qed
qed

text \<open>What \<^verbatim>\<open>std::sort\<close> promises.\<close>

definition sorts :: "('a \<Rightarrow> 'a \<Rightarrow> bool) \<Rightarrow> ('a list \<Rightarrow> 'a list) \<Rightarrow> bool" where
  "sorts lt std_sort \<longleftrightarrow> (\<forall>xs. mset (std_sort xs) = mset xs \<and> sorted_wrt (\<lambda>x y. \<not> lt y x) (std_sort xs))"

lemma sorts_mset: "sorts lt f \<Longrightarrow> mset (f xs) = mset xs"
  by (simp add: sorts_def)

lemma sorts_sorted: "sorts lt f \<Longrightarrow> sorted_wrt (\<lambda>x y. \<not> lt y x) (f xs)"
  by (simp add: sorts_def)

lemma qs_body_reorders:
  assumes "sorts lt std_sort" "qs_end r \<le> length a"
  shows "reorders a (qs_body std_sort a r) (qs_begin r) (qs_size r)"
    and "p < q \<Longrightarrow> inside p r \<Longrightarrow> inside q r \<Longrightarrow> \<not> lt (qs_body std_sort a r ! q) (qs_body std_sort a r ! p)"
proof -
  let ?s = "std_sort (segment a r)"
  have m: "mset ?s = mset (segment a r)" by (rule sorts_mset [OF assms(1)])
  have len: "length ?s = qs_size r"
    using mset_eq_length [OF m] assms(2) by (simp add: segment_def)
  have split: "a = take (qs_begin r) a @ segment a r @ drop (qs_end r) a"
    unfolding segment_def by (metis append_take_drop_id drop_drop add.commute)
  have nth: "qs_body std_sort a r ! k =
      (if k < qs_begin r then a ! k else if k < qs_end r then ?s ! (k - qs_begin r) else a ! k)" for k
    using len assms(2) by (auto simp: qs_body_def nth_append)
  show "reorders a (qs_body std_sort a r) (qs_begin r) (qs_size r)"
  proof (rule reordersI)
    show "length (qs_body std_sort a r) = length a" using len assms(2) by (simp add: qs_body_def)
    show "mset (qs_body std_sort a r) = mset a"
      unfolding qs_body_def by (subst (2) split) (simp add: m)
  qed (auto simp: nth)
  assume pq: "p < q" "inside p r" "inside q r"
  then have "p - qs_begin r < q - qs_begin r" "q - qs_begin r < length ?s"
    using len by (auto simp: inside_def)
  from sorted_wrt_nth_less [OF sorts_sorted [OF assms(1)] this] pq
  show "\<not> lt (qs_body std_sort a r ! q) (qs_body std_sort a r ! p)"
    by (simp add: nth inside_def)
qed

context strict_weak_order
begin

lemma sort_step_inv:
  assumes step: "sort_step lt std_sort s t" and inv: "sort_inv lt a0 s" and srt: "sorts lt std_sort"
  shows "sort_inv lt a0 t"
  using step inv
proof (cases rule: sort_step.cases)
  case (split r a a' left right us vs)
  have n: "0 < qs_size r" "qs_end r \<le> length a"
    using split(3) sort_inv_bounds [OF inv [unfolded split(1)], of r]
    by (simp_all add: qs_is_divisible_def grainsize_def)
  from qs_split_parts [OF n] obtain a'' j where
    p: "j < qs_size r" "qs_split lt a r = Some (a'', \<lparr>qs_begin = qs_begin r, qs_size = j\<rparr>,
       \<lparr>qs_begin = qs_begin r + j + 1, qs_size = qs_size r - (j + 1)\<rparr>)"
    "reorders a a'' (qs_begin r) (qs_size r)"
    "\<And>k. k \<le> j \<Longrightarrow> \<not> lt (a'' ! (qs_begin r + j)) (a'' ! (qs_begin r + k))"
    "\<And>k. j \<le> k \<Longrightarrow> k < qs_size r \<Longrightarrow> \<not> lt (a'' ! (qs_begin r + k)) (a'' ! (qs_begin r + j))"
    by metis
  have eq: "a' = a''" "left = \<lparr>qs_begin = qs_begin r, qs_size = j\<rparr>"
    "right = \<lparr>qs_begin = qs_begin r + j + 1, qs_size = qs_size r - (j + 1)\<rparr>"
    using p(2) split(4) by simp_all
  have "sort_inv lt a0 (a'', us @ [left, right] @ vs)"
  proof (rule sort_inv_replace [OF inv [unfolded split(1)] p(3)])
    show "\<And>s. s \<in> set [left, right] \<Longrightarrow> qs_begin r \<le> qs_begin s \<and> qs_end s \<le> qs_end r"
      using p(1) by (auto simp: eq)
    show "sorted_wrt (\<lambda>r s. qs_end r \<le> qs_begin s) [left, right]" by (simp add: eq)
    fix x y assume xy: "x < y" "inside x r" "inside y r"
    show "(\<exists>s \<in> set [left, right]. inside x s \<and> inside y s) \<or> \<not> lt (a'' ! y) (a'' ! x)"
    proof (cases "x \<le> qs_begin r + j \<and> qs_begin r + j \<le> y")
      case True
      have "\<not> lt (a'' ! (qs_begin r + j)) (a'' ! x)"
        using p(4) [of "x - qs_begin r", OF le_diff_conv [THEN iffD2]] True xy
        by (simp add: inside_def add.commute)
      moreover have "\<not> lt (a'' ! y) (a'' ! (qs_begin r + j))"
        using p(5) [of "y - qs_begin r", OF le_diff_conv2 [THEN iffD2]] True xy
        by (simp add: inside_def add.commute less_diff_conv2)
      ultimately show ?thesis using incomp_trans by blast
    next
      case False
      then show ?thesis using xy p(1) by (auto simp: eq inside_def)
    qed
  qed
  then show ?thesis using split(2) eq by simp
next
  case (body a us r vs)
  have le: "qs_end r \<le> length a" using sort_inv_bounds [OF inv [unfolded body(1)], of r] by simp
  have "sort_inv lt a0 (qs_body std_sort a r, us @ [] @ vs)"
    by (rule sort_inv_replace [OF inv [unfolded body(1)]])
      (use qs_body_reorders [OF srt le] in auto)
  then show ?thesis using body(2) by simp
qed

lemma sort_steps_inv:
  "(sort_step lt std_sort)\<^sup>*\<^sup>* s t \<Longrightarrow> sort_inv lt a0 s \<Longrightarrow> sorts lt std_sort \<Longrightarrow> sort_inv lt a0 t"
  by (induction rule: rtranclp_induct) (auto intro: sort_step_inv)

lemma sort_inv_start: "sort_inv lt a (a, [\<lparr>qs_begin = 0, qs_size = length a\<rparr>])"
  by (rule sort_invI) (auto simp: inside_def)

lemma sort_inv_end: "sort_inv lt a0 (a, []) \<Longrightarrow> mset a = mset a0 \<and> sorted_wrt (\<lambda>x y. \<not> lt y x) a"
  by (auto simp: sort_inv_def sorted_wrt_iff_nth_less)

text \<open>The number of steps is bounded, and no step is ever missing.\<close>

definition sort_work :: "qs_range list \<Rightarrow> nat" where
  "sort_work rs = (\<Sum>r \<leftarrow> rs. 2 * qs_size r + 1)"

lemma sort_step_work:
  assumes step: "sort_step lt std_sort s t" and inv: "sort_inv lt a0 s"
  shows "sort_work (snd t) < sort_work (snd s)"
  using step inv
proof (cases rule: sort_step.cases)
  case (split r a a' left right us vs)
  have n: "0 < qs_size r" "qs_end r \<le> length a"
    using split(3) sort_inv_bounds [OF inv [unfolded split(1)], of r]
    by (simp_all add: qs_is_divisible_def grainsize_def)
  obtain j where "j < qs_size r" "qs_size left = j" "qs_size right = qs_size r - (j + 1)"
    by (rule qs_split_parts [OF n]) (use split(4) in auto)
  then show ?thesis by (simp add: split(1,2) sort_work_def)
qed (simp add: sort_work_def)

lemma sort_steps_bounded:
  assumes "(sort_step lt std_sort ^^ k) s t" "sort_inv lt a0 s" "sorts lt std_sort"
  shows "k + sort_work (snd t) \<le> sort_work (snd s)"
  using assms
proof (induction k arbitrary: t)
  case (Suc k)
  then obtain u where u: "(sort_step lt std_sort ^^ k) s u" "sort_step lt std_sort u t" by auto
  have "sort_inv lt a0 u"
    using sort_steps_inv [OF relpowp_imp_rtranclp [OF u(1)] Suc.prems(2,3)] .
  from sort_step_work [OF u(2) this] Suc.IH [OF u(1) Suc.prems(2,3)] show ?case by simp
qed simp

lemma split_defined:
  assumes "sort_inv lt a0 (a, rs)" "r \<in> set rs" "qs_is_divisible r"
  shows "qs_split lt a r \<noteq> None"
proof -
  have n: "0 < qs_size r" "qs_end r \<le> length a"
    using assms(3) sort_inv_bounds [OF assms(1,2)]
    by (simp_all add: qs_is_divisible_def grainsize_def)
  show ?thesis by (rule qs_split_parts [OF n]) auto
qed

end

lemma sort_pieces_in_order: "\<exists>a'. (sort_step lt std_sort)\<^sup>*\<^sup>* (a, rs) (a', [])"
proof (induction rs arbitrary: a)
  case (Cons r rs)
  have "sort_step lt std_sort (a, [] @ r # rs) (qs_body std_sort a r, [] @ rs)"
    by (rule sort_step.body)
  then show ?case using Cons.IH [of "qs_body std_sort a r"]
    by (auto intro: converse_rtranclp_into_rtranclp)
qed auto

section \<open>The pretest finds a descent\<close>

lemma serial_pretest_ascends:
  "serial_pretest lt a k n \<longleftrightarrow> (\<forall>j. k \<le> j \<longrightarrow> j < k + n \<longrightarrow> \<not> lt (a ! (j + 1)) (a ! j))"
proof (induction n arbitrary: k)
  case (Suc n)
  have "(\<forall>j. k \<le> j \<longrightarrow> j < k + Suc n \<longrightarrow> P j) \<longleftrightarrow> P k \<and> (\<forall>j. k + 1 \<le> j \<longrightarrow> j < k + 1 + n \<longrightarrow> P j)" for P
    by (metis Suc_eq_plus1 Suc_leD Suc_le_eq add_Suc_right add_Suc_shift le_add1 le_neq_implies_less
        less_add_Suc1 order_refl)
  then show ?case using Suc.IH [of "k + 1"] by simp
qed simp

definition pretest_inv :: "('a \<Rightarrow> 'a \<Rightarrow> bool) \<Rightarrow> 'a list \<Rightarrow> block list \<times> bool \<Rightarrow> bool" where
  "pretest_inv lt a s \<longleftrightarrow> (case s of (bs, c) \<Rightarrow>
     (\<forall>b \<in> set bs. pos b \<le> stop b \<and> (pos b < stop b \<longrightarrow> serial_cutoff < pos b \<and> stop b \<le> length a)) \<and>
     (if c then \<exists>k. serial_cutoff < k \<and> k < length a \<and> lt (a ! k) (a ! (k - 1))
      else \<forall>k. serial_cutoff < k \<longrightarrow> k < length a \<longrightarrow>
        (\<exists>b \<in> set bs. pos b \<le> k \<and> k < stop b) \<or> \<not> lt (a ! k) (a ! (k - 1))))"

lemma pretest_iter_inv:
  assumes inv: "pretest_inv lt a (us @ b # vs, c)" and it: "pretest_iter lt a c b = (m, c')"
  shows "pretest_inv lt a (us @ opt_list m @ vs, c')"
proof -
  have b: "pos b \<le> stop b" "pos b < stop b \<Longrightarrow> serial_cutoff < pos b \<and> stop b \<le> length a"
    using inv by (auto simp: pretest_inv_def)
  consider "m = None" "pos b = stop b" "c' = c" | "m = None" "c" "c'"
    | "m = None" "c'" "pos b < stop b" "lt (a ! pos b) (a ! (pos b - 1))"
    | "m = Some (b\<lparr>pos := pos b + 1, counter := counter b + 1\<rparr>)" "c' = c" "pos b < stop b"
      "\<not> lt (a ! pos b) (a ! (pos b - 1))"
    using it b(1) by (auto simp: pretest_iter_def split: if_splits)
  then show ?thesis
  proof cases
    case 3
    moreover have "serial_cutoff < pos b" "pos b < length a" using b(2) 3(3) by auto
    ultimately show ?thesis using inv by (auto simp: pretest_inv_def opt_list_def)
  next
    case 4
    let ?b = "b\<lparr>pos := pos b + 1, counter := counter b + 1\<rparr>"
    have "pos ?b \<le> stop ?b \<and> (pos ?b < stop ?b \<longrightarrow> serial_cutoff < pos ?b \<and> stop ?b \<le> length a)"
      using b(2) 4(3) by auto
    moreover have "(pos ?b \<le> k \<and> k < stop ?b) \<or> \<not> lt (a ! k) (a ! (k - 1))"
      if "pos b \<le> k" "k < stop b" for k
      using that 4(4) by (cases "k = pos b") auto
    ultimately show ?thesis using inv unfolding 4(1,2)
      by (auto simp: pretest_inv_def opt_list_def split: if_splits)
  qed (use inv in \<open>auto simp: pretest_inv_def opt_list_def split: if_splits\<close>)
qed

lemma pretest_step_inv: "pretest_step lt a s t \<Longrightarrow> pretest_inv lt a s \<Longrightarrow> pretest_inv lt a t"
proof (induction rule: pretest_step.induct)
  case (iter c b m c' us vs)
  then show ?case using pretest_iter_inv by blast
next
  case (skip us b vs)
  then show ?case by (auto simp: pretest_inv_def)
qed

lemma pretest_inv_start:
  assumes "covers ps (serial_cutoff + 1) (length a)"
  shows "pretest_inv lt a (blocks_of ps, False)"
proof -
  have mem: "(\<exists>(l, h) \<in> set ps. l \<le> k \<and> k < h) \<longleftrightarrow> serial_cutoff < k \<and> k < length a" for k
  proof -
    have "(\<exists>(l, h) \<in> set ps. l \<le> k \<and> k < h) \<longleftrightarrow> k \<in> set (concat (map (\<lambda>(l, h). [l..<h]) ps))"
      by (simp add: case_prod_unfold)
    also have "\<dots> \<longleftrightarrow> k \<in> set [serial_cutoff + 1..<length a]"
      using assms by (metis covers_def set_mset_mset)
    finally show ?thesis by auto
  qed
  have "l \<le> h \<and> (l < h \<longrightarrow> serial_cutoff < l \<and> h \<le> length a)" if lh: "(l, h) \<in> set ps" for l h
  proof -
    have "l \<le> h" using assms lh by (auto simp: covers_def list_all_iff)
    moreover have "serial_cutoff < l" "h - 1 < length a" if "l < h"
      using mem [of l] mem [of "h - 1"] lh that by fastforce+
    ultimately show ?thesis by fastforce
  qed
  moreover have "\<exists>(l, h) \<in> set ps. l \<le> k \<and> k < h" if "serial_cutoff < k" "k < length a" for k
    using mem that by blast
  ultimately show ?thesis
    by (auto simp: pretest_inv_def blocks_of_def split: prod.splits) fastforce
qed

text \<open>The pretest takes at most one step per element and block.\<close>

definition pretest_work :: "block list \<Rightarrow> nat" where
  "pretest_work bs = (\<Sum>b \<leftarrow> bs. (stop b - pos b) + 1)"

lemma pretest_step_work:
  assumes "pretest_step lt a s t" "pretest_inv lt a s"
  shows "pretest_work (fst t) < pretest_work (fst s)"
  using assms
proof (induction rule: pretest_step.induct)
  case (iter c b m c' us vs)
  then show ?case
    by (auto simp: pretest_inv_def pretest_work_def opt_list_def pretest_iter_def split: if_splits)
qed (auto simp: pretest_work_def)

lemma pretest_runs: "\<exists>c. (pretest_step lt a)\<^sup>*\<^sup>* s ([], c)" if "pretest_inv lt a s"
  using that
proof (induction "pretest_work (fst s)" arbitrary: s rule: less_induct)
  case less
  obtain bs c where s: "s = (bs, c)" by force
  show ?case
  proof (cases bs)
    case Nil
    then show ?thesis using s by auto
  next
    case (Cons b vs)
    obtain m c' where m: "pretest_iter lt a c b = (m, c')" by force
    have step: "pretest_step lt a s ([] @ opt_list m @ vs, c')"
      using pretest_step.iter [OF m, of "[]" vs] by (simp add: s Cons)
    from less(1) [OF pretest_step_work [OF step less(2)] pretest_step_inv [OF step less(2)]]
    show ?thesis using step by (meson converse_rtranclp_into_rtranclp)
  qed
qed

section \<open>Properties\<close>

abbreviation whole :: "'a list \<Rightarrow> qs_range" where
  "whole a \<equiv> \<lparr>qs_begin = 0, qs_size = length a\<rparr>"

context strict_weak_order
begin

lemma adjacent_sorted:
  assumes "\<And>k. 0 < k \<Longrightarrow> k < length a \<Longrightarrow> \<not> lt (a ! k) (a ! (k - 1))"
  shows "sorted_wrt (\<lambda>x y. \<not> lt y x) a"
proof -
  have "\<not> lt (a ! (p + Suc d)) (a ! p)" if "p + Suc d < length a" for p d
    using that
  proof (induction d)
    case 0
    then show ?case using assms [of "p + 1"] by simp
  next
    case (Suc d)
    have "\<not> lt (a ! (p + Suc (Suc d))) (a ! (p + Suc d))"
      using assms [of "p + Suc (Suc d)"] Suc.prems by simp
    then show ?case using Suc incomp_trans by (metis Suc_lessD add_Suc_right)
  qed
  then show ?thesis unfolding sorted_wrt_iff_nth_less
    by (metis add_Suc_right less_iff_Suc_add add.commute)
qed

lemma serial_then_blocks:
  assumes "serial_pretest lt a 0 serial_cutoff" "pretest_inv lt a ([], False)"
  shows "sorted_wrt (\<lambda>x y. \<not> lt y x) a"
proof (rule adjacent_sorted)
  fix k assume k: "0 < k" "k < length a"
  show "\<not> lt (a ! k) (a ! (k - 1))"
  proof (cases "k \<le> serial_cutoff")
    case True
    then show ?thesis
      using assms(1) [unfolded serial_pretest_ascends, THEN spec, of "k - 1"] k by simp
  next
    case False
    then show ?thesis using assms(2) k by (auto simp: pretest_inv_def)
  qed
qed

lemma sort_steps_sort:
  assumes "(sort_step lt std_sort)\<^sup>*\<^sup>* (a, [whole a]) (a', [])" "sorts lt std_sort"
  shows "mset a' = mset a \<and> sorted_wrt (\<lambda>x y. \<not> lt y x) a'"
  using sort_inv_end [OF sort_steps_inv [OF assms(1) sort_inv_start assms(2)]] .

lemma pretest_steps_inv:
  "(pretest_step lt a)\<^sup>*\<^sup>* s t \<Longrightarrow> pretest_inv lt a s \<Longrightarrow> pretest_inv lt a t"
  by (induction rule: rtranclp_induct) (auto intro: pretest_step_inv)

lemma quick_sort_result:
  assumes run: "parallel_quick_sort lt std_sort a a'" and srt: "sorts lt std_sort"
    and long: "serial_cutoff < length a"
  shows "mset a' = mset a \<and> sorted_wrt (\<lambda>x y. \<not> lt y x) a' \<and>
    (sorted_wrt (\<lambda>x y. \<not> lt y x) a \<longrightarrow> a' = a)"
  using run
proof (cases rule: parallel_quick_sort.cases)
  case descent
  have "\<not> sorted_wrt (\<lambda>x y. \<not> lt y x) a"
  proof -
    obtain j where "j < serial_cutoff" "lt (a ! (j + 1)) (a ! j)"
      using descent(1) by (auto simp: serial_pretest_ascends)
    then show ?thesis using long unfolding sorted_wrt_iff_nth_less
      by (metis Suc_eq_plus1 Suc_lessI lessI less_trans not_less_eq)
  qed
  then show ?thesis using sort_steps_sort [OF descent(2) srt] by blast
next
  case (cancelled ps)
  have "pretest_inv lt a ([], True)"
    by (rule pretest_steps_inv [OF cancelled(3) pretest_inv_start [OF cancelled(2)]])
  then obtain k where k: "serial_cutoff < k" "k < length a" "lt (a ! k) (a ! (k - 1))"
    by (auto simp: pretest_inv_def)
  then have "k - 1 < k" by simp
  then have "\<not> sorted_wrt (\<lambda>x y. \<not> lt y x) a"
    unfolding sorted_wrt_iff_nth_less using k(2,3) by blast
  then show ?thesis using sort_steps_sort [OF cancelled(4) srt] by blast
next
  case (presorted ps)
  have "pretest_inv lt a ([], False)"
    by (rule pretest_steps_inv [OF presorted(4) pretest_inv_start [OF presorted(3)]])
  then show ?thesis using serial_then_blocks [OF presorted(2)] presorted(1) by simp
qed

lemma sort_result:
  assumes "parallel_sort lt std_sort a a'" "sorts lt std_sort"
  shows "mset a' = mset a \<and> sorted_wrt (\<lambda>x y. \<not> lt y x) a' \<and>
    (min_parallel_size \<le> length a \<longrightarrow> sorted_wrt (\<lambda>x y. \<not> lt y x) a \<longrightarrow> a' = a)"
  using assms(1)
proof (cases rule: parallel_sort.cases)
  case parallel
  then have "serial_cutoff < length a" by (simp add: min_parallel_size_def serial_cutoff_def)
  then show ?thesis using quick_sort_result [OF parallel(2) assms(2)] by blast
qed (use sorts_mset [OF assms(2)] sorts_sorted [OF assms(2)] in auto)

end

lemma covers_single: "l \<le> h \<Longrightarrow> covers [(l, h)] l h"
  by (simp add: covers_def)

lemma quick_sort_returns:
  assumes "serial_cutoff < length a"
  shows "\<exists>a'. parallel_quick_sort lt std_sort a a'"
proof -
  obtain a' where a': "(sort_step lt std_sort)\<^sup>*\<^sup>* (a, [whole a]) (a', [])"
    using sort_pieces_in_order by blast
  have cov: "covers [(serial_cutoff + 1, length a)] (serial_cutoff + 1) (length a)"
    by (rule covers_single) (use assms in simp)
  obtain c where c: "(pretest_step lt a)\<^sup>*\<^sup>* (blocks_of [(serial_cutoff + 1, length a)], False) ([], c)"
    using pretest_runs [OF pretest_inv_start [OF cov]] by blast
  show ?thesis
  proof (cases "serial_pretest lt a 0 serial_cutoff")
    case True
    then show ?thesis
      using parallel_quick_sort.cancelled [OF True cov _ a'] parallel_quick_sort.presorted [OF True cov] c
      by (cases c) auto
  next
    case False
    then show ?thesis using parallel_quick_sort.descent a' by blast
  qed
qed

lemma sort_returns: "\<exists>a'. parallel_sort lt std_sort a a'"
proof (cases "length a < min_parallel_size")
  case True
  then show ?thesis
    using parallel_sort.empty [of a] parallel_sort.serial [of a] by (cases "a = []") blast+
next
  case False
  then have "serial_cutoff < length a" by (simp add: min_parallel_size_def serial_cutoff_def)
  then show ?thesis using quick_sort_returns parallel_sort.parallel [OF False] by blast
qed

text \<open>
  C5: for a comparison that is a strict weak order, \<^verbatim>\<open>parallel_sort\<close> has a result, and in every
  schedule of the pretest, of the splits and of the serial sorts the result is a sorted permutation
  of the input; an input of at least \<^verbatim>\<open>min_parallel_size\<close> elements that is sorted already is left as
  it is.
\<close>

theorem parallel_sort_sorts:
  assumes "strict_weak_order lt" "sorts lt std_sort"
  shows "(\<exists>a'. parallel_sort lt std_sort a a') \<and>
    (\<forall>a'. parallel_sort lt std_sort a a' \<longrightarrow>
      mset a' = mset a \<and> sorted_wrt (\<lambda>x y. \<not> lt y x) a' \<and>
      (min_parallel_size \<le> length a \<and> sorted_wrt (\<lambda>x y. \<not> lt y x) a \<longrightarrow> a' = a))"
  using sort_returns strict_weak_order.sort_result [OF assms(1) _ assms(2)] by blast

lemma sorts_sort: "sorts std_less (sort :: nat list \<Rightarrow> nat list)"
  by (auto simp: sorts_def std_less_def not_less)

theorem parallel_sort_sorts_witness:
  "\<exists>a'. parallel_sort std_less sort (map (\<lambda>i. (7 * i) mod 601) [0..<601]) a' \<and>
    mset a' = mset (map (\<lambda>i. (7 * i) mod 601) [0..<601 :: nat]) \<and>
    sorted_wrt (\<lambda>x y. \<not> std_less y x) a'"
  using parallel_sort_sorts [OF std_less.strict_weak_order_axioms sorts_sort] by blast

text \<open>
  C24: the sort of the pieces cannot fail and cannot run on: whatever was done so far, no assertion
  of the partition fails and no index leaves the range, so every divisible range can be split; and
  no schedule takes more than \<open>2 n + 1\<close> splits and serial sorts.
\<close>

theorem parallel_sort_terminates:
  assumes "strict_weak_order lt" "sorts lt std_sort"
    and "(sort_step lt std_sort ^^ k) (a, [whole a]) (a', rs)"
  shows "k \<le> 2 * length a + 1 \<and>
    (\<forall>r \<in> set rs. qs_is_divisible r \<longrightarrow> qs_split lt a' r \<noteq> None) \<and>
    (\<exists>b. (sort_step lt std_sort)\<^sup>*\<^sup>* (a', rs) (b, []))"
proof -
  note inv = strict_weak_order.sort_inv_start [OF assms(1), of a]
  have "k \<le> 2 * length a + 1"
    using strict_weak_order.sort_steps_bounded [OF assms(1,3) inv assms(2)]
    by (simp add: strict_weak_order.sort_work_def [OF assms(1)])
  moreover have "sort_inv lt a (a', rs)"
    by (rule strict_weak_order.sort_steps_inv [OF assms(1) relpowp_imp_rtranclp [OF assms(3)] inv assms(2)])
  ultimately show ?thesis
    using strict_weak_order.split_defined [OF assms(1)] sort_pieces_in_order by blast
qed

theorem parallel_sort_terminates_witness:
  "\<exists>a' l r. (sort_step std_less sort ^^ 1) (map (\<lambda>i. (7 * i) mod 601) [0..<601 :: nat], [\<lparr>qs_begin = 0, qs_size = 601\<rparr>])
      (a', [l, r]) \<and> (\<exists>b. (sort_step std_less sort)\<^sup>*\<^sup>* (a', [l, r]) (b, []))"
proof -
  let ?a = "map (\<lambda>i. (7 * i) mod 601) [0..<601 :: nat]" and ?w = "\<lparr>qs_begin = 0, qs_size = 601\<rparr>"
  obtain a' l r where "qs_split std_less ?a ?w = Some (a', l, r)"
    using std_less.split_defined [OF std_less.sort_inv_start, of ?w ?a]
    by (auto simp: qs_is_divisible_def grainsize_def)
  then have "sort_step std_less sort (?a, [] @ ?w # []) (a', [] @ l # r # [])"
    by (intro sort_step.split) (simp_all add: qs_is_divisible_def grainsize_def)
  then have st: "(sort_step std_less sort ^^ 1) (?a, [whole ?a]) (a', [l, r])"
    by (simp only: relpowp_1 append_Nil length_map length_upt minus_nat.diff_0)
  from parallel_sort_terminates [OF std_less.strict_weak_order_axioms sorts_sort this]
  show ?thesis using st by auto
qed

end
