(* ===== verification/Pipeline_Buffer.thy ===== *)
theory Pipeline_Buffer
  imports Prelude
begin

unbundle bit_operations_syntax

text \<open>
  The filter modes of a pipeline (include/tbb/pipeline.h) and the input buffer of a serial filter
  (\<^verbatim>\<open>input_buffer\<close> in src/tbb/pipeline.cpp): a circular array of task descriptions whose slots are
  selected by the low bits of a token, which holds back the items that arrive before their turn.
  Tokens are natural numbers (the \<^verbatim>\<open>unsigned long\<close> counters are not modelled to wrap), a null
  object is \<open>None\<close>, and every operation is the critical section of \<^verbatim>\<open>array_mutex\<close>.
\<close>

section \<open>Filter modes\<close>

definition version_5 :: "8 word" where
  "version_5 = push_bit 1 (5 - 2)"

definition version_mask :: "8 word" where
  "version_mask = push_bit 1 7"

definition filter_is_serial :: "8 word" where
  "filter_is_serial = 1"

definition filter_is_out_of_order :: "8 word" where
  "filter_is_out_of_order = push_bit 4 1"

definition filter_is_bound :: "8 word" where
  "filter_is_bound = push_bit 5 1"

definition filter_may_emit_null :: "8 word" where
  "filter_may_emit_null = push_bit 6 1"

definition exact_exception_propagation :: "8 word" where
  "exact_exception_propagation = push_bit 7 1"

datatype mode = parallel | serial_in_order | serial_out_of_order

fun mode_bits :: "mode \<Rightarrow> 8 word" where
  "mode_bits parallel = version_5 OR filter_is_out_of_order"
| "mode_bits serial_in_order = version_5 OR filter_is_serial"
| "mode_bits serial_out_of_order = version_5 OR filter_is_serial OR filter_is_out_of_order"

text \<open>The constructors store the mode with the bit for exception propagation.\<close>

definition filter_mode :: "mode \<Rightarrow> 8 word" where
  "filter_mode m = mode_bits m OR exact_exception_propagation"

definition filter_mode_of_bool :: "bool \<Rightarrow> 8 word" where
  "filter_mode_of_bool serial = filter_mode (if serial then serial_in_order else parallel)"

definition thread_bound_mode :: "mode \<Rightarrow> 8 word" where
  "thread_bound_mode m = (mode_bits m OR filter_is_bound) OR exact_exception_propagation"

definition is_serial :: "8 word \<Rightarrow> bool" where
  "is_serial m \<longleftrightarrow> m AND filter_is_serial \<noteq> 0"

definition is_ordered :: "8 word \<Rightarrow> bool" where
  "is_ordered m \<longleftrightarrow> m AND (filter_is_out_of_order OR filter_is_serial) = filter_is_serial"

definition is_bound :: "8 word \<Rightarrow> bool" where
  "is_bound m \<longleftrightarrow> m AND filter_is_bound = filter_is_bound"

definition object_may_be_null :: "8 word \<Rightarrow> bool" where
  "object_may_be_null m \<longleftrightarrow> m AND filter_may_emit_null = filter_may_emit_null"

lemma mode_constants:
  "version_5 = 6" "version_mask = 14" "filter_is_serial = 1" "filter_is_out_of_order = 16"
  "filter_is_bound = 32" "filter_may_emit_null = 64" "exact_exception_propagation = 128"
  by (simp_all add: version_5_def version_mask_def filter_is_serial_def filter_is_out_of_order_def
      filter_is_bound_def filter_may_emit_null_def exact_exception_propagation_def push_bit_eq_mult)

lemmas mode_defs = mode_constants is_serial_def is_ordered_def is_bound_def object_may_be_null_def
  filter_mode_def thread_bound_mode_def

lemma filter_mode_flags [simp]:
  "is_serial (filter_mode m) \<longleftrightarrow> m \<noteq> parallel"
  "is_ordered (filter_mode m) \<longleftrightarrow> m = serial_in_order"
  "\<not> is_bound (filter_mode m)" "\<not> object_may_be_null (filter_mode m)"
  "filter_mode m AND version_mask = version_5"
  by (cases m; simp add: mode_defs)+

lemma thread_bound_mode_flags:
  "is_bound (thread_bound_mode m)" "is_serial (thread_bound_mode m) \<longleftrightarrow> m \<noteq> parallel"
  by (cases m; simp add: mode_defs)+

lemma is_ordered_serial: "is_ordered m \<Longrightarrow> is_serial m"
proof -
  assume "is_ordered m"
  then have "m AND 17 = 1" by (simp add: mode_defs)
  then have "(m AND 17) AND 1 = 1" by simp
  moreover have "(m AND 17) AND 1 = m AND 1" unfolding and.assoc by simp
  ultimately show "is_serial m" by (simp add: mode_defs)
qed

section \<open>The buffer\<close>

record 'a task_info =
  my_object :: "'a option"
  my_token :: nat
  my_token_ready :: bool
  is_valid :: bool

definition task_info_reset :: "'a task_info" where
  "task_info_reset = \<lparr>my_object = None, my_token = 0, my_token_ready = False, is_valid = False\<rparr>"

record 'a input_buffer =
  buf_array :: "'a task_info list"
  array_size :: nat
  low_token :: nat
  high_token :: nat
  buf_ordered :: bool
  buf_bound :: bool
  my_sem :: "nat option"

definition initial_buffer_size :: nat where
  "initial_buffer_size = 4"

text \<open>\<^verbatim>\<open>token & (array_size-1)\<close>.\<close>

definition slot :: "nat \<Rightarrow> nat \<Rightarrow> nat" where
  "slot n t = t AND (n - 1)"

text \<open>\<^verbatim>\<open>while( new_size<minimum_size ) new_size*=2\<close>; the size is never 0 here.\<close>

function double_until :: "nat \<Rightarrow> nat \<Rightarrow> nat" where
  "double_until n m = (if n < m \<and> 0 < n then double_until (2 * n) m else n)"
  by pat_completeness auto
termination by (relation "measure (\<lambda>(n, m). m - n)") auto

declare double_until.simps [simp del]

definition grow :: "nat \<Rightarrow> 'a input_buffer \<Rightarrow> 'a input_buffer" where
  "grow minimum_size b =
     (let old_size = array_size b;
          new_size = double_until (if old_size \<noteq> 0 then 2 * old_size else initial_buffer_size) minimum_size;
          new_array = foldl (\<lambda>na t. na[slot new_size t := buf_array b ! slot old_size t])
            (replicate new_size task_info_reset) [low_token b..<low_token b + old_size] in
      b\<lparr>buf_array := new_array, array_size := new_size\<rparr>)"

definition input_buffer_new :: "bool \<Rightarrow> bool \<Rightarrow> 'a input_buffer" where
  "input_buffer_new ordered bound =
     (let b = grow initial_buffer_size
        \<lparr>buf_array = [], array_size = 0, low_token = 0, high_token = 0,
         buf_ordered = ordered, buf_bound = bound, my_sem = None\<rparr> in
      if bound then b\<lparr>my_sem := Some 0\<rparr> else b)"

definition sema_V :: "'a input_buffer \<Rightarrow> 'a input_buffer" where
  "sema_V b = b\<lparr>my_sem := map_option Suc (my_sem b)\<rparr>"

definition has_item :: "'a input_buffer \<Rightarrow> bool" where
  "has_item b \<longleftrightarrow> is_valid (buf_array b ! slot (array_size b) (low_token b))"

text \<open>Storing an item in the slot of its token, in a larger array when the token is too far ahead.\<close>

definition park :: "nat \<Rightarrow> 'a task_info \<Rightarrow> 'a input_buffer \<Rightarrow> 'a input_buffer" where
  "park token info b =
     (let b' = (if token - low_token b \<ge> array_size b then grow (token - low_token b + 1) b else b) in
      b'\<lparr>buf_array := (buf_array b')[slot (array_size b') token := info]\<rparr>)"

text \<open>The token of an item that arrives: its own, or the next one of the buffer.\<close>

definition take_ticket :: "'a task_info \<Rightarrow> 'a input_buffer \<Rightarrow> nat \<times> 'a task_info \<times> 'a input_buffer" where
  "take_ticket info b =
     (if buf_ordered b then
        (if \<not> my_token_ready info
         then (high_token b, info\<lparr>my_token := high_token b, my_token_ready := True\<rparr>,
               b\<lparr>high_token := high_token b + 1\<rparr>)
         else (my_token info, info, b))
      else (high_token b, info, b\<lparr>high_token := high_token b + 1\<rparr>))"

text \<open>The result says whether the item was stored; the item comes back with its token.\<close>

definition put_token :: "'a task_info \<Rightarrow> bool \<Rightarrow> 'a input_buffer \<Rightarrow> bool \<times> 'a task_info \<times> 'a input_buffer" where
  "put_token info force_put b =
     (let info1 = info\<lparr>is_valid := True\<rparr>;
          was_empty = (\<not> is_valid (buf_array b ! slot (array_size b) (low_token b)));
          (token, info2, b1) = take_ticket info1 b in
      if token \<noteq> low_token b1 \<or> buf_bound b1 \<or> force_put then
        let b2 = park token info2 b1;
            b3 = (if was_empty \<and> buf_bound b2 then sema_V b2 else b2) in
        (True, info2, b3)
      else (False, info2, b1))"

text \<open>The critical section of \<^verbatim>\<open>note_done\<close>: the low token advances and its item is taken out.\<close>

definition take_next :: "'a input_buffer \<Rightarrow> 'a task_info \<times> 'a input_buffer" where
  "take_next b =
     (let low = low_token b + 1; i = slot (array_size b) low; item = buf_array b ! i in
      (item, b\<lparr>low_token := low, buf_array := (buf_array b)[i := item\<lparr>is_valid := False\<rparr>]\<rparr>))"

text \<open>The result is the item to spawn, when there is one.\<close>

definition note_done :: "nat \<Rightarrow> 'a input_buffer \<Rightarrow> 'a task_info option \<times> 'a input_buffer" where
  "note_done token b =
     (let (wakee, b') = (if \<not> buf_ordered b \<or> token = low_token b then take_next b
                         else (task_info_reset, b)) in
      (if is_valid wakee then Some wakee else None, b'))"

definition return_item :: "bool \<Rightarrow> 'a input_buffer \<Rightarrow> 'a task_info option \<times> 'a input_buffer" where
  "return_item advance b =
     (let i = slot (array_size b) (low_token b); item = buf_array b ! i in
      if is_valid item then
        (Some item, b\<lparr>buf_array := (buf_array b)[i := item\<lparr>is_valid := False\<rparr>],
                      low_token := low_token b + (if advance then 1 else 0)\<rparr>)
      else (None, b))"

text \<open>\<^verbatim>\<open>clear\<close>, with the objects that are finalized.\<close>

definition clear_slot :: "'a option list \<times> 'a task_info list \<Rightarrow> nat \<Rightarrow> 'a option list \<times> 'a task_info list" where
  "clear_slot s i = (case s of (fin, a) \<Rightarrow>
     if is_valid (a ! i) then (fin @ [my_object (a ! i)], a[i := (a ! i)\<lparr>is_valid := False\<rparr>]) else (fin, a))"

definition buf_clear :: "'a input_buffer \<Rightarrow> 'a option list \<times> 'a input_buffer" where
  "buf_clear b =
     (let (fin, a) = foldl (\<lambda>s t. clear_slot s (slot (array_size b) t)) ([], buf_array b)
        [low_token b..<low_token b + array_size b] in
      (fin, b\<lparr>buf_array := a\<rparr>))"

section \<open>The abstract view: the items that wait, by token\<close>

definition waiting :: "'a input_buffer \<Rightarrow> nat \<rightharpoonup> 'a task_info" where
  "waiting b t =
     (if low_token b \<le> t \<and> t < low_token b + array_size b \<and> is_valid (buf_array b ! slot (array_size b) t)
      then Some (buf_array b ! slot (array_size b) t) else None)"

definition buf_shape :: "'a input_buffer \<Rightarrow> bool" where
  "buf_shape b \<longleftrightarrow> length (buf_array b) = array_size b \<and> (\<exists>p. array_size b = 2 ^ p)"

definition buf_ok :: "'a input_buffer \<Rightarrow> bool" where
  "buf_ok b \<longleftrightarrow> buf_shape b \<and> \<not> buf_bound b \<and> waiting b (low_token b) = None"

lemma slot_mod [simp]: "slot (2 ^ p) t = t mod 2 ^ p"
  unfolding slot_def by (rule and_pow2)

lemma buf_shapeE:
  assumes "buf_shape b"
  obtains p where "array_size b = 2 ^ p" "length (buf_array b) = 2 ^ p"
  using assms by (auto simp: buf_shape_def)

lemma double_until_power:
  assumes "0 < n" "n = 2 ^ p"
  shows "\<exists>q. double_until n m = 2 ^ q" and "n \<le> double_until n m" and "m \<le> double_until n m"
proof -
  have "(\<exists>q. double_until n m = 2 ^ q) \<and> n \<le> double_until n m \<and> m \<le> double_until n m"
    using assms
  proof (induction n m arbitrary: p rule: double_until.induct)
    case (1 n m)
    show ?case
    proof (cases "n < m")
      case True
      have "(\<exists>q. double_until (2 * n) m = 2 ^ q) \<and> 2 * n \<le> double_until (2 * n) m \<and> m \<le> double_until (2 * n) m"
        using "1.IH" [of "Suc p"] True "1.prems" by simp
      moreover have "double_until n m = double_until (2 * n) m"
        using True "1.prems" by (subst double_until.simps) simp
      ultimately show ?thesis by simp
    next
      case False
      then have "double_until n m = n" by (subst double_until.simps) simp
      then show ?thesis using False "1.prems" by auto
    qed
  qed
  then show "\<exists>q. double_until n m = 2 ^ q" "n \<le> double_until n m" "m \<le> double_until n m" by blast+
qed

lemma waiting_Some:
  assumes "waiting b t = Some x"
  shows "low_token b \<le> t" "t < low_token b + array_size b" "is_valid x"
    "x = buf_array b ! slot (array_size b) t"
  using assms by (auto simp: waiting_def split: if_splits)

lemma finite_waiting [simp]: "finite (dom (waiting b))"
proof (rule finite_subset)
  show "dom (waiting b) \<subseteq> {low_token b..<low_token b + array_size b}"
    by (auto simp: waiting_def split: if_splits)
qed simp

subsection \<open>Growing\<close>

lemma foldl_slots:
  assumes "n \<le> m" "length na = m"
  shows "length (foldl (\<lambda>na t. na[t mod m := f t]) na [l..<l + n]) = m"
    "i < m \<Longrightarrow> foldl (\<lambda>na t. na[t mod m := f t]) na [l..<l + n] ! i =
      (if \<exists>t. l \<le> t \<and> t < l + n \<and> t mod m = i then f (THE t. l \<le> t \<and> t < l + n \<and> t mod m = i) else na ! i)"
proof -
  have "length (foldl (\<lambda>na t. na[t mod m := f t]) na [l..<l + n]) = m \<and>
    (\<forall>i < m. foldl (\<lambda>na t. na[t mod m := f t]) na [l..<l + n] ! i =
      (if \<exists>t. l \<le> t \<and> t < l + n \<and> t mod m = i then f (THE t. l \<le> t \<and> t < l + n \<and> t mod m = i) else na ! i))"
    using assms(1)
  proof (induction n)
    case 0
    then show ?case using assms(2) by auto
  next
    case (Suc n)
    let ?A = "foldl (\<lambda>na t. na[t mod m := f t]) na [l..<l + n]"
    have IH: "length ?A = m" "\<And>i. i < m \<Longrightarrow> ?A ! i = (if \<exists>t. l \<le> t \<and> t < l + n \<and> t mod m = i
        then f (THE t. l \<le> t \<and> t < l + n \<and> t mod m = i) else na ! i)"
      using Suc by auto
    have step: "foldl (\<lambda>na t. na[t mod m := f t]) na [l..<l + Suc n] = ?A[(l + n) mod m := f (l + n)]"
      by simp
    have uniq: "s = t" if "l \<le> s" "s < l + Suc n" "l \<le> t" "t < l + Suc n" "s mod m = t mod m" for s t
      using mod_window [of l s m t] that Suc.prems by linarith
    have m: "0 < m" using Suc.prems by simp
    have "?A[(l + n) mod m := f (l + n)] ! i = (if \<exists>t. l \<le> t \<and> t < l + Suc n \<and> t mod m = i
        then f (THE t. l \<le> t \<and> t < l + Suc n \<and> t mod m = i) else na ! i)" if i: "i < m" for i
    proof (cases "(l + n) mod m = i")
      case True
      have "(THE t. l \<le> t \<and> t < l + Suc n \<and> t mod m = i) = l + n"
      proof (rule the_equality)
        show "l \<le> l + n \<and> l + n < l + Suc n \<and> (l + n) mod m = i" using True by simp
        show "t = l + n" if "l \<le> t \<and> t < l + Suc n \<and> t mod m = i" for t
          by (rule uniq) (use that True in auto)
      qed
      moreover have "\<exists>t. l \<le> t \<and> t < l + Suc n \<and> t mod m = i" using True by (intro exI [of _ "l + n"]) simp
      ultimately show ?thesis using True IH(1) i by simp
    next
      case False
      have "(l \<le> t \<and> t < l + Suc n \<and> t mod m = i) = (l \<le> t \<and> t < l + n \<and> t mod m = i)" for t
        using False by (metis add_Suc_right less_SucE less_SucI)
      then have "?thesis = (?A ! i = (if \<exists>t. l \<le> t \<and> t < l + n \<and> t mod m = i
          then f (THE t. l \<le> t \<and> t < l + n \<and> t mod m = i) else na ! i))"
        using False by (simp only: nth_list_update_neq simp_thms)
      then show ?thesis using IH(2) [OF i] by simp
    qed
    then show ?case using step IH(1) by simp
  qed
  then show "length (foldl (\<lambda>na t. na[t mod m := f t]) na [l..<l + n]) = m"
    "i < m \<Longrightarrow> foldl (\<lambda>na t. na[t mod m := f t]) na [l..<l + n] ! i =
      (if \<exists>t. l \<le> t \<and> t < l + n \<and> t mod m = i then f (THE t. l \<le> t \<and> t < l + n \<and> t mod m = i) else na ! i)"
    by blast+
qed

lemma grow_frame [simp]:
  "low_token (grow m b) = low_token b" "high_token (grow m b) = high_token b"
  "buf_ordered (grow m b) = buf_ordered b" "buf_bound (grow m b) = buf_bound b" "my_sem (grow m b) = my_sem b"
  by (simp_all add: grow_def Let_def)

lemma grow_new_array:
  assumes "array_size b = 0"
  shows "buf_shape (grow m b)" "waiting (grow m b) = Map.empty" "m \<le> array_size (grow m b)"
proof -
  define ns where "ns = double_until initial_buffer_size m"
  have g: "array_size (grow m b) = ns" "buf_array (grow m b) = replicate ns task_info_reset"
    using assms by (simp_all add: grow_def Let_def ns_def)
  have "(0::nat) < initial_buffer_size" "initial_buffer_size = 2 ^ 2" by (simp_all add: initial_buffer_size_def)
  note p = double_until_power [OF this, of m, folded ns_def]
  show "buf_shape (grow m b)" using g p(1) by (simp add: buf_shape_def)
  show "m \<le> array_size (grow m b)" using g p(3) by simp
  have lt: "slot ns t < ns" for t using p(1) by (elim exE) simp
  show "waiting (grow m b) = Map.empty"
    using g lt by (auto simp: waiting_def fun_eq_iff task_info_reset_def)
qed

lemma grow_keeps:
  assumes shape: "buf_shape b"
  shows "buf_shape (grow m b)" "waiting (grow m b) = waiting b" "m \<le> array_size (grow m b)"
    "array_size b \<le> array_size (grow m b)"
proof -
  from shape obtain p where p: "array_size b = 2 ^ p" "length (buf_array b) = 2 ^ p" by (rule buf_shapeE)
  define ns where "ns = double_until (2 * 2 ^ p) m"
  have start: "(0::nat) < 2 * 2 ^ p" "2 * 2 ^ p = (2::nat) ^ Suc p" by simp_all
  note dp = double_until_power [OF start, of m, folded ns_def]
  then obtain q where q: "ns = 2 ^ q" by blast
  let ?f = "\<lambda>t. buf_array b ! (t mod 2 ^ p)"
  define na where "na = foldl (\<lambda>na t. na[t mod ns := ?f t]) (replicate ns task_info_reset)
    [low_token b..<low_token b + 2 ^ p]"
  have g: "array_size (grow m b) = ns" "buf_array (grow m b) = na"
  proof -
    have "grow m b = b\<lparr>buf_array := na, array_size := ns\<rparr>"
      unfolding grow_def Let_def na_def by (simp add: p flip: ns_def) (simp add: q)
    then show "array_size (grow m b) = ns" "buf_array (grow m b) = na" by simp_all
  qed
  have sl: "slot ns t = t mod ns" for t by (simp add: q)
  have le: "2 ^ p \<le> ns" using dp(2) by simp
  have len: "length na = ns" unfolding na_def by (rule foldl_slots(1) [OF le]) simp
  show "buf_shape (grow m b)" using g q len by (simp add: buf_shape_def)
  show "m \<le> array_size (grow m b)" "array_size b \<le> array_size (grow m b)" using g dp(3) le p by simp_all
  have old: "na ! (t mod ns) = ?f t" if t: "low_token b \<le> t" "t < low_token b + 2 ^ p" for t
  proof -
    have "(THE s. low_token b \<le> s \<and> s < low_token b + 2 ^ p \<and> s mod ns = t mod ns) = t"
      by (rule the_equality) (use t le mod_window [of "low_token b" _ ns t] in \<open>auto dest: order_less_le_trans\<close>)
    moreover have "t mod ns < ns" using q by simp
    ultimately show ?thesis using t
      unfolding na_def by (subst foldl_slots(2) [OF le]) auto
  qed
  have fresh: "\<not> is_valid (na ! (t mod ns))" if t: "low_token b + 2 ^ p \<le> t" "t < low_token b + ns" for t
  proof -
    have "\<not> (\<exists>s. low_token b \<le> s \<and> s < low_token b + 2 ^ p \<and> s mod ns = t mod ns)"
      using t le mod_window [of "low_token b" _ ns t] by fastforce
    moreover have lt: "t mod ns < ns" using q by simp
    ultimately have "na ! (t mod ns) = task_info_reset"
      unfolding na_def by (subst foldl_slots(2) [OF le]) auto
    then show ?thesis by (simp add: task_info_reset_def)
  qed
  show "waiting (grow m b) = waiting b"
  proof (rule ext)
    fix t
    show "waiting (grow m b) t = waiting b t"
      using old [of t] fresh [of t] le
      by (cases "t < low_token b + 2 ^ p") (auto simp: waiting_def g p(1) sl)
  qed
qed

subsection \<open>Storing and taking\<close>

definition store :: "'a input_buffer \<Rightarrow> nat \<Rightarrow> 'a task_info \<Rightarrow> 'a input_buffer" where
  "store b t x = b\<lparr>buf_array := (buf_array b)[slot (array_size b) t := x]\<rparr>"

lemma waiting_store:
  assumes "buf_shape b" "low_token b \<le> t" "t < low_token b + array_size b"
  shows "waiting (store b t x) = (waiting b)(t := if is_valid x then Some x else None)"
    "buf_shape (store b t x)"
proof -
  from assms(1) obtain p where p: "array_size b = 2 ^ p" "length (buf_array b) = 2 ^ p" by (rule buf_shapeE)
  show "buf_shape (store b t x)" using assms(1) by (simp add: buf_shape_def store_def)
  show "waiting (store b t x) = (waiting b)(t := if is_valid x then Some x else None)"
  proof (rule ext)
    fix s
    show "waiting (store b t x) s = ((waiting b)(t := if is_valid x then Some x else None)) s"
    proof (cases "s mod 2 ^ p = t mod 2 ^ p \<and> low_token b \<le> s \<and> s < low_token b + 2 ^ p")
      case True
      then have "s = t" using mod_window [of "low_token b" s "2 ^ p" t] assms p by simp
      then show ?thesis using assms p by (simp add: waiting_def store_def)
    next
      case False
      then have "s \<noteq> t" using assms p by auto
      then show ?thesis using False p by (auto simp: waiting_def store_def nth_list_update)
    qed
  qed
qed

text \<open>Advancing the low token, when nothing waits for it.\<close>

lemma waiting_advance:
  assumes "buf_shape b" "waiting b (low_token b) = None"
  shows "waiting (b\<lparr>low_token := low_token b + 1\<rparr>) = waiting b"
proof (rule ext)
  fix t
  from assms(1) obtain p where p: "array_size b = 2 ^ p" by (rule buf_shapeE)
  have inv: "\<not> is_valid (buf_array b ! (low_token b mod 2 ^ p))"
    using assms(2) by (auto simp: waiting_def p)
  consider "t = low_token b" | "t = low_token b + 2 ^ p" | "t \<noteq> low_token b" "t \<noteq> low_token b + 2 ^ p" by blast
  then show "waiting (b\<lparr>low_token := low_token b + 1\<rparr>) t = waiting b t"
  proof cases
    case 2
    have "t mod 2 ^ p = low_token b mod 2 ^ p" unfolding 2 by simp
    then show ?thesis using inv by (auto simp: waiting_def p)
  qed (use assms(2) in \<open>auto simp: waiting_def p\<close>)
qed

section \<open>The interface of the buffer\<close>

text \<open>
  A buffer of items that wait for their turn: an item is parked under a token beyond the low one,
  and advancing the low token gives out the item that waited for the new one.
\<close>

locale reorder_buffer =
  fixes ok :: "'b \<Rightarrow> bool"
    and wait :: "'b \<Rightarrow> nat \<rightharpoonup> 'i"
    and low :: "'b \<Rightarrow> nat"
    and put :: "nat \<Rightarrow> 'i \<Rightarrow> 'b \<Rightarrow> 'b"
    and step :: "'b \<Rightarrow> 'i option \<times> 'b"
    and fit :: "'i \<Rightarrow> bool"
  assumes finite_wait: "ok b \<Longrightarrow> finite (dom (wait b))"
    and wait_above: "ok b \<Longrightarrow> wait b t = Some x \<Longrightarrow> low b < t"
    and put_wait: "ok b \<Longrightarrow> fit x \<Longrightarrow> low b < t \<Longrightarrow> wait (put t x b) = (wait b)(t \<mapsto> x)"
    and put_ok: "ok b \<Longrightarrow> fit x \<Longrightarrow> low b < t \<Longrightarrow> ok (put t x b)"
    and put_low: "low (put t x b) = low b"
    and step_result: "ok b \<Longrightarrow> step b = (m, b') \<Longrightarrow> m = wait b (low b + 1)"
    and step_wait: "ok b \<Longrightarrow> step b = (m, b') \<Longrightarrow> wait b' = (wait b)(low b + 1 := None)"
    and step_ok: "ok b \<Longrightarrow> step b = (m, b') \<Longrightarrow> ok b'"
    and step_low: "step b = (m, b') \<Longrightarrow> low b' = low b + 1"
begin

text \<open>The items that wait, as a multiset.\<close>

definition held :: "'b \<Rightarrow> 'i multiset" where
  "held b = image_mset (\<lambda>t. the (wait b t)) (mset_set (dom (wait b)))"

lemma held_remove:
  assumes "finite (dom f)" "f t = Some x"
  shows "image_mset (\<lambda>t. the (f t)) (mset_set (dom f)) =
    add_mset x (image_mset (\<lambda>s. the ((f(t := None)) s)) (mset_set (dom (f(t := None)))))"
proof -
  have d: "dom f = insert t (dom (f(t := None)))" "t \<notin> dom (f(t := None))" using assms(2) by auto
  have "finite (dom (f(t := None)))" using assms(1) by simp
  then have "mset_set (dom f) = add_mset t (mset_set (dom (f(t := None))))"
    using d by (metis mset_set.insert)
  moreover have "image_mset (\<lambda>s. the (f s)) (mset_set (dom (f(t := None)))) =
      image_mset (\<lambda>s. the ((f(t := None)) s)) (mset_set (dom (f(t := None))))"
    by (rule image_mset_cong) (use assms(1) in auto)
  ultimately show ?thesis using assms(2) by simp
qed

lemma held_empty: "ok b \<Longrightarrow> held b = {#} \<longleftrightarrow> wait b = Map.empty"
  using finite_wait [of b] by (auto simp: held_def mset_set_empty_iff)

lemma in_held: "ok b \<Longrightarrow> x \<in># held b \<longleftrightarrow> (\<exists>t. wait b t = Some x)"
  using finite_wait [of b] by (force simp: held_def)

lemma held_put:
  assumes "ok b" "fit x" "low b < t" "wait b t = None"
  shows "held (put t x b) = add_mset x (held b)"
proof -
  have w: "wait (put t x b) = (wait b)(t \<mapsto> x)" by (rule put_wait [OF assms(1-3)])
  have undo: "((wait b)(t \<mapsto> x))(t := None) = wait b" using assms(4) by auto
  have "finite (dom ((wait b)(t \<mapsto> x)))" using finite_wait [OF assms(1)] by simp
  from held_remove [OF this, of t x] show ?thesis unfolding held_def w undo by simp
qed

lemma held_step:
  assumes "ok b" "step b = (m, b')"
  shows "held b = (case m of None \<Rightarrow> held b' | Some x \<Rightarrow> add_mset x (held b'))"
proof -
  have w: "wait b' = (wait b)(low b + 1 := None)" and m: "m = wait b (low b + 1)"
    using step_wait step_result assms by blast+
  show ?thesis
  proof (cases m)
    case None
    then have "wait b' = wait b" using w m by auto
    then show ?thesis using None by (simp add: held_def)
  next
    case (Some x)
    then show ?thesis
      unfolding held_def w using held_remove [OF finite_wait [OF assms(1)]] m by simp
  qed
qed

end

definition take_item :: "'a input_buffer \<Rightarrow> 'a task_info option \<times> 'a input_buffer" where
  "take_item b = (let (x, b') = take_next b in (if is_valid x then Some x else None, b'))"

lemma park_shape:
  assumes "buf_shape b" "low_token b \<le> t" "is_valid x"
  shows "buf_shape (park t x b)" "waiting (park t x b) = (waiting b)(t \<mapsto> x)"
    "low_token (park t x b) = low_token b"
proof -
  define c where "c = (if t - low_token b \<ge> array_size b then grow (t - low_token b + 1) b else b)"
  have c: "buf_shape c" "waiting c = waiting b" "low_token c = low_token b" "t < low_token c + array_size c"
    unfolding c_def using grow_keeps [OF assms(1), of "t - low_token b + 1"] assms by auto
  have p: "park t x b = store c t x" by (simp add: park_def store_def c_def Let_def)
  show "buf_shape (park t x b)" "waiting (park t x b) = (waiting b)(t \<mapsto> x)"
    unfolding p using waiting_store [of c t x] c assms by simp_all
  show "low_token (park t x b) = low_token b" unfolding p using c by (simp add: store_def)
qed

lemma park_frame [simp]:
  "low_token (park t x b) = low_token b" "high_token (park t x b) = high_token b"
  "buf_ordered (park t x b) = buf_ordered b" "buf_bound (park t x b) = buf_bound b"
  by (simp_all add: park_def Let_def)

lemma take_item_frame:
  assumes "take_item b = (m, b')"
  shows "low_token b' = low_token b + 1" "high_token b' = high_token b" "buf_ordered b' = buf_ordered b"
    "buf_bound b' = buf_bound b"
  using assms by (auto simp: take_item_def take_next_def Let_def)

lemma take_item_shape:
  assumes "buf_shape b" "waiting b (low_token b) = None" "take_item b = (m, b')"
  shows "buf_shape b'" "waiting b' = (waiting b)(low_token b + 1 := None)" "m = waiting b (low_token b + 1)"
proof -
  let ?low = "low_token b + 1"
  define c where "c = b\<lparr>low_token := ?low\<rparr>"
  have c: "buf_shape c" "waiting c = waiting b" "low_token c = ?low" "0 < array_size c"
    unfolding c_def using waiting_advance [OF assms(1,2)] assms(1) by (auto simp: buf_shape_def)
  define x where "x = buf_array b ! slot (array_size b) ?low"
  have b': "b' = store c ?low (x\<lparr>is_valid := False\<rparr>)"
    and m: "m = (if is_valid x then Some x else None)"
    using assms(3) by (auto simp: take_item_def take_next_def Let_def store_def c_def x_def)
  show "buf_shape b'" "waiting b' = (waiting b)(?low := None)"
    unfolding b' using waiting_store [of c ?low "x\<lparr>is_valid := False\<rparr>"] c by simp_all
  have "array_size c = array_size b" "buf_array c = buf_array b" by (simp_all add: c_def)
  then have "waiting c ?low = m" using c(3,4) by (simp add: waiting_def m x_def)
  then show "m = waiting b ?low" using c(2) by simp
qed

interpretation tb: reorder_buffer buf_ok waiting low_token park take_item is_valid
proof unfold_locales
  fix b :: "'a input_buffer" and t x assume b: "buf_ok b"
  show "finite (dom (waiting b))" by simp
  show "waiting b t = Some x \<Longrightarrow> low_token b < t"
    using b waiting_Some(1) [of b t x] by (cases "t = low_token b") (auto simp: buf_ok_def)
next
  fix b :: "'a input_buffer" and t and x :: "'a task_info" assume b: "buf_ok b" "is_valid x" "low_token b < t"
  then show "waiting (park t x b) = (waiting b)(t \<mapsto> x)" "buf_ok (park t x b)"
    using park_shape [of b t x] by (simp_all add: buf_ok_def)
next
  fix b b' :: "'a input_buffer" and m assume b: "buf_ok b" "take_item b = (m, b')"
  then show "m = waiting b (low_token b + 1)" "waiting b' = (waiting b)(low_token b + 1 := None)" "buf_ok b'"
    using take_item_shape [of b m b'] take_item_frame [OF b(2)] by (simp_all add: buf_ok_def)
qed (simp_all add: take_item_frame)

text \<open>The operations of the code in terms of the interface.\<close>

lemma note_done_take: "\<not> buf_ordered b \<or> token = low_token b \<Longrightarrow> note_done token b = take_item b"
  by (simp add: note_done_def take_item_def)

lemma input_buffer_new_eq: "input_buffer_new ordered False =
    grow initial_buffer_size \<lparr>buf_array = [], array_size = 0, low_token = 0, high_token = 0,
      buf_ordered = ordered, buf_bound = False, my_sem = None\<rparr>"
  by (simp add: input_buffer_new_def)

lemma input_buffer_new_ok:
  fixes b :: "'a input_buffer"
  assumes "b = input_buffer_new ordered False"
  shows "buf_ok b" "waiting b = Map.empty" "low_token b = 0" "high_token b = 0" "buf_ordered b = ordered"
  using grow_new_array [of "\<lparr>buf_array = [] :: 'a task_info list, array_size = 0, low_token = 0, high_token = 0,
         buf_ordered = ordered, buf_bound = False, my_sem = None\<rparr>" initial_buffer_size]
  unfolding assms input_buffer_new_eq buf_ok_def by (simp_all only: grow_frame) simp_all

lemma take_ticket_frame:
  assumes "take_ticket x b = (t, i, b1)"
  shows "low_token b1 = low_token b" "buf_bound b1 = buf_bound b" "buf_ordered b1 = buf_ordered b"
    "waiting b1 = waiting b" "buf_ok b1 = buf_ok b" "my_object i = my_object x" "is_valid i = is_valid x"
  using assms by (auto simp: take_ticket_def waiting_def buf_ok_def buf_shape_def fun_eq_iff split: if_splits)

lemma put_token_plain:
  assumes "\<not> buf_bound b" "take_ticket (x\<lparr>is_valid := True\<rparr>) b = (t, i, b1)"
  shows "put_token x False b = (if t \<noteq> low_token b then (True, i, park t i b1) else (False, i, b1))"
  using assms take_ticket_frame(1,2) [OF assms(2)] by (simp add: put_token_def)

end
