(* ===== verification/Pipeline_Flow.thy ===== *)
theory Pipeline_Flow
  imports Pipeline_Buffer
begin

text \<open>
  What a pipeline promises, without tasks, buffers and counters: items in flight, each with the
  filter it is due at, its object and the token it may carry, and a trace of the calls of every
  filter. An ordered filter takes the item whose token is the number of its calls so far. The
  invariant of this machine gives the order of the calls, and that no item is lost or duplicated.
\<close>

section \<open>The machine\<close>

type_synonym 'a entry = "nat \<times> 'a option \<times> nat option"

record 'a flow =
  flight :: "'a entry multiset"
  trace :: "nat \<Rightarrow> (nat \<times> 'a option) list"
  assigned :: nat

text \<open>The parameters: the number of filters, which are ordered, and their functions.\<close>

record 'a stages =
  count_of :: nat
  ordered :: "nat \<Rightarrow> bool"
  body :: "nat \<Rightarrow> 'a option \<Rightarrow> 'a option"

definition first_ordered :: "'a stages \<Rightarrow> nat" where
  "first_ordered P = length (takeWhile (\<lambda>k. \<not> ordered P k) [0..<count_of P])"

definition add_trace :: "nat \<Rightarrow> nat \<times> 'a option \<Rightarrow> (nat \<Rightarrow> (nat \<times> 'a option) list) \<Rightarrow> nat \<Rightarrow> (nat \<times> 'a option) list" where
  "add_trace k e tr = tr(k := tr k @ [e])"

inductive flow_step :: "'a stages \<Rightarrow> 'a flow \<Rightarrow> 'a flow \<Rightarrow> bool" for P where
  emit: "flow_step P \<lparr>flight = F, trace = tr, assigned = n\<rparr>
    \<lparr>flight = add_mset (1, ob, if first_ordered P = 0 then Some n else None) F,
     trace = add_trace 0 (t, ob) tr, assigned = (if first_ordered P = 0 then n + 1 else n)\<rparr>"
    if "first_ordered P = 0 \<Longrightarrow> t = n"
| assign: "flow_step P \<lparr>flight = add_mset (k, ob, None) F, trace = tr, assigned = n\<rparr>
    \<lparr>flight = add_mset (k, ob, Some n) F, trace = tr, assigned = n + 1\<rparr>"
    if "k = first_ordered P" "0 < k"
| call: "flow_step P \<lparr>flight = add_mset (k, ob, tk) F, trace = tr, assigned = n\<rparr>
    \<lparr>flight = add_mset (Suc k, body P k ob, tk) F, trace = add_trace k (t, ob) tr, assigned = n\<rparr>"
    if "1 \<le> k" "k < count_of P" "\<And>u. tk = Some u \<Longrightarrow> t = u" "tk = None \<Longrightarrow> k < first_ordered P"
      "ordered P k \<Longrightarrow> tk = Some (length (tr k))"
| exit: "flow_step P \<lparr>flight = add_mset (count_of P, ob, tk) F, trace = tr, assigned = n\<rparr>
    \<lparr>flight = F, trace = add_trace (count_of P) (t, ob) tr, assigned = n\<rparr>"
    if "\<And>u. tk = Some u \<Longrightarrow> t = u"

definition flow_start :: "'a flow" where
  "flow_start = \<lparr>flight = {#}, trace = (\<lambda>_. []), assigned = 0\<rparr>"

text \<open>The object of an item that leaves filter \<open>j\<close> (or enters it, for \<open>j > 0\<close>) when it reaches filter \<open>d\<close>.\<close>

definition path :: "'a stages \<Rightarrow> nat \<Rightarrow> nat \<Rightarrow> 'a option \<Rightarrow> 'a option" where
  "path P j d ob = fold (body P) [max 1 j..<d] ob"

definition tokens_of :: "'a entry multiset \<Rightarrow> nat multiset" where
  "tokens_of F = image_mset (\<lambda>e. the (snd (snd e))) (filter_mset (\<lambda>e. snd (snd e) \<noteq> None) F)"

lemma tokens_of_simps [simp]:
  "tokens_of {#} = {#}" "tokens_of (F + G) = tokens_of F + tokens_of G"
  "tokens_of (add_mset (d, ob, None) F) = tokens_of F"
  "tokens_of (add_mset (d, ob, Some t) F) = add_mset t (tokens_of F)"
  by (simp_all add: tokens_of_def)

lemma in_tokens_of: "t \<in># tokens_of F \<longleftrightarrow> (\<exists>d ob. (d, ob, Some t) \<in># F)"
  by (force simp: tokens_of_def)

lemma first_ordered_le: "first_ordered P \<le> count_of P"
  unfolding first_ordered_def by (metis length_takeWhile_le length_upt minus_nat.diff_0)

lemma first_ordered_ordered: "first_ordered P < count_of P \<Longrightarrow> ordered P (first_ordered P)"
  unfolding first_ordered_def using nth_length_takeWhile [of "\<lambda>k. \<not> ordered P k" "[0..<count_of P]"] by simp

lemma first_ordered_least: "ordered P k \<Longrightarrow> k < count_of P \<Longrightarrow> first_ordered P \<le> k"
proof (rule ccontr)
  assume a: "ordered P k" "k < count_of P" "\<not> first_ordered P \<le> k"
  then have "takeWhile (\<lambda>k. \<not> ordered P k) [0..<count_of P] ! k = k"
    by (simp add: first_ordered_def takeWhile_nth)
  moreover have "takeWhile (\<lambda>k. \<not> ordered P k) [0..<count_of P] ! k \<in> set (takeWhile (\<lambda>k. \<not> ordered P k) [0..<count_of P])"
    using a by (intro nth_mem) (simp add: first_ordered_def)
  ultimately show False using a(1) set_takeWhileD by metis
qed

lemma path_self [simp]: "d \<le> max 1 j \<Longrightarrow> path P j d ob = ob"
  by (simp add: path_def)

lemma path_Suc: "1 \<le> d \<Longrightarrow> j \<le> d \<Longrightarrow> path P j (Suc d) ob = body P d (path P j d ob)"
  by (simp add: path_def)

lemma path_first: "1 \<le> d \<Longrightarrow> d < e \<Longrightarrow> path P d e ob = path P (Suc d) e (body P d ob)"
proof -
  assume "1 \<le> d" "d < e"
  then have "[max 1 d..<e] = d # [max 1 (Suc d)..<e]" by (simp add: upt_conv_Cons max_def)
  then show ?thesis by (simp add: path_def)
qed

lemma add_trace_simps [simp]:
  "add_trace k e tr k = tr k @ [e]" "i \<noteq> k \<Longrightarrow> add_trace k e tr i = tr i"
  by (simp_all add: add_trace_def)

section \<open>The invariant\<close>

definition tokens_inv :: "'a stages \<Rightarrow> 'a flow \<Rightarrow> bool" where
  "tokens_inv P f \<longleftrightarrow>
     (first_ordered P < count_of P \<longrightarrow>
       tokens_of (flight f) + mset (map fst (trace f (count_of P))) = mset [0..<assigned f]) \<and>
     (\<forall>d ob tk. (d, ob, tk) \<in># flight f \<longrightarrow> 1 \<le> d \<and> d \<le> count_of P \<and> (tk = None \<longrightarrow> d \<le> first_ordered P) \<and>
        (tk \<noteq> None \<longrightarrow> first_ordered P \<le> d))"

text \<open>An ordered filter has seen the tokens below the length of its trace, and only these are past it.\<close>

definition sequenced :: "'a stages \<Rightarrow> 'a flow \<Rightarrow> nat \<Rightarrow> bool" where
  "sequenced P f k \<longleftrightarrow>
     map fst (trace f k) = [0..<length (trace f k)] \<and>
     length (trace f k) \<le> assigned f \<and>
     length (trace f k) \<le> length (trace f (first_ordered P)) \<and>
     (\<forall>d ob t. (d, ob, Some t) \<in># flight f \<longrightarrow> (d \<le> k \<longleftrightarrow> length (trace f k) \<le> t)) \<and>
     (\<forall>(t, ob) \<in> set (trace f (count_of P)). t < length (trace f k))"

definition order_inv :: "'a stages \<Rightarrow> 'a flow \<Rightarrow> bool" where
  "order_inv P f \<longleftrightarrow>
     (first_ordered P = 0 \<longrightarrow> map fst (trace f 0) = [0..<assigned f]) \<and>
     (\<forall>k. 1 \<le> k \<longrightarrow> k < count_of P \<longrightarrow> ordered P k \<longrightarrow> sequenced P f k)"

text \<open>The object of a token in the trace of the first ordered filter determines it everywhere.\<close>

definition origin :: "'a stages \<Rightarrow> 'a flow \<Rightarrow> nat \<Rightarrow> 'a option" where
  "origin P f t = snd (trace f (first_ordered P) ! t)"

definition object_inv :: "'a stages \<Rightarrow> 'a flow \<Rightarrow> bool" where
  "object_inv P f \<longleftrightarrow>
     (\<forall>d ob t. (d, ob, Some t) \<in># flight f \<longrightarrow> first_ordered P < d \<longrightarrow> ob = path P (first_ordered P) d (origin P f t)) \<and>
     (\<forall>k t. 1 \<le> k \<longrightarrow> k < count_of P \<longrightarrow> ordered P k \<longrightarrow> t < length (trace f k) \<longrightarrow>
        snd (trace f k ! t) = path P (first_ordered P) k (origin P f t)) \<and>
     (\<forall>t ob. first_ordered P < count_of P \<longrightarrow> (t, ob) \<in> set (trace f (count_of P)) \<longrightarrow>
        ob = path P (first_ordered P) (count_of P) (origin P f t))"

definition conserve_inv :: "'a stages \<Rightarrow> 'a flow \<Rightarrow> bool" where
  "conserve_inv P f \<longleftrightarrow>
     (\<forall>k. 1 \<le> k \<longrightarrow> k \<le> count_of P \<longrightarrow>
        mset (map snd (trace f k)) +
        image_mset (\<lambda>e. path P (fst e) k (fst (snd e))) (filter_mset (\<lambda>e. fst e \<le> k) (flight f)) =
        image_mset (\<lambda>e. path P 1 k (snd e)) (mset (trace f 0)))"

lemma mset_set_Suc: "mset_set {0..<Suc n} = add_mset n (mset_set {0..<n})"
  by (simp add: atLeast0_lessThan_Suc)

lemma tokens_inv_step:
  assumes "flow_step P f g" "tokens_inv P f" "1 \<le> count_of P"
  shows "tokens_inv P g"
  using assms(1,2)
proof (induction rule: flow_step.induct)
  case (emit t n F tr ob)
  have "count_of P \<noteq> 0" using assms(3) by simp
  then show ?case using emit assms(3) by (auto simp: tokens_inv_def mset_set_Suc)
next
  case (call k tk t tr ob F n)
  then have "count_of P \<noteq> k" "Suc k \<le> count_of P" by auto
  then show ?case using call first_ordered_least [of P k]
    by (cases tk) (auto simp: tokens_inv_def intro: le_SucI)
next
  case (exit tk t ob F tr n)
  show ?case
  proof (cases tk)
    case None
    then have "count_of P \<le> first_ordered P" using exit(2) by (auto simp: tokens_inv_def)
    then show ?thesis using exit(2) None unfolding tokens_inv_def by fastforce
  qed (use exit in \<open>auto simp: tokens_inv_def\<close>)
qed (auto simp: tokens_inv_def mset_set_Suc)

text \<open>Tokens in flight are pairwise different, below the counter and not those that left.\<close>

lemma tokens_invD:
  assumes "tokens_inv P f" "first_ordered P < count_of P" "flight f = add_mset (k, ob, Some u) F"
  shows token_other: "(d, ob', Some t) \<in># F \<Longrightarrow> t \<noteq> u"
    and token_not_out: "(t, ob') \<in> set (trace f (count_of P)) \<Longrightarrow> t \<noteq> u"
    and token_assigned: "u < assigned f"
proof -
  have eq: "add_mset u (tokens_of F) + mset (map fst (trace f (count_of P))) = mset_set {0..<assigned f}"
    using assms by (simp add: tokens_inv_def)
  then have "u \<in># mset_set {0..<assigned f}" by (metis add_mset_add_single union_iff union_single_eq_member)
  then show "u < assigned f" by simp
  have "count (mset_set {0..<assigned f}) u \<le> 1" by (simp add: count_mset_set')
  then have "count (tokens_of F) u = 0 \<and> count (mset (map fst (trace f (count_of P)))) u = 0"
    unfolding eq [symmetric] by simp
  then have "u \<notin># tokens_of F" "u \<notin># mset (map fst (trace f (count_of P)))"
    by (simp_all only: count_eq_zero_iff simp_thms)
  then show "(d, ob', Some t) \<in># F \<Longrightarrow> t \<noteq> u" "(t, ob') \<in> set (trace f (count_of P)) \<Longrightarrow> t \<noteq> u"
    by (auto simp: in_tokens_of image_iff)
qed

lemma token_below:
  assumes "tokens_inv P f" "first_ordered P < count_of P" "(d, ob, Some t) \<in># flight f"
  shows "t < assigned f"
  using token_assigned [OF assms(1,2)] assms(3) by (metis insert_DiffM)

lemma out_below:
  assumes "tokens_inv P f" "first_ordered P < count_of P" "(t, ob) \<in> set (trace f (count_of P))"
  shows "t < assigned f"
proof -
  have "t \<in># tokens_of (flight f) + mset (map fst (trace f (count_of P)))" using assms(3) by force
  moreover have "tokens_of (flight f) + mset (map fst (trace f (count_of P))) = mset [0..<assigned f]"
    using assms(1,2) by (simp only: tokens_inv_def)
  ultimately have "t \<in># mset [0..<assigned f]" by (simp only:)
  then show ?thesis by simp
qed

lemma sequencedD:
  assumes "sequenced P f k"
  shows seq_fst: "map fst (trace f k) = [0..<length (trace f k)]"
    and seq_assigned: "length (trace f k) \<le> assigned f"
    and seq_first: "length (trace f k) \<le> length (trace f (first_ordered P))"
    and seq_due: "(d, ob, Some t) \<in># flight f \<Longrightarrow> d \<le> k \<longleftrightarrow> length (trace f k) \<le> t"
    and seq_out: "(t, ob) \<in> set (trace f (count_of P)) \<Longrightarrow> t < length (trace f k)"
  using assms by (auto simp: sequenced_def)

lemma sequencedI:
  assumes "map fst (trace f k) = [0..<length (trace f k)]" "length (trace f k) \<le> assigned f"
    "length (trace f k) \<le> length (trace f (first_ordered P))"
    "\<And>d ob t. (d, ob, Some t) \<in># flight f \<Longrightarrow> d \<le> k \<longleftrightarrow> length (trace f k) \<le> t"
    "\<And>t ob. (t, ob) \<in> set (trace f (count_of P)) \<Longrightarrow> t < length (trace f k)"
  shows "sequenced P f k"
  using assms by (auto simp: sequenced_def)

lemma order_invD:
  assumes "order_inv P f"
  shows order_seq: "1 \<le> k \<Longrightarrow> k < count_of P \<Longrightarrow> ordered P k \<Longrightarrow> sequenced P f k"
    and order_zero: "first_ordered P = 0 \<Longrightarrow> map fst (trace f 0) = [0..<assigned f]"
  using assms by (auto simp: order_inv_def)

lemma order_zero_length: "order_inv P f \<Longrightarrow> first_ordered P = 0 \<Longrightarrow> length (trace f 0) = assigned f"
  by (drule (1) order_zero) (metis diff_zero length_map length_upt)

text \<open>An item past the first ordered filter has been in its trace.\<close>

lemma past_first:
  assumes "order_inv P f" "tokens_inv P f" "first_ordered P < count_of P"
    and "(d, ob, Some t) \<in># flight f" "first_ordered P < d"
  shows "t < length (trace f (first_ordered P))"
proof (cases "first_ordered P = 0")
  case True
  then show ?thesis using token_below [OF assms(2,3,4)] order_zero_length [OF assms(1)] by simp
next
  case False
  then show ?thesis
    using seq_due [OF order_seq [OF assms(1) _ assms(3) first_ordered_ordered [OF assms(3)]] assms(4)] assms(5)
    by simp
qed

lemma order_inv_step:
  assumes "flow_step P f g" "tokens_inv P f" "order_inv P f" "1 \<le> count_of P"
  shows "order_inv P g"
  using assms(1-3)
proof (induction rule: flow_step.induct)
  case (emit t n F tr ob)
  have K: "count_of P \<noteq> 0" using assms(4) by simp
  show ?case
    using emit K by (auto simp: order_inv_def sequenced_def add_trace_def)
next
  case (assign k n ob F tr)
  have K: "count_of P \<noteq> 0" using assms(4) by simp
  have "k \<le> i" if "i < count_of P" "ordered P i" for i
    using assign(1) first_ordered_least that by blast
  then show ?case using assign by (auto simp: order_inv_def sequenced_def)
next
  case (call k tk t tr ob F n)
  let ?f = "\<lparr>flight = add_mset (k, ob, tk) F, trace = tr, assigned = n\<rparr>"
  let ?g = "\<lparr>flight = add_mset (Suc k, body P k ob, tk) F, trace = add_trace k (t, ob) tr, assigned = n\<rparr>"
  have ne: "k \<noteq> 0" "k \<noteq> count_of P" using call(1,2) by auto
  show ?case unfolding order_inv_def
  proof (intro conjI allI impI)
    show "first_ordered P = 0 \<Longrightarrow> map fst (trace ?g 0) = [0..<assigned ?g]"
      using order_zero [OF call(7)] ne by simp
    fix i assume i: "1 \<le> i" "i < count_of P" "ordered P i"
    note seq = order_seq [OF call(7) i]
    show "sequenced P ?g i"
    proof (cases "i = k")
      case False
      then have tr: "trace ?g i = tr i" "trace ?g (count_of P) = tr (count_of P)"
        "length (tr (first_ordered P)) \<le> length (trace ?g (first_ordered P))"
        using ne by (auto simp: add_trace_def)
      show ?thesis
      proof (rule sequencedI)
        fix d ob' u assume "(d, ob', Some u) \<in># flight ?g"
        then show "d \<le> i \<longleftrightarrow> length (trace ?g i) \<le> u"
          using seq_due [OF seq, of d ob' u] seq_due [OF seq, of k ob u] False tr(1) by auto
      qed (use tr seq_fst [OF seq] seq_assigned [OF seq] seq_first [OF seq] seq_out [OF seq] in auto)
    next
      case True
      then have tk: "tk = Some (length (tr k))" "t = length (tr k)" using call(3,5) i(3) by auto
      have fk: "first_ordered P < count_of P" "first_ordered P \<le> k"
        using first_ordered_least [OF i(3,2)] i(2) True by auto
      have f: "flight ?f = add_mset (k, ob, Some (length (tr k))) F" using tk by simp
      have less: "length (tr k) < n" using token_assigned [OF call(6) fk(1) f] by simp
      have other: "u \<noteq> length (tr k)" if "(d, ob', Some u) \<in># F" for d ob' u
        using token_other [OF call(6) fk(1) f that] .
      have first: "length (tr k) < length (tr (first_ordered P))" if "first_ordered P \<noteq> k"
        using past_first [OF call(7,6) fk(1), of k ob "length (tr k)"] that fk(2) tk by simp
      show ?thesis using seq ne less first unfolding True sequenced_def
        by (auto simp: add_trace_def tk Suc_le_eq le_less dest: other intro: less_SucI)
    qed
  qed
next
  case (exit tk t ob F tr n)
  have K: "count_of P \<noteq> 0" using assms(4) by simp
  have none: "tk \<noteq> None" if "i < count_of P" "ordered P i" for i
    using exit(2) first_ordered_least [OF that(2,1)] that(1) by (auto simp: tokens_inv_def)
  let ?g = "\<lparr>flight = F, trace = add_trace (count_of P) (t, ob) tr, assigned = n\<rparr>"
  have "sequenced P ?g i" if i: "1 \<le> i" "i < count_of P" "ordered P i" for i
  proof (rule sequencedI)
    note seq = order_seq [OF exit(3) i]
    obtain u where u: "tk = Some u" "t = u" using none i exit(1) by blast
    have "t < length (tr i)" using seq_due [OF seq, of "count_of P" ob u] u i by simp
    then show "\<And>v ob'. (v, ob') \<in> set (trace ?g (count_of P)) \<Longrightarrow> v < length (trace ?g i)"
      using seq_out [OF seq] i by auto
    show "\<And>d ob' v. (d, ob', Some v) \<in># flight ?g \<Longrightarrow> d \<le> i \<longleftrightarrow> length (trace ?g i) \<le> v"
      using seq_due [OF seq] i by auto
  qed (use seq_fst [OF order_seq [OF exit(3) i]] seq_assigned [OF order_seq [OF exit(3) i]]
      seq_first [OF order_seq [OF exit(3) i]] i in \<open>auto simp: add_trace_def\<close>)
  then show ?case using exit(3) K by (auto simp: order_inv_def)
qed

lemma object_invI:
  assumes "\<And>d ob t. (d, ob, Some t) \<in># flight f \<Longrightarrow> first_ordered P < d \<Longrightarrow>
      ob = path P (first_ordered P) d (origin P f t)"
    "\<And>k t. 1 \<le> k \<Longrightarrow> k < count_of P \<Longrightarrow> ordered P k \<Longrightarrow> t < length (trace f k) \<Longrightarrow>
      snd (trace f k ! t) = path P (first_ordered P) k (origin P f t)"
    "\<And>t ob. first_ordered P < count_of P \<Longrightarrow> (t, ob) \<in> set (trace f (count_of P)) \<Longrightarrow>
      ob = path P (first_ordered P) (count_of P) (origin P f t)"
  shows "object_inv P f"
  using assms by (auto simp: object_inv_def)

lemma object_invD:
  assumes "object_inv P f"
  shows obj_flight: "(d, ob, Some t) \<in># flight f \<Longrightarrow> first_ordered P < d \<Longrightarrow>
      ob = path P (first_ordered P) d (origin P f t)"
    and obj_trace: "1 \<le> k \<Longrightarrow> k < count_of P \<Longrightarrow> ordered P k \<Longrightarrow> t < length (trace f k) \<Longrightarrow>
      snd (trace f k ! t) = path P (first_ordered P) k (origin P f t)"
    and obj_out: "first_ordered P < count_of P \<Longrightarrow> (t, ob) \<in> set (trace f (count_of P)) \<Longrightarrow>
      ob = path P (first_ordered P) (count_of P) (origin P f t)"
  using assms by (auto simp: object_inv_def)

lemma out_first:
  assumes "order_inv P f" "tokens_inv P f" "first_ordered P < count_of P" "(t, ob) \<in> set (trace f (count_of P))"
  shows "t < length (trace f (first_ordered P))"
proof (cases "first_ordered P = 0")
  case True
  then show ?thesis using out_below [OF assms(2,3,4)] order_zero_length [OF assms(1)] by simp
next
  case False
  then show ?thesis
    using seq_out [OF order_seq [OF assms(1) _ assms(3) first_ordered_ordered [OF assms(3)]] assms(4)] by simp
qed

text \<open>Traces only grow.\<close>

lemma flow_step_trace:
  "flow_step P f g \<Longrightarrow> \<exists>es. trace g k = trace f k @ es"
  by (induction rule: flow_step.induct) (auto simp: add_trace_def)

lemma origin_step:
  assumes "flow_step P f g" "t < length (trace f (first_ordered P))"
  shows "origin P g t = origin P f t"
  using flow_step_trace [OF assms(1), of "first_ordered P"] assms(2) by (auto simp: origin_def nth_append)

lemma object_inv_step:
  assumes step: "flow_step P f g" and inv: "tokens_inv P f" "order_inv P f" "object_inv P f" and K: "1 \<le> count_of P"
  shows "object_inv P g"
proof -
  let ?j = "first_ordered P"
  note orig = origin_step [OF step]
  have flight: "ob = path P ?j d (origin P g t)" if "(d, ob, Some t) \<in># flight f" "?j < d" for d ob t
  proof -
    have "?j < count_of P" using that inv(1) by (force simp: tokens_inv_def)
    then show ?thesis using obj_flight [OF inv(3) that] orig past_first [OF inv(2,1) _ that] by simp
  qed
  have calls: "snd (trace f k ! t) = path P ?j k (origin P g t)"
    if "1 \<le> k" "k < count_of P" "ordered P k" "t < length (trace f k)" for k t
    using obj_trace [OF inv(3) that] orig seq_first [OF order_seq [OF inv(2) that(1-3)]] that(4) by simp
  have out: "ob = path P ?j (count_of P) (origin P g t)"
    if "?j < count_of P" "(t, ob) \<in> set (trace f (count_of P))" for t ob
    using obj_out [OF inv(3) that] orig out_first [OF inv(2,1) that] by simp
  have new: "origin P g (length (trace f ?j)) = ob"
    if "trace g = add_trace ?j (t, ob) (trace f)" for t ob
    using that by (simp add: origin_def)
  show ?thesis
    using step
  proof (cases rule: flow_step.cases)
    case (emit n t F tr ob)
    have "origin P g n = ob" if "?j = 0"
      using new [of t ob] order_zero_length [OF inv(2) that] that emit by simp
    then show ?thesis
      using K flight calls out by (intro object_invI) (auto simp: emit split: if_splits)
  next
    case (assign k ob F tr n)
    show ?thesis
      using K flight calls out assign(3) by (intro object_invI) (auto simp: assign(1,2))
  next
    case (call k tk t tr ob F n)
    let ?n = "length (trace f k)"
    have le: "tk \<noteq> None \<Longrightarrow> ?j \<le> k" using inv(1) by (auto simp: tokens_inv_def call(1))
    have body: "body P k ob = path P ?j (Suc k) (origin P g u)" if u: "tk = Some u" for u
    proof (cases "?j = k")
      case True
      have "ordered P k" using first_ordered_ordered [of P] call(4) True by simp
      then have "u = ?n" "t = ?n" using call(5,7) u by (auto simp: call(1))
      then have "origin P g u = ob" using new [of t ob] by (simp add: call(1,2) True)
      then show ?thesis using call(3) by (simp add: path_Suc True)
    next
      case False
      then have "ob = path P ?j k (origin P g u)" using flight [of k ob u] le u by (simp add: call(1))
      then show ?thesis using call(3) le u by (simp add: path_Suc)
    qed
    have called: "ob = path P ?j k (origin P g ?n)" if o: "ordered P k"
    proof (cases "?j = k")
      case True
      then show ?thesis using new [of t ob] call(3) by (simp add: call(1,2))
    next
      case False
      have "tk = Some ?n" using call(7) o by (simp add: call(1))
      then show ?thesis using flight [of k ob ?n] le False by (simp add: call(1))
    qed
    show ?thesis
    proof (rule object_invI)
      fix d ob' u assume "(d, ob', Some u) \<in># flight g" "?j < d"
      then show "ob' = path P ?j d (origin P g u)"
        using flight [of d ob' u] body [of u] by (auto simp: call(1,2))
    next
      fix i u assume i: "1 \<le> i" "i < count_of P" "ordered P i" "u < length (trace g i)"
      show "snd (trace g i ! u) = path P ?j i (origin P g u)"
        using calls [OF i(1-3), of u] called i
        by (cases "i = k \<and> u = ?n") (auto simp: call(1,2) nth_append add_trace_def split: if_splits)
    next
      fix u ob' assume "?j < count_of P" "(u, ob') \<in> set (trace g (count_of P))"
      then show "ob' = path P ?j (count_of P) (origin P g u)"
        using out [of u ob'] call(4) by (auto simp: call(1,2))
    qed
  next
    case (exit tk t ob F tr n)
    have last: "ob = path P ?j (count_of P) (origin P g t)" if j: "?j < count_of P"
    proof -
      have "tk \<noteq> None" using inv(1) j by (auto simp: tokens_inv_def exit(1))
      then show ?thesis using flight [of "count_of P" ob t] exit(3) j by (auto simp: exit(1))
    qed
    show ?thesis
    proof (rule object_invI)
      fix d ob' u assume "(d, ob', Some u) \<in># flight g" "?j < d"
      then show "ob' = path P ?j d (origin P g u)" using flight [of d ob' u] by (simp add: exit(1,2))
    next
      fix i u assume i: "1 \<le> i" "i < count_of P" "ordered P i" "u < length (trace g i)"
      then show "snd (trace g i ! u) = path P ?j i (origin P g u)"
        using calls [OF i(1-3), of u] by (auto simp: exit(1,2))
    next
      fix u ob' assume j: "?j < count_of P" and "(u, ob') \<in> set (trace g (count_of P))"
      then have "(u, ob') \<in> set (trace f (count_of P)) \<or> u = t \<and> ob' = ob" by (auto simp: exit(1,2))
      then show "ob' = path P ?j (count_of P) (origin P g u)"
        using out [OF j] last [OF j] by blast
    qed
  qed
qed

text \<open>Every item that entered is in flight before a filter or in its trace.\<close>

lemma conserve_inv_step:
  assumes step: "flow_step P f g" and inv: "conserve_inv P f" and tok: "tokens_inv P f" and K: "1 \<le> count_of P"
  shows "conserve_inv P g"
  using step
proof (cases rule: flow_step.cases)
  case (emit n t F tr ob)
  show ?thesis unfolding conserve_inv_def
  proof (intro allI impI)
    fix i assume i: "1 \<le> i" "i \<le> count_of P"
    show "mset (map snd (trace g i)) +
        image_mset (\<lambda>e. path P (fst e) i (fst (snd e))) (filter_mset (\<lambda>e. fst e \<le> i) (flight g)) =
        image_mset (\<lambda>e. path P 1 i (snd e)) (mset (trace g 0))"
      using inv [unfolded conserve_inv_def, rule_format, OF i] i by (simp add: emit(1,2))
  qed
next
  case (assign k ob F tr n)
  show ?thesis using inv by (fastforce simp: conserve_inv_def assign(1,2))
next
  case (call k tk t tr ob F n)
  show ?thesis unfolding conserve_inv_def
  proof (intro allI impI)
    fix i assume i: "1 \<le> i" "i \<le> count_of P"
    have "path P k i ob = path P (Suc k) i (body P k ob)" if "k < i"
      using path_first [of k i P ob] call(3) that by simp
    moreover have "path P i i ob = ob" by simp
    ultimately show "mset (map snd (trace g i)) +
        image_mset (\<lambda>e. path P (fst e) i (fst (snd e))) (filter_mset (\<lambda>e. fst e \<le> i) (flight g)) =
        image_mset (\<lambda>e. path P 1 i (snd e)) (mset (trace g 0))"
      using inv [unfolded conserve_inv_def, rule_format, OF i] call(3)
      by (cases "i = k"; cases "i < k") (auto simp: call(1,2) Suc_le_eq)
  qed
next
  case (exit tk t ob F tr n)
  show ?thesis unfolding conserve_inv_def
  proof (intro allI impI)
    fix i assume i: "1 \<le> i" "i \<le> count_of P"
    have "path P i i ob = ob" by simp
    then show "mset (map snd (trace g i)) +
        image_mset (\<lambda>e. path P (fst e) i (fst (snd e))) (filter_mset (\<lambda>e. fst e \<le> i) (flight g)) =
        image_mset (\<lambda>e. path P 1 i (snd e)) (mset (trace g 0))"
      using inv [unfolded conserve_inv_def, rule_format, OF i] i K
      by (cases "i = count_of P") (simp_all add: exit(1,2))
  qed
qed

definition flow_inv :: "'a stages \<Rightarrow> 'a flow \<Rightarrow> bool" where
  "flow_inv P f \<longleftrightarrow> 1 \<le> count_of P \<and> tokens_inv P f \<and> order_inv P f \<and> object_inv P f \<and> conserve_inv P f"

lemma flow_invD:
  assumes "flow_inv P f"
  shows flow_inv_count: "1 \<le> count_of P" and flow_inv_tokens: "tokens_inv P f" and flow_inv_order: "order_inv P f"
    and flow_inv_object: "object_inv P f" and flow_inv_conserve: "conserve_inv P f"
  using assms by (simp_all add: flow_inv_def)

lemma flow_inv_start: "1 \<le> count_of P \<Longrightarrow> flow_inv P flow_start"
  by (simp add: flow_inv_def flow_start_def tokens_inv_def order_inv_def sequenced_def object_inv_def conserve_inv_def)

lemma flow_inv_step: "flow_step P f g \<Longrightarrow> flow_inv P f \<Longrightarrow> flow_inv P g"
  unfolding flow_inv_def
  using tokens_inv_step order_inv_step object_inv_step conserve_inv_step by blast

lemma flow_inv_steps: "(flow_step P)\<^sup>*\<^sup>* f g \<Longrightarrow> flow_inv P f \<Longrightarrow> flow_inv P g"
  by (induction rule: rtranclp_induct) (auto intro: flow_inv_step)

text \<open>
  The calls of an ordered filter are those of the first ordered one, in the same order, with the
  objects the filters in between made of them.
\<close>

lemma flow_ordered_trace:
  assumes "flow_inv P f" "1 \<le> k" "k < count_of P" "ordered P k"
  shows "trace f k = map (\<lambda>t. (t, path P (first_ordered P) k (origin P f t))) [0..<length (trace f k)]"
proof (rule nth_equalityI)
  fix t assume t: "t < length (trace f k)"
  have "fst (trace f k ! t) = t"
    using seq_fst [OF order_seq [OF flow_inv_order [OF assms(1)] assms(2-4)]] t
    by (metis diff_zero length_map length_upt nth_map nth_upt add_0)
  then show "trace f k ! t = map (\<lambda>t. (t, path P (first_ordered P) k (origin P f t))) [0..<length (trace f k)] ! t"
    using obj_trace [OF flow_inv_object [OF assms(1)] assms(2-4) t] t by (simp add: prod_eq_iff)
qed simp

end
