(* ===== verification/Pipeline.thy ===== *)
theory Pipeline
  imports Pipeline_Flow
begin

text \<open>
  The tasks of a pipeline (src/tbb/pipeline.cpp): \<^verbatim>\<open>stage_task::execute\<close> cut at its accesses to shared
  data (the calls of the filters, the input buffers, the counters and the flag of the pipeline),
  \<^verbatim>\<open>pipeline_root_task::execute\<close> and \<^verbatim>\<open>pipeline::run\<close>. The pool of tasks is a multiset and any of
  them may take the next step. The filters are not thread-bound and their input filter ends the
  stream with a null object; the input filter hands out the elements of a list, every other filter
  is a function of its item. \<open>log k\<close> records the calls of filter \<open>k\<close> (for the input filter the items
  it returned), and after the last filter the items that left the pipeline.
\<close>

section \<open>State\<close>

record 'a filter =
  my_filter_mode :: "8 word"
  operator :: "'a option \<Rightarrow> 'a option"

text \<open>
  Where a task is in \<^verbatim>\<open>execute\<close>: at its entry, before the decrement of \<^verbatim>\<open>input_tokens\<close> (in front of a
  parallel input filter or behind a serial one), in the filter, before \<^verbatim>\<open>note_done\<close>, before it goes
  to the next filter, and past the end of the pipe with the number of available tokens.
\<close>

datatype pc = Entry | Claim_first | In_filter | Claim_after | Noting | Advance | Ended nat

record 'a stage_task =
  info :: "'a task_info"
  my_filter :: nat
  my_at_start :: bool
  pc :: pc

record 'a pipeline =
  end_of_input :: bool
  input_tokens :: nat
  token_counter :: nat
  buffers :: "nat \<Rightarrow> 'a input_buffer"
  tasks :: "'a stage_task multiset"
  source :: "'a list"
  log :: "nat \<Rightarrow> (nat \<times> 'a option) list"

definition stage_task_new :: "'a stage_task" where
  "stage_task_new = \<lparr>info = task_info_reset, my_filter = 0, my_at_start = True, pc = Entry\<rparr>"

definition stage_task_at :: "nat \<Rightarrow> 'a task_info \<Rightarrow> 'a stage_task" where
  "stage_task_at k i = \<lparr>info = i, my_filter = k, my_at_start = False, pc = Entry\<rparr>"

definition spawn :: "'a stage_task \<Rightarrow> 'a pipeline \<Rightarrow> 'a pipeline" where
  "spawn x s = s\<lparr>tasks := add_mset x (tasks s)\<rparr>"

definition set_buffer :: "nat \<Rightarrow> 'a input_buffer \<Rightarrow> 'a pipeline \<Rightarrow> 'a pipeline" where
  "set_buffer k b s = s\<lparr>buffers := (buffers s)(k := b)\<rparr>"

definition log_call :: "nat \<Rightarrow> 'a task_info \<Rightarrow> 'a pipeline \<Rightarrow> 'a pipeline" where
  "log_call k i s = s\<lparr>log := (log s)(k := log s k @ [(my_token i, my_object i)])\<rparr>"

definition serial_at :: "'a filter list \<Rightarrow> nat \<Rightarrow> bool" where
  "serial_at fs k \<longleftrightarrow> is_serial (my_filter_mode (fs ! k))"

definition ordered_at :: "'a filter list \<Rightarrow> nat \<Rightarrow> bool" where
  "ordered_at fs k \<longleftrightarrow> is_ordered (my_filter_mode (fs ! k))"

section \<open>The steps of \<^verbatim>\<open>execute\<close>\<close>

text \<open>\<^verbatim>\<open>if( --my_pipeline.input_tokens>0 ) spawn( ... stage_task( my_pipeline ) )\<close>.\<close>

definition claim_token :: "'a pipeline \<Rightarrow> 'a pipeline" where
  "claim_token s =
     (let s' = s\<lparr>input_tokens := input_tokens s - 1\<rparr> in
      if input_tokens s' > 0 then spawn stage_task_new s' else s')"

text \<open>The input filter returns: the next element of the input, or a null object at its end.\<close>

definition read_input :: "'a pipeline \<Rightarrow> 'a option \<times> 'a pipeline" where
  "read_input s = (case source s of [] \<Rightarrow> (None, s) | a # as \<Rightarrow> (Some a, s\<lparr>source := as\<rparr>))"

definition serial_input_done :: "'a filter list \<Rightarrow> 'a stage_task \<Rightarrow> 'a pipeline \<Rightarrow> 'a pipeline" where
  "serial_input_done fs x s =
     (let (ob, s1) = read_input s; i = (info x)\<lparr>my_object := ob\<rparr> in
      if ob \<noteq> None then
        let (i', s2) = (if ordered_at fs 0
              then (i\<lparr>my_token := token_counter s1, my_token_ready := True\<rparr>,
                    s1\<lparr>token_counter := token_counter s1 + 1\<rparr>)
              else (i, s1));
            s3 = log_call 0 i' s2 in
        if length fs = 1 then spawn stage_task_new (log_call 1 i' s3)
        else spawn (x\<lparr>info := i', pc := Claim_after\<rparr>) s3
      else s1\<lparr>end_of_input := True\<rparr>)"

definition parallel_input_done :: "'a filter list \<Rightarrow> 'a stage_task \<Rightarrow> 'a pipeline \<Rightarrow> 'a pipeline" where
  "parallel_input_done fs x s =
     (let (ob, s1) = read_input s; i = (info x)\<lparr>my_object := ob\<rparr> in
      if ob = None then s1\<lparr>end_of_input := True\<rparr>
      else spawn (x\<lparr>info := i, my_at_start := False, pc := Advance\<rparr>) (log_call 0 i s1))"

text \<open>A filter that is not the input filter returns.\<close>

definition filter_done :: "'a filter list \<Rightarrow> 'a stage_task \<Rightarrow> 'a pipeline \<Rightarrow> 'a pipeline" where
  "filter_done fs x s =
     (let i = (info x)\<lparr>my_object := operator (fs ! my_filter x) (my_object (info x))\<rparr> in
      spawn (x\<lparr>info := i, pc := (if serial_at fs (my_filter x) then Noting else Advance)\<rparr>) s)"

text \<open>\<^verbatim>\<open>my_filter->my_input_buffer->note_done(my_token, *this)\<close>, with the task it spawns.\<close>

definition note_done_step :: "'a stage_task \<Rightarrow> 'a pipeline \<Rightarrow> 'a pipeline" where
  "note_done_step x s =
     (let k = my_filter x; (wakee, b) = note_done (my_token (info x)) (buffers s k);
          s1 = spawn (x\<lparr>pc := Advance\<rparr>) (set_buffer k b s) in
      case wakee of None \<Rightarrow> s1 | Some i \<Rightarrow> spawn (stage_task_at k i) s1)"

text \<open>The task moves to the next filter, or gives its token back at the end of the pipe.\<close>

definition next_filter :: "'a filter list \<Rightarrow> 'a stage_task \<Rightarrow> 'a pipeline \<Rightarrow> 'a pipeline" where
  "next_filter fs x s =
     (let k = my_filter x + 1 in
      if k < length fs then
        if serial_at fs k then
          let (stored, i, b) = put_token (info x) False (buffers s k);
              s1 = set_buffer k b s in
          if stored then s1
          else spawn (x\<lparr>info := i, my_filter := k, pc := Entry\<rparr>) s1
        else spawn (x\<lparr>my_filter := k, pc := Entry\<rparr>) s
      else
        let n = input_tokens s + 1 in
        spawn (x\<lparr>pc := Ended n\<rparr>) (log_call k (info x) (s\<lparr>input_tokens := n\<rparr>)))"

definition stage_step :: "'a filter list \<Rightarrow> 'a stage_task \<Rightarrow> 'a pipeline \<Rightarrow> 'a pipeline" where
  "stage_step fs x s =
     (case pc x of
        Entry \<Rightarrow>
          if my_at_start x then
            if serial_at fs (my_filter x) then spawn (x\<lparr>pc := In_filter\<rparr>) s
            else if end_of_input s then s
            else spawn (x\<lparr>pc := Claim_first\<rparr>) s
          else spawn (x\<lparr>pc := In_filter\<rparr>) (log_call (my_filter x) (info x) s)
      | Claim_first \<Rightarrow> spawn (x\<lparr>pc := In_filter\<rparr>) (claim_token s)
      | In_filter \<Rightarrow>
          if my_at_start x then
            if serial_at fs (my_filter x) then serial_input_done fs x s
            else parallel_input_done fs x s
          else filter_done fs x s
      | Claim_after \<Rightarrow> spawn (x\<lparr>my_at_start := False, pc := Advance\<rparr>) (claim_token s)
      | Noting \<Rightarrow> note_done_step x s
      | Advance \<Rightarrow> next_filter fs x s
      | Ended n \<Rightarrow> if n > 1 \<or> end_of_input s then s else spawn stage_task_new s)"

inductive pipe_step :: "'a filter list \<Rightarrow> 'a pipeline \<Rightarrow> 'a pipeline \<Rightarrow> bool" for fs where
  stage: "tasks s = add_mset x M \<Longrightarrow> pipe_step fs s (stage_step fs x (s\<lparr>tasks := M\<rparr>))"
| root: "tasks s = {#} \<Longrightarrow> \<not> end_of_input s \<Longrightarrow> input_tokens s > 0 \<Longrightarrow>
    pipe_step fs s (spawn stage_task_new s)"

text \<open>\<^verbatim>\<open>pipeline::add_filter\<close> gives every serial filter its buffer; \<^verbatim>\<open>pipeline::run\<close> starts the root task.\<close>

definition pipeline_run :: "'a filter list \<Rightarrow> nat \<Rightarrow> 'a list \<Rightarrow> 'a pipeline" where
  "pipeline_run fs max_number_of_live_tokens items =
     \<lparr>end_of_input = False, input_tokens = max_number_of_live_tokens, token_counter = 0,
      buffers = (\<lambda>k. input_buffer_new (ordered_at fs k) False),
      tasks = {#stage_task_new#}, source = items, log = (\<lambda>_. [])\<rparr>"

text \<open>Filters with one of the three modes.\<close>

definition plain_filters :: "'a filter list \<Rightarrow> bool" where
  "plain_filters fs \<longleftrightarrow> fs \<noteq> [] \<and> list_all (\<lambda>f. my_filter_mode f \<in> filter_mode ` {parallel, serial_in_order, serial_out_of_order}) fs"

section \<open>The moves, one rule for each branch\<close>

definition starts :: "nat \<Rightarrow> 'a stage_task multiset" where
  "starts n = (if n > 0 then {#stage_task_new#} else {#})"

definition wakes :: "nat \<Rightarrow> 'a task_info option \<Rightarrow> 'a stage_task multiset" where
  "wakes k w = (case w of None \<Rightarrow> {#} | Some i \<Rightarrow> {#stage_task_at k i#})"

definition emitted :: "'a filter list \<Rightarrow> 'a pipeline \<Rightarrow> 'a \<Rightarrow> 'a task_info" where
  "emitted fs s a = (if ordered_at fs 0
     then task_info_reset\<lparr>my_object := Some a, my_token := token_counter s, my_token_ready := True\<rparr>
     else task_info_reset\<lparr>my_object := Some a\<rparr>)"

definition returned :: "'a filter list \<Rightarrow> 'a stage_task \<Rightarrow> 'a task_info" where
  "returned fs x = (info x)\<lparr>my_object := operator (fs ! my_filter x) (my_object (info x))\<rparr>"

abbreviation logged :: "nat \<Rightarrow> 'a task_info \<Rightarrow> 'a pipeline \<Rightarrow> nat \<Rightarrow> (nat \<times> 'a option) list" where
  "logged k i s \<equiv> add_trace k (my_token i, my_object i) (log s)"

inductive move :: "'a filter list \<Rightarrow> 'a pipeline \<Rightarrow> 'a pipeline \<Rightarrow> bool" for fs s where
  start_serial: "tasks s = add_mset x M \<Longrightarrow> pc x = Entry \<Longrightarrow> my_at_start x \<Longrightarrow> serial_at fs 0 \<Longrightarrow>
    move fs s (s\<lparr>tasks := add_mset (x\<lparr>pc := In_filter\<rparr>) M\<rparr>)"
| start_stop: "tasks s = add_mset x M \<Longrightarrow> pc x = Entry \<Longrightarrow> my_at_start x \<Longrightarrow> \<not> serial_at fs 0 \<Longrightarrow>
    end_of_input s \<Longrightarrow> move fs s (s\<lparr>tasks := M\<rparr>)"
| start_parallel: "tasks s = add_mset x M \<Longrightarrow> pc x = Entry \<Longrightarrow> my_at_start x \<Longrightarrow> \<not> serial_at fs 0 \<Longrightarrow>
    \<not> end_of_input s \<Longrightarrow> move fs s (s\<lparr>tasks := add_mset (x\<lparr>pc := Claim_first\<rparr>) M\<rparr>)"
| claim_first: "tasks s = add_mset x M \<Longrightarrow> pc x = Claim_first \<Longrightarrow> my_at_start x \<Longrightarrow> \<not> serial_at fs 0 \<Longrightarrow>
    move fs s (s\<lparr>input_tokens := input_tokens s - 1,
      tasks := add_mset (x\<lparr>pc := In_filter\<rparr>) (M + starts (input_tokens s - 1))\<rparr>)"
| input_end: "tasks s = add_mset x M \<Longrightarrow> pc x = In_filter \<Longrightarrow> my_at_start x \<Longrightarrow> source s = [] \<Longrightarrow>
    move fs s (s\<lparr>tasks := M, end_of_input := True\<rparr>)"
| serial_input: "tasks s = add_mset x M \<Longrightarrow> pc x = In_filter \<Longrightarrow> my_at_start x \<Longrightarrow> serial_at fs 0 \<Longrightarrow>
    source s = a # as \<Longrightarrow> i = emitted fs s a \<Longrightarrow> 1 < length fs \<Longrightarrow>
    move fs s (s\<lparr>source := as,
      token_counter := (if ordered_at fs 0 then token_counter s + 1 else token_counter s),
      log := logged 0 i s, tasks := add_mset (x\<lparr>info := i, pc := Claim_after\<rparr>) M\<rparr>)"
| single_input: "tasks s = add_mset x M \<Longrightarrow> pc x = In_filter \<Longrightarrow> my_at_start x \<Longrightarrow> serial_at fs 0 \<Longrightarrow>
    source s = a # as \<Longrightarrow> i = emitted fs s a \<Longrightarrow> length fs = 1 \<Longrightarrow>
    move fs s (s\<lparr>source := as,
      token_counter := (if ordered_at fs 0 then token_counter s + 1 else token_counter s),
      log := add_trace 1 (my_token i, my_object i) (logged 0 i s), tasks := add_mset stage_task_new M\<rparr>)"
| parallel_input: "tasks s = add_mset x M \<Longrightarrow> pc x = In_filter \<Longrightarrow> my_at_start x \<Longrightarrow> \<not> serial_at fs 0 \<Longrightarrow>
    source s = a # as \<Longrightarrow> i = task_info_reset\<lparr>my_object := Some a\<rparr> \<Longrightarrow>
    move fs s (s\<lparr>source := as, log := logged 0 i s,
      tasks := add_mset (x\<lparr>info := i, my_at_start := False, pc := Advance\<rparr>) M\<rparr>)"
| claim_after: "tasks s = add_mset x M \<Longrightarrow> pc x = Claim_after \<Longrightarrow> my_at_start x \<Longrightarrow>
    move fs s (s\<lparr>input_tokens := input_tokens s - 1,
      tasks := add_mset (x\<lparr>my_at_start := False, pc := Advance\<rparr>) (M + starts (input_tokens s - 1))\<rparr>)"
| enter: "tasks s = add_mset x M \<Longrightarrow> pc x = Entry \<Longrightarrow> \<not> my_at_start x \<Longrightarrow>
    move fs s (s\<lparr>log := logged (my_filter x) (info x) s, tasks := add_mset (x\<lparr>pc := In_filter\<rparr>) M\<rparr>)"
| leave: "tasks s = add_mset x M \<Longrightarrow> pc x = In_filter \<Longrightarrow> \<not> my_at_start x \<Longrightarrow>
    p = (if serial_at fs (my_filter x) then Noting else Advance) \<Longrightarrow>
    move fs s (s\<lparr>tasks := add_mset (x\<lparr>info := returned fs x, pc := p\<rparr>) M\<rparr>)"
| finish: "tasks s = add_mset x M \<Longrightarrow> pc x = Noting \<Longrightarrow> \<not> my_at_start x \<Longrightarrow> k = my_filter x \<Longrightarrow>
    take_item (buffers s k) = (w, b) \<Longrightarrow>
    move fs s (s\<lparr>buffers := (buffers s)(k := b), tasks := add_mset (x\<lparr>pc := Advance\<rparr>) (M + wakes k w)\<rparr>)"
| stored: "tasks s = add_mset x M \<Longrightarrow> pc x = Advance \<Longrightarrow> \<not> my_at_start x \<Longrightarrow> k = my_filter x + 1 \<Longrightarrow>
    k < length fs \<Longrightarrow> serial_at fs k \<Longrightarrow>
    take_ticket ((info x)\<lparr>is_valid := True\<rparr>) (buffers s k) = (t, i, b) \<Longrightarrow> t \<noteq> low_token (buffers s k) \<Longrightarrow>
    move fs s (s\<lparr>tasks := M, buffers := (buffers s)(k := park t i b)\<rparr>)"
| proceed: "tasks s = add_mset x M \<Longrightarrow> pc x = Advance \<Longrightarrow> \<not> my_at_start x \<Longrightarrow> k = my_filter x + 1 \<Longrightarrow>
    k < length fs \<Longrightarrow> serial_at fs k \<Longrightarrow>
    take_ticket ((info x)\<lparr>is_valid := True\<rparr>) (buffers s k) = (t, i, b) \<Longrightarrow> t = low_token (buffers s k) \<Longrightarrow>
    move fs s (s\<lparr>buffers := (buffers s)(k := b), tasks := add_mset (x\<lparr>info := i, my_filter := k, pc := Entry\<rparr>) M\<rparr>)"
| pass: "tasks s = add_mset x M \<Longrightarrow> pc x = Advance \<Longrightarrow> \<not> my_at_start x \<Longrightarrow> k = my_filter x + 1 \<Longrightarrow>
    k < length fs \<Longrightarrow> \<not> serial_at fs k \<Longrightarrow>
    move fs s (s\<lparr>tasks := add_mset (x\<lparr>my_filter := k, pc := Entry\<rparr>) M\<rparr>)"
| pipe_end: "tasks s = add_mset x M \<Longrightarrow> pc x = Advance \<Longrightarrow> \<not> my_at_start x \<Longrightarrow> my_filter x + 1 = length fs \<Longrightarrow>
    move fs s (s\<lparr>input_tokens := input_tokens s + 1, log := logged (length fs) (info x) s,
      tasks := add_mset (x\<lparr>pc := Ended (input_tokens s + 1)\<rparr>) M\<rparr>)"
| retire: "tasks s = add_mset x M \<Longrightarrow> pc x = Ended n \<Longrightarrow> n > 1 \<or> end_of_input s \<Longrightarrow> move fs s (s\<lparr>tasks := M\<rparr>)"
| recycle: "tasks s = add_mset x M \<Longrightarrow> pc x = Ended n \<Longrightarrow> \<not> n > 1 \<Longrightarrow> \<not> end_of_input s \<Longrightarrow>
    move fs s (s\<lparr>tasks := add_mset stage_task_new M\<rparr>)"
| restart: "tasks s = {#} \<Longrightarrow> \<not> end_of_input s \<Longrightarrow> input_tokens s > 0 \<Longrightarrow>
    move fs s (s\<lparr>tasks := {#stage_task_new#}\<rparr>)"

text \<open>A task at any of these places is well formed.\<close>

definition first_ordered_at :: "'a filter list \<Rightarrow> nat" where
  "first_ordered_at fs = length (takeWhile (\<lambda>k. \<not> ordered_at fs k) [0..<length fs])"

definition task_ok :: "'a filter list \<Rightarrow> 'a stage_task \<Rightarrow> bool" where
  "task_ok fs x \<longleftrightarrow>
     (if my_at_start x then my_filter x = 0 \<and>
        (case pc x of Entry \<Rightarrow> info x = task_info_reset
         | In_filter \<Rightarrow> info x = task_info_reset
         | Claim_first \<Rightarrow> info x = task_info_reset \<and> \<not> serial_at fs 0
         | Claim_after \<Rightarrow> serial_at fs 0 \<and> 1 < length fs \<and> my_token_ready (info x) = (first_ordered_at fs = 0)
         | _ \<Rightarrow> False)
      else my_filter x < length fs \<and>
        (case pc x of Entry \<Rightarrow> 1 \<le> my_filter x \<and> my_token_ready (info x) = (first_ordered_at fs \<le> my_filter x)
         | In_filter \<Rightarrow> 1 \<le> my_filter x \<and> my_token_ready (info x) = (first_ordered_at fs \<le> my_filter x)
         | Noting \<Rightarrow> 1 \<le> my_filter x \<and> serial_at fs (my_filter x) \<and>
             my_token_ready (info x) = (first_ordered_at fs \<le> my_filter x)
         | Advance \<Rightarrow> my_token_ready (info x) = (first_ordered_at fs \<le> my_filter x)
         | Ended n \<Rightarrow> 1 \<le> n
         | _ \<Rightarrow> False))"

definition holder :: "nat \<Rightarrow> 'a stage_task \<Rightarrow> bool" where
  "holder k x \<longleftrightarrow> \<not> my_at_start x \<and> my_filter x = k \<and> pc x \<in> {Entry, In_filter, Noting}"

abbreviation holders :: "'a pipeline \<Rightarrow> nat \<Rightarrow> 'a stage_task multiset" where
  "holders s k \<equiv> filter_mset (holder k) (tasks s)"

text \<open>The buffer of filter \<open>k\<close> and the task that holds the filter.\<close>

definition ordered_buffer :: "'a pipeline \<Rightarrow> nat \<Rightarrow> bool" where
  "ordered_buffer s k \<longleftrightarrow>
     size (holders s k) \<le> 1 \<and>
     (\<forall>x \<in># holders s k. my_token (info x) = low_token (buffers s k)) \<and>
     (\<forall>t i. waiting (buffers s k) t = Some i \<longrightarrow> my_token i = t) \<and>
     length (log s k) = low_token (buffers s k) + size (filter_mset (\<lambda>x. pc x \<noteq> Entry) (holders s k))"

definition serial_buffer :: "'a pipeline \<Rightarrow> nat \<Rightarrow> bool" where
  "serial_buffer s k \<longleftrightarrow>
     (let low = low_token (buffers s k); high = high_token (buffers s k) in
      low \<le> high \<and> dom (waiting (buffers s k)) = {low<..<high} \<and>
      size (holders s k) = (if low < high then 1 else 0))"

definition buffer_inv :: "'a filter list \<Rightarrow> 'a pipeline \<Rightarrow> nat \<Rightarrow> bool" where
  "buffer_inv fs s k \<longleftrightarrow>
     buf_ok (buffers s k) \<and> buf_ordered (buffers s k) = ordered_at fs k \<and>
     (\<forall>t i. waiting (buffers s k) t = Some i \<longrightarrow> my_token_ready i = (first_ordered_at fs \<le> k)) \<and>
     (if k = 0 \<or> \<not> serial_at fs k then waiting (buffers s k) = Map.empty
      else if ordered_at fs k then ordered_buffer s k else serial_buffer s k)"

definition tasks_inv :: "'a filter list \<Rightarrow> 'a pipeline \<Rightarrow> bool" where
  "tasks_inv fs s \<longleftrightarrow> (\<forall>x \<in># tasks s. task_ok fs x) \<and> (\<forall>k < length fs. buffer_inv fs s k)"

lemma ordered_serial: "ordered_at fs k \<Longrightarrow> serial_at fs k"
  by (simp add: ordered_at_def serial_at_def is_ordered_serial)

lemma tasks_invD:
  assumes "tasks_inv fs s"
  shows inv_task: "x \<in># tasks s \<Longrightarrow> task_ok fs x" and inv_buffer: "k < length fs \<Longrightarrow> buffer_inv fs s k"
  using assms by (simp_all add: tasks_inv_def)

lemma pipe_buffer_invD:
  assumes "buffer_inv fs s k"
  shows binv_ok: "buf_ok (buffers s k)" and binv_ordered: "buf_ordered (buffers s k) = ordered_at fs k"
    and binv_ready: "waiting (buffers s k) t = Some i \<Longrightarrow> my_token_ready i = (first_ordered_at fs \<le> k)"
    and binv_empty: "k = 0 \<or> \<not> serial_at fs k \<Longrightarrow> waiting (buffers s k) = Map.empty"
    and binv_order: "1 \<le> k \<Longrightarrow> ordered_at fs k \<Longrightarrow> ordered_buffer s k"
    and binv_serial: "1 \<le> k \<Longrightarrow> serial_at fs k \<Longrightarrow> \<not> ordered_at fs k \<Longrightarrow> serial_buffer s k"
  using assms ordered_serial by (auto simp: buffer_inv_def split: if_splits)

lemma buffer_bound: "buffer_inv fs s k \<Longrightarrow> \<not> buf_bound (buffers s k)"
  by (simp add: buffer_inv_def buf_ok_def)

text \<open>The result of \<^verbatim>\<open>put_token\<close> and \<^verbatim>\<open>note_done\<close> on a buffer of a running pipeline.\<close>

lemma ordered_holder:
  assumes "tasks_inv fs s" "x \<in># tasks s" "pc x = Noting" "\<not> my_at_start x"
  shows "\<not> buf_ordered (buffers s (my_filter x)) \<or> my_token (info x) = low_token (buffers s (my_filter x))"
proof -
  have ok: "1 \<le> my_filter x" "my_filter x < length fs"
    using inv_task [OF assms(1,2)] assms(3,4) by (auto simp: task_ok_def)
  note bi = inv_buffer [OF assms(1) ok(2)]
  have "x \<in># holders s (my_filter x)" using assms by (simp add: holder_def)
  then show ?thesis using binv_order [OF bi ok(1)] binv_ordered [OF bi] by (auto simp: ordered_buffer_def)
qed

lemma set_tasks_idem: "s\<lparr>tasks := M, tasks := N\<rparr> = s\<lparr>tasks := N\<rparr>" by simp

lemma claim_token_eq:
  "spawn y (claim_token (s\<lparr>tasks := M\<rparr>)) =
    s\<lparr>input_tokens := input_tokens s - 1, tasks := add_mset y (M + starts (input_tokens s - 1))\<rparr>"
  by (simp add: spawn_def claim_token_def Let_def starts_def)

lemma pipe_step_move:
  assumes step: "pipe_step fs s s'" and inv: "tasks_inv fs s" and fs: "fs \<noteq> []"
  shows "move fs s s'"
  using step
proof (cases rule: pipe_step.cases)
  case root
  then show ?thesis using move.restart [of s fs] by (simp add: spawn_def)
next
  case (stage x M)
  have x: "x \<in># tasks s" using stage(2) by simp
  note ok = inv_task [OF inv x]
  let ?s = "s\<lparr>tasks := M\<rparr>"
  show ?thesis
  proof (cases "my_at_start x")
    case True
    have f: "my_filter x = 0" using ok True by (simp add: task_ok_def)
    show ?thesis
    proof (cases "pc x")
      case Entry
      then show ?thesis
        using move.start_serial [OF stage(2) Entry True] move.start_stop [OF stage(2) Entry True]
          move.start_parallel [OF stage(2) Entry True] True f
        by (auto simp: stage(1) stage_step_def spawn_def)
    next
      case Claim_first
      then show ?thesis
        using move.claim_first [OF stage(2) Claim_first True, of fs] True ok
        by (simp add: stage(1) stage_step_def claim_token_eq task_ok_def)
    next
      case In_filter
      have i: "info x = task_info_reset" using ok True In_filter by (simp add: task_ok_def)
      show ?thesis
      proof (cases "source s")
        case Nil
        then show ?thesis using move.input_end [OF stage(2) In_filter True Nil, of fs] True In_filter f
          by (simp add: stage(1) stage_step_def serial_input_done_def parallel_input_done_def read_input_def Let_def)
      next
        case (Cons a as)
        have "length fs = 1 \<or> 1 < length fs" using fs by (cases fs) auto
        note defs = stage(1) stage_step_def serial_input_done_def parallel_input_done_def read_input_def
          Let_def spawn_def log_call_def emitted_def add_trace_def
        note input = move.serial_input [OF stage(2) In_filter True _ Cons refl, of fs, unfolded emitted_def add_trace_def]
          move.single_input [OF stage(2) In_filter True _ Cons refl, of fs, unfolded emitted_def add_trace_def]
          move.parallel_input [OF stage(2) In_filter True _ Cons refl, of fs, unfolded add_trace_def]
        show ?thesis
        proof (cases "serial_at fs 0")
          case serial: True
          show ?thesis
            using input serial True In_filter f i Cons \<open>length fs = 1 \<or> 1 < length fs\<close>
            by (cases "ordered_at fs 0"; cases "length fs = 1") (simp_all add: defs)
        next
          case False
          then show ?thesis using input True In_filter f i Cons by (simp add: defs)
        qed
      qed
    next
      case Claim_after
      then show ?thesis
        using move.claim_after [OF stage(2) Claim_after True, of fs] True
        by (simp add: stage(1) stage_step_def claim_token_eq)
    qed (use ok True in \<open>simp_all add: task_ok_def\<close>)
  next
    case False
    have f: "my_filter x < length fs" using ok False by (simp add: task_ok_def)
    show ?thesis
    proof (cases "pc x")
      case Entry
      then show ?thesis using move.enter [OF stage(2) Entry False, of fs] False
        by (simp add: stage(1) stage_step_def spawn_def log_call_def add_trace_def)
    next
      case In_filter
      then show ?thesis using move.leave [OF stage(2) In_filter False refl, of fs] False
        by (simp add: stage(1) stage_step_def spawn_def filter_done_def returned_def)
    next
      case Noting
      obtain w b where t: "take_item (buffers s (my_filter x)) = (w, b)" by force
      have "note_done (my_token (info x)) (buffers s (my_filter x)) = (w, b)"
        using note_done_take [OF ordered_holder [OF inv x Noting False]] t by simp
      then show ?thesis using move.finish [OF stage(2) Noting False refl t, of fs] Noting
        by (simp add: stage(1) stage_step_def note_done_step_def spawn_def set_buffer_def wakes_def
            Let_def add_mset_commute split: option.splits)
    next
      case Advance
      show ?thesis
      proof (cases "my_filter x + 1 < length fs")
        case True
        let ?k = "my_filter x + 1"
        note bi = inv_buffer [OF inv True]
        obtain t i b where t: "take_ticket ((info x)\<lparr>is_valid := True\<rparr>) (buffers s ?k) = (t, i, b)"
          by (cases "take_ticket ((info x)\<lparr>is_valid := True\<rparr>) (buffers s ?k)") auto
        note put = put_token_plain [OF buffer_bound [OF bi] t]
        show ?thesis
          using move.stored [OF stage(2) Advance False refl True _ t] move.proceed [OF stage(2) Advance False refl True _ t]
            move.pass [OF stage(2) Advance False refl True] True put Advance
          by (auto simp: stage(1) stage_step_def next_filter_def spawn_def set_buffer_def Let_def split: if_splits)
      next
        case End: False
        then have e: "my_filter x + 1 = length fs" using f by simp
        show ?thesis using move.pipe_end [OF stage(2) Advance False e] e Advance
          by (simp add: stage(1) stage_step_def next_filter_def spawn_def log_call_def add_trace_def Let_def)
      qed
    next
      case (Ended n)
      then show ?thesis using move.retire [OF stage(2) Ended, of fs] move.recycle [OF stage(2) Ended, of fs]
        by (auto simp: stage(1) stage_step_def spawn_def)
    qed (use ok False in \<open>simp_all add: task_ok_def\<close>)
  qed
qed

section \<open>The flow of a state\<close>

definition stages_of :: "'a filter list \<Rightarrow> 'a stages" where
  "stages_of fs = \<lparr>count_of = length fs, ordered = ordered_at fs, body = (\<lambda>k. operator (fs ! k))\<rparr>"

definition has_item :: "'a stage_task \<Rightarrow> bool" where
  "has_item x = (case pc x of Ended _ \<Rightarrow> False | Claim_after \<Rightarrow> True | _ \<Rightarrow> \<not> my_at_start x)"

definition ticket_of :: "'a task_info \<Rightarrow> nat option" where
  "ticket_of i = (if my_token_ready i then Some (my_token i) else None)"

definition entry :: "'a filter list \<Rightarrow> 'a stage_task \<Rightarrow> 'a entry" where
  "entry fs x =
     (case pc x of Entry \<Rightarrow> my_filter x | _ \<Rightarrow> my_filter x + 1,
      if pc x = In_filter then operator (fs ! my_filter x) (my_object (info x)) else my_object (info x),
      ticket_of (info x))"

definition parked :: "nat \<Rightarrow> 'a task_info \<Rightarrow> 'a entry" where
  "parked k i = (k, my_object i, ticket_of i)"

definition parked_in :: "nat \<Rightarrow> 'a input_buffer \<Rightarrow> 'a entry multiset" where
  "parked_in k b = image_mset (parked k) (tb.held b)"

definition parked_all :: "nat \<Rightarrow> (nat \<Rightarrow> 'a input_buffer) \<Rightarrow> 'a entry multiset" where
  "parked_all n B = (\<Sum>k<n. parked_in k (B k))"

definition items_of :: "'a filter list \<Rightarrow> 'a stage_task multiset \<Rightarrow> 'a entry multiset" where
  "items_of fs M = image_mset (entry fs) (filter_mset has_item M)"

definition assigned_of :: "'a filter list \<Rightarrow> 'a pipeline \<Rightarrow> nat" where
  "assigned_of fs s =
     (let j = first_ordered_at fs in
      if j = 0 then token_counter s else if j < length fs then high_token (buffers s j) else 0)"

definition flow_of :: "'a filter list \<Rightarrow> 'a pipeline \<Rightarrow> 'a flow" where
  "flow_of fs s = \<lparr>flight = items_of fs (tasks s) + parked_all (length fs) (buffers s),
     trace = log s, assigned = assigned_of fs s\<rparr>"

lemma stages_simps [simp]:
  "count_of (stages_of fs) = length fs" "ordered (stages_of fs) = ordered_at fs"
  "body (stages_of fs) = (\<lambda>k. operator (fs ! k))" "first_ordered (stages_of fs) = first_ordered_at fs"
  by (simp_all add: stages_of_def first_ordered_def first_ordered_at_def)

lemma flow_simps [simp]:
  "flight (flow_of fs s) = items_of fs (tasks s) + parked_all (length fs) (buffers s)"
  "trace (flow_of fs s) = log s" "assigned (flow_of fs s) = assigned_of fs s"
  by (simp_all add: flow_of_def)

lemma items_of_simps [simp]:
  "items_of fs {#} = {#}" "items_of fs (M + N) = items_of fs M + items_of fs N"
  "items_of fs (add_mset x M) = (if has_item x then add_mset (entry fs x) (items_of fs M) else items_of fs M)"
  by (simp_all add: items_of_def)

lemma items_of_starts [simp]: "items_of fs (starts n) = {#}"
  by (simp add: starts_def items_of_def stage_task_new_def has_item_def)

lemma items_of_new [simp]: "\<not> has_item stage_task_new"
  by (simp add: stage_task_new_def has_item_def)

lemma items_of_wakes: "items_of fs (wakes k w) = (case w of None \<Rightarrow> {#} | Some i \<Rightarrow> {#parked k i#})"
  by (simp add: wakes_def stage_task_at_def has_item_def entry_def parked_def split: option.splits)

lemma in_items_of: "x \<in># M \<Longrightarrow> has_item x \<Longrightarrow> entry fs x \<in># items_of fs M"
  by (simp add: items_of_def)

lemma first_ordered_atD:
  "ordered_at fs k \<Longrightarrow> k < length fs \<Longrightarrow> first_ordered_at fs \<le> k"
  "first_ordered_at fs < length fs \<Longrightarrow> ordered_at fs (first_ordered_at fs)"
  "first_ordered_at fs \<le> length fs"
  using first_ordered_least [of "stages_of fs" k] first_ordered_ordered [of "stages_of fs"]
    first_ordered_le [of "stages_of fs"] by simp_all

lemma sum_update:
  fixes F :: "nat \<Rightarrow> 'b \<Rightarrow> 'c::comm_monoid_add"
  assumes "k < n"
  shows "(\<Sum>j<n. F j (B j)) = F k (B k) + (\<Sum>j \<in> {..<n} - {k}. F j (B j))"
    "(\<Sum>j<n. F j ((B(k := b)) j)) = F k b + (\<Sum>j \<in> {..<n} - {k}. F j (B j))"
proof -
  show "(\<Sum>j<n. F j (B j)) = F k (B k) + (\<Sum>j \<in> {..<n} - {k}. F j (B j))"
    using assms by (simp add: sum.remove)
  have "(\<Sum>j<n. F j ((B(k := b)) j)) = F k b + (\<Sum>j \<in> {..<n} - {k}. F j ((B(k := b)) j))"
    using assms by (subst sum.remove [of _ k]) auto
  also have "(\<Sum>j \<in> {..<n} - {k}. F j ((B(k := b)) j)) = (\<Sum>j \<in> {..<n} - {k}. F j (B j))"
    by (rule sum.cong) auto
  finally show "(\<Sum>j<n. F j ((B(k := b)) j)) = F k b + (\<Sum>j \<in> {..<n} - {k}. F j (B j))" .
qed

text \<open>The other buffers, when one of them is looked at.\<close>

definition parked_but :: "nat \<Rightarrow> nat \<Rightarrow> (nat \<Rightarrow> 'a input_buffer) \<Rightarrow> 'a entry multiset" where
  "parked_but k n B = (\<Sum>j \<in> {..<n} - {k}. parked_in j (B j))"

lemma parked_all_split:
  assumes "k < n"
  shows "parked_all n B = parked_in k (B k) + parked_but k n B"
    "parked_all n (B(k := b)) = parked_in k b + parked_but k n B"
  unfolding parked_all_def parked_but_def
  using sum_update [OF assms, where F = parked_in and B = B] by blast+

lemma in_parked:
  assumes "k < n" "buf_ok (B k)" "waiting (B k) t = Some i"
  shows "parked k i \<in># parked_all n B"
proof -
  have "i \<in># tb.held (B k)" using assms(2,3) tb.in_held by blast
  then show ?thesis using parked_all_split(1) [OF assms(1), of B] by (simp add: parked_in_def)
qed

text \<open>An item that arrives at a serial filter has a token whose slot is free.\<close>

lemma arrival:
  assumes inv: "tasks_inv fs s" "flow_inv (stages_of fs) (flow_of fs s)"
    and x: "tasks s = add_mset x M" "pc x = Advance" "\<not> my_at_start x" "k = my_filter x + 1" "k < length fs"
    and ser: "serial_at fs k" and t: "take_ticket ((info x)\<lparr>is_valid := True\<rparr>) (buffers s k) = (t, i, b)"
  shows "low_token (buffers s k) \<le> t \<and> waiting (buffers s k) t = None \<and>
    (t = low_token (buffers s k) \<longrightarrow> holders s k = {#}) \<and> my_token_ready i = (first_ordered_at fs \<le> k) \<and>
    is_valid i \<and> my_object i = my_object (info x) \<and>
    (if ordered_at fs k then my_token i = t \<and> ticket_of i = Some t \<and>
       (if first_ordered_at fs = k then t = assigned_of fs s \<and> high_token b = t + 1 \<and> ticket_of (info x) = None
        else ticket_of (info x) = Some t \<and> high_token b = high_token (buffers s k))
     else ticket_of i = ticket_of (info x) \<and> t = high_token (buffers s k) \<and> high_token b = t + 1)"
proof -
  let ?j = "first_ordered_at fs" and ?b = "buffers s k" and ?P = "stages_of fs" and ?f = "flow_of fs s"
  note bi = inv_buffer [OF inv(1) x(5)]
  have k1: "1 \<le> k" using x(4) by simp
  have ok: "my_token_ready (info x) = (?j \<le> my_filter x)"
    using inv_task [OF inv(1), of x] x by (simp add: task_ok_def)
  have ent: "entry fs x = (k, my_object (info x), ticket_of (info x))" "has_item x"
    using x by (simp_all add: entry_def has_item_def)
  note tok = flow_inv_tokens [OF inv(2)]
  show ?thesis
  proof (cases "ordered_at fs k")
    case False
    then have sb: "serial_buffer s k" using binv_serial [OF bi k1 ser] by blast
    have "?j \<noteq> k" using False first_ordered_atD(2) [of fs] x(5) by auto
    then have r: "(?j \<le> my_filter x) = (?j \<le> k)" using x(4) by auto
    have e: "t = high_token ?b" "i = (info x)\<lparr>is_valid := True\<rparr>" "high_token b = high_token ?b + 1"
      using t False binv_ordered [OF bi] by (auto simp: take_ticket_def)
    have "waiting ?b t = None" using sb e(1) by (auto simp: serial_buffer_def Let_def dom_def)
    then show ?thesis using sb e False ok r by (auto simp: serial_buffer_def Let_def ticket_of_def)
  next
    case True
    note seq = order_seq [OF flow_inv_order [OF inv(2)] k1]
    have seq: "sequenced ?P ?f k" using seq x(5) True by simp
    have ob: "ordered_buffer s k" using binv_order [OF bi k1 True] .
    have jk: "?j \<le> k" using first_ordered_atD(1) True x(5) by blast
    have jK: "first_ordered ?P < count_of ?P" using jk x(5) by simp
    have low: "low_token ?b \<le> length (log s k)" using ob by (simp add: ordered_buffer_def)
    have held: "(k, my_object w, Some u) \<in># parked_all (length fs) (buffers s)" if "waiting ?b u = Some w" for u w
    proof -
      have "my_token w = u" "my_token_ready w" using ob that binv_ready [OF bi that] jk by (auto simp: ordered_buffer_def)
      then show ?thesis using in_parked [where B = "buffers s" and k = k, OF x(5) binv_ok [OF bi] that] by (simp add: parked_def ticket_of_def)
    qed
    have hold: "\<exists>d ob'. (d, ob', Some (low_token ?b)) \<in># items_of fs M \<and> y \<in># M" if y: "y \<in># holders s k" for y
    proof -
      have "y \<noteq> x" "y \<in># tasks s" "has_item y" using y x by (auto simp: holder_def has_item_def split: pc.splits)
      then have yM: "y \<in># M" using x(1) by simp
      have "my_token_ready (info y)" "my_token (info y) = low_token ?b"
        using inv_task [OF inv(1) \<open>y \<in># tasks s\<close>] y ob jk
        by (auto simp: task_ok_def holder_def ordered_buffer_def split: pc.splits)
      then show ?thesis using in_items_of [OF yM \<open>has_item y\<close>, of fs] yM
        by (auto simp: entry_def ticket_of_def)
    qed
    show ?thesis
    proof (cases "?j = k")
      case first: True
      then have nr: "\<not> my_token_ready (info x)" using ok x(4) by simp
      have e: "t = high_token ?b" "high_token b = t + 1" "my_token i = t" "my_token_ready i" "is_valid i"
        "my_object i = my_object (info x)" "ticket_of (info x) = None"
        using t True binv_ordered [OF bi] nr by (auto simp: take_ticket_def ticket_of_def)
      have a: "t = assigned_of fs s" using e(1) first k1 x(5) by (simp add: assigned_of_def)
      have below: "u < t" if "(d, ob', Some u) \<in># flight ?f" for d ob' u
        using token_below [OF tok jK that] a by simp
      have "waiting ?b t = None"
        using held [of t] below [of k _ t] by (cases "waiting ?b t") auto
      moreover have "holders s k = {#}" if "t = low_token ?b"
      proof (rule ccontr)
        assume "holders s k \<noteq> {#}"
        then obtain y where "y \<in># holders s k" by blast
        from hold [OF this] that obtain d ob' where "(d, ob', Some t) \<in># items_of fs M" by auto
        then have "(d, ob', Some t) \<in># flight ?f" using x(1) by auto
        then show False using below by blast
      qed
      moreover have "low_token ?b \<le> t" using low seq_assigned [OF seq] a by simp
      ultimately show ?thesis using e a first True by (auto simp: ticket_of_def)
    next
      case False
      then have r: "my_token_ready (info x)" using ok jk x(4) by simp
      have e: "t = my_token (info x)" "high_token b = high_token ?b" "my_token i = t" "my_token_ready i" "is_valid i"
        "my_object i = my_object (info x)" "ticket_of (info x) = Some t"
        using t True binv_ordered [OF bi] r by (auto simp: take_ticket_def ticket_of_def)
      let ?F = "items_of fs M + parked_all (length fs) (buffers s)"
      have f: "flight ?f = add_mset (k, my_object (info x), Some t) ?F"
        using x(1) ent e(7) by simp
      have other: "u \<noteq> t" if "(d, ob', Some u) \<in># ?F" for d ob' u
        using token_other [OF tok jK f that] .
      have "waiting ?b t = None"
        using held [of t] other [of k _ t] by (cases "waiting ?b t") auto
      moreover have "holders s k = {#}" if "t = low_token ?b"
      proof (rule ccontr)
        assume "holders s k \<noteq> {#}"
        then obtain y where "y \<in># holders s k" by blast
        from hold [OF this] that obtain d ob' where "(d, ob', Some t) \<in># ?F" by auto
        then show False using other by blast
      qed
      moreover have "length (log s k) \<le> t"
        using seq_due [OF seq, of k "my_object (info x)" t] f by simp
      ultimately show ?thesis using e low False True jk by (auto simp: ticket_of_def)
    qed
  qed
qed

section \<open>The buffers and the tasks that hold the filters\<close>

lemma tasks_invI:
  "(\<And>x. x \<in># tasks s \<Longrightarrow> task_ok fs x) \<Longrightarrow> (\<And>k. k < length fs \<Longrightarrow> buffer_inv fs s k) \<Longrightarrow> tasks_inv fs s"
  by (simp add: tasks_inv_def)

lemma holder_start [simp]:
  "my_at_start x \<Longrightarrow> \<not> holder k x" "\<not> holder k stage_task_new" "filter_mset (holder k) (starts n) = {#}"
  by (simp_all add: holder_def starts_def stage_task_new_def)

lemma task_ok_new [simp]: "task_ok fs stage_task_new"
  by (simp add: task_ok_def stage_task_new_def)

lemma task_ok_starts [simp]: "y \<in># starts n \<Longrightarrow> task_ok fs y"
  by (simp add: starts_def split: if_splits)

lemma holder_at [simp]: "holder k (stage_task_at j i) \<longleftrightarrow> j = k"
  by (simp add: holder_def stage_task_at_def)

text \<open>A move that does not touch the buffer, the holders and the calls of a filter.\<close>

lemma buffer_inv_frame:
  assumes "buffer_inv fs s k" "buffers s' k = buffers s k"
    "1 \<le> k \<Longrightarrow> serial_at fs k \<Longrightarrow> holders s' k = holders s k \<and> length (log s' k) = length (log s k)"
  shows "buffer_inv fs s' k"
proof (cases "k = 0 \<or> \<not> serial_at fs k")
  case True
  then show ?thesis using assms(1,2) by (simp add: buffer_inv_def)
next
  case False
  then have "holders s' k = holders s k" "length (log s' k) = length (log s k)" using assms(3) by auto
  then have "ordered_buffer s' k = ordered_buffer s k" "serial_buffer s' k = serial_buffer s k"
    by (simp_all only: ordered_buffer_def serial_buffer_def assms(2))
  then show ?thesis using assms(1,2) by (simp add: buffer_inv_def)
qed

lemma wakes_task_ok:
  assumes "\<And>i. w = Some i \<Longrightarrow> my_token_ready i = (first_ordered_at fs \<le> k)" "1 \<le> k" "k < length fs"
    "y \<in># wakes k w"
  shows "task_ok fs y"
  using assms by (auto simp: wakes_def stage_task_at_def task_ok_def split: option.splits)

text \<open>The call of a filter, and its return.\<close>

lemma enter_inv:
  assumes inv: "tasks_inv fs s" and x: "tasks s = add_mset x M" "pc x = Entry" "\<not> my_at_start x"
    and s': "s' = s\<lparr>log := logged (my_filter x) (info x) s, tasks := add_mset (x\<lparr>pc := In_filter\<rparr>) M\<rparr>"
  shows "tasks_inv fs s'"
proof (rule tasks_invI)
  have ok: "task_ok fs x" using inv_task [OF inv] x(1) by simp
  show "task_ok fs y" if "y \<in># tasks s'" for y
    using that ok x inv_task [OF inv, of y] by (auto simp: s' task_ok_def)
  fix k assume k: "k < length fs"
  note bi = inv_buffer [OF inv k]
  show "buffer_inv fs s' k"
  proof (cases "k = my_filter x \<and> 1 \<le> k \<and> serial_at fs k")
    case False
    then show ?thesis using ok x
      by (intro buffer_inv_frame [OF bi]) (auto simp: s' holder_def task_ok_def add_trace_def)
  next
    case True
    have h: "holders s k = add_mset x (filter_mset (holder k) M)" "holder k (x\<lparr>pc := In_filter\<rparr>)"
      using x True by (simp_all add: holder_def)
    have h': "holders s' k = add_mset (x\<lparr>pc := In_filter\<rparr>) (filter_mset (holder k) M)"
      using h(2) by (simp add: s')
    show ?thesis
    proof (cases "ordered_at fs k")
      case o: True
      then have ob: "ordered_buffer s k" using binv_order [OF bi] True by blast
      then have "filter_mset (holder k) M = {#}" using h(1) by (auto simp: ordered_buffer_def)
      then have "ordered_buffer s' k" using ob h h' x True by (auto simp: ordered_buffer_def s')
      then show ?thesis using bi o True by (simp add: buffer_inv_def s')
    next
      case o: False
      then have "serial_buffer s k" using binv_serial [OF bi] True by blast
      then have "serial_buffer s' k" using h h' by (auto simp: serial_buffer_def s' Let_def)
      then show ?thesis using bi o True by (simp add: buffer_inv_def s')
    qed
  qed
qed

lemma leave_inv:
  assumes inv: "tasks_inv fs s" and x: "tasks s = add_mset x M" "pc x = In_filter" "\<not> my_at_start x"
    and s': "s' = s\<lparr>tasks := add_mset (x\<lparr>info := returned fs x, pc := p\<rparr>) M\<rparr>"
    and p: "p = (if serial_at fs (my_filter x) then Noting else Advance)"
  shows "tasks_inv fs s'"
proof (rule tasks_invI)
  have ok: "task_ok fs x" using inv_task [OF inv] x(1) by simp
  show "task_ok fs y" if "y \<in># tasks s'" for y
    using that ok x inv_task [OF inv, of y] by (auto simp: s' p task_ok_def returned_def)
  fix k assume k: "k < length fs"
  note bi = inv_buffer [OF inv k]
  show "buffer_inv fs s' k"
  proof (cases "k = my_filter x \<and> 1 \<le> k \<and> serial_at fs k")
    case False
    then show ?thesis using ok x
      by (intro buffer_inv_frame [OF bi]) (auto simp: s' p holder_def task_ok_def)
  next
    case True
    have h: "holders s k = add_mset x (filter_mset (holder k) M)"
      "holder k (x\<lparr>info := returned fs x, pc := p\<rparr>)"
      using x True by (auto simp: holder_def p)
    have h': "holders s' k = add_mset (x\<lparr>info := returned fs x, pc := p\<rparr>) (filter_mset (holder k) M)"
      using h(2) by (simp add: s')
    show ?thesis
    proof (cases "ordered_at fs k")
      case o: True
      then have ob: "ordered_buffer s k" using binv_order [OF bi] True by blast
      then have "filter_mset (holder k) M = {#}" using h(1) by (auto simp: ordered_buffer_def)
      then have "ordered_buffer s' k" using ob h h' x True
        by (auto simp: ordered_buffer_def s' p returned_def)
      then show ?thesis using bi o True by (simp add: buffer_inv_def s')
    next
      case o: False
      then have "serial_buffer s k" using binv_serial [OF bi] True by blast
      then have "serial_buffer s' k" using h h' by (auto simp: serial_buffer_def s' Let_def)
      then show ?thesis using bi o True by (simp add: buffer_inv_def s')
    qed
  qed
qed

text \<open>\<^verbatim>\<open>note_done\<close>: the filter is free, or held by the task that is woken.\<close>

lemma finish_inv:
  assumes inv: "tasks_inv fs s" and x: "tasks s = add_mset x M" "pc x = Noting" "\<not> my_at_start x" "k = my_filter x"
    and take: "take_item (buffers s k) = (w, b)"
    and s': "s' = s\<lparr>buffers := (buffers s)(k := b), tasks := add_mset (x\<lparr>pc := Advance\<rparr>) (M + wakes k w)\<rparr>"
  shows "tasks_inv fs s'"
proof (rule tasks_invI)
  have ok: "task_ok fs x" using inv_task [OF inv] x(1) by simp
  have k: "1 \<le> k" "k < length fs" "serial_at fs k" using ok x by (simp_all add: task_ok_def)
  note bi = inv_buffer [OF inv k(2)]
  let ?b = "buffers s k"
  have w: "w = waiting ?b (low_token ?b + 1)" using tb.step_result [OF binv_ok [OF bi] take] .
  have wb: "waiting b = (waiting ?b)(low_token ?b + 1 := None)" using tb.step_wait [OF binv_ok [OF bi] take] .
  note fr = take_item_frame [OF take]
  have ready: "my_token_ready i = (first_ordered_at fs \<le> k)" if "w = Some i" for i
    using binv_ready [OF bi] w that by simp
  show "task_ok fs y" if "y \<in># tasks s'" for y
    using that ok x inv_task [OF inv, of y] wakes_task_ok [OF ready k(1,2)]
    by (auto simp: s' task_ok_def)
  fix j assume j: "j < length fs"
  show "buffer_inv fs s' j"
  proof (cases "j = k")
    case False
    have "filter_mset (holder j) (wakes k w) = {#}" using False by (simp add: wakes_def split: option.splits)
    then show ?thesis using x False
      by (intro buffer_inv_frame [OF inv_buffer [OF inv j]]) (auto simp: s' holder_def)
  next
    case True
    have h: "holders s k = add_mset x (filter_mset (holder k) M)"
      using x by (simp add: holder_def)
    have h': "holders s' k = filter_mset (holder k) M + wakes k w"
      using x by (auto simp: s' holder_def wakes_def stage_task_at_def split: option.splits)
    have base: "buf_ok b" "buf_ordered b = ordered_at fs k"
      "\<And>t i. waiting b t = Some i \<Longrightarrow> my_token_ready i = (first_ordered_at fs \<le> k)"
      using tb.step_ok [OF binv_ok [OF bi] take] fr binv_ordered [OF bi] binv_ready [OF bi]
      by (auto simp: wb split: if_splits)
    show ?thesis
    proof (cases "ordered_at fs k")
      case o: True
      then have ob: "ordered_buffer s k" using binv_order [OF bi k(1)] by blast
      then have M: "filter_mset (holder k) M = {#}" using h by (auto simp: ordered_buffer_def)
      have len: "length (log s k) = low_token ?b + 1"
        using ob x(2) unfolding ordered_buffer_def h M by simp
      have "my_token i = low_token ?b + 1" if "w = Some i" for i
        using ob w that by (simp add: ordered_buffer_def)
      then have "ordered_buffer s' k" using ob h' M len fr
        by (auto simp: ordered_buffer_def s' wb wakes_def stage_task_at_def split: option.splits if_splits)
      then show ?thesis using base o k True by (simp add: buffer_inv_def s')
    next
      case o: False
      then have sb: "serial_buffer s k" using binv_serial [OF bi k(1,3)] by blast
      then have lt: "low_token ?b < high_token ?b" and M: "filter_mset (holder k) M = {#}"
        using h by (auto simp: serial_buffer_def Let_def split: if_splits)
      have d: "w \<noteq> None \<longleftrightarrow> low_token ?b + 1 < high_token ?b"
        using sb w by (auto simp: serial_buffer_def Let_def dom_def)
      have "size (wakes k w) = (if low_token ?b + 1 < high_token ?b then 1 else 0)"
        using d by (auto simp: wakes_def split: option.splits)
      moreover have "dom (waiting b) = {low_token ?b + 1<..<high_token ?b}"
      proof -
        have "dom (waiting b) = dom (waiting ?b) - {low_token ?b + 1}" by (simp add: wb)
        then show ?thesis using sb by (auto simp: serial_buffer_def Let_def)
      qed
      ultimately have "serial_buffer s' k" using h' M lt fr by (auto simp: serial_buffer_def s' Let_def)
      then show ?thesis using base o k True by (simp add: buffer_inv_def s')
    qed
  qed
qed

text \<open>The arrival of an item at a serial filter.\<close>

lemma stored_inv:
  assumes inv: "tasks_inv fs s" "flow_inv (stages_of fs) (flow_of fs s)"
    and x: "tasks s = add_mset x M" "pc x = Advance" "\<not> my_at_start x" "k = my_filter x + 1" "k < length fs"
    and ser: "serial_at fs k" and t: "take_ticket ((info x)\<lparr>is_valid := True\<rparr>) (buffers s k) = (t, i, b)"
    and ne: "t \<noteq> low_token (buffers s k)"
    and s': "s' = s\<lparr>tasks := M, buffers := (buffers s)(k := park t i b)\<rparr>"
  shows "tasks_inv fs s'"
proof (rule tasks_invI)
  let ?b = "buffers s k"
  note bi = inv_buffer [OF inv(1) x(5)]
  note arr = arrival [OF inv x ser t]
  note fr = take_ticket_frame [OF t]
  have lt: "low_token b < t" using arr ne fr(1) by auto
  have okb: "buf_ok b" using binv_ok [OF bi] fr(5) by simp
  have v: "is_valid i" using arr by blast
  have w: "waiting (park t i b) = (waiting ?b)(t \<mapsto> i)" and okp: "buf_ok (park t i b)"
    using tb.put_wait [OF okb v lt] tb.put_ok [OF okb v lt] fr(4) by simp_all
  show "task_ok fs y" if "y \<in># tasks s'" for y
    using that x inv_task [OF inv(1), of y] by (simp add: s')
  fix j assume j: "j < length fs"
  show "buffer_inv fs s' j"
  proof (cases "j = k")
    case False
    then show ?thesis using x
      by (intro buffer_inv_frame [OF inv_buffer [OF inv(1) j]]) (auto simp: s' holder_def)
  next
    case True
    have k1: "1 \<le> k" using x(4) by simp
    have h: "holders s' k = holders s k" using x by (simp add: s' holder_def)
    have base: "buf_ordered (park t i b) = ordered_at fs k"
      "\<And>u y. waiting (park t i b) u = Some y \<Longrightarrow> my_token_ready y = (first_ordered_at fs \<le> k)"
      using fr(3) binv_ordered [OF bi] binv_ready [OF bi] arr by (auto simp: w split: if_splits)
    show ?thesis
    proof (cases "ordered_at fs k")
      case o: True
      then have "ordered_buffer s' k" using binv_order [OF bi k1 o] h arr fr(1)
        by (auto simp: ordered_buffer_def s' w)
      then show ?thesis using base okp o k1 True by (simp add: buffer_inv_def s' ser)
    next
      case o: False
      have sb: "serial_buffer s k" using binv_serial [OF bi k1 ser o] .
      have t': "t = high_token ?b" "high_token b = t + 1" using arr o by auto
      have "dom (waiting (park t i b)) = insert t (dom (waiting ?b))" by (simp add: w)
      then have "serial_buffer s' k" using sb h lt t' fr(1)
        by (auto simp: serial_buffer_def s' Let_def)
      then show ?thesis using base okp o k1 True by (simp add: buffer_inv_def s' ser)
    qed
  qed
qed

lemma proceed_inv:
  assumes inv: "tasks_inv fs s" "flow_inv (stages_of fs) (flow_of fs s)"
    and x: "tasks s = add_mset x M" "pc x = Advance" "\<not> my_at_start x" "k = my_filter x + 1" "k < length fs"
    and ser: "serial_at fs k" and t: "take_ticket ((info x)\<lparr>is_valid := True\<rparr>) (buffers s k) = (t, i, b)"
    and eq: "t = low_token (buffers s k)"
    and s': "s' = s\<lparr>buffers := (buffers s)(k := b), tasks := add_mset (x\<lparr>info := i, my_filter := k, pc := Entry\<rparr>) M\<rparr>"
  shows "tasks_inv fs s'"
proof (rule tasks_invI)
  let ?b = "buffers s k" and ?x = "x\<lparr>info := i, my_filter := k, pc := Entry\<rparr>"
  note bi = inv_buffer [OF inv(1) x(5)]
  note arr = arrival [OF inv x ser t]
  note fr = take_ticket_frame [OF t]
  show "task_ok fs y" if "y \<in># tasks s'" for y
    using that x inv_task [OF inv(1), of y] arr by (auto simp: s' task_ok_def)
  fix j assume j: "j < length fs"
  show "buffer_inv fs s' j"
  proof (cases "j = k")
    case False
    then show ?thesis using x
      by (intro buffer_inv_frame [OF inv_buffer [OF inv(1) j]]) (auto simp: s' holder_def)
  next
    case True
    have k1: "1 \<le> k" using x(4) by simp
    have h0: "filter_mset (holder k) M = {#}" using arr eq x by (simp add: holder_def)
    have h: "holders s' k = {#?x#}" using x h0 by (simp add: s' holder_def)
    have base: "buf_ok b" "buf_ordered b = ordered_at fs k" "waiting b = waiting ?b" "low_token b = t"
      using fr binv_ok [OF bi] binv_ordered [OF bi] eq by auto
    show ?thesis
    proof (cases "ordered_at fs k")
      case o: True
      have ob: "ordered_buffer s k" using binv_order [OF bi k1 o] .
      have "length (log s k) = t" using ob arr eq unfolding ordered_buffer_def by auto
      then have "ordered_buffer s' k" using ob arr base eq o unfolding ordered_buffer_def h
        by (simp add: s')
      then show ?thesis using base o k1 True binv_ready [OF bi] by (simp add: buffer_inv_def s' ser)
    next
      case o: False
      have sb: "serial_buffer s k" using binv_serial [OF bi k1 ser o] .
      have t': "t = high_token ?b" "high_token b = t + 1" using arr o by auto
      have "dom (waiting b) = {}" using sb base(3) t'(1) eq by (simp add: serial_buffer_def Let_def)
      then have "serial_buffer s' k" unfolding serial_buffer_def h Let_def using t' base(4)
        by (auto simp: s')
      then show ?thesis using base o k1 True binv_ready [OF bi] by (simp add: buffer_inv_def s' ser)
    qed
  qed
qed

lemma first_ordered_zero: "fs \<noteq> [] \<Longrightarrow> ordered_at fs 0 \<longleftrightarrow> first_ordered_at fs = 0"
  using first_ordered_atD(1) [of fs 0] first_ordered_atD(2) [of fs] by (metis le_zero_eq length_greater_0_conv)

text \<open>All the moves.\<close>

lemma move_tasks_inv:
  assumes mv: "move fs s s'" and inv: "tasks_inv fs s" "flow_inv (stages_of fs) (flow_of fs s)" and fs: "fs \<noteq> []"
  shows "tasks_inv fs s'"
proof -
  have frame: "tasks_inv fs s'"
    if "\<And>y. y \<in># tasks s' \<Longrightarrow> y \<in># tasks s \<or> task_ok fs y" "buffers s' = buffers s"
      "\<And>k. 1 \<le> k \<Longrightarrow> k < length fs \<Longrightarrow> serial_at fs k \<Longrightarrow>
        holders s' k = holders s k \<and> length (log s' k) = length (log s k)"
  proof (rule tasks_invI)
    show "task_ok fs y" if "y \<in># tasks s'" for y
      using \<open>y \<in># tasks s' \<Longrightarrow> y \<in># tasks s \<or> task_ok fs y\<close> [OF that] inv_task [OF inv(1)] by blast
    show "buffer_inv fs s' k" if "k < length fs" for k
      using buffer_inv_frame [OF inv_buffer [OF inv(1) that]] \<open>buffers s' = buffers s\<close>
        \<open>1 \<le> k \<Longrightarrow> k < length fs \<Longrightarrow> serial_at fs k \<Longrightarrow>
        holders s' k = holders s k \<and> length (log s' k) = length (log s k)\<close> that by simp
  qed
  have okx: "task_ok fs x" if "tasks s = add_mset x M" for x M
    using inv_task [OF inv(1), of x] that by simp
  have len: "0 < length fs" using fs by simp
  show ?thesis using mv
  proof (cases rule: move.cases)
    case (start_serial x M)
    then show ?thesis using okx [of x M] by (intro frame) (auto simp: task_ok_def)
  next
    case (start_stop x M)
    then show ?thesis by (intro frame) auto
  next
    case (start_parallel x M)
    then show ?thesis using okx [of x M] by (intro frame) (auto simp: task_ok_def)
  next
    case (claim_first x M)
    then have "task_ok fs (x\<lparr>pc := In_filter\<rparr>)" using okx [of x M] by (auto simp: task_ok_def)
    then show ?thesis using claim_first by (intro frame) auto
  next
    case (input_end x M)
    then show ?thesis by (intro frame) auto
  next
    case (serial_input x M a as i)
    have "my_token_ready i = (first_ordered_at fs = 0)"
      using serial_input(7) first_ordered_zero [OF fs] by (simp add: emitted_def task_info_reset_def)
    then show ?thesis using serial_input okx [of x M]
      by (intro frame) (auto simp: task_ok_def)
  next
    case (single_input x M a as i)
    then show ?thesis by (intro frame) auto
  next
    case (parallel_input x M a as i)
    have "first_ordered_at fs \<noteq> 0"
      using parallel_input(5) first_ordered_zero [OF fs] ordered_serial by blast
    then have "task_ok fs (x\<lparr>info := i, my_at_start := False, pc := Advance\<rparr>)"
      using parallel_input okx [of x M] len by (auto simp: task_ok_def task_info_reset_def)
    moreover have "\<not> holder k (x\<lparr>info := i, my_at_start := False, pc := Advance\<rparr>)" for k by (simp add: holder_def)
    ultimately show ?thesis using parallel_input by (intro frame) auto
  next
    case (claim_after x M)
    have "task_ok fs (x\<lparr>my_at_start := False, pc := Advance\<rparr>)"
      using claim_after okx [of x M] len by (auto simp: task_ok_def)
    moreover have "\<not> holder k (x\<lparr>my_at_start := False, pc := Advance\<rparr>)" for k by (simp add: holder_def)
    ultimately show ?thesis using claim_after by (intro frame) auto
  next
    case (enter x M)
    then show ?thesis using enter_inv [OF inv(1)] by blast
  next
    case (leave x M p)
    then show ?thesis using leave_inv [OF inv(1)] by blast
  next
    case (finish x M k w b)
    then show ?thesis using finish_inv [OF inv(1)] by blast
  next
    case (stored x M k t i b)
    then show ?thesis using stored_inv [OF inv] by blast
  next
    case (proceed x M k t i b)
    then show ?thesis using proceed_inv [OF inv] by blast
  next
    case (pass x M k)
    have "task_ok fs (x\<lparr>my_filter := k, pc := Entry\<rparr>)"
    proof -
      have "first_ordered_at fs \<noteq> k" using pass(6,7) first_ordered_atD(2) [of fs] ordered_serial by blast
      then show ?thesis using pass okx [of x M] by (auto simp: task_ok_def)
    qed
    moreover have "\<not> holder j (x\<lparr>my_filter := k, pc := Entry\<rparr>)" if "serial_at fs j" for j
      using that pass by (auto simp: holder_def)
    moreover have "\<not> holder j x" for j using pass by (simp add: holder_def)
    ultimately show ?thesis using pass by (intro frame) auto
  next
    case (pipe_end x M)
    have "task_ok fs (x\<lparr>pc := Ended (input_tokens s + 1)\<rparr>)"
      using pipe_end okx [of x M] by (auto simp: task_ok_def)
    moreover have "\<not> holder j (x\<lparr>pc := Ended (input_tokens s + 1)\<rparr>)" "\<not> holder j x" for j
      using pipe_end by (simp_all add: holder_def)
    ultimately show ?thesis using pipe_end by (intro frame) auto
  next
    case (retire x M n)
    have "\<not> holder j x" for j using retire by (simp add: holder_def)
    then show ?thesis using retire by (intro frame) auto
  next
    case (recycle x M n)
    have "\<not> holder j x" for j using recycle by (simp add: holder_def)
    then show ?thesis using recycle by (intro frame) auto
  next
    case restart
    then show ?thesis by (intro frame) auto
  qed
qed

section \<open>The tasks refine the flow\<close>

lemma flow_of_eqI:
  assumes "items_of fs (tasks s) + parked_all (length fs) (buffers s) = F" "log s = tr" "assigned_of fs s = n"
  shows "flow_of fs s = \<lparr>flight = F, trace = tr, assigned = n\<rparr>"
  using assms by (simp add: flow_of_def)

lemma assigned_of_simps [simp]:
  "assigned_of fs (s\<lparr>tasks := M\<rparr>) = assigned_of fs s" "assigned_of fs (s\<lparr>log := l\<rparr>) = assigned_of fs s"
  "assigned_of fs (s\<lparr>input_tokens := n\<rparr>) = assigned_of fs s" "assigned_of fs (s\<lparr>end_of_input := e\<rparr>) = assigned_of fs s"
  "assigned_of fs (s\<lparr>source := as\<rparr>) = assigned_of fs s"
  by (simp_all add: assigned_of_def Let_def)

text \<open>Moves that the flow does not see.\<close>

lemma flow_same:
  assumes "items_of fs (tasks s') + parked_all (length fs) (buffers s') =
      items_of fs (tasks s) + parked_all (length fs) (buffers s)"
    "log s' = log s" "assigned_of fs s' = assigned_of fs s"
  shows "(flow_step P)\<^sup>*\<^sup>* (flow_of fs s) (flow_of fs s')"
  using assms by (simp add: flow_of_def)

lemma entry_place:
  "pc x \<in> {Noting, Advance, Claim_after} \<Longrightarrow> entry fs x = (my_filter x + 1, my_object (info x), ticket_of (info x))"
  "pc x = Entry \<Longrightarrow> entry fs x = (my_filter x, my_object (info x), ticket_of (info x))"
  "pc x = In_filter \<Longrightarrow> entry fs x =
     (my_filter x + 1, operator (fs ! my_filter x) (my_object (info x)), ticket_of (info x))"
  by (auto simp: entry_def)

lemma held_at: "has_item x" if "\<not> my_at_start x" "pc x \<in> {Entry, In_filter, Noting, Advance}"
  using that by (auto simp: has_item_def)

lemma no_item_start: "my_at_start x \<Longrightarrow> pc x \<noteq> Claim_after \<Longrightarrow> \<not> has_item x"
  by (cases "pc x") (simp_all add: has_item_def)

lemma ticket_of_simps [simp]:
  "ticket_of (i\<lparr>my_object := ob\<rparr>) = ticket_of i" "ticket_of (i\<lparr>is_valid := v\<rparr>) = ticket_of i"
  by (simp_all add: ticket_of_def)

lemma parked_but_update [simp]: "parked_but k n (B(k := b)) = parked_but k n B"
  unfolding parked_but_def by (rule sum.cong) auto

text \<open>An item enters.\<close>

lemma emit_step:
  assumes fs: "fs \<noteq> []" and i: "i = emitted fs s a \<or> \<not> serial_at fs 0 \<and> i = task_info_reset\<lparr>my_object := Some a\<rparr>"
    and s': "items_of fs (tasks s') + parked_all (length fs) (buffers s') =
      add_mset (1, my_object i, ticket_of i) (items_of fs (tasks s) + parked_all (length fs) (buffers s))"
    "log s' = logged 0 i s" "assigned_of fs s' = (if ordered_at fs 0 then assigned_of fs s + 1 else assigned_of fs s)"
  shows "flow_step (stages_of fs) (flow_of fs s) (flow_of fs s')"
proof -
  note z = first_ordered_zero [OF fs]
  have n: "assigned_of fs s = token_counter s" if "ordered_at fs 0" using that z by (simp add: assigned_of_def Let_def)
  have "i = emitted fs s a" using i ordered_serial [of fs 0] by (auto simp: emitted_def)
  then have i': "ticket_of i = (if ordered_at fs 0 then Some (assigned_of fs s) else None)"
    "ordered_at fs 0 \<Longrightarrow> my_token i = assigned_of fs s"
    using n by (simp_all add: emitted_def ticket_of_def task_info_reset_def)
  have "flow_of fs s' = \<lparr>flight = add_mset (1, my_object i, if first_ordered (stages_of fs) = 0 then Some (assigned_of fs s) else None)
        (items_of fs (tasks s) + parked_all (length fs) (buffers s)),
      trace = add_trace 0 (my_token i, my_object i) (log s),
      assigned = (if first_ordered (stages_of fs) = 0 then assigned_of fs s + 1 else assigned_of fs s)\<rparr>"
    using s' i' z by (intro flow_of_eqI) simp_all
  then show ?thesis
    using flow_step.emit [where P = "stages_of fs" and t = "my_token i" and n = "assigned_of fs s"] i'(2) z
    by (simp only: flow_of_def stages_simps)
qed

lemma emitted_object [simp]: "my_object (emitted fs s a) = Some a"
  by (simp add: emitted_def task_info_reset_def)

lemma calls_step:
  assumes inv: "tasks_inv fs s" and x: "tasks s = add_mset x M" "pc x = Entry" "\<not> my_at_start x"
    and s': "s' = s\<lparr>log := logged (my_filter x) (info x) s, tasks := add_mset (x\<lparr>pc := In_filter\<rparr>) M\<rparr>"
  shows "flow_step (stages_of fs) (flow_of fs s) (flow_of fs s')"
proof -
  let ?k = "my_filter x" and ?F = "items_of fs M + parked_all (length fs) (buffers s)"
  have ok: "1 \<le> ?k" "?k < length fs" "my_token_ready (info x) = (first_ordered_at fs \<le> ?k)"
    using inv_task [OF inv, of x] x by (simp_all add: task_ok_def)
  have f: "flow_of fs s = \<lparr>flight = add_mset (?k, my_object (info x), ticket_of (info x)) ?F,
      trace = log s, assigned = assigned_of fs s\<rparr>"
    using x held_at [of x] by (intro flow_of_eqI) (simp_all add: entry_place)
  have g: "flow_of fs s' = \<lparr>flight = add_mset (Suc ?k, body (stages_of fs) ?k (my_object (info x)), ticket_of (info x)) ?F,
      trace = add_trace ?k (my_token (info x), my_object (info x)) (log s), assigned = assigned_of fs s\<rparr>"
    using x held_at [of "x\<lparr>pc := In_filter\<rparr>"] by (intro flow_of_eqI) (simp_all add: s' entry_place)
  have ord: "ticket_of (info x) = Some (length (log s ?k))" if o: "ordered_at fs ?k"
  proof -
    note ob = binv_order [OF inv_buffer [OF inv ok(2)] ok(1) o]
    have "holders s ?k = add_mset x (filter_mset (holder ?k) M)" using x by (simp add: holder_def)
    then have "holders s ?k = {#x#}" using ob by (auto simp: ordered_buffer_def)
    then have "length (log s ?k) = my_token (info x)" using ob x(2) by (simp add: ordered_buffer_def)
    then show ?thesis using ok(3) first_ordered_atD(1) [OF o ok(2)] by (simp add: ticket_of_def)
  qed
  show ?thesis unfolding f g
    by (rule flow_step.call) (use ok ord in \<open>auto simp: ticket_of_def split: if_splits\<close>)
qed

text \<open>An item that arrives at a serial filter may get its token there.\<close>

lemma arrive_step:
  assumes inv: "tasks_inv fs s" "flow_inv (stages_of fs) (flow_of fs s)"
    and x: "tasks s = add_mset x M" "pc x = Advance" "\<not> my_at_start x" "k = my_filter x + 1" "k < length fs"
    and ser: "serial_at fs k" and t: "take_ticket ((info x)\<lparr>is_valid := True\<rparr>) (buffers s k) = (t, i, b)"
    and s': "items_of fs (tasks s') + parked_all (length fs) (buffers s') =
      add_mset (k, my_object i, ticket_of i) (items_of fs M + parked_all (length fs) (buffers s))"
    "log s' = log s" "token_counter s' = token_counter s" "\<And>j. j \<noteq> k \<Longrightarrow> buffers s' j = buffers s j"
    "high_token (buffers s' k) = high_token b"
  shows "(flow_step (stages_of fs))\<^sup>*\<^sup>* (flow_of fs s) (flow_of fs s')"
proof -
  note arr = arrival [OF inv x ser t]
  let ?F = "items_of fs M + parked_all (length fs) (buffers s)" and ?ob = "my_object (info x)"
  have f: "flow_of fs s = \<lparr>flight = add_mset (k, ?ob, ticket_of (info x)) ?F, trace = log s, assigned = assigned_of fs s\<rparr>"
    using x held_at [of x] by (intro flow_of_eqI) (simp_all add: entry_place)
  have ob: "my_object i = ?ob" using arr by blast
  show ?thesis
  proof (cases "ordered_at fs k \<and> first_ordered_at fs = k")
    case True
    then have e: "t = assigned_of fs s" "high_token b = t + 1" "ticket_of i = Some t" "ticket_of (info x) = None"
      using arr by auto
    have "assigned_of fs s' = assigned_of fs s + 1"
      using True x(4,5) s'(5) e by (simp add: assigned_of_def Let_def)
    then have g: "flow_of fs s' = \<lparr>flight = add_mset (k, ?ob, Some (assigned_of fs s)) ?F, trace = log s,
        assigned = assigned_of fs s + 1\<rparr>"
      using s' ob e by (intro flow_of_eqI) simp_all
    have "flow_step (stages_of fs) (flow_of fs s) (flow_of fs s')"
      unfolding f g e(4) using True x(4) by (intro flow_step.assign) simp_all
    then show ?thesis by blast
  next
    case False
    have "ticket_of i = ticket_of (info x)" using arr False by (cases "ordered_at fs k") auto
    moreover have "assigned_of fs s' = assigned_of fs s"
    proof (cases "first_ordered_at fs = k")
      case True
      then have "\<not> ordered_at fs k" using False by blast
      then have False using first_ordered_atD(2) [of fs] True x(5) by simp
      then show ?thesis ..
    qed (use s'(3,4) in \<open>simp add: assigned_of_def Let_def\<close>)
    ultimately have "flow_of fs s' = flow_of fs s"
      unfolding f using s' ob by (intro flow_of_eqI) simp_all
    then show ?thesis by simp
  qed
qed

lemma finish_parked:
  assumes "k < n" "buf_ok (B k)" "take_item (B k) = (w, b)"
  shows "parked_all n B = (case w of None \<Rightarrow> {#} | Some i \<Rightarrow> {#parked k i#}) + parked_all n (B(k := b))"
  using tb.held_step [OF assms(2,3)]
  by (simp add: parked_all_split [OF assms(1)] parked_in_def split: option.splits)

lemma stored_parked:
  assumes inv: "tasks_inv fs s" "flow_inv (stages_of fs) (flow_of fs s)"
    and x: "tasks s = add_mset x M" "pc x = Advance" "\<not> my_at_start x" "k = my_filter x + 1" "k < length fs"
    and ser: "serial_at fs k" and t: "take_ticket ((info x)\<lparr>is_valid := True\<rparr>) (buffers s k) = (t, i, b)"
    and ne: "t \<noteq> low_token (buffers s k)"
  shows "parked_all (length fs) ((buffers s)(k := park t i b)) =
    add_mset (k, my_object i, ticket_of i) (parked_all (length fs) (buffers s))"
proof -
  note arr = arrival [OF inv x ser t]
  note fr = take_ticket_frame [OF t]
  have ok: "buf_ok b" "low_token b < t" "waiting b t = None" "is_valid i"
    using arr fr ne binv_ok [OF inv_buffer [OF inv(1) x(5)]] by auto
  have "tb.held b = tb.held (buffers s k)" using fr(4) by (simp add: tb.held_def)
  then have "parked_in k (park t i b) = add_mset (k, my_object i, ticket_of i) (parked_in k (buffers s k))"
    using tb.held_put [OF ok(1,4,2,3)] by (simp add: parked_in_def parked_def)
  then show ?thesis by (simp add: parked_all_split [OF x(5)])
qed

text \<open>Every move is simulated.\<close>

lemma move_flow:
  assumes mv: "move fs s s'" and inv: "tasks_inv fs s" "flow_inv (stages_of fs) (flow_of fs s)" and fs: "fs \<noteq> []"
  shows "(flow_step (stages_of fs))\<^sup>*\<^sup>* (flow_of fs s) (flow_of fs s')"
proof -
  have okx: "task_ok fs x" if "tasks s = add_mset x M" for x M
    using inv_task [OF inv(1), of x] that by simp
  show ?thesis using mv
  proof (cases rule: move.cases)
    case (start_serial x M)
    then show ?thesis by (intro flow_same) (simp_all add: no_item_start)
  next
    case (start_stop x M)
    then show ?thesis by (intro flow_same) (simp_all add: no_item_start)
  next
    case (start_parallel x M)
    then show ?thesis by (intro flow_same) (simp_all add: no_item_start)
  next
    case (claim_first x M)
    then show ?thesis by (intro flow_same) (simp_all add: no_item_start)
  next
    case (input_end x M)
    then show ?thesis by (intro flow_same) (simp_all add: no_item_start)
  next
    case (serial_input x M a as i)
    have "entry fs (x\<lparr>info := i, pc := Claim_after\<rparr>) = (1, my_object i, ticket_of i)"
      "has_item (x\<lparr>info := i, pc := Claim_after\<rparr>)"
      using okx [OF serial_input(2)] serial_input(4) by (auto simp: task_ok_def entry_def has_item_def)
    then show ?thesis using serial_input first_ordered_zero [OF fs]
      by (intro r_into_rtranclp emit_step [where i = i and a = a, OF fs])
        (simp_all add: no_item_start assigned_of_def Let_def)
  next
    case (single_input x M a as i)
    let ?s = "s\<lparr>tasks := add_mset (x\<lparr>info := i, pc := Claim_after\<rparr>) M, log := logged 0 i s,
      token_counter := (if ordered_at fs 0 then token_counter s + 1 else token_counter s)\<rparr>"
    have e: "entry fs (x\<lparr>info := i, pc := Claim_after\<rparr>) = (1, my_object i, ticket_of i)"
      "has_item (x\<lparr>info := i, pc := Claim_after\<rparr>)"
      using okx [OF single_input(2)] single_input(4) by (auto simp: task_ok_def entry_def has_item_def)
    have nx: "\<not> has_item x" using single_input by (simp add: no_item_start)
    let ?F = "items_of fs M + parked_all (length fs) (buffers s)"
    have n: "assigned_of fs ?s = (if ordered_at fs 0 then assigned_of fs s + 1 else assigned_of fs s)"
      "assigned_of fs s' = assigned_of fs ?s"
      using first_ordered_zero [OF fs] by (simp_all add: assigned_of_def Let_def single_input(1))
    have one: "flow_step (stages_of fs) (flow_of fs s) (flow_of fs ?s)"
      using single_input(2,7) e nx n(1)
      by (intro emit_step [where i = i and a = a, OF fs]) simp_all
    have f: "flow_of fs ?s = \<lparr>flight = add_mset (count_of (stages_of fs), my_object i, ticket_of i) ?F,
        trace = logged 0 i s, assigned = assigned_of fs ?s\<rparr>"
      using single_input(8) e by (intro flow_of_eqI) simp_all
    have g: "flow_of fs s' = \<lparr>flight = ?F,
        trace = add_trace (count_of (stages_of fs)) (my_token i, my_object i) (logged 0 i s), assigned = assigned_of fs ?s\<rparr>"
      using single_input(8) n(2) by (intro flow_of_eqI) (simp_all add: single_input(1))
    have "flow_step (stages_of fs) (flow_of fs ?s) (flow_of fs s')"
      unfolding f g by (rule flow_step.exit) (simp add: ticket_of_def split: if_splits)
    then show ?thesis using one by (meson r_into_rtranclp rtranclp.rtrancl_into_rtrancl)
  next
    case (parallel_input x M a as i)
    have "my_filter x = 0" using okx [OF parallel_input(2)] parallel_input(4) by (simp add: task_ok_def)
    then have "entry fs (x\<lparr>info := i, my_at_start := False, pc := Advance\<rparr>) = (1, my_object i, ticket_of i)"
      by (simp add: entry_place)
    then show ?thesis using parallel_input ordered_serial [of fs 0]
      held_at [of "x\<lparr>info := i, my_at_start := False, pc := Advance\<rparr>"]
      by (intro r_into_rtranclp emit_step [where i = i and a = a, OF fs])
        (auto simp: no_item_start)
  next
    case (claim_after x M)
    have "entry fs (x\<lparr>my_at_start := False, pc := Advance\<rparr>) = entry fs x"
      "has_item (x\<lparr>my_at_start := False, pc := Advance\<rparr>)" "has_item x"
      using claim_after by (simp_all add: entry_place has_item_def)
    then show ?thesis using claim_after by (intro flow_same) simp_all
  next
    case (enter x M)
    then show ?thesis using calls_step [OF inv(1)] by blast
  next
    case (leave x M p)
    have "entry fs (x\<lparr>info := returned fs x, pc := p\<rparr>) = entry fs x"
      using leave by (simp add: entry_place returned_def)
    then show ?thesis using leave held_at [of x] held_at [of "x\<lparr>info := returned fs x, pc := p\<rparr>"]
      by (intro flow_same) simp_all
  next
    case (finish x M k w b)
    have ok: "k < length fs" using okx [OF finish(2)] finish by (simp add: task_ok_def)
    note bi = inv_buffer [OF inv(1) ok]
    have "entry fs (x\<lparr>pc := Advance\<rparr>) = entry fs x" using finish(3) by (simp add: entry_place)
    moreover have "assigned_of fs s' = assigned_of fs s"
      using take_item_frame(2) [OF finish(6)] by (simp add: finish(1) assigned_of_def Let_def)
    moreover note finish_parked [where B = "buffers s" and k = k, OF ok binv_ok [OF bi] finish(6)]
    ultimately show ?thesis using finish held_at [of x] held_at [of "x\<lparr>pc := Advance\<rparr>"]
      by (intro flow_same) (simp_all add: items_of_wakes split: option.splits)
  next
    case (stored x M k t i b)
    note stored_parked [OF inv stored(2-9)]
    then show ?thesis
      by (intro arrive_step [OF inv stored(2-8)]) (simp_all add: stored(1))
  next
    case (proceed x M k t i b)
    note fr = take_ticket_frame [OF proceed(8)]
    have "parked_in k b = parked_in k (buffers s k)" using fr(4) by (simp add: parked_in_def tb.held_def)
    moreover have "has_item (x\<lparr>info := i, my_filter := k, pc := Entry\<rparr>)"
      using proceed(4) by (intro held_at) simp_all
    ultimately show ?thesis
      by (intro arrive_step [OF inv proceed(2-8)])
        (simp_all add: proceed(1) parked_all_split [OF proceed(6)] entry_place)
  next
    case (pass x M k)
    have "entry fs (x\<lparr>my_filter := k, pc := Entry\<rparr>) = entry fs x" using pass by (simp add: entry_place)
    then show ?thesis using pass held_at [of x] held_at [of "x\<lparr>my_filter := k, pc := Entry\<rparr>"]
      by (intro flow_same) simp_all
  next
    case (pipe_end x M)
    let ?F = "items_of fs M + parked_all (length fs) (buffers s)"
    have f: "flow_of fs s = \<lparr>flight = add_mset (count_of (stages_of fs), my_object (info x), ticket_of (info x)) ?F,
        trace = log s, assigned = assigned_of fs s\<rparr>"
      using pipe_end held_at [of x] by (intro flow_of_eqI) (simp_all add: entry_place)
    have g: "flow_of fs s' = \<lparr>flight = ?F,
        trace = add_trace (count_of (stages_of fs)) (my_token (info x), my_object (info x)) (log s),
        assigned = assigned_of fs s\<rparr>"
      by (intro flow_of_eqI) (simp_all add: pipe_end(1) has_item_def)
    have "flow_step (stages_of fs) (flow_of fs s) (flow_of fs s')"
      unfolding f g by (rule flow_step.exit) (simp add: ticket_of_def split: if_splits)
    then show ?thesis by blast
  next
    case (retire x M n)
    then show ?thesis by (intro flow_same) (simp_all add: has_item_def)
  next
    case (recycle x M n)
    have "\<not> has_item x" using recycle by (simp add: has_item_def)
    then show ?thesis using recycle by (intro flow_same) simp_all
  next
    case restart
    then show ?thesis by (intro flow_same) simp_all
  qed
qed

end
