(* ===== verification/Pipeline_Run.thy ===== *)
theory Pipeline_Run
  imports Pipeline
begin

text \<open>
  Runs of a pipeline: how many tokens are live, that the input stage is always claimed by exactly
  one task while there are tokens, that every step brings the end nearer, and the properties.
\<close>

section \<open>Tokens\<close>

text \<open>The task that will read the input next, and the tasks that hold a live token.\<close>

definition carrier :: "'a filter list \<Rightarrow> 'a stage_task \<Rightarrow> bool" where
  "carrier fs x =
     (case pc x of Entry \<Rightarrow> my_at_start x | Claim_first \<Rightarrow> True
      | In_filter \<Rightarrow> my_at_start x \<and> serial_at fs 0 | Claim_after \<Rightarrow> True | Ended n \<Rightarrow> n \<le> 1 | _ \<Rightarrow> False)"

definition live :: "'a filter list \<Rightarrow> 'a stage_task \<Rightarrow> bool" where
  "live fs x =
     (case pc x of Entry \<Rightarrow> \<not> my_at_start x | In_filter \<Rightarrow> \<not> (my_at_start x \<and> serial_at fs 0)
      | Noting \<Rightarrow> True | Advance \<Rightarrow> True | _ \<Rightarrow> False)"

definition carriers :: "'a filter list \<Rightarrow> 'a pipeline \<Rightarrow> nat" where
  "carriers fs s = size (filter_mset (carrier fs) (tasks s))"

definition live_tokens :: "'a filter list \<Rightarrow> 'a pipeline \<Rightarrow> nat" where
  "live_tokens fs s = size (filter_mset (live fs) (tasks s)) + size (parked_all (length fs) (buffers s))"

definition count_inv :: "'a filter list \<Rightarrow> nat \<Rightarrow> 'a pipeline \<Rightarrow> bool" where
  "count_inv fs n s \<longleftrightarrow>
     carriers fs s \<le> of_bool (0 < input_tokens s) \<and>
     (\<not> end_of_input s \<longrightarrow> carriers fs s = of_bool (0 < input_tokens s)) \<and>
     input_tokens s + live_tokens fs s \<le> n \<and>
     (\<not> end_of_input s \<longrightarrow> input_tokens s + live_tokens fs s = n) \<and>
     (end_of_input s \<longrightarrow> source s = [])"

lemma new_carrier [simp]: "carrier fs stage_task_new" "\<not> live fs stage_task_new"
  by (simp_all add: carrier_def live_def stage_task_new_def)

lemma starts_carriers [simp]:
  "size (filter_mset (carrier fs) (starts n)) = of_bool (0 < n)" "filter_mset (live fs) (starts n) = {#}"
  by (simp_all add: starts_def)

lemma wakes_carriers [simp]:
  "filter_mset (carrier fs) (wakes k w) = {#}" "filter_mset (live fs) (wakes k w) = wakes k w"
  by (simp_all add: wakes_def stage_task_at_def carrier_def live_def split: option.splits)

lemma size_wakes: "size (wakes k w) = (case w of None \<Rightarrow> 0 | Some i \<Rightarrow> 1)"
  by (simp add: wakes_def split: option.splits)

lemma move_count_inv:
  assumes mv: "move fs s s'" and inv: "tasks_inv fs s" "flow_inv (stages_of fs) (flow_of fs s)"
    and cnt: "count_inv fs n s"
  shows "count_inv fs n s'"
proof -
  note defs = count_inv_def carriers_def live_tokens_def
  have okx: "task_ok fs x" if "tasks s = add_mset x M" for x M
    using inv_task [OF inv(1), of x] that by simp
  show ?thesis using mv
  proof (cases rule: move.cases)
    case (start_serial x M)
    have "carrier fs x" "\<not> live fs x" "carrier fs (x\<lparr>pc := In_filter\<rparr>)" "\<not> live fs (x\<lparr>pc := In_filter\<rparr>)"
      using start_serial by (simp_all add: carrier_def live_def)
    then show ?thesis using cnt start_serial by (simp add: defs)
  next
    case (start_stop x M)
    have "carrier fs x" "\<not> live fs x" using start_stop by (simp_all add: carrier_def live_def)
    then show ?thesis using cnt start_stop by (simp add: defs)
  next
    case (start_parallel x M)
    have "carrier fs x" "\<not> live fs x" "carrier fs (x\<lparr>pc := Claim_first\<rparr>)" "\<not> live fs (x\<lparr>pc := Claim_first\<rparr>)"
      using start_parallel by (simp_all add: carrier_def live_def)
    then show ?thesis using cnt start_parallel by (simp add: defs)
  next
    case (claim_first x M)
    have c: "carrier fs x" "\<not> live fs x" "\<not> carrier fs (x\<lparr>pc := In_filter\<rparr>)" "live fs (x\<lparr>pc := In_filter\<rparr>)"
      using claim_first by (simp_all add: carrier_def live_def)
    then have "0 < input_tokens s" using cnt claim_first(2)
      by (cases "0 < input_tokens s") (auto simp: defs)
    then show ?thesis using cnt claim_first c by (auto simp: defs)
  next
    case (input_end x M)
    then show ?thesis using cnt by (cases "carrier fs x"; cases "live fs x") (auto simp: defs)
  next
    case (serial_input x M a as i)
    let ?x = "x\<lparr>info := i, pc := Claim_after\<rparr>"
    have "carrier fs x" "\<not> live fs x" "carrier fs ?x" "\<not> live fs ?x"
      using serial_input by (simp_all add: carrier_def live_def)
    then show ?thesis using cnt serial_input by (simp add: defs)
  next
    case (single_input x M a as i)
    have "carrier fs x" "\<not> live fs x" using single_input by (simp_all add: carrier_def live_def)
    then show ?thesis using cnt single_input by (simp add: defs)
  next
    case (parallel_input x M a as i)
    let ?x = "x\<lparr>info := i, my_at_start := False, pc := Advance\<rparr>"
    have "\<not> carrier fs x" "live fs x" "\<not> carrier fs ?x" "live fs ?x"
      using parallel_input by (simp_all add: carrier_def live_def)
    then show ?thesis using cnt parallel_input by (simp add: defs)
  next
    case (claim_after x M)
    let ?x = "x\<lparr>my_at_start := False, pc := Advance\<rparr>"
    have c: "carrier fs x" "\<not> live fs x" "\<not> carrier fs ?x" "live fs ?x"
      using claim_after by (simp_all add: carrier_def live_def)
    then have "0 < input_tokens s" using cnt claim_after(2)
      by (cases "0 < input_tokens s") (auto simp: defs)
    then show ?thesis using cnt claim_after c by (auto simp: defs)
  next
    case (enter x M)
    have "\<not> carrier fs x" "live fs x" "\<not> carrier fs (x\<lparr>pc := In_filter\<rparr>)" "live fs (x\<lparr>pc := In_filter\<rparr>)"
      using enter by (simp_all add: carrier_def live_def)
    then show ?thesis using cnt enter by (simp add: defs)
  next
    case (leave x M p)
    let ?x = "x\<lparr>info := returned fs x, pc := p\<rparr>"
    have "\<not> carrier fs x" "live fs x" "\<not> carrier fs ?x" "live fs ?x"
      using leave by (simp_all add: carrier_def live_def)
    then show ?thesis using cnt leave by (simp add: defs)
  next
    case (finish x M k w b)
    have k: "k < length fs" using okx [OF finish(2)] finish by (simp add: task_ok_def)
    have "\<not> carrier fs x" "live fs x" "\<not> carrier fs (x\<lparr>pc := Advance\<rparr>)" "live fs (x\<lparr>pc := Advance\<rparr>)"
      using finish by (simp_all add: carrier_def live_def)
    then show ?thesis
      using cnt finish(1,2) finish_parked [where B = "buffers s" and k = k, OF k binv_ok [OF inv_buffer [OF inv(1) k]] finish(6)]
      by (simp add: defs size_wakes split: option.splits)
  next
    case (stored x M k t i b)
    have "\<not> carrier fs x" "live fs x" using stored by (simp_all add: carrier_def live_def)
    then show ?thesis using cnt stored(1,2) stored_parked [OF inv stored(2-9)] by (simp add: defs)
  next
    case (proceed x M k t i b)
    let ?x = "x\<lparr>info := i, my_filter := k, pc := Entry\<rparr>"
    have "\<not> carrier fs x" "live fs x" "\<not> carrier fs ?x" "live fs ?x"
      using proceed by (simp_all add: carrier_def live_def)
    moreover have "parked_in k b = parked_in k (buffers s k)"
      using take_ticket_frame(4) [OF proceed(8)] by (simp add: parked_in_def tb.held_def)
    then have "parked_all (length fs) ((buffers s)(k := b)) = parked_all (length fs) (buffers s)"
      by (simp add: parked_all_split [OF proceed(6)])
    ultimately show ?thesis using cnt proceed(1,2) by (simp add: defs)
  next
    case (pass x M k)
    let ?x = "x\<lparr>my_filter := k, pc := Entry\<rparr>"
    have "\<not> carrier fs x" "live fs x" "\<not> carrier fs ?x" "live fs ?x"
      using pass by (simp_all add: carrier_def live_def)
    then show ?thesis using cnt pass(1,2) by (simp add: defs)
  next
    case (pipe_end x M)
    let ?x = "x\<lparr>pc := Ended (input_tokens s + 1)\<rparr>"
    have "\<not> carrier fs x" "live fs x" "carrier fs ?x = (input_tokens s = 0)" "\<not> live fs ?x"
      using pipe_end by (simp_all add: carrier_def live_def)
    then show ?thesis using cnt pipe_end(1,2) by (auto simp: defs)
  next
    case (retire x M m)
    have "\<not> live fs x" using retire by (simp add: live_def)
    moreover have "\<not> carrier fs x" if "\<not> end_of_input s" using retire that by (simp add: carrier_def)
    ultimately show ?thesis using cnt retire(1,2) by (cases "end_of_input s"; cases "carrier fs x") (auto simp: defs)
  next
    case (recycle x M m)
    have "carrier fs x" "\<not> live fs x" using recycle by (simp_all add: carrier_def live_def)
    then show ?thesis using cnt recycle(1,2) by (simp add: defs)
  next
    case restart
    then show ?thesis using cnt by (simp add: defs)
  qed
qed

section \<open>Every step brings the end nearer\<close>

text \<open>The steps an item still needs from filter \<open>k\<close> on.\<close>

definition item_work :: "'a filter list \<Rightarrow> nat \<Rightarrow> nat \<Rightarrow> nat" where
  "item_work fs k p = 7 + 4 * (length fs - k) + p"

definition task_work :: "'a filter list \<Rightarrow> 'a stage_task \<Rightarrow> nat" where
  "task_work fs x =
     (case pc x of
        Entry \<Rightarrow> if my_at_start x then 3 else item_work fs (my_filter x) 4
      | Claim_first \<Rightarrow> 2
      | In_filter \<Rightarrow> if my_at_start x then 1 else item_work fs (my_filter x) 3
      | Claim_after \<Rightarrow> item_work fs 0 2
      | Noting \<Rightarrow> item_work fs (my_filter x) 2
      | Advance \<Rightarrow> item_work fs (my_filter x) 1
      | Ended n \<Rightarrow> 4)"

definition parked_work :: "'a filter list \<Rightarrow> 'a entry multiset \<Rightarrow> nat" where
  "parked_work fs E = (\<Sum>e \<in># E. item_work fs (fst e) 4)"

definition work :: "'a filter list \<Rightarrow> 'a pipeline \<Rightarrow> nat" where
  "work fs s = item_work fs 0 3 * length (source s) + 3 * input_tokens s +
     (\<Sum>x \<in># tasks s. task_work fs x) + parked_work fs (parked_all (length fs) (buffers s))"

lemma starts_work [simp]: "(\<Sum>x \<in># starts n. task_work fs x) = (if 0 < n then 3 else 0)"
  by (simp add: starts_def stage_task_new_def task_work_def)

lemma wakes_work: "(\<Sum>x \<in># wakes k w. task_work fs x) = (case w of None \<Rightarrow> 0 | Some i \<Rightarrow> item_work fs k 4)"
  by (simp add: wakes_def stage_task_at_def task_work_def split: option.splits)

lemma task_work_new [simp]: "task_work fs stage_task_new = 3"
  by (simp add: task_work_def stage_task_new_def)

lemma parked_work_simps [simp]:
  "parked_work fs {#} = 0" "parked_work fs (E + F) = parked_work fs E + parked_work fs F"
  "parked_work fs (add_mset e E) = item_work fs (fst e) 4 + parked_work fs E"
  by (simp_all add: parked_work_def)

lemma fst_parked [simp]: "fst (parked k i) = k"
  by (simp add: parked_def)

lemma move_work:
  assumes mv: "move fs s s'" and inv: "tasks_inv fs s" "flow_inv (stages_of fs) (flow_of fs s)"
    and cnt: "count_inv fs n s"
  shows "work fs s' < work fs s"
proof -
  have okx: "task_ok fs x" if "tasks s = add_mset x M" for x M
    using inv_task [OF inv(1), of x] that by simp
  have claim: "0 < input_tokens s" if "tasks s = add_mset x M" "carrier fs x" for x M
    using cnt that by (cases "0 < input_tokens s") (auto simp: count_inv_def carriers_def)
  note tw = task_work_def item_work_def
  show ?thesis using mv
  proof (cases rule: move.cases)
    case (claim_first x M)
    then have "0 < input_tokens s" using claim [OF claim_first(2)] by (simp add: carrier_def)
    moreover have "task_work fs x = 2" "task_work fs (x\<lparr>pc := In_filter\<rparr>) = 1"
      using claim_first by (simp_all add: tw)
    ultimately show ?thesis using claim_first(1,2) by (auto simp: work_def)
  next
    case (claim_after x M)
    have f: "my_filter x = 0" using okx [OF claim_after(2)] claim_after(4) by (simp add: task_ok_def)
    have "0 < input_tokens s" using claim [OF claim_after(2)] claim_after by (simp add: carrier_def)
    moreover have "task_work fs x = item_work fs 0 2" "task_work fs (x\<lparr>my_at_start := False, pc := Advance\<rparr>) = item_work fs 0 1"
      "item_work fs 0 2 = item_work fs 0 1 + 1"
      using claim_after f by (simp_all add: tw)
    ultimately show ?thesis using claim_after(1,2) by (auto simp: work_def)
  next
    case (parallel_input x M a as i)
    have "my_filter x = 0" using okx [OF parallel_input(2)] parallel_input(4) by (simp add: task_ok_def)
    then show ?thesis using parallel_input by (simp add: work_def tw)
  next
    case (finish x M k w b)
    have k: "k < length fs" using okx [OF finish(2)] finish by (simp add: task_ok_def)
    have "task_work fs x = item_work fs k 2" "task_work fs (x\<lparr>pc := Advance\<rparr>) = item_work fs k 1"
      "item_work fs k 2 = item_work fs k 1 + 1"
      using finish by (simp_all add: tw)
    then show ?thesis
      using finish(1,2) finish_parked [where B = "buffers s" and k = k, OF k binv_ok [OF inv_buffer [OF inv(1) k]] finish(6)]
      by (simp add: work_def wakes_work split: option.splits)
  next
    case (stored x M k t i b)
    then show ?thesis using stored_parked [OF inv stored(2-9)] by (simp add: work_def tw)
  next
    case (proceed x M k t i b)
    have "parked_in k b = parked_in k (buffers s k)"
      using take_ticket_frame(4) [OF proceed(8)] by (simp add: parked_in_def tb.held_def)
    then have "parked_all (length fs) ((buffers s)(k := b)) = parked_all (length fs) (buffers s)"
      by (simp add: parked_all_split [OF proceed(6)])
    then show ?thesis using proceed by (simp add: work_def tw)
  next
    case (single_input x M a as i)
    have "task_work fs x = 1" using single_input by (simp add: tw)
    then show ?thesis using single_input(1,2,6) by (simp add: work_def item_work_def)
  next
    case (recycle x M m)
    have "task_work fs x = 4" using recycle by (simp add: tw)
    then show ?thesis using recycle(1,2) by (simp add: work_def)
  next
    case restart
    then show ?thesis using cnt by (simp add: count_inv_def carriers_def)
  next
    case (pipe_end x M)
    then show ?thesis by (simp add: work_def tw)
  next
    case (pass x M k)
    then show ?thesis by (simp add: work_def tw)
  next
    case (leave x M p)
    then show ?thesis by (simp add: work_def tw)
  next
    case (enter x M)
    then show ?thesis by (simp add: work_def tw)
  next
    case (serial_input x M a as i)
    then show ?thesis by (simp add: work_def tw)
  next
    case (input_end x M)
    then show ?thesis by (simp add: work_def tw)
  qed (simp_all add: work_def tw)
qed

section \<open>Reachable states\<close>

definition pipe_inv :: "'a filter list \<Rightarrow> nat \<Rightarrow> 'a list \<Rightarrow> 'a pipeline \<Rightarrow> bool" where
  "pipe_inv fs n items s \<longleftrightarrow>
     tasks_inv fs s \<and> flow_inv (stages_of fs) (flow_of fs s) \<and> count_inv fs n s \<and>
     map snd (log s 0) @ map Some (source s) = map Some items"

lemma pipe_invD:
  assumes "pipe_inv fs n items s"
  shows pinv_tasks: "tasks_inv fs s" and pinv_flow: "flow_inv (stages_of fs) (flow_of fs s)"
    and pinv_count: "count_inv fs n s" and pinv_input: "map snd (log s 0) @ map Some (source s) = map Some items"
  using assms by (simp_all add: pipe_inv_def)

lemma waiting_new_buffer: "waiting (input_buffer_new p False) = Map.empty"
  using input_buffer_new_ok(2) by blast

lemma parked_all_start: "parked_all n (\<lambda>k. input_buffer_new (f k) False) = {#}"
  by (simp add: parked_all_def parked_in_def tb.held_def waiting_new_buffer)

lemma pipe_inv_start:
  assumes fs: "fs \<noteq> []" and n: "0 < n"
  shows "pipe_inv fs n items (pipeline_run fs n items)"
proof -
  let ?s = "pipeline_run fs n items"
  note new = input_buffer_new_ok [OF refl]
  have t: "tasks ?s = {#stage_task_new#}" "input_tokens ?s = n" "log ?s = (\<lambda>_. [])"
    "buffers ?s = (\<lambda>k. input_buffer_new (ordered_at fs k) False)" "source ?s = items" "\<not> end_of_input ?s"
    "token_counter ?s = 0"
    by (simp_all add: pipeline_run_def)
  have "tasks_inv fs ?s"
  proof (rule tasks_invI)
    show "x \<in># tasks ?s \<Longrightarrow> task_ok fs x" for x by (simp add: t)
    show "buffer_inv fs ?s k" for k
      by (simp add: buffer_inv_def t new ordered_buffer_def serial_buffer_def)
  qed
  moreover have "flow_of fs ?s = flow_start"
    by (simp add: flow_of_def flow_start_def t parked_all_start assigned_of_def Let_def new)
  then have "flow_inv (stages_of fs) (flow_of fs ?s)"
    using flow_inv_start [of "stages_of fs"] fs by (simp add: Suc_le_eq)
  moreover have "count_inv fs n ?s"
    using n by (simp add: count_inv_def carriers_def live_tokens_def t parked_all_start)
  ultimately show ?thesis by (simp add: pipe_inv_def t)
qed

lemma move_input:
  assumes mv: "move fs s s'" and inv: "tasks_inv fs s" and fs: "fs \<noteq> []"
  shows "map snd (log s' 0) @ map Some (source s') = map snd (log s 0) @ map Some (source s)"
  using mv
proof (cases rule: move.cases)
  case (enter x M)
  then have "my_filter x \<noteq> 0" using inv_task [OF inv, of x] by (auto simp: task_ok_def)
  then show ?thesis using enter by simp
next
  case (pipe_end x M)
  then show ?thesis using fs by simp
qed (auto simp: task_info_reset_def)

lemma pipe_inv_step:
  assumes step: "pipe_step fs s s'" and inv: "pipe_inv fs n items s" and fs: "fs \<noteq> []"
  shows "pipe_inv fs n items s'" "work fs s' < work fs s"
proof -
  note i = pipe_invD [OF inv]
  note mv = pipe_step_move [OF step i(1) fs]
  show "pipe_inv fs n items s'"
    using move_tasks_inv [OF mv i(1,2) fs] flow_inv_steps [OF move_flow [OF mv i(1,2) fs] i(2)]
      move_count_inv [OF mv i(1-3)] move_input [OF mv i(1) fs] i(4)
    by (simp add: pipe_inv_def)
  show "work fs s' < work fs s" by (rule move_work [OF mv i(1-3)])
qed

lemma pipe_inv_steps:
  assumes "(pipe_step fs ^^ k) s s'" "pipe_inv fs n items s" "fs \<noteq> []"
  shows "pipe_inv fs n items s' \<and> k + work fs s' \<le> work fs s"
  using assms
proof (induction k arbitrary: s')
  case (Suc k)
  then obtain u where u: "(pipe_step fs ^^ k) s u" "pipe_step fs u s'" by auto
  from Suc.IH [OF u(1) Suc.prems(2,3)] pipe_inv_step [OF u(2) _ Suc.prems(3)] show ?case by fastforce
qed simp

lemma pipe_inv_reach:
  assumes "(pipe_step fs)\<^sup>*\<^sup>* (pipeline_run fs n items) s" "fs \<noteq> []" "0 < n"
  shows "pipe_inv fs n items s"
proof -
  obtain k where "(pipe_step fs ^^ k) (pipeline_run fs n items) s" using assms(1) rtranclp_imp_relpowp by metis
  then show ?thesis using pipe_inv_steps [OF _ pipe_inv_start [OF assms(2,3)] assms(2)] by blast
qed

lemma work_start: "work fs (pipeline_run fs n items) = item_work fs 0 3 * length items + 3 * n + 3"
  by (simp add: work_def pipeline_run_def parked_all_start)

section \<open>Properties\<close>

text \<open>What the filters before filter \<open>k\<close> make of an element of the input.\<close>

definition object_at :: "'a filter list \<Rightarrow> nat \<Rightarrow> 'a \<Rightarrow> 'a option" where
  "object_at fs k a = fold (\<lambda>j. operator (fs ! j)) [1..<k] (Some a)"

lemma path_object_at:
  "path (stages_of fs) 1 k (Some a) = object_at fs k a" "path (stages_of fs) 0 k (Some a) = object_at fs k a"
  "path (stages_of fs) (Suc 0) k (Some a) = object_at fs k a"
  by (simp_all add: path_def object_at_def)

lemma in_parked_all:
  assumes "e \<in># parked_all n B" "\<And>k. k < n \<Longrightarrow> buf_ok (B k)"
  obtains k t i where "k < n" "waiting (B k) t = Some i" "e = parked k i"
proof -
  obtain k where k: "k < n" "e \<in># parked_in k (B k)"
    using assms(1) by (auto simp: parked_all_def set_mset_sum)
  then obtain i where "i \<in># tb.held (B k)" "e = parked k i" by (auto simp: parked_in_def)
  then show thesis using that k tb.in_held [OF assms(2) [OF k(1)]] by blast
qed

lemma size_filter_le:
  "(\<And>x. x \<in># M \<Longrightarrow> P x \<Longrightarrow> Q x) \<Longrightarrow> size (filter_mset P M) \<le> size (filter_mset Q M)"
  by (induction M) (simp, fastforce intro: le_SucI)

text \<open>Without tasks no item waits in a buffer.\<close>

lemma nothing_waits:
  assumes inv: "tasks_inv fs s" "flow_inv (stages_of fs) (flow_of fs s)" and idle: "tasks s = {#}"
    and k: "k < length fs"
  shows "waiting (buffers s k) = Map.empty"
  using k
proof (induction k rule: less_induct)
  case (less k)
  let ?b = "buffers s k" and ?P = "stages_of fs" and ?f = "flow_of fs s"
  note bi = inv_buffer [OF inv(1) less.prems]
  show ?case
  proof (cases "k = 0 \<or> \<not> serial_at fs k")
    case True
    then show ?thesis using binv_empty [OF bi] by blast
  next
    case False
    then have k1: "1 \<le> k" "serial_at fs k" by auto
    show ?thesis
    proof (cases "ordered_at fs k")
      case o: False
      have "serial_buffer s k" using binv_serial [OF bi k1 o] .
      then show ?thesis using idle by (simp add: serial_buffer_def Let_def split: if_splits)
    next
      case True
      have ob: "ordered_buffer s k" using binv_order [OF bi k1(1) True] .
      have low: "length (log s k) = low_token ?b" using ob idle by (simp add: ordered_buffer_def)
      have jk: "first_ordered_at fs \<le> k" using first_ordered_atD(1) True less.prems by blast
      have jK: "first_ordered ?P < count_of ?P" using jk less.prems by simp
      have seq: "sequenced ?P ?f k" using order_seq [OF flow_inv_order [OF inv(2)] k1(1)] less.prems True by simp
      show ?thesis
      proof (rule ccontr)
        assume "waiting ?b \<noteq> Map.empty"
        then obtain t i where ti: "waiting ?b t = Some i" by (metis not_None_eq ext)
        have lt: "low_token ?b < t" using tb.wait_above [OF binv_ok [OF bi] ti] .
        have "ticket_of i = Some t" using ob binv_ready [OF bi ti] jk ti by (simp add: ordered_buffer_def ticket_of_def)
        then have "(k, my_object i, Some t) \<in># flight ?f"
          using in_parked [where B = "buffers s" and k = k, OF less.prems binv_ok [OF bi] ti]
          by (simp add: parked_def)
        then have ta: "low_token ?b < assigned_of fs s"
          using token_below [OF flow_inv_tokens [OF inv(2)] jK] lt by fastforce
        have "tokens_of (flight ?f) + mset (map fst (log s (length fs))) = mset [0..<assigned_of fs s]"
          using flow_inv_tokens [OF inv(2)] jK by (simp add: tokens_inv_def)
        then have "low_token ?b \<in># tokens_of (flight ?f) + mset (map fst (log s (length fs)))"
          using ta by (metis atLeastLessThan_iff le0 set_mset_mset set_upt)
        then consider "low_token ?b \<in># tokens_of (flight ?f)" | ob' where "(low_token ?b, ob') \<in> set (log s (length fs))"
          by auto
        then show False
        proof cases
          case 2
          then show False using seq_out [OF seq] low by fastforce
        next
          case 1
          then obtain d ob' where e: "(d, ob', Some (low_token ?b)) \<in># flight ?f" by (auto simp: in_tokens_of)
          then have dk: "d \<le> k" using seq_due [OF seq e] low by simp
          have "(d, ob', Some (low_token ?b)) \<in># parked_all (length fs) (buffers s)" using e idle by simp
          then obtain j u w where w: "j < length fs" "waiting (buffers s j) u = Some w"
            "(d, ob', Some (low_token ?b)) = parked j w"
            by (rule in_parked_all) (use binv_ok [OF inv_buffer [OF inv(1)]] in blast)
          then have j: "j = d" "my_token w = low_token ?b" by (auto simp: parked_def ticket_of_def split: if_splits)
          show False
          proof (cases "d = k")
            case True
            then have "u = low_token ?b" using ob w j by (simp add: ordered_buffer_def)
            then show False using tb.wait_above [OF binv_ok [OF bi], of u w] w j True by simp
          next
            case False
            then show False using less.IH [of d] dk w j less.prems by simp
          qed
        qed
      qed
    qed
  qed
qed

lemma nothing_parked:
  assumes "tasks_inv fs s" "flow_inv (stages_of fs) (flow_of fs s)" "tasks s = {#}"
  shows "parked_all (length fs) (buffers s) = {#}"
  using nothing_waits [OF assms] by (simp add: parked_all_def parked_in_def tb.held_def)

lemma idle_done:
  assumes inv: "pipe_inv fs n items s" and idle: "tasks s = {#}" and n: "0 < n"
  shows "end_of_input s" "source s = []" "flight (flow_of fs s) = {#}"
proof -
  note p = nothing_parked [OF pinv_tasks [OF inv] pinv_flow [OF inv] idle]
  show "end_of_input s"
  proof (rule ccontr)
    assume "\<not> end_of_input s"
    then show False using pinv_count [OF inv] idle n p
      by (simp add: count_inv_def carriers_def live_tokens_def)
  qed
  then show "source s = []" using pinv_count [OF inv] by (simp add: count_inv_def)
  show "flight (flow_of fs s) = {#}" using p idle by simp
qed

lemma idle_calls:
  assumes inv: "pipe_inv fs n items s" and idle: "tasks s = {#}" and n: "0 < n" and k: "1 \<le> k" "k \<le> length fs"
  shows "mset (map snd (log s k)) = mset (map (object_at fs k) items)"
proof -
  note d = idle_done [OF inv idle n]
  have in0: "map snd (log s 0) = map Some items" using pinv_input [OF inv] d(2) by simp
  have "mset (map snd (log s k)) = image_mset (\<lambda>e. path (stages_of fs) 1 k (snd e)) (mset (log s 0))"
    using flow_inv_conserve [OF pinv_flow [OF inv], unfolded conserve_inv_def, rule_format, of k] k d(3) by simp
  also have "\<dots> = image_mset (path (stages_of fs) 1 k) (mset (map snd (log s 0)))"
    by (simp add: image_mset.compositionality comp_def)
  also have "\<dots> = mset (map (object_at fs k) items)"
    unfolding in0 by (simp add: image_mset.compositionality comp_def path_object_at flip: mset_map)
  finally show ?thesis .
qed

text \<open>The calls of an ordered filter behind an ordered input filter.\<close>

lemma ordered_calls:
  assumes inv: "pipe_inv fs n items s" and k: "1 \<le> k" "k < length fs" "ordered_at fs k" and z: "ordered_at fs 0"
  shows "map snd (log s k) = map (object_at fs k) (take (length (log s k)) items)"
proof -
  let ?P = "stages_of fs" and ?f = "flow_of fs s"
  have z': "first_ordered ?P = 0" using first_ordered_zero [of fs] z k by force
  have seq: "sequenced ?P ?f k" using order_seq [OF flow_inv_order [OF pinv_flow [OF inv]] k(1)] k by simp
  have le: "length (log s k) \<le> length (log s 0)" using seq_first [OF seq] z' by simp
  have in0: "map snd (log s 0) @ map Some (source s) = map Some items" using pinv_input [OF inv] .
  then have len: "length (log s 0) + length (source s) = length items"
    by (metis length_append length_map)
  have at: "snd (log s 0 ! t) = Some (items ! t)" if "t < length (log s 0)" for t
  proof -
    have "map snd (log s 0) ! t = (map Some items) ! t" using in0 that by (metis length_map nth_append)
    then show ?thesis using that len by simp
  qed
  have tr: "log s k = map (\<lambda>t. (t, path ?P 0 k (origin ?P ?f t))) [0..<length (log s k)]"
    using flow_ordered_trace [OF pinv_flow [OF inv], of k] k z' by simp
  have "map snd (log s k) = map (\<lambda>t. path ?P 0 k (origin ?P ?f t)) [0..<length (log s k)]"
    by (subst tr) simp
  also have "\<dots> = map (object_at fs k) (take (length (log s k)) items)"
    by (rule nth_equalityI) (use le len at z' in \<open>simp_all add: origin_def path_object_at\<close>)
  finally show ?thesis .
qed

text \<open>Every run can be continued to its end.\<close>

lemma run_ends:
  assumes "pipe_inv fs n items s" "fs \<noteq> []" "0 < n"
  shows "\<exists>k t. (pipe_step fs ^^ k) s t \<and> tasks t = {#}"
  using assms(1)
proof (induction "work fs s" arbitrary: s rule: less_induct)
  case less
  show ?case
  proof (cases "tasks s = {#}")
    case True
    then show ?thesis by (intro exI [of _ 0] exI [of _ s]) simp
  next
    case False
    then obtain x M where "tasks s = add_mset x M" by (meson multiset_cases)
    then obtain u where u: "pipe_step fs s u" using pipe_step.stage by blast
    from less.hyps [OF pipe_inv_step(2) [OF u less.prems assms(2)] pipe_inv_step(1) [OF u less.prems assms(2)]]
    obtain k t where "(pipe_step fs ^^ k) u t" "tasks t = {#}" by blast
    then have "(pipe_step fs ^^ Suc k) s t" using u by (meson relpowp_Suc_I2)
    then show ?thesis using \<open>tasks t = {#}\<close> by blast
  qed
qed

text \<open>A pipeline that doubles in parallel and then adds one in order.\<close>

definition example_filters :: "nat filter list" where
  "example_filters =
     [\<lparr>my_filter_mode = filter_mode serial_in_order, operator = id\<rparr>,
      \<lparr>my_filter_mode = filter_mode parallel, operator = map_option (\<lambda>x. 2 * x)\<rparr>,
      \<lparr>my_filter_mode = filter_mode serial_in_order, operator = map_option Suc\<rparr>]"

lemma example_plain: "plain_filters example_filters" "example_filters \<noteq> []" "length example_filters = 3"
  "ordered_at example_filters 0" "ordered_at example_filters 2"
  by (simp_all add: plain_filters_def example_filters_def ordered_at_def)

lemma example_objects: "object_at example_filters 2 a = Some (2 * a)" "object_at example_filters 3 a = Some (2 * a + 1)"
  by (simp_all add: object_at_def example_filters_def upt_rec)

lemma example_run:
  "\<exists>k s. (pipe_step example_filters ^^ k) (pipeline_run example_filters 2 [5, 3, 8]) s \<and> tasks s = {#}"
  by (rule run_ends [OF pipe_inv_start [OF example_plain(2)] example_plain(2)]) simp_all

text \<open>
  C2: at every moment of a run, a serial filter is called by one task at a time, at most
  \<open>max_number_of_live_tokens\<close> items are in the pipeline, and, when the input filter is serial in
  order, every filter that is serial in order has been called with the first elements of the input,
  in their order, each as the filters before it made it, whatever parallel or out of order filters
  there are in between.
\<close>

theorem pipeline_order:
  assumes "(pipe_step fs)\<^sup>*\<^sup>* (pipeline_run fs n items) s" "plain_filters fs" "0 < n"
  shows "(\<forall>k < length fs. serial_at fs k \<longrightarrow>
      size (filter_mset (\<lambda>x. my_filter x = k \<and> pc x = In_filter) (tasks s)) \<le> 1) \<and>
    live_tokens fs s \<le> n \<and>
    (\<forall>k. 1 \<le> k \<and> k < length fs \<and> ordered_at fs k \<and> ordered_at fs 0 \<longrightarrow>
      map snd (log s k) = map (object_at fs k) (take (length (log s k)) items))"
proof -
  have fs: "fs \<noteq> []" using assms(2) by (simp add: plain_filters_def)
  note inv = pipe_inv_reach [OF assms(1) fs assms(3)]
  have "size (filter_mset (\<lambda>x. my_filter x = k \<and> pc x = In_filter) (tasks s)) \<le> 1"
    if k: "k < length fs" "serial_at fs k" for k
  proof (cases "k = 0")
    case True
    have "size (filter_mset (\<lambda>x. my_filter x = 0 \<and> pc x = In_filter) (tasks s)) \<le> carriers fs s"
      unfolding carriers_def
    proof (rule size_filter_le)
      fix x assume "x \<in># tasks s" "my_filter x = 0 \<and> pc x = In_filter"
      then show "carrier fs x" using inv_task [OF pinv_tasks [OF inv], of x] k True
        by (auto simp: task_ok_def carrier_def split: if_splits)
    qed
    moreover have "carriers fs s \<le> 1"
      using pinv_count [OF inv] by (auto simp: count_inv_def of_bool_def split: if_splits)
    ultimately show ?thesis using True by simp
  next
    case False
    have h: "size (holders s k) \<le> 1"
      using inv_buffer [OF pinv_tasks [OF inv] k(1)] False k(2)
      by (auto simp: buffer_inv_def ordered_buffer_def serial_buffer_def Let_def split: if_splits)
    have "size (filter_mset (\<lambda>x. my_filter x = k \<and> pc x = In_filter) (tasks s)) \<le> size (holders s k)"
    proof (rule size_filter_le)
      fix x assume "x \<in># tasks s" "my_filter x = k \<and> pc x = In_filter"
      then show "holder k x" using inv_task [OF pinv_tasks [OF inv], of x] False
        by (auto simp: task_ok_def holder_def split: if_splits)
    qed
    then show ?thesis using h by simp
  qed
  moreover have "live_tokens fs s \<le> n" using pinv_count [OF inv] by (simp add: count_inv_def)
  ultimately show ?thesis using ordered_calls [OF inv] by blast
qed

theorem pipeline_order_witness:
  "\<exists>s. (pipe_step example_filters)\<^sup>*\<^sup>* (pipeline_run example_filters 2 [5, 3, 8]) s \<and> tasks s = {#} \<and>
    map snd (log s 2) = [Some 10, Some 6, Some 16]"
proof -
  obtain k s where s: "(pipe_step example_filters ^^ k) (pipeline_run example_filters 2 [5, 3, 8]) s" "tasks s = {#}"
    using example_run by blast
  note reach = relpowp_imp_rtranclp [OF s(1)]
  have "map snd (log s 2) = map (object_at example_filters 2) (take (length (log s 2)) [5, 3, 8])"
    using pipeline_order [OF reach example_plain(1)] example_plain by simp
  moreover have "length (log s 2) = 3"
    using mset_eq_length [OF idle_calls [OF pipe_inv_reach [OF reach example_plain(2)] s(2), of 2]] example_plain(3)
    by simp
  ultimately show ?thesis using reach s(2) by (auto simp: example_objects)
qed

text \<open>
  C7: a pipeline never gets stuck and ends. No run takes more than
  \<open>(4 f + 10) i + 3 n + 3\<close> steps for \<open>i\<close> elements, \<open>f\<close> filters and \<open>n\<close> tokens, a state that has no
  step has no task left, and there the input has been read to its end, every filter was called once
  for each element with what the filters before it made of it, and as many items left the pipeline.
\<close>

theorem pipeline_completes:
  assumes "(pipe_step fs ^^ k) (pipeline_run fs n items) s" "plain_filters fs" "0 < n"
  shows "k \<le> (4 * length fs + 10) * length items + 3 * n + 3 \<and>
    ((\<exists>t. pipe_step fs s t) \<or>
     tasks s = {#} \<and> end_of_input s \<and> source s = [] \<and> map snd (log s 0) = map Some items \<and>
     (\<forall>j \<in> {1..length fs}. mset (map snd (log s j)) = mset (map (object_at fs j) items)))"
proof -
  have fs: "fs \<noteq> []" using assms(2) by (simp add: plain_filters_def)
  have inv: "pipe_inv fs n items s" "k \<le> work fs (pipeline_run fs n items)"
    using pipe_inv_steps [OF assms(1) pipe_inv_start [OF fs assms(3)] fs] by simp_all
  have "k \<le> (4 * length fs + 10) * length items + 3 * n + 3"
    using inv(2) by (simp add: work_start item_work_def add.commute)
  moreover have "\<exists>t. pipe_step fs s t" if "tasks s \<noteq> {#}"
    using that pipe_step.stage [of s _ _ fs] by (meson multiset_cases)
  moreover have "end_of_input s \<and> source s = [] \<and> map snd (log s 0) = map Some items \<and>
     (\<forall>j \<in> {1..length fs}. mset (map snd (log s j)) = mset (map (object_at fs j) items))" if "tasks s = {#}"
    using idle_done [OF inv(1) that assms(3)] idle_calls [OF inv(1) that assms(3)] pinv_input [OF inv(1)] by simp
  ultimately show ?thesis by blast
qed


theorem pipeline_completes_witness:
  "\<exists>s :: nat pipeline. tasks s = {#} \<and> end_of_input s \<and> source s = [] \<and>
    mset (map snd (log s 3)) = {#Some 11, Some 7, Some 17#}"
proof -
  obtain k s where s: "(pipe_step example_filters ^^ k) (pipeline_run example_filters 2 [5, 3, 8]) s" "tasks s = {#}"
    using example_run by blast
  note inv = pipe_inv_reach [OF relpowp_imp_rtranclp [OF s(1)] example_plain(2)]
  have stop: "\<not> pipe_step example_filters s t" for t
    using idle_done(1) [OF inv s(2)] s(2) by (auto elim: pipe_step.cases)
  have "end_of_input s \<and> source s = [] \<and>
      (\<forall>j \<in> {1..length example_filters}. mset (map snd (log s j)) = mset (map (object_at example_filters j) [5, 3, 8]))"
    using pipeline_completes [OF s(1) example_plain(1) zero_less_numeral] stop by blast
  moreover from this have "mset (map snd (log s 3)) = mset (map (object_at example_filters 3) [5, 3, 8])"
    using example_plain(3) by simp
  ultimately show ?thesis using s(2) by (intro exI [of _ s]) (simp add: example_objects)
qed

end
