(* ===== verification/Split_Order.thy ===== *)
theory Split_Order
  imports Prelude
begin

text \<open>
  The arithmetic behind \<^verbatim>\<open>concurrent_unordered_map\<close> and \<^verbatim>\<open>_set\<close>
  (\<^verbatim>\<open>include/tbb/internal/_concurrent_unordered_impl.h\<close>) and the two routines of
  \<^verbatim>\<open>include/tbb/tbb_machine.h\<close> it rests on: \<^verbatim>\<open>__TBB_ReverseBits\<close> over the byte table and the
  portable \<^verbatim>\<open>__TBB_Log2\<close>. All values are 64-bit words. A hash value becomes an order key by
  reversing its bits; the buckets of a table of \<^verbatim>\<open>2^k\<close> buckets are then consecutive intervals of the
  order keys, whatever \<^verbatim>\<open>k\<close> is, each of them opened by the key of the bucket's dummy node.
\<close>

section \<open>Reversing the bits of a word\<close>

text \<open>
  The bytes of \<^verbatim>\<open>src\<close> are read and those of \<^verbatim>\<open>dst\<close> written through \<^verbatim>\<open>unsigned char\<close> pointers;
  \<^verbatim>\<open>byte_of\<close> and \<^verbatim>\<open>set_byte\<close> are those accesses on a little-endian machine. The uninitialised \<^verbatim>\<open>dst\<close>
  starts as 0; every byte of it is written (\<^verbatim>\<open>bit_reverse_loop\<close>).
\<close>

definition byte_table :: "8 word list" where
  "byte_table =
  [0x00, 0x80, 0x40, 0xC0, 0x20, 0xA0, 0x60, 0xE0, 0x10, 0x90, 0x50, 0xD0, 0x30, 0xB0, 0x70, 0xF0,
   0x08, 0x88, 0x48, 0xC8, 0x28, 0xA8, 0x68, 0xE8, 0x18, 0x98, 0x58, 0xD8, 0x38, 0xB8, 0x78, 0xF8,
   0x04, 0x84, 0x44, 0xC4, 0x24, 0xA4, 0x64, 0xE4, 0x14, 0x94, 0x54, 0xD4, 0x34, 0xB4, 0x74, 0xF4,
   0x0C, 0x8C, 0x4C, 0xCC, 0x2C, 0xAC, 0x6C, 0xEC, 0x1C, 0x9C, 0x5C, 0xDC, 0x3C, 0xBC, 0x7C, 0xFC,
   0x02, 0x82, 0x42, 0xC2, 0x22, 0xA2, 0x62, 0xE2, 0x12, 0x92, 0x52, 0xD2, 0x32, 0xB2, 0x72, 0xF2,
   0x0A, 0x8A, 0x4A, 0xCA, 0x2A, 0xAA, 0x6A, 0xEA, 0x1A, 0x9A, 0x5A, 0xDA, 0x3A, 0xBA, 0x7A, 0xFA,
   0x06, 0x86, 0x46, 0xC6, 0x26, 0xA6, 0x66, 0xE6, 0x16, 0x96, 0x56, 0xD6, 0x36, 0xB6, 0x76, 0xF6,
   0x0E, 0x8E, 0x4E, 0xCE, 0x2E, 0xAE, 0x6E, 0xEE, 0x1E, 0x9E, 0x5E, 0xDE, 0x3E, 0xBE, 0x7E, 0xFE,
   0x01, 0x81, 0x41, 0xC1, 0x21, 0xA1, 0x61, 0xE1, 0x11, 0x91, 0x51, 0xD1, 0x31, 0xB1, 0x71, 0xF1,
   0x09, 0x89, 0x49, 0xC9, 0x29, 0xA9, 0x69, 0xE9, 0x19, 0x99, 0x59, 0xD9, 0x39, 0xB9, 0x79, 0xF9,
   0x05, 0x85, 0x45, 0xC5, 0x25, 0xA5, 0x65, 0xE5, 0x15, 0x95, 0x55, 0xD5, 0x35, 0xB5, 0x75, 0xF5,
   0x0D, 0x8D, 0x4D, 0xCD, 0x2D, 0xAD, 0x6D, 0xED, 0x1D, 0x9D, 0x5D, 0xDD, 0x3D, 0xBD, 0x7D, 0xFD,
   0x03, 0x83, 0x43, 0xC3, 0x23, 0xA3, 0x63, 0xE3, 0x13, 0x93, 0x53, 0xD3, 0x33, 0xB3, 0x73, 0xF3,
   0x0B, 0x8B, 0x4B, 0xCB, 0x2B, 0xAB, 0x6B, 0xEB, 0x1B, 0x9B, 0x5B, 0xDB, 0x3B, 0xBB, 0x7B, 0xFB,
   0x07, 0x87, 0x47, 0xC7, 0x27, 0xA7, 0x67, 0xE7, 0x17, 0x97, 0x57, 0xD7, 0x37, 0xB7, 0x77, 0xF7,
   0x0F, 0x8F, 0x4F, 0xCF, 0x2F, 0xAF, 0x6F, 0xEF, 0x1F, 0x9F, 0x5F, 0xDF, 0x3F, 0xBF, 0x7F, 0xFF]"

definition ReverseByte :: "8 word \<Rightarrow> 8 word" where
  "ReverseByte src = byte_table ! unat src"

definition byte_of :: "64 word \<Rightarrow> nat \<Rightarrow> 8 word" where
  "byte_of w i = ucast (drop_bit (8 * i) w)"

definition set_byte :: "64 word \<Rightarrow> nat \<Rightarrow> 8 word \<Rightarrow> 64 word" where
  "set_byte w i b = (w AND NOT (push_bit (8 * i) 255)) OR push_bit (8 * i) (ucast b)"

primrec reverse_loop :: "nat \<Rightarrow> 64 word \<Rightarrow> 64 word \<Rightarrow> 64 word" where
  "reverse_loop 0 src dst = dst"
| "reverse_loop (Suc i) src dst = reverse_loop i src (set_byte dst i (ReverseByte (byte_of src (8 - i - 1))))"

definition ReverseBits :: "64 word \<Rightarrow> 64 word" where
  "ReverseBits src = reverse_loop 8 src 0"

text \<open>The table holds the reversed byte at each of its 256 positions.\<close>

lemma byte_table_reverses_all:
  "list_all (\<lambda>n. list_all (\<lambda>i. bit (byte_table ! n) i = bit (word_of_nat n :: 8 word) (7 - i)) [0..<8]) [0..<256]"
  unfolding byte_table_def by code_simp

lemma bit_ReverseByte:
  assumes "i < 8"
  shows "bit (ReverseByte b) i = bit b (7 - i)"
proof -
  have "unat b < 256" using unsigned_less [of b, where ?'a = nat] by simp
  then have "list_all (\<lambda>i. bit (byte_table ! unat b) i = bit (word_of_nat (unat b) :: 8 word) (7 - i)) [0..<8]"
    using byte_table_reverses_all by (simp add: list_all_iff)
  then show ?thesis using assms by (simp add: list_all_iff ReverseByte_def)
qed

lemma set_byte_mask:
  "set_byte w i b = (w AND NOT (push_bit (8 * i) (mask 8))) OR push_bit (8 * i) (ucast b)"
  by (simp add: set_byte_def mask_eq_exp_minus_1)

lemma bit_byte_ge: "8 \<le> k \<Longrightarrow> \<not> bit (ucast (b :: 8 word) :: 64 word) k"
  using bit_imp_le_length [of b k] by (auto simp: bit_ucast_iff)

lemma bit_set_byte:
  assumes "i < 8" "j < 64"
  shows "bit (set_byte w i b) j = (if j div 8 = i then bit b (j mod 8) else bit w j)"
proof (cases "8 * i \<le> j \<and> j < 8 * i + 8")
  case True
  then obtain d where d: "j = 8 * i + d" "d < 8" by (metis le_Suc_ex nat_add_left_cancel_less)
  then have "j div 8 = i" "j mod 8 = d" by simp_all
  then show ?thesis using d assms
    by (simp add: set_byte_mask bit_or_iff bit_and_iff bit_not_iff bit_push_bit_iff bit_mask_iff bit_ucast_iff)
next
  case False
  then have "j div 8 \<noteq> i" by auto
  moreover have "\<not> (8 * i \<le> j \<and> bit (ucast b :: 64 word) (j - 8 * i))"
    using False bit_byte_ge [of "j - 8 * i" b] by linarith
  moreover have "\<not> (8 * i \<le> j \<and> j - 8 * i < 8)" using False by auto
  ultimately show ?thesis using assms
    by (auto simp: set_byte_mask bit_or_iff bit_and_iff bit_not_iff bit_push_bit_iff bit_mask_iff)
qed

lemma bit_reverse_loop:
  "n \<le> 8 \<Longrightarrow> j < 64 \<Longrightarrow>
    bit (reverse_loop n src dst) j = (if j < 8 * n then bit src (63 - j) else bit dst j)"
proof (induction n arbitrary: dst)
  case (Suc n)
  have b: "bit (ReverseByte (byte_of src (8 - n - 1))) (j mod 8) = bit src (63 - j)" if "j div 8 = n"
  proof -
    have "j = 8 * n + j mod 8" using that by auto
    then have "8 * (8 - n - 1) + (7 - j mod 8) = 63 - j" using Suc.prems by auto
    moreover have "7 - j mod 8 < 8" "j mod 8 < 8" by simp_all
    ultimately show ?thesis
      by (simp only: bit_ReverseByte byte_of_def bit_ucast_iff bit_drop_bit_eq o_apply) simp
  qed
  show ?case
  proof (cases "j div 8 = n")
    case True
    then show ?thesis using Suc b by (simp add: bit_set_byte; auto)
  next
    case False
    then show ?thesis using Suc by (simp add: bit_set_byte; auto)
  qed
qed simp

lemma bit_ReverseBits: "bit (ReverseBits w) i \<longleftrightarrow> i < 64 \<and> bit w (63 - i)"
proof (cases "i < 64")
  case True
  then show ?thesis by (simp add: ReverseBits_def bit_reverse_loop)
next
  case False
  then show ?thesis using bit_imp_le_length [of "ReverseBits w" i] by auto
qed

lemma ReverseBits_twice: "ReverseBits (ReverseBits w) = w"
  by (rule bit_word_eqI) (auto simp: bit_ReverseBits)

section \<open>The floor of the binary logarithm\<close>

text \<open>
  Each line of \<^verbatim>\<open>__TBB_Log2\<close> halves the width that is still unknown: \<^verbatim>\<open>log2_inv x m p\<close> says that
  what is left has at most \<^verbatim>\<open>m\<close> bits and is \<^verbatim>\<open>x\<close> shifted by the result so far.
\<close>

definition log2_step :: "nat \<Rightarrow> 64 word \<times> int \<Rightarrow> 64 word \<times> int" where
  "log2_step s p = (let x = fst p; result = snd p; tmp = drop_bit s x in
     if tmp \<noteq> 0 then (tmp, result + int s) else (x, result))"

definition Log2 :: "64 word \<Rightarrow> int" where
  "Log2 x = (if x = 0 then - 1
     else let p = log2_step 2 (log2_step 4 (log2_step 8 (log2_step 16 (log2_step 32 (x, 0))))) in
       if fst p AND 2 \<noteq> 0 then snd p + 1 else snd p)"

definition log2_inv :: "64 word \<Rightarrow> nat \<Rightarrow> 64 word \<times> int \<Rightarrow> bool" where
  "log2_inv x m p \<longleftrightarrow> fst p \<noteq> 0 \<and> unat (fst p) < 2 ^ m \<and> 0 \<le> snd p \<and> unat (fst p) = unat x div 2 ^ nat (snd p)"

lemma log2_step_inv:
  assumes "log2_inv x (s + s) p"
  shows "log2_inv x s (log2_step s p)"
proof -
  have u: "unat (drop_bit s (fst p)) = unat (fst p) div 2 ^ s" using drop_bit_eq_div [of s "unat (fst p)"] by (simp only: unat_drop_bit_eq)
  have z: "drop_bit s (fst p) = 0 \<longleftrightarrow> unat (fst p) div 2 ^ s = 0"
    unfolding u [symmetric] by (simp add: unsigned_eq_0_iff)
  show ?thesis
  proof (cases "drop_bit s (fst p) = 0")
    case True
    then show ?thesis using assms z by (simp add: log2_inv_def log2_step_def Let_def div_eq_0_iff)
  next
    case False
    have "unat (fst p) div 2 ^ s < 2 ^ s" using assms
      by (simp add: log2_inv_def power_add less_mult_imp_div_less)
    then show ?thesis using assms False u
      by (simp add: log2_inv_def log2_step_def Let_def nat_add_distrib power_add div_mult2_eq)
  qed
qed

lemma small_and_two: "unat y < 4 \<Longrightarrow> y AND 2 \<noteq> 0 \<longleftrightarrow> 2 \<le> unat (y :: 64 word)"
proof -
  assume "unat y < 4"
  then have "unat y = 0 \<or> unat y = 1 \<or> unat y = 2 \<or> unat y = 3" by linarith
  then have "y = 0 \<or> y = 1 \<or> y = 2 \<or> y = 3" by (auto simp: word_unat_eq_iff)
  then show ?thesis by auto
qed

lemma Log2_bounds:
  assumes "x \<noteq> 0"
  shows "0 \<le> Log2 x" "2 ^ nat (Log2 x) \<le> unat x" "unat x < 2 ^ Suc (nat (Log2 x))"
proof -
  define p where "p = log2_step 2 (log2_step 4 (log2_step 8 (log2_step 16 (log2_step 32 (x, 0)))))"
  have "log2_inv x (32 + 32) (x, 0)"
    using assms unsigned_less [of x, where ?'a = nat] by (simp add: log2_inv_def)
  from log2_step_inv [OF this] have "log2_inv x (16 + 16) (log2_step 32 (x, 0))" by simp
  from log2_step_inv [OF this] have "log2_inv x (8 + 8) (log2_step 16 (log2_step 32 (x, 0)))" by simp
  from log2_step_inv [OF this] have "log2_inv x (4 + 4) (log2_step 8 (log2_step 16 (log2_step 32 (x, 0))))" by simp
  from log2_step_inv [OF this]
  have "log2_inv x (2 + 2) (log2_step 4 (log2_step 8 (log2_step 16 (log2_step 32 (x, 0)))))" by simp
  from log2_step_inv [OF this] have "log2_inv x 2 p" by (simp only: p_def)
  then have y: "fst p \<noteq> 0" "unat (fst p) < 4" "0 \<le> snd p" "unat (fst p) = unat x div 2 ^ nat (snd p)"
    by (simp_all add: log2_inv_def)
  have L: "Log2 x = (if 2 \<le> unat (fst p) then snd p + 1 else snd p)"
    using assms small_and_two [OF y(2)] by (simp add: Log2_def p_def [symmetric] Let_def)
  show "0 \<le> Log2 x" using L y(3) by simp
  let ?q = "2 ^ nat (snd p) :: nat"
  have pos: "0 < ?q" by simp
  have n1: "1 \<le> unat (fst p)" using y(1) by (metis One_nat_def Suc_leI neq0_conv unsigned_eq_0_iff)
  have lo: "unat (fst p) * ?q \<le> unat x" unfolding y(4) by simp
  have hi: "unat x < (unat (fst p) + 1) * ?q"
    unfolding y(4) by (metis Suc_eq_plus1 dividend_less_times_div mult.commute mult_Suc_right pos add.commute mult_Suc)
  show "2 ^ nat (Log2 x) \<le> unat x"
  proof (cases "2 \<le> unat (fst p)")
    case True
    then have "2 * ?q \<le> unat x" using lo by (meson le_trans mult_le_mono1)
    then show ?thesis using True L y(3) by (simp add: nat_add_distrib)
  next
    case False
    then show ?thesis using lo L n1 by (metis le_trans mult_le_mono1 mult_1)
  qed
  show "unat x < 2 ^ Suc (nat (Log2 x))"
  proof (cases "2 \<le> unat (fst p)")
    case True
    have "unat x < 4 * ?q" using hi y(2) by (metis Suc_eq_plus1 Suc_leI le_trans less_le_trans mult_le_mono1)
    then show ?thesis using True L y(3) by (simp add: nat_add_distrib)
  next
    case False
    then have "unat (fst p) + 1 = 2" using n1 by simp
    then show ?thesis using hi False L by simp
  qed
qed

lemma power_window_unique:
  assumes "2 ^ j \<le> n" "n < 2 ^ Suc j" "2 ^ k \<le> n" "n < (2::nat) ^ Suc k"
  shows "j = k"
proof -
  have "(2::nat) ^ j < 2 ^ Suc k" "(2::nat) ^ k < 2 ^ Suc j" using assms by linarith+
  then show ?thesis by (simp add: power_strict_increasing_iff del: power_Suc)
qed

lemma Log2_less: "x \<noteq> 0 \<Longrightarrow> nat (Log2 x) < 64"
proof -
  assume "x \<noteq> 0"
  have "unat x < 2 ^ 64" using unsigned_less [of x, where ?'a = nat] by simp
  with Log2_bounds(2) [OF \<open>x \<noteq> 0\<close>] have "(2::nat) ^ nat (Log2 x) < 2 ^ 64" by linarith
  then show ?thesis by (simp only: power_strict_increasing_iff)
qed

lemma bit_unat: "bit (unat (w :: 64 word)) j \<longleftrightarrow> bit w j"
  by (auto simp: bit_unsigned_iff dest: bit_imp_le_length)

lemma bit_Log2:
  assumes "x \<noteq> 0"
  shows "bit x (nat (Log2 x))" "nat (Log2 x) < j \<Longrightarrow> \<not> bit x j"
proof -
  let ?k = "nat (Log2 x)"
  note b = Log2_bounds [OF assms]
  have "unat x div 2 ^ ?k = 1" using b by (metis One_nat_def Suc_1 div_nat_eqI mult.right_neutral mult_2 nat_mult_1_right power_Suc mult.commute)
  then show "bit x ?k" unfolding bit_unat [symmetric] by (simp add: bit_iff_odd)
  assume "?k < j"
  then have "unat x < 2 ^ j" using b(3) by (meson Suc_leI less_le_trans one_le_numeral power_increasing)
  then have "unat x div 2 ^ j = 0" by simp
  then show "\<not> bit x j" unfolding bit_unat [symmetric] by (simp add: bit_iff_odd)
qed

section \<open>Segments of the bucket table\<close>

text \<open>
  Bucket \<^verbatim>\<open>b\<close> is stored in segment \<^verbatim>\<open>segment_index_of b\<close> of \<^verbatim>\<open>my_buckets\<close>, at the offset that
  \<^verbatim>\<open>get_bucket\<close>, \<^verbatim>\<open>set_bucket\<close> and \<^verbatim>\<open>is_initialized\<close> compute by \<^verbatim>\<open>bucket -= segment_base(segment)\<close>.
\<close>

definition segment_index_of :: "64 word \<Rightarrow> nat" where
  "segment_index_of ix = nat (Log2 (ix OR 1))"

definition segment_base :: "nat \<Rightarrow> 64 word" where
  "segment_base k = push_bit k 1 AND NOT 1"

definition segment_size :: "nat \<Rightarrow> 64 word" where
  "segment_size k = (if k \<noteq> 0 then push_bit k 1 else 2)"

definition locate_bucket :: "64 word \<Rightarrow> nat \<times> nat" where
  "locate_bucket bucket = (let segment = segment_index_of bucket in (segment, unat (bucket - segment_base segment)))"

lemma or_one_ne_0: "(w :: 64 word) OR 1 \<noteq> 0"
proof -
  have "bit (w OR 1) 0" by (simp add: bit_or_iff)
  then show ?thesis by auto
qed

lemma unat_or_one: "unat ((w :: 64 word) OR 1) = (if even (unat w) then unat w + 1 else unat w)"
proof -
  have "unat (w OR 1) = unat w OR 1" by (simp only: unsigned_or_eq unsigned_1)
  then show ?thesis unfolding or_one_eq [of "unat w"] by simp
qed

lemma unat_push_one: "k < 64 \<Longrightarrow> unat (push_bit k 1 :: 64 word) = 2 ^ k"
proof -
  assume "k < 64"
  have "unat (push_bit k 1 :: 64 word) = take_bit 64 (push_bit k 1)" by (subst unsigned_push_bit_eq) simp
  also have "(2::nat) ^ k < 2 ^ 64" using \<open>k < 64\<close> by (rule power_strict_increasing) simp
  then have "take_bit 64 (push_bit k 1) = (2::nat) ^ k" by (simp add: push_bit_eq_mult take_bit_eq_mod)
  finally show ?thesis .
qed

lemma unat_segment_base: "k < 64 \<Longrightarrow> unat (segment_base k) = (if k = 0 then 0 else 2 ^ k)"
proof -
  assume k: "k < 64"
  have "segment_base k = (if k = 0 then 0 else push_bit k 1)"
    by (rule bit_word_eqI) (auto simp: segment_base_def bit_and_iff bit_not_iff bit_exp_iff bit_1_iff)
  then show ?thesis using unat_push_one [OF k] by simp
qed

lemma unat_segment_size: "k < 64 \<Longrightarrow> unat (segment_size k) = (if k = 0 then 2 else 2 ^ k)"
  using unat_push_one [of k] by (simp add: segment_size_def)

text \<open>The segment of a bucket, by its bounds.\<close>

lemma segment_index_iff:
  assumes "k < 64"
  shows "segment_index_of w = k \<longleftrightarrow>
    unat (segment_base k) \<le> unat w \<and> unat w < unat (segment_base k) + unat (segment_size k)"
proof -
  note b = Log2_bounds [OF or_one_ne_0 [of w]]
  have w: "(if k = 0 then unat w < 2 else 2 ^ k \<le> unat w \<and> unat w < 2 ^ Suc k) \<longleftrightarrow>
      2 ^ k \<le> unat (w OR 1) \<and> unat (w OR 1) < 2 ^ Suc k"
  proof (cases "k = 0")
    case True
    then show ?thesis by (auto simp: unat_or_one elim: oddE)
  next
    case False
    then have "even (2 ^ k :: nat)" "even (2 ^ Suc k :: nat)" by simp_all
    then have "unat w = 2 ^ k - 1 \<Longrightarrow> odd (unat w)" "unat w = 2 ^ Suc k - 1 \<Longrightarrow> odd (unat w)"
      by (simp_all add: even_diff_nat)
    moreover have "0 < (2 ^ k :: nat)" "0 < (2 ^ Suc k :: nat)" by simp_all
    ultimately show ?thesis using False unfolding unat_or_one by (smt (verit) Suc_eq_plus1 Suc_leI diff_Suc_1 less_Suc_eq less_or_eq_imp_le linorder_not_less not_less_eq)
  qed
  have "segment_index_of w = k \<longleftrightarrow> 2 ^ k \<le> unat (w OR 1) \<and> unat (w OR 1) < 2 ^ Suc k"
    using b power_window_unique unfolding segment_index_of_def by blast
  then show ?thesis using w assms unat_segment_base [OF assms] unat_segment_size [OF assms] by auto
qed

lemma segment_index_less: "segment_index_of w < 64"
  by (simp add: segment_index_of_def Log2_less or_one_ne_0)

lemma locate_bucket_props:
  assumes "locate_bucket w = (k, i)"
  shows "k < 64" "i < unat (segment_size k)" "unat (segment_base k) + i = unat w"
proof -
  have k: "k = segment_index_of w" "i = unat (w - segment_base k)"
    using assms by (auto simp: locate_bucket_def Let_def)
  show k64: "k < 64" using segment_index_less k by simp
  have "unat (segment_base k) \<le> unat w" "unat w < unat (segment_base k) + unat (segment_size k)"
    using segment_index_iff [OF k64, of w] k(1) by auto
  moreover from this have "i = unat w - unat (segment_base k)"
    using k(2) by (simp add: unat_sub_if_size word_le_nat_alt)
  ultimately show "i < unat (segment_size k)" "unat (segment_base k) + i = unat w" by auto
qed

lemma locate_bucket_inverse:
  assumes "k < 64" "i < unat (segment_size k)"
  shows "locate_bucket (segment_base k + of_nat i) = (k, i)"
proof -
  let ?w = "segment_base k + of_nat i"
  have le: "(2::nat) ^ k \<le> 2 ^ 63" using assms(1) by (intro power_increasing) auto
  have "unat (segment_base k) + i < 2 ^ 64" "i < 2 ^ 64"
    using assms le by (simp_all add: unat_segment_base unat_segment_size split: if_splits)
  then have u: "unat ?w = unat (segment_base k) + i"
    by (simp add: unat_word_ariths unat_of_nat)
  then have "segment_index_of ?w = k" using segment_index_iff [OF assms(1)] assms(2) by simp
  moreover have "?w - segment_base k = of_nat i" by simp
  ultimately show ?thesis using \<open>i < 2 ^ 64\<close> by (simp add: locate_bucket_def Let_def unat_of_nat)
qed

lemma locate_bucket_inj: "locate_bucket v = locate_bucket w \<Longrightarrow> v = w"
proof -
  assume "locate_bucket v = locate_bucket w"
  then obtain k i where "locate_bucket v = (k, i)" "locate_bucket w = (k, i)" by (metis prod.exhaust)
  then have "unat v = unat w" using locate_bucket_props(3) by metis
  then show ?thesis by (simp add: word_unat_eq_iff)
qed

section \<open>Order keys\<close>

definition get_parent :: "64 word \<Rightarrow> 64 word" where
  "get_parent bucket = (let msb = Log2 bucket in bucket AND NOT (push_bit (nat msb) 1))"

definition split_order_key_regular :: "64 word \<Rightarrow> 64 word" where
  "split_order_key_regular order_key = ReverseBits order_key OR 1"

definition split_order_key_dummy :: "64 word \<Rightarrow> 64 word" where
  "split_order_key_dummy order_key = ReverseBits order_key AND NOT 1"

definition is_dummy_key :: "64 word \<Rightarrow> bool" where
  "is_dummy_key my_order_key \<longleftrightarrow> my_order_key AND 1 = 0"

lemma is_dummy_key_iff: "is_dummy_key w \<longleftrightarrow> \<not> bit w 0"
  by (simp add: is_dummy_key_def and_one_eq bit_0 even_iff_mod_2_eq_zero)

lemma dummy_is_dummy: "is_dummy_key (split_order_key_dummy b)"
  by (simp add: is_dummy_key_iff split_order_key_dummy_def bit_and_iff bit_not_iff)

lemma regular_not_dummy: "\<not> is_dummy_key (split_order_key_regular h)"
  by (simp add: is_dummy_key_iff split_order_key_regular_def bit_or_iff)

lemma bit_get_parent:
  assumes "b \<noteq> 0"
  shows "bit (get_parent b) j \<longleftrightarrow> bit b j \<and> j \<noteq> nat (Log2 b)"
proof (cases "j < 64")
  case True
  then show ?thesis using assms
    by (auto simp: get_parent_def Let_def bit_and_iff bit_not_iff bit_exp_iff)
next
  case False
  then show ?thesis using bit_imp_le_length [of b j] bit_imp_le_length [of "get_parent b" j] by auto
qed

lemma clear_bit_less:
  assumes "bit (w :: 64 word) m" "\<And>j. bit v j \<longleftrightarrow> bit w j \<and> j \<noteq> m"
  shows "v < w"
proof -
  have "v = w AND v" by (rule bit_word_eqI) (auto simp: assms(2) bit_and_iff)
  then have "v \<le> w" by (metis word_and_le2)
  moreover have "v \<noteq> w" using assms by blast
  ultimately show ?thesis by simp
qed

lemma get_parent_less: "b \<noteq> 0 \<Longrightarrow> get_parent b < b"
  by (rule clear_bit_less [of b "nat (Log2 b)"]) (simp_all add: bit_Log2 bit_get_parent)

lemma bit_dummy: "bit (split_order_key_dummy b) j \<longleftrightarrow> j \<noteq> 0 \<and> j < 64 \<and> bit b (63 - j)"
  by (cases "j < 64") (auto simp: split_order_key_dummy_def bit_and_iff bit_not_iff bit_1_iff bit_ReverseBits)

lemma not_bit_63: "unat (b :: 64 word) < 2 ^ 63 \<Longrightarrow> \<not> bit b 63"
  unfolding bit_unat [symmetric] by (simp add: bit_iff_odd)

lemma dummy_parent_less:
  assumes "b \<noteq> 0" "unat b < 2 ^ 63"
  shows "split_order_key_dummy (get_parent b) < split_order_key_dummy b"
proof (rule clear_bit_less [of _ "63 - nat (Log2 b)"])
  have m: "nat (Log2 b) \<noteq> 63" "nat (Log2 b) < 64"
    using bit_Log2(1) [OF assms(1)] not_bit_63 [OF assms(2)] Log2_less [OF assms(1)] by auto
  then show "bit (split_order_key_dummy b) (63 - nat (Log2 b))"
    using bit_Log2(1) [OF assms(1)] by (simp add: bit_dummy)
  fix j
  show "bit (split_order_key_dummy (get_parent b)) j \<longleftrightarrow>
      bit (split_order_key_dummy b) j \<and> j \<noteq> 63 - nat (Log2 b)"
    using m by (auto simp: bit_dummy bit_get_parent assms(1))
qed

lemma dummy_inj:
  assumes "unat b < 2 ^ 63" "unat c < 2 ^ 63" "split_order_key_dummy b = split_order_key_dummy c"
  shows "b = c"
proof (rule bit_word_eqI)
  fix n assume n: "n < LENGTH(64)"
  show "bit b n = bit c n"
  proof (cases "n = 63")
    case True
    then show ?thesis using assms not_bit_63 by blast
  next
    case False
    then have "63 - n \<noteq> 0" "63 - n < 64" "63 - (63 - n) = n" using n by auto
    then show ?thesis using assms(3) bit_dummy [of b "63 - n"] bit_dummy [of c "63 - n"] by simp
  qed
qed

lemma dummy_zero: "split_order_key_dummy 0 = 0"
  by (rule bit_word_eqI) (simp add: bit_dummy)

section \<open>Buckets as intervals of the split order\<close>

definition bucket_of :: "64 word \<Rightarrow> 64 word \<Rightarrow> 64 word" where
  "bucket_of order_key my_number_of_buckets = order_key mod my_number_of_buckets"

lemma unat_pow2: "k < 64 \<Longrightarrow> unat (2 ^ k :: 64 word) = 2 ^ k"
  using unat_push_one [of k] by (simp add: push_bit_eq_mult)

lemma bucket_of_take_bit: "k < 64 \<Longrightarrow> bucket_of h (2 ^ k) = take_bit k h"
  by (simp add: bucket_of_def take_bit_eq_mod)

lemma bucket_of_less: "k < 64 \<Longrightarrow> unat (bucket_of h (2 ^ k)) < 2 ^ k"
  by (simp add: bucket_of_def unat_mod unat_pow2)

lemma bit_regular: "bit (split_order_key_regular h) j \<longleftrightarrow> j = 0 \<or> (j < 64 \<and> bit h (63 - j))"
  by (auto simp: split_order_key_regular_def bit_or_iff bit_1_iff bit_ReverseBits)

lemma low_bucket_dummy:
  assumes "k < 64" "unat c < 2 ^ k"
  shows "unat (split_order_key_dummy c) = 2 ^ (64 - k) * (unat (split_order_key_dummy c) div 2 ^ (64 - k))"
proof -
  have "take_bit (64 - k) (split_order_key_dummy c) = 0"
  proof (rule bit_word_eqI)
    fix j
    have "\<not> bit c (63 - j)" if "j < 64 - k"
    proof -
      have "(2::nat) ^ k \<le> 2 ^ (63 - j)" using that by (intro power_increasing) auto
      with assms(2) have "unat c < 2 ^ (63 - j)" by (rule less_le_trans)
      then have "unat c div 2 ^ (63 - j) = 0" by simp
      then show ?thesis unfolding bit_unat [symmetric] by (simp add: bit_iff_odd)
    qed
    then show "bit (take_bit (64 - k) (split_order_key_dummy c)) j = bit 0 j"
      by (auto simp: bit_take_bit_iff bit_dummy)
  qed
  then have "take_bit (64 - k) (unat (split_order_key_dummy c)) = 0"
    by (metis unsigned_0 unsigned_take_bit_eq)
  then have "unat (split_order_key_dummy c) mod 2 ^ (64 - k) = 0" by (simp only: take_bit_eq_mod)
  then show ?thesis by auto
qed

lemma regular_top_bits:
  assumes "k < 64"
  shows "unat (split_order_key_regular h) div 2 ^ (64 - k)
    = unat (split_order_key_dummy (bucket_of h (2 ^ k))) div 2 ^ (64 - k)"
proof -
  have "drop_bit (64 - k) (split_order_key_regular h)
      = drop_bit (64 - k) (split_order_key_dummy (bucket_of h (2 ^ k)))"
  proof (rule bit_word_eqI)
    fix j
    have "63 - (64 - k + j) < k" if "64 - k + j < 64" using that assms by auto
    then show "bit (drop_bit (64 - k) (split_order_key_regular h)) j
        = bit (drop_bit (64 - k) (split_order_key_dummy (bucket_of h (2 ^ k)))) j"
      using assms by (auto simp: bit_drop_bit_eq bit_regular bit_dummy bucket_of_take_bit bit_take_bit_iff)
  qed
  then have "drop_bit (64 - k) (unat (split_order_key_regular h))
      = drop_bit (64 - k) (unat (split_order_key_dummy (bucket_of h (2 ^ k))))"
    by (metis unat_drop_bit_eq)
  then show ?thesis by (simp only: drop_bit_eq_div)
qed

lemma dummy_less_regular:
  assumes "k < 64"
  shows "split_order_key_dummy (bucket_of h (2 ^ k)) < split_order_key_regular h"
proof -
  let ?d = "split_order_key_dummy (bucket_of h (2 ^ k))" and ?r = "split_order_key_regular h"
  have "unat ?d \<le> unat ?r"
    using low_bucket_dummy [OF assms bucket_of_less [OF assms]] regular_top_bits [OF assms, of h]
    by (metis div_times_less_eq_dividend mult.commute)
  moreover have "?d \<noteq> ?r" using dummy_is_dummy regular_not_dummy by metis
  ultimately show ?thesis by (metis order_le_less word_le_nat_alt)
qed

lemma regular_less_next_dummy:
  assumes "k < 64" "unat c < 2 ^ k" "split_order_key_dummy (bucket_of h (2 ^ k)) < split_order_key_dummy c"
  shows "split_order_key_regular h < split_order_key_dummy c"
proof -
  let ?d = "split_order_key_dummy (bucket_of h (2 ^ k))" and ?m = "(2::nat) ^ (64 - k)"
  have "unat ?d < unat (split_order_key_dummy c)" using assms(3) by (simp only: word_less_nat_alt)
  then have "unat ?d div ?m < unat (split_order_key_dummy c) div ?m"
    using low_bucket_dummy [OF assms(1) bucket_of_less [OF assms(1)], of h] low_bucket_dummy [OF assms(1,2)]
    by (metis mult_less_cancel1)
  then have "unat (split_order_key_regular h) div ?m < unat (split_order_key_dummy c) div ?m"
    using regular_top_bits [OF assms(1), of h] by simp
  then have "unat (split_order_key_regular h) < unat (split_order_key_dummy c)"
    by (metis div_le_mono linorder_not_less)
  then show ?thesis by (simp only: word_less_nat_alt)
qed

section \<open>The number of buckets\<close>

text \<open>
  The constructor and \<^verbatim>\<open>rehash\<close> round the requested number up with \<^verbatim>\<open>1<<__TBB_Log2(n*2-1)\<close>. The
  literal \<^verbatim>\<open>1\<close> is an \<^verbatim>\<open>int\<close>, so the shift has a value in the language only below 31; \<open>None\<close> stands for
  the undefined ones.
\<close>

definition int_one_shl :: "int \<Rightarrow> 64 word option" where
  "int_one_shl s = (if 0 \<le> s \<and> s < 31 then Some (2 ^ nat s) else None)"

definition initial_bucket_count :: "64 word \<Rightarrow> 64 word option" where
  "initial_bucket_count n_of_buckets = (let n = if n_of_buckets = 0 then n_of_buckets + 1 else n_of_buckets in
     int_one_shl (Log2 (n * 2 - 1)))"

definition rehash_buckets :: "64 word \<Rightarrow> 64 word \<Rightarrow> 64 word option" where
  "rehash_buckets current_buckets buckets = (if buckets \<le> current_buckets then Some current_buckets
     else int_one_shl (Log2 (buckets * 2 - 1)))"

lemma unat_double_less_one:
  assumes "0 < unat n" "unat (n :: 64 word) < 2 ^ 63"
  shows "unat (n * 2 - 1) = unat n * 2 - 1"
proof -
  have u: "unat (n * 2) = unat n * 2" using assms by (simp add: unat_word_ariths)
  then have "1 \<le> n * 2" using assms by (simp add: word_le_nat_alt)
  then show ?thesis using u by (simp add: unat_sub_if_size word_le_nat_alt)
qed

lemma round_up:
  assumes "0 < unat n" "unat n \<le> 2 ^ 30"
  shows "\<exists>k. k \<le> 30 \<and> int_one_shl (Log2 (n * 2 - 1)) = Some (2 ^ k) \<and> unat n \<le> 2 ^ k \<and> 2 ^ k < 2 * unat n"
proof -
  let ?x = "n * 2 - 1"
  have u: "unat ?x = unat n * 2 - 1" by (rule unat_double_less_one) (use assms in simp_all)
  then have "?x \<noteq> 0" using assms by auto
  note b = Log2_bounds [OF this]
  let ?k = "nat (Log2 ?x)"
  have "2 ^ ?k < (2::nat) ^ 31" using b(2) u assms by simp
  then have k: "?k < 31" by (simp only: power_strict_increasing_iff)
  have "2 ^ ?k < 2 * unat n" using b(2) u assms(1) by linarith
  moreover have "unat n \<le> 2 ^ ?k" using b(3) u assms(1) unfolding power_Suc by linarith
  moreover have "int_one_shl (Log2 ?x) = Some (2 ^ ?k)" using k b(1) by (simp add: int_one_shl_def nat_less_iff)
  ultimately show ?thesis using k by (intro exI [of _ ?k]) simp
qed

lemma round_up_overflow:
  assumes "2 ^ 30 < unat n" "unat n < 2 ^ 63"
  shows "int_one_shl (Log2 (n * 2 - 1)) = None"
proof -
  let ?x = "n * 2 - 1"
  have u: "unat ?x = unat n * 2 - 1" by (rule unat_double_less_one) (use assms in simp_all)
  then have x: "?x \<noteq> 0" using assms by auto
  note b = Log2_bounds [OF x]
  have "2 ^ 31 < unat ?x + 1" using u assms by simp
  then have "(2::nat) ^ 31 < 2 ^ Suc (nat (Log2 ?x)) + 1" using b(3) by linarith
  then have "(2::nat) ^ 31 \<le> 2 ^ Suc (nat (Log2 ?x))" by simp
  then have "31 \<le> Suc (nat (Log2 ?x))" by (simp only: power_increasing_iff)
  moreover have "nat (Log2 ?x) \<noteq> 30"
  proof
    assume "nat (Log2 ?x) = 30"
    then have "unat ?x < 2 ^ 31" using b(3) by simp
    then show False using u assms by simp
  qed
  ultimately have "31 \<le> nat (Log2 ?x)" by linarith
  then have "31 \<le> Log2 ?x" by linarith
  then show ?thesis by (simp add: int_one_shl_def)
qed

section \<open>Properties\<close>

text \<open>C20: The segment table loses no bucket and shares no slot: a segment and an offset are those
  computed for a bucket exactly when the segment is one of the 64, the offset is inside it, and the
  bucket is the segment's base plus the offset.\<close>

theorem bucket_segments_roundtrip:
  "locate_bucket w = (k, i) \<longleftrightarrow>
    k < 64 \<and> i < unat (segment_size k) \<and> w = segment_base k + word_of_nat i"
proof
  assume l: "locate_bucket w = (k, i)"
  note p = locate_bucket_props [OF l]
  have "locate_bucket (segment_base k + word_of_nat i) = locate_bucket w"
    using locate_bucket_inverse [OF p(1,2)] l by simp
  then show "k < 64 \<and> i < unat (segment_size k) \<and> w = segment_base k + word_of_nat i"
    using p(1,2) locate_bucket_inj by metis
next
  assume "k < 64 \<and> i < unat (segment_size k) \<and> w = segment_base k + word_of_nat i"
  then show "locate_bucket w = (k, i)" using locate_bucket_inverse by simp
qed

text \<open>C17: With \<^verbatim>\<open>2^k\<close> buckets, the order key of an element lies after the dummy of its bucket and
  before the dummy of every later bucket, so walking from the bucket's dummy meets it before the next
  bucket starts; reversing the bits of a key twice gives the key back; and the dummy of the parent
  bucket, from which a new bucket is linked, has a smaller number and a smaller key.\<close>

theorem split_order_buckets:
  assumes "k < 64" "b = bucket_of h (2 ^ k)" "unat c < 2 ^ k"
  shows "ReverseBits (ReverseBits h) = h \<and>
    split_order_key_dummy b < split_order_key_regular h \<and>
    (split_order_key_dummy c \<le> split_order_key_dummy b \<or>
      split_order_key_regular h < split_order_key_dummy c) \<and>
    (c = 0 \<or> get_parent c < c \<and> split_order_key_dummy (get_parent c) < split_order_key_dummy c)"
proof -
  have "split_order_key_dummy b < split_order_key_regular h"
    unfolding assms(2) by (rule dummy_less_regular [OF assms(1)])
  moreover have "split_order_key_dummy c \<le> split_order_key_dummy b \<or>
      split_order_key_regular h < split_order_key_dummy c"
    using regular_less_next_dummy [OF assms(1,3), of h] assms(2) by (metis linorder_not_less)
  moreover have "(2::nat) ^ k \<le> 2 ^ 63" using assms(1) by (intro power_increasing) auto
  with assms(3) have "unat c < 2 ^ 63" by linarith
  then have "c = 0 \<or> get_parent c < c \<and> split_order_key_dummy (get_parent c) < split_order_key_dummy c"
    using get_parent_less dummy_parent_less by blast
  ultimately show ?thesis using ReverseBits_twice by blast
qed

theorem split_order_buckets_witness:
  "ReverseBits (ReverseBits 13) = 13 \<and>
    split_order_key_dummy (bucket_of 13 (2 ^ 3)) < split_order_key_regular 13 \<and>
    (split_order_key_dummy 6 \<le> split_order_key_dummy (bucket_of 13 (2 ^ 3)) \<or>
      split_order_key_regular 13 < split_order_key_dummy 6) \<and>
    (6 = (0 :: 64 word) \<or> get_parent 6 < 6 \<and> split_order_key_dummy (get_parent 6) < split_order_key_dummy 6)"
  using split_order_buckets [of 3 "bucket_of 13 (2 ^ 3)" 13 6] by simp

text \<open>The constructor rounds a requested number of buckets up to the next power of two, at most
  doubling it, as long as the request is at most \<^verbatim>\<open>2^30\<close>; a larger request shifts the \<^verbatim>\<open>int\<close> literal out
  of its range, and \<^verbatim>\<open>rehash\<close> has the same limit.\<close>

theorem bucket_count_rounding:
  assumes "0 < unat n" "unat n < 2 ^ 63"
  shows "(\<exists>k. k \<le> 30 \<and> initial_bucket_count n = Some (2 ^ k) \<and> unat n \<le> 2 ^ k \<and> 2 ^ k < 2 * unat n) \<or>
    (2 ^ 30 < unat n \<and> initial_bucket_count n = None \<and> (n \<le> cur \<or> rehash_buckets cur n = None))"
proof -
  have "n \<noteq> 0" using assms(1) by auto
  then have "initial_bucket_count n = int_one_shl (Log2 (n * 2 - 1))"
    by (simp add: initial_bucket_count_def)
  moreover have "n \<le> cur \<or> rehash_buckets cur n = int_one_shl (Log2 (n * 2 - 1))"
    by (simp add: rehash_buckets_def)
  ultimately show ?thesis using round_up [OF assms(1)] round_up_overflow [OF _ assms(2)]
    by (cases "unat n \<le> 2 ^ 30") (simp, simp add: not_le)
qed

theorem bucket_count_rounding_witness:
  "(\<exists>k. k \<le> 30 \<and> initial_bucket_count 100 = Some (2 ^ k) \<and> unat (100 :: 64 word) \<le> 2 ^ k \<and>
      2 ^ k < 2 * unat (100 :: 64 word)) \<or>
    (2 ^ 30 < unat (100 :: 64 word) \<and> initial_bucket_count 100 = None \<and>
      ((100 :: 64 word) \<le> 8 \<or> rehash_buckets 8 100 = None))"
  using bucket_count_rounding [of 100 8] by simp

end
