(* ===== verification/Unordered_Table.thy ===== *)
theory Unordered_Table
  imports Split_Order
begin

text \<open>
  \<^verbatim>\<open>include/tbb/internal/_concurrent_unordered_impl.h\<close>: the split-ordered list, the bucket table over it
  and the operations of \<^verbatim>\<open>concurrent_unordered_base\<close> that several threads may run at once, each shared
  access a step of its thread. The theory then states the invariant of the table, the relation
  \<^verbatim>\<open>extends\<close> between a table and a later one, and shows that linking a node, storing a bucket and
  doubling the table keep the one and give the other.

  Nodes are numbers: \<^verbatim>\<open>allocated\<close> is the next address the allocator returns, and a node that was created
  for an insertion that then failed is never published, so giving it back leaves the table as it was.
  The hash function, the key of a value, \<^verbatim>\<open>allow_multimapping\<close> and the comparison of the load with
  \<^verbatim>\<open>my_maximum_bucket_size\<close> (a quotient of two \<^verbatim>\<open>float\<close> values) are the fields of \<^verbatim>\<open>traits\<close>; keys are
  compared by equality.
\<close>

section \<open>The list, the bucket table and the traits\<close>

record 'v so_node =
  my_next :: "nat option"
  my_element :: "'v option"
  my_order_key :: "64 word"

record 'v unordered =
  nodes :: "nat \<Rightarrow> 'v so_node"
  allocated :: nat
  my_buckets :: "nat \<Rightarrow> nat option list option"
  my_number_of_buckets :: "64 word"
  my_element_count :: "64 word"

record ('k, 'v) traits =
  hash_of :: "'k \<Rightarrow> 64 word"
  get_key :: "'v \<Rightarrow> 'k"
  allow_multimapping :: bool
  over_full :: "64 word \<Rightarrow> 64 word \<Rightarrow> bool"

definition node_init :: "64 word \<Rightarrow> 'v option \<Rightarrow> 'v so_node" where
  "node_init order_key v = \<lparr>my_next = None, my_element = v, my_order_key = order_key\<rparr>"

definition succ_of :: "'v unordered \<Rightarrow> nat \<Rightarrow> nat option" where
  "succ_of T p = my_next (nodes T p)"

definition order_key :: "'v unordered \<Rightarrow> nat \<Rightarrow> 64 word" where
  "order_key T p = my_order_key (nodes T p)"

definition key_at :: "('k, 'v) traits \<Rightarrow> 'v unordered \<Rightarrow> nat \<Rightarrow> 'k option" where
  "key_at C T p = map_option (get_key C) (my_element (nodes T p))"

definition regular_key :: "('k, 'v) traits \<Rightarrow> 'k \<Rightarrow> 64 word" where
  "regular_key C k = split_order_key_regular (hash_of C k)"

definition create_node :: "64 word \<Rightarrow> 'v option \<Rightarrow> 'v unordered \<Rightarrow> 'v unordered \<times> nat" where
  "create_node ok v T =
    (T\<lparr>nodes := (nodes T)(allocated T := node_init ok v), allocated := allocated T + 1\<rparr>, allocated T)"

definition set_next :: "nat \<Rightarrow> nat option \<Rightarrow> 'v unordered \<Rightarrow> 'v unordered" where
  "set_next p q T = T\<lparr>nodes := (nodes T)(p := (nodes T p)\<lparr>my_next := q\<rparr>)\<rparr>"

definition atomic_set_next :: "nat \<Rightarrow> nat \<Rightarrow> nat option \<Rightarrow> 'v unordered \<Rightarrow> ('v unordered \<times> nat option)" where
  "atomic_set_next p new_node current_node T =
    (let exchange_node = succ_of T p in
     if exchange_node = current_node then (set_next p (Some new_node) T, Some new_node) else (T, exchange_node))"

definition try_link :: "nat \<Rightarrow> nat \<Rightarrow> nat option \<Rightarrow> 'v unordered \<Rightarrow> ('v unordered \<times> nat option)" where
  "try_link previous new_node current_node T = atomic_set_next previous new_node current_node
     (set_next new_node current_node T)"

definition try_insert :: "nat \<Rightarrow> nat option \<Rightarrow> 64 word \<Rightarrow> 'v option \<Rightarrow> 'v unordered \<Rightarrow> ('v unordered \<times> nat) option" where
  "try_insert it nxt ok v T =
    (let (T1, pnode) = create_node ok v T; (T2, inserted_node) = try_link it pnode nxt T1 in
     if inserted_node = Some pnode then Some (T2, pnode) else None)"

section \<open>Buckets\<close>

definition get_bucket :: "'v unordered \<Rightarrow> 64 word \<Rightarrow> nat option" where
  "get_bucket T bucket = (let (segment, i) = locate_bucket bucket in
     case my_buckets T segment of None \<Rightarrow> None | Some sg \<Rightarrow> sg ! i)"

definition is_initialized :: "'v unordered \<Rightarrow> 64 word \<Rightarrow> bool" where
  "is_initialized T bucket = (let (segment, i) = locate_bucket bucket in
     case my_buckets T segment of None \<Rightarrow> False | Some sg \<Rightarrow> sg ! i \<noteq> None)"

definition alloc_segment :: "64 word \<Rightarrow> 'v unordered \<Rightarrow> 'v unordered" where
  "alloc_segment bucket T = (let segment = segment_index_of bucket in
     case my_buckets T segment of
       None \<Rightarrow> T\<lparr>my_buckets := (my_buckets T)(segment \<mapsto> replicate (unat (segment_size segment)) None)\<rparr>
     | Some sg \<Rightarrow> T)"

definition store_bucket :: "64 word \<Rightarrow> nat \<Rightarrow> 'v unordered \<Rightarrow> 'v unordered" where
  "store_bucket bucket dummy_head T = (let (segment, i) = locate_bucket bucket in
     case my_buckets T segment of
       None \<Rightarrow> T
     | Some sg \<Rightarrow> T\<lparr>my_buckets := (my_buckets T)(segment \<mapsto> sg[i := Some dummy_head])\<rparr>)"

definition set_bucket :: "64 word \<Rightarrow> nat \<Rightarrow> 'v unordered \<Rightarrow> 'v unordered" where
  "set_bucket bucket dummy_head T = store_bucket bucket dummy_head (alloc_segment bucket T)"

definition adjust_table_size :: "('k, 'v) traits \<Rightarrow> 64 word \<Rightarrow> 64 word \<Rightarrow> 'v unordered \<Rightarrow> 'v unordered" where
  "adjust_table_size C total_elements current_size T =
    (if over_full C total_elements current_size \<and> my_number_of_buckets T = current_size
     then T\<lparr>my_number_of_buckets := 2 * current_size\<rparr> else T)"

text \<open>The constructor: the list holds its head, a dummy with order key 0, and bucket 0 refers to it.\<close>

definition empty_list :: "64 word \<Rightarrow> 'v unordered" where
  "empty_list n = \<lparr>nodes = (\<lambda>_. node_init 0 None), allocated = 1, my_buckets = (\<lambda>_. None),
     my_number_of_buckets = n, my_element_count = 0\<rparr>"

definition new_table :: "64 word \<Rightarrow> 'v unordered option" where
  "new_table n_of_buckets = (case initial_bucket_count n_of_buckets of
     None \<Rightarrow> None
   | Some n \<Rightarrow> Some (set_bucket 0 0 (empty_list n)))"

section \<open>A thread inside an operation\<close>

text \<open>
  A thread runs one request. A list of buckets stands for the pending calls of \<^verbatim>\<open>init_bucket\<close>: its head is
  the bucket looked at, the rest are the children waiting for it, the last one the bucket of the key.
  \<^verbatim>\<open>D_\<dots>\<close> are the points inside \<^verbatim>\<open>insert_dummy\<close> and \<^verbatim>\<open>set_bucket\<close>, \<^verbatim>\<open>I_\<dots>\<close> inside
  \<^verbatim>\<open>internal_insert\<close>, \<^verbatim>\<open>F_\<dots>\<close> inside \<^verbatim>\<open>internal_find\<close> and \<^verbatim>\<open>R_\<dots>\<close> inside \<^verbatim>\<open>internal_equal_range\<close>.
  \<^verbatim>\<open>Crashed\<close> is the division by a bucket number of 0.
\<close>

datatype ('k, 'v) u_request = Insert_value 'v | Find_key 'k | Range_key 'k

datatype u_pc = Start
  | Ensure "64 word list"
  | Enter "64 word list"
  | D_next nat "64 word list"
  | D_test nat "nat option" "64 word list"
  | D_alloc nat "64 word list"
  | D_store nat "64 word list"
  | I_next nat
  | I_test nat "nat option"
  | I_count nat
  | I_size nat "64 word"
  | I_grow nat "64 word" "64 word"
  | F_test "nat option"
  | F_next nat
  | R_test "nat option"
  | R_next nat
  | R_last nat nat
  | R_skip nat "nat option"
  | Inserted nat bool
  | Found "nat option"
  | Ranged "nat option" "nat option"
  | Crashed

fun request_key :: "('k, 'v) traits \<Rightarrow> ('k, 'v) u_request \<Rightarrow> 'k" where
  "request_key C (Insert_value v) = get_key C v"
| "request_key C (Find_key k) = k"
| "request_key C (Range_key k) = k"

fun search_from :: "('k, 'v) u_request \<Rightarrow> nat \<Rightarrow> u_pc" where
  "search_from (Insert_value v) p = I_next p"
| "search_from (Find_key k) p = F_test (Some p)"
| "search_from (Range_key k) p = R_test (Some p)"

definition dummy_step :: "nat \<Rightarrow> nat option \<Rightarrow> 64 word list \<Rightarrow> 'v unordered \<Rightarrow> 'v unordered \<times> u_pc" where
  "dummy_step it whr bs T = (let ok = split_order_key_dummy (hd bs) in
     case whr of
       None \<Rightarrow> (case try_insert it None ok None T of
           Some (T', dummy_node) \<Rightarrow> (T', D_alloc dummy_node bs) | None \<Rightarrow> (T, D_next it bs))
     | Some w \<Rightarrow>
         if order_key T w > ok then (case try_insert it (Some w) ok None T of
           Some (T', dummy_node) \<Rightarrow> (T', D_alloc dummy_node bs) | None \<Rightarrow> (T, D_next it bs))
         else if order_key T w = ok then (T, D_alloc w bs)
         else (T, D_next w bs))"

definition insert_step :: "('k, 'v) traits \<Rightarrow> 'v \<Rightarrow> nat \<Rightarrow> nat option \<Rightarrow> 'v unordered \<Rightarrow> 'v unordered \<times> u_pc" where
  "insert_step C v it whr T = (let ok = regular_key C (get_key C v) in
     case whr of
       None \<Rightarrow> (case try_insert it None ok (Some v) T of
           Some (T', pnode) \<Rightarrow> (T', I_count pnode) | None \<Rightarrow> (T, I_next it))
     | Some w \<Rightarrow>
         if order_key T w > ok then (case try_insert it (Some w) ok (Some v) T of
           Some (T', pnode) \<Rightarrow> (T', I_count pnode) | None \<Rightarrow> (T, I_next it))
         else if \<not> allow_multimapping C \<and> order_key T w = ok \<and> key_at C T w = Some (get_key C v)
         then (T, Inserted w False)
         else (T, I_next w))"

definition find_step :: "('k, 'v) traits \<Rightarrow> 'k \<Rightarrow> nat option \<Rightarrow> 'v unordered \<Rightarrow> u_pc" where
  "find_step C k it T = (let ok = regular_key C k in
     case it of
       None \<Rightarrow> Found None
     | Some p \<Rightarrow>
         if order_key T p > ok then Found None
         else if order_key T p = ok \<and> key_at C T p = Some k then Found (Some p)
         else F_next p)"

definition range_step :: "('k, 'v) traits \<Rightarrow> 'k \<Rightarrow> nat option \<Rightarrow> 'v unordered \<Rightarrow> u_pc" where
  "range_step C k it T = (let ok = regular_key C k in
     case it of
       None \<Rightarrow> Ranged None None
     | Some p \<Rightarrow>
         if order_key T p > ok then Ranged None None
         else if order_key T p = ok \<and> key_at C T p = Some k then R_last p p
         else R_next p)"

definition last_step :: "('k, 'v) traits \<Rightarrow> 'k \<Rightarrow> nat \<Rightarrow> nat option \<Rightarrow> 'v unordered \<Rightarrow> u_pc" where
  "last_step C k first it T = (case it of
     None \<Rightarrow> Ranged (Some first) None
   | Some q \<Rightarrow>
       if is_dummy_key (order_key T q) then R_last first q
       else if allow_multimapping C \<and> key_at C T q = Some k then R_last first q
       else Ranged (Some first) (Some q))"

fun thread_step :: "('k, 'v) traits \<Rightarrow> ('k, 'v) u_request \<Rightarrow> 'v unordered \<Rightarrow> u_pc \<Rightarrow> 'v unordered \<times> u_pc" where
  "thread_step C r T Start =
     (T, if my_number_of_buckets T = 0 then Crashed
         else Ensure [bucket_of (hash_of C (request_key C r)) (my_number_of_buckets T)])"
| "thread_step C r T (Ensure bs) =
     (T, if is_initialized T (hd bs) then Enter bs else Ensure (get_parent (hd bs) # bs))"
| "thread_step C r T (Enter bs) =
     (T, case get_bucket T (hd bs) of
           None \<Rightarrow> Crashed
         | Some p \<Rightarrow> if tl bs = [] then search_from r p else D_next p (tl bs))"
| "thread_step C r T (D_next it bs) = (T, D_test it (succ_of T it) bs)"
| "thread_step C r T (D_test it whr bs) = dummy_step it whr bs T"
| "thread_step C r T (D_alloc p bs) = (alloc_segment (hd bs) T, D_store p bs)"
| "thread_step C r T (D_store p bs) = (store_bucket (hd bs) p T, Enter bs)"
| "thread_step C r T (I_next it) = (T, I_test it (succ_of T it))"
| "thread_step C r T (I_test it whr) =
     (case r of Insert_value v \<Rightarrow> insert_step C v it whr T | _ \<Rightarrow> (T, I_test it whr))"
| "thread_step C r T (I_count p) =
     (T\<lparr>my_element_count := my_element_count T + 1\<rparr>, I_size p (my_element_count T))"
| "thread_step C r T (I_size p n) = (T, I_grow p n (my_number_of_buckets T))"
| "thread_step C r T (I_grow p n current_size) = (adjust_table_size C n current_size T, Inserted p True)"
| "thread_step C r T (F_test it) =
     (case r of Find_key k \<Rightarrow> (T, find_step C k it T) | _ \<Rightarrow> (T, F_test it))"
| "thread_step C r T (F_next p) = (T, F_test (succ_of T p))"
| "thread_step C r T (Inserted p b) = (T, Inserted p b)"
| "thread_step C r T (Found p) = (T, Found p)"
| "thread_step C r T (R_test it) =
     (case r of Range_key k \<Rightarrow> (T, range_step C k it T) | _ \<Rightarrow> (T, R_test it))"
| "thread_step C r T (R_next p) = (T, R_test (succ_of T p))"
| "thread_step C r T (R_last p q) = (T, R_skip p (succ_of T q))"
| "thread_step C r T (R_skip p it) =
     (case r of Range_key k \<Rightarrow> (T, last_step C k p it T) | _ \<Rightarrow> (T, R_skip p it))"
| "thread_step C r T (Ranged p q) = (T, Ranged p q)"
| "thread_step C r T Crashed = (T, Crashed)"

record ('k, 'v) u_system =
  table :: "'v unordered"
  threads :: "(('k, 'v) u_request \<times> u_pc) list"

definition u_move :: "('k, 'v) traits \<Rightarrow> nat \<Rightarrow> ('k, 'v) u_system \<Rightarrow> ('k, 'v) u_system" where
  "u_move C i s = (if i < length (threads s) then
     let r = fst (threads s ! i); (T, pc) = thread_step C r (table s) (snd (threads s ! i)) in
       \<lparr>table = T, threads = (threads s)[i := (r, pc)]\<rparr>
     else s)"

definition u_run :: "('k, 'v) traits \<Rightarrow> nat list \<Rightarrow> ('k, 'v) u_system \<Rightarrow> ('k, 'v) u_system" where
  "u_run C schedule s = fold (u_move C) schedule s"

section \<open>The invariant of the table\<close>

definition preceding :: "nat list \<Rightarrow> nat \<Rightarrow> nat set" where
  "preceding ps p = set (takeWhile (\<lambda>q. q \<noteq> p) ps)"

definition node_ok :: "('k, 'v) traits \<Rightarrow> 'v so_node \<Rightarrow> bool" where
  "node_ok C n \<longleftrightarrow> (case my_element n of
     None \<Rightarrow> \<exists>b. unat b < 2 ^ 63 \<and> my_order_key n = split_order_key_dummy b
   | Some v \<Rightarrow> my_order_key n = regular_key C (get_key C v))"

definition list_inv :: "('k, 'v) traits \<Rightarrow> 'v unordered \<Rightarrow> nat list \<Rightarrow> bool" where
  "list_inv C T ps \<longleftrightarrow> chain (succ_of T) (Some 0) ps \<and> distinct ps \<and>
     (\<forall>p\<in>set ps. p < allocated T \<and> node_ok C (nodes T p)) \<and>
     sorted (map (order_key T) ps) \<and> order_key T 0 = 0"

definition unique_inv :: "('k, 'v) traits \<Rightarrow> 'v unordered \<Rightarrow> nat list \<Rightarrow> bool" where
  "unique_inv C T ps \<longleftrightarrow> (\<forall>p\<in>set ps. \<forall>q\<in>set ps. order_key T p = order_key T q \<longrightarrow>
     (my_element (nodes T p) = None \<longrightarrow> p = q) \<and>
     (\<not> allow_multimapping C \<longrightarrow> key_at C T p = key_at C T q \<longrightarrow> p = q))"

definition buckets_inv :: "'v unordered \<Rightarrow> nat list \<Rightarrow> bool" where
  "buckets_inv T ps \<longleftrightarrow>
     (\<forall>k sg. my_buckets T k = Some sg \<longrightarrow> length sg = unat (segment_size k)) \<and>
     (\<forall>b p. get_bucket T b = Some p \<longrightarrow> p \<in> set ps \<and> order_key T p = split_order_key_dummy b) \<and>
     get_bucket T 0 = Some 0"

definition size_inv :: "'v unordered \<Rightarrow> bool" where
  "size_inv T \<longleftrightarrow> my_number_of_buckets T = 0 \<or> (\<exists>k < 64. my_number_of_buckets T = 2 ^ k)"

definition solist_inv :: "('k, 'v) traits \<Rightarrow> 'v unordered \<Rightarrow> nat list \<Rightarrow> bool" where
  "solist_inv C T ps \<longleftrightarrow> list_inv C T ps \<and> unique_inv C T ps \<and> buckets_inv T ps \<and> size_inv T"

lemma solist_invD:
  assumes "solist_inv C T ps"
  shows "list_inv C T ps" "unique_inv C T ps" "buckets_inv T ps" "size_inv T"
  using assms by (simp_all add: solist_inv_def)

lemma list_invD:
  assumes "list_inv C T ps"
  shows "chain (succ_of T) (Some 0) ps" "distinct ps" "p \<in> set ps \<Longrightarrow> p < allocated T"
    "p \<in> set ps \<Longrightarrow> node_ok C (nodes T p)" "sorted (map (order_key T) ps)" "order_key T 0 = 0"
  using assms by (simp_all add: list_inv_def)

text \<open>A later table: nodes keep their keys and elements, and a node that was linked in front of an old
  one has a smaller order key.\<close>

definition extends :: "'v unordered \<Rightarrow> nat list \<Rightarrow> 'v unordered \<Rightarrow> nat list \<Rightarrow> bool" where
  "extends T ps T' ps' \<longleftrightarrow> set ps \<subseteq> set ps' \<and>
     (\<forall>p\<in>set ps. order_key T' p = order_key T p \<and> my_element (nodes T' p) = my_element (nodes T p)) \<and>
     (\<forall>p\<in>set ps. \<forall>q\<in>preceding ps' p. q \<in> preceding ps p \<or> order_key T' q < order_key T' p) \<and>
     (\<forall>b. get_bucket T b \<noteq> None \<longrightarrow> get_bucket T' b \<noteq> None) \<and>
     (\<forall>k. my_buckets T k \<noteq> None \<longrightarrow> my_buckets T' k \<noteq> None) \<and>
     (my_number_of_buckets T = 0 \<longrightarrow> my_number_of_buckets T' = 0)"

lemma extendsD:
  assumes "extends T ps T' ps'"
  shows "p \<in> set ps \<Longrightarrow> p \<in> set ps'"
    "p \<in> set ps \<Longrightarrow> order_key T' p = order_key T p"
    "p \<in> set ps \<Longrightarrow> my_element (nodes T' p) = my_element (nodes T p)"
    "p \<in> set ps \<Longrightarrow> q \<in> preceding ps' p \<Longrightarrow> q \<in> preceding ps p \<or> order_key T' q < order_key T' p"
    "get_bucket T b \<noteq> None \<Longrightarrow> get_bucket T' b \<noteq> None"
    "my_buckets T k \<noteq> None \<Longrightarrow> my_buckets T' k \<noteq> None"
    "my_number_of_buckets T = 0 \<Longrightarrow> my_number_of_buckets T' = 0"
  using assms unfolding extends_def by blast+

lemma key_at_extends:
  assumes "extends T ps T' ps'" "p \<in> set ps"
  shows "key_at C T' p = key_at C T p"
  using extendsD(3) [OF assms] by (simp add: key_at_def)

lemma key_at_regular:
  assumes "list_inv C T ps" "p \<in> set ps" "key_at C T p = Some k"
  shows "order_key T p = regular_key C k"
  using list_invD(4) [OF assms(1,2)] assms(3)
  by (auto simp: node_ok_def key_at_def order_key_def split: option.splits)

lemma preceding_subset: "preceding ps p \<subseteq> set ps"
  using set_takeWhileD by (fastforce simp: preceding_def)

lemma split_at:
  assumes "p \<in> set ps" "distinct ps"
  obtains us xs where "ps = us @ p # xs" "preceding ps p = set us" "p \<notin> set us" "p \<notin> set xs"
proof -
  obtain us xs where p: "ps = us @ p # xs" using assms(1) by (meson split_list)
  then have "p \<notin> set us" "p \<notin> set xs" using assms(2) by auto
  moreover have "takeWhile (\<lambda>q. q \<noteq> p) ps = us" unfolding p using \<open>p \<notin> set us\<close> by (induction us) auto
  ultimately show ?thesis using that p by (simp add: preceding_def)
qed

lemma chain_middle: "chain nx q (us @ p # xs) \<Longrightarrow> chain nx (nx p) xs"
  by (induction us arbitrary: q) auto

lemma next_splits:
  assumes "list_inv C T (us @ p # xs)"
  shows "succ_of T p = (case xs of [] \<Rightarrow> None | w # ws \<Rightarrow> Some w)"
  using chain_middle [OF list_invD(1) [OF assms]] by (cases xs) auto

section \<open>The invariant of a thread\<close>

text \<open>\<^verbatim>\<open>ahead\<close>: no node with the key lies in front of \<^verbatim>\<open>p\<close>, unless \<^verbatim>\<open>p\<close> is already beyond it.\<close>

definition ahead :: "('k, 'v) traits \<Rightarrow> 'v unordered \<Rightarrow> nat list \<Rightarrow> 'k \<Rightarrow> nat \<Rightarrow> bool" where
  "ahead C T ps k p \<longleftrightarrow> p \<in> set ps \<and>
     (order_key T p \<le> regular_key C k \<longrightarrow> (\<forall>q\<in>preceding ps p. key_at C T q \<noteq> Some k))"

definition passed :: "('k, 'v) traits \<Rightarrow> 'v unordered \<Rightarrow> nat list \<Rightarrow> 'k \<Rightarrow> nat \<Rightarrow> bool" where
  "passed C T ps k p \<longleftrightarrow> ahead C T ps k p \<and> order_key T p \<le> regular_key C k \<and> key_at C T p \<noteq> Some k"

lemma ahead_extends:
  assumes "list_inv C T' ps'" "extends T ps T' ps'" "ahead C T ps k p"
  shows "ahead C T' ps' k p"
proof -
  note e = extendsD [OF assms(2)]
  have p: "p \<in> set ps" using assms(3) by (simp add: ahead_def)
  have "key_at C T' q \<noteq> Some k" if q: "q \<in> preceding ps' p" and ok: "order_key T' p \<le> regular_key C k" for q
  proof (cases "q \<in> preceding ps p")
    case True
    then have "key_at C T q \<noteq> Some k" using assms(3) ok e(2) [OF p] by (simp add: ahead_def)
    moreover have "q \<in> set ps" using preceding_subset [of ps p] True by auto
    ultimately show ?thesis using key_at_extends [OF assms(2), of q C] by simp
  next
    case False
    then have "order_key T' q < regular_key C k" using e(4) [OF p q] ok by auto
    then show ?thesis using key_at_regular [OF assms(1)] preceding_subset [of ps' p] q by fastforce
  qed
  then show ?thesis using e(1) [OF p] by (simp add: ahead_def)
qed

lemma passed_extends:
  assumes "list_inv C T' ps'" "extends T ps T' ps'" "passed C T ps k p"
  shows "passed C T' ps' k p"
proof -
  have "p \<in> set ps" using assms(3) by (simp add: passed_def ahead_def)
  then show ?thesis using assms(3) ahead_extends [OF assms(1,2), of k p] extendsD(2) [OF assms(2)] key_at_extends [OF assms(2), of p C]
    by (simp add: passed_def)
qed

text \<open>Reading the next pointer of a node that was passed.\<close>

lemma passed_next:
  assumes l: "list_inv C T ps" and p: "passed C T ps k p" and n: "succ_of T p = Some w"
  shows "ahead C T ps k w"
proof -
  have "p \<in> set ps" using p by (simp add: passed_def ahead_def)
  obtain us xs where s: "ps = us @ p # xs" "preceding ps p = set us" "p \<notin> set us" "p \<notin> set xs"
    by (rule split_at [OF \<open>p \<in> set ps\<close> list_invD(2) [OF l]])
  then obtain ws where ws: "xs = w # ws" using next_splits [of C T us p xs] l n by (cases xs) auto
  have d: "distinct ps" by (rule list_invD(2) [OF l])
  have "takeWhile (\<lambda>q. q \<noteq> w) ps = us @ [p]"
    using d unfolding s(1) ws by (auto simp: takeWhile_append)
  then have pr: "preceding ps w = insert p (set us)" by (simp add: preceding_def)
  have "key_at C T q \<noteq> Some k" if "q \<in> preceding ps w" for q
    using that p s(2) unfolding pr by (auto simp: passed_def ahead_def)
  then show ?thesis by (simp add: ahead_def s(1) ws)
qed

lemma ahead_advance:
  assumes "ahead C T ps k w" "order_key T w \<le> regular_key C k" "key_at C T w \<noteq> Some k"
  shows "passed C T ps k w"
  using assms by (simp add: passed_def)

text \<open>When the key is in the list, a search that has not met it yet has not run past it.\<close>

definition present :: "('k, 'v) traits \<Rightarrow> 'v unordered \<Rightarrow> nat list \<Rightarrow> 'k \<Rightarrow> bool" where
  "present C T ps k \<longleftrightarrow> (\<exists>q\<in>set ps. key_at C T q = Some k)"

lemma present_extends: "extends T ps T' ps' \<Longrightarrow> present C T ps k \<Longrightarrow> present C T' ps' k"
  using extendsD(1) key_at_extends unfolding present_def by metis

lemma sorted_splits:
  assumes "list_inv C T (us @ p # xs)"
  shows "q \<in> set us \<Longrightarrow> order_key T q \<le> order_key T p" "q \<in> set xs \<Longrightarrow> order_key T p \<le> order_key T q"
  using list_invD(5) [OF assms] by (auto simp: sorted_append)

lemma passed_has_next:
  assumes l: "list_inv C T ps" and p: "passed C T ps k p" and pr: "present C T ps k"
  obtains w where "succ_of T p = Some w" "order_key T w \<le> regular_key C k"
proof -
  have "p \<in> set ps" using p by (simp add: passed_def ahead_def)
  obtain us xs where s: "ps = us @ p # xs" "preceding ps p = set us" "p \<notin> set us" "p \<notin> set xs"
    by (rule split_at [OF \<open>p \<in> set ps\<close> list_invD(2) [OF l]])
  obtain q where q: "q \<in> set ps" "key_at C T q = Some k" using pr by (auto simp: present_def)
  then have "q \<in> set xs" using p s(1,2) by (auto simp: passed_def ahead_def)
  then obtain w ws where w: "xs = w # ws" by (cases xs) auto
  have "succ_of T p = Some w" using next_splits [of C T us p xs] l s(1) w by simp
  moreover have "order_key T w \<le> order_key T q"
    using \<open>q \<in> set xs\<close> sorted_splits(2) [of C T "us @ [p]" w ws q] l unfolding s(1) w by auto
  moreover have "order_key T q = regular_key C k" by (rule key_at_regular [OF l q])
  ultimately show ?thesis using that by simp
qed

section \<open>Linking a node\<close>

definition linked :: "'v unordered \<Rightarrow> nat \<Rightarrow> nat option \<Rightarrow> 64 word \<Rightarrow> 'v option \<Rightarrow> 'v unordered" where
  "linked T it whr ok v = T\<lparr>nodes := (nodes T)(allocated T := \<lparr>my_next = whr, my_element = v, my_order_key = ok\<rparr>,
        it := (nodes T it)\<lparr>my_next := Some (allocated T)\<rparr>), allocated := allocated T + 1\<rparr>"

lemma try_insert_cases:
  assumes "it < allocated T" "succ_of T it \<noteq> Some (allocated T)"
  shows "try_insert it whr ok v T =
    (if succ_of T it = whr then Some (linked T it whr ok v, allocated T) else None)"
  using assms
  by (auto simp: try_insert_def create_node_def try_link_def atomic_set_next_def set_next_def node_init_def
      succ_of_def Let_def fun_upd_twist linked_def)

lemma chain_link:
  assumes "chain nx q (us @ p # xs)" "distinct (us @ p # xs)" "n \<notin> set (us @ p # xs)"
  shows "chain (nx(n := nx p, p := Some n)) q (us @ p # n # xs)"
  using assms
proof (induction us arbitrary: q)
  case (Cons u us)
  then have "p \<noteq> u" "n \<noteq> u" by auto
  then have "(nx(n := nx p, p := Some n)) u = nx u" by simp
  moreover have "chain (nx(n := nx p, p := Some n)) (nx u) (us @ p # n # xs)"
    by (rule Cons.IH) (use Cons.prems in auto)
  ultimately show ?case using Cons.prems(1) by (simp del: fun_upd_apply)
qed auto

lemma node_ok_cong:
  "my_element m = my_element n \<Longrightarrow> my_order_key m = my_order_key n \<Longrightarrow> node_ok C m = node_ok C n"
  by (auto simp: node_ok_def split: option.splits)

lemma linked_same:
  assumes "q \<noteq> allocated T"
  shows "order_key (linked T it whr ok v) q = order_key T q"
    "my_element (nodes (linked T it whr ok v) q) = my_element (nodes T q)"
    "key_at C (linked T it whr ok v) q = key_at C T q"
    "node_ok C (nodes (linked T it whr ok v) q) = node_ok C (nodes T q)"
  using assms by (auto simp: linked_def order_key_def key_at_def intro!: node_ok_cong)

lemma linked_new:
  assumes "it \<noteq> allocated T"
  shows "order_key (linked T it whr ok v) (allocated T) = ok"
    "my_element (nodes (linked T it whr ok v) (allocated T)) = v"
    "key_at C (linked T it whr ok v) (allocated T) = map_option (get_key C) v"
    "nodes (linked T it whr ok v) (allocated T) = \<lparr>my_next = whr, my_element = v, my_order_key = ok\<rparr>"
  using assms by (auto simp: linked_def order_key_def key_at_def)

lemma linked_fields [simp]:
  "get_bucket (linked T it whr ok v) b = get_bucket T b" "my_buckets (linked T it whr ok v) = my_buckets T"
  "my_number_of_buckets (linked T it whr ok v) = my_number_of_buckets T"
  "my_element_count (linked T it whr ok v) = my_element_count T"
  "allocated (linked T it whr ok v) = allocated T + 1"
  by (simp_all add: linked_def get_bucket_def)

lemma linked_next:
  "it \<noteq> allocated T \<Longrightarrow> succ_of T it = whr \<Longrightarrow>
    succ_of (linked T it whr ok v) = (succ_of T)(allocated T := succ_of T it, it := Some (allocated T))"
  by (auto simp: linked_def succ_of_def fun_eq_iff)

text \<open>A new node goes behind everything that is not above its order key.\<close>

lemma above_tail:
  assumes "list_inv C T (us @ it # xs)" "succ_of T it = whr" "\<And>w. whr = Some w \<Longrightarrow> ok < order_key T w"
    and q: "q \<in> set xs"
  shows "ok < order_key T q"
proof -
  obtain w ws where w: "xs = w # ws" using q by (cases xs) auto
  have "whr = Some w" using next_splits [OF assms(1)] assms(2) w by simp
  moreover have "order_key T w \<le> order_key T q"
    using q sorted_splits(2) [of C T "us @ [it]" w ws q] assms(1) unfolding w by auto
  ultimately show ?thesis using assms(3) by force
qed

lemma linked_list_inv:
  assumes l: "list_inv C T (us @ it # xs)" and it: "order_key T it \<le> ok"
    and succ: "succ_of T it = whr" "\<And>w. whr = Some w \<Longrightarrow> ok < order_key T w"
    and ok: "node_ok C \<lparr>my_next = whr, my_element = v, my_order_key = ok\<rparr>"
  shows "list_inv C (linked T it whr ok v) (us @ it # allocated T # xs)"
proof -
  let ?T = "linked T it whr ok v" and ?n = "allocated T" and ?ps = "us @ it # xs"
  have nn: "q \<in> set ?ps \<Longrightarrow> q \<noteq> ?n" for q using list_invD(3) [OF l] by blast
  then have itn: "it \<noteq> ?n" by simp
  have us_small: "order_key T q \<le> ok" if "q \<in> set us" for q
    using sorted_splits(1) [OF l that] it by simp
  have eq: "map (order_key ?T) us = map (order_key T) us" "map (order_key ?T) xs = map (order_key T) xs"
    by (rule map_cong; simp add: linked_same(1) nn)+
  show ?thesis
    unfolding list_inv_def
  proof (intro conjI ballI)
    show "chain (succ_of ?T) (Some 0) (us @ it # ?n # xs)" unfolding linked_next [OF itn succ(1)]
      by (rule chain_link) (use list_invD(1,2) [OF l] nn in auto)
    show "distinct (us @ it # ?n # xs)" using list_invD(2) [OF l] nn by auto
    have m: "map (order_key ?T) (us @ it # ?n # xs) = map (order_key T) us @ order_key T it # ok # map (order_key T) xs"
      by (simp only: map_append list.map eq linked_new(1) [OF itn] linked_same(1) [OF itn])
    show "sorted (map (order_key ?T) (us @ it # ?n # xs))"
      unfolding m using list_invD(5) [OF l] us_small above_tail [OF l succ] it
      by (auto simp: sorted_append less_imp_le)
    have "0 \<in> set ?ps" using list_invD(1) [OF l] by (cases us) auto
    then show "order_key ?T 0 = 0" using list_invD(6) [OF l] linked_same(1) [OF nn] by simp
    fix p assume "p \<in> set (us @ it # ?n # xs)"
    then have p: "p = ?n \<or> p \<in> set ?ps" by auto
    then show "p < allocated ?T" using list_invD(3) [OF l, of p] by auto
    show "node_ok C (nodes ?T p)"
      using p ok linked_new(4) [OF itn] linked_same(4) [OF nn] list_invD(4) [OF l] by metis
  qed
qed

lemma linked_unique_inv:
  assumes "unique_inv C T ps" "it \<noteq> allocated T" "allocated T \<notin> set ps"
    and fresh: "\<And>q. q \<in> set ps \<Longrightarrow> order_key T q = ok \<Longrightarrow> v \<noteq> None \<and> my_element (nodes T q) \<noteq> None \<and>
        (\<not> allow_multimapping C \<longrightarrow> key_at C T q \<noteq> map_option (get_key C) v)"
    and set: "set ps' = insert (allocated T) (set ps)"
  shows "unique_inv C (linked T it whr ok v) ps'"
  unfolding unique_inv_def set
proof (intro ballI impI)
  let ?T = "linked T it whr ok v" and ?n = "allocated T"
  have nn: "q \<in> set ps \<Longrightarrow> q \<noteq> ?n" for q using assms(3) by auto
  fix p q assume pq: "p \<in> insert ?n (set ps)" "q \<in> insert ?n (set ps)" and e: "order_key ?T p = order_key ?T q"
  show "(my_element (nodes ?T p) = None \<longrightarrow> p = q) \<and>
      (\<not> allow_multimapping C \<longrightarrow> key_at C ?T p = key_at C ?T q \<longrightarrow> p = q)"
  proof (cases "p = ?n \<or> q = ?n")
    case True
    then show ?thesis
      using pq e fresh linked_new(1-3) [OF assms(2)] linked_same(1-3) [OF nn]
      by (metis insertE)
  next
    case False
    then have "p \<in> set ps" "q \<in> set ps" using pq by auto
    then show ?thesis using e assms(1) by (simp add: unique_inv_def linked_same(1-3) nn)
  qed
qed

lemma linked_extends:
  assumes l: "list_inv C T (us @ it # xs)"
    and succ: "succ_of T it = whr" "\<And>w. whr = Some w \<Longrightarrow> ok < order_key T w"
  shows "extends T (us @ it # xs) (linked T it whr ok v) (us @ it # allocated T # xs)"
proof -
  let ?T = "linked T it whr ok v" and ?n = "allocated T" and ?ps = "us @ it # xs"
  let ?ps' = "us @ it # ?n # xs"
  have nn: "q \<in> set ?ps \<Longrightarrow> q \<noteq> ?n" for q using list_invD(3) [OF l] by blast
  then have itn: "it \<noteq> ?n" by simp
  have prec: "q \<in> preceding ?ps p \<or> order_key ?T q < order_key ?T p"
    if p: "p \<in> set ?ps" and q: "q \<in> preceding ?ps' p" for p q
  proof (cases "q = ?n")
    case True
    have "p \<in> set xs"
    proof (rule ccontr)
      assume "p \<notin> set xs"
      then have "p \<in> set (us @ [it])" using p by auto
      then have "takeWhile (\<lambda>r. r \<noteq> p) ((us @ [it]) @ ?n # xs) = takeWhile (\<lambda>r. r \<noteq> p) (us @ [it])"
        by (intro takeWhile_append1) auto
      then have "?n \<in> set (us @ [it])" using q True unfolding preceding_def by (auto dest: set_takeWhileD)
      then show False using nn by auto
    qed
    then show ?thesis using above_tail [OF l succ] True linked_new(1) [OF itn] linked_same(1) [OF nn [OF p]] by simp
  next
    case False
    have "set (takeWhile (\<lambda>r. r \<noteq> p) ?ps') \<subseteq> insert ?n (set (takeWhile (\<lambda>r. r \<noteq> p) ?ps))"
      by (auto simp: takeWhile_append split: if_splits)
    then show ?thesis using q False by (auto simp: preceding_def)
  qed
  have "\<forall>p\<in>set ?ps. order_key ?T p = order_key T p \<and> my_element (nodes ?T p) = my_element (nodes T p)"
    using linked_same(1,2) [OF nn] by blast
  then show ?thesis unfolding extends_def using prec by auto
qed

lemma link_inv:
  assumes inv: "solist_inv C T ps" and it: "it \<in> set ps" "order_key T it \<le> ok"
    and succ: "succ_of T it = whr" "\<And>w. whr = Some w \<Longrightarrow> ok < order_key T w"
    and ok: "node_ok C \<lparr>my_next = whr, my_element = v, my_order_key = ok\<rparr>"
    and fresh: "\<And>q. q \<in> set ps \<Longrightarrow> order_key T q = ok \<Longrightarrow> v \<noteq> None \<and> my_element (nodes T q) \<noteq> None \<and>
        (\<not> allow_multimapping C \<longrightarrow> key_at C T q \<noteq> map_option (get_key C) v)"
  obtains ps' where "solist_inv C (linked T it whr ok v) ps'" "extends T ps (linked T it whr ok v) ps'"
    "mset ps' = add_mset (allocated T) (mset ps)"
proof -
  note l = solist_invD(1) [OF inv]
  obtain us xs where s: "ps = us @ it # xs" by (meson it(1) split_list)
  let ?T = "linked T it whr ok v" and ?ps = "us @ it # allocated T # xs"
  have nn: "q \<in> set ps \<Longrightarrow> q \<noteq> allocated T" for q using list_invD(3) [OF l] by blast
  have set: "set ?ps = insert (allocated T) (set ps)" by (auto simp: s)
  have "list_inv C ?T ?ps" by (rule linked_list_inv [OF l [unfolded s] it(2) succ ok])
  moreover have "unique_inv C ?T ?ps"
    by (rule linked_unique_inv [OF solist_invD(2) [OF inv] _ _ fresh set]) (use nn it(1) in auto)
  moreover have "buckets_inv ?T ?ps" using solist_invD(3) [OF inv] linked_same(1) [OF nn]
    unfolding buckets_inv_def set linked_fields by (metis insertCI)
  moreover have "size_inv ?T" using solist_invD(4) [OF inv] by (simp add: size_inv_def)
  ultimately have "solist_inv C ?T ?ps" by (simp add: solist_inv_def)
  moreover have "extends T ps ?T ?ps" unfolding s by (rule linked_extends [OF l [unfolded s] succ])
  moreover have "mset ?ps = add_mset (allocated T) (mset ps)" by (simp add: s)
  ultimately show ?thesis using that by blast
qed

section \<open>Bucket accesses\<close>

lemma is_initialized_iff: "is_initialized T b \<longleftrightarrow> get_bucket T b \<noteq> None"
  by (simp add: is_initialized_def get_bucket_def split: prod.splits option.splits)

definition segments_ok :: "'v unordered \<Rightarrow> bool" where
  "segments_ok T \<longleftrightarrow> (\<forall>k sg. my_buckets T k = Some sg \<longrightarrow> length sg = unat (segment_size k))"

lemma locate_fst: "fst (locate_bucket b) = segment_index_of b"
  by (simp add: locate_bucket_def Let_def)

lemma locate_less: "locate_bucket b = (k, i) \<Longrightarrow> i < unat (segment_size k)"
  using bucket_segments_roundtrip [of b k i] by simp

lemma alloc_segment_get [simp]: "get_bucket (alloc_segment b T) c = get_bucket T c"
  by (auto simp: get_bucket_def alloc_segment_def Let_def dest: locate_less split: prod.splits option.splits)

lemma alloc_segment_fields [simp]:
  "nodes (alloc_segment b T) = nodes T" "allocated (alloc_segment b T) = allocated T"
  "my_number_of_buckets (alloc_segment b T) = my_number_of_buckets T"
  "my_element_count (alloc_segment b T) = my_element_count T"
  by (simp_all add: alloc_segment_def Let_def split: option.splits)

lemma alloc_segment_allocates: "my_buckets (alloc_segment b T) (segment_index_of b) \<noteq> None"
  "my_buckets T k \<noteq> None \<Longrightarrow> my_buckets (alloc_segment b T) k \<noteq> None"
  by (auto simp: alloc_segment_def Let_def split: option.splits)

lemma alloc_segment_ok: "segments_ok T \<Longrightarrow> segments_ok (alloc_segment b T)"
  by (auto simp: segments_ok_def alloc_segment_def Let_def split: option.splits)

lemma store_bucket_fields [simp]:
  "nodes (store_bucket b p T) = nodes T" "allocated (store_bucket b p T) = allocated T"
  "my_number_of_buckets (store_bucket b p T) = my_number_of_buckets T"
  "my_element_count (store_bucket b p T) = my_element_count T"
  by (simp_all add: store_bucket_def split: option.splits prod.splits)

lemma store_bucket_allocated: "my_buckets T k \<noteq> None \<Longrightarrow> my_buckets (store_bucket b p T) k \<noteq> None"
  by (auto simp: store_bucket_def split: option.splits prod.splits)

lemma store_bucket_ok: "segments_ok T \<Longrightarrow> segments_ok (store_bucket b p T)"
  by (auto simp: segments_ok_def store_bucket_def split: option.splits prod.splits)

lemma store_bucket_get:
  assumes "segments_ok T" "my_buckets T (segment_index_of b) \<noteq> None"
  shows "get_bucket (store_bucket b p T) c = (if c = b then Some p else get_bucket T c)"
proof -
  obtain k i where b: "locate_bucket b = (k, i)" by fastforce
  obtain m j where c: "locate_bucket c = (m, j)" by fastforce
  have k: "k = segment_index_of b" using locate_fst [of b] b by simp
  then obtain sg where sg: "my_buckets T k = Some sg" using assms(2) by blast
  then have i: "i < length sg" using assms(1) locate_less [OF b] by (simp add: segments_ok_def)
  have "c = b \<longleftrightarrow> m = k \<and> j = i" using locate_bucket_inj b c by (metis prod.inject)
  then show ?thesis using b c sg i by (auto simp: get_bucket_def store_bucket_def)
qed

section \<open>Steps that leave the list alone\<close>

lemma nodes_same:
  assumes "nodes T' = nodes T"
  shows "succ_of T' = succ_of T" "order_key T' = order_key T" "key_at C T' = key_at C T"
  using assms by (auto simp: succ_of_def order_key_def key_at_def)

lemma list_inv_same:
  assumes "nodes T' = nodes T" "allocated T' = allocated T" "list_inv C T ps" "unique_inv C T ps"
  shows "list_inv C T' ps" "unique_inv C T' ps"
  using assms(2-) by (simp_all add: list_inv_def unique_inv_def nodes_same [OF assms(1)] assms(1))

lemma extends_same:
  assumes "nodes T' = nodes T" "\<And>b. get_bucket T b \<noteq> None \<Longrightarrow> get_bucket T' b \<noteq> None"
    "\<And>k. my_buckets T k \<noteq> None \<Longrightarrow> my_buckets T' k \<noteq> None"
    "my_number_of_buckets T = 0 \<Longrightarrow> my_number_of_buckets T' = 0"
  shows "extends T ps T' ps"
  using assms(2-) by (simp add: extends_def nodes_same [OF assms(1)] assms(1))

lemma extends_refl: "extends T ps T ps"
  by (rule extends_same) auto

lemma buckets_inv_segments: "buckets_inv T ps \<Longrightarrow> segments_ok T"
  by (simp add: buckets_inv_def segments_ok_def)

lemma alloc_segment_inv:
  assumes "solist_inv C T ps"
  shows "solist_inv C (alloc_segment b T) ps" "extends T ps (alloc_segment b T) ps"
proof -
  note i = solist_invD [OF assms]
  have n: "nodes (alloc_segment b T) = nodes T" by simp
  have "buckets_inv (alloc_segment b T) ps"
    using i(3) alloc_segment_ok [OF buckets_inv_segments [OF i(3)], of b]
    by (simp add: buckets_inv_def segments_ok_def nodes_same [OF n])
  then show "solist_inv C (alloc_segment b T) ps"
    using list_inv_same [OF n _ i(1,2)] i(4) by (simp add: solist_inv_def size_inv_def)
  show "extends T ps (alloc_segment b T) ps"
    by (rule extends_same) (simp_all add: alloc_segment_allocates del: not_None_eq)
qed

lemma zero_is_only:
  assumes "solist_inv C T ps" "p \<in> set ps" "order_key T p = 0"
  shows "p = 0"
proof -
  note i = solist_invD [OF assms(1)]
  have "0 \<in> set ps" using list_invD(1) [OF i(1)] by (cases ps) auto
  have "my_element (nodes T p) = None"
  proof (cases "my_element (nodes T p)")
    case (Some v)
    then have "order_key T p = regular_key C (get_key C v)"
      using list_invD(4) [OF i(1) assms(2)] by (simp add: node_ok_def order_key_def)
    then show ?thesis using assms(3) regular_not_dummy [of "hash_of C (get_key C v)"]
      by (simp add: regular_key_def is_dummy_key_def)
  qed
  then show ?thesis using i(2) assms(2,3) \<open>0 \<in> set ps\<close> list_invD(6) [OF i(1)]
    unfolding unique_inv_def by metis
qed

lemma store_bucket_inv:
  assumes "solist_inv C T ps" "p \<in> set ps" "order_key T p = split_order_key_dummy b"
    "my_buckets T (segment_index_of b) \<noteq> None"
  shows "solist_inv C (store_bucket b p T) ps" "extends T ps (store_bucket b p T) ps"
    "get_bucket (store_bucket b p T) b \<noteq> None"
proof -
  note i = solist_invD [OF assms(1)]
  have n: "nodes (store_bucket b p T) = nodes T" by simp
  note g = store_bucket_get [OF buckets_inv_segments [OF i(3)] assms(4), of p]
  have "b = 0 \<longrightarrow> p = 0" using zero_is_only [OF assms(1,2)] assms(3) dummy_zero by simp
  then have "buckets_inv (store_bucket b p T) ps"
    using i(3) store_bucket_ok [OF buckets_inv_segments [OF i(3)], of b p] assms(2,3)
    by (auto simp: buckets_inv_def segments_ok_def nodes_same [OF n] g)
  then show "solist_inv C (store_bucket b p T) ps"
    using list_inv_same [OF n _ i(1,2)] i(4) by (simp add: solist_inv_def size_inv_def)
  show "extends T ps (store_bucket b p T) ps"
    by (rule extends_same) (simp_all add: g store_bucket_allocated del: not_None_eq)
  show "get_bucket (store_bucket b p T) b \<noteq> None" by (simp add: g)
qed

lemma adjust_fields [simp]:
  "nodes (adjust_table_size C n cur T) = nodes T" "allocated (adjust_table_size C n cur T) = allocated T"
  "my_buckets (adjust_table_size C n cur T) = my_buckets T"
  "my_element_count (adjust_table_size C n cur T) = my_element_count T"
  "get_bucket (adjust_table_size C n cur T) b = get_bucket T b"
  by (simp_all add: adjust_table_size_def get_bucket_def)

lemma size_inv_double: "size_inv T \<Longrightarrow> size_inv (T\<lparr>my_number_of_buckets := 2 * my_number_of_buckets T\<rparr>)"
proof -
  assume "size_inv T"
  then consider "my_number_of_buckets T = 0" | k where "k < 64" "my_number_of_buckets T = 2 ^ k"
    by (auto simp: size_inv_def)
  then show ?thesis
  proof cases
    case 2
    show ?thesis
    proof (cases "k = 63")
      case True
      then show ?thesis using 2 by (simp add: size_inv_def)
    next
      case False
      then have "Suc k < 64 \<and> 2 * my_number_of_buckets T = 2 ^ Suc k" using 2 by simp
      then have "\<exists>j<64. 2 * my_number_of_buckets T = 2 ^ j" by blast
      then show ?thesis by (simp add: size_inv_def)
    qed
  qed (simp add: size_inv_def)
qed

lemma adjust_inv:
  assumes "solist_inv C T ps"
  shows "solist_inv C (adjust_table_size D n cur T) ps" "extends T ps (adjust_table_size D n cur T) ps"
proof -
  note i = solist_invD [OF assms]
  have nd: "nodes (adjust_table_size D n cur T) = nodes T" by simp
  have "buckets_inv (adjust_table_size D n cur T) ps"
    using i(3) by (simp add: buckets_inv_def nodes_same [OF nd])
  moreover have "size_inv (adjust_table_size D n cur T)"
    using i(4) size_inv_double [OF i(4)] by (auto simp: adjust_table_size_def)
  ultimately show "solist_inv C (adjust_table_size D n cur T) ps"
    using list_inv_same [OF nd _ i(1,2)] by (simp add: solist_inv_def)
  show "extends T ps (adjust_table_size D n cur T) ps"
    by (rule extends_same) (simp_all add: adjust_table_size_def get_bucket_def del: not_None_eq)
qed

end
