(* ===== verification/Concurrent_Unordered.thy ===== *)
theory Concurrent_Unordered
  imports Unordered_Table
begin

text \<open>
  The threads of \<^verbatim>\<open>concurrent_unordered_base\<close>: an invariant for each point of an operation, its
  preservation by the thread's own steps and by every extension of the table, and what follows for any
  number of threads under any schedule. The schedule is a list of thread numbers, so a property of
  every run is a property of \<^verbatim>\<open>u_run\<close> for every list.
\<close>

section \<open>The invariant of a thread\<close>

fun parents :: "64 word list \<Rightarrow> bool" where
  "parents (a # b # bs) \<longleftrightarrow> b \<noteq> 0 \<and> a = get_parent b \<and> parents (b # bs)"
| "parents bs \<longleftrightarrow> True"

definition path_ok :: "('k, 'v) traits \<Rightarrow> ('k, 'v) u_request \<Rightarrow> 64 word list \<Rightarrow> bool" where
  "path_ok C r bs \<longleftrightarrow> bs \<noteq> [] \<and> (\<forall>b\<in>set bs. unat b < 2 ^ 63) \<and> parents bs \<and>
     split_order_key_dummy (last bs) < regular_key C (request_key C r)"

definition inserting_at :: "('k, 'v) traits \<Rightarrow> 'v unordered \<Rightarrow> nat list \<Rightarrow> 'k \<Rightarrow> nat \<Rightarrow> bool" where
  "inserting_at C T ps k it \<longleftrightarrow> it \<in> set ps \<and> order_key T it \<le> regular_key C k \<and>
     (\<not> allow_multimapping C \<longrightarrow> passed C T ps k it)"

definition linked_for :: "'v unordered \<Rightarrow> nat list \<Rightarrow> ('k, 'v) u_request \<Rightarrow> nat \<Rightarrow> bool" where
  "linked_for T ps r p \<longleftrightarrow> p \<in> set ps \<and> (\<exists>v. r = Insert_value v \<and> my_element (nodes T p) = Some v)"

fun is_insert :: "('k, 'v) u_request \<Rightarrow> bool" where
  "is_insert (Insert_value v) = True"
| "is_insert (Find_key k) = False"
| "is_insert (Range_key k) = False"

fun is_find :: "('k, 'v) u_request \<Rightarrow> bool" where
  "is_find (Find_key k) = True"
| "is_find _ = False"

fun is_range :: "('k, 'v) u_request \<Rightarrow> bool" where
  "is_range (Range_key k) = True"
| "is_range _ = False"

fun thread_inv :: "('k, 'v) traits \<Rightarrow> 'v unordered \<Rightarrow> nat list \<Rightarrow> ('k, 'v) u_request \<Rightarrow> u_pc \<Rightarrow> bool" where
  "thread_inv C T ps r Start \<longleftrightarrow> True"
| "thread_inv C T ps r (Ensure bs) \<longleftrightarrow> path_ok C r bs"
| "thread_inv C T ps r (Enter bs) \<longleftrightarrow> path_ok C r bs \<and> get_bucket T (hd bs) \<noteq> None"
| "thread_inv C T ps r (D_next it bs) \<longleftrightarrow> path_ok C r bs \<and> it \<in> set ps \<and>
     order_key T it < split_order_key_dummy (hd bs)"
| "thread_inv C T ps r (D_test it whr bs) \<longleftrightarrow> path_ok C r bs \<and> it \<in> set ps \<and>
     order_key T it < split_order_key_dummy (hd bs) \<and> set_option whr \<subseteq> set ps"
| "thread_inv C T ps r (D_alloc p bs) \<longleftrightarrow> path_ok C r bs \<and> p \<in> set ps \<and>
     order_key T p = split_order_key_dummy (hd bs)"
| "thread_inv C T ps r (D_store p bs) \<longleftrightarrow> path_ok C r bs \<and> p \<in> set ps \<and>
     order_key T p = split_order_key_dummy (hd bs) \<and> my_buckets T (segment_index_of (hd bs)) \<noteq> None"
| "thread_inv C T ps r (I_next it) \<longleftrightarrow> is_insert r \<and> inserting_at C T ps (request_key C r) it"
| "thread_inv C T ps r (I_test it whr) \<longleftrightarrow> is_insert r \<and> inserting_at C T ps (request_key C r) it \<and>
     set_option whr \<subseteq> set ps \<and>
     (\<not> allow_multimapping C \<longrightarrow> (\<forall>w\<in>set_option whr. ahead C T ps (request_key C r) w))"
| "thread_inv C T ps r (I_count p) \<longleftrightarrow> linked_for T ps r p"
| "thread_inv C T ps r (I_size p n) \<longleftrightarrow> linked_for T ps r p"
| "thread_inv C T ps r (I_grow p n cur) \<longleftrightarrow> linked_for T ps r p"
| "thread_inv C T ps r (F_test it) \<longleftrightarrow> is_find r \<and> set_option it \<subseteq> set ps"
| "thread_inv C T ps r (F_next p) \<longleftrightarrow> is_find r \<and> p \<in> set ps"
| "thread_inv C T ps r (Inserted p b) \<longleftrightarrow> (if b then linked_for T ps r p
     else is_insert r \<and> p \<in> set ps \<and> key_at C T p = Some (request_key C r) \<and> \<not> allow_multimapping C)"
| "thread_inv C T ps r (Found it) \<longleftrightarrow> is_find r \<and> set_option it \<subseteq> set ps \<and>
     (\<forall>p\<in>set_option it. key_at C T p = Some (request_key C r))"
| "thread_inv C T ps r (R_test it) \<longleftrightarrow> is_range r \<and> set_option it \<subseteq> set ps"
| "thread_inv C T ps r (R_next p) \<longleftrightarrow> is_range r \<and> p \<in> set ps"
| "thread_inv C T ps r (R_last p q) \<longleftrightarrow> is_range r \<and> q \<in> set ps \<and> p \<in> set ps \<and>
     key_at C T p = Some (request_key C r)"
| "thread_inv C T ps r (R_skip p it) \<longleftrightarrow> is_range r \<and> set_option it \<subseteq> set ps \<and> p \<in> set ps \<and>
     key_at C T p = Some (request_key C r)"
| "thread_inv C T ps r (Ranged it l) \<longleftrightarrow> is_range r \<and> set_option it \<subseteq> set ps \<and> set_option l \<subseteq> set ps \<and>
     (\<forall>p\<in>set_option it. key_at C T p = Some (request_key C r))"
| "thread_inv C T ps r Crashed \<longleftrightarrow> my_number_of_buckets T = 0"

lemma linked_for_extends: "extends T ps T' ps' \<Longrightarrow> linked_for T ps r p \<Longrightarrow> linked_for T' ps' r p"
  using extendsD(1,3) unfolding linked_for_def by metis

lemma inserting_extends:
  assumes "list_inv C T' ps'" "extends T ps T' ps'" "inserting_at C T ps k it"
  shows "inserting_at C T' ps' k it"
  using assms(3) passed_extends [OF assms(1,2)] extendsD(1,2) [OF assms(2), of it]
  by (simp add: inserting_at_def)

lemma thread_inv_extends:
  assumes l: "list_inv C T' ps'" and e: "extends T ps T' ps'" and t: "thread_inv C T ps r pc"
  shows "thread_inv C T' ps' r pc"
proof (cases pc)
  case (Enter bs)
  then show ?thesis using t extendsD(5) [OF e] by auto
next
  case (D_next it bs)
  then show ?thesis using t extendsD(1,2) [OF e, of it] by simp
next
  case (D_test it whr bs)
  then show ?thesis using t extendsD(1,2) [OF e, of it] extendsD(1) [OF e] by auto
next
  case (D_alloc p bs)
  then show ?thesis using t extendsD(1,2) [OF e, of p] by simp
next
  case (D_store p bs)
  then show ?thesis using t extendsD(1,2) [OF e, of p] extendsD(6) [OF e] by auto
next
  case (I_next it)
  then show ?thesis using t inserting_extends [OF l e] by simp
next
  case (I_test it whr)
  then show ?thesis using t inserting_extends [OF l e] ahead_extends [OF l e] extendsD(1) [OF e] by auto
next
  case (Inserted p b)
  then show ?thesis using t linked_for_extends [OF e] extendsD(1) [OF e] key_at_extends [OF e, of p C]
    by (auto split: if_splits)
next
  case (Found it)
  have "key_at C T' p = key_at C T p" if "p \<in> set_option it" for p
    using that t Found key_at_extends [OF e, of p C] by auto
  then show ?thesis using t Found extendsD(1) [OF e] by auto
next
  case (F_test it)
  then show ?thesis using t extendsD(1) [OF e] by auto
next
  case (R_last p q)
  then show ?thesis using t extendsD(1) [OF e] key_at_extends [OF e, of p C] by simp
next
  case (R_skip p it)
  then show ?thesis using t extendsD(1) [OF e] key_at_extends [OF e, of p C] by auto
next
  case (Ranged it q)
  have "key_at C T' p = key_at C T p" if "p \<in> set_option it" for p
    using that t Ranged key_at_extends [OF e, of p C] by auto
  then show ?thesis using t Ranged extendsD(1) [OF e] by auto
next
  case Crashed
  then show ?thesis using t extendsD(7) [OF e] by simp
qed (use t linked_for_extends [OF e] extendsD(1) [OF e] in auto)

section \<open>Steps preserve the invariants\<close>

text \<open>The node a thread has linked, and whether it has been counted.\<close>

fun owned :: "u_pc \<Rightarrow> nat multiset" where
  "owned (I_count p) = {#p#}"
| "owned (I_size p n) = {#p#}"
| "owned (I_grow p n cur) = {#p#}"
| "owned (Inserted p b) = (if b then {#p#} else {#})"
| "owned _ = {#}"

fun counted :: "u_pc \<Rightarrow> nat" where
  "counted (I_size p n) = 1"
| "counted (I_grow p n cur) = 1"
| "counted (Inserted p b) = of_bool b"
| "counted _ = 0"

definition elements :: "'v unordered \<Rightarrow> nat list \<Rightarrow> nat multiset" where
  "elements T ps = filter_mset (\<lambda>p. my_element (nodes T p) \<noteq> None) (mset ps)"

definition step_ok :: "('k, 'v) traits \<Rightarrow> ('k, 'v) u_request \<Rightarrow> 'v unordered \<Rightarrow> nat list \<Rightarrow> u_pc \<Rightarrow>
    'v unordered \<Rightarrow> nat list \<Rightarrow> u_pc \<Rightarrow> bool" where
  "step_ok C r T ps pc T' ps' pc' \<longleftrightarrow> solist_inv C T' ps' \<and> extends T ps T' ps' \<and> thread_inv C T' ps' r pc' \<and>
     elements T' ps' + owned pc = elements T ps + owned pc' \<and>
     my_element_count T' + of_nat (counted pc) = my_element_count T + of_nat (counted pc')"

lemma elements_same: "nodes T' = nodes T \<Longrightarrow> elements T' ps = elements T ps"
  by (simp add: elements_def)

lemma step_same:
  "solist_inv C T ps \<Longrightarrow> thread_inv C T ps r pc' \<Longrightarrow> owned pc' = owned pc \<Longrightarrow> counted pc' = counted pc \<Longrightarrow>
    step_ok C r T ps pc T ps pc'"
  by (simp add: step_ok_def extends_refl)

lemma linked_elements:
  assumes inv: "list_inv C T ps" and it: "it \<in> set ps" and m: "mset ps' = add_mset (allocated T) (mset ps)"
  shows "elements (linked T it whr ok v) ps' = elements T ps + (if v = None then {#} else {#allocated T#})"
proof -
  have "q \<noteq> allocated T" if "q \<in> set ps" for q using list_invD(3) [OF inv that] by simp
  then have "filter_mset (\<lambda>p. my_element (nodes (linked T it whr ok v) p) \<noteq> None) (mset ps) = elements T ps"
    unfolding elements_def by (intro filter_mset_cong refl) (simp add: linked_same(2))
  moreover have "it \<noteq> allocated T" using list_invD(3) [OF inv it] by simp
  ultimately show ?thesis using linked_new(2) [of it T whr ok v] by (cases v) (simp_all add: elements_def m)
qed

lemma try_insert_inv:
  assumes inv: "solist_inv C T ps" and it: "it \<in> set ps"
  shows "try_insert it whr ok v T =
    (if succ_of T it = whr then Some (linked T it whr ok v, allocated T) else None)"
proof (rule try_insert_cases)
  note l = solist_invD(1) [OF inv]
  show "it < allocated T" by (rule list_invD(3) [OF l it])
  obtain us xs where s: "ps = us @ it # xs" by (meson it split_list)
  show "succ_of T it \<noteq> Some (allocated T)"
  proof
    assume "succ_of T it = Some (allocated T)"
    then have "allocated T \<in> set ps" using next_splits [of C T us it xs] l s by (cases xs) auto
    then show False using list_invD(3) [OF l] by blast
  qed
qed

lemma path_ok_hd: "path_ok C r bs \<Longrightarrow> unat (hd bs) < 2 ^ 63"
  by (cases bs) (auto simp: path_ok_def)

lemma dummy_key_is_dummy:
  assumes "solist_inv C T ps" "p \<in> set ps" "order_key T p = split_order_key_dummy b"
  shows "my_element (nodes T p) = None"
proof (cases "my_element (nodes T p)")
  case (Some v)
  then have "order_key T p = regular_key C (get_key C v)"
    using list_invD(4) [OF solist_invD(1) [OF assms(1)] assms(2)] by (simp add: node_ok_def order_key_def)
  then show ?thesis using assms(3) dummy_is_dummy regular_not_dummy unfolding regular_key_def by metis
qed

lemma regular_key_is_regular:
  assumes "solist_inv C T ps" "p \<in> set ps" "order_key T p = regular_key C k"
  shows "my_element (nodes T p) \<noteq> None"
proof
  assume "my_element (nodes T p) = None"
  then obtain b where "order_key T p = split_order_key_dummy b"
    using list_invD(4) [OF solist_invD(1) [OF assms(1)] assms(2)] by (auto simp: node_ok_def order_key_def)
  then show False using assms(3) dummy_is_dummy regular_not_dummy unfolding regular_key_def by metis
qed

text \<open>\<^verbatim>\<open>insert_dummy\<close>: the position is reached only with a smaller key on its left, and the key is
  not in the list when the new node is linked.\<close>

lemma before_or_above:
  assumes l: "list_inv C T ps" and it: "it \<in> set ps" and succ: "succ_of T it = whr"
    "\<And>w. whr = Some w \<Longrightarrow> ok < order_key T w" and q: "q \<in> set ps"
  shows "q = it \<or> q \<in> preceding ps it \<or> ok < order_key T q"
proof -
  obtain us xs where s: "ps = us @ it # xs" "preceding ps it = set us" "it \<notin> set us" "it \<notin> set xs"
    by (rule split_at [OF it list_invD(2) [OF l]])
  then show ?thesis using q above_tail [OF l [unfolded s(1)] succ] by auto
qed

lemma preceding_below: "list_inv C T ps \<Longrightarrow> it \<in> set ps \<Longrightarrow> q \<in> preceding ps it \<Longrightarrow> order_key T q \<le> order_key T it"
proof -
  assume l: "list_inv C T ps" and it: "it \<in> set ps" and q: "q \<in> preceding ps it"
  obtain us xs where s: "ps = us @ it # xs" "preceding ps it = set us" "it \<notin> set us" "it \<notin> set xs"
    by (rule split_at [OF it list_invD(2) [OF l]])
  then show ?thesis using sorted_splits(1) [OF l [unfolded s(1)]] q by simp
qed

lemma dummy_link_ok:
  assumes inv: "solist_inv C T ps" and t: "thread_inv C T ps r (D_test it whr bs)"
    and big: "\<And>w. whr = Some w \<Longrightarrow> split_order_key_dummy (hd bs) < order_key T w" and succ: "succ_of T it = whr"
  shows "\<exists>ps'. step_ok C r T ps (D_test it whr bs) (linked T it whr (split_order_key_dummy (hd bs)) None) ps'
    (D_alloc (allocated T) bs)"
proof -
  let ?ok = "split_order_key_dummy (hd bs)"
  note l = solist_invD(1) [OF inv]
  have p: "path_ok C r bs" "it \<in> set ps" "order_key T it < ?ok" using t by simp_all
  have "\<not> order_key T q = ?ok" if q: "q \<in> set ps" for q
    using before_or_above [OF l p(2) succ big q] preceding_below [OF l p(2), of q] p(3) by force
  moreover have "node_ok C \<lparr>my_next = whr, my_element = None, my_order_key = ?ok\<rparr>"
    using path_ok_hd [OF p(1)] by (auto simp: node_ok_def)
  ultimately obtain ps' where ps': "solist_inv C (linked T it whr ?ok None) ps'"
      "extends T ps (linked T it whr ?ok None) ps'" "mset ps' = add_mset (allocated T) (mset ps)"
    using link_inv [OF inv p(2) less_imp_le [OF p(3)] succ big, of None] by blast
  have "it \<noteq> allocated T" using list_invD(3) [OF l p(2)] by simp
  moreover have "allocated T \<in> set ps'" using ps'(3) by (metis set_mset_mset union_single_eq_member)
  ultimately have "thread_inv C (linked T it whr ?ok None) ps' r (D_alloc (allocated T) bs)"
    using p(1) linked_new(1) by simp
  then show ?thesis using ps' linked_elements [OF l p(2) ps'(3), of whr ?ok None]
    by (auto simp: step_ok_def)
qed

lemma insert_link_ok:
  assumes inv: "solist_inv C T ps" and t: "thread_inv C T ps (Insert_value v) (I_test it whr)"
    and big: "\<And>w. whr = Some w \<Longrightarrow> regular_key C (get_key C v) < order_key T w" and succ: "succ_of T it = whr"
  shows "\<exists>ps'. step_ok C (Insert_value v) T ps (I_test it whr)
    (linked T it whr (regular_key C (get_key C v)) (Some v)) ps' (I_count (allocated T))"
proof -
  let ?ok = "regular_key C (get_key C v)"
  note l = solist_invD(1) [OF inv]
  have p: "it \<in> set ps" "order_key T it \<le> ?ok" "\<not> allow_multimapping C \<Longrightarrow> passed C T ps (get_key C v) it"
    using t by (simp_all add: inserting_at_def)
  have fresh: "Some v \<noteq> None \<and> my_element (nodes T q) \<noteq> None \<and>
      (\<not> allow_multimapping C \<longrightarrow> key_at C T q \<noteq> map_option (get_key C) (Some v))"
    if q: "q \<in> set ps" "order_key T q = ?ok" for q
  proof -
    have "q = it \<or> q \<in> preceding ps it" using before_or_above [OF l p(1) succ big q(1)] q(2) by simp
    then have "key_at C T q \<noteq> Some (get_key C v)" if "\<not> allow_multimapping C"
      using p(3) [OF that] by (auto simp: passed_def ahead_def)
    then show ?thesis using regular_key_is_regular [OF inv q] by simp
  qed
  have "node_ok C \<lparr>my_next = whr, my_element = Some v, my_order_key = ?ok\<rparr>" by (simp add: node_ok_def)
  then obtain ps' where ps': "solist_inv C (linked T it whr ?ok (Some v)) ps'"
      "extends T ps (linked T it whr ?ok (Some v)) ps'" "mset ps' = add_mset (allocated T) (mset ps)"
    using link_inv [OF inv p(1,2) succ big, of "Some v"] fresh by blast
  have "it \<noteq> allocated T" using list_invD(3) [OF l p(1)] by simp
  moreover have "allocated T \<in> set ps'" using ps'(3) by (metis set_mset_mset union_single_eq_member)
  ultimately have "thread_inv C (linked T it whr ?ok (Some v)) ps' (Insert_value v) (I_count (allocated T))"
    using linked_new(2) by (simp add: linked_for_def)
  then show ?thesis using ps' linked_elements [OF l p(1) ps'(3), of whr ?ok "Some v"]
    by (auto simp: step_ok_def)
qed

lemma next_in:
  assumes l: "list_inv C T ps" and "p \<in> set ps" "succ_of T p = Some w"
  shows "w \<in> set ps"
proof -
  obtain us xs where s: "ps = us @ p # xs" by (meson assms(2) split_list)
  then show ?thesis using next_splits [of C T us p xs] l assms(3) by (cases xs) auto
qed

lemma path_ok_start:
  assumes "k < 64"
  shows "path_ok C r [bucket_of (hash_of C (request_key C r)) (2 ^ k)]"
proof -
  have "unat (bucket_of (hash_of C (request_key C r)) (2 ^ k)) < 2 ^ k" by (rule bucket_of_less [OF assms])
  moreover have "(2::nat) ^ k \<le> 2 ^ 63" using assms by (intro power_increasing) auto
  ultimately have "unat (bucket_of (hash_of C (request_key C r)) (2 ^ k)) < 2 ^ 63" by linarith
  then show ?thesis using dummy_less_regular [OF assms] by (simp add: path_ok_def regular_key_def)
qed

lemma path_ok_parent:
  assumes "path_ok C r bs" "hd bs \<noteq> 0"
  shows "path_ok C r (get_parent (hd bs) # bs)"
proof -
  obtain b cs where bs: "bs = b # cs" using assms(1) by (cases bs) (auto simp: path_ok_def)
  have "unat (get_parent b) < unat b" using get_parent_less assms(2) bs by (simp add: word_less_nat_alt)
  then show ?thesis using assms by (auto simp: path_ok_def bs)
qed

lemma path_ok_child:
  assumes "path_ok C r bs" "tl bs \<noteq> []"
  shows "path_ok C r (tl bs)" "split_order_key_dummy (hd bs) < split_order_key_dummy (hd (tl bs))"
proof -
  obtain a b cs where bs: "bs = a # b # cs" using assms by (cases bs; cases "tl bs") auto
  then show "path_ok C r (tl bs)" using assms(1) by (auto simp: path_ok_def)
  have "a = get_parent b" "b \<noteq> 0" "unat b < 2 ^ 63" using assms(1) by (auto simp: path_ok_def bs)
  then show "split_order_key_dummy (hd bs) < split_order_key_dummy (hd (tl bs))"
    using dummy_parent_less bs by simp
qed

lemma dummy_passed:
  assumes l: "list_inv C T ps" and p: "p \<in> set ps" "order_key T p < regular_key C k"
  shows "passed C T ps k p"
proof -
  have "key_at C T q \<noteq> Some k" if "q = p \<or> q \<in> preceding ps p" for q
  proof
    assume "key_at C T q = Some k"
    moreover have "q \<in> set ps" using that p(1) preceding_subset by blast
    ultimately have "order_key T q = regular_key C k" using key_at_regular [OF l] by blast
    moreover have "order_key T q \<le> order_key T p" using that preceding_below [OF l p(1)] by auto
    ultimately show False using p(2) by simp
  qed
  then show ?thesis using p by (simp add: passed_def ahead_def)
qed

lemma enter_ok:
  assumes inv: "solist_inv C T ps" and t: "thread_inv C T ps r (Enter bs)"
  shows "step_ok C r T ps (Enter bs) T ps (snd (thread_step C r T (Enter bs)))"
proof -
  note l = solist_invD(1) [OF inv]
  obtain p where p: "get_bucket T (hd bs) = Some p" and path: "path_ok C r bs" using t by auto
  have pp: "p \<in> set ps" "order_key T p = split_order_key_dummy (hd bs)"
    using solist_invD(3) [OF inv] p by (auto simp: buckets_inv_def)
  show ?thesis
  proof (cases "tl bs = []")
    case True
    then have "last bs = hd bs" using path by (cases bs) (auto simp: path_ok_def)
    then have "order_key T p < regular_key C (request_key C r)" using path pp(2) by (simp add: path_ok_def)
    then have "inserting_at C T ps (request_key C r) p"
      using pp(1) dummy_passed [OF l pp(1)] by (simp add: inserting_at_def)
    then have "thread_inv C T ps r (search_from r p)" using pp(1) by (cases r) auto
    moreover have "owned (search_from r p) = {#}" "counted (search_from r p) = 0" by (cases r; simp)+
    ultimately show ?thesis using True p by (simp add: step_same [OF inv])
  next
    case False
    then show ?thesis using p pp path_ok_child [OF path False] by (simp add: step_same [OF inv])
  qed
qed

lemma d_test_ok:
  assumes inv: "solist_inv C T ps" and t: "thread_inv C T ps r (D_test it whr bs)"
    and s: "dummy_step it whr bs T = (T', pc')"
  shows "\<exists>ps'. step_ok C r T ps (D_test it whr bs) T' ps' pc'"
proof -
  let ?ok = "split_order_key_dummy (hd bs)"
  have it: "it \<in> set ps" using t by simp
  have stay: "thread_inv C T ps r (D_next it bs)" using t by simp
  have attempt: "\<exists>ps'. step_ok C r T ps (D_test it whr bs) T' ps' pc'"
    if big: "\<And>w. whr = Some w \<Longrightarrow> ?ok < order_key T w"
      and e: "(T', pc') = (case try_insert it whr ?ok None T of
        Some (T', dummy_node) \<Rightarrow> (T', D_alloc dummy_node bs) | None \<Rightarrow> (T, D_next it bs))"
  proof (cases "succ_of T it = whr")
    case True
    then show ?thesis using dummy_link_ok [OF inv t big True] e try_insert_inv [OF inv it] by simp
  next
    case False
    then have "T' = T" "pc' = D_next it bs" using e try_insert_inv [OF inv it] by simp_all
    then show ?thesis using step_same [OF inv stay] by (intro exI [of _ ps]) simp
  qed
  show ?thesis
  proof (cases whr)
    case None
    then show ?thesis using s attempt by (simp add: dummy_step_def Let_def)
  next
    case (Some w)
    have w: "w \<in> set ps" using t Some by simp
    consider "?ok < order_key T w" | "order_key T w = ?ok" | "order_key T w < ?ok" by fastforce
    then show ?thesis
    proof cases
      case 1
      then show ?thesis using s attempt Some by (simp add: dummy_step_def Let_def)
    next
      case 2
      then have e: "T' = T" "pc' = D_alloc w bs" using s Some by (simp_all add: dummy_step_def Let_def)
      have "thread_inv C T ps r (D_alloc w bs)" using t w 2 by simp
      then show ?thesis using e step_same [OF inv] by (intro exI [of _ ps]) simp
    next
      case 3
      then have "\<not> ?ok < order_key T w" "order_key T w \<noteq> ?ok" by auto
      then have e: "T' = T" "pc' = D_next w bs" using s Some by (simp_all add: dummy_step_def Let_def)
      have "thread_inv C T ps r (D_next w bs)" using t w 3 by simp
      then show ?thesis using e step_same [OF inv] by (intro exI [of _ ps]) simp
    qed
  qed
qed

lemma i_test_ok:
  assumes inv: "solist_inv C T ps" and t: "thread_inv C T ps (Insert_value v) (I_test it whr)"
    and s: "insert_step C v it whr T = (T', pc')"
  shows "\<exists>ps'. step_ok C (Insert_value v) T ps (I_test it whr) T' ps' pc'"
proof -
  let ?ok = "regular_key C (get_key C v)"
  have it: "it \<in> set ps" using t by (simp add: inserting_at_def)
  have stay: "thread_inv C T ps (Insert_value v) (I_next it)" using t by simp
  have attempt: "\<exists>ps'. step_ok C (Insert_value v) T ps (I_test it whr) T' ps' pc'"
    if big: "\<And>w. whr = Some w \<Longrightarrow> ?ok < order_key T w"
      and e: "(T', pc') = (case try_insert it whr ?ok (Some v) T of
        Some (T', pnode) \<Rightarrow> (T', I_count pnode) | None \<Rightarrow> (T, I_next it))"
  proof (cases "succ_of T it = whr")
    case True
    then show ?thesis using insert_link_ok [OF inv t big True] e try_insert_inv [OF inv it] by simp
  next
    case False
    then have "T' = T" "pc' = I_next it" using e try_insert_inv [OF inv it] by simp_all
    then show ?thesis using step_same [OF inv stay] by (intro exI [of _ ps]) simp
  qed
  show ?thesis
  proof (cases whr)
    case None
    then show ?thesis using s attempt by (simp add: insert_step_def Let_def)
  next
    case (Some w)
    have w: "w \<in> set ps" "\<not> allow_multimapping C \<Longrightarrow> ahead C T ps (get_key C v) w" using t Some by simp_all
    consider "?ok < order_key T w"
      | "\<not> ?ok < order_key T w" "\<not> allow_multimapping C" "order_key T w = ?ok" "key_at C T w = Some (get_key C v)"
      | "\<not> ?ok < order_key T w"
        "\<not> (\<not> allow_multimapping C \<and> order_key T w = ?ok \<and> key_at C T w = Some (get_key C v))" by blast
    then show ?thesis
    proof cases
      case 1
      then show ?thesis using s attempt Some by (simp add: insert_step_def Let_def)
    next
      case 2
      then have e: "T' = T" "pc' = Inserted w False" using s Some by (simp_all add: insert_step_def Let_def)
      have "thread_inv C T ps (Insert_value v) (Inserted w False)" using w 2 by simp
      then show ?thesis using e step_same [OF inv] by (intro exI [of _ ps]) simp
    next
      case 3
      then have e: "T' = T" "pc' = I_next w" using s Some by (auto simp: insert_step_def Let_def split: if_splits)
      have "passed C T ps (get_key C v) w" if m: "\<not> allow_multimapping C"
      proof -
        have "key_at C T w \<noteq> Some (get_key C v)"
          using 3(2) m key_at_regular [OF solist_invD(1) [OF inv] w(1)] by blast
        then show ?thesis using w(2) [OF m] 3(1) by (simp add: passed_def)
      qed
      then have "thread_inv C T ps (Insert_value v) (I_next w)" using w(1) 3(1) by (simp add: inserting_at_def)
      then show ?thesis using e step_same [OF inv] by (intro exI [of _ ps]) simp
    qed
  qed
qed

lemma thread_step_ok:
  assumes inv: "solist_inv C T ps" and t: "thread_inv C T ps r pc" and s: "thread_step C r T pc = (T', pc')"
  shows "\<exists>ps'. step_ok C r T ps pc T' ps' pc'"
proof -
  note l = solist_invD(1) [OF inv]
  show ?thesis
  proof (cases pc)
    case Start
    have "thread_inv C T ps r pc'"
      using s solist_invD(4) [OF inv] path_ok_start by (auto simp: Start size_inv_def split: if_splits)
    moreover have "T' = T" "owned pc' = owned pc" "counted pc' = counted pc"
      using s Start by (auto split: if_splits)
    ultimately show ?thesis using step_same [OF inv, of r pc' pc] by blast
  next
    case (Ensure bs)
    have "hd bs \<noteq> 0" if "\<not> is_initialized T (hd bs)"
      using that solist_invD(3) [OF inv] by (auto simp: is_initialized_iff buckets_inv_def)
    then have "thread_inv C T ps r pc'"
      using s t path_ok_parent by (auto simp: Ensure is_initialized_iff split: if_splits)
    moreover have "T' = T" "owned pc' = owned pc" "counted pc' = counted pc"
      using s Ensure by (auto split: if_splits)
    ultimately show ?thesis using step_same [OF inv, of r pc' pc] by blast
  next
    case (Enter bs)
    then show ?thesis using enter_ok [OF inv t [unfolded Enter]] s by (intro exI [of _ ps]) (auto split: option.splits)
  next
    case (D_next it bs)
    have "thread_inv C T ps r (D_test it (succ_of T it) bs)"
      using t next_in [OF l] D_next by (cases "succ_of T it") auto
    then show ?thesis using s D_next step_same [OF inv] by (intro exI [of _ ps]) auto
  next
    case (D_test it whr bs)
    then show ?thesis using d_test_ok [OF inv t [unfolded D_test]] s by simp
  next
    case (D_alloc p bs)
    have T': "T' = alloc_segment (hd bs) T" and pc': "pc' = D_store p bs" using s D_alloc by simp_all
    note a = alloc_segment_inv [OF inv, of "hd bs"]
    have "thread_inv C T' ps r pc'"
      using thread_inv_extends [OF solist_invD(1) [OF a(1)] a(2) t] alloc_segment_allocates(1)
      unfolding T' pc' D_alloc by simp
    then show ?thesis using a unfolding D_alloc pc' T'
      by (intro exI [of _ ps]) (simp add: step_ok_def elements_same [of "alloc_segment (hd bs) T" T ps])
  next
    case (D_store p bs)
    have T': "T' = store_bucket (hd bs) p T" and pc': "pc' = Enter bs" using s D_store by simp_all
    have p: "p \<in> set ps" "order_key T p = split_order_key_dummy (hd bs)"
        "my_buckets T (segment_index_of (hd bs)) \<noteq> None" using t D_store by simp_all
    note a = store_bucket_inv [OF inv p]
    have "thread_inv C T' ps r pc'" using t a(3) unfolding T' pc' D_store by simp
    then show ?thesis using a unfolding D_store pc' T'
      by (intro exI [of _ ps]) (simp add: step_ok_def elements_same [of "store_bucket (hd bs) p T" T ps])
  next
    case (I_next it)
    have i: "is_insert r" "inserting_at C T ps (request_key C r) it" using t by (simp_all add: I_next)
    then have it: "it \<in> set ps" by (simp add: inserting_at_def)
    have "set_option (succ_of T it) \<subseteq> set ps" using next_in [OF l it] by auto
    moreover have "ahead C T ps (request_key C r) w"
      if "\<not> allow_multimapping C" "w \<in> set_option (succ_of T it)" for w
      using i(2) that by (auto simp: inserting_at_def intro: passed_next [OF l])
    ultimately have "thread_inv C T ps r (I_test it (succ_of T it))" using i by simp
    then show ?thesis using s I_next step_same [OF inv] by (intro exI [of _ ps]) auto
  next
    case (I_test it whr)
    then obtain v where v: "r = Insert_value v" using t by (cases r) auto
    then show ?thesis using i_test_ok [OF inv t [unfolded I_test v]] s unfolding I_test v by simp
  next
    case (I_count p)
    have T': "T' = T\<lparr>my_element_count := my_element_count T + 1\<rparr>" and pc': "pc' = I_size p (my_element_count T)"
      using s I_count by simp_all
    have n: "nodes T' = nodes T" by (simp add: T')
    have g: "get_bucket T' = get_bucket T" by (simp add: T' get_bucket_def fun_eq_iff)
    have "solist_inv C T' ps" using solist_invD [OF inv] list_inv_same [OF n, of C ps]
      by (simp add: solist_inv_def buckets_inv_def size_inv_def nodes_same [OF n] g) (simp add: T')
    moreover have "extends T ps T' ps" by (rule extends_same [OF n]) (simp_all add: g, simp_all add: T')
    moreover have "thread_inv C T' ps r pc'" using t by (simp add: I_count pc' linked_for_def n)
    moreover have "my_element_count T' = my_element_count T + 1" by (simp add: T')
    ultimately show ?thesis unfolding I_count pc' by (intro exI [of _ ps]) (simp add: step_ok_def elements_same [OF n])
  next
    case (I_size p n)
    then show ?thesis using s t step_same [OF inv] by (intro exI [of _ ps]) auto
  next
    case (I_grow p n cur)
    have T': "T' = adjust_table_size C n cur T" and pc': "pc' = Inserted p True" using s I_grow by simp_all
    note a = adjust_inv [OF inv, of C n cur]
    have "thread_inv C T' ps r pc'"
      using thread_inv_extends [OF solist_invD(1) [OF a(1)] a(2) t] unfolding T' pc' I_grow by simp
    then show ?thesis using a unfolding I_grow pc' T'
      by (intro exI [of _ ps]) (simp add: step_ok_def elements_same [of "adjust_table_size C n cur T" T ps])
  next
    case (F_test it)
    then obtain k where k: "r = Find_key k" using t by (cases r) auto
    have "thread_inv C T ps r pc'" "owned pc' = {#}" "counted pc' = 0"
      using s t unfolding F_test k by (auto simp: find_step_def Let_def split: option.splits if_splits)
    then show ?thesis using s F_test k step_same [OF inv] by (intro exI [of _ ps]) auto
  next
    case (R_test it)
    then obtain k where k: "r = Range_key k" using t by (cases r) auto
    have "thread_inv C T ps r pc'" "owned pc' = {#}" "counted pc' = 0"
      using s t unfolding R_test k by (auto simp: range_step_def Let_def split: option.splits if_splits)
    then show ?thesis using s R_test k step_same [OF inv] by (intro exI [of _ ps]) auto
  next
    case (R_next p)
    have "thread_inv C T ps r (R_test (succ_of T p))"
      using t next_in [OF l] R_next by (cases "succ_of T p") auto
    then show ?thesis using s R_next step_same [OF inv] by (intro exI [of _ ps]) auto
  next
    case (R_last p q)
    have "thread_inv C T ps r (R_skip p (succ_of T q))"
      using t next_in [OF l] R_last by (cases "succ_of T q") auto
    then show ?thesis using s R_last step_same [OF inv] by (intro exI [of _ ps]) auto
  next
    case (R_skip p it)
    then obtain k where k: "r = Range_key k" using t by (cases r) auto
    have "thread_inv C T ps r pc'" "owned pc' = {#}" "counted pc' = 0"
      using s t unfolding R_skip k by (auto simp: last_step_def split: option.splits if_splits)
    then show ?thesis using s R_skip k step_same [OF inv] by (intro exI [of _ ps]) auto
  next
    case (F_next p)
    have "thread_inv C T ps r (F_test (succ_of T p))"
      using t next_in [OF l] F_next by (cases "succ_of T p") auto
    then show ?thesis using s F_next step_same [OF inv] by (intro exI [of _ ps]) auto
  qed (use s t step_same [OF inv t refl refl] in auto)
qed

section \<open>Runs of the whole system\<close>

definition u_init :: "'v unordered \<Rightarrow> ('k, 'v) u_request list \<Rightarrow> ('k, 'v) u_system" where
  "u_init T rs = \<lparr>table = T, threads = map (\<lambda>r. (r, Start)) rs\<rparr>"

definition owners :: "('k, 'v) u_system \<Rightarrow> nat multiset" where
  "owners s = sum_list (map (\<lambda>t. owned (snd t)) (threads s))"

definition system_inv :: "('k, 'v) traits \<Rightarrow> ('k, 'v) u_system \<Rightarrow> nat list \<Rightarrow> bool" where
  "system_inv C s ps \<longleftrightarrow> solist_inv C (table s) ps \<and>
     (\<forall>t\<in>set (threads s). thread_inv C (table s) ps (fst t) (snd t)) \<and>
     elements (table s) ps = owners s \<and>
     my_element_count (table s) = of_nat (sum_list (map (\<lambda>t. counted (snd t)) (threads s)))"

lemma sum_list_replace:
  "i < length xs \<Longrightarrow> sum_list (map f (xs[i := x])) + f (xs ! i) = sum_list (map f xs) + (f x :: 'a::comm_monoid_add)"
proof (induction xs arbitrary: i)
  case (Cons y ys)
  show ?case
  proof (cases i)
    case (Suc j)
    then have "sum_list (map f (ys[j := x])) + f (ys ! j) = sum_list (map f ys) + f x" using Cons by simp
    then show ?thesis using Suc by (simp add: add.assoc)
  qed (simp add: ac_simps)
qed simp

lemma u_move_inv:
  assumes inv: "system_inv C s ps"
  shows "\<exists>ps'. system_inv C (u_move C i s) ps' \<and> extends (table s) ps (table (u_move C i s)) ps'"
proof (cases "i < length (threads s)")
  case True
  let ?r = "fst (threads s ! i)" and ?pc = "snd (threads s ! i)"
  obtain T' pc' where st: "thread_step C ?r (table s) ?pc = (T', pc')" by fastforce
  have m: "u_move C i s = \<lparr>table = T', threads = (threads s)[i := (?r, pc')]\<rparr>"
    using True st by (simp add: u_move_def Let_def)
  have tinv: "thread_inv C (table s) ps ?r ?pc" using inv True by (simp add: system_inv_def)
  have tab: "solist_inv C (table s) ps" using inv by (simp add: system_inv_def)
  obtain ps' where ok: "step_ok C ?r (table s) ps ?pc T' ps' pc'" using thread_step_ok [OF tab tinv st] by blast
  then have inv': "solist_inv C T' ps'" "extends (table s) ps T' ps'" "thread_inv C T' ps' ?r pc'"
    and el: "elements T' ps' + owned ?pc = elements (table s) ps + owned pc'"
    and ct: "my_element_count T' + of_nat (counted ?pc) = my_element_count (table s) + of_nat (counted pc')"
    by (simp_all add: step_ok_def)
  have "thread_inv C T' ps' (fst t) (snd t)" if "t \<in> set ((threads s)[i := (?r, pc')])" for t
  proof (cases "t = (?r, pc')")
    case False
    then have "t \<in> set (threads s)" using that by (metis in_set_conv_nth length_list_update nth_list_update_if True)
    then have "thread_inv C (table s) ps (fst t) (snd t)" using inv by (simp add: system_inv_def)
    then show ?thesis by (rule thread_inv_extends [OF solist_invD(1) [OF inv'(1)] inv'(2)])
  qed (use inv' in simp)
  moreover have "elements T' ps' = owners (u_move C i s)"
  proof -
    have "owners (u_move C i s) + owned ?pc = owners s + owned pc'"
      using sum_list_replace [OF True, of "\<lambda>t. owned (snd t)" "(?r, pc')"] by (simp add: m owners_def)
    moreover have "elements (table s) ps = owners s" using inv by (simp add: system_inv_def)
    ultimately show ?thesis using el by (metis add_right_cancel)
  qed
  moreover have "my_element_count T' = of_nat (sum_list (map (\<lambda>t. counted (snd t)) ((threads s)[i := (?r, pc')])))"
  proof -
    let ?c = "sum_list (map (\<lambda>t. counted (snd t)) (threads s))"
    let ?c' = "sum_list (map (\<lambda>t. counted (snd t)) ((threads s)[i := (?r, pc')]))"
    have "?c' + counted ?pc = ?c + counted pc'"
      using sum_list_replace [OF True, of "\<lambda>t. counted (snd t)" "(?r, pc')"] by simp
    then have "(of_nat ?c' :: 64 word) + of_nat (counted ?pc) = of_nat ?c + of_nat (counted pc')"
      by (metis of_nat_add)
    moreover have "my_element_count (table s) = of_nat ?c" using inv by (simp add: system_inv_def)
    ultimately show ?thesis using ct by (metis add_right_cancel)
  qed
  ultimately have "system_inv C (u_move C i s) ps'" using inv' by (simp add: system_inv_def m)
  then show ?thesis using inv' by (auto simp: m)
next
  case False
  then show ?thesis using inv by (auto simp: u_move_def extends_refl)
qed

lemma extends_trans:
  assumes "extends T ps T1 ps1" "extends T1 ps1 T2 ps2"
  shows "extends T ps T2 ps2"
  unfolding extends_def
proof (intro conjI ballI allI impI)
  note a = extendsD [OF assms(1)] and b = extendsD [OF assms(2)]
  show "set ps \<subseteq> set ps2" using a(1) b(1) by blast
  fix p assume p: "p \<in> set ps"
  show "order_key T2 p = order_key T p" "my_element (nodes T2 p) = my_element (nodes T p)"
    using a(1-3) [OF p] b(2,3) by simp_all
  fix q assume q: "q \<in> preceding ps2 p"
  have q2: "q \<in> preceding ps1 p \<or> order_key T2 q < order_key T2 p" by (rule b(4) [OF a(1) [OF p] q])
  show "q \<in> preceding ps p \<or> order_key T2 q < order_key T2 p"
  proof (cases "q \<in> preceding ps1 p")
    case True
    then have "q \<in> set ps1" using preceding_subset by blast
    then show ?thesis using a(4) [OF p True] b(2) [of q] b(2) [OF a(1) [OF p]] by metis
  qed (use q2 in blast)
next
  show "get_bucket T b \<noteq> None \<Longrightarrow> get_bucket T2 b \<noteq> None" for b
    using extendsD(5) [OF assms(1)] extendsD(5) [OF assms(2)] by blast
  show "my_buckets T k \<noteq> None \<Longrightarrow> my_buckets T2 k \<noteq> None" for k
    using extendsD(6) [OF assms(1)] extendsD(6) [OF assms(2)] by blast
  show "my_number_of_buckets T = 0 \<Longrightarrow> my_number_of_buckets T2 = 0"
    using extendsD(7) [OF assms(1)] extendsD(7) [OF assms(2)] by blast
qed

lemma u_run_inv:
  "system_inv C s ps \<Longrightarrow>
    \<exists>ps'. system_inv C (u_run C is s) ps' \<and> extends (table s) ps (table (u_run C is s)) ps'"
proof (induction "is" arbitrary: s ps)
  case Nil
  then show ?case by (auto simp: u_run_def extends_refl)
next
  case (Cons i js)
  from u_move_inv [OF Cons.prems, of i] obtain ps1 where
    1: "system_inv C (u_move C i s) ps1" "extends (table s) ps (table (u_move C i s)) ps1" by blast
  from Cons.IH [OF 1(1)] show ?case using extends_trans [OF 1(2)] by (auto simp: u_run_def)
qed

lemma int_one_shl_pow2: "int_one_shl s = Some m \<Longrightarrow> \<exists>k<64. m = 2 ^ k"
proof -
  assume a: "int_one_shl s = Some m"
  then have "m = 2 ^ nat s" "nat s < 64" by (auto simp: int_one_shl_def split: if_splits)
  then show ?thesis by blast
qed

lemma new_solist_inv:
  fixes T :: "'v unordered"
  assumes "new_table n = Some T"
  shows "solist_inv C T [0]" "my_element_count T = 0" "elements T [0] = {#}"
proof -
  obtain m where m: "initial_bucket_count n = Some m" "T = set_bucket 0 0 (empty_list m)"
    using assms by (auto simp: new_table_def split: option.splits)
  define E0 where "E0 = (empty_list m :: 'v unordered)"
  have T: "T = store_bucket 0 0 (alloc_segment 0 E0)" using m(2) by (simp add: set_bucket_def E0_def)
  have "segments_ok E0" by (simp add: segments_ok_def empty_list_def E0_def)
  then have ok: "segments_ok (alloc_segment 0 E0)" by (rule alloc_segment_ok)
  have e: "nodes T = (\<lambda>_. node_init 0 None)" "allocated T = 1" "my_number_of_buckets T = m"
    by (simp_all add: T, simp_all add: empty_list_def E0_def)
  have none: "get_bucket E0 b = None" for b
    by (simp add: get_bucket_def empty_list_def E0_def split: prod.splits)
  have g: "get_bucket T b = (if b = 0 then Some 0 else None)" for b
    unfolding T using store_bucket_get [OF ok alloc_segment_allocates(1), of 0 b] none by simp
  have "node_ok C (node_init 0 None)" using dummy_zero
    by (auto simp: node_ok_def node_init_def intro!: exI [of _ 0])
  then have "list_inv C T [0]"
    by (simp add: list_inv_def e order_key_def succ_of_def node_init_def)
  moreover have "unique_inv C T [0]" by (simp add: unique_inv_def)
  moreover have "buckets_inv T [0]"
    using store_bucket_ok [OF ok, of 0 0] dummy_zero
    by (simp add: buckets_inv_def g T [symmetric] segments_ok_def) (simp add: order_key_def e node_init_def)
  moreover have "size_inv T"
  proof -
    have "\<exists>k<64. m = 2 ^ k" using m(1) int_one_shl_pow2 unfolding initial_bucket_count_def Let_def by blast
    then show ?thesis by (simp add: size_inv_def e)
  qed
  ultimately show "solist_inv C T [0]" by (simp add: solist_inv_def)
  show "my_element_count T = 0" by (simp add: T) (simp add: empty_list_def E0_def)
  show "elements T [0] = {#}" by (simp add: elements_def e node_init_def)
qed

lemma u_init_inv:
  assumes "new_table n = Some T"
  shows "system_inv C (u_init T rs) [0]"
proof -
  have o: "owners (u_init T rs) = {#}" by (induction rs) (simp_all add: owners_def u_init_def)
  have c: "sum_list (map (\<lambda>t. counted (snd t)) (threads (u_init T rs))) = 0"
    by (induction rs) (simp_all add: u_init_def)
  have t: "table (u_init T rs) = T" "\<forall>t\<in>set (threads (u_init T rs)). snd t = Start"
    by (auto simp: u_init_def)
  show ?thesis using t(2) new_solist_inv(1) [OF assms, of C] new_solist_inv(2,3) [OF assms]
    unfolding system_inv_def o c t(1) by simp
qed

section \<open>What a table holds\<close>

definition list_of :: "'v unordered \<Rightarrow> nat list" where
  "list_of T = walk (allocated T) (succ_of T) (Some 0)"

definition values_of :: "'v unordered \<Rightarrow> 'v list" where
  "values_of T = List.map_filter (\<lambda>p. my_element (nodes T p)) (list_of T)"

definition linked_values :: "('k, 'v) u_system \<Rightarrow> 'v list" where
  "linked_values s = List.map_filter (\<lambda>t. case fst t of
     Insert_value v \<Rightarrow> if owned (snd t) = {#} then None else Some v | _ \<Rightarrow> None) (threads s)"

lemma list_of_chain:
  assumes "list_inv C T ps"
  shows "list_of T = ps"
  unfolding list_of_def
proof (rule walk_chain)
  show "chain (succ_of T) (Some 0) ps" by (rule list_invD(1) [OF assms])
  have "set ps \<subseteq> {..<allocated T}" using list_invD(3) [OF assms] by auto
  then have "card (set ps) \<le> allocated T" using card_mono [of "{..<allocated T}" "set ps"] by simp
  then show "length ps \<le> allocated T" using distinct_card [OF list_invD(2) [OF assms]] by simp
qed

lemma mset_map_filter:
  "mset (List.map_filter f xs) = image_mset (\<lambda>x. the (f x)) (filter_mset (\<lambda>x. f x \<noteq> None) (mset xs))"
  by (induction xs) (auto simp: List.map_filter_simps split: option.splits)

lemma values_elements:
  "list_inv C T ps \<Longrightarrow> mset (values_of T) = image_mset (\<lambda>p. the (my_element (nodes T p))) (elements T ps)"
  by (simp add: values_of_def list_of_chain mset_map_filter elements_def)

lemma owned_cases:
  assumes "thread_inv C T ps r pc" "owned pc \<noteq> {#}"
  obtains p v where "owned pc = {#p#}" "r = Insert_value v" "my_element (nodes T p) = Some v"
  using assms by (cases pc) (auto simp: linked_for_def split: if_splits)

lemma owners_values:
  assumes "\<And>t. t \<in> set ts \<Longrightarrow> thread_inv C T ps (fst t) (snd t)"
  shows "image_mset (\<lambda>p. the (my_element (nodes T p))) (sum_list (map (\<lambda>t. owned (snd t)) ts)) =
    mset (List.map_filter (\<lambda>t. case fst t of
      Insert_value v \<Rightarrow> if owned (snd t) = {#} then None else Some v | _ \<Rightarrow> None) ts)"
  using assms
proof (induction ts)
  case (Cons t ts)
  have t: "thread_inv C T ps (fst t) (snd t)" using Cons.prems by simp
  show ?case
  proof (cases "owned (snd t) = {#}")
    case True
    then show ?thesis using Cons by (auto simp: List.map_filter_simps split: u_request.splits)
  next
    case False
    obtain p v where "owned (snd t) = {#p#}" "fst t = Insert_value v" "my_element (nodes T p) = Some v"
      by (rule owned_cases [OF t False])
    then show ?thesis using Cons by (simp add: List.map_filter_simps)
  qed
qed (simp add: List.map_filter_simps)

lemma values_linked:
  assumes "system_inv C s ps"
  shows "mset (values_of (table s)) = mset (linked_values s)"
  using assms values_elements [of C "table s" ps] owners_values [of "threads s" C "table s" ps]
  by (simp add: system_inv_def solist_inv_def owners_def linked_values_def)

lemma distinct_keys:
  assumes inv: "solist_inv C T ps" and m: "\<not> allow_multimapping C"
  shows "distinct (map (get_key C) (values_of T))"
proof -
  note l = solist_invD(1) [OF inv]
  have "distinct (map (get_key C) (List.map_filter (\<lambda>p. my_element (nodes T p)) qs))"
    if "set qs \<subseteq> set ps" "distinct qs" for qs
    using that
  proof (induction qs)
    case (Cons q qs)
    show ?case
    proof (cases "my_element (nodes T q)")
      case (Some v)
      have "get_key C w \<noteq> get_key C v" if "p \<in> set qs" "my_element (nodes T p) = Some w" for p w
      proof
        assume e: "get_key C w = get_key C v"
        have k: "key_at C T p = Some (get_key C v)" "key_at C T q = Some (get_key C v)"
          using that(2) Some e by (simp_all add: key_at_def)
        moreover have "p \<in> set ps" "q \<in> set ps" using Cons.prems that(1) by auto
        ultimately have "p = q"
          using solist_invD(2) [OF inv] m key_at_regular [OF l] unfolding unique_inv_def by metis
        then show False using Cons.prems(2) that(1) by simp
      qed
      then have "get_key C v \<notin> get_key C ` set (List.map_filter (\<lambda>p. my_element (nodes T p)) qs)"
        by (force simp: List.map_filter_def)
      then show ?thesis using Cons Some by (simp add: List.map_filter_simps)
    qed (use Cons in \<open>simp add: List.map_filter_simps\<close>)
  qed (simp add: List.map_filter_simps)
  then show ?thesis using list_of_chain [OF l] list_invD(2) [OF l] by (simp add: values_of_def)
qed

section \<open>Searches\<close>

fun find_inv :: "('k, 'v) traits \<Rightarrow> 'v unordered \<Rightarrow> nat list \<Rightarrow> 'k \<Rightarrow> u_pc \<Rightarrow> bool" where
  "find_inv C T ps k (F_test it) \<longleftrightarrow> (\<exists>p. it = Some p \<and> ahead C T ps k p \<and> order_key T p \<le> regular_key C k)"
| "find_inv C T ps k (F_next p) \<longleftrightarrow> passed C T ps k p"
| "find_inv C T ps k (Found it) \<longleftrightarrow> it \<noteq> None"
| "find_inv C T ps k _ \<longleftrightarrow> True"

lemma find_inv_extends:
  assumes "list_inv C T' ps'" "extends T ps T' ps'" "find_inv C T ps k pc"
  shows "find_inv C T' ps' k pc"
proof (cases pc)
  case (F_test it)
  then obtain p where p: "it = Some p" "ahead C T ps k p" "order_key T p \<le> regular_key C k"
    using assms(3) by auto
  then have "p \<in> set ps" by (simp add: ahead_def)
  then show ?thesis using F_test p ahead_extends [OF assms(1,2) p(2)] extendsD(2) [OF assms(2)] by simp
next
  case (F_next p)
  then show ?thesis using assms passed_extends by simp
qed (use assms(3) in simp_all)

lemma find_step_inv:
  assumes inv: "solist_inv C T ps" and t: "thread_inv C T ps (Find_key k) pc" and f: "find_inv C T ps k pc"
    and pr: "present C T ps k" and s: "thread_step C (Find_key k) T pc = (T', pc')"
  shows "find_inv C T ps k pc'"
proof -
  note l = solist_invD(1) [OF inv]
  show ?thesis
  proof (cases pc)
    case Start
    then show ?thesis using s by (auto split: if_splits)
  next
    case (Ensure bs)
    then show ?thesis using s by (auto split: if_splits)
  next
    case (Enter bs)
    obtain p where p: "get_bucket T (hd bs) = Some p" and path: "path_ok C (Find_key k) bs"
      using t by (auto simp: Enter)
    show ?thesis
    proof (cases "tl bs = []")
      case True
      have pp: "p \<in> set ps" "order_key T p = split_order_key_dummy (hd bs)"
        using solist_invD(3) [OF inv] p by (auto simp: buckets_inv_def)
      have "last bs = hd bs" using path True by (cases bs) (auto simp: path_ok_def)
      then have less: "order_key T p < regular_key C k" using path pp(2) by (simp add: path_ok_def)
      have "pc' = F_test (Some p)" using s Enter p True by simp
      then show ?thesis using dummy_passed [OF l pp(1) less] by (simp add: passed_def)
    next
      case False
      then show ?thesis using s Enter p by auto
    qed
  next
    case (D_test it whr bs)
    then show ?thesis using s by (auto simp: dummy_step_def Let_def split: option.splits if_splits prod.splits)
  next
    case (F_test it)
    obtain p where p: "it = Some p" "ahead C T ps k p" "order_key T p \<le> regular_key C k"
      using f by (auto simp: F_test)
    show ?thesis
    proof (cases "order_key T p = regular_key C k \<and> key_at C T p = Some k")
      case True
      then show ?thesis using s F_test p by (auto simp: find_step_def)
    next
      case False
      have "p \<in> set ps" using p(2) by (simp add: ahead_def)
      then have "key_at C T p \<noteq> Some k" using False key_at_regular [OF l] by blast
      moreover have "pc' = F_next p" using s F_test p False by (auto simp: find_step_def Let_def split: if_splits)
      ultimately show ?thesis using p by (simp add: passed_def)
    qed
  next
    case (F_next p)
    have "passed C T ps k p" using f by (simp add: F_next)
    then obtain w where w: "succ_of T p = Some w" "order_key T w \<le> regular_key C k"
      using passed_has_next [OF l _ pr] by blast
    then show ?thesis using s F_next passed_next [OF l \<open>passed C T ps k p\<close> w(1)] by auto
  qed (use s t f in auto)
qed

lemma u_move_threads:
  "length (threads (u_move C j s)) = length (threads s)"
  "fst (threads (u_move C j s) ! i) = fst (threads s ! i)"
  "i \<noteq> j \<Longrightarrow> threads (u_move C j s) ! i = threads s ! i"
  "j < length (threads s) \<Longrightarrow> thread_step C (fst (threads s ! j)) (table s) (snd (threads s ! j)) = (T', pc') \<Longrightarrow>
     snd (threads (u_move C j s) ! j) = pc'"
  by (auto simp: u_move_def Let_def nth_list_update split: prod.splits)

lemma find_run:
  "system_inv C s ps \<Longrightarrow> i < length (threads s) \<Longrightarrow> fst (threads s ! i) = Find_key k \<Longrightarrow>
    present C (table s) ps k \<Longrightarrow> find_inv C (table s) ps k (snd (threads s ! i)) \<Longrightarrow>
    snd (threads (u_run C js s) ! i) \<noteq> Found None"
proof (induction js arbitrary: s ps)
  case Nil
  then show ?case by (cases "snd (threads s ! i)") (auto simp: u_run_def)
next
  case (Cons j js)
  note pre = Cons.prems
  obtain ps' where n: "system_inv C (u_move C j s) ps'" "extends (table s) ps (table (u_move C j s)) ps'"
    using u_move_inv [OF pre(1)] by blast
  have l': "list_inv C (table (u_move C j s)) ps'" using n(1) by (simp add: system_inv_def solist_inv_def)
  have "find_inv C (table s) ps k (snd (threads (u_move C j s) ! i))"
  proof (cases "i = j")
    case True
    obtain T' pc' where st: "thread_step C (Find_key k) (table s) (snd (threads s ! i)) = (T', pc')" by fastforce
    have t: "thread_inv C (table s) ps (Find_key k) (snd (threads s ! i))"
      using pre(1,2,3) unfolding system_inv_def by (metis nth_mem)
    have "solist_inv C (table s) ps" using pre(1) by (simp add: system_inv_def)
    then have "find_inv C (table s) ps k pc'" by (rule find_step_inv [OF _ t pre(5,4) st])
    then show ?thesis using u_move_threads(4) [of i s C T' pc'] st pre(2,3) True by simp
  next
    case False
    then show ?thesis using pre(5) u_move_threads(3) by metis
  qed
  then have "find_inv C (table (u_move C j s)) ps' k (snd (threads (u_move C j s) ! i))"
    by (rule find_inv_extends [OF l' n(2)])
  moreover have "present C (table (u_move C j s)) ps' k" by (rule present_extends [OF n(2) pre(4)])
  ultimately have "snd (threads (u_run C js (u_move C j s)) ! i) \<noteq> Found None"
    using Cons.IH [OF n(1)] pre(2,3) u_move_threads(1,2) by metis
  then show ?case by (simp add: u_run_def)
qed

lemma present_values:
  assumes "list_inv C T ps"
  shows "present C T ps k \<longleftrightarrow> k \<in> get_key C ` set (values_of T)"
  by (auto simp: present_def values_of_def list_of_chain [OF assms] List.map_filter_def key_at_def image_iff)
    force+

section \<open>Insertions\<close>

text \<open>A thread that has linked a node keeps it.\<close>

lemma owned_mono: "thread_step C r T pc = (T', pc') \<Longrightarrow> owned pc \<subseteq># owned pc'"
  by (cases pc) auto

lemma owned_run:
  "i < length (threads s) \<Longrightarrow> owned (snd (threads s ! i)) \<subseteq># owned (snd (threads (u_run C js s) ! i))"
proof (induction js arbitrary: s)
  case (Cons j js)
  have "owned (snd (threads s ! i)) \<subseteq># owned (snd (threads (u_move C j s) ! i))"
  proof (cases "i = j")
    case True
    obtain T' pc' where st: "thread_step C (fst (threads s ! i)) (table s) (snd (threads s ! i)) = (T', pc')"
      by fastforce
    then show ?thesis using owned_mono [OF st] u_move_threads(4) [of i s C T' pc'] Cons.prems True by simp
  next
    case False
    then show ?thesis using u_move_threads(3) by (metis subset_mset.order_refl)
  qed
  also have "\<dots> \<subseteq># owned (snd (threads (u_run C js (u_move C j s)) ! i))"
    by (rule Cons.IH) (use Cons.prems u_move_threads(1) in metis)
  finally show ?case by (simp add: u_run_def)
qed (simp add: u_run_def)

lemma u_run_threads: "length (threads (u_run C js s)) = length (threads s)"
    "fst (threads (u_run C js s) ! i) = fst (threads s ! i)"
  by (induction js arbitrary: s) (simp_all add: u_run_def u_move_threads(1,2))

lemma sum_list_mem: "i < length xs \<Longrightarrow> (xs ! i :: 'a multiset) \<subseteq># sum_list xs"
proof (induction xs arbitrary: i)
  case (Cons x xs)
  then show ?case by (cases i) (auto intro: subset_mset.add_increasing)
qed simp

lemma sum_list_two:
  "i < length xs \<Longrightarrow> j < length xs \<Longrightarrow> i \<noteq> j \<Longrightarrow> (xs ! i + xs ! j :: 'a multiset) \<subseteq># sum_list xs"
proof (induction xs arbitrary: i j)
  case (Cons x xs)
  consider (a) j' where "i = 0" "j = Suc j'" | (b) i' where "i = Suc i'" "j = 0"
    | (c) i' j' where "i = Suc i'" "j = Suc j'"
    using Cons.prems by (cases i; cases j) auto
  then show ?case
  proof cases
    case c
    then have "xs ! i' + xs ! j' \<subseteq># sum_list xs" using Cons by simp
    then show ?thesis using c by (simp add: subset_mset.add_increasing)
  qed (use Cons.prems sum_list_mem in \<open>auto simp: add.commute\<close>)
qed simp

text \<open>Two threads never own the same node.\<close>

lemma owned_disjoint:
  assumes inv: "system_inv C s ps" and ij: "i < length (threads s)" "j < length (threads s)" "i \<noteq> j"
    and p: "p \<in># owned (snd (threads s ! i))" "p \<in># owned (snd (threads s ! j))"
  shows False
proof -
  let ?xs = "map (\<lambda>t. owned (snd t)) (threads s)"
  have "{#p#} + {#p#} \<subseteq># owned (snd (threads s ! i)) + owned (snd (threads s ! j))"
    using p by (intro subset_mset.add_mono) simp_all
  also have "\<dots> = ?xs ! i + ?xs ! j" using ij by simp
  also have "\<dots> \<subseteq># sum_list ?xs" by (rule sum_list_two) (use ij in simp_all)
  also have "\<dots> = elements (table s) ps" using inv by (simp add: system_inv_def owners_def)
  also have "\<dots> \<subseteq># mset ps" by (simp add: elements_def)
  finally have "{#p, p#} \<subseteq># mset ps" by simp
  moreover have "distinct ps" using inv by (simp add: system_inv_def solist_inv_def list_inv_def)
  ultimately show False
    using mset_subset_eq_count [of "{#p, p#}" "mset ps" p] distinct_count_atmost_1 [of ps]
    by (simp split: if_splits)
qed

section \<open>Properties\<close>

fun answer_ok :: "('k, 'v) traits \<Rightarrow> 'v unordered \<Rightarrow> ('k, 'v) u_request \<Rightarrow> u_pc \<Rightarrow> bool" where
  "answer_ok C T r (Inserted p b) \<longleftrightarrow> p \<in> set (list_of T) \<and> key_at C T p = Some (request_key C r) \<and>
     (b \<longrightarrow> (\<exists>v. r = Insert_value v \<and> my_element (nodes T p) = Some v))"
| "answer_ok C T r (Found it) \<longleftrightarrow>
     (\<forall>p\<in>set_option it. p \<in> set (list_of T) \<and> key_at C T p = Some (request_key C r))"
| "answer_ok C T r (Ranged first l) \<longleftrightarrow>
     (\<forall>p\<in>set_option first. p \<in> set (list_of T) \<and> key_at C T p = Some (request_key C r))"
| "answer_ok C T r Crashed \<longleftrightarrow> my_number_of_buckets T = 0"
| "answer_ok C T r pc \<longleftrightarrow> True"

lemma thread_answer:
  assumes "list_inv C T ps" "thread_inv C T ps r pc"
  shows "answer_ok C T r pc"
proof (cases pc)
  case (Inserted p b)
  then show ?thesis using assms(2) list_of_chain [OF assms(1)]
    by (auto simp: linked_for_def key_at_def split: if_splits)
qed (use assms(2) list_of_chain [OF assms(1)] in auto)

lemma u_reachable:
  assumes "new_table n = Some T0"
  obtains ps where "system_inv C (u_run C schedule (u_init T0 rs)) ps"
  using u_run_inv [OF u_init_inv [OF assms]] by blast

definition multi_traits :: "(nat, nat \<times> nat) traits" where
  "multi_traits = \<lparr>hash_of = (\<lambda>_. 0), get_key = fst, allow_multimapping = True, over_full = (\<lambda>_ _. False)\<rparr>"

definition map_traits :: "(nat, nat \<times> nat) traits" where
  "map_traits = \<lparr>hash_of = (\<lambda>_. 0), get_key = fst, allow_multimapping = False, over_full = (\<lambda>_ _. False)\<rparr>"

lemma initial_8: "initial_bucket_count 8 = Some 8"
  by code_simp

definition table_8 :: "(nat \<times> nat) unordered" where
  "table_8 = set_bucket 0 0 (empty_list 8)"

lemma new_table_8: "new_table 8 = Some table_8"
  by (simp add: new_table_def initial_8 table_8_def)

text \<open>C4: Under every interleaving of insertions, searches and equal ranges the list stays ordered by the
  order keys; it holds exactly the values whose insertion linked a node; without
  \<^verbatim>\<open>allow_multimapping\<close> no two of them have the same key; every answer refers to a node of the list with
  the key asked for; the element counter counts the insertions that passed it; and an operation fails
  only when the number of buckets has become 0.\<close>

theorem unordered_insert_linearizable:
  assumes "new_table n = Some T0" "s = u_run C schedule (u_init T0 rs)"
  shows "sorted (map (order_key (table s)) (list_of (table s))) \<and>
    mset (values_of (table s)) = mset (linked_values s) \<and>
    (allow_multimapping C \<or> distinct (map (get_key C) (values_of (table s)))) \<and>
    (\<forall>t\<in>set (threads s). answer_ok C (table s) (fst t) (snd t)) \<and>
    my_element_count (table s) = of_nat (sum_list (map (\<lambda>t. counted (snd t)) (threads s)))"
proof -
  obtain ps where inv: "system_inv C s ps" using u_reachable [OF assms(1)] assms(2) by metis
  then have t: "solist_inv C (table s) ps" by (simp add: system_inv_def)
  note l = solist_invD(1) [OF t]
  have "sorted (map (order_key (table s)) (list_of (table s)))"
    using list_invD(5) [OF l] list_of_chain [OF l] by simp
  moreover have "\<forall>t\<in>set (threads s). answer_ok C (table s) (fst t) (snd t)"
    using inv thread_answer [OF l] by (simp add: system_inv_def)
  ultimately show ?thesis using values_linked [OF inv] distinct_keys [OF t] inv
    by (auto simp: system_inv_def)
qed

theorem unordered_insert_linearizable_witness:
  "mset (values_of (table (u_run map_traits [0, 1, 0, 1, 0, 1] (u_init table_8 [Insert_value (1, 10), Find_key 1]))))
    = mset (linked_values (u_run map_traits [0, 1, 0, 1, 0, 1] (u_init table_8 [Insert_value (1, 10), Find_key 1])))"
  using unordered_insert_linearizable [OF new_table_8 refl, of map_traits "[0, 1, 0, 1, 0, 1]"
    "[Insert_value (1, 10), Find_key 1]"] by simp

lemma present_owner:
  assumes inv: "system_inv C s ps" and pr: "present C (table s) ps k"
  obtains q j where "q \<in> set ps" "key_at C (table s) q = Some k" "j < length (threads s)"
    "q \<in># owned (snd (threads s ! j))"
proof -
  obtain q where q: "q \<in> set ps" "key_at C (table s) q = Some k" using pr by (auto simp: present_def)
  then have "q \<in># elements (table s) ps" by (auto simp: elements_def key_at_def)
  then have "q \<in># owners s" using inv by (simp add: system_inv_def)
  moreover have "\<exists>t\<in>set ts. q \<in># owned (snd t)" if "q \<in># sum_list (map (\<lambda>t. owned (snd t)) ts)" for ts
    using that by (induction ts) auto
  ultimately have "\<exists>t\<in>set (threads s). q \<in># owned (snd t)" by (simp add: owners_def)
  then show ?thesis using that q by (metis in_set_conv_nth)
qed

text \<open>C13: A key in the table is found by every search that starts afterwards, whatever the other threads
  do while it runs, and an insertion of it that starts afterwards never links a second node, unless the
  table allows multiple mappings.\<close>

theorem unordered_key_never_lost:
  assumes "new_table n = Some T0" "s = u_run C schedule (u_init T0 rs)"
    and "i < length (threads s)" "threads s ! i = (r, Start)"
    and "request_key C r \<in> get_key C ` set (values_of (table s))"
    and "s' = u_run C schedule' s"
  shows "snd (threads s' ! i) \<noteq> Found None \<and>
    (allow_multimapping C \<or> owned (snd (threads s' ! i)) = {#})"
proof -
  let ?k = "request_key C r"
  obtain ps where inv: "system_inv C s ps" using u_reachable [OF assms(1)] assms(2) by metis
  have l: "list_inv C (table s) ps" using inv by (simp add: system_inv_def solist_inv_def)
  have pr: "present C (table s) ps ?k" using assms(5) present_values [OF l] by simp
  obtain ps' where inv': "system_inv C s' ps'" and e: "extends (table s) ps (table s') ps'"
    using u_run_inv [OF inv] assms(6) by metis
  have i': "i < length (threads s')" "fst (threads s' ! i) = r"
    using assms(3,4,6) u_run_threads by (metis fst_conv)+
  have t': "thread_inv C (table s') ps' r (snd (threads s' ! i))"
    using inv' i' unfolding system_inv_def by (metis nth_mem)
  have "snd (threads s' ! i) \<noteq> Found None"
  proof (cases r)
    case (Find_key k)
    then show ?thesis using find_run [OF inv assms(3), of k schedule'] assms(4,6) pr by simp
  qed (use t' in \<open>auto split: if_splits\<close>)
  moreover have "owned (snd (threads s' ! i)) = {#}" if m: "\<not> allow_multimapping C"
  proof (rule ccontr)
    assume own: "owned (snd (threads s' ! i)) \<noteq> {#}"
    obtain p v where p: "owned (snd (threads s' ! i)) = {#p#}" "r = Insert_value v"
        "my_element (nodes (table s') p) = Some v"
      by (rule owned_cases [OF t' own])
    obtain q j where q: "q \<in> set ps" "key_at C (table s) q = Some ?k" and j: "j < length (threads s)"
        "q \<in># owned (snd (threads s ! j))"
      by (rule present_owner [OF inv pr])
    have "j \<noteq> i" using j(2) assms(4) by auto
    have qj: "q \<in># owned (snd (threads s' ! j))"
      using owned_run [OF j(1), of C schedule'] j(2) assms(6) by (metis mset_subset_eqD)
    have t: "solist_inv C (table s') ps'" using inv' by (simp add: system_inv_def)
    have "p \<in># elements (table s') ps'"
    proof -
      have "owned (snd (threads s' ! i)) \<subseteq># owners s'"
        using sum_list_mem [of i "map (\<lambda>t. owned (snd t)) (threads s')"] i'(1) by (simp add: owners_def)
      then show ?thesis using p(1) inv' by (simp add: system_inv_def)
    qed
    then have "p \<in> set ps'" by (simp add: elements_def)
    moreover have "q \<in> set ps'" by (rule extendsD(1) [OF e q(1)])
    moreover have "key_at C (table s') p = Some ?k" using p(2,3) by (simp add: key_at_def)
    moreover have "key_at C (table s') q = Some ?k" using key_at_extends [OF e q(1), of C] q(2) by simp
    ultimately have "p = q"
      using solist_invD(2) [OF t] m key_at_regular [OF solist_invD(1) [OF t]] unfolding unique_inv_def by metis
    then show False using owned_disjoint [OF inv' _ _ \<open>j \<noteq> i\<close> qj] p(1) i'(1) j(1) u_run_threads(1) assms(6)
      by (metis union_single_eq_member add_mset_add_single empty_neutral(1))
  qed
  ultimately show ?thesis by blast
qed

definition filled :: "(nat, nat \<times> nat) u_system" where
  "filled = u_run map_traits (replicate 8 0) (u_init table_8 [Insert_value (1, 10), Find_key 1])"

lemma filled_run:
  "(values_of (table filled), threads filled) =
    ([(1, 10)], [(Insert_value (1, 10), Inserted 1 True), (Find_key 1, Start)])"
  by code_simp

theorem unordered_key_never_lost_witness:
  "snd (threads (u_run map_traits (replicate 20 1) filled) ! 1) \<noteq> Found None \<and>
    (allow_multimapping map_traits \<or> owned (snd (threads (u_run map_traits (replicate 20 1) filled) ! 1)) = {#})"
proof (rule unordered_key_never_lost [OF new_table_8 filled_def _ _ _ refl])
  show "1 < length (threads filled)" "threads filled ! 1 = (Find_key 1, Start)"
    using filled_run by simp_all
  show "request_key map_traits (Find_key 1) \<in> get_key map_traits ` set (values_of (table filled))"
    using filled_run by (simp add: map_traits_def)
qed

section \<open>equal_range\<close>

text \<open>A thread alone: some number of its steps leads from one state to another.\<close>

definition alone :: "('k, 'v) traits \<Rightarrow> ('k, 'v) u_request \<Rightarrow> 'v unordered \<Rightarrow> u_pc \<Rightarrow> u_pc \<Rightarrow> bool" where
  "alone C r T pc pc' \<longleftrightarrow> (\<exists>n. ((\<lambda>(T, pc). thread_step C r T pc) ^^ n) (T, pc) = (T, pc'))"

lemma alone_refl: "alone C r T pc pc"
  unfolding alone_def by (rule exI [of _ 0]) simp

lemma alone_step:
  assumes "thread_step C r T pc = (T, pc1)" "alone C r T pc1 pc'"
  shows "alone C r T pc pc'"
proof -
  obtain n where "((\<lambda>(T, pc). thread_step C r T pc) ^^ n) (T, pc1) = (T, pc')" using assms(2) by (auto simp: alone_def)
  then have "((\<lambda>(T, pc). thread_step C r T pc) ^^ Suc n) (T, pc) = (T, pc')"
    using assms(1) by (simp add: funpow_Suc_right del: funpow.simps)
  then show ?thesis unfolding alone_def by (rule exI)
qed

lemma range_to_first:
  "list_inv C T (us @ ms @ p # xs) \<Longrightarrow> key_at C T p = Some k \<Longrightarrow> \<forall>m\<in>set ms. key_at C T m \<noteq> Some k \<Longrightarrow>
    alone C (Range_key k) T (R_test (Some p)) pc \<Longrightarrow> alone C (Range_key k) T (R_test (Some (hd (ms @ [p])))) pc"
proof (induction ms arbitrary: us)
  case (Cons m ms)
  have l: "list_inv C T ((us @ [m]) @ ms @ p # xs)" using Cons.prems(1) by simp
  have nx: "succ_of T m = Some (hd (ms @ [p]))" using next_splits [of C T us m "ms @ p # xs"] Cons.prems(1) by (cases ms) auto
  have "order_key T p = regular_key C k" using key_at_regular [OF Cons.prems(1) _ Cons.prems(2)] by simp
  moreover have "order_key T m \<le> order_key T p" using list_invD(5) [OF Cons.prems(1)] by (auto simp: sorted_append)
  ultimately have "range_step C k (Some m) T = R_next m" using Cons.prems(3) by (simp add: range_step_def Let_def)
  moreover have "alone C (Range_key k) T (R_next m) pc"
    by (rule alone_step [OF _ Cons.IH [OF l Cons.prems(2) _ Cons.prems(4)]]) (use nx Cons.prems(3) in simp_all)
  ultimately have "alone C (Range_key k) T (R_test (Some m)) pc"
    by (intro alone_step [of C "Range_key k" T "R_test (Some m)" "R_next m"]) simp_all
  then show ?case by simp
qed simp

lemma range_to_last:
  "list_inv C T (us @ y # ns @ q # xs) \<Longrightarrow> allow_multimapping C \<Longrightarrow>
    \<forall>m\<in>set ns. is_dummy_key (order_key T m) \<or> key_at C T m = Some k \<Longrightarrow>
    \<not> is_dummy_key (order_key T q) \<Longrightarrow> key_at C T q \<noteq> Some k \<Longrightarrow>
    alone C (Range_key k) T (R_last p y) (Ranged (Some p) (Some q))"
proof (induction ns arbitrary: us y)
  case Nil
  have "succ_of T y = Some q" using next_splits [of C T us y "q # xs"] Nil.prems(1) by auto
  then have "thread_step C (Range_key k) T (R_last p y) = (T, R_skip p (Some q))" by simp
  moreover have "thread_step C (Range_key k) T (R_skip p (Some q)) = (T, Ranged (Some p) (Some q))"
    using Nil.prems(4,5) by (simp add: last_step_def)
  ultimately show ?case using alone_step alone_refl by metis
next
  case (Cons m ns)
  have "succ_of T y = Some m" using next_splits [of C T us y "m # ns @ q # xs"] Cons.prems(1) by auto
  then have "thread_step C (Range_key k) T (R_last p y) = (T, R_skip p (Some m))" by simp
  moreover have "thread_step C (Range_key k) T (R_skip p (Some m)) = (T, R_last p m)"
    using Cons.prems(2,3) by (auto simp: last_step_def)
  moreover have "alone C (Range_key k) T (R_last p m) (Ranged (Some p) (Some q))"
    by (rule Cons.IH [of "us @ [y]"]) (use Cons.prems in simp_all)
  ultimately show ?case using alone_step by metis
qed

text \<open>
  C38: \<^verbatim>\<open>equal_range\<close> of a multimap stops at the first other key. Let the list hold, from the position \<open>d\<close>
  at which the search of the bucket stands, values without the key up to \<open>p\<close>, the first value with the key,
  then values with the key and dummies up to \<open>q\<close>, a value with another key, and behind \<open>q\<close> another value
  \<open>r\<close> with the key (all have the same order key, so the keys of \<open>p\<close> and \<open>q\<close> have the same hash value up to its
  top bit). A thread that runs alone answers the range from \<open>p\<close> to \<open>q\<close>, in which \<open>r\<close> is not.
\<close>

theorem multimap_equal_range_stops_early:
  assumes "allow_multimapping C" "list_inv C T (us @ ms @ p # ns @ q # xs)"
    and "\<forall>m\<in>set ms. key_at C T m \<noteq> Some k" "key_at C T p = Some k"
    and "\<forall>m\<in>set ns. is_dummy_key (order_key T m) \<or> key_at C T m = Some k"
    and "\<not> is_dummy_key (order_key T q)" "key_at C T q \<noteq> Some k" "r \<in> set xs" "key_at C T r = Some k"
  shows "alone C (Range_key k) T (R_test (Some (hd (ms @ [p])))) (Ranged (Some p) (Some q)) \<and>
    r \<notin> set (p # ns) \<and> order_key T q = order_key T p"
proof -
  note l = list_invD(2,5) [OF assms(2)]
  have k: "order_key T p = regular_key C k" "order_key T r = regular_key C k"
    using key_at_regular [OF assms(2)] assms(4,8,9) by simp_all
  then have "range_step C k (Some p) T = R_last p p" using assms(4) by (simp add: range_step_def Let_def)
  moreover have "alone C (Range_key k) T (R_last p p) (Ranged (Some p) (Some q))"
    by (rule range_to_last [of C T "us @ ms"]) (use assms in simp_all)
  ultimately have "alone C (Range_key k) T (R_test (Some p)) (Ranged (Some p) (Some q))"
    by (intro alone_step [of C "Range_key k" T "R_test (Some p)" "R_last p p"]) simp_all
  then have "alone C (Range_key k) T (R_test (Some (hd (ms @ [p])))) (Ranged (Some p) (Some q))"
    by (rule range_to_first [OF assms(2,4,3)])
  moreover have "r \<notin> set (p # ns)" using l(1) assms(8) by auto
  moreover have "order_key T p \<le> order_key T q" "order_key T q \<le> order_key T r"
    using l(2) assms(8) by (auto simp: sorted_append)
  then have "order_key T q = order_key T p" using k by simp
  ultimately show ?thesis by blast
qed

text \<open>Two values with key 1 and, inserted between them, one with key 2 and the same hash value.\<close>

definition collided :: "(nat, nat \<times> nat) u_system" where
  "collided = u_run multi_traits (replicate 8 0 @ replicate 10 1 @ replicate 12 2)
    (u_init table_8 [Insert_value (1, 10), Insert_value (2, 20), Insert_value (1, 11)])"

definition table_view :: "('k, 'v) traits \<Rightarrow> 'v unordered \<Rightarrow> nat list \<times> 'k option list \<times> bool list" where
  "table_view C T = (list_of T, map (key_at C T) [0, 1, 2, 3], map (\<lambda>p. is_dummy_key (order_key T p)) [0, 1, 2, 3])"

lemma collided_view:
  "table_view multi_traits (table collided) =
    ([0, 1, 2, 3], [None, Some 1, Some 2, Some 1], [True, False, False, False])"
  by code_simp

theorem multimap_equal_range_stops_early_witness:
  "alone multi_traits (Range_key 1) (table collided) (R_test (Some 0)) (Ranged (Some 1) (Some 2)) \<and>
    key_at multi_traits (table collided) 3 = Some 1"
proof -
  obtain ps where "system_inv multi_traits collided ps"
    using u_reachable [OF new_table_8] unfolding collided_def by metis
  then have l: "list_inv multi_traits (table collided) ps" by (simp add: system_inv_def solist_inv_def)
  note v = collided_view [unfolded table_view_def]
  have "ps = [] @ [0] @ 1 # [] @ 2 # [3]" using list_of_chain [OF l] v by simp
  from multimap_equal_range_stops_early [OF _ l [unfolded this], of 1 3] show ?thesis
    using v by (simp add: multi_traits_def)
qed

end
