(* ===== verification/Queuing_Mutex.thy ===== *)
theory Queuing_Mutex
  imports Prelude
begin

text \<open>
  \<^verbatim>\<open>include/tbb/queuing_mutex.h\<close> and \<^verbatim>\<open>src/tbb/queuing_mutex.cpp\<close>: the queue lock. A \<^verbatim>\<open>scoped_lock\<close> is a node of
  the queue and is used by one thread at a time, so a number stands for both. One rule per shared
  access. A run records when a lock arrives (its swap of \<^verbatim>\<open>q_tail\<close>), enters and leaves; the lock is
  compared with a queue whose head may enter.
\<close>

section \<open>State and steps\<close>

text \<open>
  Program counters: \<open>Swap\<close> and \<open>Try\<close> are before the access to \<^verbatim>\<open>q_tail\<close> in \<^verbatim>\<open>acquire\<close> and \<^verbatim>\<open>try_acquire\<close>,
  \<open>Link p\<close> before \<^verbatim>\<open>pred->next = this\<close>, \<open>Spin\<close> waits for \<^verbatim>\<open>going\<close>; \<open>Check\<close> is the test of \<^verbatim>\<open>next\<close> in
  \<^verbatim>\<open>release\<close>, \<open>Cas_tail\<close> the compare-and-swap that follows, \<open>Wait_next\<close> waits for a successor and \<open>Go\<close>
  sets its \<^verbatim>\<open>going\<close>.
\<close>

datatype qm_pc = Unlocked | Swap | Try | Link nat | Spin | Held | Check | Cas_tail | Wait_next | Go

record scoped_lock =
  owns_mutex :: bool
  next_lock :: "nat option"
  going :: bool

record queuing_mutex =
  q_tail :: "nat option"
  lock_nodes :: "nat \<Rightarrow> scoped_lock"
  qm_pcs :: "nat \<Rightarrow> qm_pc"

datatype qm_event = Arrive nat | Enter nat | Leave nat

definition qm_init :: queuing_mutex where
  "qm_init = \<lparr>q_tail = None, lock_nodes = (\<lambda>_. \<lparr>owns_mutex = False, next_lock = None, going = False\<rparr>),
     qm_pcs = (\<lambda>_. Unlocked)\<rparr>"

definition at_pc :: "queuing_mutex \<Rightarrow> nat \<Rightarrow> qm_pc \<Rightarrow> queuing_mutex" where
  "at_pc s i c = s\<lparr>qm_pcs := (qm_pcs s)(i := c)\<rparr>"

definition upd_node :: "queuing_mutex \<Rightarrow> nat \<Rightarrow> (scoped_lock \<Rightarrow> scoped_lock) \<Rightarrow> queuing_mutex" where
  "upd_node s i f = s\<lparr>lock_nodes := (lock_nodes s)(i := f (lock_nodes s i))\<rparr>"

definition done_release :: "queuing_mutex \<Rightarrow> nat \<Rightarrow> queuing_mutex" where
  "done_release s i = at_pc (upd_node s i (owns_mutex_update (\<lambda>_. False))) i Unlocked"

inductive qm_step :: "queuing_mutex \<Rightarrow> qm_event list \<Rightarrow> queuing_mutex \<Rightarrow> bool" where
  acquire: "qm_pcs s i = Unlocked \<Longrightarrow>
    qm_step s [] (at_pc (upd_node s i (\<lambda>_. \<lparr>owns_mutex = True, next_lock = None, going = False\<rparr>)) i Swap)"
| try_acquire: "qm_pcs s i = Unlocked \<Longrightarrow>
    qm_step s [] (at_pc (upd_node s i (\<lambda>l. l\<lparr>next_lock := None, going := False\<rparr>)) i Try)"
| swap_free: "qm_pcs s i = Swap \<Longrightarrow> q_tail s = None \<Longrightarrow>
    qm_step s [Arrive i, Enter i] (at_pc (s\<lparr>q_tail := Some i\<rparr>) i Held)"
| swap_busy: "qm_pcs s i = Swap \<Longrightarrow> q_tail s = Some p \<Longrightarrow>
    qm_step s [Arrive i] (at_pc (s\<lparr>q_tail := Some i\<rparr>) i (Link p))"
| try_free: "qm_pcs s i = Try \<Longrightarrow> q_tail s = None \<Longrightarrow>
    qm_step s [Arrive i, Enter i]
      (at_pc (upd_node (s\<lparr>q_tail := Some i\<rparr>) i (owns_mutex_update (\<lambda>_. True))) i Held)"
| try_busy: "qm_pcs s i = Try \<Longrightarrow> q_tail s \<noteq> None \<Longrightarrow> qm_step s [] (at_pc s i Unlocked)"
| link: "qm_pcs s i = Link p \<Longrightarrow>
    qm_step s [] (at_pc (upd_node s p (next_lock_update (\<lambda>_. Some i))) i Spin)"
| spin: "qm_pcs s i = Spin \<Longrightarrow> going (lock_nodes s i) \<Longrightarrow> qm_step s [Enter i] (at_pc s i Held)"
| release: "qm_pcs s i = Held \<Longrightarrow> qm_step s [] (at_pc s i Check)"
| check: "qm_pcs s i = Check \<Longrightarrow>
    qm_step s [] (at_pc s i (if next_lock (lock_nodes s i) = None then Cas_tail else Go))"
| cas_last: "qm_pcs s i = Cas_tail \<Longrightarrow> q_tail s = Some i \<Longrightarrow>
    qm_step s [Leave i] (done_release (s\<lparr>q_tail := None\<rparr>) i)"
| cas_fail: "qm_pcs s i = Cas_tail \<Longrightarrow> q_tail s \<noteq> Some i \<Longrightarrow> qm_step s [] (at_pc s i Wait_next)"
| wait_next: "qm_pcs s i = Wait_next \<Longrightarrow> next_lock (lock_nodes s i) \<noteq> None \<Longrightarrow> qm_step s [] (at_pc s i Go)"
| go: "qm_pcs s i = Go \<Longrightarrow> next_lock (lock_nodes s i) = Some j \<Longrightarrow>
    qm_step s [Leave i] (done_release (upd_node s j (going_update (\<lambda>_. True))) i)"

inductive qm_run :: "qm_event list \<Rightarrow> queuing_mutex \<Rightarrow> bool" where
  qm_start: "qm_run [] qm_init"
| qm_next: "qm_run tr s \<Longrightarrow> qm_step s evs t \<Longrightarrow> qm_run (tr @ evs) t"

section \<open>The abstract lock\<close>

text \<open>The locks that wait, in the order of their arrival, the holder first.\<close>

fun fifo_event :: "qm_event \<Rightarrow> nat list \<times> nat option \<Rightarrow> (nat list \<times> nat option) option" where
  "fifo_event (Arrive i) (Q, h) = (if i \<in> set Q then None else Some (Q @ [i], h))"
| "fifo_event (Enter i) (Q, h) = (if h = None \<and> Q \<noteq> [] \<and> hd Q = i then Some (Q, Some i) else None)"
| "fifo_event (Leave i) (Q, h) = (if h = Some i then Some (tl Q, None) else None)"

fun fifo_lock :: "qm_event list \<Rightarrow> nat list \<times> nat option \<Rightarrow> (nat list \<times> nat option) option" where
  "fifo_lock [] q = Some q"
| "fifo_lock (e # es) q = (case fifo_event e q of None \<Rightarrow> None | Some q' \<Rightarrow> fifo_lock es q')"

fun arrivals :: "qm_event list \<Rightarrow> nat list" where
  "arrivals [] = []" | "arrivals (Arrive i # es) = i # arrivals es" | "arrivals (_ # es) = arrivals es"

fun entries :: "qm_event list \<Rightarrow> nat list" where
  "entries [] = []" | "entries (Enter i # es) = i # entries es" | "entries (_ # es) = entries es"

fun departures :: "qm_event list \<Rightarrow> nat list" where
  "departures [] = []" | "departures (Leave i # es) = i # departures es" | "departures (_ # es) = departures es"

lemma fifo_lock_append:
  "fifo_lock (es @ fs) q = (case fifo_lock es q of None \<Rightarrow> None | Some q' \<Rightarrow> fifo_lock fs q')"
  by (induction es arbitrary: q) (auto split: option.splits)

lemma trace_append:
  "arrivals (es @ fs) = arrivals es @ arrivals fs" "entries (es @ fs) = entries es @ entries fs"
  "departures (es @ fs) = departures es @ departures fs"
proof -
  have "arrivals (es @ fs) = arrivals es @ arrivals fs \<and> entries (es @ fs) = entries es @ entries fs \<and>
    departures (es @ fs) = departures es @ departures fs"
  proof (induction es)
    case (Cons e es)
    then show ?case by (cases e) simp_all
  qed simp
  then show "arrivals (es @ fs) = arrivals es @ arrivals fs" "entries (es @ fs) = entries es @ entries fs"
    "departures (es @ fs) = departures es @ departures fs" by blast+
qed

lemma fifo_lock_order:
  "fifo_lock es ([], None) = Some (Q, h) \<Longrightarrow>
    arrivals es = departures es @ Q \<and> (case h of None \<Rightarrow> entries es = departures es
      | Some i \<Rightarrow> entries es = departures es @ [i] \<and> Q \<noteq> [] \<and> hd Q = i)"
proof (induction es arbitrary: Q h rule: rev_induct)
  case (snoc e es)
  then obtain Q' h' where q: "fifo_lock es ([], None) = Some (Q', h')" "fifo_event e (Q', h') = Some (Q, h)"
    by (auto simp: fifo_lock_append split: option.splits)
  show ?case using snoc.IH [OF q(1)] q(2)
    by (cases e) (auto simp: trace_append split: if_splits option.splits)
qed simp

section \<open>The queue behind the nodes\<close>

text \<open>
  \<open>follows s x y\<close>: \<open>y\<close> came right after \<open>x\<close>. The locks in the queue are those that have swapped \<^verbatim>\<open>q_tail\<close>
  and not yet handed on; the first holds the lock or has been told to go.
\<close>

definition follows :: "queuing_mutex \<Rightarrow> nat \<Rightarrow> nat \<Rightarrow> bool" where
  "follows s x y \<longleftrightarrow> \<not> going (lock_nodes s y) \<and>
     (if qm_pcs s y = Spin then next_lock (lock_nodes s x) = Some y
      else qm_pcs s y = Link x \<and> next_lock (lock_nodes s x) = None)"

fun linked :: "queuing_mutex \<Rightarrow> nat list \<Rightarrow> bool" where
  "linked s (x # y # zs) \<longleftrightarrow> follows s x y \<and> linked s (y # zs)"
| "linked s _ \<longleftrightarrow> True"

definition holding :: "qm_pc \<Rightarrow> bool" where
  "holding c \<longleftrightarrow> c \<in> {Held, Check, Cas_tail, Wait_next, Go}"

definition outside :: "queuing_mutex \<Rightarrow> nat \<Rightarrow> bool" where
  "outside s i \<longleftrightarrow> qm_pcs s i = Unlocked \<and> \<not> owns_mutex (lock_nodes s i) \<or>
     qm_pcs s i = Swap \<and> owns_mutex (lock_nodes s i) \<and> next_lock (lock_nodes s i) = None \<and> \<not> going (lock_nodes s i) \<or>
     qm_pcs s i = Try \<and> \<not> owns_mutex (lock_nodes s i) \<and> next_lock (lock_nodes s i) = None \<and> \<not> going (lock_nodes s i)"

definition head_ok :: "queuing_mutex \<Rightarrow> nat list \<Rightarrow> nat option \<Rightarrow> bool" where
  "head_ok s Q h \<longleftrightarrow> (case Q of [] \<Rightarrow> h = None
     | x # zs \<Rightarrow> (if holding (qm_pcs s x) then h = Some x else h = None \<and> qm_pcs s x = Spin \<and> going (lock_nodes s x)) \<and>
         (qm_pcs s x = Wait_next \<longrightarrow> zs \<noteq> []) \<and> (qm_pcs s x = Go \<longrightarrow> next_lock (lock_nodes s x) \<noteq> None))"

definition qm_inv :: "nat list \<Rightarrow> nat option \<Rightarrow> queuing_mutex \<Rightarrow> bool" where
  "qm_inv Q h s \<longleftrightarrow> distinct Q \<and> q_tail s = (if Q = [] then None else Some (last Q)) \<and>
     (\<forall>i. i \<notin> set Q \<longrightarrow> outside s i) \<and> linked s Q \<and> (Q \<noteq> [] \<longrightarrow> next_lock (lock_nodes s (last Q)) = None) \<and>
     head_ok s Q h \<and> (\<forall>i\<in>set Q. owns_mutex (lock_nodes s i))"

lemma qm_invI:
  assumes "distinct Q" "q_tail s = (if Q = [] then None else Some (last Q))" "\<And>i. i \<notin> set Q \<Longrightarrow> outside s i"
    "linked s Q" "Q \<noteq> [] \<Longrightarrow> next_lock (lock_nodes s (last Q)) = None" "head_ok s Q h"
    "\<And>i. i \<in> set Q \<Longrightarrow> owns_mutex (lock_nodes s i)"
  shows "qm_inv Q h s"
  using assms by (simp add: qm_inv_def)

lemma qm_invD:
  assumes "qm_inv Q h s"
  shows "distinct Q" "q_tail s = (if Q = [] then None else Some (last Q))" "i \<notin> set Q \<Longrightarrow> outside s i"
    "linked s Q" "Q \<noteq> [] \<Longrightarrow> next_lock (lock_nodes s (last Q)) = None" "head_ok s Q h"
    "i \<in> set Q \<Longrightarrow> owns_mutex (lock_nodes s i)"
  using assms by (simp_all add: qm_inv_def)

lemma in_set_tl: "x \<in> set (tl xs) \<Longrightarrow> x \<in> set xs"
  by (cases xs) auto

lemma outside_frame:
  "outside s i \<Longrightarrow> qm_pcs t i = qm_pcs s i \<Longrightarrow> lock_nodes t i = lock_nodes s i \<Longrightarrow> outside t i"
  by (simp add: outside_def)

lemma linked_frame:
  assumes "linked s Q" "distinct Q" "\<And>x. x \<in> set (butlast Q) \<Longrightarrow> next_lock (lock_nodes t x) = next_lock (lock_nodes s x)"
    "\<And>y. y \<in> set (tl Q) \<Longrightarrow> qm_pcs t y = qm_pcs s y \<and> going (lock_nodes t y) = going (lock_nodes s y)"
  shows "linked t Q"
  using assms
proof (induction s Q rule: linked.induct)
  case (1 s x y zs)
  have "linked t (y # zs)"
  proof (rule "1.IH")
    fix z assume "z \<in> set (tl (y # zs))"
    then show "qm_pcs t z = qm_pcs s z \<and> going (lock_nodes t z) = going (lock_nodes s z)" using "1.prems"(4) by simp
  qed (use "1.prems" in auto)
  then show ?case using "1.prems" by (simp add: follows_def)
qed simp_all

lemma linked_append:
  "linked s (xs @ p # i # ys) \<longleftrightarrow> linked s (xs @ [p]) \<and> follows s p i \<and> linked s (i # ys)"
proof (induction xs)
  case (Cons x xs)
  then show ?case by (cases xs) auto
qed simp

lemma linked_snoc: "linked s Q \<Longrightarrow> Q \<noteq> [] \<Longrightarrow> follows s (last Q) i \<Longrightarrow> linked s (Q @ [i])"
  by (cases Q rule: rev_cases) (simp_all add: linked_append)

lemma waiting_split:
  assumes "linked s Q" "i \<in> set Q" "\<not> (Q \<noteq> [] \<and> hd Q = i)"
  obtains xs p ys where "Q = xs @ p # i # ys" "follows s p i"
proof -
  obtain as bs where Q: "Q = as @ i # bs" using assms(2) split_list by metis
  then obtain xs p where "as = xs @ [p]" using assms(3) by (cases as rule: rev_cases) auto
  then show ?thesis using that [of xs p bs] Q assms(1) linked_append by simp
qed

lemma in_queue: "qm_inv Q h s \<Longrightarrow> qm_pcs s i \<notin> {Unlocked, Swap, Try} \<Longrightarrow> i \<in> set Q"
  using qm_invD(3) [of Q h s i] by (auto simp: outside_def)

lemma not_in_queue:
  assumes inv: "qm_inv Q h s" and i: "qm_pcs s i \<in> {Unlocked, Swap, Try}"
  shows "i \<notin> set Q"
proof
  assume iq: "i \<in> set Q"
  have "hd Q = i" using waiting_split [OF qm_invD(4) [OF inv] iq] i by (force simp: follows_def)
  then show False using qm_invD(6) [OF inv] i iq by (cases Q) (auto simp: head_ok_def holding_def split: if_splits)
qed

lemma holder:
  assumes "qm_inv Q h s" "holding (qm_pcs s i)"
  shows "Q \<noteq> []" "hd Q = i" "h = Some i" "Q = i # tl Q"
proof -
  have i: "i \<in> set Q" using assms by (intro in_queue) (auto simp: holding_def)
  show hd: "hd Q = i"
  proof (rule ccontr)
    assume "hd Q \<noteq> i"
    then obtain xs p ys where "follows s p i" using waiting_split [OF qm_invD(4) [OF assms(1)] i] by blast
    then show False using assms(2) by (auto simp: follows_def holding_def split: if_splits)
  qed
  show "Q \<noteq> []" using i by auto
  then show "Q = i # tl Q" using hd by (cases Q) auto
  then show "h = Some i" using qm_invD(6) [OF assms(1)] assms(2) by (cases Q) (auto simp: head_ok_def)
qed

lemmas node_simps = at_pc_def upd_node_def done_release_def

lemma qm_inv_init: "qm_inv [] None qm_init"
  by (rule qm_invI) (simp_all add: qm_init_def outside_def head_ok_def)

text \<open>The steps, by where the moving lock stands.\<close>

lemma outside_moves:
  assumes inv: "qm_inv Q h s" and i: "i \<notin> set Q" and t: "outside t i" "q_tail t = q_tail s"
    and o: "\<And>j. j \<noteq> i \<Longrightarrow> qm_pcs t j = qm_pcs s j \<and> lock_nodes t j = lock_nodes s j"
  shows "qm_inv Q h t"
proof -
  note d = qm_invD [OF inv]
  have f: "qm_pcs t j = qm_pcs s j \<and> lock_nodes t j = lock_nodes s j" if "j \<in> set Q" for j using o [of j] i that by metis
  show ?thesis
  proof (rule qm_invI)
    show "outside t j" if "j \<notin> set Q" for j
      using outside_frame [OF d(3) [OF that], of t] o [of j] t(1) by (cases "j = i") auto
    show "linked t Q"
      by (rule linked_frame [OF d(4,1)]) (use f in \<open>auto dest: in_set_butlastD in_set_tl\<close>)
    show "head_ok t Q h" using d(6) f by (cases Q) (auto simp: head_ok_def)
  qed (use d t(2) f in auto)
qed

lemma head_moves:
  assumes inv: "qm_inv Q h s" and i: "holding (qm_pcs s i)" and c: "holding c"
    and n: "c = Wait_next \<Longrightarrow> tl Q \<noteq> []" "c = Go \<Longrightarrow> next_lock (lock_nodes s i) \<noteq> None"
  shows "qm_inv Q h (at_pc s i c)"
proof -
  note d = qm_invD [OF inv] and q = holder [OF inv i]
  have ni: "i \<notin> set (tl Q)" using d(1) q(4) by (metis distinct.simps(2))
  show ?thesis
  proof (rule qm_invI)
    show "outside (at_pc s i c) j" if "j \<notin> set Q" for j
    proof -
      have "j \<noteq> i" using that q(4) by (metis list.set_intros(1))
      then show ?thesis using outside_frame [OF d(3) [OF that], of "at_pc s i c"] by (simp add: at_pc_def)
    qed
    show "linked (at_pc s i c) Q"
      by (rule linked_frame [OF d(4,1)]) (use ni in \<open>auto simp: at_pc_def\<close>)
    show "head_ok (at_pc s i c) Q h"
      unfolding arg_cong [OF q(4), of "\<lambda>Q. head_ok (at_pc s i c) Q h"]
      using q(3) c n by (auto simp: head_ok_def at_pc_def)
  qed (use d in \<open>auto simp: at_pc_def\<close>)
qed

lemma arrive_busy:
  assumes inv: "qm_inv Q h s" and i: "qm_pcs s i = Swap" and p: "q_tail s = Some p"
  shows "qm_inv (Q @ [i]) h (at_pc (s\<lparr>q_tail := Some i\<rparr>) i (Link p))" "i \<notin> set Q"
proof -
  note d = qm_invD [OF inv]
  let ?t = "at_pc (s\<lparr>q_tail := Some i\<rparr>) i (Link p)"
  have Q: "Q \<noteq> []" "last Q = p" using d(2) p by (auto split: if_splits)
  show ni: "i \<notin> set Q" using not_in_queue [OF inv, of i] i by simp
  have o: "outside s i" using d(3) [OF ni] .
  have f: "qm_pcs ?t j = qm_pcs s j \<and> lock_nodes ?t j = lock_nodes s j" if "j \<noteq> i" for j
    using that by (simp add: at_pc_def)
  have fq: "qm_pcs ?t j = qm_pcs s j \<and> lock_nodes ?t j = lock_nodes s j" if "j \<in> set Q" for j using f ni that by metis
  have l: "linked ?t Q"
    by (rule linked_frame [OF d(4,1)]) (use fq in \<open>auto dest: in_set_butlastD in_set_tl\<close>)
  have "next_lock (lock_nodes s p) = None" using d(5) Q by simp
  then have "follows ?t (last Q) i" using o i Q by (simp add: follows_def at_pc_def outside_def)
  then have "linked ?t (Q @ [i])" using linked_snoc [OF l Q(1)] by blast
  then show "qm_inv (Q @ [i]) h ?t"
  proof (intro qm_invI)
    show "outside ?t j" if "j \<notin> set (Q @ [i])" for j
      using outside_frame [OF d(3) [of j], of ?t] f [of j] that by simp
    show "head_ok ?t (Q @ [i]) h" using d(6) fq Q(1) by (cases Q) (auto simp: head_ok_def)
    show "owns_mutex (lock_nodes ?t j)" if "j \<in> set (Q @ [i])" for j
      using that d(7) [of j] o i by (auto simp: at_pc_def outside_def)
  qed (use d ni o i in \<open>auto simp: at_pc_def outside_def\<close>)
qed

lemma arrive_free:
  assumes inv: "qm_inv Q h s" and i: "qm_pcs s i = Swap \<or> qm_pcs s i = Try" and p: "q_tail s = None"
    and t: "q_tail t = Some i" "qm_pcs t = (qm_pcs s)(i := Held)"
      "lock_nodes t = (lock_nodes s)(i := (lock_nodes s i)\<lparr>owns_mutex := True\<rparr>)"
  shows "qm_inv [i] (Some i) t" "Q = []" "h = None"
proof -
  note d = qm_invD [OF inv]
  show Q: "Q = []" using d(2) p by (auto split: if_splits)
  then show "h = None" using d(6) by (simp add: head_ok_def)
  have o: "outside s j" for j using d(3) [of j] Q by simp
  show "qm_inv [i] (Some i) t"
  proof (rule qm_invI)
    show "outside t j" if "j \<notin> set [i]" for j
      using outside_frame [OF o [of j], of t] t that by simp
  qed (use o [of i] i t in \<open>auto simp: outside_def head_ok_def holding_def\<close>)
qed

lemma link_moves:
  assumes inv: "qm_inv Q h s" and i: "qm_pcs s i = Link p"
  shows "qm_inv Q h (at_pc (upd_node s p (next_lock_update (\<lambda>_. Some i))) i Spin)" "next_lock (lock_nodes s p) = None"
proof -
  note d = qm_invD [OF inv]
  let ?t = "at_pc (upd_node s p (next_lock_update (\<lambda>_. Some i))) i Spin"
  have iq: "i \<in> set Q" using in_queue [OF inv, of i] i by simp
  have "\<not> (Q \<noteq> [] \<and> hd Q = i)"
    using d(6) i by (cases Q) (auto simp: head_ok_def holding_def split: if_splits)
  then obtain xs p' ys where Q: "Q = xs @ p' # i # ys" and fol: "follows s p' i"
    using waiting_split [OF d(4) iq] by blast
  have p: "p' = p" using fol i by (simp add: follows_def)
  show n: "next_lock (lock_nodes s p) = None" using fol i by (simp add: follows_def p)
  have dist: "p \<noteq> i" "p \<notin> set xs" "p \<notin> set ys" "i \<notin> set xs" "i \<notin> set ys" "distinct (xs @ [p])" "distinct (i # ys)"
    using d(1) by (auto simp: Q p)
  have l: "linked s (xs @ [p])" "linked s (i # ys)" using d(4) linked_append [of s xs p i ys] by (auto simp: Q p)
  have "linked ?t (xs @ [p])"
    by (rule linked_frame [OF l(1) dist(6)]) (use dist in \<open>auto simp: node_simps dest!: in_set_tl\<close>)
  moreover have "linked ?t (i # ys)"
  proof (rule linked_frame [OF l(2) dist(7)])
    fix x assume "x \<in> set (butlast (i # ys))"
    then have "x \<noteq> p" using dist(1,3) in_set_butlastD [of x "i # ys"] by auto
    then show "next_lock (lock_nodes ?t x) = next_lock (lock_nodes s x)" by (simp add: node_simps)
  qed (use dist in \<open>auto simp: node_simps\<close>)
  moreover have "follows ?t p i" using fol dist by (simp add: follows_def node_simps p)
  ultimately have lt: "linked ?t Q" by (simp add: Q p linked_append)
  show "qm_inv Q h ?t"
  proof (rule qm_invI)
    show "outside ?t j" if "j \<notin> set Q" for j
      using outside_frame [OF d(3) [OF that], of ?t] that by (simp add: node_simps Q p)
    show "head_ok ?t Q h" using d(6) dist unfolding Q p by (cases xs) (auto simp: head_ok_def node_simps)
    show "next_lock (lock_nodes ?t (last Q)) = None" using d(5) dist(1,3) by (auto simp: Q p node_simps last_in_set)
    show "owns_mutex (lock_nodes ?t j)" if "j \<in> set Q" for j using d(7) [OF that] by (auto simp: node_simps)
  qed (use d lt in \<open>auto simp: node_simps\<close>)
qed

lemma spin_moves:
  assumes inv: "qm_inv Q h s" and i: "qm_pcs s i = Spin" "going (lock_nodes s i)"
  shows "qm_inv Q (Some i) (at_pc s i Held)" "h = None" "Q \<noteq> []" "hd Q = i"
proof -
  note d = qm_invD [OF inv]
  have iq: "i \<in> set Q" using in_queue [OF inv, of i] i by simp
  show hd: "hd Q = i" using waiting_split [OF d(4) iq] i(2) by (metis follows_def)
  show ne: "Q \<noteq> []" using iq by auto
  have Q: "Q = i # tl Q" using hd ne by (cases Q) auto
  show "h = None" using d(6) i by (subst (asm) Q) (simp add: head_ok_def holding_def)
  have ni: "i \<notin> set (tl Q)" using d(1) Q by (metis distinct.simps(2))
  show "qm_inv Q (Some i) (at_pc s i Held)"
  proof (rule qm_invI)
    show "outside (at_pc s i Held) j" if "j \<notin> set Q" for j
    proof -
      have "j \<noteq> i" using that iq by metis
      then show ?thesis using outside_frame [OF d(3) [OF that], of "at_pc s i Held"] by (simp add: at_pc_def)
    qed
    show "linked (at_pc s i Held) Q"
      by (rule linked_frame [OF d(4,1)]) (use ni in \<open>auto simp: at_pc_def\<close>)
    show "head_ok (at_pc s i Held) Q (Some i)" by (subst Q) (simp add: head_ok_def at_pc_def holding_def)
  qed (use d in \<open>auto simp: at_pc_def\<close>)
qed

lemma last_leaves:
  assumes inv: "qm_inv Q h s" and i: "qm_pcs s i = Cas_tail" "q_tail s = Some i"
  shows "qm_inv [] None (done_release (s\<lparr>q_tail := None\<rparr>) i)" "h = Some i" "tl Q = []"
proof -
  note d = qm_invD [OF inv]
  have "holding (qm_pcs s i)" using i(1) by (simp add: holding_def)
  note q = holder [OF inv this]
  show "h = Some i" by (rule q(3))
  have "i \<notin> set (tl Q)" using d(1) q(4) by (metis distinct.simps(2))
  moreover have "last Q = i" using d(2) i(2) by (auto split: if_splits)
  ultimately show t: "tl Q = []" using q(4) by (metis last.simps last_in_set)
  show "qm_inv [] None (done_release (s\<lparr>q_tail := None\<rparr>) i)"
  proof (rule qm_invI)
    show "outside (done_release (s\<lparr>q_tail := None\<rparr>) i) j" for j
    proof (cases "j = i")
      case False
      then have "j \<notin> set Q" using q(4) t by (metis list.set(1,2) singletonD)
      then show ?thesis using outside_frame [OF d(3), of j "done_release (s\<lparr>q_tail := None\<rparr>) i"] False by (simp add: node_simps)
    qed (simp add: outside_def node_simps)
  qed (simp_all add: node_simps head_ok_def)
qed

lemma go_leaves:
  assumes inv: "qm_inv Q h s" and i: "qm_pcs s i = Go" "next_lock (lock_nodes s i) = Some j"
  shows "qm_inv (tl Q) None (done_release (upd_node s j (going_update (\<lambda>_. True))) i)" "h = Some i"
proof -
  note d = qm_invD [OF inv]
  let ?t = "done_release (upd_node s j (going_update (\<lambda>_. True))) i"
  have "holding (qm_pcs s i)" using i(1) by (simp add: holding_def)
  note q = holder [OF inv this]
  show "h = Some i" by (rule q(3))
  obtain y zs where zs: "tl Q = y # zs" using d(5) q(1,2,4) i(2) by (cases "tl Q") (metis last.simps option.distinct(1))
  have Q: "Q = i # y # zs" using q(4) zs by simp
  have fol: "follows s i y" "linked s (y # zs)" using d(4) by (auto simp: Q)
  have j: "y = j" "qm_pcs s y = Spin" using fol(1) i(2) by (auto simp: follows_def split: if_splits)
  have ne: "i \<noteq> y" "i \<notin> set zs" "y \<notin> set zs" "distinct (y # zs)" using d(1) by (auto simp: Q)
  show "qm_inv (tl Q) None ?t"
    unfolding zs
  proof (rule qm_invI)
    show "outside ?t k" if "k \<notin> set (y # zs)" for k
      using outside_frame [OF d(3), of k ?t] that j(1) by (cases "k = i") (auto simp: node_simps Q outside_def)
    show "linked ?t (y # zs)"
      by (rule linked_frame [OF fol(2) ne(4)]) (use ne j in \<open>auto simp: node_simps dest: in_set_butlastD\<close>)
    show "head_ok ?t (y # zs) None" using j ne by (simp add: head_ok_def node_simps holding_def)
    show "next_lock (lock_nodes ?t (last (y # zs))) = None" using d(5) j ne by (auto simp: node_simps Q)
    show "owns_mutex (lock_nodes ?t k)" if "k \<in> set (y # zs)" for k
      using d(7) [of k] that ne by (auto simp: node_simps Q)
  qed (use d ne in \<open>auto simp: node_simps Q\<close>)
qed

section \<open>Runs\<close>

lemma qm_step_inv:
  assumes "qm_step s evs t" and inv: "qm_inv Q h s"
  shows "\<exists>Q' h'. qm_inv Q' h' t \<and> fifo_lock evs (Q, h) = Some (Q', h')"
  using assms(1)
proof (cases rule: qm_step.cases)
  case (acquire i)
  then have "i \<notin> set Q" using not_in_queue [OF inv, of i] by simp
  then show ?thesis using outside_moves [OF inv, of i t] acquire by (auto simp: outside_def node_simps)
next
  case (try_acquire i)
  then have "i \<notin> set Q" using not_in_queue [OF inv, of i] by simp
  then show ?thesis using outside_moves [OF inv, of i t] try_acquire qm_invD(3) [OF inv, of i]
    by (auto simp: outside_def node_simps)
next
  case (swap_free i)
  have "owns_mutex (lock_nodes s i)"
    using qm_invD(3) [OF inv not_in_queue [OF inv, of i]] swap_free(3) by (simp add: outside_def)
  then have "(lock_nodes s i)\<lparr>owns_mutex := True\<rparr> = lock_nodes s i" by (cases "lock_nodes s i") simp
  then have "qm_inv [i] (Some i) t" "Q = []" "h = None"
    using arrive_free [OF inv _ swap_free(4), of i t] swap_free by (simp_all add: node_simps)
  then show ?thesis using swap_free by simp
next
  case (swap_busy i p)
  then show ?thesis using arrive_busy [OF inv swap_busy(3,4)] by simp
next
  case (try_free i)
  have "qm_inv [i] (Some i) t" "Q = []" "h = None"
    using arrive_free [OF inv _ try_free(4), of i t] try_free by (auto simp: node_simps)
  then show ?thesis using try_free by simp
next
  case (try_busy i)
  then have i: "i \<notin> set Q" using not_in_queue [OF inv, of i] by simp
  then show ?thesis using outside_moves [OF inv, of i t] try_busy qm_invD(3) [OF inv i]
    by (auto simp: outside_def node_simps)
next
  case (link i p)
  then show ?thesis using link_moves(1) [OF inv link(3)] by auto
next
  case (spin i)
  then show ?thesis using spin_moves [OF inv spin(3,4)] by auto
next
  case (release i)
  then show ?thesis using head_moves [OF inv, of i Check] by (auto simp: holding_def)
next
  case (check i)
  then show ?thesis using head_moves [OF inv, of i "if next_lock (lock_nodes s i) = None then Cas_tail else Go"]
    by (auto simp: holding_def)
next
  case (cas_last i)
  then show ?thesis using last_leaves [OF inv cas_last(3,4)] by simp
next
  case (cas_fail i)
  then have hi: "holding (qm_pcs s i)" by (simp add: holding_def)
  have "tl Q \<noteq> []" using holder(4) [OF inv hi] qm_invD(2) [OF inv] cas_fail(4) by (metis last.simps list.distinct(1))
  then show ?thesis using head_moves [OF inv hi, of Wait_next] cas_fail by (auto simp: holding_def)
next
  case (wait_next i)
  then show ?thesis using head_moves [OF inv, of i Go] by (auto simp: holding_def)
next
  case (go i j)
  then show ?thesis using go_leaves [OF inv go(3,4)] by simp
qed

lemma qm_run_inv: "qm_run tr s \<Longrightarrow> \<exists>Q h. qm_inv Q h s \<and> fifo_lock tr ([], None) = Some (Q, h)"
proof (induction rule: qm_run.induct)
  case (qm_next tr s evs t)
  then obtain Q h where q: "qm_inv Q h s" "fifo_lock tr ([], None) = Some (Q, h)" by blast
  then show ?case using qm_step_inv [OF qm_next.hyps(2) q(1)] by (auto simp: fifo_lock_append)
qed (use qm_inv_init in auto)

lemma fifo_prefixes:
  assumes "fifo_lock tr ([], None) = Some (Q, h)"
  shows "\<exists>rest. arrivals tr = entries tr @ rest" "entries tr = departures tr @ (case h of None \<Rightarrow> [] | Some i \<Rightarrow> [i])"
  using fifo_lock_order [OF assms] by (cases h; cases Q; auto)+

lemma qm_progress:
  assumes inv: "qm_inv Q h s" and i: "qm_pcs s i \<notin> {Unlocked, Held}" and free: "\<And>j. qm_pcs s j \<noteq> Held"
  shows "\<exists>j evs t. qm_step s evs t \<and> qm_pcs s j \<notin> {Unlocked, Held} \<and> qm_pcs t j \<noteq> qm_pcs s j"
proof -
  have moves: ?thesis if "qm_step s evs t" "qm_pcs s j \<notin> {Unlocked, Held}" "qm_pcs t j \<noteq> qm_pcs s j" for j evs t
    using that by blast
  show ?thesis
  proof (cases "qm_pcs s i \<in> {Swap, Try}")
    case True
    then show ?thesis
      using moves [OF swap_free, of i i] moves [OF swap_busy, of i _ i] moves [OF try_free, of i i] moves [OF try_busy, of i i]
      by (cases "q_tail s") (auto simp: node_simps)
  next
    case False
    then obtain x zs where Q: "Q = x # zs" using in_queue [OF inv, of i] i by (cases Q) auto
    note hd = qm_invD(6) [OF inv, unfolded Q head_ok_def, simplified]
    have "qm_pcs s x \<notin> {Unlocked, Held}" using free [of x] hd by (auto simp: holding_def split: if_splits)
    then have ok: ?thesis if "qm_step s evs t" "qm_pcs t x \<noteq> qm_pcs s x" for evs t
      using moves [OF that(1), of x] that(2) by blast
    show ?thesis
    proof (cases "holding (qm_pcs s x)")
      case False
      then show ?thesis using ok [OF qm_step.spin] hd by (auto simp: node_simps)
    next
      case True
      then consider "qm_pcs s x = Check" | "qm_pcs s x = Cas_tail" | "qm_pcs s x = Wait_next" | "qm_pcs s x = Go"
        using free [of x] by (auto simp: holding_def)
      then show ?thesis
      proof cases
        case 1
        then show ?thesis using ok [OF qm_step.check] by (auto simp: node_simps)
      next
        case 2
        show ?thesis
        proof (cases "q_tail s = Some x")
          case True
          show ?thesis by (rule ok [OF qm_step.cas_last [OF 2 True]]) (simp add: 2 node_simps)
        next
          case False
          show ?thesis by (rule ok [OF qm_step.cas_fail [OF 2 False]]) (simp add: 2 node_simps)
        qed
      next
        case 3
        then obtain y ys where zs: "zs = y # ys" using hd by (cases zs) auto
        have f: "follows s x y" using qm_invD(4) [OF inv] by (simp add: Q zs)
        show ?thesis
        proof (cases "qm_pcs s y = Spin")
          case True
          then have "next_lock (lock_nodes s x) \<noteq> None" using f by (simp add: follows_def)
          then show ?thesis using ok [OF qm_step.wait_next] 3 by (auto simp: node_simps)
        next
          case False
          then have "qm_pcs s y = Link x" using f by (simp add: follows_def)
          then show ?thesis using moves [OF qm_step.link, of y x y] by (auto simp: node_simps)
        qed
      next
        case 4
        then show ?thesis using ok [OF qm_step.go] hd by (auto simp: node_simps)
      qed
    qed
  qed
qed

section \<open>Properties\<close>

text \<open>
  C18: \<^verbatim>\<open>queuing_mutex\<close> refines a first-in first-out lock: in any run the locks enter in the order in which
  they swapped the tail, one at a time, and a lock is inside exactly when it is the last to have
  entered and has not left. The assertions of the code hold: a lock that links itself has no rival
  behind the same predecessor, one that is released owns the mutex, and one that hands on has a successor.
\<close>

theorem queuing_mutex_fifo:
  assumes "qm_run tr s"
  shows "fifo_lock tr ([], None) \<noteq> None \<and> (\<exists>rest. arrivals tr = entries tr @ rest) \<and>
    (if \<exists>j. holding (qm_pcs s j) then \<exists>j. entries tr = departures tr @ [j] \<and> {k. holding (qm_pcs s k)} = {j}
     else entries tr = departures tr) \<and>
    (case qm_pcs s i of Unlocked \<Rightarrow> \<not> owns_mutex (lock_nodes s i) | Link p \<Rightarrow> next_lock (lock_nodes s p) = None
     | Held \<Rightarrow> owns_mutex (lock_nodes s i) | Go \<Rightarrow> next_lock (lock_nodes s i) \<noteq> None | _ \<Rightarrow> True)"
proof -
  obtain Q h where inv: "qm_inv Q h s" and q: "fifo_lock tr ([], None) = Some (Q, h)" using qm_run_inv [OF assms] by blast
  note hold = holder [OF inv] and d = qm_invD [OF inv]
  have h: "h = Some j \<Longrightarrow> holding (qm_pcs s j)" for j
    using d(6) fifo_lock_order [OF q] by (cases Q) (auto simp: head_ok_def split: if_splits)
  have set: "{k. holding (qm_pcs s k)} = {j}" if "holding (qm_pcs s j)" for j using that hold(3) by auto
  have a: "if \<exists>j. holding (qm_pcs s j) then \<exists>j. entries tr = departures tr @ [j] \<and> {k. holding (qm_pcs s k)} = {j}
     else entries tr = departures tr"
  proof (cases h)
    case None
    then have "\<not> holding (qm_pcs s j)" for j using hold(3) [of j] by auto
    then show ?thesis using fifo_prefixes(2) [OF q] None by simp
  next
    case (Some j)
    have "holding (qm_pcs s j)" by (rule h [OF Some])
    moreover have "entries tr = departures tr @ [j]" using fifo_prefixes(2) [OF q] Some by simp
    ultimately show ?thesis using set [of j] by auto
  qed
  have b: "case qm_pcs s i of Unlocked \<Rightarrow> \<not> owns_mutex (lock_nodes s i) | Link p \<Rightarrow> next_lock (lock_nodes s p) = None
     | Held \<Rightarrow> owns_mutex (lock_nodes s i) | Go \<Rightarrow> next_lock (lock_nodes s i) \<noteq> None | _ \<Rightarrow> True"
  proof (cases "qm_pcs s i")
    case Unlocked
    then show ?thesis using d(3) [OF not_in_queue [OF inv, of i]] by (simp add: outside_def)
  next
    case (Link p)
    then show ?thesis using link_moves(2) [OF inv] by simp
  next
    case Held
    then show ?thesis using d(7) [OF in_queue [OF inv, of i]] by simp
  next
    case Go
    then have "Q = i # tl Q" by (intro hold(4)) (simp add: holding_def)
    then show ?thesis using d(6) Go by (cases Q) (auto simp: head_ok_def)
  qed simp_all
  show ?thesis using q fifo_prefixes(1) [OF q] a b by simp
qed

text \<open>Two locks: the second arrives while the first is inside and enters after it.\<close>

theorem queuing_mutex_fifo_witness:
  "\<exists>tr s. qm_run tr s \<and> entries tr = [0, 1] \<and> arrivals tr = [0, 1] \<and> qm_pcs s 1 = Held \<and>
    (\<exists>rest. arrivals tr = entries tr @ rest) \<and> {k. holding (qm_pcs s k)} = {1}"
proof -
  let ?new = "\<lambda>_. \<lparr>owns_mutex = True, next_lock = None, going = False\<rparr>"
  define s1 where "s1 = at_pc (upd_node qm_init 0 ?new) 0 Swap"
  define s2 where "s2 = at_pc (s1\<lparr>q_tail := Some 0\<rparr>) 0 Held"
  define s3 where "s3 = at_pc (upd_node s2 1 ?new) 1 Swap"
  define s4 where "s4 = at_pc (s3\<lparr>q_tail := Some 1\<rparr>) 1 (Link 0)"
  define s5 where "s5 = at_pc (upd_node s4 0 (next_lock_update (\<lambda>_. Some 1))) 1 Spin"
  define s6 where "s6 = at_pc s5 0 Check"
  define s7 where "s7 = at_pc s6 0 (if next_lock (lock_nodes s6 0) = None then Cas_tail else Go)"
  define s8 where "s8 = done_release (upd_node s7 1 (going_update (\<lambda>_. True))) 0"
  define s9 where "s9 = at_pc s8 1 Held"
  note sd = s1_def s2_def s3_def s4_def s5_def s6_def s7_def s8_def s9_def qm_init_def node_simps
  have "qm_step qm_init [] s1" unfolding s1_def by (rule qm_step.acquire) (simp add: sd)
  note r = qm_next [OF qm_start this]
  have "qm_step s1 [Arrive 0, Enter 0] s2" unfolding s2_def by (rule qm_step.swap_free) (simp_all add: sd)
  note r = qm_next [OF r this]
  have "qm_step s2 [] s3" unfolding s3_def by (rule qm_step.acquire) (simp add: sd)
  note r = qm_next [OF r this]
  have "qm_step s3 [Arrive 1] s4" unfolding s4_def by (rule qm_step.swap_busy) (simp_all add: sd)
  note r = qm_next [OF r this]
  have "qm_step s4 [] s5" unfolding s5_def by (rule qm_step.link) (simp add: sd)
  note r = qm_next [OF r this]
  have "qm_step s5 [] s6" unfolding s6_def by (rule qm_step.release) (simp add: sd)
  note r = qm_next [OF r this]
  have "qm_step s6 [] s7" unfolding s7_def by (rule qm_step.check) (simp add: sd)
  note r = qm_next [OF r this]
  have "qm_step s7 [Leave 0] s8" unfolding s8_def by (rule qm_step.go) (simp_all add: sd)
  note r = qm_next [OF r this]
  have "qm_step s8 [Enter 1] s9" unfolding s9_def by (rule qm_step.spin) (simp_all add: sd)
  note r = qm_next [OF r this]
  have p: "qm_pcs s9 1 = Held" by (simp add: sd)
  then have "\<exists>j. holding (qm_pcs s9 j)" by (metis holding_def insertI1)
  then obtain j where "{k. holding (qm_pcs s9 k)} = {j}" using queuing_mutex_fifo [OF r, of 0] by meson
  moreover have "holding (qm_pcs s9 1)" using p by (simp add: holding_def)
  ultimately have "{k. holding (qm_pcs s9 k)} = {1}" by auto
  moreover have "entries [Arrive 0, Enter 0, Arrive 1, Leave 0, Enter 1] = [0, 1]"
    "arrivals [Arrive 0, Enter 0, Arrive 1, Leave 0, Enter 1] = [0, 1]" by simp_all
  moreover have "qm_run [Arrive 0, Enter 0, Arrive 1, Leave 0, Enter 1] s9" using r by simp
  ultimately show ?thesis using p by (intro exI [of _ "[Arrive 0, Enter 0, Arrive 1, Leave 0, Enter 1]"] exI [of _ s9]) simp
qed

text \<open>
  C33: the queue lock never blocks by itself: while no lock is inside its critical section and some lock is
  acquiring or releasing, one of those that are can take a step that moves it on.
\<close>

theorem queuing_mutex_progress:
  assumes "qm_run tr s" and "qm_pcs s i \<noteq> Unlocked" and "\<forall>j. qm_pcs s j \<noteq> Held"
  shows "\<exists>j evs t. qm_step s evs t \<and> qm_pcs s j \<noteq> Unlocked \<and> qm_pcs t j \<noteq> qm_pcs s j"
proof -
  obtain Q h where "qm_inv Q h s" using qm_run_inv [OF assms(1)] by blast
  from qm_progress [OF this, of i] assms(2,3) show ?thesis by fastforce
qed

theorem queuing_mutex_progress_witness:
  "\<exists>j evs t. qm_step (at_pc (upd_node qm_init 0 (\<lambda>_. \<lparr>owns_mutex = True, next_lock = None, going = False\<rparr>)) 0 Swap) evs t \<and>
    qm_pcs t j \<noteq> Swap"
proof -
  let ?s = "at_pc (upd_node qm_init 0 (\<lambda>_. \<lparr>owns_mutex = True, next_lock = None, going = False\<rparr>)) 0 Swap"
  have "qm_step qm_init [] ?s" by (rule qm_step.acquire) (simp add: qm_init_def)
  note r = qm_next [OF qm_start this]
  have "qm_pcs ?s 0 \<noteq> Unlocked" "\<forall>j. qm_pcs ?s j \<noteq> Held" by (simp_all add: node_simps qm_init_def)
  from queuing_mutex_progress [OF r this] show ?thesis
    by (auto simp: node_simps qm_init_def split: if_splits)
qed

end
