(* ===== verification/Vector_Segments.thy ===== *)
theory Vector_Segments
  imports Split_Order
begin

text \<open>
  \<^verbatim>\<open>include/tbb/concurrent_vector.h\<close> and \<^verbatim>\<open>src/tbb/concurrent_vector.cpp\<close>: the segments of a concurrent vector.
  Segment 0 holds the elements 0 and 1, segment k the 2^k elements from 2^k on; the first
  \<^verbatim>\<open>my_first_block\<close> segments share one block. The table of segments starts with three entries inside the vector
  and is replaced by one of 64. Memory is a list of blocks of cells, raw, zeroed or holding an object; whether an
  allocation succeeds is a parameter (\<^verbatim>\<open>vec_alloc\<close>), and so is what the constructor of each element yields. An
  operation returns the vector together with the exception it throws; \<^verbatim>\<open>Spins\<close> is a wait that no other thread ends,
  \<^verbatim>\<open>Undefined\<close> an access outside the memory. The operations are taken one call at a time. \<^verbatim>\<open>layout\<close> says how the table
  and the blocks belong together, and \<^verbatim>\<open>vec_ok\<close> that the cells hold the elements of a list.
\<close>

section \<open>Segments\<close>

definition pointers_per_short_table :: nat where "pointers_per_short_table = 3"
definition pointers_per_long_table :: nat where "pointers_per_long_table = 64"

definition vseg_index :: "nat \<Rightarrow> nat" where
  "vseg_index i = nat (Log2 (word_of_nat i OR 1))"

definition vseg_base :: "nat \<Rightarrow> nat" where
  "vseg_base k = push_bit k 1 - push_bit k 1 mod 2"

definition vseg_size :: "nat \<Rightarrow> nat" where
  "vseg_size k = push_bit k 1"

lemma vseg_size_eq [simp]: "vseg_size k = 2 ^ k"
  by (simp add: vseg_size_def push_bit_eq_mult)

lemma vseg_base_eq: "vseg_base k = (if k = 0 then 0 else 2 ^ k)"
  by (cases k) (simp_all add: vseg_base_def push_bit_eq_mult)

lemma vseg_base_simps [simp]: "vseg_base 0 = 0" "vseg_base (Suc k) = 2 * 2 ^ k"
  by (simp_all add: vseg_base_eq)

lemma vseg_base_mono: "k \<le> l \<Longrightarrow> vseg_base k \<le> vseg_base l"
  by (auto simp: vseg_base_eq intro: power_increasing)

lemma vseg_base_less_imp: "vseg_base k < vseg_base l \<Longrightarrow> k < l"
  by (metis not_le vseg_base_mono)

lemma vseg_base_less: "vseg_base k < vseg_base (Suc k)"
  by (simp add: vseg_base_eq)

lemma vseg_index_eq: "i < 2 ^ 64 \<Longrightarrow> vseg_index i = segment_index_of (word_of_nat i)"
  by (simp add: vseg_index_def segment_index_of_def)

lemma vseg_index_iff:
  assumes "i < 2 ^ 64" "k < 64"
  shows "vseg_index i = k \<longleftrightarrow> vseg_base k \<le> i \<and> i < vseg_base (Suc k)"
proof -
  have u: "unat (word_of_nat i :: 64 word) = i" using assms(1) by (simp add: unat_of_nat)
  have "unat (segment_base k) = vseg_base k" using unat_segment_base [OF assms(2)] by (simp add: vseg_base_eq)
  moreover have "unat (segment_size k) = (if k = 0 then 2 else 2 ^ k)" by (rule unat_segment_size [OF assms(2)])
  ultimately show ?thesis
    using segment_index_iff [OF assms(2), of "word_of_nat i"] by (auto simp: vseg_index_eq [OF assms(1)] u vseg_base_eq)
qed

lemma vseg_index_less: "i < 2 ^ 64 \<Longrightarrow> vseg_index i < 64"
  by (simp add: vseg_index_eq segment_index_less)

lemma vseg_index_bounds:
  assumes "i < 2 ^ 64"
  shows "vseg_base (vseg_index i) \<le> i" "i < vseg_base (Suc (vseg_index i))"
  using vseg_index_iff [OF assms vseg_index_less [OF assms]] by auto

lemma vseg_index_less_iff:
  assumes "i < 2 ^ 64"
  shows "vseg_index i < k \<longleftrightarrow> i < vseg_base k"
  using vseg_index_bounds [OF assms] vseg_base_mono [of "Suc (vseg_index i)" k] vseg_base_mono [of k "vseg_index i"]
  by (cases "vseg_index i < k") auto

lemma vseg_index_mono: "i \<le> j \<Longrightarrow> j < 2 ^ 64 \<Longrightarrow> vseg_index i \<le> vseg_index j"
  using vseg_index_less_iff [of i "Suc (vseg_index j)"] vseg_index_bounds(2) [of j] by simp

section \<open>Memory and the segment table\<close>

datatype 'a cell = Raw | Zero | Obj 'a

datatype vec_segment = Not_used | Alloc_failed | Seg nat nat

fun allocated :: "vec_segment \<Rightarrow> bool" where
  "allocated (Seg b p) \<longleftrightarrow> True"
| "allocated _ \<longleftrightarrow> False"

record 'a cvector =
  my_first_block :: nat
  my_early_size :: nat
  my_segments :: "vec_segment list"
  my_blocks :: "'a cell list list"

record vec_alloc =
  block_ok :: "nat \<Rightarrow> bool"
  table_ok :: bool

datatype vec_error = Bad_alloc | Bad_last_alloc | Reservation_length_error | Out_of_range_error
  | Segment_range_error | Index_range_error | Ctor_threw | Spins | Undefined

type_synonym 'a vres = "'a cvector \<times> vec_error option"

fun vthen :: "'a vres \<Rightarrow> ('a cvector \<Rightarrow> 'a vres) \<Rightarrow> 'a vres" where
  "vthen (v, None) f = f v"
| "vthen (v, Some e) f = (v, Some e)"

definition cvector_new :: "'a cvector" where
  "cvector_new = \<lparr>my_first_block = 0, my_early_size = 0,
     my_segments = replicate pointers_per_short_table Not_used, my_blocks = []\<rparr>"

definition is_short :: "'a cvector \<Rightarrow> bool" where
  "is_short v \<longleftrightarrow> length (my_segments v) = pointers_per_short_table"

definition publish_segment :: "'a cvector \<Rightarrow> nat \<Rightarrow> vec_segment \<Rightarrow> 'a cvector" where
  "publish_segment v k s = v\<lparr>my_segments := (my_segments v)[k := s]\<rparr>"

definition find_segment_end :: "'a cvector \<Rightarrow> nat" where
  "find_segment_end v = length (takeWhile allocated (my_segments v))"

definition internal_capacity :: "'a cvector \<Rightarrow> nat" where
  "internal_capacity v = vseg_base (find_segment_end v)"

definition vec_size :: "'a cvector \<Rightarrow> nat" where
  "vec_size v = (let sz = my_early_size v; cp = internal_capacity v in if cp < sz then cp else sz)"

definition assign_first_segment_if_necessary :: "'a cvector \<Rightarrow> nat \<Rightarrow> 'a cvector" where
  "assign_first_segment_if_necessary v k = (if my_first_block v = 0 then v\<lparr>my_first_block := k + 1\<rparr> else v)"

definition extend_segment_table :: "vec_alloc \<Rightarrow> 'a cvector \<Rightarrow> nat \<Rightarrow> 'a vres" where
  "extend_segment_table A v start =
     (let start' = min start (vseg_size pointers_per_short_table) in
      if list_ex (\<lambda>i. vseg_base i < start' \<and> my_segments v ! i = Not_used) [0..<pointers_per_short_table]
      then (v, Some Spins)
      else if \<not> table_ok A then (v, Some Bad_alloc)
      else (v\<lparr>my_segments := my_segments v @
              replicate (pointers_per_long_table - pointers_per_short_table) Not_used\<rparr>, None))"

definition extend_table_if_necessary :: "vec_alloc \<Rightarrow> 'a cvector \<Rightarrow> nat \<Rightarrow> nat \<Rightarrow> 'a vres" where
  "extend_table_if_necessary A v k start =
     (if pointers_per_short_table \<le> k \<and> is_short v then extend_segment_table A v start else (v, None))"

definition allocate_and_publish :: "vec_alloc \<Rightarrow> 'a cvector \<Rightarrow> nat \<Rightarrow> nat \<Rightarrow> bool \<Rightarrow> 'a vres" where
  "allocate_and_publish A v k n mark_as_not_used =
     (if block_ok A (length (my_blocks v))
      then (publish_segment (v\<lparr>my_blocks := my_blocks v @ [replicate n Raw]\<rparr>) k (Seg (length (my_blocks v)) 0), None)
      else (publish_segment v k (if mark_as_not_used then Not_used else Alloc_failed), Some Bad_alloc))"

definition enable_segment :: "vec_alloc \<Rightarrow> 'a cvector \<Rightarrow> nat \<Rightarrow> bool \<Rightarrow> 'a vres" where
  "enable_segment A v k mark_as_not_used =
     (if k = 0
      then (let v1 = assign_first_segment_if_necessary v (1 - 1)
            in allocate_and_publish A v1 0 (vseg_size (my_first_block v1)) mark_as_not_used)
      else if my_first_block v = 0 then (v, Some Spins)
      else if k < my_first_block v
      then (case my_segments v ! 0 of
              Not_used \<Rightarrow> (v, Some Spins)
            | Alloc_failed \<Rightarrow> (publish_segment v k Alloc_failed, Some Bad_last_alloc)
            | Seg b p \<Rightarrow> (publish_segment v k (Seg b (p + vseg_base k)), None))
      else allocate_and_publish A v k (vseg_size k) mark_as_not_used)"

definition acquire_segment :: "vec_alloc \<Rightarrow> 'a cvector \<Rightarrow> nat \<Rightarrow> bool \<Rightarrow> 'a vres" where
  "acquire_segment A v k owner =
     vthen (if my_segments v ! k = Not_used
            then (if owner then enable_segment A v k False else (v, Some Spins))
            else (v, None))
       (\<lambda>v. (v, if allocated (my_segments v ! k) then None else Some Bad_last_alloc))"

section \<open>Iterating over segments\<close>

definition put_cells :: "'a cell list \<Rightarrow> nat \<Rightarrow> 'a cell list \<Rightarrow> 'a cell list" where
  "put_cells xs p ys = take p xs @ ys @ drop (p + length ys) xs"

definition store_cells :: "'a cvector \<Rightarrow> nat \<Rightarrow> nat \<Rightarrow> 'a cell list \<Rightarrow> 'a cvector" where
  "store_cells v b p ys = v\<lparr>my_blocks := (my_blocks v)[b := put_cells (my_blocks v ! b) p ys]\<rparr>"

definition seg_at :: "'a cvector \<Rightarrow> nat \<Rightarrow> vec_segment option" where
  "seg_at v k = (if k < length (my_segments v) then Some (my_segments v ! k) else None)"

fun construct :: "(nat \<Rightarrow> 'a option) \<Rightarrow> nat \<Rightarrow> nat \<Rightarrow> 'a cell list \<times> bool" where
  "construct init i 0 = ([], True)"
| "construct init i (Suc n) =
     (case init i of None \<Rightarrow> (replicate (Suc n) Zero, False)
      | Some x \<Rightarrow> (case construct init (i + 1) n of (ys, ok) \<Rightarrow> (Obj x # ys, ok)))"

definition init_body :: "vec_error \<Rightarrow> (nat \<Rightarrow> 'a option) \<Rightarrow> 'a cvector \<Rightarrow> nat \<Rightarrow> nat \<Rightarrow> nat \<Rightarrow> 'a vres" where
  "init_body bad init v k start n =
     (case seg_at v k of None \<Rightarrow> (v, Some Undefined)
      | Some (Seg b p) \<Rightarrow> (case construct init (vseg_base k + start) n of (ys, ok) \<Rightarrow>
          (store_cells v b (p + start) ys, if ok then None else Some Ctor_threw))
      | Some _ \<Rightarrow> (v, Some bad))"

definition destroy_body :: "'a cvector \<Rightarrow> nat \<Rightarrow> nat \<Rightarrow> nat \<Rightarrow> 'a vres" where
  "destroy_body v k start n =
     (case seg_at v k of None \<Rightarrow> (v, Some Undefined)
      | Some (Seg b p) \<Rightarrow> (store_cells v b (p + start) (replicate n Raw), None)
      | Some _ \<Rightarrow> (v, None))"

definition zero_fill :: "'a cvector \<Rightarrow> nat \<Rightarrow> nat \<Rightarrow> nat \<Rightarrow> 'a cvector" where
  "zero_fill v k start n =
     (case seg_at v k of Some (Seg b p) \<Rightarrow> store_cells v b (p + start) (replicate n Zero) | _ \<Rightarrow> v)"

definition helper_sz :: "nat \<Rightarrow> nat \<Rightarrow> nat" where
  "helper_sz first_block k = (if k \<noteq> 0 then vseg_base k else vseg_size first_block)"

definition helper_next :: "nat \<Rightarrow> nat \<Rightarrow> nat" where
  "helper_next first_block k = (if k = 0 then first_block else k + 1)"

lemma helper_sz_pos: "0 < helper_sz fb k"
  by (simp add: helper_sz_def vseg_base_eq)

function recover :: "nat \<Rightarrow> 'a cvector \<Rightarrow> nat \<Rightarrow> nat \<Rightarrow> nat \<Rightarrow> 'a cvector" where
  "recover fb v k start finish =
     (let sz = helper_sz fb k; v' = zero_fill v k start ((if sz < finish then sz else finish) - start)
      in if sz \<le> finish then recover fb v' (helper_next fb k) 0 (finish - sz) else v')"
  by pat_completeness auto

termination
  by (relation "measure (\<lambda>(fb, v, k, start, finish). finish)")
    (use helper_sz_pos in \<open>auto intro!: diff_less dest: order.strict_trans2\<close>)

function apply_loop :: "('a cvector \<Rightarrow> nat \<Rightarrow> nat \<Rightarrow> nat \<Rightarrow> 'a vres) \<Rightarrow> nat \<Rightarrow> 'a cvector \<Rightarrow> nat \<Rightarrow> nat \<Rightarrow> nat \<Rightarrow> 'a vres" where
  "apply_loop func fb v k start finish =
     (let sz = helper_sz fb k in
      if sz < finish
      then (case func v k start (sz - start) of
              (v', None) \<Rightarrow> apply_loop func fb v' (helper_next fb k) 0 (finish - sz)
            | (v', Some e) \<Rightarrow> (recover fb v' (helper_next fb k) 0 (finish - sz), Some e))
      else func v k start (finish - start))"
  by pat_completeness auto

termination
  by (relation "measure (\<lambda>(func, fb, v, k, start, finish). finish)")
    (use helper_sz_pos in \<open>auto intro!: diff_less dest: order.strict_trans\<close>)

definition helper_apply :: "('a cvector \<Rightarrow> nat \<Rightarrow> nat \<Rightarrow> nat \<Rightarrow> 'a vres) \<Rightarrow> 'a cvector \<Rightarrow> nat \<Rightarrow> nat \<Rightarrow> nat \<Rightarrow> 'a vres" where
  "helper_apply func v k start finish =
     (let fb = my_first_block v; k' = (if k < fb then 0 else k); base = vseg_base k'
      in apply_loop func fb v k' (start - base) (finish - base))"

section \<open>Growing\<close>

primrec acquire_down :: "vec_alloc \<Rightarrow> 'a cvector \<Rightarrow> nat \<Rightarrow> nat \<Rightarrow> 'a vres \<times> nat" where
  "acquire_down A v k_start 0 = ((v, None), 0)"
| "acquire_down A v k_start (Suc k) =
     (if Suc k > k_start \<and> Suc k \<ge> my_first_block v
      then (case acquire_segment A v (Suc k) True of
              (v', None) \<Rightarrow> acquire_down A v' k_start k
            | (v', Some e) \<Rightarrow> ((v', Some e), Suc k))
      else ((v, None), Suc k))"

function acquire_up :: "vec_alloc \<Rightarrow> 'a cvector \<Rightarrow> nat \<Rightarrow> nat \<Rightarrow> nat \<Rightarrow> 'a vres" where
  "acquire_up A v start k k_end =
     (if k \<le> k_end
      then vthen (acquire_segment A v k (vseg_base k \<ge> start)) (\<lambda>v. acquire_up A v start (k + 1) k_end)
      else (v, None))"
  by pat_completeness auto

termination
  by (relation "measure (\<lambda>(A, v, start, k, k_end). Suc k_end - k)") auto

fun publish_rest :: "(nat \<Rightarrow> vec_segment) \<Rightarrow> 'a cvector \<Rightarrow> nat list \<Rightarrow> 'a cvector" where
  "publish_rest s v [] = v"
| "publish_rest s v (k # ks) = publish_rest s (publish_segment v k (s k)) ks"

definition cleanup :: "'a cvector \<Rightarrow> nat \<Rightarrow> nat \<Rightarrow> nat \<Rightarrow> vec_error \<Rightarrow> 'a vres" where
  "cleanup v k start finish e =
     (let fb = my_first_block v; k_end = vseg_index (finish - 1); waits = vseg_base k < start;
          k1 = (if waits then k + 1 else k)
      in if waits \<and> my_segments v ! k = Not_used \<or> k1 < fb \<and> 0 < start \<and> my_segments v ! 0 = Not_used
         then (v, Some Spins)
         else (let s0 = my_segments v ! 0;
                   k2 = (if k1 < fb \<and> s0 \<noteq> Not_used \<and> k1 = 0 then 1 else k1);
                   k3 = (if k1 < fb then max k2 (min fb (Suc k_end)) else k2);
                   v1 = (if k1 < fb
                         then publish_rest (\<lambda>j. case s0 of Seg b p \<Rightarrow> Seg b (p + vseg_base j) | _ \<Rightarrow> Alloc_failed) v [k2..<k3]
                         else v);
                   v2 = publish_rest (\<lambda>_. Alloc_failed) v1 (filter (\<lambda>j. my_segments v1 ! j = Not_used) [k3..<Suc k_end]);
                   k' = (if k < fb then 0 else k); base = vseg_base k'
               in (recover fb v2 k' (start - base) (finish - base), Some e)))"

definition internal_grow :: "vec_alloc \<Rightarrow> 'a cvector \<Rightarrow> nat \<Rightarrow> nat \<Rightarrow> (nat \<Rightarrow> 'a option) \<Rightarrow> 'a vres" where
  "internal_grow A v start finish init =
     (let k_start = vseg_index start; k_end = vseg_index (finish - 1);
          v1 = assign_first_segment_if_necessary v k_end
      in vthen (extend_table_if_necessary A v1 k_end start)
           (\<lambda>v2. case (case acquire_down A v2 k_start k_end of ((v3, e), k) \<Rightarrow>
                         vthen (v3, e) (\<lambda>v3. acquire_up A v3 start k_start k)) of
               (v4, None) \<Rightarrow> helper_apply (init_body Undefined init) v4 k_start start finish
             | (v4, Some e) \<Rightarrow> if e = Spins then (v4, Some e) else cleanup v4 k_start start finish e))"

definition internal_grow_by :: "vec_alloc \<Rightarrow> 'a cvector \<Rightarrow> nat \<Rightarrow> (nat \<Rightarrow> 'a option) \<Rightarrow> 'a vres" where
  "internal_grow_by A v delta init =
     (let result = my_early_size v
      in internal_grow A (v\<lparr>my_early_size := result + delta\<rparr>) result (result + delta) init)"

definition grow_by :: "vec_alloc \<Rightarrow> 'a cvector \<Rightarrow> nat \<Rightarrow> (nat \<Rightarrow> 'a option) \<Rightarrow> 'a vres \<times> nat" where
  "grow_by A v delta init = (if delta \<noteq> 0 then internal_grow_by A v delta init else (v, None), my_early_size v)"

definition wait_segments :: "'a cvector \<Rightarrow> nat \<Rightarrow> vec_error option" where
  "wait_segments v k_old =
     (if pointers_per_short_table \<le> k_old \<and> is_short v then Some Spins
      else case find (\<lambda>i. \<not> allocated (my_segments v ! i)) [0..<Suc k_old] of None \<Rightarrow> None
        | Some i \<Rightarrow> Some (if my_segments v ! i = Not_used then Spins else Bad_last_alloc))"

definition grow_to_at_least :: "vec_alloc \<Rightarrow> 'a cvector \<Rightarrow> nat \<Rightarrow> (nat \<Rightarrow> 'a option) \<Rightarrow> 'a vres \<times> nat" where
  "grow_to_at_least A v n init =
     (if n = 0 then ((v, None), 0)
      else let e = my_early_size v
           in (vthen (if e < n then internal_grow A (v\<lparr>my_early_size := n\<rparr>) e n init else (v, None))
                 (\<lambda>v. (v, wait_segments v (vseg_index (n - 1)))), min e n))"

definition internal_push_back :: "vec_alloc \<Rightarrow> 'a cvector \<Rightarrow> 'a vres \<times> nat" where
  "internal_push_back A v =
     (let tmp = my_early_size v; k_old = vseg_index tmp; base = vseg_base k_old
      in (vthen (extend_table_if_necessary A (v\<lparr>my_early_size := tmp + 1\<rparr>) k_old tmp)
            (\<lambda>v. acquire_segment A v k_old (base = tmp)), tmp))"

definition vec_push_back :: "vec_alloc \<Rightarrow> 'a cvector \<Rightarrow> 'a option \<Rightarrow> 'a vres \<times> nat" where
  "vec_push_back A v item =
     (case internal_push_back A v of (r, ix) \<Rightarrow>
       (vthen r (\<lambda>v. let k = vseg_index ix in
          case my_segments v ! k of
            Seg b p \<Rightarrow> (case item of
                Some x \<Rightarrow> (store_cells v b (p + (ix - vseg_base k)) [Obj x], None)
              | None \<Rightarrow> (store_cells v b (p + (ix - vseg_base k)) [Zero], Some Ctor_threw))
          | _ \<Rightarrow> (v, Some Undefined)), ix))"

declare recover.simps [simp del] apply_loop.simps [simp del] acquire_up.simps [simp del]

section \<open>The layout\<close>

definition home :: "nat \<Rightarrow> nat \<Rightarrow> nat" where
  "home fb x = (if x < vseg_size fb then 0 else vseg_index x)"

definition homes :: "nat \<Rightarrow> nat \<Rightarrow> nat set" where
  "homes fb n = (if n = 0 then {} else insert 0 {fb..<n})"

definition room :: "nat \<Rightarrow> nat \<Rightarrow> nat" where
  "room fb n = (if n = 0 then 0 else vseg_base (max n fb))"

definition layout :: "(nat \<Rightarrow> nat) \<Rightarrow> nat \<Rightarrow> 'a cvector \<Rightarrow> bool" where
  "layout loc n v \<longleftrightarrow> (let fb = my_first_block v in
     length (my_segments v) \<in> {pointers_per_short_table, pointers_per_long_table} \<and> n \<le> length (my_segments v) \<and>
     fb \<le> 64 \<and> (n \<noteq> 0 \<longrightarrow> fb \<noteq> 0) \<and>
     (\<forall>k<n. my_segments v ! k = (if k < fb then Seg (loc 0) (vseg_base k) else Seg (loc k) 0)) \<and>
     (\<forall>k. n \<le> k \<longrightarrow> k < length (my_segments v) \<longrightarrow> my_segments v ! k = Not_used) \<and>
     inj_on loc (homes fb n) \<and>
     (\<forall>h\<in>homes fb n. loc h < length (my_blocks v) \<and> length (my_blocks v ! loc h) = helper_sz fb h) \<and>
     (\<forall>b<length (my_blocks v). my_blocks v ! b \<noteq> [] \<longrightarrow> b \<in> loc ` homes fb n))"

definition cell_at :: "(nat \<Rightarrow> nat) \<Rightarrow> 'a cvector \<Rightarrow> nat \<Rightarrow> 'a cell" where
  "cell_at loc v x = my_blocks v ! loc (home (my_first_block v) x) ! (x - vseg_base (home (my_first_block v) x))"

lemma layoutD:
  assumes "layout loc n v"
  shows "length (my_segments v) \<in> {pointers_per_short_table, pointers_per_long_table}" "n \<le> length (my_segments v)"
    "my_first_block v \<le> 64" "n \<noteq> 0 \<Longrightarrow> my_first_block v \<noteq> 0"
    "k < n \<Longrightarrow> my_segments v ! k = (if k < my_first_block v then Seg (loc 0) (vseg_base k) else Seg (loc k) 0)"
    "n \<le> k \<Longrightarrow> k < length (my_segments v) \<Longrightarrow> my_segments v ! k = Not_used"
    "inj_on loc (homes (my_first_block v) n)"
    "h \<in> homes (my_first_block v) n \<Longrightarrow> loc h < length (my_blocks v)"
    "h \<in> homes (my_first_block v) n \<Longrightarrow> length (my_blocks v ! loc h) = helper_sz (my_first_block v) h"
    "b < length (my_blocks v) \<Longrightarrow> my_blocks v ! b \<noteq> [] \<Longrightarrow> b \<in> loc ` homes (my_first_block v) n"
  using assms by (simp_all add: layout_def Let_def)

lemma layoutI:
  assumes "length (my_segments v) \<in> {pointers_per_short_table, pointers_per_long_table}" "n \<le> length (my_segments v)"
    "my_first_block v \<le> 64" "n \<noteq> 0 \<Longrightarrow> my_first_block v \<noteq> 0"
    "\<And>k. k < n \<Longrightarrow> my_segments v ! k = (if k < my_first_block v then Seg (loc 0) (vseg_base k) else Seg (loc k) 0)"
    "\<And>k. n \<le> k \<Longrightarrow> k < length (my_segments v) \<Longrightarrow> my_segments v ! k = Not_used"
    "inj_on loc (homes (my_first_block v) n)"
    "\<And>h. h \<in> homes (my_first_block v) n \<Longrightarrow> loc h < length (my_blocks v) \<and>
       length (my_blocks v ! loc h) = helper_sz (my_first_block v) h"
    "\<And>b. b < length (my_blocks v) \<Longrightarrow> my_blocks v ! b \<noteq> [] \<Longrightarrow> b \<in> loc ` homes (my_first_block v) n"
  shows "layout loc n v"
  using assms by (simp add: layout_def Let_def)

lemmas pointers_defs = pointers_per_short_table_def pointers_per_long_table_def

lemma layout_le64: "layout loc n v \<Longrightarrow> n \<le> 64 \<and> length (my_segments v) \<le> 64"
  using layoutD(1,2) [of loc n v] by (auto simp: pointers_defs)

lemma vseg_base_64: "k \<le> 64 \<Longrightarrow> vseg_base k \<le> 2 ^ 64"
  using vseg_base_mono [of k 64] by (simp add: vseg_base_eq)

lemma room_64: "n \<le> 64 \<Longrightarrow> fb \<le> 64 \<Longrightarrow> room fb n \<le> 2 ^ 64"
  using vseg_base_64 [of "max n fb"] by (simp add: room_def)

lemma layout_room: "layout loc n v \<Longrightarrow> room (my_first_block v) n \<le> 2 ^ 64"
  using room_64 layout_le64 layoutD(3) by blast

lemma size_index:
  assumes "x < 2 ^ 64" "fb \<noteq> 0"
  shows "x < vseg_size fb \<longleftrightarrow> vseg_index x < fb"
  using vseg_index_less_iff [OF assms(1), of fb] assms(2) by (simp add: vseg_base_eq)

lemma home_iff:
  assumes "x < 2 ^ 64" "fb \<noteq> 0" "h = 0 \<or> fb \<le> h" "h < 64"
  shows "home fb x = h \<longleftrightarrow> vseg_base h \<le> x \<and> x < vseg_base h + helper_sz fb h"
  using assms vseg_index_iff [OF assms(1,4)] size_index [OF assms(1,2)] vseg_index_less_iff [OF assms(1), of fb]
  by (auto simp: home_def helper_sz_def vseg_base_eq split: if_splits)

lemma room_home:
  assumes "x < room fb n" "fb \<noteq> 0" "n \<le> 64" "fb \<le> 64"
  shows "home fb x \<in> homes fb n" "x < 2 ^ 64"
proof -
  show x: "x < 2 ^ 64" using assms(1) room_64 [OF assms(3,4)] by linarith
  have "n \<noteq> 0" "vseg_index x < max n fb" using assms(1) vseg_index_less_iff [OF x] by (auto simp: room_def split: if_splits)
  then show "home fb x \<in> homes fb n" using size_index [OF x assms(2)] by (auto simp: home_def homes_def)
qed

lemma homes_64: "h \<in> homes fb n \<Longrightarrow> n \<le> 64 \<Longrightarrow> h < 64 \<and> (h = 0 \<or> fb \<le> h)"
  by (auto simp: homes_def split: if_splits)

text \<open>The table leads to the cell of an index.\<close>

lemma table_cell:
  assumes l: "layout loc n v" and x: "x < vseg_base n" "vseg_index x = k"
  shows "k < n" "\<exists>b p. my_segments v ! k = Seg b p \<and> b = loc (home (my_first_block v) x) \<and>
    vseg_base (home (my_first_block v) x) \<le> x \<and> p + (x - vseg_base k) = x - vseg_base (home (my_first_block v) x)"
proof -
  note d = layoutD [OF l]
  have x64: "x < 2 ^ 64" using x(1) vseg_base_64 layout_le64 [OF l] by (meson order.strict_trans2)
  show k: "k < n" using vseg_index_less_iff [OF x64] x by simp
  then have fb: "my_first_block v \<noteq> 0" using d(4) by auto
  have b: "vseg_base k \<le> x" using vseg_index_bounds(1) [OF x64] x(2) by simp
  have "home (my_first_block v) x = (if k < my_first_block v then 0 else k)"
    using size_index [OF x64 fb] x(2) by (simp add: home_def)
  then show "\<exists>b p. my_segments v ! k = Seg b p \<and> b = loc (home (my_first_block v) x) \<and>
      vseg_base (home (my_first_block v) x) \<le> x \<and> p + (x - vseg_base k) = x - vseg_base (home (my_first_block v) x)"
    using d(5) [OF k] b by simp
qed

section \<open>Writing cells\<close>

lemma length_put_cells: "p + length ys \<le> length xs \<Longrightarrow> length (put_cells xs p ys) = length xs"
  by (simp add: put_cells_def)

lemma nth_put_cells:
  "p + length ys \<le> length xs \<Longrightarrow> i < length xs \<Longrightarrow>
    put_cells xs p ys ! i = (if p \<le> i \<and> i < p + length ys then ys ! (i - p) else xs ! i)"
  by (auto simp: put_cells_def nth_append min_def)

lemma store_cells_simps [simp]:
  "my_first_block (store_cells v b p ys) = my_first_block v" "my_early_size (store_cells v b p ys) = my_early_size v"
  "my_segments (store_cells v b p ys) = my_segments v" "length (my_blocks (store_cells v b p ys)) = length (my_blocks v)"
  by (simp_all add: store_cells_def)

definition wrote :: "(nat \<Rightarrow> nat) \<Rightarrow> nat \<Rightarrow> 'a cvector \<Rightarrow> 'a cvector \<Rightarrow> nat \<Rightarrow> nat \<Rightarrow> (nat \<Rightarrow> 'a cell) \<Rightarrow> bool" where
  "wrote loc n v v' i j c \<longleftrightarrow> layout loc n v' \<and> my_first_block v' = my_first_block v \<and>
     my_early_size v' = my_early_size v \<and> my_segments v' = my_segments v \<and> length (my_blocks v') = length (my_blocks v) \<and>
     (\<forall>x<room (my_first_block v) n. cell_at loc v' x = (if i \<le> x \<and> x < j then c x else cell_at loc v x))"

lemma wroteD:
  assumes "wrote loc n v v' i j c"
  shows "layout loc n v'" "my_first_block v' = my_first_block v" "my_early_size v' = my_early_size v"
    "my_segments v' = my_segments v" "length (my_blocks v') = length (my_blocks v)"
    "x < room (my_first_block v) n \<Longrightarrow> cell_at loc v' x = (if i \<le> x \<and> x < j then c x else cell_at loc v x)"
  using assms by (simp_all add: wrote_def)

lemma wrote_none: "layout loc n v \<Longrightarrow> j \<le> i \<Longrightarrow> wrote loc n v v i j c"
  by (auto simp: wrote_def)

lemma wrote_trans:
  assumes "wrote loc n v v1 i m c" "wrote loc n v1 v2 m j c" "i \<le> m" "m \<le> j"
  shows "wrote loc n v v2 i j c"
proof -
  note a = wroteD [OF assms(1)] and b = wroteD [OF assms(2)]
  show ?thesis unfolding wrote_def
  proof (intro conjI allI impI)
    fix x assume x: "x < room (my_first_block v) n"
    then show "cell_at loc v2 x = (if i \<le> x \<and> x < j then c x else cell_at loc v x)"
      using a(6) [OF x] b(6) [of x] a(2) assms(3,4) by auto
  qed (use a b in simp_all)
qed

lemma store_layout:
  assumes l: "layout loc n v" and h: "h \<in> homes (my_first_block v) n"
    and ys: "p + length ys \<le> helper_sz (my_first_block v) h"
  shows "wrote loc n v (store_cells v (loc h) p ys) (vseg_base h + p) (vseg_base h + p + length ys)
    (\<lambda>x. ys ! (x - (vseg_base h + p)))"
proof -
  note d = layoutD [OF l]
  let ?fb = "my_first_block v" and ?v = "store_cells v (loc h) p ys"
  have n: "n \<noteq> 0" "n \<le> 64" using h layout_le64 [OF l] by (auto simp: homes_def split: if_splits)
  then have fb: "?fb \<noteq> 0" using d(4) by simp
  have len: "p + length ys \<le> length (my_blocks v ! loc h)" using ys d(9) [OF h] by simp
  have bl: "my_blocks ?v ! loc g = (if g = h then put_cells (my_blocks v ! loc h) p ys else my_blocks v ! loc g)"
    if "g \<in> homes ?fb n" for g
    using inj_onD [OF d(7) _ that h] d(8) [OF h] by (auto simp: store_cells_def nth_list_update)
  have lay: "layout loc n ?v"
  proof (rule layoutI)
    fix g assume "g \<in> homes (my_first_block ?v) n"
    then have g: "g \<in> homes ?fb n" by simp
    show "loc g < length (my_blocks ?v) \<and> length (my_blocks ?v ! loc g) = helper_sz (my_first_block ?v) g"
      using d(8,9) [OF g] bl [OF g] length_put_cells [OF len] by auto
  next
    fix b assume b: "b < length (my_blocks ?v)" "my_blocks ?v ! b \<noteq> []"
    show "b \<in> loc ` homes (my_first_block ?v) n"
    proof (cases "b = loc h")
      case False
      then have "my_blocks v ! b \<noteq> []" using b by (simp add: store_cells_def)
      then show ?thesis using d(10) [of b] b(1) by simp
    qed (use h in simp)
  qed (use d in simp_all)
  have "cell_at loc ?v x = (if vseg_base h + p \<le> x \<and> x < vseg_base h + p + length ys
      then ys ! (x - (vseg_base h + p)) else cell_at loc v x)" if x: "x < room ?fb n" for x
  proof -
    note rh = room_home [OF x fb n(2) d(3)]
    have b: "home ?fb x = h \<longleftrightarrow> vseg_base h \<le> x \<and> x < vseg_base h + helper_sz ?fb h"
      using home_iff [OF rh(2) fb, of h] homes_64 [OF h n(2)] by simp
    show ?thesis
    proof (cases "home ?fb x = h")
      case True
      then have xb: "vseg_base h \<le> x" "x - vseg_base h < length (my_blocks v ! loc h)" using b d(9) [OF h] by auto
      have "cell_at loc ?v x = put_cells (my_blocks v ! loc h) p ys ! (x - vseg_base h)"
        using bl [OF h] True by (simp add: cell_at_def)
      also have "\<dots> = (if p \<le> x - vseg_base h \<and> x - vseg_base h < p + length ys then ys ! (x - vseg_base h - p)
          else my_blocks v ! loc h ! (x - vseg_base h))" by (rule nth_put_cells [OF len xb(2)])
      finally show ?thesis using True xb by (auto simp: cell_at_def less_diff_conv2 le_diff_conv2 add.commute)
    next
      case False
      then have "\<not> (vseg_base h + p \<le> x \<and> x < vseg_base h + p + length ys)" using b ys by auto
      then show ?thesis using bl [OF rh(1)] False by (auto simp: cell_at_def)
    qed
  qed
  then show ?thesis using lay by (simp add: wrote_def)
qed

text \<open>A body that works on one segment, and the loop over the segments.\<close>

definition writes_segment :: "(nat \<Rightarrow> nat) \<Rightarrow> nat \<Rightarrow> nat \<Rightarrow> nat \<Rightarrow> ('a cvector \<Rightarrow> nat \<Rightarrow> nat \<Rightarrow> nat \<Rightarrow> 'a vres) \<Rightarrow> (nat \<Rightarrow> 'a cell) \<Rightarrow> nat \<Rightarrow> bool" where
  "writes_segment loc n lo hi f c fb \<longleftrightarrow> (\<forall>v k s m. layout loc n v \<longrightarrow> my_first_block v = fb \<longrightarrow> k \<in> homes fb n \<longrightarrow> s + m \<le> helper_sz fb k \<longrightarrow>
     lo \<le> vseg_base k + s \<longrightarrow> vseg_base k + s + m \<le> hi \<longrightarrow>
     (\<exists>v'. f v k s m = (v', None) \<and> wrote loc n v v' (vseg_base k + s) (vseg_base k + s + m) c))"

lemma helper_next_base:
  assumes "fb \<noteq> 0" "k = 0 \<or> fb \<le> k"
  shows "vseg_base (helper_next fb k) = vseg_base k + helper_sz fb k"
  using assms by (auto simp: helper_next_def helper_sz_def vseg_base_eq)

lemma helper_next_homes:
  assumes "fb \<noteq> 0" "k \<in> homes fb n" "vseg_base (helper_next fb k) < room fb n"
  shows "helper_next fb k \<in> homes fb n"
proof -
  have "n \<noteq> 0" "helper_next fb k < max n fb"
    using assms(2,3) vseg_base_less_imp by (auto simp: room_def homes_def split: if_splits)
  then show ?thesis using assms(2) by (auto simp: homes_def helper_next_def split: if_splits)
qed

lemma helper_next_first: "helper_next fb k = 0 \<or> fb \<le> helper_next fb k" if "k = 0 \<or> fb \<le> k"
  using that by (auto simp: helper_next_def)

lemma apply_loop_writes:
  assumes w: "writes_segment loc n lo hi f c fb" and fb: "fb \<noteq> 0"
  shows "layout loc n v \<Longrightarrow> my_first_block v = fb \<Longrightarrow> k \<in> homes fb n \<Longrightarrow> s \<le> fin \<Longrightarrow> s \<le> helper_sz fb k \<Longrightarrow>
    vseg_base k + fin \<le> room fb n \<Longrightarrow> lo \<le> vseg_base k + s \<Longrightarrow> vseg_base k + fin \<le> hi \<Longrightarrow>
    \<exists>v'. apply_loop f fb v k s fin = (v', None) \<and> wrote loc n v v' (vseg_base k + s) (vseg_base k + fin) c"
proof (induction fin arbitrary: v k s rule: less_induct)
  case (less fin)
  have n: "n \<le> 64" using layout_le64 [OF less.prems(1)] by simp
  have kh: "k = 0 \<or> fb \<le> k" using homes_64 [OF less.prems(3) n] by simp
  let ?sz = "helper_sz fb k"
  show ?case
  proof (cases "?sz < fin")
    case True
    obtain v1 where v1: "f v k s (?sz - s) = (v1, None)" "wrote loc n v v1 (vseg_base k + s) (vseg_base k + ?sz) c"
      using w [unfolded writes_segment_def, rule_format, OF less.prems(1-3), of s "?sz - s"] less.prems(5,7,8) True by auto
    note b = helper_next_base [OF fb kh]
    have nh: "helper_next fb k \<in> homes fb n"
      by (rule helper_next_homes [OF fb less.prems(3)]) (use less.prems(6) True b in linarith)
    have lo: "lo \<le> vseg_base k + ?sz" using less.prems(5,7) by linarith
    obtain v2 where v2: "apply_loop f fb v1 (helper_next fb k) 0 (fin - ?sz) = (v2, None)"
      "wrote loc n v1 v2 (vseg_base (helper_next fb k) + 0) (vseg_base (helper_next fb k) + (fin - ?sz)) c"
      using less.IH [of "fin - ?sz" v1 "helper_next fb k" 0] wroteD(1,2) [OF v1(2)] less.prems(2,6,8) lo True nh b
        helper_sz_pos [of fb k] by auto
    have "wrote loc n v v2 (vseg_base k + s) (vseg_base k + fin) c"
      using wrote_trans [OF v1(2)] v2(2) b True less.prems(5) by simp
    then show ?thesis using v1(1) v2(1) True by (simp add: apply_loop.simps [of f fb v] Let_def)
  next
    case False
    then obtain v1 where "f v k s (fin - s) = (v1, None)" "wrote loc n v v1 (vseg_base k + s) (vseg_base k + fin) c"
      using w [unfolded writes_segment_def, rule_format, OF less.prems(1-3), of s "fin - s"] less.prems(4,7,8) False by auto
    then show ?thesis using False by (simp add: apply_loop.simps [of f fb v] Let_def)
  qed
qed

lemma helper_apply_writes:
  assumes w: "writes_segment loc n lo hi f c (my_first_block v)" and l: "layout loc n v"
    and i: "i \<le> j" "j \<le> room (my_first_block v) n" and lo: "lo \<le> i" and hi: "j \<le> hi" and k: "k = vseg_index i" "i < room (my_first_block v) n"
  shows "\<exists>v'. helper_apply f v k i j = (v', None) \<and> wrote loc n v v' i j c"
proof -
  let ?fb = "my_first_block v"
  define k' where "k' = (if k < ?fb then 0 else k)"
  have n: "n \<le> 64" "n \<noteq> 0" using layout_le64 [OF l] k(2) by (auto simp: room_def split: if_splits)
  then have fb: "?fb \<noteq> 0" using layoutD(4) [OF l] by simp
  note rh = room_home [OF k(2) fb n(1) layoutD(3) [OF l]]
  have hk: "home ?fb i = k'" using size_index [OF rh(2) fb] by (simp add: home_def k(1) k'_def)
  have kh: "k' \<in> homes ?fb n" using rh(1) by (simp only: hk [symmetric])
  have b: "vseg_base k' \<le> i" "i < vseg_base k' + helper_sz ?fb k'"
    using home_iff [OF rh(2) fb, of k'] homes_64 [OF kh n(1)] hk by auto
  have sz: "i - vseg_base k' \<le> helper_sz ?fb k'" using b by linarith
  obtain v' where "apply_loop f ?fb v k' (i - vseg_base k') (j - vseg_base k') = (v', None)"
    "wrote loc n v v' (vseg_base k' + (i - vseg_base k')) (vseg_base k' + (j - vseg_base k')) c"
    using apply_loop_writes [OF w fb l refl kh, of "i - vseg_base k'" "j - vseg_base k'"] b i sz lo hi diff_le_mono [OF i(1), of "vseg_base k'"] by auto
  then show ?thesis using b(1) i(1) by (simp add: helper_apply_def k'_def [symmetric])
qed

lemma store_segment:
  assumes "layout loc n v" "h \<in> homes (my_first_block v) n" "p + length ys \<le> helper_sz (my_first_block v) h"
    and "length ys = m" "\<And>x. vseg_base h + p \<le> x \<Longrightarrow> x < vseg_base h + p + m \<Longrightarrow> ys ! (x - (vseg_base h + p)) = c x"
  shows "wrote loc n v (store_cells v (loc h) p ys) (vseg_base h + p) (vseg_base h + p + m) c"
  using store_layout [OF assms(1-3)] assms(4,5) by (simp add: wrote_def)

lemma home_seg:
  assumes l: "layout loc n v" and k: "k \<in> homes (my_first_block v) n"
  shows "seg_at v k = Some (Seg (loc k) 0)"
proof -
  have n: "n \<noteq> 0" "n \<le> 64" using k layout_le64 [OF l] by (auto simp: homes_def split: if_splits)
  have "k < n" "k = 0 \<or> my_first_block v \<le> k" using k n by (auto simp: homes_def)
  then show ?thesis using layoutD(2,4,5) [OF l] n by (auto simp: seg_at_def)
qed

lemma construct_all:
  "(\<And>x. i \<le> x \<Longrightarrow> x < i + n \<Longrightarrow> init x \<noteq> None) \<Longrightarrow> construct init i n = (map (\<lambda>x. Obj (the (init x))) [i..<i + n], True)"
proof (induction n arbitrary: i)
  case (Suc n)
  obtain x where x: "init i = Some x" using Suc.prems [of i] by auto
  have "construct init (i + 1) n = (map (\<lambda>x. Obj (the (init x))) [i + 1..<i + 1 + n], True)"
    by (rule Suc.IH) (use Suc.prems in simp)
  then show ?case using x by (simp add: upt_rec [of i "Suc (i + n)"] del: upt_Suc)
qed simp

lemma nth_map_upt: "i \<le> x \<Longrightarrow> x < j \<Longrightarrow> map f [i..<j] ! (x - i) = f x"
  by simp

lemma init_body_writes:
  assumes "\<And>x. lo \<le> x \<Longrightarrow> x < hi \<Longrightarrow> init x \<noteq> None"
  shows "writes_segment loc n lo hi (init_body bad init) (\<lambda>x. Obj (the (init x))) fb"
  unfolding writes_segment_def
proof (intro allI impI)
  fix v :: "'a cvector" and k s m
  assume h: "layout loc n v" "my_first_block v = fb" "k \<in> homes fb n" "s + m \<le> helper_sz fb k"
    "lo \<le> vseg_base k + s" "vseg_base k + s + m \<le> hi"
  let ?ys = "map (\<lambda>x. Obj (the (init x))) [vseg_base k + s..<vseg_base k + s + m]"
  have c: "construct init (vseg_base k + s) m = (?ys, True)" by (rule construct_all) (use assms h(5,6) in auto)
  have "wrote loc n v (store_cells v (loc k) s ?ys) (vseg_base k + s) (vseg_base k + s + m) (\<lambda>x. Obj (the (init x)))"
    by (rule store_segment [OF h(1)]) (use h nth_map_upt in auto)
  then show "\<exists>v'. init_body bad init v k s m = (v', None) \<and>
      wrote loc n v v' (vseg_base k + s) (vseg_base k + s + m) (\<lambda>x. Obj (the (init x)))"
    using home_seg [OF h(1)] h(2,3) c by (simp add: init_body_def)
qed

lemma destroy_body_writes: "writes_segment loc n lo hi destroy_body (\<lambda>_. Raw) fb"
  unfolding writes_segment_def
proof (intro allI impI)
  fix v :: "'a cvector" and k s m
  assume h: "layout loc n v" "my_first_block v = fb" "k \<in> homes fb n" "s + m \<le> helper_sz fb k"
  have "wrote loc n v (store_cells v (loc k) s (replicate m Raw)) (vseg_base k + s) (vseg_base k + s + m) (\<lambda>_. Raw)"
    by (rule store_segment [OF h(1)]) (use h in simp_all)
  then show "\<exists>v'. destroy_body v k s m = (v', None) \<and> wrote loc n v v' (vseg_base k + s) (vseg_base k + s + m) (\<lambda>_. Raw)"
    using home_seg [OF h(1)] h(2,3) by (simp add: destroy_body_def)
qed

section \<open>Allocating segments\<close>

definition shomes :: "nat \<Rightarrow> nat set \<Rightarrow> nat set" where
  "shomes fb S = {k \<in> S. k = 0 \<or> fb \<le> k}"

definition slayout :: "(nat \<Rightarrow> nat) \<Rightarrow> nat set \<Rightarrow> 'a cvector \<Rightarrow> bool" where
  "slayout loc S v \<longleftrightarrow> (let fb = my_first_block v in
     length (my_segments v) \<in> {pointers_per_short_table, pointers_per_long_table} \<and> S \<subseteq> {..<length (my_segments v)} \<and>
     fb \<le> 64 \<and> (S \<noteq> {} \<longrightarrow> fb \<noteq> 0) \<and> (\<forall>k\<in>S. k < fb \<longrightarrow> 0 \<in> S) \<and>
     (\<forall>k<length (my_segments v). my_segments v ! k =
        (if k \<in> S then if k < fb then Seg (loc 0) (vseg_base k) else Seg (loc k) 0 else Not_used)) \<and>
     inj_on loc (shomes fb S) \<and>
     (\<forall>h\<in>shomes fb S. loc h < length (my_blocks v) \<and> length (my_blocks v ! loc h) = helper_sz fb h) \<and>
     (\<forall>b<length (my_blocks v). my_blocks v ! b \<noteq> [] \<longrightarrow> b \<in> loc ` shomes fb S))"

lemma shomes_upto: "fb \<noteq> 0 \<or> n = 0 \<Longrightarrow> shomes fb {..<n} = homes fb n"
  by (auto simp: shomes_def homes_def)

lemma slayout_upto: "layout loc n v \<longleftrightarrow> slayout loc {..<n} v"
proof (cases "my_first_block v \<noteq> 0 \<or> n = 0")
  case True
  show ?thesis unfolding layout_def slayout_def Let_def shomes_upto [OF True]
    using True by (auto simp: subset_eq)
qed (auto simp: layout_def slayout_def)

definition enlarges :: "(nat \<Rightarrow> nat) \<Rightarrow> nat set \<Rightarrow> 'a cvector \<Rightarrow> (nat \<Rightarrow> nat) \<Rightarrow> nat set \<Rightarrow> 'a cvector \<Rightarrow> bool" where
  "enlarges loc S v loc' S' v' \<longleftrightarrow> slayout loc' S' v' \<and> S \<subseteq> S' \<and> my_first_block v' = my_first_block v \<and>
     my_early_size v' = my_early_size v \<and> length (my_segments v') = length (my_segments v) \<and>
     (\<forall>h\<in>shomes (my_first_block v) S. loc' h = loc h \<and> my_blocks v' ! loc h = my_blocks v ! loc h)"

lemma enlargesD:
  assumes "enlarges loc S v loc' S' v'"
  shows "slayout loc' S' v'" "S \<subseteq> S'" "my_first_block v' = my_first_block v" "my_early_size v' = my_early_size v"
    "length (my_segments v') = length (my_segments v)"
    "h \<in> shomes (my_first_block v) S \<Longrightarrow> loc' h = loc h \<and> my_blocks v' ! loc h = my_blocks v ! loc h"
  using assms by (simp_all add: enlarges_def)

lemma enlarges_refl: "slayout loc S v \<Longrightarrow> enlarges loc S v loc S v"
  by (simp add: enlarges_def)

lemma enlarges_trans:
  assumes "enlarges loc S v loc1 S1 v1" "enlarges loc1 S1 v1 loc2 S2 v2"
  shows "enlarges loc S v loc2 S2 v2"
proof -
  note a = enlargesD [OF assms(1)] and b = enlargesD [OF assms(2)]
  have "h \<in> shomes (my_first_block v1) S1" if "h \<in> shomes (my_first_block v) S" for h
    using that a(2,3) by (auto simp: shomes_def)
  then have "\<forall>h\<in>shomes (my_first_block v) S. loc2 h = loc h \<and> my_blocks v2 ! loc h = my_blocks v ! loc h"
    using a(6) b(6) by metis
  then show ?thesis using a b by (auto simp: enlarges_def)
qed

lemma enlarges_cells:
  assumes "enlarges loc {..<n} v loc' S' v'" "my_first_block v \<noteq> 0" "n \<le> 64" "my_first_block v \<le> 64" "x < room (my_first_block v) n"
  shows "cell_at loc' v' x = cell_at loc v x"
proof -
  have "home (my_first_block v) x \<in> shomes (my_first_block v) {..<n}"
    using room_home(1) [OF assms(5,2,3,4)] shomes_upto assms(2) by blast
  from enlargesD(6) [OF assms(1) this] show ?thesis by (simp add: cell_at_def enlargesD(3) [OF assms(1)])
qed

lemma slayoutD:
  assumes "slayout loc S v"
  shows "length (my_segments v) \<in> {pointers_per_short_table, pointers_per_long_table}" "S \<subseteq> {..<length (my_segments v)}"
    "my_first_block v \<le> 64" "S \<noteq> {} \<Longrightarrow> my_first_block v \<noteq> 0" "k \<in> S \<Longrightarrow> k < my_first_block v \<Longrightarrow> 0 \<in> S"
    "k < length (my_segments v) \<Longrightarrow> my_segments v ! k =
        (if k \<in> S then if k < my_first_block v then Seg (loc 0) (vseg_base k) else Seg (loc k) 0 else Not_used)"
    "inj_on loc (shomes (my_first_block v) S)"
    "h \<in> shomes (my_first_block v) S \<Longrightarrow> loc h < length (my_blocks v)"
    "h \<in> shomes (my_first_block v) S \<Longrightarrow> length (my_blocks v ! loc h) = helper_sz (my_first_block v) h"
    "b < length (my_blocks v) \<Longrightarrow> my_blocks v ! b \<noteq> [] \<Longrightarrow> b \<in> loc ` shomes (my_first_block v) S"
  using assms unfolding slayout_def Let_def by blast+

lemma slayoutI:
  assumes "length (my_segments v) \<in> {pointers_per_short_table, pointers_per_long_table}" "S \<subseteq> {..<length (my_segments v)}"
    "my_first_block v \<le> 64" "S \<noteq> {} \<Longrightarrow> my_first_block v \<noteq> 0" "\<And>k. k \<in> S \<Longrightarrow> k < my_first_block v \<Longrightarrow> 0 \<in> S"
    "\<And>k. k < length (my_segments v) \<Longrightarrow> my_segments v ! k =
        (if k \<in> S then if k < my_first_block v then Seg (loc 0) (vseg_base k) else Seg (loc k) 0 else Not_used)"
    "inj_on loc (shomes (my_first_block v) S)"
    "\<And>h. h \<in> shomes (my_first_block v) S \<Longrightarrow> loc h < length (my_blocks v) \<and> length (my_blocks v ! loc h) = helper_sz (my_first_block v) h"
    "\<And>b. b < length (my_blocks v) \<Longrightarrow> my_blocks v ! b \<noteq> [] \<Longrightarrow> b \<in> loc ` shomes (my_first_block v) S"
  shows "slayout loc S v"
  using assms unfolding slayout_def Let_def by blast

lemma publish_share:
  assumes l: "slayout loc S v" and k: "k < length (my_segments v)" "k < my_first_block v" "0 \<in> S" "k \<notin> S"
  shows "enlarges loc S v loc (insert k S) (publish_segment v k (Seg (loc 0) (vseg_base k)))"
proof -
  note d = slayoutD [OF l]
  have h: "shomes (my_first_block v) (insert k S) = shomes (my_first_block v) S" using k by (auto simp: shomes_def)
  have "slayout loc (insert k S) (publish_segment v k (Seg (loc 0) (vseg_base k)))"
    by (rule slayoutI) (use d k h in \<open>auto simp: publish_segment_def nth_list_update\<close>)
  then show ?thesis by (auto simp: enlarges_def publish_segment_def)
qed

lemma publish_new:
  assumes l: "slayout loc S v" and k: "k < length (my_segments v)" "k = 0 \<or> my_first_block v \<le> k" "k \<notin> S"
    and fb: "my_first_block v \<noteq> 0"
  shows "enlarges loc S v (loc(k := length (my_blocks v))) (insert k S)
    (publish_segment (v\<lparr>my_blocks := my_blocks v @ [replicate (helper_sz (my_first_block v) k) Raw]\<rparr>) k (Seg (length (my_blocks v)) 0))"
    (is "enlarges loc S v ?loc _ ?v")
proof -
  note d = slayoutD [OF l]
  have h: "shomes (my_first_block v) (insert k S) = insert k (shomes (my_first_block v) S)" "k \<notin> shomes (my_first_block v) S"
    using k by (auto simp: shomes_def)
  have lt: "loc g \<noteq> length (my_blocks v)" if "g \<in> shomes (my_first_block v) S" for g using d(8) [OF that] by simp
  then have lt': "length (my_blocks v) \<noteq> loc g" if "g \<in> shomes (my_first_block v) S" for g using that by metis
  have z: "j < my_first_block v \<Longrightarrow> j \<in> S \<Longrightarrow> k \<noteq> 0" for j using d(5) [of j] k(3) by metis
  have "slayout ?loc (insert k S) ?v"
  proof (rule slayoutI)
    fix j assume "j < length (my_segments ?v)"
    then have j: "j < length (my_segments v)" by (simp add: publish_segment_def)
    show "my_segments ?v ! j = (if j \<in> insert k S then if j < my_first_block ?v then Seg (?loc 0) (vseg_base j) else Seg (?loc j) 0 else Not_used)"
      using d(6) [OF j] k z [of j] j by (auto simp: publish_segment_def nth_list_update)
  next
    show "inj_on ?loc (shomes (my_first_block ?v) (insert k S))"
      using d(7) h lt lt' by (auto simp: publish_segment_def inj_on_def)
  next
    fix g assume "g \<in> shomes (my_first_block ?v) (insert k S)"
    then have g: "g = k \<or> (g \<noteq> k \<and> g \<in> shomes (my_first_block v) S)" using h by (auto simp: publish_segment_def)
    then show "?loc g < length (my_blocks ?v) \<and> length (my_blocks ?v ! ?loc g) = helper_sz (my_first_block ?v) g"
      using d(8,9) by (auto simp: publish_segment_def nth_append less_Suc_eq)
  next
    fix b assume b: "b < length (my_blocks ?v)" "my_blocks ?v ! b \<noteq> []"
    have "b = length (my_blocks v) \<or> b \<in> loc ` shomes (my_first_block v) S"
      using d(10) [of b] b by (auto simp: publish_segment_def nth_append split: if_splits)
    then show "b \<in> ?loc ` shomes (my_first_block ?v) (insert k S)"
      using h(2) by (auto simp: publish_segment_def h(1) intro: rev_image_eqI)
  qed (use d k fb in \<open>auto simp: publish_segment_def\<close>)
  then show ?thesis using h d(8) by (auto simp: enlarges_def publish_segment_def nth_append shomes_def)
qed

definition all_ok :: "vec_alloc \<Rightarrow> bool" where
  "all_ok A \<longleftrightarrow> (\<forall>n. block_ok A n) \<and> table_ok A"

lemma enable_ok:
  assumes l: "slayout loc S v" and k: "k < length (my_segments v)" "k \<notin> S" "k \<noteq> 0 \<Longrightarrow> k < my_first_block v \<Longrightarrow> 0 \<in> S"
    and fb: "my_first_block v \<noteq> 0" and A: "all_ok A"
  shows "\<exists>loc' v'. enable_segment A v k mark = (v', None) \<and> enlarges loc S v loc' (insert k S) v'"
proof (cases "k \<noteq> 0 \<and> k < my_first_block v")
  case True
  have "0 < length (my_segments v)" using k(1) by linarith
  then have "my_segments v ! 0 = Seg (loc 0) (vseg_base 0)" using slayoutD(6) [OF l, of 0] k(3) True fb by auto
  then have "enable_segment A v k mark = (publish_segment v k (Seg (loc 0) (vseg_base k)), None)"
    using True fb by (simp add: enable_segment_def)
  then show ?thesis using publish_share [OF l k(1)] True k by blast
next
  case False
  have "(if k = 0 then vseg_size (my_first_block v) else vseg_size k) = helper_sz (my_first_block v) k"
    by (simp add: helper_sz_def vseg_base_eq)
  then have "enable_segment A v k mark = (publish_segment (v\<lparr>my_blocks := my_blocks v @
      [replicate (helper_sz (my_first_block v) k) Raw]\<rparr>) k (Seg (length (my_blocks v)) 0), None)"
    using False fb A by (auto simp: enable_segment_def allocate_and_publish_def assign_first_segment_if_necessary_def all_ok_def Let_def)
  then show ?thesis using publish_new [OF l k(1) _ k(2) fb] False by auto
qed

lemma acquire_ok:
  assumes l: "slayout loc S v" and k: "k < length (my_segments v)" "k \<noteq> 0 \<Longrightarrow> k < my_first_block v \<Longrightarrow> 0 \<in> S"
    and o: "k \<in> S \<or> owner" and fb: "my_first_block v \<noteq> 0" and A: "all_ok A"
  shows "\<exists>loc' v'. acquire_segment A v k owner = (v', None) \<and> enlarges loc S v loc' (insert k S) v'"
proof (cases "k \<in> S")
  case True
  then have "allocated (my_segments v ! k)" using slayoutD(6) [OF l k(1)] by simp
  then have "acquire_segment A v k owner = (v, None)" by (cases "my_segments v ! k") (simp_all add: acquire_segment_def)
  moreover have "enlarges loc S v loc (insert k S) v" using enlarges_refl [OF l] True by (simp add: insert_absorb)
  ultimately show ?thesis by blast
next
  case False
  obtain loc' v' where e: "enable_segment A v k False = (v', None)" "enlarges loc S v loc' (insert k S) v'"
    using enable_ok [OF l k(1) False k(2) fb A] by blast
  have "allocated (my_segments v' ! k)"
    using slayoutD(6) [OF enlargesD(1) [OF e(2)], of k] enlargesD(5) [OF e(2)] k(1) by simp
  then have "acquire_segment A v k owner = (v', None)"
    using e(1) o False slayoutD(6) [OF l k(1)] by (simp add: acquire_segment_def)
  then show ?thesis using e(2) by blast
qed

lemma acquire_up_ok:
  "slayout loc S v \<Longrightarrow> ke < length (my_segments v) \<Longrightarrow> my_first_block v \<noteq> 0 \<Longrightarrow> all_ok A \<Longrightarrow>
    (\<And>k. k0 \<le> k \<Longrightarrow> k \<le> ke \<Longrightarrow> k \<in> S \<or> start \<le> vseg_base k) \<Longrightarrow> (k0 \<noteq> 0 \<Longrightarrow> k0 < my_first_block v \<Longrightarrow> 0 \<in> S) \<Longrightarrow>
    \<exists>loc' v'. acquire_up A v start k0 ke = (v', None) \<and> enlarges loc S v loc' (S \<union> {k0..ke}) v'"
proof (induction "Suc ke - k0" arbitrary: loc S v k0)
  case 0
  then have "{k0..ke} = {}" by simp
  then show ?case using 0 enlarges_refl [of loc S v] by (auto simp: acquire_up.simps [of A v start k0 ke])
next
  case (Suc m)
  then have le: "k0 \<le> ke" by simp
  obtain loc1 v1 where v1: "acquire_segment A v k0 (vseg_base k0 \<ge> start) = (v1, None)" "enlarges loc S v loc1 (insert k0 S) v1"
    using acquire_ok [OF Suc.prems(1), of k0 "vseg_base k0 \<ge> start" A] Suc.prems le by (metis le_less_trans order_refl)
  note e = enlargesD [OF v1(2)]
  have z: "0 \<in> insert k0 S" if "Suc k0 < my_first_block v1"
    using that Suc.prems(6) e(3) by (cases "k0 = 0") auto
  have "\<exists>loc' v'. acquire_up A v1 start (Suc k0) ke = (v', None) \<and> enlarges loc1 (insert k0 S) v1 loc' (insert k0 S \<union> {Suc k0..ke}) v'"
    by (rule Suc.hyps(1)) (use Suc.hyps(2) Suc.prems e z in auto)
  then obtain loc' v' where v': "acquire_up A v1 start (Suc k0) ke = (v', None)"
    "enlarges loc1 (insert k0 S) v1 loc' (insert k0 S \<union> {Suc k0..ke}) v'" by blast
  have "insert k0 S \<union> {Suc k0..ke} = S \<union> {k0..ke}" using le by auto
  then have "enlarges loc S v loc' (S \<union> {k0..ke}) v'" using enlarges_trans [OF v1(2) v'(2)] by simp
  then show ?case using v'(1) v1(1) le by (auto simp: acquire_up.simps [of A v start k0 ke])
qed

lemma acquire_down_ok:
  "slayout loc S v \<Longrightarrow> ke < length (my_segments v) \<Longrightarrow> my_first_block v \<noteq> 0 \<Longrightarrow> all_ok A \<Longrightarrow>
    \<exists>loc' v' k'. acquire_down A v ks ke = ((v', None), k') \<and> k' \<le> ke \<and> (ks \<le> ke \<longrightarrow> ks \<le> k') \<and> enlarges loc S v loc' (S \<union> {Suc k'..ke}) v'"
proof (induction ke arbitrary: loc S v)
  case 0
  then show ?case using enlarges_refl by (auto intro: exI [of _ loc])
next
  case (Suc ke)
  show ?case
  proof (cases "Suc ke > ks \<and> Suc ke \<ge> my_first_block v")
    case True
    obtain loc1 v1 where v1: "acquire_segment A v (Suc ke) True = (v1, None)" "enlarges loc S v loc1 (insert (Suc ke) S) v1"
      using acquire_ok [OF Suc.prems(1,2), of True A] Suc.prems(3,4) True by auto
    note e = enlargesD [OF v1(2)]
    obtain loc' v' k' where v': "acquire_down A v1 ks ke = ((v', None), k')" "k' \<le> ke" "ks \<le> ke \<longrightarrow> ks \<le> k'"
      "enlarges loc1 (insert (Suc ke) S) v1 loc' (insert (Suc ke) S \<union> {Suc k'..ke}) v'"
      using Suc.IH [OF e(1)] e(3,5) Suc.prems by auto
    have "insert (Suc ke) S \<union> {Suc k'..ke} = S \<union> {Suc k'..Suc ke}" using v'(2) by auto
    then show ?thesis using v' v1(1) True enlarges_trans [OF v1(2) v'(4)] by auto
  next
    case False
    then show ?thesis using enlarges_refl [OF Suc.prems(1)] by (auto intro: exI [of _ loc])
  qed
qed

section \<open>Good vectors\<close>

text \<open>Segments that are allocated stay where they are.\<close>

definition stays :: "'a cvector \<Rightarrow> 'a cvector \<Rightarrow> bool" where
  "stays v v' \<longleftrightarrow> length (my_segments v) \<le> length (my_segments v') \<and>
     (\<forall>k<length (my_segments v). allocated (my_segments v ! k) \<longrightarrow> my_segments v' ! k = my_segments v ! k)"

lemma stays_same: "my_segments v' = my_segments v \<Longrightarrow> stays v v'"
  by (simp add: stays_def)

lemma stays_trans: "stays u v \<Longrightarrow> stays v w \<Longrightarrow> stays u w"
  by (auto simp: stays_def)

lemma enlarges_stays:
  assumes "enlarges loc S v loc' S' v'" "slayout loc S v"
  shows "stays v v'"
  unfolding stays_def
proof (intro conjI allI impI)
  note e = enlargesD [OF assms(1)] and d = slayoutD [OF assms(2)] and d' = slayoutD [OF enlargesD(1) [OF assms(1)]]
  show "length (my_segments v) \<le> length (my_segments v')" using e(5) by simp
  fix k assume k: "k < length (my_segments v)" "allocated (my_segments v ! k)"
  then have S: "k \<in> S" using d(6) [of k] by (auto split: if_splits)
  then have "0 \<in> S" if "k < my_first_block v" using d(5) that by blast
  then have "(if k < my_first_block v then loc' 0 = loc 0 else loc' k = loc k)"
    using e(6) S by (simp add: shomes_def)
  then show "my_segments v' ! k = my_segments v ! k" using d(6) [OF k(1)] d'(6) [of k] S e(2,3,5) k(1) by auto
qed

text \<open>\<^verbatim>\<open>n\<close> segments are allocated, and the elements are those of the list.\<close>

definition vec_ok :: "(nat \<Rightarrow> nat) \<Rightarrow> nat \<Rightarrow> 'a cvector \<Rightarrow> 'a list \<Rightarrow> bool" where
  "vec_ok loc n v xs \<longleftrightarrow> layout loc n v \<and> length xs = my_early_size v \<and> length xs \<le> vseg_base n \<and>
     (\<forall>x<length xs. cell_at loc v x = Obj (xs ! x))"

lemma vec_okD:
  assumes "vec_ok loc n v xs"
  shows "layout loc n v" "my_early_size v = length xs" "length xs \<le> vseg_base n" "x < length xs \<Longrightarrow> cell_at loc v x = Obj (xs ! x)"
    "n \<le> 64" "length xs \<le> 2 ^ 64"
  using assms layout_le64 [of loc n v] vseg_base_64 [of n] by (auto simp: vec_ok_def)

lemma room_ge: "vseg_base n \<le> room fb n"
  using vseg_base_mono [of n "max n fb"] by (simp add: room_def)

lemma layout_new: "layout loc 0 cvector_new"
  by (rule layoutI) (simp_all add: cvector_new_def pointers_defs homes_def)

lemma vec_ok_new: "vec_ok loc 0 cvector_new []"
  using layout_new [of loc] by (simp add: vec_ok_def cvector_new_def)

lemma size_frame: "layout loc n (v\<lparr>my_early_size := m\<rparr>) \<longleftrightarrow> layout loc n v" "cell_at loc (v\<lparr>my_early_size := m\<rparr>) = cell_at loc v"
  by (simp_all add: layout_def cell_at_def fun_eq_iff)

lemma slayout_frame: "slayout loc S (v\<lparr>my_early_size := m\<rparr>) \<longleftrightarrow> slayout loc S v"
  by (simp add: slayout_def)

lemma assign_first_layout:
  assumes l: "layout loc n v" and k: "k < 64"
  shows "layout loc n (assign_first_segment_if_necessary v k)" "my_first_block (assign_first_segment_if_necessary v k) \<noteq> 0"
    "x < vseg_base n \<Longrightarrow> cell_at loc (assign_first_segment_if_necessary v k) x = cell_at loc v x"
    "my_early_size (assign_first_segment_if_necessary v k) = my_early_size v"
    "my_segments (assign_first_segment_if_necessary v k) = my_segments v"
proof -
  have n: "my_first_block v = 0 \<Longrightarrow> n = 0" using layoutD(4) [OF l] by auto
  show "layout loc n (assign_first_segment_if_necessary v k)"
  proof (cases "my_first_block v = 0")
    case True
    then show ?thesis using layoutD(1,6,10) [OF l] n k
      by (intro layoutI) (auto simp: assign_first_segment_if_necessary_def homes_def)
  qed (use l in \<open>simp add: assign_first_segment_if_necessary_def\<close>)
  show "x < vseg_base n \<Longrightarrow> cell_at loc (assign_first_segment_if_necessary v k) x = cell_at loc v x"
    using n by (auto simp: assign_first_segment_if_necessary_def)
qed (simp_all add: assign_first_segment_if_necessary_def)

lemma extend_table_layout:
  assumes l: "layout loc n v" and k: "k < 64" and s: "start \<le> vseg_base n" and A: "all_ok A"
  shows "\<exists>v'. extend_table_if_necessary A v k start = (v', None) \<and> layout loc n v' \<and> k < length (my_segments v') \<and>
    my_first_block v' = my_first_block v \<and> my_early_size v' = my_early_size v \<and> my_blocks v' = my_blocks v \<and> stays v v'"
proof (cases "pointers_per_short_table \<le> k \<and> is_short v")
  case True
  note d = layoutD [OF l]
  have len: "length (my_segments v) = 3" using True by (simp add: is_short_def pointers_defs)
  have "my_segments v ! i \<noteq> Not_used" if "i < 3" "vseg_base i < start" for i
  proof -
    have "i < n" using that(2) s vseg_base_less_imp [of i n] by linarith
    then show ?thesis using d(5) by auto
  qed
  then have "\<not> list_ex (\<lambda>i. vseg_base i < min start (vseg_size pointers_per_short_table) \<and> my_segments v ! i = Not_used)
      [0..<pointers_per_short_table]"
    by (auto simp: list_ex_iff pointers_defs)
  then have e: "extend_table_if_necessary A v k start =
      (v\<lparr>my_segments := my_segments v @ replicate (pointers_per_long_table - pointers_per_short_table) Not_used\<rparr>, None)"
    using True A by (simp add: extend_table_if_necessary_def extend_segment_table_def all_ok_def Let_def)
  have "layout loc n (v\<lparr>my_segments := my_segments v @ replicate (pointers_per_long_table - pointers_per_short_table) Not_used\<rparr>)"
    by (rule layoutI) (use d len k in \<open>auto simp: pointers_defs nth_append\<close>)
  then show ?thesis using e len k by (simp add: pointers_defs stays_def nth_append)
next
  case False
  then have "k < length (my_segments v)" using k layoutD(1) [OF l] by (auto simp: is_short_def pointers_defs)
  then show ?thesis using False l stays_same by (auto simp: extend_table_if_necessary_def)
qed

definition init_ok :: "(nat \<Rightarrow> 'a option) \<Rightarrow> nat \<Rightarrow> nat \<Rightarrow> bool" where
  "init_ok init i j \<longleftrightarrow> (\<forall>x. i \<le> x \<longrightarrow> x < j \<longrightarrow> init x \<noteq> None)"

lemma internal_grow_ok:
  assumes l: "layout loc n v" and s: "start < finish" "start \<le> vseg_base n" "finish \<le> 2 ^ 64" and A: "all_ok A"
    and init: "init_ok init start finish"
  shows "\<exists>loc' n' v'. internal_grow A v start finish init = (v', None) \<and> layout loc' n' v' \<and> n \<le> n' \<and>
    finish \<le> vseg_base n' \<and> my_early_size v' = my_early_size v \<and> stays v v' \<and>
    (\<forall>x<vseg_base n. x < start \<longrightarrow> cell_at loc' v' x = cell_at loc v x) \<and>
    (\<forall>x. start \<le> x \<longrightarrow> x < finish \<longrightarrow> cell_at loc' v' x = Obj (the (init x)))"
proof -
  define ks ke where "ks = vseg_index start" and "ke = vseg_index (finish - 1)"
  have lt: "start < 2 ^ 64" "finish - 1 < 2 ^ 64" using s by auto
  have ke: "ke < 64" "ks \<le> ke" unfolding ks_def ke_def by (rule vseg_index_less [OF lt(2)], rule vseg_index_mono) (use s in auto)
  have n: "n \<le> 64" using layout_le64 [OF l] by simp
  define v1 where "v1 = assign_first_segment_if_necessary v ke"
  note a = assign_first_layout [OF l ke(1), folded v1_def]
  obtain v2 where e: "extend_table_if_necessary A v1 ke start = (v2, None)" "layout loc n v2" "ke < length (my_segments v2)"
    "my_first_block v2 = my_first_block v1" "my_early_size v2 = my_early_size v1" "my_blocks v2 = my_blocks v1" "stays v1 v2"
    using extend_table_layout [OF a(1) ke(1) s(2) A] by blast
  have fb: "my_first_block v2 \<noteq> 0" using a(2) e(4) by simp
  obtain loc3 v3 k' where d: "acquire_down A v2 ks ke = ((v3, None), k')" "k' \<le> ke" "ks \<le> k'"
    "enlarges loc {..<n} v2 loc3 ({..<n} \<union> {Suc k'..ke}) v3"
    using acquire_down_ok [OF e(2) [unfolded slayout_upto] e(3) fb A, of ks] ke(2) by blast
  note d3 = enlargesD [OF d(4)]
  have owner: "k < n \<or> start \<le> vseg_base k" for k
  proof (cases "k < n")
    case False
    then show ?thesis using s(2) vseg_base_mono [of n k] by auto
  qed simp
  have z: "0 \<in> {..<n} \<union> {Suc k'..ke}" if "ks \<noteq> 0"
  proof -
    have "2 \<le> start" using that vseg_index_less_iff [OF lt(1), of 1] by (simp add: ks_def)
    then have "n \<noteq> 0" using s(2) by (cases n) simp_all
    then show ?thesis by simp
  qed
  obtain loc4 v4 where u: "acquire_up A v3 start ks k' = (v4, None)"
    "enlarges loc3 ({..<n} \<union> {Suc k'..ke}) v3 loc4 ({..<n} \<union> {Suc k'..ke} \<union> {ks..k'}) v4"
    using acquire_up_ok [OF d3(1), of k' A ks start] d3(3,5) e(3) d(2) fb A owner z by auto
  have ksn: "ks \<le> n"
  proof (rule ccontr)
    assume "\<not> ks \<le> n"
    then have "vseg_base (Suc n) \<le> vseg_base ks" by (intro vseg_base_mono) simp
    then show False using vseg_index_bounds(1) [OF lt(1)] s(2) vseg_base_less [of n] by (simp add: ks_def)
  qed
  let ?n = "max n (Suc ke)"
  have S: "{..<n} \<union> {Suc k'..ke} \<union> {ks..k'} = {..<?n}" using d(2,3) ksn by (auto simp: max_def)
  note x4 = enlarges_trans [OF d(4) u(2), unfolded S]
  note d4 = enlargesD [OF x4]
  have l4: "layout loc4 ?n v4" using d4(1) by (simp only: slayout_upto)
  have fin: "finish \<le> vseg_base ?n"
    using vseg_index_bounds(2) [OF lt(2)] vseg_base_mono [of "Suc ke" ?n] s(1) by (simp add: ke_def)
  have r: "finish \<le> room (my_first_block v4) ?n" using fin room_ge order.trans by blast
  obtain v5 where w: "helper_apply (init_body Undefined init) v4 ks start finish = (v5, None)"
    "wrote loc4 ?n v4 v5 start finish (\<lambda>x. Obj (the (init x)))"
    using helper_apply_writes [OF init_body_writes [of start finish init] l4, of start finish ks Undefined] init [unfolded init_ok_def] s(1) r ks_def by auto
  note w5 = wroteD [OF w(2)]
  have res: "internal_grow A v start finish init = (v5, None)"
    unfolding internal_grow_def Let_def ks_def [symmetric] ke_def [symmetric] v1_def [symmetric] using e(1) d(1) u(1) w(1) by simp
  have cell: "cell_at loc4 v5 x = cell_at loc v x" if "x < vseg_base n" "x < start" for x
  proof -
    have rx: "x < room (my_first_block v2) n" using that(1) room_ge [of n "my_first_block v2"] by linarith
    have rx': "x < room (my_first_block v4) ?n" using that(2) r s(1) by linarith
    have "cell_at loc4 v5 x = cell_at loc4 v4 x" using w5(6) [OF rx'] that by simp
    also have "\<dots> = cell_at loc v2 x" by (rule enlarges_cells [OF x4 fb n layoutD(3) [OF e(2)] rx])
    also have "\<dots> = cell_at loc v1 x" using e(4,6) by (simp add: cell_at_def)
    also have "\<dots> = cell_at loc v x" by (rule a(3) [OF that(1)])
    finally show ?thesis .
  qed
  have new: "cell_at loc4 v5 x = Obj (the (init x))" if "start \<le> x" "x < finish" for x
    using w5(6) [of x] that r by simp
  have "stays v v5"
    using stays_trans [OF stays_trans [OF stays_same [OF a(5)] e(7)] stays_trans [OF enlarges_stays [OF x4 e(2) [unfolded slayout_upto]]
      stays_same [OF w5(4)]]] .
  then show ?thesis
    using res w5(1,3) fin cell new d4(4) e(5) a(4) by (intro exI [of _ loc4] exI [of _ ?n] exI [of _ v5]) simp
qed

end
