(* ===== verification/Concurrent_Vector.thy ===== *)
theory Concurrent_Vector
  imports Vector_Segments
begin

text \<open>
  \<^verbatim>\<open>include/tbb/concurrent_vector.h\<close> and \<^verbatim>\<open>src/tbb/concurrent_vector.cpp\<close>: growing, access, reserving, resizing, clearing,
  copying and assigning. Every operation on a good vector (\<^verbatim>\<open>vec_ok\<close>) succeeds and leaves a good one, with the list that the
  operation means; a segment that is allocated stays in its place (\<^verbatim>\<open>stays\<close>).
\<close>

section \<open>Growing keeps vectors good\<close>

text \<open>\<^verbatim>\<open>grown\<close>: the operation succeeds, the old elements stay and the new ones follow.\<close>

definition grown :: "'a cvector \<Rightarrow> 'a list \<Rightarrow> 'a vres \<Rightarrow> bool" where
  "grown v ys r \<longleftrightarrow> (\<exists>loc n v'. r = (v', None) \<and> vec_ok loc n v' ys \<and> stays v v')"

lemma grownI: "vec_ok loc n v' ys \<Longrightarrow> stays v v' \<Longrightarrow> grown v ys (v', None)"
  by (auto simp: grown_def)

lemma stays_refl: "stays v v"
  by (simp add: stays_def)

lemma grow_from:
  assumes v: "vec_ok loc n v xs" and m: "length xs < m" "m \<le> 2 ^ 64" and A: "all_ok A"
    and init: "init_ok init (length xs) (m)"
  shows "\<exists>loc' n' v'. internal_grow A (v\<lparr>my_early_size := m\<rparr>) (length xs) m init = (v', None) \<and>
    vec_ok loc' n' v' (xs @ map (\<lambda>x. the (init x)) [length xs..<m]) \<and> stays v v'"
proof -
  note d = vec_okD [OF v]
  have l: "layout loc n (v\<lparr>my_early_size := m\<rparr>)" using d(1) by (simp add: size_frame)
  obtain loc' n' v' where g: "internal_grow A (v\<lparr>my_early_size := m\<rparr>) (length xs) m init = (v', None)"
    "layout loc' n' v'" "m \<le> vseg_base n'" "my_early_size v' = m" "stays v v'"
    "\<forall>x<vseg_base n. x < length xs \<longrightarrow> cell_at loc' v' x = cell_at loc v x"
    "\<forall>x. length xs \<le> x \<longrightarrow> x < m \<longrightarrow> cell_at loc' v' x = Obj (the (init x))"
    using internal_grow_ok [OF l m(1) d(3) m(2) A init] by (auto simp: size_frame stays_def)
  have "cell_at loc' v' x = Obj ((xs @ map (\<lambda>x. the (init x)) [length xs..<m]) ! x)" if "x < m" for x
    using that g(6,7) d(3,4) by (cases "x < length xs") (auto simp: nth_append)
  then have "vec_ok loc' n' v' (xs @ map (\<lambda>x. the (init x)) [length xs..<m])"
    using g(2,3,4) m(1) by (simp add: vec_ok_def)
  then show ?thesis using g(1,5) by blast
qed

lemma grow_by_ok:
  assumes v: "vec_ok loc n v xs" and m: "length xs + delta \<le> 2 ^ 64" and A: "all_ok A"
    and init: "init_ok init (length xs) (length xs + delta)"
  shows "grown v (xs @ map (\<lambda>x. the (init x)) [length xs..<length xs + delta]) (fst (grow_by A v delta init))"
    "snd (grow_by A v delta init) = length xs"
proof -
  show "snd (grow_by A v delta init) = length xs" using vec_okD(2) [OF v] by (simp add: grow_by_def)
  show "grown v (xs @ map (\<lambda>x. the (init x)) [length xs..<length xs + delta]) (fst (grow_by A v delta init))"
  proof (cases "delta = 0")
    case True
    then show ?thesis using grownI [OF v stays_refl] by (simp add: grow_by_def)
  next
    case False
    then have lt: "length xs < length xs + delta" by simp
    obtain loc' n' v' where "internal_grow A (v\<lparr>my_early_size := length xs + delta\<rparr>) (length xs) (length xs + delta) init = (v', None)"
      "vec_ok loc' n' v' (xs @ map (\<lambda>x. the (init x)) [length xs..<length xs + delta])" "stays v v'"
      using grow_from [OF v lt m A init] by blast
    then show ?thesis using False vec_okD(2) [OF v] by (auto simp: grow_by_def internal_grow_by_def Let_def intro: grownI)
  qed
qed

lemma good_segments: "layout loc n v \<Longrightarrow> k < n \<Longrightarrow> allocated (my_segments v ! k)"
  using layoutD(5) by fastforce

lemma wait_segments_ok:
  assumes "layout loc n v" "k < n"
  shows "wait_segments v k = None"
proof -
  have "k < length (my_segments v)" using layoutD(2) [OF assms(1)] assms(2) by linarith
  then have "\<not> (pointers_per_short_table \<le> k \<and> is_short v)" by (simp add: is_short_def)
  moreover have "find (\<lambda>i. \<not> allocated (my_segments v ! i)) [0..<Suc k] = None"
    using good_segments [OF assms(1)] assms(2) by (auto simp: find_None_iff)
  ultimately show ?thesis by (simp add: wait_segments_def)
qed

lemma vec_ok_seg: "vec_ok loc n v xs \<Longrightarrow> 0 < m \<Longrightarrow> m \<le> length xs \<Longrightarrow> vseg_index (m - 1) < n"
  using vec_okD(3,6) [of loc n v xs] vseg_index_less_iff [of "m - 1" n] by simp

lemma grow_to_at_least_ok:
  assumes v: "vec_ok loc n v xs" and m: "m \<le> 2 ^ 64" and A: "all_ok A"
    and init: "init_ok init (length xs) (m)"
  shows "grown v (xs @ map (\<lambda>x. the (init x)) [length xs..<m]) (fst (grow_to_at_least A v m init))"
    "snd (grow_to_at_least A v m init) = min (length xs) m"
proof -
  show "snd (grow_to_at_least A v m init) = min (length xs) m"
    using vec_okD(2) [OF v] by (simp add: grow_to_at_least_def Let_def)
  consider "m = 0" | "m \<noteq> 0" "m \<le> length xs" | "length xs < m" by linarith
  then show "grown v (xs @ map (\<lambda>x. the (init x)) [length xs..<m]) (fst (grow_to_at_least A v m init))"
  proof cases
    case 1
    then show ?thesis using grownI [OF v stays_refl] by (simp add: grow_to_at_least_def)
  next
    case 2
    then have "wait_segments v (vseg_index (m - 1)) = None"
      using wait_segments_ok [OF vec_okD(1) [OF v] vec_ok_seg [OF v]] by simp
    then show ?thesis using grownI [OF v stays_refl] vec_okD(2) [OF v] 2 by (simp add: grow_to_at_least_def Let_def)
  next
    case 3
    then obtain loc' n' v' where g: "internal_grow A (v\<lparr>my_early_size := m\<rparr>) (length xs) m init = (v', None)"
      "vec_ok loc' n' v' (xs @ map (\<lambda>x. the (init x)) [length xs..<m])" "stays v v'"
      using grow_from [OF v _ m A init] by blast
    have "wait_segments v' (vseg_index (m - 1)) = None"
      using wait_segments_ok [OF vec_okD(1) [OF g(2)] vec_ok_seg [OF g(2)]] 3 by simp
    then show ?thesis using g 3 vec_okD(2) [OF v] by (auto simp: grow_to_at_least_def Let_def intro: grownI)
  qed
qed

lemma acquire_next:
  assumes l: "layout loc n v" and k: "k < length (my_segments v)" "k \<le> n" "k < n \<or> owner"
    and A: "all_ok A" and fb: "my_first_block v \<noteq> 0 \<or> k = 0 \<and> owner"
  shows "\<exists>loc' v'. acquire_segment A v k owner = (v', None) \<and> layout loc' (max n (Suc k)) v' \<and>
    my_early_size v' = my_early_size v \<and> (\<forall>x<vseg_base n. cell_at loc' v' x = cell_at loc v x) \<and> stays v v'"
proof -
  define v1 where "v1 = assign_first_segment_if_necessary v 0"
  note a = assign_first_layout [OF l, of 0, folded v1_def]
  have same: "acquire_segment A v k owner = acquire_segment A v1 k owner"
  proof (cases "my_first_block v = 0")
    case True
    then have n: "n = 0" "k = 0" "owner" using layoutD(4) [OF l] fb by auto
    then have "my_segments v ! 0 = Not_used" using layoutD(6) [OF l, of 0] k by simp
    then show ?thesis using n a(5) unfolding v1_def
      by (simp add: acquire_segment_def enable_segment_def assign_first_segment_if_necessary_def Let_def)
  qed (simp add: v1_def assign_first_segment_if_necessary_def)
  have l1: "slayout loc {..<n} v1" "my_first_block v1 \<noteq> 0" "my_segments v1 = my_segments v" "my_early_size v1 = my_early_size v"
    using a by (simp_all add: slayout_upto)
  obtain loc' v' where v': "acquire_segment A v1 k owner = (v', None)" "enlarges loc {..<n} v1 loc' (insert k {..<n}) v'"
    using acquire_ok [OF l1(1), of k owner A] k l1 A by auto
  note e = enlargesD [OF v'(2)]
  have "insert k {..<n} = {..<max n (Suc k)}" using k(2) by auto
  then have "layout loc' (max n (Suc k)) v'" using e(1) by (simp add: slayout_upto)
  moreover have "cell_at loc' v' x = cell_at loc v x" if x: "x < vseg_base n" for x
  proof -
    have "x < room (my_first_block v1) n" using x room_ge [of n "my_first_block v1"] by linarith
    moreover have "n \<le> 64" "my_first_block v1 \<le> 64" using layout_le64 [OF l] layoutD(3) [of loc n v1] a(1) by auto
    ultimately have "cell_at loc' v' x = cell_at loc v1 x" using enlarges_cells [OF v'(2) l1(2)] by blast
    then show ?thesis using a(3) [OF _ x] by simp
  qed
  moreover have "stays v v'" using stays_trans [OF stays_same [OF l1(3)] enlarges_stays [OF v'(2) l1(1)]] .
  ultimately show ?thesis using same v'(1) e(4) l1(4) by auto
qed

lemma store_element:
  assumes l: "layout loc n v" and x: "x < vseg_base n"
  obtains b p where "my_segments v ! vseg_index x = Seg b p"
    "wrote loc n v (store_cells v b (p + (x - vseg_base (vseg_index x))) [c]) x (Suc x) (\<lambda>_. c)"
proof -
  obtain b p where s: "my_segments v ! vseg_index x = Seg b p" "b = loc (home (my_first_block v) x)"
    "vseg_base (home (my_first_block v) x) \<le> x"
    "p + (x - vseg_base (vseg_index x)) = x - vseg_base (home (my_first_block v) x)"
    using table_cell(2) [OF l x refl] by blast
  have n: "n \<noteq> 0" "n \<le> 64" using x layout_le64 [OF l] by (simp_all add: vseg_base_eq split: if_splits)
  then have fb: "my_first_block v \<noteq> 0" using layoutD(4) [OF l] by simp
  have r: "x < room (my_first_block v) n" using x room_ge [of n "my_first_block v"] by linarith
  note rh = room_home [OF r fb n(2) layoutD(3) [OF l]]
  have hb: "x < vseg_base (home (my_first_block v) x) + helper_sz (my_first_block v) (home (my_first_block v) x)"
    using home_iff [OF rh(2) fb, of "home (my_first_block v) x"] homes_64 [OF rh(1) n(2)] by simp
  have "wrote loc n v (store_cells v (loc (home (my_first_block v) x)) (x - vseg_base (home (my_first_block v) x)) [c])
    (vseg_base (home (my_first_block v) x) + (x - vseg_base (home (my_first_block v) x)))
    (vseg_base (home (my_first_block v) x) + (x - vseg_base (home (my_first_block v) x)) + 1) (\<lambda>_. c)"
    by (rule store_segment [OF l rh(1)]) (use hb s(3) in auto)
  then show ?thesis using that [OF s(1)] s by simp
qed

lemma wrote_elements:
  assumes w: "wrote loc n v v' i j c" and r: "vseg_base n \<le> room (my_first_block v) n"
  shows "x < vseg_base n \<Longrightarrow> cell_at loc v' x = (if i \<le> x \<and> x < j then c x else cell_at loc v x)"
  using wroteD(6) [OF w, of x] r by simp

lemma push_back_ok:
  assumes v: "vec_ok loc n v xs" and m: "length xs < 2 ^ 64" and A: "all_ok A"
  shows "grown v (xs @ [x]) (fst (vec_push_back A v (Some x)))" "snd (vec_push_back A v (Some x)) = length xs"
proof -
  note d = vec_okD [OF v]
  define k where "k = vseg_index (length xs)"
  have k64: "k < 64" unfolding k_def by (rule vseg_index_less [OF m])
  have kb: "vseg_base k \<le> length xs" "length xs < vseg_base (Suc k)" using vseg_index_bounds [OF m] by (simp_all add: k_def)
  have l: "layout loc n (v\<lparr>my_early_size := Suc (length xs)\<rparr>)" using d(1) by (simp add: size_frame)
  obtain v1 where v1: "extend_table_if_necessary A (v\<lparr>my_early_size := Suc (length xs)\<rparr>) k (length xs) = (v1, None)"
    "layout loc n v1" "k < length (my_segments v1)" "my_first_block v1 = my_first_block v"
    "my_early_size v1 = Suc (length xs)" "my_blocks v1 = my_blocks v" "stays v v1"
    using extend_table_layout [OF l k64 d(3) A] by (auto simp: stays_def)
  have kn: "k \<le> n" using kb(1) d(3) vseg_base_less_imp [of k "Suc n"] vseg_base_less [of n] by linarith
  have own: "k < n \<or> vseg_base k = length xs" using kn kb(1) d(3) by (cases "k = n") auto
  have fb: "my_first_block v1 \<noteq> 0 \<or> k = 0 \<and> vseg_base k = length xs"
    using layoutD(4) [OF v1(2)] kn own by (cases "n = 0") auto
  obtain loc2 v2 where v2: "acquire_segment A v1 k (vseg_base k = length xs) = (v2, None)" "layout loc2 (max n (Suc k)) v2"
    "my_early_size v2 = Suc (length xs)" "\<forall>y<vseg_base n. cell_at loc2 v2 y = cell_at loc v1 y" "stays v1 v2"
    using acquire_next [OF v1(2,3) kn own A fb] v1(5) by auto
  let ?n = "max n (Suc k)"
  have xn: "length xs < vseg_base ?n" using kb(2) vseg_base_mono [of "Suc k" ?n] by linarith
  obtain b p where s: "my_segments v2 ! k = Seg b p"
    "wrote loc2 ?n v2 (store_cells v2 b (p + (length xs - vseg_base k)) [Obj x]) (length xs) (Suc (length xs)) (\<lambda>_. Obj x)"
    using store_element [OF v2(2) xn, of "Obj x"] by (auto simp: k_def)
  let ?v = "store_cells v2 b (p + (length xs - vseg_base k)) [Obj x]"
  have res: "vec_push_back A v (Some x) = ((?v, None), length xs)"
  proof -
    have "internal_push_back A v = ((v2, None), length xs)"
      unfolding internal_push_back_def Let_def d(2) k_def [symmetric] using v1(1) v2(1) by simp
    then show ?thesis using s(1) by (simp add: vec_push_back_def k_def Let_def)
  qed
  have "cell_at loc2 ?v y = Obj ((xs @ [x]) ! y)" if "y < Suc (length xs)" for y
  proof -
    have yn: "y < vseg_base ?n" using that xn by linarith
    have "cell_at loc v1 y = cell_at loc v y" using v1(4,6) by (simp add: cell_at_def)
    then show ?thesis using wrote_elements [OF s(2) room_ge yn] that v2(4) d(3,4) by (auto simp: nth_append less_Suc_eq)
  qed
  then have "vec_ok loc2 ?n ?v (xs @ [x])" using wroteD(1) [OF s(2)] v2(3) xn by (simp add: vec_ok_def)
  then show "grown v (xs @ [x]) (fst (vec_push_back A v (Some x)))" "snd (vec_push_back A v (Some x)) = length xs"
    using res grownI stays_trans [OF v1(7) stays_trans [OF v2(5) stays_same [OF wroteD(4) [OF s(2)]]]] by auto
qed

section \<open>Reading\<close>

definition internal_subscript :: "'a cvector \<Rightarrow> nat \<Rightarrow> 'a cell" where
  "internal_subscript v ix =
     (let k = vseg_index ix; j = ix - vseg_base k
      in case my_segments v ! k of Seg b p \<Rightarrow> my_blocks v ! b ! (p + j) | _ \<Rightarrow> Raw)"

definition internal_subscript_with_exceptions :: "'a cvector \<Rightarrow> nat \<Rightarrow> vec_error + 'a cell" where
  "internal_subscript_with_exceptions v ix =
     (if my_early_size v \<le> ix then Inl Out_of_range_error
      else let k = vseg_index ix; j = ix - vseg_base k
           in if is_short v \<and> pointers_per_short_table \<le> k then Inl Segment_range_error
              else case my_segments v ! k of Seg b p \<Rightarrow> Inr (my_blocks v ! b ! (p + j)) | _ \<Rightarrow> Inl Index_range_error)"

lemma subscript_cell:
  assumes "layout loc n v" "x < vseg_base n"
  shows "internal_subscript v x = cell_at loc v x"
proof -
  obtain b p where "my_segments v ! vseg_index x = Seg b p" "b = loc (home (my_first_block v) x)"
    "p + (x - vseg_base (vseg_index x)) = x - vseg_base (home (my_first_block v) x)"
    using table_cell(2) [OF assms refl] by blast
  then show ?thesis by (simp add: internal_subscript_def cell_at_def Let_def)
qed

lemma subscript_ok:
  assumes v: "vec_ok loc n v xs"
  shows "x < length xs \<Longrightarrow> internal_subscript v x = Obj (xs ! x)"
    "internal_subscript_with_exceptions v x = (if x < length xs then Inr (Obj (xs ! x)) else Inl Out_of_range_error)"
proof -
  note d = vec_okD [OF v]
  show a: "x < length xs \<Longrightarrow> internal_subscript v x = Obj (xs ! x)" using subscript_cell [OF d(1)] d(3,4) by simp
  show "internal_subscript_with_exceptions v x = (if x < length xs then Inr (Obj (xs ! x)) else Inl Out_of_range_error)"
  proof (cases "x < length xs")
    case True
    then have xn: "x < vseg_base n" using d(3) by linarith
    obtain b p where s: "my_segments v ! vseg_index x = Seg b p" using table_cell(2) [OF d(1) xn refl] by blast
    have "vseg_index x < length (my_segments v)" using table_cell(1) [OF d(1) xn refl] layoutD(2) [OF d(1)] by linarith
    then have "\<not> (is_short v \<and> pointers_per_short_table \<le> vseg_index x)" by (simp add: is_short_def)
    then show ?thesis using True a s d(2) by (simp add: internal_subscript_with_exceptions_def internal_subscript_def Let_def)
  next
    case False
    then show ?thesis using d(2) by (simp add: internal_subscript_with_exceptions_def)
  qed
qed

lemma find_end_ok: "layout loc n v \<Longrightarrow> find_segment_end v = n"
proof -
  assume l: "layout loc n v"
  note d = layoutD [OF l]
  have "takeWhile allocated (my_segments v) = take n (my_segments v)"
  proof (rule takeWhile_eq_take_P_nth)
    show "allocated (my_segments v ! i)" if "i < n" for i using good_segments [OF l that] .
    show "\<not> allocated (my_segments v ! n)" if "n < length (my_segments v)" using d(6) [OF order_refl that] by simp
  qed
  then show ?thesis using d(2) by (simp add: find_segment_end_def)
qed

lemma vec_size_ok: "vec_ok loc n v xs \<Longrightarrow> vec_size v = length xs \<and> internal_capacity v = vseg_base n"
  using vec_okD(1,2,3) [of loc n v xs] find_end_ok [of loc n v] by (simp add: vec_size_def internal_capacity_def Let_def)

section \<open>Reserving, resizing and clearing\<close>

function reserve_loop :: "vec_alloc \<Rightarrow> 'a cvector \<Rightarrow> nat \<Rightarrow> nat \<Rightarrow> 'a vres" where
  "reserve_loop A v n k =
     (if vseg_base k < n
      then vthen (extend_table_if_necessary A v k 0) (\<lambda>v.
             vthen (if allocated (my_segments v ! k) then (v, None) else enable_segment A v k True) (\<lambda>v.
               reserve_loop A v n (k + 1)))
      else (v, None))"
  by pat_completeness auto

termination
  by (relation "measure (\<lambda>(A, v, n, k). n - vseg_base k)") (use vseg_base_less in \<open>auto intro!: diff_less_mono2\<close>)

declare reserve_loop.simps [simp del]

definition vec_internal_reserve :: "vec_alloc \<Rightarrow> 'a cvector \<Rightarrow> nat \<Rightarrow> nat \<Rightarrow> 'a vres" where
  "vec_internal_reserve A v n max_size =
     (if max_size < n then (v, Some Reservation_length_error)
      else let v1 = assign_first_segment_if_necessary v (vseg_index (n - 1))
           in reserve_loop A v1 n (find_segment_end v1))"

definition reserve :: "vec_alloc \<Rightarrow> 'a cvector \<Rightarrow> nat \<Rightarrow> nat \<Rightarrow> 'a vres" where
  "reserve A v n max_size = (if n \<noteq> 0 then vec_internal_reserve A v n max_size else (v, None))"

definition internal_resize :: "vec_alloc \<Rightarrow> 'a cvector \<Rightarrow> nat \<Rightarrow> nat \<Rightarrow> (nat \<Rightarrow> 'a option) \<Rightarrow> 'a vres" where
  "internal_resize A v n max_size init =
     (let j = my_early_size v in
      if j < n
      then vthen (vec_internal_reserve A v n max_size)
             (\<lambda>v. helper_apply (init_body Bad_last_alloc init) (v\<lparr>my_early_size := n\<rparr>) (vseg_index j) j n)
      else helper_apply destroy_body (v\<lparr>my_early_size := n\<rparr>) (vseg_index n) n j)"

definition internal_clear :: "'a cvector \<Rightarrow> 'a vres" where
  "internal_clear v = helper_apply destroy_body (v\<lparr>my_early_size := 0\<rparr>) 0 0 (my_early_size v)"

definition assign_n :: "vec_alloc \<Rightarrow> 'a cvector \<Rightarrow> nat \<Rightarrow> nat \<Rightarrow> (nat \<Rightarrow> 'a option) \<Rightarrow> 'a vres" where
  "assign_n A v n max_size init = vthen (internal_clear v) (\<lambda>v. internal_resize A v n max_size init)"

lemma reserve_loop_ok:
  "layout loc k v \<Longrightarrow> my_first_block v \<noteq> 0 \<Longrightarrow> n \<le> 2 ^ 64 \<Longrightarrow> all_ok A \<Longrightarrow>
    \<exists>loc' k' v'. reserve_loop A v n k = (v', None) \<and> layout loc' k' v' \<and> k \<le> k' \<and> n \<le> vseg_base k' \<and>
      (n \<le> vseg_base k \<longrightarrow> v' = v) \<and> my_first_block v' = my_first_block v \<and>
      my_early_size v' = my_early_size v \<and> (\<forall>x<vseg_base k. cell_at loc' v' x = cell_at loc v x) \<and> stays v v'"
proof (induction "n - vseg_base k" arbitrary: loc k v rule: less_induct)
  case less
  show ?case
  proof (cases "vseg_base k < n")
    case False
    then show ?thesis using less.prems
      by (intro exI [of _ loc] exI [of _ k] exI [of _ v]) (auto simp: reserve_loop.simps [of A v n k] stays_def)
  next
    case True
    have k64: "k < 64" using True less.prems(3) vseg_base_less_imp [of k 64] by (simp add: vseg_base_eq)
    obtain v1 where v1: "extend_table_if_necessary A v k 0 = (v1, None)" "layout loc k v1" "k < length (my_segments v1)"
      "my_first_block v1 = my_first_block v" "my_early_size v1 = my_early_size v" "my_blocks v1 = my_blocks v" "stays v v1"
      using extend_table_layout [OF less.prems(1) k64 _ less.prems(4), of 0] by auto
    have na: "\<not> allocated (my_segments v1 ! k)" using layoutD(6) [OF v1(2) order_refl v1(3)] by simp
    have fb: "my_first_block v1 \<noteq> 0" using less.prems(2) v1(4) by simp
    obtain loc2 v2 where v2: "enable_segment A v1 k True = (v2, None)" "enlarges loc {..<k} v1 loc2 (insert k {..<k}) v2"
      using enable_ok [OF v1(2) [unfolded slayout_upto] v1(3), of A True] fb less.prems(4) by auto
    have S: "insert k {..<k} = {..<Suc k}" by auto
    note e = enlargesD [OF v2(2), unfolded S]
    have l2: "layout loc2 (Suc k) v2" using e(1) by (simp add: slayout_upto)
    have sz: "n - vseg_base (Suc k) < n - vseg_base k" using True vseg_base_less [of k] by linarith
    obtain loc' k' v' where v': "reserve_loop A v2 n (Suc k) = (v', None)" "layout loc' k' v'" "Suc k \<le> k'" "n \<le> vseg_base k'"
      "my_first_block v' = my_first_block v2" "my_early_size v' = my_early_size v2"
      "\<forall>x<vseg_base (Suc k). cell_at loc' v' x = cell_at loc2 v2 x" "stays v2 v'"
      using less.hyps [OF sz l2] less.prems(3,4) e(3) fb by auto
    have "cell_at loc' v' x = cell_at loc v x" if x: "x < vseg_base k" for x
    proof -
      have "x < room (my_first_block v1) k" using x room_ge [of k "my_first_block v1"] by linarith
      then have "cell_at loc2 v2 x = cell_at loc v1 x"
        using enlarges_cells [OF v2(2) fb] k64 layoutD(3) [OF v1(2)] by simp
      then show ?thesis using v'(7) x vseg_base_less [of k] v1(4,6) by (simp add: cell_at_def)
    qed
    moreover have "reserve_loop A v n k = (v', None)"
      using v'(1) v1(1) v2(1) na True by (simp add: reserve_loop.simps [of A v n k])
    moreover have "stays v v'"
      using stays_trans [OF v1(7) stays_trans [OF enlarges_stays [OF v2(2) v1(2) [unfolded slayout_upto]] v'(8)]] .
    ultimately show ?thesis using v'(2-6) v1(4,5) True e(3,4)
      by (intro exI [of _ loc'] exI [of _ k'] exI [of _ v']) simp
  qed
qed

lemma internal_reserve_ok:
  assumes v: "vec_ok loc n v xs" and m: "0 < m" "m \<le> 2 ^ 64" "m \<le> max_size" and A: "all_ok A"
  shows "\<exists>loc' n' v'. vec_internal_reserve A v m max_size = (v', None) \<and> vec_ok loc' n' v' xs \<and> m \<le> vseg_base n' \<and> n \<le> n' \<and>
    my_first_block v' \<noteq> 0 \<and> stays v v'"
proof -
  note d = vec_okD [OF v]
  define v1 where "v1 = assign_first_segment_if_necessary v (vseg_index (m - 1))"
  have "vseg_index (m - 1) < 64" by (rule vseg_index_less) (use m in simp)
  note a = assign_first_layout [OF d(1) this, folded v1_def]
  obtain loc' k' v' where r: "reserve_loop A v1 m n = (v', None)" "layout loc' k' v'" "n \<le> k'" "m \<le> vseg_base k'"
    "my_first_block v' = my_first_block v1" "my_early_size v' = my_early_size v1" "\<forall>x<vseg_base n. cell_at loc' v' x = cell_at loc v1 x" "stays v1 v'"
    using reserve_loop_ok [OF a(1,2) m(2) A] by blast
  have "find_segment_end v1 = n" by (rule find_end_ok [OF a(1)])
  then have "vec_internal_reserve A v m max_size = (v', None)"
    unfolding vec_internal_reserve_def Let_def v1_def [symmetric] using m(3) r(1) by simp
  moreover have "vec_ok loc' k' v' xs"
    using r d(2,3,4) a(3,4) vseg_base_mono [OF r(3)] by (simp add: vec_ok_def)
  moreover have "my_first_block v' \<noteq> 0" using r(5) a(2) by simp
  moreover have "stays v v'" using stays_trans [OF stays_same [OF a(5)] r(8)] .
  ultimately show ?thesis using r(3,4) by blast
qed

lemma reserve_ok:
  assumes v: "vec_ok loc n v xs" and m: "m \<le> 2 ^ 64" "m \<le> max_size" and A: "all_ok A"
  shows "\<exists>loc' n' v'. reserve A v m max_size = (v', None) \<and> vec_ok loc' n' v' xs \<and> m \<le> internal_capacity v' \<and> stays v v'"
proof (cases "m = 0")
  case False
  then obtain loc' n' v' where "vec_internal_reserve A v m max_size = (v', None)" "vec_ok loc' n' v' xs" "m \<le> vseg_base n'" "stays v v'"
    using internal_reserve_ok [OF v _ m A] by blast
  then show ?thesis using False vec_size_ok [of loc' n' v' xs] by (simp add: reserve_def) metis
qed (use v stays_refl in \<open>auto simp: reserve_def\<close>)

text \<open>Destroying the last elements; the range may end where no segment begins.\<close>

lemma destroy_ok:
  assumes v: "vec_ok loc n v xs" and m: "m < length xs"
  shows "\<exists>v'. helper_apply destroy_body (v\<lparr>my_early_size := m\<rparr>) (vseg_index m) m (length xs) = (v', None) \<and>
    vec_ok loc n v' (take m xs) \<and> stays v v'"
proof -
  note d = vec_okD [OF v]
  let ?v = "v\<lparr>my_early_size := m\<rparr>"
  have l: "layout loc n ?v" using d(1) by (simp add: size_frame)
  have r: "length xs \<le> room (my_first_block ?v) n" using d(3) room_ge order.trans by blast
  obtain v' where w: "helper_apply destroy_body ?v (vseg_index m) m (length xs) = (v', None)"
    "wrote loc n ?v v' m (length xs) (\<lambda>_. Raw)"
    using helper_apply_writes [OF destroy_body_writes [of loc n m "length xs"] l, of m "length xs" "vseg_index m"] m r by auto
  have "cell_at loc v' x = Obj (take m xs ! x)" if "x < m" for x
  proof -
    have "x < vseg_base n" using that m d(3) by linarith
    then show ?thesis using wrote_elements [OF w(2) room_ge, of x] that m d(4) by (simp add: size_frame)
  qed
  then have "vec_ok loc n v' (take m xs)" using wroteD(1,3) [OF w(2)] m d(3) by (simp add: vec_ok_def)
  moreover have "stays v v'" using wroteD(4) [OF w(2)] by (simp add: stays_def)
  ultimately show ?thesis using w(1) by blast
qed

lemma apply_nothing: "helper_apply f v k i i = f v (if k < my_first_block v then 0 else k)
    (i - vseg_base (if k < my_first_block v then 0 else k)) 0"
  if "\<not> helper_sz (my_first_block v) (if k < my_first_block v then 0 else k) < i - vseg_base (if k < my_first_block v then 0 else k)"
  using that by (simp add: helper_apply_def apply_loop.simps Let_def)

lemma store_nothing: "store_cells v b p [] = v"
  by (cases v) (simp add: store_cells_def put_cells_def)

lemma destroy_nothing: "k < length (my_segments v) \<Longrightarrow> destroy_body v k s 0 = (v, None)"
  by (auto simp: destroy_body_def seg_at_def store_nothing split: vec_segment.split)

lemma internal_clear_ok:
  assumes v: "vec_ok loc n v xs"
  shows "\<exists>v'. internal_clear v = (v', None) \<and> vec_ok loc n v' [] \<and> stays v v'"
proof (cases "xs = []")
  case True
  note d = vec_okD [OF v]
  have "0 < length (my_segments v)" using layoutD(1) [OF d(1)] by (auto simp: pointers_defs)
  then have "destroy_body (v\<lparr>my_early_size := 0\<rparr>) 0 0 0 = (v\<lparr>my_early_size := 0\<rparr>, None)" by (intro destroy_nothing) simp
  moreover have "vec_ok loc n (v\<lparr>my_early_size := 0\<rparr>) []" using d(1) by (simp add: vec_ok_def size_frame)
  ultimately show ?thesis using True d(2) apply_nothing [of "v\<lparr>my_early_size := 0\<rparr>" 0 0 destroy_body]
    by (simp add: internal_clear_def stays_def)
next
  case False
  have "vseg_index 0 = 0" using vseg_index_less_iff [of 0 1] by simp
  then show ?thesis using destroy_ok [OF v, of 0] False vec_okD(2) [OF v] by (simp add: internal_clear_def)
qed

text \<open>A vector of exactly as many elements as its segments hold may have no segment where \<^verbatim>\<open>resize\<close> begins.\<close>

lemma internal_resize_ok:
  assumes v: "vec_ok loc n v xs" and m: "m < 2 ^ 64" "m \<le> max_size" and A: "all_ok A"
    and init: "init_ok init (length xs) m" 
    and seg: "m = length xs \<Longrightarrow> vseg_index m < length (my_segments v) \<or> vseg_index m < my_first_block v"
  shows "grown v (if length xs < m then xs @ map (\<lambda>x. the (init x)) [length xs..<m] else take m xs)
    (internal_resize A v m max_size init)"
proof -
  note d = vec_okD [OF v]
  consider "length xs < m" | "m < length xs" | "m = length xs" by linarith
  then show ?thesis
  proof cases
    case 1
    obtain loc' n' v' where r: "vec_internal_reserve A v m max_size = (v', None)" "vec_ok loc' n' v' xs" "m \<le> vseg_base n'" "stays v v'"
      using internal_reserve_ok [OF v _ _ m(2) A] 1 m(1) by auto
    let ?v = "v'\<lparr>my_early_size := m\<rparr>"
    have l: "layout loc' n' ?v" using vec_okD(1) [OF r(2)] by (simp add: size_frame)
    have rm: "m \<le> room (my_first_block ?v) n'" using r(3) room_ge order.trans by blast
    obtain v2 where w: "helper_apply (init_body Bad_last_alloc init) ?v (vseg_index (length xs)) (length xs) m = (v2, None)"
      "wrote loc' n' ?v v2 (length xs) m (\<lambda>x. Obj (the (init x)))"
      using helper_apply_writes [OF init_body_writes [of "length xs" m init] l, of "length xs" m "vseg_index (length xs)" Bad_last_alloc]
        init [unfolded init_ok_def] 1 rm by auto
    have "cell_at loc' v2 x = Obj ((xs @ map (\<lambda>x. the (init x)) [length xs..<m]) ! x)" if "x < m" for x
    proof -
      have "x < vseg_base n'" using that r(3) by linarith
      then show ?thesis using wrote_elements [OF w(2) room_ge, of x] that vec_okD(4) [OF r(2)]
        by (auto simp: size_frame nth_append)
    qed
    then have "vec_ok loc' n' v2 (xs @ map (\<lambda>x. the (init x)) [length xs..<m])"
      using wroteD(1,3) [OF w(2)] r(3) 1 by (simp add: vec_ok_def)
    moreover have "stays v v2" using stays_trans [OF r(4), of v2] wroteD(4) [OF w(2)] by (simp add: stays_def)
    ultimately show ?thesis using r(1) w(1) 1 d(2) by (auto simp: internal_resize_def Let_def intro: grownI)
  next
    case 2
    then show ?thesis using destroy_ok [OF v 2] d(2) by (auto simp: internal_resize_def Let_def intro: grownI)
  next
    case 3
    let ?v = "v\<lparr>my_early_size := m\<rparr>"
    define k where "k = (if vseg_index m < my_first_block v then 0 else vseg_index m)"
    have mx: "m = my_early_size v" using 3 d(2) by simp
    have "m < vseg_base k + helper_sz (my_first_block v) k"
    proof (cases "my_first_block v = 0")
      case True
      then have "n = 0" using layoutD(4) [OF d(1)] by (cases n) auto
      then have "xs = []" using d(3) by simp
      then show ?thesis using 3 helper_sz_pos [of "my_first_block v" k] by simp
    next
      case False
      have "home (my_first_block v) m = k" using size_index [OF m(1) False] by (simp add: home_def k_def)
      then show ?thesis using home_iff [OF m(1) False, of k] vseg_index_less [OF m(1)] by (auto simp: k_def split: if_splits)
    qed
    then have "\<not> helper_sz (my_first_block ?v) k < m - vseg_base k" by auto
    from apply_nothing [of ?v "vseg_index m" m destroy_body, folded k_def] this
    have "helper_apply destroy_body ?v (vseg_index m) m m = destroy_body ?v k (m - vseg_base k) 0" by (simp add: k_def)
    moreover have "k < length (my_segments ?v)"
      using seg [OF 3] layoutD(1) [OF d(1)] by (auto simp: k_def pointers_defs)
    ultimately have "helper_apply destroy_body ?v (vseg_index m) m m = (?v, None)" using destroy_nothing by metis
    moreover have "?v = v" using mx by simp
    moreover have "internal_resize A v m max_size init = helper_apply destroy_body ?v (vseg_index m) m m"
      by (simp add: internal_resize_def mx [symmetric])
    ultimately have "internal_resize A v m max_size init = (v, None)" by simp
    moreover have "(if length xs < m then xs @ map (\<lambda>x. the (init x)) [length xs..<m] else take m xs) = xs" using 3 by simp
    ultimately show ?thesis using grownI [OF v stays_refl] by simp
  qed
qed

section \<open>Copying and assigning whole vectors\<close>

text \<open>The copy constructor of an element (\<^verbatim>\<open>cp\<close>) and its assignment (\<^verbatim>\<open>asg\<close>, of the old and the source value) may throw;
  the rest of the segment is filled with zeros then. A source cell without an object has no defined copy.\<close>

fun copy_cells :: "('a \<Rightarrow> 'a option) \<Rightarrow> 'a cell list \<Rightarrow> 'a cell list \<times> vec_error option" where
  "copy_cells cp [] = ([], None)"
| "copy_cells cp (Obj x # cs) =
     (case cp x of None \<Rightarrow> (replicate (Suc (length cs)) Zero, Some Ctor_threw)
      | Some y \<Rightarrow> (case copy_cells cp cs of (ys, e) \<Rightarrow> (Obj y # ys, e)))"
| "copy_cells cp (_ # cs) = (replicate (Suc (length cs)) Raw, Some Undefined)"

fun assign_cells :: "('a \<Rightarrow> 'a \<Rightarrow> 'a option) \<Rightarrow> 'a cell list \<Rightarrow> 'a cell list \<Rightarrow> 'a cell list \<times> vec_error option" where
  "assign_cells asg (Obj d # ds) (Obj x # cs) =
     (case asg d x of None \<Rightarrow> (replicate (Suc (length cs)) Zero, Some Ctor_threw)
      | Some y \<Rightarrow> (case assign_cells asg ds cs of (ys, e) \<Rightarrow> (Obj y # ys, e)))"
| "assign_cells asg _ [] = ([], None)"
| "assign_cells asg _ (c # cs) = (replicate (Suc (length cs)) Raw, Some Undefined)"

definition seg_cells :: "'a cvector \<Rightarrow> nat \<Rightarrow> nat \<Rightarrow> nat \<Rightarrow> 'a cell list" where
  "seg_cells v k i m = (case my_segments v ! k of Seg b p \<Rightarrow> take m (drop (p + i) (my_blocks v ! b)) | _ \<Rightarrow> [])"

definition put_segment :: "'a cvector \<Rightarrow> nat \<Rightarrow> nat \<Rightarrow> 'a cell list \<times> vec_error option \<Rightarrow> 'a vres" where
  "put_segment v k i r =
     (case my_segments v ! k of Seg b p \<Rightarrow> (store_cells v b (p + i) (fst r), snd r) | _ \<Rightarrow> (v, Some Undefined))"

definition enabled_size :: "nat \<Rightarrow> nat" where
  "enabled_size k = (if k \<noteq> 0 then vseg_size k else 2)"

definition damaged :: "'a cvector \<Rightarrow> nat \<Rightarrow> bool" where
  "damaged src k \<longleftrightarrow> is_short src \<and> pointers_per_short_table \<le> k \<or> \<not> allocated (my_segments src ! k)"

function copy_loop :: "vec_alloc \<Rightarrow> ('a \<Rightarrow> 'a option) \<Rightarrow> 'a cvector \<Rightarrow> nat \<Rightarrow> 'a cvector \<Rightarrow> nat \<Rightarrow> 'a vres" where
  "copy_loop A cp src n v k =
     (let b = vseg_base k in
      if b < n
      then if damaged src k then (v\<lparr>my_early_size := b\<rparr>, None)
           else vthen (extend_table_if_necessary A v k 0) (\<lambda>v.
                  vthen (enable_segment A v k False) (\<lambda>v.
                    let m = min (enabled_size k) (n - b)
                    in vthen (put_segment (v\<lparr>my_early_size := b + m\<rparr>) k 0 (copy_cells cp (seg_cells src k 0 m)))
                         (\<lambda>v. copy_loop A cp src n v (k + 1))))
      else (v, None))"
  by pat_completeness auto

termination
  by (relation "measure (\<lambda>(A, cp, src, n, v, k). n - vseg_base k)") (use vseg_base_less in \<open>auto intro!: diff_less_mono2\<close>)

definition internal_copy :: "vec_alloc \<Rightarrow> ('a \<Rightarrow> 'a option) \<Rightarrow> 'a cvector \<Rightarrow> 'a cvector \<Rightarrow> 'a vres" where
  "internal_copy A cp src v =
     (let n = my_early_size src
      in if n \<noteq> 0 then copy_loop A cp src n (assign_first_segment_if_necessary v (vseg_index (n - 1))) 0 else (v, None))"

function shrink_loop :: "'a cvector \<Rightarrow> nat \<Rightarrow> 'a vres" where
  "shrink_loop v n =
     (if n < my_early_size v
      then (let k = vseg_index (my_early_size v - 1); b = vseg_base k; new_end = (if n \<le> b then b else n)
            in case seg_at v k of
                 Some (Seg bl p) \<Rightarrow>
                   (if new_end < my_early_size v
                    then shrink_loop (store_cells v bl (p + (new_end - b)) (replicate (my_early_size v - new_end) Raw)
                           \<lparr>my_early_size := new_end\<rparr>) n
                    else (v, Some Undefined))
               | Some _ \<Rightarrow> (v, Some Bad_last_alloc)
               | None \<Rightarrow> (v, Some Undefined))
      else (v, None))"
  by pat_completeness auto

termination by (relation "measure (\<lambda>(v, n). my_early_size v)") auto

function assign_loop :: "vec_alloc \<Rightarrow> ('a \<Rightarrow> 'a option) \<Rightarrow> ('a \<Rightarrow> 'a \<Rightarrow> 'a option) \<Rightarrow> 'a cvector \<Rightarrow> nat \<Rightarrow> nat \<Rightarrow>
    'a cvector \<Rightarrow> nat \<Rightarrow> 'a vres" where
  "assign_loop A cp asg src n dst_initialized_size v k =
     (let b = vseg_base k in
      if b < n
      then if damaged src k then (v\<lparr>my_early_size := b\<rparr>, None)
           else vthen (extend_table_if_necessary A v k 0) (\<lambda>v.
                  vthen (if my_segments v ! k = Not_used then enable_segment A v k False
                         else (v, if allocated (my_segments v ! k) then None else Some Bad_last_alloc)) (\<lambda>v.
                    let m = min (enabled_size k) (n - b);
                        a = (if b < dst_initialized_size then min (dst_initialized_size - b) m else 0)
                    in vthen (if b < dst_initialized_size
                              then put_segment v k 0 (assign_cells asg (seg_cells v k 0 a) (seg_cells src k 0 a)) else (v, None))
                         (\<lambda>v. vthen (if a < m then put_segment v k a (copy_cells cp (seg_cells src k a (m - a))) else (v, None))
                           (\<lambda>v. assign_loop A cp asg src n dst_initialized_size v (k + 1)))))
      else (v, None))"
  by pat_completeness auto

termination
  by (relation "measure (\<lambda>(A, cp, asg, src, n, d, v, k). n - vseg_base k)") (use vseg_base_less in \<open>auto intro!: diff_less_mono2\<close>)

declare copy_loop.simps [simp del] shrink_loop.simps [simp del] assign_loop.simps [simp del]

definition internal_assign :: "vec_alloc \<Rightarrow> ('a \<Rightarrow> 'a option) \<Rightarrow> ('a \<Rightarrow> 'a \<Rightarrow> 'a option) \<Rightarrow> 'a cvector \<Rightarrow> 'a cvector \<Rightarrow> 'a vres" where
  "internal_assign A cp asg src v =
     (let n = my_early_size src
      in vthen (shrink_loop v n) (\<lambda>v.
           assign_loop A cp asg src n (my_early_size v)
             (assign_first_segment_if_necessary (v\<lparr>my_early_size := n\<rparr>) (vseg_index n)) 0))"

definition internal_swap :: "'a cvector \<Rightarrow> 'a cvector \<Rightarrow> 'a cvector \<times> 'a cvector" where
  "internal_swap v w = (if my_early_size v = 0 \<and> my_early_size w = 0 then (v, w) else (w, v))"

text \<open>\<^verbatim>\<open>internal_assign_iterators\<close>: its own loop over the segments, without the helper's recovery.\<close>

function iterate_loop :: "(nat \<Rightarrow> 'a option) \<Rightarrow> nat \<Rightarrow> 'a cvector \<Rightarrow> nat \<Rightarrow> nat \<Rightarrow> 'a vres" where
  "iterate_loop elem i v k n =
     (let sz = helper_sz (my_first_block v) k in
      if sz < n
      then vthen (put_segment v k 0 (case construct elem i sz of (ys, ok) \<Rightarrow> (ys, if ok then None else Some Ctor_threw)))
             (\<lambda>v. iterate_loop elem (i + sz) v (helper_next (my_first_block v) k) (n - sz))
      else put_segment v k 0 (case construct elem i n of (ys, ok) \<Rightarrow> (ys, if ok then None else Some Ctor_threw)))"
  by pat_completeness auto

termination
  by (relation "measure (\<lambda>(elem, i, v, k, n). n)") (use helper_sz_pos in \<open>auto intro!: diff_less dest: order.strict_trans\<close>)

declare iterate_loop.simps [simp del]

definition internal_assign_iterators :: "vec_alloc \<Rightarrow> nat \<Rightarrow> 'a cvector \<Rightarrow> nat \<Rightarrow> (nat \<Rightarrow> 'a option) \<Rightarrow> 'a vres" where
  "internal_assign_iterators A max_size v n elem =
     (if n = 0 then (v, None)
      else vthen (vec_internal_reserve A v n max_size) (\<lambda>v. iterate_loop elem 0 (v\<lparr>my_early_size := n\<rparr>) 0 n))"

section \<open>One segment at a time\<close>

lemma copy_cells_all:
  "(\<And>x. x \<in> set xs \<Longrightarrow> cp x \<noteq> None) \<Longrightarrow> copy_cells cp (map Obj xs) = (map (\<lambda>x. Obj (the (cp x))) xs, None)"
proof (induction xs)
  case (Cons x xs)
  obtain y where "cp x = Some y" using Cons.prems [of x] by auto
  then show ?case using Cons by simp
qed simp

lemma assign_cells_all:
  "length ds = length xs \<Longrightarrow> (\<And>d x. asg d x \<noteq> None) \<Longrightarrow>
    assign_cells asg (map Obj ds) (map Obj xs) = (map2 (\<lambda>d x. Obj (the (asg d x))) ds xs, None)"
proof (induction ds xs rule: list_induct2)
  case (Cons d ds x xs)
  obtain y where "asg d x = Some y" using Cons.prems [of d x] by auto
  then show ?case using Cons by simp
qed simp

lemma base_enabled: "vseg_base (Suc k) = vseg_base k + enabled_size k"
  by (simp add: vseg_base_eq enabled_size_def)

lemma seg_home:
  assumes l: "layout loc n v" and k: "k < n"
  obtains b p h where "my_segments v ! k = Seg b p" "b = loc h" "h \<in> homes (my_first_block v) n" "vseg_base h + p = vseg_base k"
    "p + enabled_size k \<le> helper_sz (my_first_block v) h" "\<And>x. vseg_base k \<le> x \<Longrightarrow> x < vseg_base (Suc k) \<Longrightarrow> home (my_first_block v) x = h"
proof -
  let ?fb = "my_first_block v"
  have fb: "?fb \<noteq> 0" using layoutD(4) [OF l] k by auto
  have k64: "k < 64" using k layout_le64 [OF l] by linarith
  define h where "h = (if k < ?fb then 0 else k)"
  define p where "p = (if k < ?fb then vseg_base k else 0)"
  have "vseg_base (Suc k) \<le> vseg_base ?fb" if "k < ?fb" using that vseg_base_mono [of "Suc k" ?fb] by simp
  then have "p + enabled_size k \<le> helper_sz ?fb h"
    using fb base_enabled [of k] by (auto simp: p_def h_def helper_sz_def enabled_size_def vseg_base_eq split: if_splits)
  moreover have "home ?fb x = h" if "vseg_base k \<le> x" "x < vseg_base (Suc k)" for x
  proof -
    have "x < 2 ^ 64" using that(2) vseg_base_64 [of "Suc k"] k64 by linarith
    then show ?thesis using vseg_index_iff [of x k] k64 that size_index [of x ?fb] fb by (simp add: home_def h_def)
  qed
  moreover have "my_segments v ! k = Seg (loc h) p" using layoutD(5) [OF l k] by (simp add: h_def p_def)
  moreover have "h \<in> homes ?fb n" "vseg_base h + p = vseg_base k" using k by (auto simp: homes_def h_def p_def)
  ultimately show ?thesis using that by blast
qed

lemma put_segment_ok:
  assumes l: "layout loc n v" and k: "k < n" and ys: "i + length ys \<le> enabled_size k"
  shows "\<exists>v'. put_segment v k i (ys, None) = (v', None) \<and>
    wrote loc n v v' (vseg_base k + i) (vseg_base k + i + length ys) (\<lambda>x. ys ! (x - (vseg_base k + i)))"
proof -
  obtain b p h where s: "my_segments v ! k = Seg b p" "b = loc h" "h \<in> homes (my_first_block v) n" "vseg_base h + p = vseg_base k"
    "p + enabled_size k \<le> helper_sz (my_first_block v) h" using seg_home [OF l k] by metis
  have "vseg_base h + (p + i) = vseg_base k + i" using s(4) by simp
  then have "wrote loc n v (store_cells v (loc h) (p + i) ys) (vseg_base k + i) (vseg_base k + i + length ys)
      (\<lambda>x. ys ! (x - (vseg_base k + i)))"
    using store_layout [OF l s(3), of "p + i" ys] ys s(5) unfolding \<open>vseg_base h + (p + i) = vseg_base k + i\<close> by simp
  then show ?thesis using s(1,2) by (simp add: put_segment_def)
qed

lemma seg_cells_ok:
  assumes l: "layout loc n v" and k: "k < n" and m: "i + m \<le> enabled_size k"
  shows "seg_cells v k i m = map (cell_at loc v) [vseg_base k + i..<vseg_base k + i + m]"
proof -
  obtain b p h where s: "my_segments v ! k = Seg b p" "b = loc h" "h \<in> homes (my_first_block v) n" "vseg_base h + p = vseg_base k"
    "p + enabled_size k \<le> helper_sz (my_first_block v) h"
    "\<And>x. vseg_base k \<le> x \<Longrightarrow> x < vseg_base (Suc k) \<Longrightarrow> home (my_first_block v) x = h" using seg_home [OF l k] by metis
  have len: "length (my_blocks v ! loc h) = helper_sz (my_first_block v) h" by (rule layoutD(9) [OF l s(3)])
  show ?thesis
  proof (rule nth_equalityI)
    show "length (seg_cells v k i m) = length (map (cell_at loc v) [vseg_base k + i..<vseg_base k + i + m])"
      using s(1,2,5) len m by (simp add: seg_cells_def)
    fix j assume "j < length (seg_cells v k i m)"
    then have j: "j < m" using s(1,2) by (simp add: seg_cells_def)
    have h: "home (my_first_block v) (vseg_base k + i + j) = h" by (rule s(6)) (use j m base_enabled [of k] in auto)
    have "vseg_base k + i + j - vseg_base h = p + i + j" using s(4) by linarith
    then show "seg_cells v k i m ! j = map (cell_at loc v) [vseg_base k + i..<vseg_base k + i + m] ! j"
      using j m s(1,2,5) len h by (simp add: seg_cells_def cell_at_def)
  qed
qed

lemma ensure_segment_ok:
  assumes l: "layout loc n v" and k: "k \<le> n" "k < 64" and fb: "my_first_block v \<noteq> 0" and A: "all_ok A"
  shows "\<exists>v1 loc' v'. extend_table_if_necessary A v k 0 = (v1, None) \<and> (k < n \<longleftrightarrow> allocated (my_segments v1 ! k)) \<and>
    (n = k \<longleftrightarrow> my_segments v1 ! k = Not_used) \<and> (if k < n then v' = v1 else enable_segment A v1 k mark = (v', None)) \<and>
    layout loc' (max n (Suc k)) v' \<and> my_first_block v' = my_first_block v \<and> my_early_size v' = my_early_size v \<and>
    (\<forall>x<vseg_base n. cell_at loc' v' x = cell_at loc v x) \<and> stays v v'"
proof -
  obtain v1 where v1: "extend_table_if_necessary A v k 0 = (v1, None)" "layout loc n v1" "k < length (my_segments v1)"
    "my_first_block v1 = my_first_block v" "my_early_size v1 = my_early_size v" "my_blocks v1 = my_blocks v" "stays v v1"
    using extend_table_layout [OF l k(2) _ A, of 0] by auto
  have c1: "cell_at loc v1 = cell_at loc v" using v1(4,6) by (simp add: cell_at_def fun_eq_iff)
  show ?thesis
  proof (cases "k < n")
    case True
    then have "max n (Suc k) = n" by simp
    then show ?thesis using v1 True good_segments [OF v1(2) True] c1
      by (intro exI [of _ v1] exI [of _ loc]) auto
  next
    case False
    then have n: "n = k" using k(1) by simp
    have fb1: "my_first_block v1 \<noteq> 0" using fb v1(4) by simp
    have na: "my_segments v1 ! k = Not_used" using layoutD(6) [OF v1(2) _ v1(3)] n by simp
    obtain loc2 v2 where v2: "enable_segment A v1 k mark = (v2, None)" "enlarges loc {..<n} v1 loc2 (insert k {..<n}) v2"
      using enable_ok [OF v1(2) [unfolded slayout_upto] v1(3), of A mark] fb1 A n by auto
    have S: "insert k {..<n} = {..<max n (Suc k)}" using n by auto
    note e = enlargesD [OF v2(2), unfolded S]
    have l2: "layout loc2 (max n (Suc k)) v2" using e(1) by (simp only: slayout_upto)
    have "cell_at loc2 v2 x = cell_at loc v x" if x: "x < vseg_base n" for x
    proof -
      have "x < room (my_first_block v1) n" using x room_ge [of n "my_first_block v1"] by linarith
      then show ?thesis using enlarges_cells [OF v2(2) fb1] layout_le64 [OF l] layoutD(3) [OF v1(2)] c1 by simp
    qed
    moreover have "stays v v2" using stays_trans [OF v1(7) enlarges_stays [OF v2(2) v1(2) [unfolded slayout_upto]]] .
    ultimately show ?thesis using v1 v2(1) l2 e(3,4) n na
      by (intro exI [of _ v1] exI [of _ loc2] exI [of _ v2]) simp
  qed
qed

lemma not_damaged:
  assumes "vec_ok loc n src xs" "vseg_base k < length xs"
  shows "\<not> damaged src k" "k < n"
proof -
  note d = vec_okD [OF assms(1)]
  show k: "k < n" using assms(2) d(3) vseg_base_less_imp [of k n] by linarith
  then show "\<not> damaged src k"
    using good_segments [OF d(1) k] layoutD(2) [OF d(1)] by (auto simp: damaged_def is_short_def)
qed

lemma vec_cells:
  assumes v: "vec_ok loc n src xs" and k: "k < n" and m: "i + m \<le> enabled_size k" "vseg_base k + i + m \<le> length xs"
  shows "seg_cells src k i m = map Obj (map (\<lambda>x. xs ! x) [vseg_base k + i..<vseg_base k + i + m])"
  using seg_cells_ok [OF vec_okD(1) [OF v] k m(1)] vec_okD(4) [OF v] m(2) by simp

definition copies_ok :: "('a \<Rightarrow> 'a option) \<Rightarrow> 'a list \<Rightarrow> bool" where
  "copies_ok cp xs \<longleftrightarrow> (\<forall>x\<in>set xs. cp x \<noteq> None)"

lemma copy_part:
  assumes v: "vec_ok loc n src xs" and k: "k < n" and m: "i + m \<le> enabled_size k" "vseg_base k + i + m \<le> length xs"
    and cp: "copies_ok cp xs"
  shows "copy_cells cp (seg_cells src k i m) = (map (\<lambda>x. Obj (the (cp (xs ! x)))) [vseg_base k + i..<vseg_base k + i + m], None)"
proof -
  let ?zs = "map (\<lambda>x. xs ! x) [vseg_base k + i..<vseg_base k + i + m]"
  have "cp y \<noteq> None" if "y \<in> set ?zs" for y
    using cp that m(2) by (auto simp: copies_ok_def)
  then have "copy_cells cp (map Obj ?zs) = (map (\<lambda>x. Obj (the (cp x))) ?zs, None)" by (rule copy_cells_all)
  then show ?thesis unfolding vec_cells [OF v k m] by (simp add: comp_def)
qed

lemma put_copy_ok:
  assumes v: "vec_ok loc n src xs" and k: "k < n" and m: "i + m \<le> enabled_size k" "vseg_base k + i + m \<le> length xs"
    and cp: "copies_ok cp xs" and l: "layout loc' n' v" and k': "k < n'"
  shows "\<exists>v'. put_segment v k i (copy_cells cp (seg_cells src k i m)) = (v', None) \<and>
    wrote loc' n' v v' (vseg_base k + i) (vseg_base k + i + m) (\<lambda>x. Obj (the (cp (xs ! x))))"
proof -
  let ?ys = "map (\<lambda>x. Obj (the (cp (xs ! x)))) [vseg_base k + i..<vseg_base k + i + m]"
  obtain v' where "put_segment v k i (?ys, None) = (v', None)"
    "wrote loc' n' v v' (vseg_base k + i) (vseg_base k + i + length ?ys) (\<lambda>x. ?ys ! (x - (vseg_base k + i)))"
    using put_segment_ok [OF l k', of i ?ys] m(1) by auto
  then show ?thesis using copy_part [OF v k m cp] by (auto simp: wrote_def)
qed

lemma copy_loop_ok:
  assumes src: "vec_ok ls ns src xs" and cp: "copies_ok cp xs" and A: "all_ok A"
  shows "layout loc k v \<Longrightarrow> my_first_block v \<noteq> 0 \<Longrightarrow>
    \<exists>loc' k' v'. copy_loop A cp src (length xs) v k = (v', None) \<and> layout loc' k' v' \<and> length xs \<le> vseg_base k' \<and>
      my_early_size v' = (if vseg_base k < length xs then length xs else my_early_size v) \<and>
      (\<forall>x<vseg_base k. cell_at loc' v' x = cell_at loc v x) \<and>
      (\<forall>x. vseg_base k \<le> x \<longrightarrow> x < length xs \<longrightarrow> cell_at loc' v' x = Obj (the (cp (xs ! x))))"
proof (induction "length xs - vseg_base k" arbitrary: loc k v rule: less_induct)
  case less
  show ?case
  proof (cases "vseg_base k < length xs")
    case False
    then show ?thesis using less.prems
      by (intro exI [of _ loc] exI [of _ k] exI [of _ v]) (auto simp: copy_loop.simps [of A cp src "length xs" v k])
  next
    case True
    note nd = not_damaged [OF src True]
    have k64: "k < 64" using nd(2) vec_okD(5) [OF src] by linarith
    obtain v1 loc2 v2 where e: "extend_table_if_necessary A v k 0 = (v1, None)" "enable_segment A v1 k False = (v2, None)"
      "layout loc2 (Suc k) v2" "my_first_block v2 = my_first_block v" "\<forall>x<vseg_base k. cell_at loc2 v2 x = cell_at loc v x"
      using ensure_segment_ok [OF less.prems(1) order_refl k64 less.prems(2) A, of False] by auto
    define m where "m = min (enabled_size k) (length xs - vseg_base k)"
    have m: "0 + m \<le> enabled_size k" "vseg_base k + 0 + m \<le> length xs" using True by (auto simp: m_def)
    have l: "layout loc2 (Suc k) (v2\<lparr>my_early_size := vseg_base k + m\<rparr>)" using e(3) by (simp add: size_frame)
    obtain v3 where w: "put_segment (v2\<lparr>my_early_size := vseg_base k + m\<rparr>) k 0 (copy_cells cp (seg_cells src k 0 m)) = (v3, None)"
      "wrote loc2 (Suc k) (v2\<lparr>my_early_size := vseg_base k + m\<rparr>) v3 (vseg_base k + 0) (vseg_base k + 0 + m) (\<lambda>x. Obj (the (cp (xs ! x))))"
      using put_copy_ok [OF src nd(2) m cp l] by auto
    note w3 = wroteD [OF w(2)]
    have fb3: "my_first_block v3 \<noteq> 0" using w3(2) e(4) less.prems(2) by simp
    have sz: "length xs - vseg_base (Suc k) < length xs - vseg_base k" using True vseg_base_less [of k] by linarith
    obtain loc' k' v' where r: "copy_loop A cp src (length xs) v3 (Suc k) = (v', None)" "layout loc' k' v'" "length xs \<le> vseg_base k'"
      "my_early_size v' = (if vseg_base (Suc k) < length xs then length xs else my_early_size v3)"
      "\<forall>x<vseg_base (Suc k). cell_at loc' v' x = cell_at loc2 v3 x"
      "\<forall>x. vseg_base (Suc k) \<le> x \<longrightarrow> x < length xs \<longrightarrow> cell_at loc' v' x = Obj (the (cp (xs ! x)))"
      using less.hyps [OF sz w3(1) fb3] by blast
    have mb: "\<not> vseg_base (Suc k) < length xs \<Longrightarrow> vseg_base k + m = length xs"
      using True base_enabled [of k] by (auto simp: m_def)
    have res: "copy_loop A cp src (length xs) v k = (v', None)"
      using r(1) e(1,2) w(1) True nd(1) by (simp add: copy_loop.simps [of A cp src "length xs" v k] Let_def m_def)
    have size: "my_early_size v' = length xs" using r(4) w3(3) mb by (cases "vseg_base (Suc k) < length xs") auto
    have c3: "cell_at loc2 v3 x = (if vseg_base k \<le> x \<and> x < vseg_base k + m then Obj (the (cp (xs ! x))) else cell_at loc2 v2 x)"
      if "x < vseg_base (Suc k)" for x
      using wrote_elements [OF w(2) room_ge that] by (simp add: size_frame)
    have old: "cell_at loc' v' x = cell_at loc v x" if x: "x < vseg_base k" for x
    proof -
      have "x < vseg_base (Suc k)" using x vseg_base_less [of k] by linarith
      then show ?thesis using r(5) c3 [of x] e(5) x by simp
    qed
    have new: "cell_at loc' v' x = Obj (the (cp (xs ! x)))" if x: "vseg_base k \<le> x" "x < length xs" for x
    proof (cases "x < vseg_base (Suc k)")
      case True
      then have "x < vseg_base k + m" using x base_enabled [of k] by (auto simp: m_def)
      then show ?thesis using r(5) True c3 [OF True] x(1) by simp
    next
      case False
      then show ?thesis using r(6) x(2) by simp
    qed
    show ?thesis using res r(2,3) size old new True by (intro exI [of _ loc'] exI [of _ k'] exI [of _ v']) simp
  qed
qed

lemma internal_copy_ok:
  assumes src: "vec_ok ls ns src xs" and cp: "copies_ok cp xs" and A: "all_ok A"
  shows "\<exists>loc n v. internal_copy A cp src cvector_new = (v, None) \<and> vec_ok loc n v (map (\<lambda>x. the (cp x)) xs)"
proof (cases "xs = []")
  case True
  then show ?thesis using vec_okD(2) [OF src] vec_ok_new by (auto simp: internal_copy_def)
next
  case False
  define v1 :: "'a cvector" where "v1 = assign_first_segment_if_necessary cvector_new (vseg_index (length xs - 1))"
  have "length xs - 1 < 2 ^ 64" using False vec_okD(6) [OF src] by (cases xs) auto
  then have "vseg_index (length xs - 1) < 64" by (rule vseg_index_less)
  note a = assign_first_layout [OF layout_new [where ?'a = 'a] this, folded v1_def]
  obtain loc k v where r: "copy_loop A cp src (length xs) v1 0 = (v, None)" "layout loc k v" "length xs \<le> vseg_base k"
    "my_early_size v = (if vseg_base 0 < length xs then length xs else my_early_size v1)"
    "\<forall>x. vseg_base 0 \<le> x \<longrightarrow> x < length xs \<longrightarrow> cell_at loc v x = Obj (the (cp (xs ! x)))"
    using copy_loop_ok [OF src cp A a(1,2)] by blast
  have "internal_copy A cp src cvector_new = (v, None)"
    using r(1) vec_okD(2) [OF src] False by (simp add: internal_copy_def v1_def)
  moreover have "vec_ok loc k v (map (\<lambda>x. the (cp x)) xs)" using r False by (simp add: vec_ok_def)
  ultimately show ?thesis by blast
qed

section \<open>Assignment\<close>

lemma shrink_loop_ok:
  "vec_ok loc n v ys \<Longrightarrow> \<exists>v'. shrink_loop v m = (v', None) \<and> vec_ok loc n v' (take m ys) \<and> stays v v'"
proof (induction "length ys" arbitrary: v ys rule: less_induct)
  case less
  note d = vec_okD [OF less.prems]
  show ?case
  proof (cases "m < length ys")
    case False
    then show ?thesis using less.prems d(2) stays_refl [of v] by (auto simp: shrink_loop.simps [of v m])
  next
    case True
    define k b where "k = vseg_index (length ys - 1)" and "b = vseg_base k"
    define e where "e = (if m \<le> b then b else m)"
    have lt: "length ys - 1 < 2 ^ 64" using True d(6) by linarith
    have bl: "b \<le> length ys - 1" "length ys - 1 < vseg_base (Suc k)" using vseg_index_bounds [OF lt] by (simp_all add: b_def k_def)
    have e: "m \<le> e" "e < length ys" "b \<le> e" using bl(1) True by (auto simp: e_def)
    have kn: "k < n" unfolding k_def by (rule vec_ok_seg [OF less.prems]) (use True in auto)
    obtain bk p where s: "my_segments v ! k = Seg bk p" using good_segments [OF d(1) kn] by (cases "my_segments v ! k") auto
    have fits: "(e - b) + length (replicate (length ys - e) (Raw :: 'a cell)) \<le> enabled_size k"
      using e bl(2) base_enabled [of k] unfolding b_def length_replicate by linarith
    obtain v1 where w: "put_segment v k (e - b) (replicate (length ys - e) Raw, None) = (v1, None)"
      "wrote loc n v v1 (b + (e - b)) (b + (e - b) + (length ys - e)) (\<lambda>x. replicate (length ys - e) Raw ! (x - (b + (e - b))))"
      using put_segment_ok [OF d(1) kn fits, folded b_def] by auto
    note w1 = wroteD [OF w(2)]
    have v1: "v1 = store_cells v bk (p + (e - b)) (replicate (length ys - e) Raw)" using w(1) s by (simp add: put_segment_def)
    have "cell_at loc v1 x = Obj (ys ! x)" if "x < e" for x
    proof -
      have "x < vseg_base n" using that e(2) d(3) by linarith
      then show ?thesis using wrote_elements [OF w(2) room_ge, of x] that e d(4) [of x] by simp
    qed
    then have ok: "vec_ok loc n (v1\<lparr>my_early_size := e\<rparr>) (take e ys)"
      using w1(1) e(2) d(3) by (simp add: vec_ok_def size_frame)
    obtain v' where r: "shrink_loop (v1\<lparr>my_early_size := e\<rparr>) m = (v', None)" "vec_ok loc n v' (take m (take e ys))"
      "stays (v1\<lparr>my_early_size := e\<rparr>) v'"
      using less.hyps [OF _ ok] e(2) by auto
    have kl: "k < length (my_segments v)" using kn layoutD(2) [OF d(1)] by linarith
    have "shrink_loop v m = shrink_loop (v1\<lparr>my_early_size := e\<rparr>) m"
      unfolding shrink_loop.simps [of v m] Let_def d(2) k_def [symmetric] b_def [symmetric] e_def [symmetric]
      using True s kl e(2) by (simp add: seg_at_def v1)
    moreover have "stays v v'" using r(3) w1(4) by (simp add: stays_def)
    ultimately show ?thesis using r(1,2) e(1) by (simp add: min_def)
  qed
qed

definition assigns_ok :: "('a \<Rightarrow> 'a \<Rightarrow> 'a option) \<Rightarrow> bool" where
  "assigns_ok asg \<longleftrightarrow> (\<forall>d x. asg d x \<noteq> None)"

lemma put_assign_ok:
  assumes v: "vec_ok loc n src xs" and k: "k < n" and m: "a \<le> enabled_size k" "vseg_base k + a \<le> length xs" "vseg_base k + a \<le> length ys"
    and asg: "assigns_ok asg" and l: "layout loc' n' v" and k': "k < n'"
    and old: "\<And>x. vseg_base k \<le> x \<Longrightarrow> x < vseg_base k + a \<Longrightarrow> cell_at loc' v x = Obj (ys ! x)"
  shows "\<exists>v'. put_segment v k 0 (assign_cells asg (seg_cells v k 0 a) (seg_cells src k 0 a)) = (v', None) \<and>
    wrote loc' n' v v' (vseg_base k) (vseg_base k + a) (\<lambda>x. Obj (the (asg (ys ! x) (xs ! x))))"
proof -
  let ?is = "[vseg_base k..<vseg_base k + a]"
  let ?zs = "map (\<lambda>x. Obj (the (asg (ys ! x) (xs ! x)))) ?is"
  have "seg_cells src k 0 a = map Obj (map (\<lambda>x. xs ! x) ?is)"
    using vec_cells [OF v k, of 0 a] m by simp
  moreover have "seg_cells v k 0 a = map Obj (map (\<lambda>x. ys ! x) ?is)"
    using seg_cells_ok [OF l k', of 0 a] m(1) old by simp
  moreover have "map2 (\<lambda>d x. Obj (the (asg d x))) (map (\<lambda>x. ys ! x) ?is) (map (\<lambda>x. xs ! x) ?is) = ?zs"
    by (simp add: zip_map_map comp_def zip_same_conv_map)
  moreover have "\<And>d x. asg d x \<noteq> None" using asg by (simp add: assigns_ok_def)
  ultimately have c: "assign_cells asg (seg_cells v k 0 a) (seg_cells src k 0 a) = (?zs, None)"
    using assign_cells_all [of "map (\<lambda>x. ys ! x) ?is" "map (\<lambda>x. xs ! x) ?is" asg] by simp
  obtain v' where "put_segment v k 0 (?zs, None) = (v', None)"
    "wrote loc' n' v v' (vseg_base k + 0) (vseg_base k + 0 + length ?zs) (\<lambda>x. ?zs ! (x - (vseg_base k + 0)))"
    using put_segment_ok [OF l k', of 0 ?zs] m(1) by auto
  then show ?thesis unfolding c by (auto simp: wrote_def)
qed

definition assigned :: "('a \<Rightarrow> 'a option) \<Rightarrow> ('a \<Rightarrow> 'a \<Rightarrow> 'a option) \<Rightarrow> 'a list \<Rightarrow> 'a list \<Rightarrow> nat \<Rightarrow> 'a" where
  "assigned cp asg ys xs x = the (if x < length ys then asg (ys ! x) (xs ! x) else cp (xs ! x))"

lemma assign_loop_ok:
  assumes src: "vec_ok ls ns src xs" and cp: "copies_ok cp xs" and asg: "assigns_ok asg" and A: "all_ok A" and ys: "length ys \<le> length xs"
  shows "layout loc n v \<Longrightarrow> my_first_block v \<noteq> 0 \<Longrightarrow> k \<le> n \<Longrightarrow> length ys \<le> vseg_base n \<Longrightarrow>
    (\<And>x. vseg_base k \<le> x \<Longrightarrow> x < length ys \<Longrightarrow> cell_at loc v x = Obj (ys ! x)) \<Longrightarrow>
    \<exists>loc' n' v'. assign_loop A cp asg src (length xs) (length ys) v k = (v', None) \<and> layout loc' n' v' \<and> length xs \<le> vseg_base (max k n') \<and>
      n \<le> n' \<and> my_early_size v' = my_early_size v \<and> (\<forall>x<vseg_base k. cell_at loc' v' x = cell_at loc v x) \<and>
      (\<forall>x. vseg_base k \<le> x \<longrightarrow> x < length xs \<longrightarrow> cell_at loc' v' x = Obj (assigned cp asg ys xs x))"
proof (induction "length xs - vseg_base k" arbitrary: loc n v k rule: less_induct)
  case less
  show ?case
  proof (cases "vseg_base k < length xs")
    case False
    then show ?thesis using less.prems(1) vseg_base_mono [of k "max k n"]
      by (intro exI [of _ loc] exI [of _ n] exI [of _ v])
        (auto simp: assign_loop.simps [of A cp asg src "length xs" "length ys" v k])
  next
    case True
    note nd = not_damaged [OF src True]
    have k64: "k < 64" using nd(2) vec_okD(5) [OF src] by linarith
    obtain v1 loc2 v2 where e: "extend_table_if_necessary A v k 0 = (v1, None)" "k < n \<longleftrightarrow> allocated (my_segments v1 ! k)"
      "n = k \<longleftrightarrow> my_segments v1 ! k = Not_used" "if k < n then v2 = v1 else enable_segment A v1 k False = (v2, None)"
      "layout loc2 (max n (Suc k)) v2" "my_first_block v2 = my_first_block v" "my_early_size v2 = my_early_size v"
      "\<forall>x<vseg_base n. cell_at loc2 v2 x = cell_at loc v x"
      using ensure_segment_ok [OF less.prems(1,3) k64 less.prems(2) A, of False] by blast
    have en: "(if my_segments v1 ! k = Not_used then enable_segment A v1 k False
        else (v1, if allocated (my_segments v1 ! k) then None else Some Bad_last_alloc)) = (v2, None)"
      using e(2-4) less.prems(3) by (cases "k < n") auto
    let ?n = "max n (Suc k)"
    have kn: "k < ?n" by simp
    define m a where "m = min (enabled_size k) (length xs - vseg_base k)"
      and "a = (if vseg_base k < length ys then min (length ys - vseg_base k) m else 0)"
    have m: "m \<le> enabled_size k" "vseg_base k + m \<le> length xs" "a \<le> m" using True by (auto simp: m_def a_def)
    have old2: "cell_at loc2 v2 x = Obj (ys ! x)" if "vseg_base k \<le> x" "x < length ys" for x
      using less.prems(4,5) e(8) that by simp
    obtain v3 where w: "(if vseg_base k < length ys
        then put_segment v2 k 0 (assign_cells asg (seg_cells v2 k 0 a) (seg_cells src k 0 a)) else (v2, None)) = (v3, None)"
      "wrote loc2 ?n v2 v3 (vseg_base k) (vseg_base k + a) (\<lambda>x. Obj (the (asg (ys ! x) (xs ! x))))"
    proof (cases "vseg_base k < length ys")
      case True
      then have "vseg_base k + a \<le> length ys" by (simp add: a_def)
      have "a \<le> enabled_size k" "vseg_base k + a \<le> length xs" using m by linarith+
      then obtain v3 where "put_segment v2 k 0 (assign_cells asg (seg_cells v2 k 0 a) (seg_cells src k 0 a)) = (v3, None)"
        "wrote loc2 ?n v2 v3 (vseg_base k) (vseg_base k + a) (\<lambda>x. Obj (the (asg (ys ! x) (xs ! x))))"
        using put_assign_ok [OF src nd(2) _ _ \<open>vseg_base k + a \<le> length ys\<close> asg e(5) kn] old2 \<open>vseg_base k + a \<le> length ys\<close> by fastforce
      then show ?thesis using that True by simp
    next
      case False
      then show ?thesis using that [of v2] wrote_none [OF e(5)] by (simp add: a_def)
    qed
    note w3 = wroteD [OF w(2)]
    obtain v4 where c: "(if a < m then put_segment v3 k a (copy_cells cp (seg_cells src k a (m - a))) else (v3, None)) = (v4, None)"
      "wrote loc2 ?n v3 v4 (vseg_base k + a) (vseg_base k + m) (\<lambda>x. Obj (the (cp (xs ! x))))"
    proof (cases "a < m")
      case True
      then have "a + (m - a) \<le> enabled_size k" "vseg_base k + a + (m - a) \<le> length xs" using m by linarith+
      then show ?thesis using that put_copy_ok [OF src nd(2) _ _ cp w3(1) kn, of a "m - a"] True by auto
    next
      case False
      then show ?thesis using that [of v3] wrote_none [OF w3(1)] by simp
    qed
    note w4 = wroteD [OF c(2)]
    have fb4: "my_first_block v4 \<noteq> 0" using w4(2) w3(2) e(6) less.prems(2) by simp
    have sz: "length xs - vseg_base (Suc k) < length xs - vseg_base k" using True vseg_base_less [of k] by linarith
    have c4: "cell_at loc2 v4 x = (if vseg_base k \<le> x \<and> x < vseg_base k + m then Obj (assigned cp asg ys xs x) else cell_at loc2 v2 x)"
      if "x < vseg_base ?n" for x
    proof -
      have "x < length ys \<longleftrightarrow> x < vseg_base k + a" if "vseg_base k \<le> x" "x < vseg_base k + m" using that by (auto simp: a_def)
      moreover have "vseg_base k + a \<le> vseg_base k + m" using m(3) by simp
      ultimately show ?thesis using wrote_elements [OF w(2) room_ge that] wrote_elements [OF c(2) room_ge that]
        by (auto simp: assigned_def)
    qed
    have ysn: "length ys \<le> vseg_base ?n" using less.prems(4) vseg_base_mono [of n ?n] by simp
    have old4: "cell_at loc2 v4 x = Obj (ys ! x)" if x: "vseg_base (Suc k) \<le> x" "x < length ys" for x
    proof -
      have "vseg_base k + m \<le> x" using x(1) base_enabled [of k] m(1) by linarith
      moreover have "x < vseg_base ?n" using ysn x(2) by linarith
      ultimately show ?thesis using c4 [of x] x(2) old2 [of x] by simp
    qed
    obtain loc' n' v' where r: "assign_loop A cp asg src (length xs) (length ys) v4 (Suc k) = (v', None)" "layout loc' n' v'"
      "length xs \<le> vseg_base (max (Suc k) n')" "?n \<le> n'" "my_early_size v' = my_early_size v4"
      "\<forall>x<vseg_base (Suc k). cell_at loc' v' x = cell_at loc2 v4 x"
      "\<forall>x. vseg_base (Suc k) \<le> x \<longrightarrow> x < length xs \<longrightarrow> cell_at loc' v' x = Obj (assigned cp asg ys xs x)"
      using less.hyps [OF sz w4(1) fb4 _ ysn old4] by auto
    have res: "assign_loop A cp asg src (length xs) (length ys) v k = (v', None)"
      by (subst assign_loop.simps)
        (simp only: Let_def m_def [symmetric] a_def [symmetric] True nd(1) e(1) en w(1) c(1) r(1) vthen.simps if_True if_False Suc_eq_plus1 [symmetric])
    have skn: "vseg_base (Suc k) \<le> vseg_base ?n" by (rule vseg_base_mono) simp
    have old: "cell_at loc' v' x = cell_at loc v x" if x: "x < vseg_base k" for x
    proof -
      have "x < vseg_base (Suc k)" "x < vseg_base n" using x vseg_base_less [of k] vseg_base_mono [OF less.prems(3)] by linarith+
      then show ?thesis using r(6) c4 [of x] e(8) x skn by simp
    qed
    have new: "cell_at loc' v' x = Obj (assigned cp asg ys xs x)" if x: "vseg_base k \<le> x" "x < length xs" for x
    proof (cases "x < vseg_base (Suc k)")
      case True
      then have "x < vseg_base k + m" using x base_enabled [of k] by (auto simp: m_def)
      then show ?thesis using r(6) True c4 [of x] x(1) skn by simp
    qed (use r(7) x(2) in simp)
    have "max (Suc k) n' = max k n'" using r(4) by auto
    then show ?thesis using res r(2,3,4,5) w4(3) w3(3) e(7) old new by (intro exI [of _ loc'] exI [of _ n'] exI [of _ v']) simp
  qed
qed

lemma internal_assign_ok:
  assumes v: "vec_ok loc n v ys" and src: "vec_ok ls ns src xs" and cp: "copies_ok cp xs" and asg: "assigns_ok asg" and A: "all_ok A"
    and len: "length xs < 2 ^ 64"
  shows "\<exists>loc' n' v'. internal_assign A cp asg src v = (v', None) \<and>
    vec_ok loc' n' v' (map (assigned cp asg (take (length xs) ys) xs) [0..<length xs])"
proof -
  obtain v1 where s: "shrink_loop v (length xs) = (v1, None)" "vec_ok loc n v1 (take (length xs) ys)"
    using shrink_loop_ok [OF v, of "length xs"] by blast
  define zs where "zs = take (length xs) ys"
  note d = vec_okD [OF s(2), folded zs_def]
  define v2 where "v2 = assign_first_segment_if_necessary (v1\<lparr>my_early_size := length xs\<rparr>) (vseg_index (length xs))"
  have l: "layout loc n (v1\<lparr>my_early_size := length xs\<rparr>)" using d(1) by (simp add: size_frame)
  note a = assign_first_layout [OF l vseg_index_less [OF len], folded v2_def]
  have zl: "length zs \<le> length xs" by (simp add: zs_def)
  have old: "cell_at loc v2 x = Obj (zs ! x)" if "x < length zs" for x
  proof -
    have "x < vseg_base n" using that d(3) by linarith
    then show ?thesis using a(3) [of x] d(4) [OF that] by (simp add: size_frame)
  qed
  obtain loc' n' v' where r: "assign_loop A cp asg src (length xs) (length zs) v2 0 = (v', None)" "layout loc' n' v'"
    "length xs \<le> vseg_base (max 0 n')" "my_early_size v' = my_early_size v2"
    "\<forall>x. vseg_base 0 \<le> x \<longrightarrow> x < length xs \<longrightarrow> cell_at loc' v' x = Obj (assigned cp asg zs xs x)"
    using assign_loop_ok [OF src cp asg A zl a(1,2) _ d(3), of 0] old by auto
  have "internal_assign A cp asg src v = (v', None)"
    using r(1) s(1) vec_okD(2) [OF src] d(2) by (simp add: internal_assign_def v2_def Let_def)
  moreover have "vec_ok loc' n' v' (map (assigned cp asg zs xs) [0..<length xs])"
    using r a(4) by (simp add: vec_ok_def)
  ultimately show ?thesis unfolding zs_def by blast
qed

section \<open>Filling from a sequence\<close>

lemma put_home_ok:
  assumes l: "layout loc n v" and h: "h \<in> homes (my_first_block v) n" and ys: "length ys \<le> helper_sz (my_first_block v) h"
  shows "\<exists>v'. put_segment v h 0 (ys, None) = (v', None) \<and> wrote loc n v v' (vseg_base h) (vseg_base h + length ys) (\<lambda>x. ys ! (x - vseg_base h))"
  using store_layout [OF l h, of 0 ys] ys home_seg [OF l h] by (auto simp: put_segment_def seg_at_def split: if_splits)

lemma iterate_loop_ok:
  "layout loc n v \<Longrightarrow> k \<in> homes (my_first_block v) n \<Longrightarrow> vseg_base k + m \<le> room (my_first_block v) n \<Longrightarrow>
    init_ok elem (vseg_base k) (vseg_base k + m) \<Longrightarrow>
    \<exists>v'. iterate_loop elem (vseg_base k) v k m = (v', None) \<and> wrote loc n v v' (vseg_base k) (vseg_base k + m) (\<lambda>x. Obj (the (elem x)))"
proof (induction m arbitrary: v k rule: less_induct)
  case (less m)
  let ?fb = "my_first_block v" and ?sz = "helper_sz (my_first_block v) k"
  have n: "n \<noteq> 0" "n \<le> 64" using less.prems(2) layout_le64 [OF less.prems(1)] by (auto simp: homes_def split: if_splits)
  have fb: "?fb \<noteq> 0" using layoutD(4) [OF less.prems(1)] n by simp
  have kh: "k = 0 \<or> ?fb \<le> k" using homes_64 [OF less.prems(2) n(2)] by simp
  have c: "construct elem (vseg_base k) j = (map (\<lambda>x. Obj (the (elem x))) [vseg_base k..<vseg_base k + j], True)" if "j \<le> m" for j
    by (rule construct_all) (use less.prems(4) that in \<open>auto simp: init_ok_def\<close>)
  have w: "\<exists>v'. put_segment v k 0 (case construct elem (vseg_base k) j of (ys, ok) \<Rightarrow> (ys, if ok then None else Some Ctor_threw)) = (v', None) \<and>
      wrote loc n v v' (vseg_base k) (vseg_base k + j) (\<lambda>x. Obj (the (elem x)))" if jm: "j \<le> m" "j \<le> ?sz" for j
  proof -
    let ?ys = "map (\<lambda>x. Obj (the (elem x))) [vseg_base k..<vseg_base k + j]"
    obtain v' where "put_segment v k 0 (?ys, None) = (v', None)"
      "wrote loc n v v' (vseg_base k) (vseg_base k + length ?ys) (\<lambda>x. ?ys ! (x - vseg_base k))"
      using put_home_ok [OF less.prems(1,2), of ?ys] jm(2) by auto
    then show ?thesis using c [OF jm(1)] by (auto simp: wrote_def)
  qed
  show ?case
  proof (cases "?sz < m")
    case True
    obtain v1 where v1: "put_segment v k 0 (case construct elem (vseg_base k) ?sz of (ys, ok) \<Rightarrow> (ys, if ok then None else Some Ctor_threw)) = (v1, None)"
      "wrote loc n v v1 (vseg_base k) (vseg_base k + ?sz) (\<lambda>x. Obj (the (elem x)))"
      using w [of ?sz] True by auto
    note b = helper_next_base [OF fb kh]
    have nh: "helper_next ?fb k \<in> homes ?fb n"
      by (rule helper_next_homes [OF fb less.prems(2)]) (use less.prems(3) True b in linarith)
    have fb1: "my_first_block v1 = ?fb" by (rule wroteD(2) [OF v1(2)])
    have lt: "m - ?sz < m" using True helper_sz_pos [of ?fb k] by linarith
    have rm: "vseg_base (helper_next ?fb k) + (m - ?sz) = vseg_base k + m" using b True by linarith
    have io: "init_ok elem (vseg_base (helper_next ?fb k)) (vseg_base (helper_next ?fb k) + (m - ?sz))"
      unfolding rm using less.prems(4) b by (auto simp: init_ok_def)
    obtain v2 where v2: "iterate_loop elem (vseg_base (helper_next ?fb k)) v1 (helper_next ?fb k) (m - ?sz) = (v2, None)"
      "wrote loc n v1 v2 (vseg_base (helper_next ?fb k)) (vseg_base k + m) (\<lambda>x. Obj (the (elem x)))"
      using less.IH [OF lt wroteD(1) [OF v1(2)], unfolded fb1, OF nh _ io] less.prems(3) unfolding rm by blast
    have "wrote loc n v v2 (vseg_base k) (vseg_base k + m) (\<lambda>x. Obj (the (elem x)))"
      using wrote_trans [OF v1(2) v2(2) [unfolded b]] True by simp
    moreover have "iterate_loop elem (vseg_base k) v k m = (v2, None)"
      using v1(1) v2(1) True fb1 b by (simp add: iterate_loop.simps [of elem "vseg_base k" v k m] Let_def)
    ultimately show ?thesis by blast
  next
    case False
    then show ?thesis using w [of m] by (simp add: iterate_loop.simps [of elem "vseg_base k" v k m] Let_def)
  qed
qed

lemma assign_iterators_ok:
  assumes v: "vec_ok loc n v []" and m: "m \<le> 2 ^ 64" "m \<le> max_size" and A: "all_ok A" and elem: "init_ok elem 0 m"
  shows "grown v (map (\<lambda>x. the (elem x)) [0..<m]) (internal_assign_iterators A max_size v m elem)"
proof (cases "m = 0")
  case True
  then show ?thesis using grownI [OF v stays_refl] by (simp add: internal_assign_iterators_def)
next
  case False
  obtain loc' n' v' where r: "vec_internal_reserve A v m max_size = (v', None)" "vec_ok loc' n' v' []" "m \<le> vseg_base n'" "stays v v'"
    using internal_reserve_ok [OF v _ m A] False by auto
  let ?v = "v'\<lparr>my_early_size := m\<rparr>"
  have l: "layout loc' n' ?v" using vec_okD(1) [OF r(2)] by (simp add: size_frame)
  have n: "n' \<noteq> 0" using r(3) False by (cases n') auto
  have rm: "vseg_base 0 + m \<le> room (my_first_block ?v) n'" using r(3) room_ge [of n' "my_first_block ?v"] by simp
  obtain v2 where w: "iterate_loop elem 0 ?v 0 m = (v2, None)" "wrote loc' n' ?v v2 0 m (\<lambda>x. Obj (the (elem x)))"
    using iterate_loop_ok [OF l _ rm, of elem] n elem by (auto simp: homes_def)
  have "cell_at loc' v2 x = Obj (map (\<lambda>x. the (elem x)) [0..<m] ! x)" if "x < m" for x
  proof -
    have "x < vseg_base n'" using that r(3) by linarith
    then show ?thesis using wrote_elements [OF w(2) room_ge, of x] that by simp
  qed
  then have "vec_ok loc' n' v2 (map (\<lambda>x. the (elem x)) [0..<m])" using wroteD(1,3) [OF w(2)] r(3) by (simp add: vec_ok_def)
  moreover have "stays v v2" using stays_trans [OF r(4), of v2] wroteD(4) [OF w(2)] by (simp add: stays_def)
  ultimately show ?thesis using r(1) w(1) False by (auto simp: internal_assign_iterators_def intro: grownI)
qed

end
