(* ===== verification/Vector_Memory.thy ===== *)
theory Vector_Memory
  imports Concurrent_Vector
begin

text \<open>
  \<^verbatim>\<open>include/tbb/concurrent_vector.h\<close> and \<^verbatim>\<open>src/tbb/concurrent_vector.cpp\<close>: \<^verbatim>\<open>shrink_to_fit\<close>, which merges the first segments into one
  block and frees those not needed, and the destructor. Freeing a block twice, or with another size than it was allocated
  with, is an error of the model; the lemmas show that it does not happen and that no block is lost.
\<close>

section \<open>Freeing segments\<close>

text \<open>A deallocation names the first cell of a live block and its size; a freed block has no cells.\<close>

definition deallocate :: "'a cvector \<Rightarrow> vec_segment \<Rightarrow> nat \<Rightarrow> 'a vres" where
  "deallocate v s n =
     (case s of
        Seg b p \<Rightarrow> (if p = 0 \<and> b < length (my_blocks v) \<and> n \<noteq> 0 \<and> length (my_blocks v ! b) = n
                    then (v\<lparr>my_blocks := (my_blocks v)[b := []]\<rparr>, None) else (v, Some Undefined))
      | _ \<Rightarrow> (v, None))"

primrec free_down :: "nat \<Rightarrow> nat \<Rightarrow> vec_segment list \<Rightarrow> 'a cvector \<Rightarrow> vec_segment list \<times> 'a vres" where
  "free_down first_block 0 t v = (t, (v, None))"
| "free_down first_block (Suc k) t v =
     (if first_block < Suc k
      then (case deallocate v (t ! k) (vseg_size k) of
              (v', None) \<Rightarrow> free_down first_block k (t[k := Not_used]) v'
            | (v', Some e) \<Rightarrow> (t[k := Not_used], (v', Some e)))
      else (t, (v, None)))"

definition internal_free_segments :: "vec_segment list \<Rightarrow> 'a cvector \<Rightarrow> nat \<Rightarrow> nat \<Rightarrow> vec_segment list \<times> 'a vres" where
  "internal_free_segments t v k first_block =
     (case free_down first_block k t v of
        (t1, (v1, Some e)) \<Rightarrow> (t1, (v1, Some e))
      | (t1, (v1, None)) \<Rightarrow>
          (if allocated (t1 ! 0)
           then (replicate (min k first_block) Not_used @ drop (min k first_block) t1, deallocate v1 (t1 ! 0) (vseg_size first_block))
           else (t1, (v1, None))))"

section \<open>Compacting\<close>

definition incompact_predicate :: "nat \<Rightarrow> bool" where
  "incompact_predicate sz \<longleftrightarrow> sz < 4096 \<or> (sz - 1) mod 4096 < 4096 div 2 \<and> sz < 4096 * 128"

function compact_count :: "nat \<Rightarrow> nat \<Rightarrow> nat \<Rightarrow> nat" where
  "compact_count element_size k k_stop =
     (if k < k_stop \<and> incompact_predicate (vseg_size k * element_size) then compact_count element_size (k + 1) k_stop else k)"
  by pat_completeness auto

termination by (relation "measure (\<lambda>(es, k, k_stop). k_stop - k)") auto

declare compact_count.simps [simp del]

text \<open>The two loops over the segments that are merged visit an increasing index below \<^verbatim>\<open>k\<close>; the first argument bounds the
  number of rounds.\<close>

primrec merge_copy :: "nat \<Rightarrow> ('a \<Rightarrow> 'a option) \<Rightarrow> nat \<Rightarrow> nat \<Rightarrow> nat \<Rightarrow> nat \<Rightarrow> 'a cvector \<Rightarrow> nat \<Rightarrow> nat \<Rightarrow> nat \<Rightarrow> 'a vres" where
  "merge_copy 0 cp seg first_block k my_size v i j sz = (v, if i < k \<and> j < my_size then Some Spins else None)"
| "merge_copy (Suc r) cp seg first_block k my_size v i j sz =
     (if i < k \<and> j < my_size
      then (let m = (if my_size \<le> j + sz then my_size - j else sz); c = copy_cells cp (seg_cells v i 0 m);
                v1 = store_cells v seg (vseg_base i) (fst c); i' = (if i \<noteq> 0 then i + 1 else first_block)
            in case snd c of
                 None \<Rightarrow> merge_copy r cp seg first_block k my_size v1 i' (vseg_size i') (vseg_size i')
               | Some e \<Rightarrow> (store_cells v1 seg 0 (replicate (vseg_base i + m) Raw), Some e))
      else (v, None))"

primrec merge_destroy :: "nat \<Rightarrow> vec_segment list \<Rightarrow> nat \<Rightarrow> nat \<Rightarrow> nat \<Rightarrow> 'a cvector \<Rightarrow> nat \<Rightarrow> nat \<Rightarrow> nat \<Rightarrow> 'a vres" where
  "merge_destroy 0 old first_block k my_size v i j sz = (v, if i < k \<and> j < my_size then Some Spins else None)"
| "merge_destroy (Suc r) old first_block k my_size v i j sz =
     (if i < k \<and> j < my_size
      then (let m = (if my_size \<le> j + sz then my_size - j else sz); i' = (if i \<noteq> 0 then i + 1 else first_block)
            in case old ! i of
                 Seg b p \<Rightarrow> merge_destroy r old first_block k my_size (store_cells v b p (replicate m Raw)) i' (vseg_size i') (vseg_size i')
               | _ \<Rightarrow> (v, Some Undefined))
      else (v, None))"

text \<open>The result is the vector, the table of what is to be freed and its first block, and whether there is something to free.\<close>

definition internal_compact :: "vec_alloc \<Rightarrow> nat \<Rightarrow> ('a \<Rightarrow> 'a option) \<Rightarrow> 'a cvector \<Rightarrow> 'a vres \<times> vec_segment list \<times> nat \<times> bool" where
  "internal_compact A element_size cp v =
     (let my_size = my_early_size v; k_end = find_segment_end v;
          k_stop = (if my_size \<noteq> 0 then vseg_index (my_size - 1) + 1 else 0); first_block = my_first_block v;
          k = (if k_stop < first_block then k_stop else compact_count element_size first_block k_stop);
          empty = replicate pointers_per_long_table Not_used
      in if k_stop = k_end \<and> k = first_block then ((v, None), empty, 0, False)
         else if k \<noteq> first_block \<and> k \<noteq> 0 \<and> \<not> block_ok A (length (my_blocks v)) then ((v, Some Bad_alloc), empty, 0, False)
         else case (if k \<noteq> first_block \<and> k \<noteq> 0
                    then (let seg = length (my_blocks v);
                              v0 = v\<lparr>my_blocks := my_blocks v @ [replicate (vseg_size k) Raw]\<rparr>
                          in case merge_copy k cp seg first_block k my_size v0 0 0 (vseg_size first_block) of
                               (v1, Some e) \<Rightarrow> ((v1, Some e), empty[0 := Seg seg 0], k)
                             | (v1, None) \<Rightarrow>
                                 (let old = take k (my_segments v) @ drop k empty;
                                      v2 = v1\<lparr>my_segments := map (\<lambda>i. Seg seg (vseg_base i)) [0..<k] @ drop k (my_segments v1),
                                              my_first_block := k\<rparr>
                                  in (merge_destroy k old first_block k my_size v2 0 0 (vseg_size first_block), old, first_block)))
                    else ((v, None), empty, 0)) of
                ((v1, Some e), old, fb) \<Rightarrow> ((v1, Some e), old, fb, False)
              | ((v1, None), old, fb) \<Rightarrow>
                  (if k_stop < k_end
                   then ((v1\<lparr>my_segments := take k_stop (my_segments v1) @ replicate (k_end - k_stop) Not_used @ drop k_end (my_segments v1),
                             my_first_block := (if k = 0 then 0 else my_first_block v1)\<rparr>, None),
                         take k_stop old @ take (k_end - k_stop) (drop k_stop (my_segments v1)) @ drop k_end old, first_block, True)
                   else ((v1, None), old, fb, True)))"

definition shrink_to_fit :: "vec_alloc \<Rightarrow> nat \<Rightarrow> ('a \<Rightarrow> 'a option) \<Rightarrow> 'a cvector \<Rightarrow> 'a vres" where
  "shrink_to_fit A element_size cp v =
     (case internal_compact A element_size cp v of
        ((v1, None), old, fb, something) \<Rightarrow>
          (if something then snd (internal_free_segments old v1 pointers_per_long_table fb) else (v1, None))
      | ((v1, Some e), old, fb, _) \<Rightarrow>
          (if fb \<noteq> 0 then (case snd (internal_free_segments old v1 1 fb) of (v2, None) \<Rightarrow> (v2, Some e) | r \<Rightarrow> r) else (v1, Some e)))"

text \<open>Where \<^verbatim>\<open>apply\<close> ends, the result of \<^verbatim>\<open>internal_clear\<close> and the destructor.\<close>

function apply_stop :: "nat \<Rightarrow> nat \<Rightarrow> nat \<Rightarrow> nat" where
  "apply_stop fb k finish = (if helper_sz fb k < finish then apply_stop fb (helper_next fb k) (finish - helper_sz fb k) else k)"
  by pat_completeness auto

termination
  by (relation "measure (\<lambda>(fb, k, finish). finish)") (use helper_sz_pos in \<open>auto intro!: diff_less dest: order.strict_trans\<close>)

declare apply_stop.simps [simp del]

definition segments_to_free :: "'a cvector \<Rightarrow> nat \<Rightarrow> nat" where
  "segments_to_free v sz = (let j = apply_stop (my_first_block v) 0 sz; i = find_segment_end v in if j < i then i else j + 1)"

text \<open>
  The destructor of the base class frees a long table and goes back to the short one (which a build with assertions
  fills with unused entries). A segment that is still allocated then is an error, as in the debug builds.
\<close>

definition vector_base_destructor :: "'a cvector \<Rightarrow> 'a vres" where
  "vector_base_destructor v =
     (if is_short v then (v, None)
      else if list_ex allocated (my_segments v) then (v, Some Undefined)
      else (v\<lparr>my_segments := replicate pointers_per_short_table Not_used\<rparr>, None))"

definition destroy_vector :: "'a cvector \<Rightarrow> 'a vres" where
  "destroy_vector v =
     vthen (internal_clear v) (\<lambda>v1.
       vthen (case internal_free_segments (my_segments v1) v1 (segments_to_free v1 (my_early_size v)) (my_first_block v1) of
                (t, (v2, e)) \<Rightarrow> (v2\<lparr>my_segments := t\<rparr>, e))
         vector_base_destructor)"

section \<open>Freeing is exact\<close>

definition wiped :: "nat set \<Rightarrow> 'a cvector \<Rightarrow> 'a cvector \<Rightarrow> bool" where
  "wiped B v v' \<longleftrightarrow> my_first_block v' = my_first_block v \<and> my_early_size v' = my_early_size v \<and> my_segments v' = my_segments v \<and>
     length (my_blocks v') = length (my_blocks v) \<and>
     (\<forall>b<length (my_blocks v). my_blocks v' ! b = (if b \<in> B then [] else my_blocks v ! b))"

lemma wipedD:
  assumes "wiped B v v'"
  shows "my_first_block v' = my_first_block v" "my_early_size v' = my_early_size v" "my_segments v' = my_segments v"
    "length (my_blocks v') = length (my_blocks v)"
    "b < length (my_blocks v) \<Longrightarrow> my_blocks v' ! b = (if b \<in> B then [] else my_blocks v ! b)"
  using assms by (simp_all add: wiped_def)

lemma wiped_none: "wiped {} v v"
  by (simp add: wiped_def)

lemma wiped_trans: "wiped B v v1 \<Longrightarrow> wiped C v1 v2 \<Longrightarrow> wiped (B \<union> C) v v2"
  by (simp add: wiped_def)

lemma deallocate_ok:
  "b < length (my_blocks v) \<Longrightarrow> length (my_blocks v ! b) = n \<Longrightarrow> n \<noteq> 0 \<Longrightarrow>
    \<exists>v'. deallocate v (Seg b 0) n = (v', None) \<and> wiped {b} v v'"
  by (auto simp: deallocate_def wiped_def nth_list_update)

lemma deallocate_nothing: "\<not> allocated s \<Longrightarrow> deallocate v s n = (v, None)"
  by (cases s) (simp_all add: deallocate_def)

definition freeable :: "(nat \<Rightarrow> nat) \<Rightarrow> nat set \<Rightarrow> 'a cvector \<Rightarrow> bool" where
  "freeable f J v \<longleftrightarrow> inj_on f J \<and> (\<forall>j\<in>J. f j < length (my_blocks v) \<and> length (my_blocks v ! f j) = vseg_size j)"

lemma freeable_wiped:
  assumes "freeable f J v" "wiped B v v'" "B \<inter> f ` J = {}"
  shows "freeable f J v'"
  using assms by (auto simp: freeable_def wiped_def)

lemma free_down_ok:
  "k \<le> length t \<Longrightarrow> J \<subseteq> {fb..<k} \<Longrightarrow> freeable f J v \<Longrightarrow>
    (\<And>j. fb \<le> j \<Longrightarrow> j < k \<Longrightarrow> if j \<in> J then t ! j = Seg (f j) 0 else \<not> allocated (t ! j)) \<Longrightarrow>
    \<exists>t' v'. free_down fb k t v = (t', (v', None)) \<and> wiped (f ` J) v v' \<and> length t' = length t \<and>
      (\<forall>j. t' ! j = (if fb \<le> j \<and> j < k then Not_used else t ! j))"
proof (induction k arbitrary: t v J)
  case 0
  then show ?case using wiped_none by auto
next
  case (Suc k)
  show ?case
  proof (cases "fb < Suc k")
    case False
    then have "J = {}" using Suc.prems(2) by auto
    then show ?thesis using False wiped_none by auto
  next
    case True
    let ?t = "t[k := Not_used]" and ?J = "J - {k}"
    have tk: "if k \<in> J then t ! k = Seg (f k) 0 else \<not> allocated (t ! k)" using Suc.prems(4) [of k] True by simp
    obtain v1 where v1: "deallocate v (t ! k) (vseg_size k) = (v1, None)" "wiped (f ` (J \<inter> {k})) v v1"
    proof (cases "k \<in> J")
      case True
      then have "f k < length (my_blocks v)" "length (my_blocks v ! f k) = vseg_size k" using Suc.prems(3) by (auto simp: freeable_def)
      then show ?thesis using that deallocate_ok [of "f k" v "vseg_size k"] True tk by auto
    next
      case False
      then show ?thesis using that [of v] deallocate_nothing [of "t ! k" v "vseg_size k"] tk wiped_none [of v] by simp
    qed
    have fj: "freeable f ?J v" using Suc.prems(3) by (auto simp: freeable_def inj_on_def)
    have "f ` (J \<inter> {k}) \<inter> f ` ?J = {}" using Suc.prems(3) by (auto simp: freeable_def inj_on_def)
    note f1 = freeable_wiped [OF fj v1(2) this]
    have t1: "if j \<in> ?J then ?t ! j = Seg (f j) 0 else \<not> allocated (?t ! j)" if "fb \<le> j" "j < k" for j
      using Suc.prems(4) [of j] that by simp
    have "?J \<subseteq> {fb..<k}" "k \<le> length ?t" using Suc.prems(1,2) by auto
    from Suc.IH [OF this(2,1) f1 t1] obtain t' v' where r: "free_down fb k ?t v1 = (t', (v', None))"
      "wiped (f ` ?J) v1 v'" "length t' = length ?t" "\<forall>j. t' ! j = (if fb \<le> j \<and> j < k then Not_used else ?t ! j)" by blast
    have "f ` (J \<inter> {k}) \<union> f ` ?J = f ` J" by auto
    then have "wiped (f ` J) v v'" using wiped_trans [OF v1(2) r(2)] by simp
    moreover have "t' ! j = (if fb \<le> j \<and> j < Suc k then Not_used else t ! j)" for j
      using r(4) True Suc.prems(1) by (cases "j = k") auto
    ultimately show ?thesis using r(1,3) v1(1) True by simp
  qed
qed

lemma free_segments_ok:
  assumes t: "k \<le> length t" "0 < length t" and fb: "0 < fb" and J: "J \<subseteq> {fb..<k}" "freeable f J v"
    and tj: "\<And>j. fb \<le> j \<Longrightarrow> j < k \<Longrightarrow> if j \<in> J then t ! j = Seg (f j) 0 else \<not> allocated (t ! j)"
    and t0: "if z then t ! 0 = Seg b 0 else \<not> allocated (t ! 0)"
    and b: "z \<Longrightarrow> b \<notin> f ` J \<and> b < length (my_blocks v) \<and> length (my_blocks v ! b) = vseg_size fb"
  shows "\<exists>t' v'. internal_free_segments t v k fb = (t', (v', None)) \<and> wiped (f ` J \<union> (if z then {b} else {})) v v' \<and>
    length t' = length t \<and> (\<forall>j. t' ! j = (if fb \<le> j \<and> j < k \<or> z \<and> j < min k fb then Not_used else t ! j))"
proof -
  obtain t1 v1 where r: "free_down fb k t v = (t1, (v1, None))" "wiped (f ` J) v v1" "length t1 = length t"
    "\<forall>j. t1 ! j = (if fb \<le> j \<and> j < k then Not_used else t ! j)"
    using free_down_ok [OF t(1) J tj] by blast
  have t10: "t1 ! 0 = t ! 0" using r(4) fb by simp
  show ?thesis
  proof (cases z)
    case False
    then show ?thesis using r t10 t0 by (auto simp: internal_free_segments_def)
  next
    case True
    have "b < length (my_blocks v1)" "length (my_blocks v1 ! b) = vseg_size fb" using wipedD(4,5) [OF r(2)] b True by auto
    then obtain v2 where v2: "deallocate v1 (Seg b 0) (vseg_size fb) = (v2, None)" "wiped {b} v1 v2"
      using deallocate_ok [of b v1 "vseg_size fb"] by auto
    have len: "min k fb \<le> length t1" using t(1) r(3) by simp
    have "(replicate (min k fb) Not_used @ drop (min k fb) t1) ! j = (if fb \<le> j \<and> j < k \<or> z \<and> j < min k fb then Not_used else t ! j)" for j
      using r(4) True len by (auto simp: nth_append)
    moreover have "wiped (f ` J \<union> (if z then {b} else {})) v v2" using wiped_trans [OF r(2) v2(2)] True by simp
    ultimately show ?thesis using r(1,3) t10 t0 v2(1) True len by (auto simp: internal_free_segments_def)
  qed
qed

section \<open>Merging the first segments\<close>

lemma compact_count_bounds: "k \<le> k_stop \<Longrightarrow> k \<le> compact_count es k k_stop \<and> compact_count es k k_stop \<le> k_stop"
proof (induction es k k_stop rule: compact_count.induct)
  case (1 es k k_stop)
  then show ?case by (cases "k < k_stop \<and> incompact_predicate (vseg_size k * es)")
      (auto simp: compact_count.simps [of es k k_stop])
qed

definition faithful :: "('a \<Rightarrow> 'a option) \<Rightarrow> bool" where
  "faithful cp \<longleftrightarrow> (\<forall>x. cp x = None \<or> cp x = Some x)"

lemma copy_cells_faithful:
  assumes "faithful cp"
  shows "length (fst (copy_cells cp (map Obj zs))) = length zs \<and>
    (snd (copy_cells cp (map Obj zs)) = Some Ctor_threw \<and> (\<exists>x. cp x = None) \<or> copy_cells cp (map Obj zs) = (map Obj zs, None))"
proof (induction zs)
  case (Cons x zs)
  then show ?case using assms [unfolded faithful_def, rule_format, of x]
    by (cases "copy_cells cp (map Obj zs)") auto
qed simp

lemma store_last:
  "store_cells (v\<lparr>my_blocks := B @ [ys]\<rparr>) (length B) p zs = v\<lparr>my_blocks := B @ [put_cells ys p zs]\<rparr>"
  by (simp add: store_cells_def)

lemma home_cells:
  assumes l: "layout loc n v" and h: "h \<in> homes (my_first_block v) n" and m: "m \<le> helper_sz (my_first_block v) h"
  shows "seg_cells (v\<lparr>my_blocks := my_blocks v @ ws\<rparr>) h 0 m = map (cell_at loc v) [vseg_base h..<vseg_base h + m]"
proof (rule nth_equalityI)
  have s: "my_segments v ! h = Seg (loc h) 0" using home_seg [OF l h] by (simp add: seg_at_def split: if_splits)
  have b: "loc h < length (my_blocks v)" "length (my_blocks v ! loc h) = helper_sz (my_first_block v) h"
    using layoutD(8,9) [OF l h] by simp_all
  show "length (seg_cells (v\<lparr>my_blocks := my_blocks v @ ws\<rparr>) h 0 m) = length (map (cell_at loc v) [vseg_base h..<vseg_base h + m])"
    using s b m by (simp add: seg_cells_def nth_append)
  fix j assume "j < length (seg_cells (v\<lparr>my_blocks := my_blocks v @ ws\<rparr>) h 0 m)"
  then have j: "j < m" using s by (simp add: seg_cells_def)
  have n: "n \<noteq> 0" "n \<le> 64" using h layout_le64 [OF l] by (auto simp: homes_def split: if_splits)
  have fb: "my_first_block v \<noteq> 0" using layoutD(4) [OF l] n by simp
  have hh: "h < 64" "h = 0 \<or> my_first_block v \<le> h" using homes_64 [OF h n(2)] by auto
  have "vseg_base h + helper_sz (my_first_block v) h \<le> vseg_base 64"
    using helper_next_base [OF fb hh(2)] vseg_base_mono [of "helper_next (my_first_block v) h" 64] hh(1) layoutD(3) [OF l]
    by (auto simp: helper_next_def)
  then have "vseg_base h + j < 2 ^ 64" using j m vseg_base_64 [of 64] by linarith
  then have "home (my_first_block v) (vseg_base h + j) = h"
    using home_iff [OF _ fb hh(2,1), of "vseg_base h + j"] j m by simp
  then show "seg_cells (v\<lparr>my_blocks := my_blocks v @ ws\<rparr>) h 0 m ! j = map (cell_at loc v) [vseg_base h..<vseg_base h + m] ! j"
    using j m s b by (simp add: seg_cells_def cell_at_def nth_append)
qed

lemma merge_bound:
  assumes fb: "fb \<noteq> 0" and h: "i = 0 \<or> fb \<le> i" and i: "i < K" and m: "m \<le> vseg_base K \<or> fb \<le> K"
    and c: "c \<le> helper_sz fb i" "vseg_base i + c \<le> m"
  shows "vseg_base i + c \<le> vseg_size K"
proof -
  have K: "vseg_base K = vseg_size K" using i by (simp add: vseg_base_eq)
  show ?thesis
  proof (cases "fb \<le> K")
    case True
    then have "helper_next fb i \<le> K" using h i by (auto simp: helper_next_def)
    then show ?thesis using helper_next_base [OF fb h] c(1) vseg_base_mono [of "helper_next fb i" K] K by linarith
  qed (use m c(2) K in auto)
qed

lemma merge_next:
  assumes fb: "fb \<noteq> 0" and h: "i \<in> homes fb n" and i: "i < K" "K \<le> n"
  defines "i' \<equiv> (if i \<noteq> 0 then i + 1 else fb)"
  shows "i < i'" "i' = helper_next fb i" "i' < K \<Longrightarrow> i' \<in> homes fb n" "vseg_size i' = vseg_base i'" "vseg_size i' = helper_sz fb i'"
  using assms by (auto simp: helper_next_def homes_def helper_sz_def vseg_base_eq split: if_splits)

lemma merge_copy_ok:
  assumes v: "vec_ok loc n v xs" and cp: "faithful cp" and fb: "my_first_block v \<noteq> 0" and K: "K \<le> n"
    and m: "length xs \<le> vseg_base K \<or> my_first_block v \<le> K"
  shows "length ys = vseg_size K \<Longrightarrow> K \<le> i + r \<Longrightarrow>
    (i < K \<Longrightarrow> i \<in> homes (my_first_block v) n \<and> j = vseg_base i \<and> sz = helper_sz (my_first_block v) i) \<Longrightarrow>
    \<exists>ys' e. merge_copy r cp (length (my_blocks v)) (my_first_block v) K (length xs) (v\<lparr>my_blocks := my_blocks v @ [ys]\<rparr>) i j sz =
        (v\<lparr>my_blocks := my_blocks v @ [ys']\<rparr>, e) \<and> length ys' = vseg_size K \<and>
      (e = Some Ctor_threw \<and> (\<exists>x. cp x = None) \<or> e = None \<and> (\<forall>y<vseg_size K. y < vseg_base i \<longrightarrow> ys' ! y = ys ! y) \<and>
        (\<forall>y<vseg_size K. vseg_base i \<le> y \<longrightarrow> y < length xs \<longrightarrow> ys' ! y = Obj (xs ! y)))"
proof (induction r arbitrary: ys i j sz)
  case 0
  have "\<not> y < vseg_size K" if "vseg_base i \<le> y" "K \<noteq> 0" for y
  proof -
    have "vseg_base K = vseg_size K" "vseg_base K \<le> vseg_base i" using that(2) 0(2) by (simp_all add: vseg_base_eq vseg_base_mono)
    then show ?thesis using that(1) by linarith
  qed
  moreover have "K = 0 \<Longrightarrow> False" if "i < K" using that by simp
  ultimately show ?case using 0(1,2) m
    by (intro exI [of _ ys] exI [of _ None]) (cases "K = 0"; auto simp: fb)
next
  case (Suc r)
  let ?fb = "my_first_block v" and ?B = "my_blocks v" and ?m = "length xs"
  show ?case
  proof (cases "i < K \<and> j < ?m")
    case False
    have "\<not> (y < vseg_size K \<and> vseg_base i \<le> y \<and> y < ?m)" for y
    proof (cases "i < K")
      case True
      then show ?thesis using False Suc.prems(3) by auto
    next
      case iK: False
      show ?thesis
      proof (cases "K = 0")
        case False
        then have "vseg_base K = vseg_size K" by (simp add: vseg_base_eq)
        then show ?thesis using vseg_base_mono [of K i] iK by linarith
      qed (use m fb in auto)
    qed
    then show ?thesis using False Suc.prems(1) by (intro exI [of _ ys] exI [of _ None]) auto
  next
    case True
    have p: "i \<in> homes ?fb n" "j = vseg_base i" "sz = helper_sz ?fb i" using Suc.prems(3) True by auto
    note nx = merge_next [OF fb p(1) conjunct1 [OF True] K]
    define i' where "i' = (if i \<noteq> 0 then i + 1 else ?fb)"
    note nx = nx [folded i'_def]
    define c where "c = (if ?m \<le> j + sz then ?m - j else sz)"
    have c: "c \<le> helper_sz ?fb i" "vseg_base i + c \<le> ?m" "vseg_base i + c = min ?m (vseg_base i + helper_sz ?fb i)"
      using True p by (auto simp: c_def)
    have n64: "n \<le> 64" using vec_okD(5) [OF v] .
    have h: "i = 0 \<or> ?fb \<le> i" using homes_64 [OF p(1) n64] by simp
    have fits: "vseg_base i + c \<le> length ys" using merge_bound [OF fb h _ m c(1,2)] True Suc.prems(1) by simp
    let ?w = "v\<lparr>my_blocks := ?B @ [ys]\<rparr>" and ?zs = "map (\<lambda>x. xs ! x) [vseg_base i..<vseg_base i + c]"
    have sc: "seg_cells ?w i 0 c = map Obj ?zs"
      using home_cells [OF vec_okD(1) [OF v] p(1) c(1)] vec_okD(4) [OF v] c(2) by simp
    obtain zs e where q: "copy_cells cp (map Obj ?zs) = (zs, e)" "length zs = c" "e = Some Ctor_threw \<and> (\<exists>x. cp x = None) \<or> zs = map Obj ?zs \<and> e = None"
      using copy_cells_faithful [OF cp, of ?zs] by (cases "copy_cells cp (map Obj ?zs)") auto
    have cq: "copy_cells cp (seg_cells ?w i 0 c) = (zs, e)" by (simp only: sc q(1))
    let ?ys = "put_cells ys (vseg_base i) zs"
    have len: "length ?ys = vseg_size K" using length_put_cells [of "vseg_base i" zs ys] fits q(2) Suc.prems(1) by simp
    have step: "merge_copy (Suc r) cp (length ?B) ?fb K ?m ?w i j sz = (case e of
        None \<Rightarrow> merge_copy r cp (length ?B) ?fb K ?m (v\<lparr>my_blocks := ?B @ [?ys]\<rparr>) i' (vseg_size i') (vseg_size i')
      | Some e \<Rightarrow> (v\<lparr>my_blocks := ?B @ [put_cells ?ys 0 (replicate (vseg_base i + c) Raw)]\<rparr>, Some e))"
      by (simp only: merge_copy.simps True simp_thms if_True Let_def c_def [symmetric] cq fst_conv snd_conv store_last i'_def [symmetric])
    show ?thesis
    proof (cases "e = None")
      case False
      have "length (put_cells ?ys 0 (replicate (vseg_base i + c) Raw)) = vseg_size K"
        using length_put_cells [of 0 "replicate (vseg_base i + c) Raw" ?ys] len fits Suc.prems(1) by simp
      moreover have "e = Some Ctor_threw" "\<exists>x. cp x = None" using q(3) False by auto
      ultimately show ?thesis using step by auto
    next
      case e: True
      then have z: "zs = map Obj ?zs" using q(3) by simp
      have i'K: "i' < K \<Longrightarrow> i' \<in> homes ?fb n \<and> vseg_size i' = vseg_base i' \<and> vseg_size i' = helper_sz ?fb i'" using nx by simp
      have "K \<le> i' + r" using Suc.prems(2) nx(1) by simp
      from Suc.IH [OF len this i'K] obtain ys' e' where r: "merge_copy r cp (length ?B) ?fb K ?m (v\<lparr>my_blocks := ?B @ [?ys]\<rparr>) i' (vseg_size i') (vseg_size i') =
          (v\<lparr>my_blocks := ?B @ [ys']\<rparr>, e')" "length ys' = vseg_size K"
        "e' = Some Ctor_threw \<and> (\<exists>x. cp x = None) \<or> e' = None \<and> (\<forall>y<vseg_size K. y < vseg_base i' \<longrightarrow> ys' ! y = ?ys ! y) \<and>
          (\<forall>y<vseg_size K. vseg_base i' \<le> y \<longrightarrow> y < ?m \<longrightarrow> ys' ! y = Obj (xs ! y))" by blast
      have put: "?ys ! y = (if vseg_base i \<le> y \<and> y < vseg_base i + c then Obj (xs ! y) else ys ! y)" if "y < vseg_size K" for y
        using nth_put_cells [of "vseg_base i" zs ys y] that fits q(2) z Suc.prems(1) by auto
      have b: "vseg_base i' = vseg_base i + helper_sz ?fb i" using helper_next_base [OF fb h] nx(2) by simp
      have "e' = Some Ctor_threw \<and> (\<exists>x. cp x = None) \<or> e' = None \<and> (\<forall>y<vseg_size K. y < vseg_base i \<longrightarrow> ys' ! y = ys ! y) \<and>
          (\<forall>y<vseg_size K. vseg_base i \<le> y \<longrightarrow> y < ?m \<longrightarrow> ys' ! y = Obj (xs ! y))"
      proof (cases "e' = None")
        case True
        have lo: "ys' ! y = ?ys ! y" if "y < vseg_size K" "y < vseg_base i'" for y using r(3) True that by simp
        have hi: "ys' ! y = Obj (xs ! y)" if "y < vseg_size K" "vseg_base i' \<le> y" "y < ?m" for y using r(3) True that by simp
        have "ys' ! y = ys ! y" if "y < vseg_size K" "y < vseg_base i" for y using lo [of y] put [of y] that b by simp
        moreover have "ys' ! y = Obj (xs ! y)" if "y < vseg_size K" "vseg_base i \<le> y" "y < ?m" for y
        proof (cases "y < vseg_base i'")
          case True
          then show ?thesis using lo [of y] put [of y] that b c(3) by auto
        qed (use hi that in auto)
        ultimately show ?thesis using True by blast
      qed (use r(3) in auto)
      then show ?thesis using step e r(1,2) by (intro exI [of _ ys'] exI [of _ e']) simp
    qed
  qed
qed

section \<open>Shrinking keeps the elements\<close>

definition touched :: "nat set \<Rightarrow> 'a cvector \<Rightarrow> 'a cvector \<Rightarrow> bool" where
  "touched B v v' \<longleftrightarrow> my_first_block v' = my_first_block v \<and> my_early_size v' = my_early_size v \<and> my_segments v' = my_segments v \<and>
     length (my_blocks v') = length (my_blocks v) \<and>
     (\<forall>b<length (my_blocks v). length (my_blocks v' ! b) = length (my_blocks v ! b) \<and> (b \<notin> B \<longrightarrow> my_blocks v' ! b = my_blocks v ! b))"

lemma touchedD:
  assumes "touched B v v'"
  shows "my_first_block v' = my_first_block v" "my_early_size v' = my_early_size v" "my_segments v' = my_segments v"
    "length (my_blocks v') = length (my_blocks v)" "b < length (my_blocks v) \<Longrightarrow> length (my_blocks v' ! b) = length (my_blocks v ! b)"
    "b < length (my_blocks v) \<Longrightarrow> b \<notin> B \<Longrightarrow> my_blocks v' ! b = my_blocks v ! b"
  using assms by (simp_all add: touched_def)

lemma touched_store:
  "b \<in> B \<Longrightarrow> b < length (my_blocks v) \<Longrightarrow> p + length ys \<le> length (my_blocks v ! b) \<Longrightarrow> touched B v (store_cells v b p ys)"
  using length_put_cells [of p ys "my_blocks v ! b"] by (auto simp: touched_def store_cells_def nth_list_update)

lemma touched_trans: "touched B v v1 \<Longrightarrow> touched B v1 v2 \<Longrightarrow> touched B v v2"
  by (auto simp: touched_def)

lemma merge_destroy_ok:
  assumes fb: "fb \<noteq> 0" and K: "K \<le> n"
    and old: "\<And>h. h \<in> homes fb n \<Longrightarrow> h < K \<Longrightarrow> old ! h = Seg (loc h) 0"
  shows "K \<le> i + r \<Longrightarrow> (i < K \<Longrightarrow> i \<in> homes fb n \<and> j = vseg_base i \<and> sz = helper_sz fb i) \<Longrightarrow>
    (\<And>h. h \<in> homes fb n \<Longrightarrow> h < K \<Longrightarrow> loc h < length (my_blocks w) \<and> length (my_blocks w ! loc h) = helper_sz fb h) \<Longrightarrow>
    \<exists>w'. merge_destroy r old fb K m w i j sz = (w', None) \<and> touched (loc ` (homes fb n \<inter> {..<K})) w w'"
proof (induction r arbitrary: w i j sz)
  case 0
  then show ?case by (auto simp: touched_def)
next
  case (Suc r)
  show ?case
  proof (cases "i < K \<and> j < m")
    case False
    then have "merge_destroy (Suc r) old fb K m w i j sz = (w, None)" by auto
    then show ?thesis by (auto simp: touched_def)
  next
    case True
    have p: "i \<in> homes fb n" "j = vseg_base i" "sz = helper_sz fb i" using Suc.prems(2) True by auto
    define i' where "i' = (if i \<noteq> 0 then i + 1 else fb)"
    note nx = merge_next [OF fb p(1) conjunct1 [OF True] K, folded i'_def]
    define c where "c = (if m \<le> j + sz then m - j else sz)"
    have c: "c \<le> helper_sz fb i" using p(3) by (auto simp: c_def)
    let ?w = "store_cells w (loc i) 0 (replicate c Raw)" and ?B = "loc ` (homes fb n \<inter> {..<K})"
    have t: "touched ?B w ?w"
      by (rule touched_store) (use p(1) True Suc.prems(3) [OF p(1)] c in auto)
    have pre: "loc h < length (my_blocks ?w) \<and> length (my_blocks ?w ! loc h) = helper_sz fb h" if "h \<in> homes fb n" "h < K" for h
      using touchedD(4,5) [OF t] Suc.prems(3) [OF that] by simp
    have i'K: "i' < K \<Longrightarrow> i' \<in> homes fb n \<and> vseg_size i' = vseg_base i' \<and> vseg_size i' = helper_sz fb i'" using nx by simp
    have "K \<le> i' + r" using Suc.prems(1) nx(1) by simp
    from Suc.IH [OF this i'K pre] obtain w' where r: "merge_destroy r old fb K m ?w i' (vseg_size i') (vseg_size i') = (w', None)"
      "touched ?B ?w w'" by blast
    have "merge_destroy (Suc r) old fb K m w i j sz = (w', None)"
      by (simp only: merge_destroy.simps True simp_thms if_True Let_def c_def [symmetric] old [OF p(1) conjunct1 [OF True]]
          vec_segment.case i'_def [symmetric] r(1))
    then show ?thesis using touched_trans [OF t r(2)] by blast
  qed
qed

text \<open>The vector after compaction: \<^verbatim>\<open>ks\<close> segments, the first \<^verbatim>\<open>K\<close> of them in one block.\<close>

definition kept_homes :: "bool \<Rightarrow> nat \<Rightarrow> nat \<Rightarrow> nat set" where
  "kept_homes merged K ks = {K..<ks} \<union> (if merged \<or> ks = 0 then {} else {0})"

lemma compacted_ok:
  assumes v: "vec_ok loc n v xs" and fb: "my_first_block v \<noteq> 0"
    and K: "ks \<le> n" "length xs \<le> vseg_base ks" "K \<le> ks" "K = ks \<or> my_first_block v \<le> K" "ks \<noteq> 0 \<Longrightarrow> K \<noteq> 0"
    and mg: "merged \<Longrightarrow> ks \<noteq> 0" "\<not> merged \<Longrightarrow> ks \<noteq> 0 \<Longrightarrow> K = my_first_block v"
    and l: "l = (if merged then loc(0 := length (my_blocks v)) else loc)"
    and w: "my_first_block w = K" "my_early_size w = length xs" "length (my_segments w) = length (my_segments v)"
      "\<And>i. i < length (my_segments v) \<Longrightarrow>
         my_segments w ! i = (if i < ks then if i < K then Seg (l 0) (vseg_base i) else Seg (loc i) 0 else Not_used)"
    and len: "length (my_blocks w) = (if merged then Suc (length (my_blocks v)) else length (my_blocks v))"
    and new: "merged \<Longrightarrow> length (my_blocks w ! length (my_blocks v)) = vseg_size K"
      "\<And>y. merged \<Longrightarrow> y < vseg_size K \<Longrightarrow> y < length xs \<Longrightarrow> my_blocks w ! length (my_blocks v) ! y = Obj (xs ! y)"
    and old: "\<And>b. b < length (my_blocks v) \<Longrightarrow>
      my_blocks w ! b = (if b \<in> loc ` (homes (my_first_block v) n - kept_homes merged K ks) then [] else my_blocks v ! b)"
  shows "vec_ok l ks w xs"
proof -
  let ?fb = "my_first_block v"
  note d = vec_okD [OF v]
  note ld = layoutD [OF d(1)]
  have hs: "h \<in> homes ?fb n" "h = 0 \<or> ?fb \<le> h \<and> K \<le> h" if "h \<in> homes K ks" for h
    using that K by (auto simp: homes_def split: if_splits)
  have hb: "l h < length (my_blocks w) \<and> length (my_blocks w ! l h) = helper_sz K h \<and> (merged \<and> h = 0 \<or> l h = loc h \<and> my_blocks w ! loc h = my_blocks v ! loc h)"
    if h: "h \<in> homes K ks" for h
  proof (cases "merged \<and> h = 0")
    case True
    then show ?thesis using l len new(1) by (simp add: helper_sz_def)
  next
    case False
    have lh: "l h = loc h" using False l by auto
    have keep: "h \<in> kept_homes merged K ks" using h False by (auto simp: kept_homes_def homes_def split: if_splits)
    then have "loc h \<notin> loc ` (homes ?fb n - kept_homes merged K ks)"
      using inj_onD [OF ld(7) _ hs(1) [OF h]] by auto
    then have "my_blocks w ! loc h = my_blocks v ! loc h" using old [of "loc h"] ld(8) [OF hs(1) [OF h]] by simp
    moreover have "helper_sz ?fb h = helper_sz K h"
    proof (cases "h = 0")
      case True
      then have "ks \<noteq> 0" using h by (auto simp: homes_def split: if_splits)
      then show ?thesis using True False mg(2) by simp
    qed (simp add: helper_sz_def)
    ultimately show ?thesis using lh ld(8,9) [OF hs(1) [OF h]] len by auto
  qed
  have ks0: "homes K ks = (if ks = 0 then {} else insert 0 {K..<ks})" by (simp add: homes_def)
  have n64: "n \<le> 64" using d(5) .
  have lay: "layout l ks w"
  proof (rule layoutI)
    show "my_first_block w \<le> 64" using w(1) K(1,3) n64 by linarith
    show "inj_on l (homes (my_first_block w) ks)"
      unfolding w(1)
    proof (rule inj_onI)
      fix g h assume gh: "g \<in> homes K ks" "h \<in> homes K ks" "l g = l h"
      have nz: "loc x \<noteq> length (my_blocks v)" if "x \<in> homes K ks" for x using ld(8) [OF hs(1) [OF that]] by simp
      show "g = h"
      proof (cases "merged")
        case True
        then show ?thesis using gh nz [OF gh(1)] nz [OF gh(2)] inj_onD [OF ld(7) _ hs(1) [OF gh(1)] hs(1) [OF gh(2)]]
          by (auto simp: l split: if_splits)
      qed (use gh inj_onD [OF ld(7) _ hs(1) [OF gh(1)] hs(1) [OF gh(2)]] in \<open>simp add: l\<close>)
    qed
  next
    fix b assume b: "b < length (my_blocks w)" "my_blocks w ! b \<noteq> []"
    show "b \<in> l ` homes (my_first_block w) ks" unfolding w(1)
    proof (cases "b < length (my_blocks v)")
      case True
      then have bv: "b \<notin> loc ` (homes ?fb n - kept_homes merged K ks)" "my_blocks v ! b \<noteq> []"
        using old [OF True] b(2) by (auto split: if_splits)
      then obtain h where h: "b = loc h" "h \<in> kept_homes merged K ks" using ld(10) [OF True] by auto
      then have "h \<in> homes K ks" "\<not> (merged \<and> h = 0)" using K(5) by (auto simp: kept_homes_def homes_def split: if_splits)
      then show "b \<in> l ` homes K ks" using hb [of h] h(1) by (auto intro!: rev_image_eqI)
    next
      case False
      then have "merged" "b = length (my_blocks v)" using b(1) len by (auto split: if_splits)
      then show "b \<in> l ` homes K ks" using mg(1) l by (intro image_eqI [where x = 0]) (auto simp: homes_def)
    qed
  next
    fix k assume "k < ks"
    then show "my_segments w ! k = (if k < my_first_block w then Seg (l 0) (vseg_base k) else Seg (l k) 0)"
      using w(1) w(4) [of k] K(1,5) ld(2) l by auto
  qed (use w ld K hb in auto)
  have "cell_at l w x = Obj (xs ! x)" if x: "x < length xs" for x
  proof -
    have xk: "x < vseg_base ks" using x K(2) by linarith
    then have ks: "ks \<noteq> 0" by (cases ks) auto
    then have K0: "K \<noteq> 0" using K(5) by simp
    have x64: "x < 2 ^ 64" using xk vseg_base_64 [of ks] K(1) n64 by linarith
    show ?thesis
    proof (cases "merged \<and> x < vseg_size K")
      case True
      then show ?thesis using new(2) [of x] x l by (simp add: cell_at_def home_def w(1))
    next
      case False
      have hh: "home K x = home ?fb x"
      proof (cases "merged")
        case True
        then have nx: "\<not> x < vseg_size K" using False by simp
        have "vseg_size ?fb \<le> vseg_size K"
        proof (cases "?fb \<le> K")
          case False
          then have "K = ks" using K(4) by simp
          then have "x < vseg_size K" using xk K0 by (simp add: vseg_base_eq)
          then show ?thesis using nx by simp
        qed simp
        then have "\<not> x < vseg_size ?fb" using nx by linarith
        then show ?thesis using nx by (simp only: home_def if_False)
      qed (use mg(2) ks in simp)
      have "x < room K ks" using xk room_ge [of ks K] by linarith
      then have h: "home K x \<in> homes K ks" using room_home(1) [of x K ks] K0 K(1,3) n64 by simp
      have "\<not> (merged \<and> home K x = 0)"
        using False vseg_index_less_iff [OF x64, of 1] size_index [OF x64 K0] K0 by (auto simp: home_def split: if_splits)
      then have "cell_at l w x = cell_at loc v x" using hb [OF h] hh w(1) by (auto simp: cell_at_def)
      then show ?thesis using d(4) [OF x] by simp
    qed
  qed
  then show ?thesis using lay w(2) K(2) by (simp add: vec_ok_def)
qed

lemma nth_splice:
  assumes "a \<le> n" "n \<le> length xs" "n \<le> length ys" "j < length xs"
  shows "(take a xs @ take (n - a) (drop a ys) @ drop n xs) ! j = (if a \<le> j \<and> j < n then ys ! j else xs ! j)"
proof -
  have "length (take a xs) = a" "length (take (n - a) (drop a ys)) = n - a" using assms by simp_all
  then show ?thesis using assms by (auto simp: nth_append)
qed

lemma free_nothing:
  "k \<le> length t \<Longrightarrow> (\<And>j. j < length t \<Longrightarrow> t ! j = Not_used) \<Longrightarrow> t \<noteq> [] \<Longrightarrow> internal_free_segments t v k fb = (t, (v, None))"
proof -
  assume t: "k \<le> length t" "\<And>j. j < length t \<Longrightarrow> t ! j = Not_used" "t \<noteq> []"
  have "free_down fb i t v = (t, (v, None))" if "i \<le> length t" for i
    using that
  proof (induction i)
    case (Suc i)
    have "t[i := Not_used] = t" using t(2) [of i] Suc.prems by (metis Suc_le_lessD list_update_id)
    then show ?case using Suc t(2) [of i] by (simp add: deallocate_def)
  qed simp
  then show ?thesis using t by (simp add: internal_free_segments_def)
qed

lemma free_old_ok:
  assumes l: "layout loc n v" and n: "n \<noteq> 0" and K: "K \<le> ks" "K = ks \<or> my_first_block v \<le> K" "ks \<noteq> 0 \<longrightarrow> K \<noteq> 0"
    and t: "length t = pointers_per_long_table"
      "\<And>j. my_first_block v \<le> j \<Longrightarrow> j < pointers_per_long_table \<Longrightarrow>
         t ! j = (if j < n \<and> \<not> (K \<le> j \<and> j < ks) then Seg (loc j) 0 else Not_used)"
      "t ! 0 = (if merged \<or> ks = 0 then Seg (loc 0) 0 else Not_used)"
    and w: "\<And>h. h \<in> homes (my_first_block v) n \<Longrightarrow> loc h < length (my_blocks w) \<and>
       length (my_blocks w ! loc h) = helper_sz (my_first_block v) h"
  shows "\<exists>w'. snd (internal_free_segments t w pointers_per_long_table (my_first_block v)) = (w', None) \<and>
    wiped (loc ` (homes (my_first_block v) n - kept_homes merged K ks)) w w'"
proof -
  let ?fb = "my_first_block v" and ?z = "merged \<or> ks = 0"
  define J where "J = {?fb..<n} - {K..<ks}"
  have fb: "0 < ?fb" using layoutD(4) [OF l n] by simp
  have n64: "n \<le> pointers_per_long_table" using layout_le64 [OF l] by (simp add: pointers_defs)
  have hom: "homes ?fb n = insert 0 {?fb..<n}" using n by (simp add: homes_def)
  have Jh: "j \<in> homes ?fb n \<and> j \<noteq> 0" if "j \<in> J" for j using that fb by (auto simp: J_def hom)
  have "inj_on loc J" by (rule inj_on_subset [OF layoutD(7) [OF l]]) (auto simp: J_def hom)
  then have J: "freeable loc J w" using w Jh by (fastforce simp: freeable_def helper_sz_def vseg_base_eq)
  have z0: "loc 0 \<notin> loc ` J"
    using inj_onD [OF layoutD(7) [OF l], of 0] Jh hom by fastforce
  have eq: "loc ` J \<union> (if ?z then {loc 0} else {}) = loc ` (homes ?fb n - kept_homes merged K ks)"
    using fb K(3) unfolding J_def kept_homes_def hom by auto
  obtain t' w' where "internal_free_segments t w pointers_per_long_table ?fb = (t', (w', None))"
    "wiped (loc ` J \<union> (if ?z then {loc 0} else {})) w w'"
  proof -
    have len: "pointers_per_long_table \<le> length t" "0 < length t" using t(1) by (simp_all add: pointers_defs)
    have tj: "if j \<in> J then t ! j = Seg (loc j) 0 else \<not> allocated (t ! j)"
      if "?fb \<le> j" "j < pointers_per_long_table" for j
      using t(2) [OF that] that by (auto simp: J_def)
    have t0: "if ?z then t ! 0 = Seg (loc 0) 0 else \<not> allocated (t ! 0)" using t(3) by simp
    have "J \<subseteq> {?fb..<pointers_per_long_table}" using n64 by (auto simp: J_def)
    moreover have "loc 0 \<notin> loc ` J \<and> loc 0 < length (my_blocks w) \<and> length (my_blocks w ! loc 0) = vseg_size ?fb"
      using z0 w [of 0] hom by (simp add: helper_sz_def)
    ultimately show ?thesis using that free_segments_ok [OF len fb _ J tj t0] by blast
  qed
  then show ?thesis unfolding eq by auto
qed

lemma vec_ok_more_blocks:
  assumes v: "vec_ok loc n v xs" and w: "my_first_block w = my_first_block v" "my_early_size w = my_early_size v"
    "my_segments w = my_segments v" "my_blocks w = my_blocks v @ replicate k []"
  shows "vec_ok loc n w xs"
proof -
  note d = vec_okD [OF v]
  note ld = layoutD [OF d(1)]
  have "layout loc n w"
  proof (rule layoutI)
    fix b assume "b < length (my_blocks w)" "my_blocks w ! b \<noteq> []"
    then have "b < length (my_blocks v) \<and> my_blocks v ! b \<noteq> []" using w(4) by (auto simp: nth_append split: if_splits)
    then show "b \<in> loc ` homes (my_first_block w) n" using ld(10) w(1) by simp
  next
    fix h assume h: "h \<in> homes (my_first_block w) n"
    show "loc h < length (my_blocks w) \<and> length (my_blocks w ! loc h) = helper_sz (my_first_block w) h"
      using ld(8,9) [OF h [unfolded w(1)]] w(1,4) by (simp add: nth_append)
  qed (use ld w in auto)
  moreover have "cell_at loc w x = cell_at loc v x" if "x < length xs" for x
  proof -
    have "x < room (my_first_block v) n" using that d(3) room_ge [of n "my_first_block v"] by linarith
    moreover have "n \<noteq> 0" using that d(3) by (cases n) auto
    ultimately have "home (my_first_block v) x \<in> homes (my_first_block v) n" using room_home(1) d(5) ld(3,4) by blast
    then show ?thesis using ld(8) w(1,4) by (simp add: cell_at_def nth_append)
  qed
  ultimately show ?thesis using d w(2) by (simp add: vec_ok_def)
qed

lemma k_stop_ok:
  assumes v: "vec_ok loc n v xs"
  defines "ks \<equiv> (if length xs \<noteq> 0 then vseg_index (length xs - 1) + 1 else 0)"
  shows "ks \<le> n" "length xs \<le> vseg_base ks"
proof -
  note d = vec_okD [OF v]
  show "ks \<le> n" using vec_ok_seg [OF v, of "length xs"] by (simp add: ks_def Suc_le_eq)
  show "length xs \<le> vseg_base ks"
  proof (cases "length xs = 0")
    case False
    then have "length xs - 1 < 2 ^ 64" using d(6) by linarith
    then show ?thesis using vseg_index_bounds(2) [of "length xs - 1"] False by (simp add: ks_def)
  qed simp
qed

text \<open>Shrinking succeeds with \<^verbatim>\<open>ks\<close> segments left, or fails and changes nothing.\<close>

definition shrunk :: "vec_alloc \<Rightarrow> ('a \<Rightarrow> 'a option) \<Rightarrow> 'a cvector \<Rightarrow> 'a list \<Rightarrow> nat \<Rightarrow> 'a vres \<Rightarrow> bool" where
  "shrunk A cp v xs ks r \<longleftrightarrow> (\<exists>l k. vec_ok l k (fst r) xs \<and> (snd r = None \<and> k = ks \<or>
     (snd r = Some Bad_alloc \<and> \<not> all_ok A \<or> snd r = Some Ctor_threw \<and> (\<exists>x. cp x = None)) \<and> my_segments (fst r) = my_segments v \<and>
       my_first_block (fst r) = my_first_block v))"

lemma shrink_no_merge:
  assumes v: "vec_ok loc n v xs" and fb: "my_first_block v \<noteq> 0" and ks: "ks < n" "length xs \<le> vseg_base ks"
    and K: "K = my_first_block v \<and> K \<le> ks \<or> K = 0 \<and> ks = 0"
    and t: "t = take ks (replicate pointers_per_long_table Not_used) @ take (n - ks) (drop ks (my_segments v)) @
      drop n (replicate pointers_per_long_table Not_used)"
    and w: "w = v\<lparr>my_segments := take ks (my_segments v) @ replicate (n - ks) Not_used @ drop n (my_segments v),
      my_first_block := (if K = 0 then 0 else my_first_block v)\<rparr>"
  shows "shrunk A cp v xs ks (snd (internal_free_segments t w pointers_per_long_table (my_first_block v)))"
proof -
  note d = vec_okD [OF v]
  note ld = layoutD [OF d(1)]
  have n64: "n \<le> 64" using d(5) .
  have n0: "n \<noteq> 0" using ks by simp
  have ns: "n \<le> length (my_segments v)" by (rule ld(2))
  have tj: "t ! j = (if ks \<le> j \<and> j < n then my_segments v ! j else Not_used)" if "j < 64" for j
    using that ks(1) n64 ns unfolding t by (subst nth_splice) (auto simp: pointers_defs)
  have tl: "length t = pointers_per_long_table" using ks(1) n64 ns unfolding t by (simp add: pointers_defs)
  obtain w' where r: "snd (internal_free_segments t w pointers_per_long_table (my_first_block v)) = (w', None)"
    "wiped (loc ` (homes (my_first_block v) n - kept_homes False K ks)) w w'"
  proof -
    have "t ! j = (if j < n \<and> \<not> (K \<le> j \<and> j < ks) then Seg (loc j) 0 else Not_used)"
      if "my_first_block v \<le> j" "j < pointers_per_long_table" for j
      using tj [of j] that K ld(5) [of j] by (auto simp: pointers_defs)
    moreover have "t ! 0 = (if False \<or> ks = 0 then Seg (loc 0) 0 else Not_used)"
      using tj [of 0] K ld(5) [of 0] n0 fb by auto
    ultimately show ?thesis
      using that free_old_ok [OF d(1) n0, of K ks t False w] K tl ld(8,9) w fb by fastforce
  qed
  note wd = wipedD [OF r(2)]
  have "vec_ok loc ks w' xs"
  proof (rule compacted_ok [OF v fb, where K = K and merged = False])
    fix i assume i: "i < length (my_segments v)"
    have "my_segments w ! i = (if ks \<le> i \<and> i < n then Not_used else my_segments v ! i)"
      using i ks(1) ns unfolding w by (auto simp: nth_append min_def)
    then show "my_segments w' ! i = (if i < ks then if i < K then Seg (loc 0) (vseg_base i) else Seg (loc i) 0 else Not_used)"
      using wd(3) K ld(5) [of i] ld(6) [of i] i ks(1) by auto
  qed (use K ks wd w d(2) ns fb in auto)
  then show ?thesis using r(1) by (auto simp: shrunk_def)
qed


text \<open>The part of \<^verbatim>\<open>internal_compact\<close> after the copies: the new table, the destruction of the originals and the trimming.\<close>

lemma shrink_merge:
  assumes v: "vec_ok loc n v xs" and fb: "my_first_block v \<noteq> 0" and ks: "ks \<le> n" "length xs \<le> vseg_base ks" "ks \<noteq> 0"
    and K: "K \<noteq> 0" "K \<le> ks" "K = ks \<or> my_first_block v \<le> K"
    and ys: "length ys = vseg_size K" "\<And>y. y < vseg_size K \<Longrightarrow> y < length xs \<Longrightarrow> ys ! y = Obj (xs ! y)"
    and old: "old = take K (my_segments v) @ drop K (replicate pointers_per_long_table Not_used)"
    and w: "w = v\<lparr>my_blocks := my_blocks v @ [ys], my_first_block := K,
      my_segments := map (\<lambda>i. Seg (length (my_blocks v)) (vseg_base i)) [0..<K] @ drop K (my_segments v)\<rparr>"
  shows "\<exists>w1. merge_destroy K old (my_first_block v) K (length xs) w 0 0 (vseg_size (my_first_block v)) = (w1, None) \<and>
    my_first_block w1 = K \<and>
    shrunk A cp v xs ks (snd (internal_free_segments
      (take ks old @ take (n - ks) (drop ks (my_segments w1)) @ drop n old)
      (w1\<lparr>my_segments := take ks (my_segments w1) @ replicate (n - ks) Not_used @ drop n (my_segments w1), my_first_block := K\<rparr>)
      pointers_per_long_table (my_first_block v)))"
proof -
  let ?fb = "my_first_block v"
  note d = vec_okD [OF v]
  note ld = layoutD [OF d(1)]
  have n64: "n \<le> 64" using d(5) .
  have n0: "n \<noteq> 0" using ks by simp
  have ns: "n \<le> length (my_segments v)" by (rule ld(2))
  have lh: "loc h < length (my_blocks w) \<and> length (my_blocks w ! loc h) = helper_sz ?fb h" if "h \<in> homes ?fb n" for h
    using ld(8,9) [OF that] by (simp add: w nth_append)
  have oj: "old ! j = (if j < K then my_segments v ! j else Not_used)" if "j < 64" for j
    using that K(2) ks(1) n64 ns unfolding old by (auto simp: nth_append pointers_defs min_def)
  have ol: "length old = 64" using K(2) ks(1) n64 ns unfolding old by (simp add: pointers_defs)
  have home_old: "old ! h = Seg (loc h) 0" if "h \<in> homes ?fb n" "h < K" for h
  proof -
    have "h < n" "\<not> h < ?fb \<or> h = 0" using that K(2) ks(1) by (auto simp: homes_def)
    then show ?thesis using oj [of h] that(2) ld(5) [of h] n64 by auto
  qed
  have start: "0 \<in> homes ?fb n \<and> 0 = vseg_base 0 \<and> vseg_size ?fb = helper_sz ?fb 0" using n0 by (simp add: homes_def helper_sz_def)
  have Kn: "K \<le> n" using K(2) ks(1) by simp
  obtain w1 where w1: "merge_destroy K old ?fb K (length xs) w 0 0 (vseg_size ?fb) = (w1, None)"
    "touched (loc ` (homes ?fb n \<inter> {..<K})) w w1"
    using merge_destroy_ok [OF fb Kn home_old, of 0 K 0 "vseg_size ?fb" w "length xs"] start lh by auto
  note t1 = touchedD [OF w1(2)]
  have s1: "my_segments w1 ! i = (if i < K then Seg (length (my_blocks v)) (vseg_base i) else my_segments v ! i)" if "i < length (my_segments v)" for i
    using that Kn ns unfolding t1(3) w by (auto simp: nth_append)
  have s1l: "length (my_segments w1) = length (my_segments v)" using Kn ns unfolding t1(3) w by simp
  define t where "t = take ks old @ take (n - ks) (drop ks (my_segments w1)) @ drop n old"
  define w2 where "w2 = w1\<lparr>my_segments := take ks (my_segments w1) @ replicate (n - ks) Not_used @ drop n (my_segments w1), my_first_block := K\<rparr>"
  have tj: "t ! j = (if j < n \<and> \<not> (K \<le> j \<and> j < ks) then my_segments v ! j else Not_used)" if "j < 64" for j
    using that ks(1) n64 ns ol s1l oj [of j] s1 [of j] K(2) unfolding t_def by (subst nth_splice) auto
  have tl: "length t = pointers_per_long_table" using ks(1) n64 ns ol s1l unfolding t_def by (simp add: pointers_defs)
  have wl: "loc h < length (my_blocks w2) \<and> length (my_blocks w2 ! loc h) = helper_sz ?fb h" if "h \<in> homes ?fb n" for h
    using lh [OF that] t1(4,5) by (simp add: w2_def)
  obtain w' where r: "snd (internal_free_segments t w2 pointers_per_long_table ?fb) = (w', None)"
    "wiped (loc ` (homes ?fb n - kept_homes True K ks)) w2 w'"
  proof -
    have "t ! j = (if j < n \<and> \<not> (K \<le> j \<and> j < ks) then Seg (loc j) 0 else Not_used)"
      if "?fb \<le> j" "j < pointers_per_long_table" for j
      using tj [of j] that ld(5) [of j] by (auto simp: pointers_defs)
    moreover have "t ! 0 = (if True \<or> ks = 0 then Seg (loc 0) 0 else Not_used)"
      using tj [of 0] K(1) ld(5) [of 0] n0 fb by auto
    moreover have "ks \<noteq> 0 \<longrightarrow> K \<noteq> 0" using K(1) by simp
    ultimately show ?thesis
      using that free_old_ok [OF d(1) n0 K(2,3) _ tl, where merged = True and w = w2] wl by auto
  qed
  note wd = wipedD [OF r(2)]
  have bl: "length (my_blocks w2) = Suc (length (my_blocks v))" using t1(4) by (simp add: w2_def w)
  have "vec_ok (loc(0 := length (my_blocks v))) ks w' xs"
  proof (rule compacted_ok [OF v fb ks(1,2) K(2,3), where merged = True])
    show "length (my_segments w') = length (my_segments v)" using wd(3) s1l ks(1) ns by (simp add: w2_def)
    show "length (my_blocks w') = (if True then Suc (length (my_blocks v)) else length (my_blocks v))" using wd(4) bl by simp
    show "my_first_block w' = K" using wd(1) by (simp add: w2_def)
    show "my_early_size w' = length xs" using wd(2) t1(2) d(2) by (simp add: w2_def w)
  next
    fix i assume i: "i < length (my_segments v)"
    have "my_segments w2 ! i = (if ks \<le> i \<and> i < n then Not_used else my_segments w1 ! i)"
      using i ks(1) ns s1l unfolding w2_def by (auto simp: nth_append min_def)
    then show "my_segments w' ! i = (if i < ks then if i < K then Seg ((loc(0 := length (my_blocks v))) 0) (vseg_base i) else Seg (loc i) 0 else Not_used)"
      using wd(3) K ld(5) [of i] ld(6) [of i] i ks(1) s1 [OF i] by auto
  next
    have "length (my_blocks v) \<notin> loc ` homes ?fb n"
    proof
      assume "length (my_blocks v) \<in> loc ` homes ?fb n"
      then obtain h where "h \<in> homes ?fb n" "loc h = length (my_blocks v)" by auto
      then show False using ld(8) [of h] by simp
    qed
    then have nb: "length (my_blocks v) \<notin> loc ` (homes ?fb n - kept_homes True K ks)" "length (my_blocks v) \<notin> loc ` (homes ?fb n \<inter> {..<K})"
      by auto
    then have "my_blocks w' ! length (my_blocks v) = ys"
      using wd(5) [of "length (my_blocks v)"] bl t1(6) [of "length (my_blocks v)"] by (simp add: w2_def w)
    then show "length (my_blocks w' ! length (my_blocks v)) = vseg_size K"
      "\<And>y. y < vseg_size K \<Longrightarrow> y < length xs \<Longrightarrow> my_blocks w' ! length (my_blocks v) ! y = Obj (xs ! y)"
      using ys by simp_all
  next
    fix b assume b: "b < length (my_blocks v)"
    show "my_blocks w' ! b = (if b \<in> loc ` (homes ?fb n - kept_homes True K ks) then [] else my_blocks v ! b)"
    proof (cases "b \<in> loc ` (homes ?fb n - kept_homes True K ks)")
      case False
      then have "b \<notin> loc ` (homes ?fb n \<inter> {..<K})" by (auto simp: kept_homes_def)
      then show ?thesis using False wd(5) [of b] t1(6) [of b] b bl by (simp add: w2_def w nth_append)
    qed (use wd(5) [of b] b bl in simp)
  qed (use K(1) ks(3) in auto)
  then have "shrunk A cp v xs ks (snd (internal_free_segments t w2 pointers_per_long_table ?fb))" using r(1) by (auto simp: shrunk_def)
  moreover have "my_first_block w1 = K" using t1(1) by (simp add: w)
  ultimately show ?thesis using w1(1) unfolding t_def w2_def by blast
qed

definition k_stop :: "'a list \<Rightarrow> nat" where
  "k_stop xs = (if length xs \<noteq> 0 then vseg_index (length xs - 1) + 1 else 0)"

lemma shrunk_same: "vec_ok loc n v xs \<Longrightarrow> shrunk A cp v xs n (v, None)"
  by (auto simp: shrunk_def)

lemma shrink_ok:
  assumes v: "vec_ok loc n v xs" and cp: "faithful cp"
  shows "shrunk A cp v xs (k_stop xs) (shrink_to_fit A es cp v)"
proof -
  let ?fb = "my_first_block v" and ?E = "replicate pointers_per_long_table Not_used"
  note d = vec_okD [OF v]
  note ld = layoutD [OF d(1)]
  define ks where "ks = k_stop xs"
  note ks = k_stop_ok [OF v, folded k_stop_def, folded ks_def]
  define K where "K = (if ks < ?fb then ks else compact_count es ?fb ks)"
  have K: "K \<le> ks" "K = ks \<or> ?fb \<le> K"
    using compact_count_bounds [of ?fb ks es] by (auto simp: K_def)
  have fe: "find_segment_end v = n" by (rule find_end_ok [OF d(1)])
  have ksv: "(if my_early_size v \<noteq> 0 then vseg_index (my_early_size v - 1) + 1 else 0) = ks" using d(2) by (simp add: ks_def k_stop_def)
  note ic = internal_compact_def [of A es cp v, unfolded Let_def fe ksv, folded K_def, unfolded d(2)]
  show ?thesis unfolding ks_def [symmetric]
  proof (cases "ks = n \<and> K = ?fb")
    case True
    then have "shrink_to_fit A es cp v = (v, None)" by (simp add: shrink_to_fit_def ic)
    then show "shrunk A cp v xs ks (shrink_to_fit A es cp v)" using shrunk_same [OF v] True by simp
  next
    case start: False
    have fb: "?fb \<noteq> 0"
    proof
      assume fb0: "?fb = 0"
      then have "n = 0" using ld(4) by blast
      then show False using start fb0 ks(1) K(1) by simp
    qed
    have K0: "ks \<noteq> 0 \<longrightarrow> K \<noteq> 0" using K(2) fb by auto
    show "shrunk A cp v xs ks (shrink_to_fit A es cp v)"
    proof (cases "K \<noteq> ?fb \<and> K \<noteq> 0")
      case False
      then have K': "K = ?fb \<and> K \<le> ks \<or> K = 0 \<and> ks = 0" using K K0 by auto
      show ?thesis
      proof (cases "ks < n")
        case True
        have mk: "my_first_block v = K \<or> K = 0" using K' by auto
        show ?thesis
          using shrink_no_merge [OF v fb True ks(2) K' refl refl] start False True fb
          by (auto simp: shrink_to_fit_def ic split: if_splits)
      next
        case nt: False
        then have "K = 0" "ks = n" using K' start ks(1) by auto
        moreover have "internal_free_segments ?E v pointers_per_long_table 0 = (?E, (v, None))"
          by (rule free_nothing) (simp_all add: pointers_defs)
        ultimately show ?thesis using start nt fb shrunk_same [OF v] by (simp add: shrink_to_fit_def ic)
      qed
    next
      case merge: True
      show ?thesis
      proof (cases "block_ok A (length (my_blocks v))")
        case False
        then have "shrink_to_fit A es cp v = (v, Some Bad_alloc)" using start merge by (simp add: shrink_to_fit_def ic)
        moreover have "\<not> all_ok A" using False by (auto simp: all_ok_def)
        ultimately show ?thesis using v by (auto simp: shrunk_def)
      next
        case True
        have Kn: "K \<le> n" using K(1) ks(1) by simp
        have ks0: "ks \<noteq> 0" using K(1) merge by simp
        have bound: "length xs \<le> vseg_base K \<or> ?fb \<le> K" using K(2) ks(2) by auto
        obtain ys e where c: "merge_copy K cp (length (my_blocks v)) ?fb K (length xs)
            (v\<lparr>my_blocks := my_blocks v @ [replicate (vseg_size K) Raw]\<rparr>) 0 0 (vseg_size ?fb) = (v\<lparr>my_blocks := my_blocks v @ [ys]\<rparr>, e)"
          "length ys = vseg_size K" "e = Some Ctor_threw \<and> (\<exists>x. cp x = None) \<or> e = None \<and> (\<forall>y<vseg_size K. y < length xs \<longrightarrow> ys ! y = Obj (xs ! y))"
        proof -
          have n0: "n \<noteq> 0" using ks0 ks(1) by simp
          then have "0 \<in> homes ?fb n \<and> 0 = vseg_base 0 \<and> vseg_size ?fb = helper_sz ?fb 0" by (simp add: homes_def helper_sz_def)
          then show ?thesis
            using that merge_copy_ok [OF v cp fb Kn bound, of "replicate (vseg_size K) Raw" 0 K 0 "vseg_size ?fb"] by auto
        qed
        show ?thesis
        proof (cases "e = None")
          case False
          then have e: "e = Some Ctor_threw" "\<exists>x. cp x = None" using c(3) by blast+
          let ?v1 = "v\<lparr>my_blocks := my_blocks v @ [ys]\<rparr>"
          have comp: "internal_compact A es cp v = ((?v1, e), ?E[0 := Seg (length (my_blocks v)) 0], K, False)"
            using start merge True c(1) e by (simp add: ic)
          obtain t' w where f: "internal_free_segments (?E[0 := Seg (length (my_blocks v)) 0]) ?v1 1 K = (t', (w, None))"
            "wiped {length (my_blocks v)} ?v1 w"
            using free_segments_ok [of 1 "?E[0 := Seg (length (my_blocks v)) 0]" K "{}" "\<lambda>_. 0" ?v1 True "length (my_blocks v)"] merge c(2)
            by (auto simp: pointers_defs freeable_def)
          note wd = wipedD [OF f(2)]
          have "my_blocks w = my_blocks v @ replicate 1 []"
            by (rule nth_equalityI) (use wd(4,5) in \<open>auto simp: nth_append less_Suc_eq\<close>)
          then have "vec_ok loc n w xs" using vec_ok_more_blocks [OF v, of w 1] wd(1-3) by simp
          moreover have "shrink_to_fit A es cp v = (w, Some Ctor_threw)"
            using comp f(1) e merge by (simp add: shrink_to_fit_def)
          ultimately show ?thesis using wd(1,3) e(2) by (auto simp: shrunk_def)
        next
          case eN: True
          define old where "old = take K (my_segments v) @ drop K ?E"
          define w where "w = v\<lparr>my_blocks := my_blocks v @ [ys], my_first_block := K,
            my_segments := map (\<lambda>i. Seg (length (my_blocks v)) (vseg_base i)) [0..<K] @ drop K (my_segments v)\<rparr>"
          obtain w1 where m: "merge_destroy K old ?fb K (length xs) w 0 0 (vseg_size ?fb) = (w1, None)"
            "my_first_block w1 = K" "shrunk A cp v xs ks (snd (internal_free_segments
              (take ks old @ take (n - ks) (drop ks (my_segments w1)) @ drop n old)
              (w1\<lparr>my_segments := take ks (my_segments w1) @ replicate (n - ks) Not_used @ drop n (my_segments w1), my_first_block := K\<rparr>)
              pointers_per_long_table ?fb))"
            using shrink_merge [OF v fb ks ks0 _ K(1,2) c(2) _ old_def w_def, of A cp] merge c(3) eN by auto
          have w': "v\<lparr>my_blocks := my_blocks v @ [ys],
              my_segments := map (\<lambda>i. Seg (length (my_blocks v)) (vseg_base i)) [0..<K] @ drop K (my_segments v), my_first_block := K\<rparr> = w"
            by (simp add: w_def)
          define w2 where "w2 = w1\<lparr>my_segments := take ks (my_segments w1) @ replicate (n - ks) Not_used @ drop n (my_segments w1), my_first_block := K\<rparr>"
          define t where "t = take ks old @ take (n - ks) (drop ks (my_segments w1)) @ drop n old"
          have full: "w2 = w1" "t = old" if "\<not> ks < n"
          proof -
            have "ks = n" using that ks(1) by simp
            then show "w2 = w1" "t = old" using m(2) by (simp_all add: w2_def t_def)
          qed
          have w2e: "w2 = w1\<lparr>my_segments := take ks (my_segments w1) @ replicate (n - ks) Not_used @ drop n (my_segments w1)\<rparr>"
            unfolding w2_def m(2) [symmetric] by simp
          have "internal_compact A es cp v = ((w2, None), t, ?fb, True)"
          proof (cases "ks < n")
            case True
            then show ?thesis using start merge \<open>block_ok A (length (my_blocks v))\<close> c(1) eN m(1,2)
              by (simp add: ic w' old_def [symmetric] w2e t_def del: drop_replicate)
          next
            case False
            then show ?thesis using start merge \<open>block_ok A (length (my_blocks v))\<close> c(1) eN m(1,2) full [OF False]
              by (simp add: ic w' old_def [symmetric] del: drop_replicate)
          qed
          then show ?thesis using m(3) by (simp add: shrink_to_fit_def w2_def [symmetric] t_def [symmetric])
        qed
      qed
    qed
  qed
qed


section \<open>The destructor frees every block once\<close>

lemma apply_stop_home:
  "fb \<noteq> 0 \<Longrightarrow> k \<in> homes fb n \<Longrightarrow> n \<le> 64 \<Longrightarrow> vseg_base k + finish \<le> room fb n \<Longrightarrow> apply_stop fb k finish \<in> homes fb n"
proof (induction fb k finish rule: apply_stop.induct)
  case (1 fb k finish)
  show ?case
  proof (cases "helper_sz fb k < finish")
    case True
    have kh: "k = 0 \<or> fb \<le> k" using homes_64 [OF 1(3,4)] by simp
    note b = helper_next_base [OF 1(2) kh]
    have "helper_next fb k \<in> homes fb n" by (rule helper_next_homes [OF 1(2,3)]) (use 1(5) True b in linarith)
    moreover have "vseg_base (helper_next fb k) + (finish - helper_sz fb k) \<le> room fb n" using 1(5) True b by linarith
    ultimately have "apply_stop fb (helper_next fb k) (finish - helper_sz fb k) \<in> homes fb n" using 1(1) [OF True 1(2) _ 1(4)] by blast
    then show ?thesis using True by (simp add: apply_stop.simps [of fb k finish])
  next
    case False
    then show ?thesis using 1(3) by (simp add: apply_stop.simps [of fb k finish])
  qed
qed

text \<open>The blocks in use are those of the first \<open>n\<close> segments; the segments behind are unused or failed.\<close>

definition owned_blocks :: "(nat \<Rightarrow> nat) \<Rightarrow> nat \<Rightarrow> 'a cvector \<Rightarrow> bool" where
  "owned_blocks loc n v \<longleftrightarrow> (let fb = my_first_block v in
     length (my_segments v) \<in> {pointers_per_short_table, pointers_per_long_table} \<and> n \<le> length (my_segments v) \<and>
     (n \<noteq> 0 \<longrightarrow> fb \<noteq> 0) \<and>
     (\<forall>k<n. my_segments v ! k = (if k < fb then Seg (loc 0) (vseg_base k) else Seg (loc k) 0)) \<and>
     (\<forall>k. n \<le> k \<longrightarrow> k < length (my_segments v) \<longrightarrow> \<not> allocated (my_segments v ! k)) \<and>
     inj_on loc (homes fb n) \<and>
     (\<forall>h\<in>homes fb n. loc h < length (my_blocks v) \<and> length (my_blocks v ! loc h) = helper_sz fb h) \<and>
     (\<forall>b<length (my_blocks v). my_blocks v ! b \<noteq> [] \<longrightarrow> b \<in> loc ` homes fb n))"

lemma owned_blocksD:
  assumes "owned_blocks loc n v"
  shows "length (my_segments v) \<in> {pointers_per_short_table, pointers_per_long_table}" "n \<le> length (my_segments v)"
    "n \<noteq> 0 \<Longrightarrow> my_first_block v \<noteq> 0"
    "k < n \<Longrightarrow> my_segments v ! k = (if k < my_first_block v then Seg (loc 0) (vseg_base k) else Seg (loc k) 0)"
    "n \<le> k \<Longrightarrow> k < length (my_segments v) \<Longrightarrow> \<not> allocated (my_segments v ! k)"
    "inj_on loc (homes (my_first_block v) n)"
    "h \<in> homes (my_first_block v) n \<Longrightarrow> loc h < length (my_blocks v)"
    "h \<in> homes (my_first_block v) n \<Longrightarrow> length (my_blocks v ! loc h) = helper_sz (my_first_block v) h"
    "b < length (my_blocks v) \<Longrightarrow> my_blocks v ! b \<noteq> [] \<Longrightarrow> b \<in> loc ` homes (my_first_block v) n"
  using assms by (simp_all add: owned_blocks_def Let_def)

lemma layout_owned: "layout loc n v \<Longrightarrow> owned_blocks loc n v"
  unfolding owned_blocks_def layout_def Let_def by (elim conjE, intro conjI) simp_all

lemma free_all:
  assumes o: "owned_blocks loc n v" and k: "n \<le> k" "k \<le> length (my_segments v)"
  shows "\<exists>t w. internal_free_segments (my_segments v) v k (my_first_block v) = (t, (w, None)) \<and>
    (\<forall>b<length (my_blocks w). my_blocks w ! b = []) \<and> length t = length (my_segments v) \<and>
    (\<forall>j<length t. t ! j = Not_used \<or> n \<le> j \<and> t ! j = my_segments v ! j)"
proof -
  note d = owned_blocksD [OF o]
  let ?fb = "my_first_block v" and ?t = "my_segments v"
  have sl: "0 < length ?t" using d(1) by (auto simp: pointers_defs)
  show ?thesis
  proof (cases "n = 0")
    case True
    have tj: "if j \<in> {} then ?t ! j = Seg (loc j) 0 else \<not> allocated (?t ! j)" if "?fb \<le> j" "j < k" for j
      using d(5) [of j] True that k by simp
    have "freeable loc {} v" by (simp add: freeable_def)
    then obtain t1 v1 where r: "free_down ?fb k ?t v = (t1, (v1, None))" "wiped (loc ` {}) v v1" "length t1 = length ?t"
      "\<forall>j. t1 ! j = (if ?fb \<le> j \<and> j < k then Not_used else ?t ! j)"
      using free_down_ok [OF k(2) empty_subsetI _ tj] by blast
    have "\<not> allocated (t1 ! 0)" using r(4) d(5) [of 0] True sl by simp
    moreover have "my_blocks v ! b = []" if "b < length (my_blocks v)" for b
      using d(9) [OF that] True by (auto simp: homes_def)
    ultimately show ?thesis using r(1,3,4) wipedD(4,5) [OF r(2)] True by (simp add: internal_free_segments_def)
  next
    case False
    let ?J = "{?fb..<n}"
    have fb: "0 < ?fb" using d(3) False by simp
    have hom: "homes ?fb n = insert 0 ?J" using False by (simp add: homes_def)
    have J: "freeable loc ?J v"
      using inj_on_subset [OF d(6), of ?J] d(7,8) hom fb by (fastforce simp: freeable_def helper_sz_def vseg_base_eq)
    have z: "loc 0 \<notin> loc ` ?J \<and> loc 0 < length (my_blocks v) \<and> length (my_blocks v ! loc 0) = vseg_size ?fb"
      using inj_onD [OF d(6), of 0] d(7,8) [of 0] hom fb by (fastforce simp: helper_sz_def)
    have t0: "if True then ?t ! 0 = Seg (loc 0) 0 else \<not> allocated (?t ! 0)" using d(4) [of 0] False fb by simp
    have tj: "if j \<in> ?J then ?t ! j = Seg (loc j) 0 else \<not> allocated (?t ! j)" if "?fb \<le> j" "j < k" for j
      using d(4) [of j] d(5) [of j] that k by (cases "j < n") auto
    have "?J \<subseteq> {?fb..<k}" using k by auto
    then obtain t w where r: "internal_free_segments ?t v k ?fb = (t, (w, None))" "wiped (loc ` ?J \<union> (if True then {loc 0} else {})) v w"
      "length t = length ?t"
      "\<forall>j. t ! j = (if ?fb \<le> j \<and> j < k \<or> True \<and> j < min k ?fb then Not_used else ?t ! j)"
      using free_segments_ok [OF k(2) sl fb _ J tj t0] z by blast
    have "my_blocks w ! b = []" if "b < length (my_blocks w)" for b
      using wipedD(4,5) [OF r(2)] that d(9) [of b] hom by (cases "my_blocks v ! b = []") auto
    moreover have "t ! j = Not_used \<or> n \<le> j \<and> t ! j = ?t ! j" if "j < length t" for j
      using r(4) k by (cases "j < n") auto
    ultimately show ?thesis using r(1,3) by blast
  qed
qed

lemma destroy_owned:
  assumes c: "internal_clear v = (v1, None)" and o: "owned_blocks loc n v1"
    and k: "n \<le> segments_to_free v1 (my_early_size v)" "segments_to_free v1 (my_early_size v) \<le> length (my_segments v1)"
  shows "\<exists>w. destroy_vector v = (w, None) \<and> (\<forall>b<length (my_blocks w). my_blocks w ! b = []) \<and> is_short w \<and>
    (\<forall>s\<in>set (my_segments w). s = Not_used \<or> s \<in> set (drop n (my_segments v1)) \<and> \<not> allocated s)"
proof -
  obtain t w where r: "internal_free_segments (my_segments v1) v1 (segments_to_free v1 (my_early_size v)) (my_first_block v1) = (t, (w, None))"
    "\<forall>b<length (my_blocks w). my_blocks w ! b = []" "length t = length (my_segments v1)"
    "\<forall>j<length t. t ! j = Not_used \<or> n \<le> j \<and> t ! j = my_segments v1 ! j"
    using free_all [OF o k] by blast
  have t: "x = Not_used \<or> x \<in> set (drop n (my_segments v1)) \<and> \<not> allocated x" if x: "x \<in> set t" for x
  proof -
    obtain j where j: "j < length t" "t ! j = x" using x by (metis in_set_conv_nth)
    have "x \<in> set (drop n (my_segments v1))" if "n \<le> j" "t ! j = my_segments v1 ! j"
      using that j r(3) nth_mem [of "j - n" "drop n (my_segments v1)"] by simp
    then show ?thesis using r(4) j owned_blocksD(5) [OF o, of j] r(3) by auto
  qed
  then have na: "\<not> list_ex allocated t" by (metis list_ex_iff allocated.simps(2))
  have d: "destroy_vector v = vector_base_destructor (w\<lparr>my_segments := t\<rparr>)" using c r(1) by (simp add: destroy_vector_def)
  show ?thesis
  proof (cases "is_short (w\<lparr>my_segments := t\<rparr>)")
    case True
    then show ?thesis using d r(2) t by (simp add: vector_base_destructor_def)
  next
    case False
    then show ?thesis using d r(2) na by (simp add: vector_base_destructor_def is_short_def)
  qed
qed

lemma destroy_vector_ok:
  assumes v: "vec_ok loc n v xs"
  shows "\<exists>w. destroy_vector v = (w, None) \<and> (\<forall>b<length (my_blocks w). my_blocks w ! b = []) \<and>
    is_short w \<and> (\<forall>s\<in>set (my_segments w). s = Not_used)"
proof -
  obtain v1 where c: "internal_clear v = (v1, None)" "vec_ok loc n v1 []" "stays v v1" using internal_clear_ok [OF v] by blast
  note d = vec_okD [OF c(2)]
  note ld = layoutD [OF d(1)]
  let ?fb = "my_first_block v1"
  have fe: "find_segment_end v1 = n" by (rule find_end_ok [OF d(1)])
  have k: "n \<le> segments_to_free v1 (my_early_size v)" "segments_to_free v1 (my_early_size v) \<le> length (my_segments v1)"
  proof -
    have "segments_to_free v1 (my_early_size v) = (if n = 0 then 1 else n)"
    proof (cases "n = 0")
      case True
      have "length xs = 0" using vec_okD(3) [OF v] True by simp
      then show ?thesis using vec_okD(2) [OF v] fe True by (simp add: segments_to_free_def apply_stop.simps [of _ 0 0])
    next
      case False
      have "vseg_base 0 + length xs \<le> room ?fb n" using vec_okD(3) [OF v] room_ge [of n ?fb] by simp
      then have "apply_stop ?fb 0 (length xs) \<in> homes ?fb n"
        using apply_stop_home [of ?fb 0 n "length xs"] ld(4) d(5) False by (simp add: homes_def)
      then have "apply_stop ?fb 0 (length xs) < n" using False by (auto simp: homes_def)
      then show ?thesis using vec_okD(2) [OF v] fe by (simp add: segments_to_free_def)
    qed
    then show "n \<le> segments_to_free v1 (my_early_size v)" "segments_to_free v1 (my_early_size v) \<le> length (my_segments v1)"
      using ld(1,2) by (auto simp: pointers_defs)
  qed
  have "s = Not_used" if "s \<in> set (drop n (my_segments v1))" for s
    using that ld(6) by (auto simp: in_set_conv_nth)
  then show ?thesis using destroy_owned [OF c(1) layout_owned [OF d(1)] k] by blast
qed

text \<open>
  Clearing and destroying a vector whose next segment could not be allocated. Only the shape of the memory matters:
  the table, and how large the blocks are.
\<close>

definition same_shape :: "'a cvector \<Rightarrow> 'a cvector \<Rightarrow> bool" where
  "same_shape v v' \<longleftrightarrow> my_first_block v' = my_first_block v \<and> my_segments v' = my_segments v \<and>
     my_early_size v' = my_early_size v \<and> map length (my_blocks v') = map length (my_blocks v)"

definition destroyable :: "nat \<Rightarrow> 'a cvector \<Rightarrow> nat \<Rightarrow> bool" where
  "destroyable fb v h \<longleftrightarrow> h < length (my_segments v) \<and> (case my_segments v ! h of
     Seg b p \<Rightarrow> p = 0 \<and> b < length (my_blocks v) \<and> map length (my_blocks v) ! b = helper_sz fb h | _ \<Rightarrow> True)"

lemma destroyable_early [simp]: "destroyable fb (v\<lparr>my_early_size := e\<rparr>) h = destroyable fb v h"
  by (cases "my_segments v ! h") (simp_all add: destroyable_def)

lemma destroyable_same: "same_shape v v' \<Longrightarrow> destroyable fb v' h = destroyable fb v h"
proof -
  assume s: "same_shape v v'"
  then have "length (my_blocks v') = length (my_blocks v)" by (metis same_shape_def length_map)
  then show ?thesis using s by (auto simp: destroyable_def same_shape_def split: vec_segment.splits)
qed

lemma destroy_body_shape:
  assumes "destroyable fb v h" "start + m \<le> helper_sz fb h"
  shows "\<exists>v'. destroy_body v h start m = (v', None) \<and> same_shape v v'"
proof (cases "my_segments v ! h")
  case (Seg b p)
  have "p = 0" "b < length (my_blocks v)" "map length (my_blocks v) ! b = helper_sz fb h"
    using Seg assms(1) by (simp_all add: destroyable_def)
  then have b: "p = 0" "b < length (my_blocks v)" "length (my_blocks v ! b) = helper_sz fb h" by simp_all
  let ?v = "store_cells v b (p + start) (replicate m Raw)"
  have "length (put_cells (my_blocks v ! b) start (replicate m Raw)) = length (my_blocks v ! b)"
    using b assms(2) by (simp add: put_cells_def)
  then have "map length (my_blocks ?v) = (map length (my_blocks v))[b := map length (my_blocks v) ! b]"
    using b by (simp add: store_cells_def map_update)
  then have "map length (my_blocks ?v) = map length (my_blocks v)" unfolding list_update_id .
  then have "same_shape v ?v" by (simp add: same_shape_def store_cells_def)
  moreover have "destroy_body v h start m = (?v, None)"
    using Seg assms(1) by (simp add: destroy_body_def seg_at_def destroyable_def)
  ultimately show ?thesis by blast
qed (use assms(1) in \<open>simp_all add: destroy_body_def seg_at_def destroyable_def same_shape_def\<close>)

lemma destroy_loop_shape:
  "fb \<noteq> 0 \<Longrightarrow> k \<in> homes fb n \<Longrightarrow> n \<le> 64 \<Longrightarrow> vseg_base k + finish \<le> room fb n \<Longrightarrow> \<forall>h\<in>homes fb n. destroyable fb v h \<Longrightarrow>
    \<exists>v'. apply_loop destroy_body fb v k 0 finish = (v', None) \<and> same_shape v v'"
proof (induction finish arbitrary: k v rule: less_induct)
  case (less finish)
  have kh: "k = 0 \<or> fb \<le> k" using homes_64 [OF less.prems(2,3)] by simp
  note b = helper_next_base [OF less.prems(1) kh]
  have dk: "destroyable fb v k" using less.prems(2,5) by blast
  show ?case
  proof (cases "helper_sz fb k < finish")
    case True
    obtain v1 where v1: "destroy_body v k 0 (helper_sz fb k) = (v1, None)" "same_shape v v1"
      using destroy_body_shape [OF dk, of 0 "helper_sz fb k"] by auto
    have n: "helper_next fb k \<in> homes fb n" by (rule helper_next_homes [OF less.prems(1,2)]) (use less.prems(4) True b in linarith)
    have f: "finish - helper_sz fb k < finish" "vseg_base (helper_next fb k) + (finish - helper_sz fb k) \<le> room fb n"
      using less.prems(4) True b helper_sz_pos [of fb k] by linarith+
    have "\<forall>h\<in>homes fb n. destroyable fb v1 h" using less.prems(5) destroyable_same [OF v1(2)] by blast
    from less.IH [OF f(1) less.prems(1) n less.prems(3) f(2) this] obtain v' where
      "apply_loop destroy_body fb v1 (helper_next fb k) 0 (finish - helper_sz fb k) = (v', None)" "same_shape v1 v'" by blast
    then show ?thesis using v1 True by (auto simp: apply_loop.simps [of _ _ v k] Let_def same_shape_def)
  next
    case False
    then show ?thesis using destroy_body_shape [OF dk, of 0 finish] by (simp add: apply_loop.simps [of _ _ v k] Let_def)
  qed
qed

lemma destroy_failed_ok:
  assumes l: "layout loc n v" and n: "n < length (my_segments v)" and w: "my_segments w = (my_segments v)[n := Alloc_failed]"
    "my_blocks w = my_blocks v" "n \<noteq> 0 \<Longrightarrow> my_first_block w = my_first_block v" "my_first_block w \<noteq> 0"
    "my_first_block w \<le> n \<or> n = 0" "my_early_size w \<le> vseg_base (Suc n)"
  shows "\<exists>u. destroy_vector w = (u, None) \<and> (\<forall>b<length (my_blocks u). my_blocks u ! b = []) \<and> is_short u \<and>
    (\<forall>s\<in>set (my_segments u). \<not> allocated s)"
proof -
  note ld = layoutD [OF l]
  let ?fb = "my_first_block w"
  have n64: "Suc n \<le> 64" using n layout_le64 [OF l] by linarith
  have hom: "homes ?fb n = homes (my_first_block v) n" using w(3) by (cases "n = 0") (simp_all add: homes_def)
  have homS: "homes ?fb (Suc n) = insert n (homes ?fb n)" using w(5) by (auto simp: homes_def)
  have sw: "my_segments w ! j = (if j = n then Alloc_failed else my_segments v ! j)" for j
    using n w(1) by (simp add: nth_list_update)
  have des: "destroyable ?fb w h" if "h \<in> homes ?fb (Suc n)" for h
  proof (cases "h = n")
    case True
    then show ?thesis using n w(1) by (simp add: destroyable_def)
  next
    case False
    then have h: "h \<in> homes (my_first_block v) n" using that homS hom by simp
    then have hn: "h < n" "n \<noteq> 0" by (auto simp: homes_def split: if_splits)
    have fb: "my_first_block w = my_first_block v" using w(3) hn by simp
    have "my_segments v ! h = Seg (loc h) 0" using ld(5) [OF hn(1)] h by (auto simp: homes_def split: if_splits)
    then show ?thesis using ld(8,9) [OF h] sw [of h] False n w(1,2) hn fb by (simp add: destroyable_def)
  qed
  let ?w = "w\<lparr>my_early_size := 0\<rparr>"
  have "\<forall>h\<in>homes ?fb (Suc n). destroyable ?fb ?w h" using des by simp
  moreover have rm: "vseg_base 0 + my_early_size w \<le> room ?fb (Suc n)" using w(6) room_ge [of "Suc n" ?fb] by simp
  moreover have h0: "0 \<in> homes ?fb (Suc n)" by (simp add: homes_def)
  ultimately obtain v1 where v1: "apply_loop destroy_body ?fb ?w 0 0 (my_early_size w) = (v1, None)" "same_shape ?w v1"
    using destroy_loop_shape [OF w(4) _ n64] by blast
  have c: "internal_clear w = (v1, None)" using v1(1) by (simp add: internal_clear_def helper_apply_def Let_def)
  have s: "my_first_block v1 = ?fb" "my_segments v1 = my_segments w" "map length (my_blocks v1) = map length (my_blocks v)"
    using v1(2) w(2) by (simp_all add: same_shape_def)
  have lb: "length (my_blocks v1) = length (my_blocks v)" using s(3) by (metis length_map)
  then have lbs: "b < length (my_blocks v) \<Longrightarrow> length (my_blocks v1 ! b) = length (my_blocks v ! b)" for b
    using s(3) by (metis nth_map)
  have o: "owned_blocks loc n v1"
    unfolding owned_blocks_def Let_def s hom
  proof (intro conjI allI ballI impI)
    show "length (my_segments w) \<in> {pointers_per_short_table, pointers_per_long_table}" "n \<le> length (my_segments w)"
      using ld(1) n w(1) by simp_all
    show "my_segments w ! k = (if k < ?fb then Seg (loc 0) (vseg_base k) else Seg (loc k) 0)" if "k < n" for k
      using ld(5) [OF that] sw [of k] w(3) that by auto
    show "\<not> allocated (my_segments w ! k)" if "n \<le> k" "k < length (my_segments w)" for k
      using ld(6) [OF that(1)] that sw [of k] w(1) by simp
    show "loc h < length (my_blocks v1)" if "h \<in> homes (my_first_block v) n" for h using ld(8) [OF that] lb by simp
    show "length (my_blocks v1 ! loc h) = helper_sz ?fb h" if "h \<in> homes (my_first_block v) n" for h
    proof -
      have "n \<noteq> 0" using that by (cases n) (simp_all add: homes_def)
      then show ?thesis using ld(8,9) [OF that] lbs w(3) by simp
    qed
    show "b \<in> loc ` homes (my_first_block v) n" if "b < length (my_blocks v1)" "my_blocks v1 ! b \<noteq> []" for b
      using ld(10) [of b] that lb lbs [of b] by fastforce
  qed (use w(4) ld(7) in auto)
  have "takeWhile allocated (my_segments w) = take n (my_segments w)"
    by (rule takeWhile_eq_take_P_nth) (use good_segments [OF l] sw n w(1) in auto)
  then have fe: "find_segment_end v1 = n" using s(2) n w(1) by (simp add: find_segment_end_def)
  have "apply_stop ?fb 0 (my_early_size w) \<in> homes ?fb (Suc n)" by (rule apply_stop_home [OF w(4) h0 n64 rm])
  then have "apply_stop ?fb 0 (my_early_size w) \<le> n" by (auto simp: homes_def)
  then have k: "n \<le> segments_to_free v1 (my_early_size w)" "segments_to_free v1 (my_early_size w) \<le> length (my_segments v1)"
    using fe s n w(1) by (auto simp: segments_to_free_def Let_def)
  show ?thesis using destroy_owned [OF c o k] by (metis allocated.simps(2))
qed

text \<open>Clearing more slots than the short table has segments for reads behind that table.\<close>

lemma destroy_past_table:
  "length (my_segments v) = 3 \<Longrightarrow> fb \<noteq> 0 \<Longrightarrow> fb \<le> 3 \<Longrightarrow> k = 0 \<or> fb \<le> k \<Longrightarrow> k \<le> 3 \<Longrightarrow> 8 < vseg_base k + finish \<Longrightarrow>
    snd (apply_loop destroy_body fb v k 0 finish) = Some Undefined"
proof (induction finish arbitrary: k v rule: less_induct)
  case (less finish)
  note b = helper_next_base [OF less.prems(2,4)]
  show ?case
  proof (cases "k = 3")
    case True
    then have "destroy_body v k 0 m = (v, Some Undefined)" for m using less.prems(1) by (simp add: destroy_body_def seg_at_def)
    then show ?thesis by (simp add: apply_loop.simps [of _ _ v k] Let_def)
  next
    case False
    have k': "helper_next fb k \<le> 3" "helper_next fb k = 0 \<or> fb \<le> helper_next fb k"
      using less.prems(3,4,5) False by (auto simp: helper_next_def)
    have "vseg_base (helper_next fb k) \<le> 8" using vseg_base_mono [OF k'(1)] by (simp add: vseg_base_eq)
    then have sz: "helper_sz fb k < finish" using less.prems(6) b by linarith
    have "\<exists>v'. destroy_body v k 0 (helper_sz fb k) = (v', None) \<and> length (my_segments v') = 3"
      using less.prems(1,5) False
      by (cases "my_segments v ! k") (simp_all add: destroy_body_def seg_at_def store_cells_def)
    then obtain v' where v': "destroy_body v k 0 (helper_sz fb k) = (v', None)" "length (my_segments v') = 3" by blast
    have f: "finish - helper_sz fb k < finish" "8 < vseg_base (helper_next fb k) + (finish - helper_sz fb k)"
      using sz b less.prems(6) helper_sz_pos [of fb k] by linarith+
    from less.IH [OF f(1) v'(2) less.prems(2,3) k'(2,1) f(2)] v'(1) sz show ?thesis
      by (simp add: apply_loop.simps [of _ _ v k] Let_def)
  qed
qed

lemma destructor_past_table:
  assumes "is_short v" "my_first_block v \<noteq> 0" "my_first_block v \<le> 3" "8 < my_early_size v"
  shows "snd (destroy_vector v) = Some Undefined"
proof -
  have "snd (internal_clear v) = Some Undefined"
    using destroy_past_table [of "v\<lparr>my_early_size := 0\<rparr>" "my_first_block v" 0 "my_early_size v"] assms
    by (simp add: internal_clear_def helper_apply_def Let_def is_short_def pointers_defs)
  then show ?thesis by (cases "internal_clear v") (simp add: destroy_vector_def)
qed

end
