(* ===== verification/Vector_Properties.thy ===== *)
theory Vector_Properties
  imports Vector_Memory
begin

text \<open>
  \<^verbatim>\<open>include/tbb/concurrent_vector.h\<close>: sequences of operations on a vector, iterators with their cached pointer, comparison, and what
  holds of every vector that is reached from an empty one; and the vectors that a failed growth leaves behind.
\<close>

section \<open>Sequences of operations\<close>

datatype 'a vec_op = Push_back 'a | Grow_by nat 'a | Grow_range "'a list" | Grow_to_at_least nat 'a | Reserve nat
  | Resize nat 'a | Assign_n nat 'a | Assign_range "'a list" | Clear | Shrink_to_fit

definition vec_max_size :: "nat \<Rightarrow> nat" where
  "vec_max_size element_size = (2 ^ 64 - 1) div element_size"

definition vec_apply :: "vec_alloc \<Rightarrow> nat \<Rightarrow> ('a \<Rightarrow> 'a option) \<Rightarrow> 'a vec_op \<Rightarrow> 'a cvector \<Rightarrow> 'a vres" where
  "vec_apply A es cp op v =
     (case op of
        Push_back t \<Rightarrow> fst (vec_push_back A v (cp t))
      | Grow_by n t \<Rightarrow> fst (grow_by A v n (\<lambda>_. cp t))
      | Grow_range ts \<Rightarrow> fst (grow_by A v (length ts) (\<lambda>i. cp (ts ! (i - my_early_size v))))
      | Grow_to_at_least n t \<Rightarrow> fst (grow_to_at_least A v n (\<lambda>_. cp t))
      | Reserve n \<Rightarrow> reserve A v n (vec_max_size es)
      | Resize n t \<Rightarrow> internal_resize A v n (vec_max_size es) (\<lambda>_. cp t)
      | Assign_n n t \<Rightarrow> assign_n A v n (vec_max_size es) (\<lambda>_. cp t)
      | Assign_range ts \<Rightarrow> vthen (internal_clear v) (\<lambda>v. internal_assign_iterators A (vec_max_size es) v (length ts) (\<lambda>i. cp (ts ! i)))
      | Clear \<Rightarrow> internal_clear v
      | Shrink_to_fit \<Rightarrow> shrink_to_fit A es cp v)"

primrec vec_run :: "vec_alloc \<Rightarrow> nat \<Rightarrow> ('a \<Rightarrow> 'a option) \<Rightarrow> 'a vec_op list \<Rightarrow> 'a cvector \<Rightarrow> 'a vres" where
  "vec_run A es cp [] v = (v, None)"
| "vec_run A es cp (op # ops) v = vthen (vec_apply A es cp op v) (vec_run A es cp ops)"

text \<open>What the operations do to the list of elements, and the sizes for which they are defined.\<close>

fun list_op :: "'a vec_op \<Rightarrow> 'a list \<Rightarrow> 'a list" where
  "list_op (Push_back t) xs = xs @ [t]"
| "list_op (Grow_by n t) xs = xs @ replicate n t"
| "list_op (Grow_range ts) xs = xs @ ts"
| "list_op (Grow_to_at_least n t) xs = xs @ replicate (n - length xs) t"
| "list_op (Reserve n) xs = xs"
| "list_op (Resize n t) xs = take n xs @ replicate (n - length xs) t"
| "list_op (Assign_n n t) xs = replicate n t"
| "list_op (Assign_range ts) xs = ts"
| "list_op Clear xs = []"
| "list_op Shrink_to_fit xs = xs"

fun op_fits :: "nat \<Rightarrow> 'a vec_op \<Rightarrow> 'a list \<Rightarrow> bool" where
  "op_fits es (Push_back t) xs \<longleftrightarrow> length xs + 1 < 2 ^ 64"
| "op_fits es (Grow_by n t) xs \<longleftrightarrow> length xs + n < 2 ^ 64"
| "op_fits es (Grow_range ts) xs \<longleftrightarrow> length xs + length ts < 2 ^ 64"
| "op_fits es (Grow_to_at_least n t) xs \<longleftrightarrow> n < 2 ^ 64"
| "op_fits es (Reserve n) xs \<longleftrightarrow> n \<le> vec_max_size es"
| "op_fits es (Resize n t) xs \<longleftrightarrow> n \<le> vec_max_size es"
| "op_fits es (Assign_n n t) xs \<longleftrightarrow> n \<le> vec_max_size es"
| "op_fits es (Assign_range ts) xs \<longleftrightarrow> length ts \<le> vec_max_size es"
| "op_fits es Clear xs \<longleftrightarrow> True"
| "op_fits es Shrink_to_fit xs \<longleftrightarrow> True"

primrec ops_fit :: "nat \<Rightarrow> 'a vec_op list \<Rightarrow> 'a list \<Rightarrow> bool" where
  "ops_fit es [] xs \<longleftrightarrow> True"
| "ops_fit es (op # ops) xs \<longleftrightarrow> op_fits es op xs \<and> ops_fit es ops (list_op op xs)"

text \<open>
  One case is left out in the operations themselves: \<^verbatim>\<open>resize(8)\<close> of a vector that has 8 elements and still the short table
  looks at the entry behind that table. Whether the vector still has the short table depends on what it held before.
\<close>

definition past_table :: "'a vec_op \<Rightarrow> 'a list \<Rightarrow> 'a cvector \<Rightarrow> bool" where
  "past_table op xs v \<longleftrightarrow> (case op of
     Resize n t \<Rightarrow> n = length xs \<and> n = vseg_base pointers_per_short_table \<and> is_short v \<and> my_first_block v \<le> pointers_per_short_table
   | _ \<Rightarrow> False)"

fun resizes_full :: "'a vec_op \<Rightarrow> 'a list \<Rightarrow> bool" where
  "resizes_full (Resize n t) xs \<longleftrightarrow> n = length xs \<and> n = vseg_base pointers_per_short_table"
| "resizes_full _ xs \<longleftrightarrow> False"

primrec never_full :: "'a vec_op list \<Rightarrow> 'a list \<Rightarrow> bool" where
  "never_full [] xs \<longleftrightarrow> True"
| "never_full (op # ops) xs \<longleftrightarrow> \<not> resizes_full op xs \<and> never_full ops (list_op op xs)"

lemma past_table_full: "past_table op xs v \<Longrightarrow> resizes_full op xs"
  by (cases op) (simp_all add: past_table_def)

lemma max_size_less: "n \<le> vec_max_size es \<Longrightarrow> n < 2 ^ 64"
proof -
  assume "n \<le> vec_max_size es"
  moreover have "vec_max_size es \<le> 2 ^ 64 - 1" unfolding vec_max_size_def by (rule div_le_dividend)
  moreover have "(2::nat) ^ 64 - 1 < 2 ^ 64" by simp
  ultimately show ?thesis by linarith
qed

definition good :: "'a list \<Rightarrow> 'a vres \<Rightarrow> bool" where
  "good ys r \<longleftrightarrow> (\<exists>loc n v. r = (v, None) \<and> vec_ok loc n v ys)"

lemma good_grown: "grown v ys r \<Longrightarrow> ys = zs \<Longrightarrow> good zs r"
  by (auto simp: grown_def good_def)

lemma goodI: "vec_ok loc n v ys \<Longrightarrow> good ys (v, None)"
  by (auto simp: good_def)

lemma map_init: "(\<And>i. i < n \<Longrightarrow> f (a + i) = ts ! i) \<Longrightarrow> length ts = n \<Longrightarrow> map f [a..<a + n] = ts"
  by (rule nth_equalityI) simp_all

lemma resize_segment:
  assumes "vec_ok loc n v xs" "\<not> past_table (Resize m t) xs v" "m < 2 ^ 64" "m = length xs"
  shows "vseg_index m < length (my_segments v) \<or> vseg_index m < my_first_block v"
proof -
  note ld = layoutD [OF vec_okD(1) [OF assms(1)]]
  consider "length (my_segments v) \<noteq> pointers_per_short_table" | "length (my_segments v) = pointers_per_short_table" "m \<noteq> vseg_base pointers_per_short_table"
    | "m = vseg_base pointers_per_short_table" "pointers_per_short_table < my_first_block v"
    using assms(2,4) by (fastforce simp: past_table_def is_short_def)
  then show ?thesis
  proof cases
    case 1
    then have "m < vseg_base (length (my_segments v))" using ld(1) assms(3) by (simp add: pointers_defs vseg_base_eq)
    then show ?thesis using vseg_index_less_iff [OF assms(3)] by simp
  next
    case 2
    have "m \<le> vseg_base n" using vec_okD(3) [OF assms(1)] assms(4) by simp
    also have "\<dots> \<le> vseg_base pointers_per_short_table" using ld(2) 2 by (intro vseg_base_mono) simp
    finally have "m < vseg_base (length (my_segments v))" using 2 by simp
    then show ?thesis using vseg_index_less_iff [OF assms(3)] by simp
  next
    case 3
    have "vseg_base pointers_per_short_table < vseg_base (Suc pointers_per_short_table)" by (rule vseg_base_less)
    also have "\<dots> \<le> vseg_base (my_first_block v)" using 3 by (intro vseg_base_mono) simp
    finally show ?thesis using vseg_index_less_iff [OF assms(3)] 3 by simp
  qed
qed

lemma vec_apply_ok:
  assumes v: "vec_ok loc n v xs" and A: "all_ok A" and cp: "\<And>x. cp x = Some x" and fits: "op_fits es op xs"
    and np: "\<not> past_table op xs v"
  shows "good (list_op op xs) (vec_apply A es cp op v)"
proof -
  have init: "init_ok (\<lambda>i. cp (f i)) i j" for f i j using cp by (simp add: init_ok_def)
  note d = vec_okD [OF v] and ms = max_size_less [of _ es]
  show ?thesis
  proof (cases op)
    case (Push_back t)
    then show ?thesis using good_grown [OF push_back_ok(1) [OF v _ A, of t]] fits cp by (simp add: vec_apply_def)
  next
    case (Grow_by m t)
    then show ?thesis using good_grown [OF grow_by_ok(1) [OF v _ A init [of "\<lambda>_. t"], of m]] fits cp
      by (simp add: vec_apply_def map_replicate_const)
  next
    case (Grow_range ts)
    have "map (\<lambda>x. the (cp (ts ! (x - my_early_size v)))) [length xs..<length xs + length ts] = ts"
      by (rule map_init) (use cp d(2) in auto)
    then show ?thesis using good_grown [OF grow_by_ok(1) [OF v _ A init [of "\<lambda>i. ts ! (i - my_early_size v)"], of "length ts"]] fits Grow_range
      by (simp add: vec_apply_def)
  next
    case (Grow_to_at_least m t)
    then show ?thesis using good_grown [OF grow_to_at_least_ok(1) [OF v _ A init [of "\<lambda>_. t"], of m]] fits cp
      by (simp add: vec_apply_def map_replicate_const)
  next
    case (Reserve m)
    then show ?thesis using reserve_ok [OF v _ _ A, of m "vec_max_size es"] ms [of m] fits by (auto simp: vec_apply_def good_def)
  next
    case (Resize m t)
    have "length xs < m \<or> take m xs = list_op op xs" using Resize by auto
    moreover have "length xs < m \<Longrightarrow> take m xs = xs" by simp
    ultimately show ?thesis
      using good_grown [OF internal_resize_ok [OF v _ _ A init [of "\<lambda>_. t"] resize_segment [OF v np [unfolded Resize]]], of "vec_max_size es"] ms [of m] fits cp Resize
      by (auto simp: vec_apply_def map_replicate_const)
  next
    case (Assign_n m t)
    obtain v1 where c: "internal_clear v = (v1, None)" "vec_ok loc n v1 []" using internal_clear_ok [OF v] by blast
    have np1: "\<not> past_table (Resize m t) [] v1" by (auto simp: past_table_def vseg_base_eq pointers_defs)
    have "(if length ([] :: 'a list) < m then [] @ map (\<lambda>x. the (cp t)) [length ([] :: 'a list)..<m] else take m []) = replicate m t"
      using cp by (cases m) (simp_all add: map_replicate_const del: upt_Suc)
    then show ?thesis
      using good_grown [OF internal_resize_ok [OF c(2) _ _ A init [of "\<lambda>_. t"] resize_segment [OF c(2) np1]], of "vec_max_size es"] ms [of m] fits cp Assign_n c(1)
      by (auto simp: vec_apply_def assign_n_def map_replicate_const)
  next
    case (Assign_range ts)
    obtain v1 where c: "internal_clear v = (v1, None)" "vec_ok loc n v1 []" using internal_clear_ok [OF v] by blast
    have "map (\<lambda>i. the (cp (ts ! i))) [0..<0 + length ts] = ts" by (rule map_init) (use cp in auto)
    then show ?thesis
      using good_grown [OF assign_iterators_ok [OF c(2) _ _ A init [of "\<lambda>i. ts ! i"]], of "length ts" "vec_max_size es"] ms [of "length ts"] fits Assign_range c(1)
      by (simp add: vec_apply_def)
  next
    case Clear
    then show ?thesis using internal_clear_ok [OF v] by (auto simp: vec_apply_def good_def)
  next
    case Shrink_to_fit
    have "faithful cp" using cp by (simp add: faithful_def)
    from shrink_ok [OF v this, of A es] show ?thesis
      using A cp Shrink_to_fit by (cases "shrink_to_fit A es cp v") (auto simp: shrunk_def good_def vec_apply_def)
  qed
qed


text \<open>Resizing a vector to its own size, where its short table is full.\<close>

lemma resize_past_table:
  assumes v: "my_early_size v = vseg_base pointers_per_short_table" "is_short v" "my_first_block v \<le> pointers_per_short_table"
  shows "snd (internal_resize A v (my_early_size v) max_size init) = Some Undefined"
proof -
  have i8: "vseg_index 8 = 3" using vseg_index_iff [of 8 3] by (simp add: vseg_base_eq)
  have v8: "my_early_size v = 8" "length (my_segments v) = 3" "my_first_block v \<le> 3" using v by (simp_all add: pointers_defs is_short_def vseg_base_eq)
  have "helper_apply destroy_body (v\<lparr>my_early_size := 8\<rparr>) 3 8 8 = (v\<lparr>my_early_size := 8\<rparr>, Some Undefined)"
    using v8(2,3) helper_sz_pos [of "my_first_block v" 3]
    by (simp add: helper_apply_def apply_loop.simps [of _ _ _ 3] vseg_base_eq Let_def destroy_body_def seg_at_def)
  then show ?thesis by (simp add: internal_resize_def v8(1) i8)
qed

lemma vec_apply_past_table:
  assumes "vec_ok loc n v xs" "past_table op xs v"
  shows "snd (vec_apply A es cp op v) = Some Undefined"
proof -
  obtain t where op: "op = Resize (vseg_base pointers_per_short_table) t" "length xs = vseg_base pointers_per_short_table"
    "is_short v" "my_first_block v \<le> pointers_per_short_table"
    using assms(2) by (auto simp: past_table_def split: vec_op.splits)
  have "my_early_size v = vseg_base pointers_per_short_table" using vec_okD(2) [OF assms(1)] op(2) by simp
  then show ?thesis using resize_past_table [of v] op by (simp add: vec_apply_def)
qed

text \<open>How a run of operations ends that fit: well, or at the resize of a full short table.\<close>

definition stops_at_full :: "vec_alloc \<Rightarrow> nat \<Rightarrow> ('a \<Rightarrow> 'a option) \<Rightarrow> 'a vec_op list \<Rightarrow> 'a cvector \<Rightarrow> bool" where
  "stops_at_full A es cp ops v \<longleftrightarrow> (\<exists>before t after u.
     ops = before @ Resize (vseg_base pointers_per_short_table) t # after \<and> vec_run A es cp before v = (u, None) \<and>
     vec_size u = vseg_base pointers_per_short_table \<and> is_short u)"

lemma stops_later:
  assumes "vec_apply A es cp op v = (w, None)" "stops_at_full A es cp ops w"
  shows "stops_at_full A es cp (op # ops) v"
proof -
  obtain before t after u where b: "ops = before @ Resize (vseg_base pointers_per_short_table) t # after" "vec_run A es cp before w = (u, None)"
    "vec_size u = vseg_base pointers_per_short_table" "is_short u"
    using assms(2) by (auto simp: stops_at_full_def)
  then have "op # ops = (op # before) @ Resize (vseg_base pointers_per_short_table) t # after" "vec_run A es cp (op # before) v = (u, None)"
    using assms(1) by simp_all
  then show ?thesis unfolding stops_at_full_def using b(3,4) by blast
qed

lemma vec_run_ends:
  assumes A: "all_ok A" and cp: "\<And>x. cp x = Some x"
  shows "vec_ok loc n v xs \<Longrightarrow> ops_fit es ops xs \<Longrightarrow>
    good (fold list_op ops xs) (vec_run A es cp ops v) \<or>
    snd (vec_run A es cp ops v) = Some Undefined \<and> stops_at_full A es cp ops v \<and> \<not> never_full ops xs"
proof (induction ops arbitrary: loc n v xs)
  case Nil
  then show ?case by (simp add: goodI)
next
  case (Cons op ops)
  have fits: "op_fits es op xs" "ops_fit es ops (list_op op xs)" using Cons.prems(2) by simp_all
  show ?case
  proof (cases "past_table op xs v")
    case True
    have "stops_at_full A es cp (op # ops) v"
      using True vec_size_ok [OF Cons.prems(1)] by (auto simp: stops_at_full_def past_table_def split: vec_op.splits intro!: exI [of _ "[]"])
    moreover obtain w where "vec_apply A es cp op v = (w, Some Undefined)"
      using vec_apply_past_table [OF Cons.prems(1) True, of A es cp] by (cases "vec_apply A es cp op v") simp
    ultimately show ?thesis using past_table_full [OF True] by simp
  next
    case False
    obtain loc' n' v' where v': "vec_apply A es cp op v = (v', None)" "vec_ok loc' n' v' (list_op op xs)"
      using vec_apply_ok [OF Cons.prems(1) A cp fits(1) False] by (auto simp: good_def)
    show ?thesis using Cons.IH [OF v'(2) fits(2)] v'(1) stops_later [OF v'(1)] by auto
  qed
qed

lemma vec_run_ok:
  assumes A: "all_ok A" and cp: "\<And>x. cp x = Some x" and v: "vec_ok loc n v xs" and fits: "ops_fit es ops xs" and full: "never_full ops xs"
  shows "good (fold list_op ops xs) (vec_run A es cp ops v)"
  using vec_run_ends [OF A cp v fits] full by blast

section \<open>Addresses and iterators\<close>

definition vec_address :: "'a cvector \<Rightarrow> nat \<Rightarrow> (nat \<times> nat) option" where
  "vec_address v x =
     (let k = vseg_index x
      in case seg_at v k of Some (Seg b p) \<Rightarrow> Some (b, p + (x - vseg_base k)) | _ \<Rightarrow> None)"

definition is_first_element_in_segment :: "nat \<Rightarrow> bool" where
  "is_first_element_in_segment x = (let w = (word_of_nat x :: 64 word) in and w (w - 2) = 0)"

record vector_iterator =
  it_index :: nat
  it_item :: "(nat \<times> nat) option"

definition iter_deref :: "'a cvector \<Rightarrow> vector_iterator \<Rightarrow> vector_iterator \<times> (nat \<times> nat) option" where
  "iter_deref v it =
     (case it_item it of Some a \<Rightarrow> (it, Some a)
      | None \<Rightarrow> (let a = vec_address v (it_index it) in (it\<lparr>it_item := a\<rparr>, a)))"

definition iter_next :: "vector_iterator \<Rightarrow> vector_iterator" where
  "iter_next it =
     (let i = it_index it + 1
      in \<lparr>it_index = i, it_item = (case it_item it of None \<Rightarrow> None
            | Some (b, p) \<Rightarrow> if is_first_element_in_segment i then None else Some (b, p + 1))\<rparr>)"

definition iter_prev :: "vector_iterator \<Rightarrow> vector_iterator" where
  "iter_prev it =
     (let i = it_index it
      in \<lparr>it_index = i - 1, it_item = (case it_item it of None \<Rightarrow> None
            | Some (b, p) \<Rightarrow> if is_first_element_in_segment i then None else Some (b, p - 1))\<rparr>)"

definition iter_add :: "vector_iterator \<Rightarrow> nat \<Rightarrow> vector_iterator" where
  "iter_add it offset = \<lparr>it_index = it_index it + offset, it_item = None\<rparr>"

definition iter_sub :: "vector_iterator \<Rightarrow> nat \<Rightarrow> vector_iterator" where
  "iter_sub it offset = \<lparr>it_index = it_index it - offset, it_item = None\<rparr>"

text \<open>The cached pointer is that of the element.\<close>

definition iter_ok :: "'a cvector \<Rightarrow> vector_iterator \<Rightarrow> bool" where
  "iter_ok v it \<longleftrightarrow> (case it_item it of None \<Rightarrow> True | Some a \<Rightarrow> vec_address v (it_index it) = Some a)"

lemma first_element_iff:
  assumes "0 < x" "x < 2 ^ 64"
  shows "is_first_element_in_segment x \<longleftrightarrow> (\<exists>k. 0 < k \<and> x = 2 ^ k)"
proof -
  define w where "w = (word_of_nat x :: 64 word)"
  have u: "unat w = x" using assms(2) by (simp add: w_def unat_of_nat)
  have bitw: "bit w i \<longleftrightarrow> bit x i" for i
    by (simp add: u [symmetric] bit_unat)
  show ?thesis
  proof (cases "x = 1")
    case True
    have "bit (and w (w - 2)) 0" using True by (simp add: w_def bit_0)
    then have "and w (w - 2) \<noteq> 0" by (metis bit_0_eq bot_apply bot_bool_def)
    moreover have "x \<noteq> 2 ^ k" if "0 < k" for k using True that by (metis one_less_numeral_iff one_less_power semiring_norm(76) nat_neq_iff)
    ultimately show ?thesis by (auto simp: is_first_element_in_segment_def w_def [symmetric] Let_def)
  next
    case False
    then have x2: "2 \<le> x" using assms(1) by simp
    then have u2: "unat (w - 2) = x - 2" using u by (subst unat_sub) (simp_all add: word_le_nat_alt)
    have bitw2: "bit (w - 2) i \<longleftrightarrow> bit (x - 2) i" for i by (simp add: u2 [symmetric] bit_unat)
    have len: "i < 64" if "bit x i" for i using that bit_imp_le_length [of w i] bitw [of i] by simp
    have z: "is_first_element_in_segment x \<longleftrightarrow> (\<forall>i. \<not> (bit x i \<and> bit (x - 2) i))"
      using len by (auto simp: is_first_element_in_segment_def w_def [symmetric] Let_def bit_eq_iff [of "and w (w - 2)"] bit_and_iff bitw bitw2)
    obtain k where k: "2 ^ k \<le> x" "x < 2 ^ Suc k" using ex_power_ivl1 [of 2 x] x2 by auto
    have k0: "0 < k" using k x2 by (cases k) auto
    have bk: "bit y k" if "2 ^ k \<le> y" "y < 2 ^ Suc k" for y :: nat
    proof -
      have "y div 2 ^ k = 1" using that by (intro div_nat_eqI) simp_all
      then show ?thesis by (simp add: bit_iff_odd)
    qed
    show ?thesis
    proof (cases "x = 2 ^ k")
      case True
      have "\<not> bit (x - 2) k"
      proof -
        have "(x - 2) div 2 ^ k = 0" using True x2 by (intro div_less) simp
        then show ?thesis by (simp add: bit_iff_odd)
      qed
      moreover have "bit x i \<longleftrightarrow> i = k" for i using True by (simp add: bit_exp_iff)
      ultimately show ?thesis using True k0 z by auto
    next
      case False
      have "bit x i \<and> bit (x - 2) i" if "i = (if even x then k else 0)" for i
      proof (cases "even x")
        case True
        moreover have "even ((2::nat) ^ k)" using k0 by simp
        ultimately have "2 ^ k + 2 \<le> x" using False k(1) by presburger
        then show ?thesis using bk [OF k] bk [of "x - 2"] k that True by simp
      next
        case False
        then show ?thesis using that x2 by (simp add: bit_0)
      qed
      then have "\<not> is_first_element_in_segment x" using z by blast
      moreover have "x \<noteq> 2 ^ j" for j
      proof
        assume "x = 2 ^ j"
        then have "k < Suc j" "j < Suc k" "j \<noteq> k"
          using k False power_less_imp_less_exp [of "2::nat" k "Suc j"] power_less_imp_less_exp [of "2::nat" j "Suc k"] by auto
        then show False by simp
      qed
      ultimately show ?thesis by blast
    qed
  qed
qed


lemma same_segment:
  assumes "0 < x" "x < 2 ^ 64" "\<not> is_first_element_in_segment x"
  shows "vseg_index x = vseg_index (x - 1)" "vseg_base (vseg_index x) \<le> x - 1"
proof -
  define k where "k = vseg_index x"
  have k: "vseg_base k \<le> x" "x < vseg_base (Suc k)" using vseg_index_bounds [OF assms(2)] by (simp_all add: k_def)
  have "x \<noteq> vseg_base k"
  proof
    assume "x = vseg_base k"
    then have "0 < k" "x = 2 ^ k" using assms(1) by (auto simp: vseg_base_eq split: if_splits)
    then show False using assms(3) first_element_iff [OF assms(1,2)] by blast
  qed
  then have b: "vseg_base k \<le> x - 1" using k(1) by simp
  moreover have "vseg_index (x - 1) = k"
    by (subst vseg_index_iff) (use k(2) b assms(2) vseg_index_less [OF assms(2)] in \<open>auto simp: k_def\<close>)
  ultimately show "vseg_index x = vseg_index (x - 1)" "vseg_base (vseg_index x) \<le> x - 1" by (simp_all add: k_def)
qed

lemma iter_next_ok:
  assumes "iter_ok v it" "it_index it + 1 < 2 ^ 64"
  shows "iter_ok v (iter_next it)"
proof (cases "it_item it = None \<or> is_first_element_in_segment (it_index it + 1)")
  case False
  then have "it_item it \<noteq> None" "\<not> is_first_element_in_segment (Suc (it_index it))" by auto
  then show ?thesis
    using assms same_segment [of "it_index it + 1"]
    by (auto simp: iter_ok_def iter_next_def Let_def vec_address_def split: option.splits vec_segment.splits)
qed (auto simp: iter_ok_def iter_next_def Let_def split: option.splits)

lemma iter_prev_ok:
  assumes "iter_ok v it" "0 < it_index it" "it_index it < 2 ^ 64"
  shows "iter_ok v (iter_prev it)"
proof (cases "it_item it = None \<or> is_first_element_in_segment (it_index it)")
  case False
  then show ?thesis
    using assms same_segment [of "it_index it"]
    by (auto simp: iter_ok_def iter_prev_def Let_def vec_address_def split: option.splits vec_segment.splits)
qed (auto simp: iter_ok_def iter_prev_def Let_def split: option.splits)

lemma iter_stays:
  assumes "stays v v'"
  shows "vec_address v x = Some a \<Longrightarrow> vec_address v' x = Some a" "iter_ok v it \<Longrightarrow> iter_ok v' it"
proof -
  show s: "vec_address v x = Some a \<Longrightarrow> vec_address v' x = Some a" for x a
    using assms by (fastforce simp: vec_address_def stays_def seg_at_def Let_def split: option.splits vec_segment.splits if_splits)
  show "iter_ok v it \<Longrightarrow> iter_ok v' it" using s by (auto simp: iter_ok_def split: option.splits)
qed

lemma iter_deref_ok:
  assumes "iter_ok v it"
  shows "snd (iter_deref v it) = vec_address v (it_index it)" "iter_ok v (fst (iter_deref v it))"
    "it_index (fst (iter_deref v it)) = it_index it"
  using assms by (auto simp: iter_ok_def iter_deref_def Let_def split: option.splits)

text \<open>Distinct elements of a good vector lie at distinct addresses, inside their blocks.\<close>

lemma address_ok:
  assumes l: "layout loc n v" and x: "x < vseg_base n"
  shows "vec_address v x = Some (loc (home (my_first_block v) x), x - vseg_base (home (my_first_block v) x))"
    "loc (home (my_first_block v) x) < length (my_blocks v)"
    "x - vseg_base (home (my_first_block v) x) < length (my_blocks v ! loc (home (my_first_block v) x))"
proof -
  obtain b p where s: "my_segments v ! vseg_index x = Seg b p" "b = loc (home (my_first_block v) x)"
    "vseg_base (home (my_first_block v) x) \<le> x"
    "p + (x - vseg_base (vseg_index x)) = x - vseg_base (home (my_first_block v) x)"
    using table_cell(2) [OF l x refl] by blast
  have k: "vseg_index x < length (my_segments v)" using table_cell(1) [OF l x refl] layoutD(2) [OF l] by linarith
  show "vec_address v x = Some (loc (home (my_first_block v) x), x - vseg_base (home (my_first_block v) x))"
    using s k by (simp add: vec_address_def seg_at_def Let_def)
  have n: "n \<noteq> 0" "n \<le> 64" using x layout_le64 [OF l] by (simp_all add: vseg_base_eq split: if_splits)
  then have fb: "my_first_block v \<noteq> 0" using layoutD(4) [OF l] by simp
  have "x < room (my_first_block v) n" using x room_ge [of n "my_first_block v"] by linarith
  note rh = room_home [OF this fb n(2) layoutD(3) [OF l]]
  show "loc (home (my_first_block v) x) < length (my_blocks v)" by (rule layoutD(8) [OF l rh(1)])
  have "x < vseg_base (home (my_first_block v) x) + helper_sz (my_first_block v) (home (my_first_block v) x)"
    using home_iff [OF rh(2) fb, of "home (my_first_block v) x"] homes_64 [OF rh(1) n(2)] by simp
  then show "x - vseg_base (home (my_first_block v) x) < length (my_blocks v ! loc (home (my_first_block v) x))"
    using layoutD(9) [OF l rh(1)] s(3) by linarith
qed

lemma address_inj:
  assumes l: "layout loc n v" and x: "x < vseg_base n" "y < vseg_base n" "vec_address v x = vec_address v y"
  shows "x = y"
proof -
  let ?h = "home (my_first_block v)"
  have n: "n \<noteq> 0" "n \<le> 64" using x(1) layout_le64 [OF l] by (simp_all add: vseg_base_eq split: if_splits)
  then have fb: "my_first_block v \<noteq> 0" using layoutD(4) [OF l] by simp
  have "x < room (my_first_block v) n" "y < room (my_first_block v) n" using x room_ge [of n "my_first_block v"] by linarith+
  then have h: "?h x \<in> homes (my_first_block v) n" "?h y \<in> homes (my_first_block v) n"
    using room_home(1) fb n(2) layoutD(3) [OF l] by blast+
  have eq: "loc (?h x) = loc (?h y)" "x - vseg_base (?h x) = y - vseg_base (?h y)"
    using address_ok(1) [OF l x(1)] address_ok(1) [OF l x(2)] x(3) by simp_all
  have "?h x = ?h y" by (rule inj_onD [OF layoutD(7) [OF l] eq(1) h])
  moreover have "vseg_base (?h x) \<le> x" "vseg_base (?h y) \<le> y"
    using table_cell(2) [OF l x(1) refl] table_cell(2) [OF l x(2) refl] by auto
  ultimately show ?thesis using eq(2) by simp
qed

section \<open>Failed growth\<close>


text \<open>\<open>j\<close> further calls of \<^verbatim>\<open>push_back\<close>.\<close>

definition pushes :: "vec_alloc \<Rightarrow> 'a option \<Rightarrow> nat \<Rightarrow> 'a cvector \<Rightarrow> 'a cvector" where
  "pushes A t j v = ((\<lambda>u. fst (fst (vec_push_back A u t))) ^^ j) v"

lemma pushes_simps [simp]: "pushes A t 0 v = v" "pushes A t (Suc j) v = fst (fst (vec_push_back A (pushes A t j v) t))"
  by (simp_all add: pushes_def)

text \<open>The vector that the failed call leaves behind.\<close>

definition failed_segment :: "'a cvector \<Rightarrow> nat \<Rightarrow> nat \<Rightarrow> 'a cvector \<Rightarrow> bool" where
  "failed_segment v n m w \<longleftrightarrow> my_segments w = (my_segments v)[n := Alloc_failed] \<and> my_blocks w = my_blocks v \<and>
     my_early_size w = m \<and> my_first_block w = (if my_first_block v = 0 then 1 else my_first_block v)"

lemma failed_segmentD:
  assumes "failed_segment v n m w"
  shows "my_segments w = (my_segments v)[n := Alloc_failed]" "my_blocks w = my_blocks v" "my_early_size w = m"
    "my_first_block w = (if my_first_block v = 0 then 1 else my_first_block v)" "is_short w = is_short v"
  using assms by (simp_all add: failed_segment_def is_short_def)

lemma push_back_no_memory:
  assumes v: "vec_ok loc n v xs" and full: "length xs = vseg_base n" and room: "n < length (my_segments v)"
    and fb: "my_first_block v \<le> n \<or> n = 0" and A: "\<not> block_ok A (length (my_blocks v))"
  obtains w where "vec_push_back A v item = ((w, Some Bad_alloc), length xs)" "failed_segment v n (length xs + 1) w"
proof -
  note d = vec_okD [OF v]
  note ld = layoutD [OF d(1)]
  have n64: "n < 64" using room layout_le64 [OF d(1)] by linarith
  have lt: "length xs < 2 ^ 64" using full n64 vseg_base_64 [of "Suc n"] vseg_base_less [of n] by (auto simp: vseg_base_eq)
  have kn: "vseg_index (length xs) = n"
    using vseg_index_iff [OF lt n64] full by (cases "n = 0"; simp add: vseg_base_eq)
  have ns: "\<not> (pointers_per_short_table \<le> n \<and> is_short v)" using room by (simp add: is_short_def)
  define v1 where "v1 = (if n = 0 then assign_first_segment_if_necessary (v\<lparr>my_early_size := length xs + 1\<rparr>) 0
    else v\<lparr>my_early_size := length xs + 1\<rparr>)"
  define w where "w = publish_segment v1 n Alloc_failed"
  have fb0: "n \<noteq> 0 \<Longrightarrow> my_first_block v \<noteq> 0" using ld(4) by simp
  have v1: "my_segments v1 = my_segments v" "my_blocks v1 = my_blocks v" "my_early_size v1 = length xs + 1"
    "my_first_block v1 = (if my_first_block v = 0 then 1 else my_first_block v)"
    using fb0 by (simp_all add: v1_def assign_first_segment_if_necessary_def)
  have w: "failed_segment v n (length xs + 1) w"
    using v1 by (simp add: w_def publish_segment_def failed_segment_def)
  have nu: "my_segments v ! n = Not_used" by (rule ld(6) [OF order_refl room])
  have en: "enable_segment A (v\<lparr>my_early_size := length xs + 1\<rparr>) n False = (w, Some Bad_alloc)"
    using A fb fb0 by (cases "n = 0") (auto simp: enable_segment_def allocate_and_publish_def w_def v1_def assign_first_segment_if_necessary_def Let_def)
  have "internal_push_back A v = ((w, Some Bad_alloc), length xs)"
    unfolding internal_push_back_def Let_def d(2) kn using en nu full ns
    by (auto simp: extend_table_if_necessary_def acquire_segment_def is_short_def)
  then have "vec_push_back A v item = ((w, Some Bad_alloc), length xs)" by (simp add: vec_push_back_def)
  then show ?thesis using that w by blast
qed





text \<open>The failed allocation of the long table leaves no mark: the next thread waits for a segment nobody will allocate.\<close>

lemma push_back_no_table:
  assumes v: "vec_ok loc n v xs" and len: "length xs = vseg_base pointers_per_short_table" and short: "is_short v"
    and A: "\<not> table_ok A"
  obtains w where "vec_push_back A v item = ((w, Some Bad_alloc), length xs)" "w = v\<lparr>my_early_size := length xs + 1\<rparr>"
    "\<And>B t. table_ok B \<Longrightarrow> snd (fst (vec_push_back B w t)) = Some Spins"
proof -
  note d = vec_okD [OF v]
  note ld = layoutD [OF d(1)]
  have l8: "length xs = 8" and l3: "length (my_segments v) = 3" using len short by (simp_all add: pointers_defs is_short_def vseg_base_eq)
  have n: "n = 3" using ld(2) d(3) l8 l3 vseg_base_mono [of n 2] by (cases "n = 3") (auto simp: vseg_base_eq)
  have i8: "vseg_index 8 = 3" and i9: "vseg_index 9 = 3"
    using vseg_index_iff [of 8 3] vseg_index_iff [of 9 3] by (simp_all add: vseg_base_eq)
  have full: "my_segments v ! i \<noteq> Not_used" if "i < 3" for i using good_segments [OF d(1), of i] that n by auto
  define w where "w = v\<lparr>my_early_size := length xs + 1\<rparr>"
  have tab: "extend_table_if_necessary B (v\<lparr>my_early_size := m\<rparr>) 3 j =
      (if table_ok B then (v\<lparr>my_early_size := m, my_segments := my_segments v @ replicate 61 Not_used\<rparr>, None)
       else (v\<lparr>my_early_size := m\<rparr>, Some Bad_alloc))" for B m j
    using full l3 by (auto simp: extend_table_if_necessary_def extend_segment_table_def is_short_def pointers_defs list_ex_iff Let_def)
  have "internal_push_back A v = ((w, Some Bad_alloc), 8)"
    using A tab [of A 9 8] by (simp add: internal_push_back_def Let_def d(2) l8 i8 w_def)
  then have push: "vec_push_back A v item = ((w, Some Bad_alloc), length xs)" by (simp add: vec_push_back_def l8)
  have "snd (fst (vec_push_back B w t)) = Some Spins" if "table_ok B" for B t
  proof -
    have "internal_push_back B w = ((v\<lparr>my_early_size := 10, my_segments := my_segments v @ replicate 61 Not_used\<rparr>, Some Spins), 9)"
      using that tab [of B 10 9] l3
      by (simp add: internal_push_back_def Let_def l8 i9 w_def acquire_segment_def vseg_base_eq nth_append)
    then show ?thesis by (simp add: vec_push_back_def)
  qed
  then show ?thesis using that push by (simp add: w_def)
qed


section \<open>Whole vectors\<close>

definition vec_front :: "'a cvector \<Rightarrow> 'a cell" where
  "vec_front v = (case my_segments v ! 0 of Seg b p \<Rightarrow> my_blocks v ! b ! p | _ \<Rightarrow> Raw)"

definition vec_back :: "'a cvector \<Rightarrow> 'a cell" where
  "vec_back v = internal_subscript v (vec_size v - 1)"

definition vec_equal :: "('a \<Rightarrow> 'a \<Rightarrow> bool) \<Rightarrow> 'a cvector \<Rightarrow> 'a cvector \<Rightarrow> bool" where
  "vec_equal eq a b \<longleftrightarrow> (if vec_size a \<noteq> vec_size b then False
     else list_all (\<lambda>i. case (internal_subscript a i, internal_subscript b i) of (Obj x, Obj y) \<Rightarrow> eq x y | _ \<Rightarrow> False) [0..<vec_size a])"

lemma vec_equal_ok:
  assumes "vec_ok la na a xs" "vec_ok lb nb b ys"
  shows "vec_equal (=) a b \<longleftrightarrow> xs = ys"
proof -
  have s: "vec_size a = length xs" "vec_size b = length ys" using vec_size_ok assms by blast+
  show ?thesis
  proof (cases "length xs = length ys")
    case True
    then have "vec_equal (=) a b \<longleftrightarrow> (\<forall>i<length xs. xs ! i = ys ! i)"
      using s subscript_ok(1) [OF assms(1)] subscript_ok(1) [OF assms(2)] by (auto simp: vec_equal_def list_all_iff)
    then show ?thesis using True by (auto simp: list_eq_iff_nth_eq)
  qed (use s in \<open>auto simp: vec_equal_def\<close>)
qed

section \<open>Reachable vectors\<close>

lemma reached_good:
  assumes "all_ok A" "\<forall>x. cp x = Some x" "ops_fit es ops []" "never_full ops []"
  shows "good (fold list_op ops []) (vec_run A es cp ops cvector_new)"
  by (rule vec_run_ok [OF assms(1) _ vec_ok_new [of "\<lambda>_. 0"] assms(3,4)]) (use assms(2) in simp)

lemma reached_ends:
  assumes "all_ok A" "\<forall>x. cp x = Some x" "ops_fit es ops []"
  shows "good (fold list_op ops []) (vec_run A es cp ops cvector_new) \<or>
    snd (vec_run A es cp ops cvector_new) = Some Undefined \<and> stops_at_full A es cp ops cvector_new \<and> \<not> never_full ops []"
  by (rule vec_run_ends [OF assms(1) _ vec_ok_new [of "\<lambda>_. 0"] assms(3)]) (use assms(2) in simp)

lemma reached_ok:
  assumes "all_ok A" "\<forall>x. cp x = Some x" "ops_fit es ops []" "vec_run A es cp ops cvector_new = (v, None)"
  obtains loc n where "vec_ok loc n v (fold list_op ops [])"
  using reached_ends [OF assms(1-3)] assms(4) by (auto simp: good_def)

definition vA :: vec_alloc where
  "vA = \<lparr>block_ok = \<lambda>_. True, table_ok = True\<rparr>"

lemma vA_ok: "all_ok vA"
  by (simp add: vA_def all_ok_def)

text \<open>C9: Operations run on a new vector one after the other, with sizes up to \<^verbatim>\<open>max_size()\<close>; no allocation and no constructor throws. Then
  either none of them fails and the vector holds the list that the operations build: \<^verbatim>\<open>size()\<close> is its length, \<^verbatim>\<open>at\<close> returns its elements
  and throws out_of_range past its end. Or the run comes to a \<^verbatim>\<open>resize(8)\<close> of a vector of 8 elements whose segment table is still the short
  one: that call reads behind the table.\<close>

theorem concurrent_vector_refines_list:
  assumes "all_ok A" "\<forall>x. cp x = Some x" "ops_fit es ops []"
  shows "\<exists>v e. vec_run A es cp ops cvector_new = (v, e) \<and>
    (e = None \<and> vec_size v = length (fold list_op ops []) \<and>
       (\<forall>x. internal_subscript_with_exceptions v x =
          (if x < length (fold list_op ops []) then Inr (Obj (fold list_op ops [] ! x)) else Inl Out_of_range_error)) \<or>
     e = Some Undefined \<and> stops_at_full A es cp ops cvector_new)"
proof (cases "good (fold list_op ops []) (vec_run A es cp ops cvector_new)")
  case True
  then show ?thesis using vec_size_ok subscript_ok(2) unfolding good_def by metis
next
  case False
  then show ?thesis using reached_ends [OF assms] by (metis prod.collapse)
qed

definition some_ops :: "nat vec_op list" where
  "some_ops = [Push_back 1, Grow_by 3 7, Reserve 20, Resize 2 0, Grow_range [4, 5, 6], Shrink_to_fit]"

lemma some_ops_list: "fold list_op some_ops [] = [1, 7, 4, 5, 6]"
  by code_simp

lemma some_ops_fit: "ops_fit 8 some_ops []"
  by (simp add: some_ops_def vec_max_size_def)

lemma some_ops_full: "never_full some_ops []"
  by code_simp

lemma not_full_ops: "never_full ops xs \<Longrightarrow> stops_at_full A es cp ops v \<Longrightarrow> \<exists>t. Resize (vseg_base pointers_per_short_table) t \<in> set ops"
  by (auto simp: stops_at_full_def)

theorem concurrent_vector_refines_list_witness:
  "\<exists>v. vec_run vA 8 Some some_ops cvector_new = (v, None) \<and> vec_size v = length [1, 7, 4, 5, 6::nat] \<and>
    (\<forall>x. internal_subscript_with_exceptions v x =
      (if x < length [1, 7, 4, 5, 6::nat] then Inr (Obj ([1, 7, 4, 5, 6] ! x)) else Inl Out_of_range_error))"
proof -
  have "\<not> stops_at_full vA 8 Some some_ops cvector_new"
    using not_full_ops [OF some_ops_full] by (fastforce simp: some_ops_def vseg_base_eq pointers_defs)
  then show ?thesis using concurrent_vector_refines_list [OF vA_ok _ some_ops_fit, of Some, unfolded some_ops_list] by auto
qed

lemma apply_stays:
  assumes v: "vec_ok loc n v xs" and A: "all_ok A" and cp: "\<And>x. cp x = Some x" and fits: "op_fits es op xs"
    and op: "op \<noteq> Shrink_to_fit" and np: "\<not> past_table op xs v"
  shows "stays v (fst (vec_apply A es cp op v))"
proof -
  have init: "init_ok (\<lambda>i. cp (f i)) i j" for f i j using cp by (simp add: init_ok_def)
  have g: "stays v (fst r)" if "grown v ys r" for ys r using that by (auto simp: grown_def)
  note ms = max_size_less [of _ es]
  obtain v1 where c: "internal_clear v = (v1, None)" "vec_ok loc n v1 []" "stays v v1" using internal_clear_ok [OF v] by blast
  have g1: "stays v (fst r)" if "grown v1 ys r" for ys r using that stays_trans [OF c(3)] by (auto simp: grown_def)
  show ?thesis
  proof (cases op)
    case (Push_back t)
    then show ?thesis using g [OF push_back_ok(1) [OF v _ A, of t]] fits cp by (simp add: vec_apply_def)
  next
    case (Grow_by m t)
    then show ?thesis using g [OF grow_by_ok(1) [OF v _ A init [of "\<lambda>_. t"], of m]] fits by (simp add: vec_apply_def)
  next
    case (Grow_range ts)
    then show ?thesis using g [OF grow_by_ok(1) [OF v _ A init [of "\<lambda>i. ts ! (i - my_early_size v)"], of "length ts"]] fits
      by (simp add: vec_apply_def)
  next
    case (Grow_to_at_least m t)
    then show ?thesis using g [OF grow_to_at_least_ok(1) [OF v _ A init [of "\<lambda>_. t"], of m]] fits by (simp add: vec_apply_def)
  next
    case (Reserve m)
    then show ?thesis using reserve_ok [OF v _ _ A, of m "vec_max_size es"] ms [of m] fits by (auto simp: vec_apply_def)
  next
    case (Resize m t)
    then show ?thesis
      using g [OF internal_resize_ok [OF v _ _ A init [of "\<lambda>_. t"] resize_segment [OF v np [unfolded Resize]]], of "vec_max_size es"] ms [of m] fits Resize
      by (auto simp: vec_apply_def)
  next
    case (Assign_n m t)
    have np1: "\<not> past_table (Resize m t) [] v1" by (auto simp: past_table_def vseg_base_eq pointers_defs)
    then show ?thesis
      using g1 [OF internal_resize_ok [OF c(2) _ _ A init [of "\<lambda>_. t"] resize_segment [OF c(2) np1]], of "vec_max_size es"] ms [of m] fits Assign_n c(1)
      by (auto simp: vec_apply_def assign_n_def)
  next
    case (Assign_range ts)
    then show ?thesis
      using g1 [OF assign_iterators_ok [OF c(2) _ _ A init [of "\<lambda>i. ts ! i"]], of "length ts" "vec_max_size es"] ms [of "length ts"] fits c(1)
      by (simp add: vec_apply_def)
  next
    case Clear
    then show ?thesis using c by (simp add: vec_apply_def)
  qed (use op in simp)
qed

lemma run_stays:
  assumes A: "all_ok A" and cp: "\<And>x. cp x = Some x"
  shows "vec_ok loc n v xs \<Longrightarrow> ops_fit es ops xs \<Longrightarrow> never_full ops xs \<Longrightarrow> Shrink_to_fit \<notin> set ops \<Longrightarrow> stays v (fst (vec_run A es cp ops v))"
proof (induction ops arbitrary: loc n v xs)
  case Nil
  then show ?case by (simp add: stays_refl)
next
  case (Cons op ops)
  have fits: "op_fits es op xs" "op \<noteq> Shrink_to_fit" "\<not> past_table op xs v"
    using Cons.prems(2,3,4) past_table_full by auto
  obtain loc' n' v' where r: "vec_apply A es cp op v = (v', None)" "vec_ok loc' n' v' (list_op op xs)"
    using vec_apply_ok [OF Cons.prems(1) A cp fits(1,3)] by (auto simp: good_def)
  have "stays v v'" using apply_stays [OF Cons.prems(1) A cp fits] r(1) by simp
  moreover have "stays v' (fst (vec_run A es cp ops v'))" using Cons.IH [OF r(2)] Cons.prems(2-4) by simp
  ultimately show ?case using r(1) stays_trans by simp
qed

text \<open>Moving an iterator; the index has to stay inside the address space.\<close>

datatype iter_move = Go_next | Go_prev | Go_add nat | Go_sub nat | Look

primrec iter_step :: "'a cvector \<Rightarrow> iter_move \<Rightarrow> vector_iterator \<Rightarrow> vector_iterator" where
  "iter_step v Go_next it = iter_next it"
| "iter_step v Go_prev it = iter_prev it"
| "iter_step v (Go_add k) it = iter_add it k"
| "iter_step v (Go_sub k) it = iter_sub it k"
| "iter_step v Look it = fst (iter_deref v it)"

primrec step_in_range :: "iter_move \<Rightarrow> nat \<Rightarrow> bool" where
  "step_in_range Go_next i \<longleftrightarrow> i + 1 < 2 ^ 64"
| "step_in_range Go_prev i \<longleftrightarrow> 0 < i \<and> i < 2 ^ 64"
| "step_in_range (Go_add k) i \<longleftrightarrow> True"
| "step_in_range (Go_sub k) i \<longleftrightarrow> True"
| "step_in_range Look i \<longleftrightarrow> True"

primrec iter_walk :: "'a cvector \<Rightarrow> iter_move list \<Rightarrow> vector_iterator \<Rightarrow> vector_iterator option" where
  "iter_walk v [] it = Some it"
| "iter_walk v (m # ms) it = (if step_in_range m (it_index it) then iter_walk v ms (iter_step v m it) else None)"

lemma iter_step_ok: "iter_ok v it \<Longrightarrow> step_in_range m (it_index it) \<Longrightarrow> iter_ok v (iter_step v m it)"
  using iter_next_ok iter_prev_ok iter_deref_ok(2) by (cases m) (auto simp: iter_add_def iter_sub_def iter_ok_def [of v "\<lparr>it_index = _, it_item = None\<rparr>"])

lemma iter_walk_ok: "iter_ok v it \<Longrightarrow> iter_walk v ms it = Some it' \<Longrightarrow> snd (iter_deref v it') = vec_address v (it_index it')"
proof (induction ms arbitrary: it)
  case Nil
  then show ?case using iter_deref_ok(1) by auto
next
  case (Cons m ms)
  then show ?case using iter_step_ok [OF Cons.prems(1), of m] by (auto split: if_splits)
qed

text \<open>C22: No operation but \<^verbatim>\<open>shrink_to_fit\<close> moves an element (\<^verbatim>\<open>resize(8)\<close> of 8 elements set aside): its address stays the same, and an iterator obtained before, however it is
  moved afterwards, still leads to the element at its index.\<close>

theorem concurrent_vector_never_moves:
  assumes "all_ok A" "\<forall>x. cp x = Some x" "ops_fit es ops []" "vec_run A es cp ops cvector_new = (v, None)"
    and "ops_fit es later (fold list_op ops [])" "never_full later (fold list_op ops [])" "Shrink_to_fit \<notin> set later"
  shows "\<exists>w. vec_run A es cp later v = (w, None) \<and> (\<forall>x a. vec_address v x = Some a \<longrightarrow> vec_address w x = Some a) \<and>
    (\<forall>it it' ms. iter_ok v it \<longrightarrow> iter_walk w ms it = Some it' \<longrightarrow> snd (iter_deref w it') = vec_address w (it_index it'))"
proof -
  have cp: "\<And>x. cp x = Some x" using assms(2) by simp
  obtain loc n where v: "vec_ok loc n v (fold list_op ops [])" using reached_ok [OF assms(1-4)] .
  obtain w where w: "vec_run A es cp later v = (w, None)" using vec_run_ok [OF assms(1) cp v assms(5,6)] by (auto simp: good_def)
  then have "stays v w" using run_stays [OF assms(1) cp v assms(5-7)] by simp
  then show ?thesis using w iter_stays iter_walk_ok by blast
qed

definition some_vec :: "nat cvector" where
  "some_vec = fst (vec_run vA 8 Some some_ops cvector_new)"

lemma some_run: "vec_run vA 8 Some some_ops cvector_new = (some_vec, None)"
  using reached_good [OF vA_ok _ some_ops_fit some_ops_full, of Some] by (auto simp: some_vec_def good_def)

definition two_pushed :: "nat cvector" where
  "two_pushed = fst (vec_run vA 8 Some [Push_back 1, Push_back 2] cvector_new)"

lemma two_run: "vec_run vA 8 Some [Push_back 1, Push_back 2] cvector_new = (two_pushed, None)"
  using reached_good [OF vA_ok, of Some 8 "[Push_back 1, Push_back (2::nat)]"] by (auto simp: two_pushed_def good_def)

lemma two_pushed_eq: "two_pushed = \<lparr>my_first_block = 1, my_early_size = 2, my_segments = [Seg 0 0, Not_used, Not_used], my_blocks = [[Obj 1, Obj 2]]\<rparr>"
  by code_simp

lemma two_facts: "ops_fit 8 [Push_back 1, Push_back (2::nat)] []" "find_segment_end two_pushed = 1" "length (my_segments two_pushed) = 3"
  "my_first_block two_pushed = 1" "internal_capacity two_pushed = 2" "vec_size two_pushed = 2" "vseg_base 2 = 4"
  by (simp_all add: two_pushed_eq find_segment_end_def internal_capacity_def vec_size_def vseg_base_eq [of 2])

lemma eight_facts: "ops_fit 8 [Grow_by 8 (1::nat)] []" "length (fold list_op [Grow_by 8 (1::nat)] []) = vseg_base pointers_per_short_table"
  by (simp_all add: vseg_base_eq pointers_defs)

definition no_blocks :: vec_alloc where
  "no_blocks = \<lparr>block_ok = \<lambda>_. False, table_ok = True\<rparr>"

definition no_table :: vec_alloc where
  "no_table = \<lparr>block_ok = \<lambda>_. True, table_ok = False\<rparr>"

definition eight_pushed :: "nat cvector" where
  "eight_pushed = fst (vec_run vA 8 Some [Grow_by 8 1] cvector_new)"

lemma eight_run: "vec_run vA 8 Some [Grow_by 8 1] cvector_new = (eight_pushed, None)"
  using reached_good [OF vA_ok, of Some 8 "[Grow_by 8 (1::nat)]"] by (auto simp: eight_pushed_def good_def)

lemma eight_short: "is_short eight_pushed"
  by code_simp

theorem concurrent_vector_never_moves_witness:
  "\<exists>w. vec_run vA 8 Some [Push_back 9, Resize 1 0] some_vec = (w, None) \<and> vec_address w 1 = vec_address some_vec 1"
proof -
  have "ops_fit 8 [Push_back 9, Resize 1 0] (fold list_op some_ops [])" by (simp add: some_ops_list vec_max_size_def)
  moreover have "never_full [Push_back 9, Resize 1 0] (fold list_op some_ops [])" by (simp add: vseg_base_eq pointers_defs)
  ultimately obtain w where w: "vec_run vA 8 Some [Push_back 9, Resize 1 0] some_vec = (w, None)"
    "\<forall>x a. vec_address some_vec x = Some a \<longrightarrow> vec_address w x = Some a"
    using concurrent_vector_never_moves [OF vA_ok _ some_ops_fit some_run, of "[Push_back 9, Resize 1 0]"] by auto
  obtain loc n where "vec_ok loc n some_vec [1, 7, 4, 5, 6]"
    using reached_ok [OF vA_ok _ some_ops_fit some_run] unfolding some_ops_list by auto
  then have "vec_address some_vec 1 = Some (loc (home (my_first_block some_vec) 1), 1 - vseg_base (home (my_first_block some_vec) 1))"
    using address_ok(1) vec_okD(1,3) by fastforce
  then show ?thesis using w by auto
qed

text \<open>C25: In every vector that a sequence of operations reaches, all indices below the capacity have an address, inside an allocated
  block; different indices have different addresses; and every block in use is the target of a segment, so none is lost.\<close>

theorem concurrent_vector_well_formed:
  assumes "all_ok A" "\<forall>x. cp x = Some x" "ops_fit es ops []" "vec_run A es cp ops cvector_new = (v, None)"
  shows "(\<forall>x<internal_capacity v. \<exists>b p. vec_address v x = Some (b, p) \<and> b < length (my_blocks v) \<and> p < length (my_blocks v ! b)) \<and>
    inj_on (vec_address v) {..<internal_capacity v} \<and>
    (\<forall>b<length (my_blocks v). my_blocks v ! b \<noteq> [] \<longrightarrow> Seg b 0 \<in> set (my_segments v))"
proof -
  obtain loc n where v: "vec_ok loc n v (fold list_op ops [])" using reached_ok [OF assms] .
  note l = vec_okD(1) [OF v]
  have cap: "internal_capacity v = vseg_base n" using vec_size_ok [OF v] by simp
  have "Seg b 0 \<in> set (my_segments v)" if b: "b < length (my_blocks v)" "my_blocks v ! b \<noteq> []" for b
  proof -
    obtain h where h: "h \<in> homes (my_first_block v) n" "b = loc h" using layoutD(10) [OF l b] by auto
    have "seg_at v h = Some (Seg b 0)" using home_seg [OF l h(1)] h(2) by simp
    then show ?thesis by (auto simp: seg_at_def in_set_conv_nth split: if_splits)
  qed
  then show ?thesis using address_ok [OF l] address_inj [OF l] unfolding cap by (auto simp: inj_on_def)
qed

theorem concurrent_vector_well_formed_witness:
  "inj_on (vec_address some_vec) {..<internal_capacity some_vec}"
  using concurrent_vector_well_formed [OF vA_ok _ some_ops_fit some_run] by simp

text \<open>C26: \<^verbatim>\<open>shrink_to_fit\<close> keeps the elements. When it succeeds, the capacity is the least that holds them; when an allocation or
  the copy of an element throws, every element stays where it was.\<close>

theorem shrink_to_fit_keeps_elements:
  assumes "all_ok A" "\<forall>x. cp x = Some x" "ops_fit es ops []" "vec_run A es cp ops cvector_new = (v, None)"
    and "\<forall>x. copy x = None \<or> copy x = Some x" "shrink_to_fit B es copy v = (w, e)"
  shows "vec_size w = length (fold list_op ops []) \<and>
    (\<forall>x<length (fold list_op ops []). internal_subscript_with_exceptions w x = Inr (Obj (fold list_op ops [] ! x))) \<and>
    (e = None \<longrightarrow> (\<forall>k. length (fold list_op ops []) \<le> vseg_base k \<longrightarrow> internal_capacity w \<le> vseg_base k)) \<and>
    (e \<noteq> None \<longrightarrow> (\<forall>x. vec_address w x = vec_address v x))"
proof -
  let ?xs = "fold list_op ops []"
  obtain loc n where v: "vec_ok loc n v ?xs" using reached_ok [OF assms(1-4)] .
  have "faithful copy" using assms(5) by (auto simp: faithful_def)
  from shrink_ok [OF v this, of B es] obtain l k where r: "vec_ok l k w ?xs"
    "e = None \<and> k = k_stop ?xs \<or> e \<noteq> None \<and> my_segments w = my_segments v"
    unfolding assms(6) by (auto simp: shrunk_def)
  have cap: "internal_capacity w = vseg_base k" "vec_size w = length ?xs" using vec_size_ok [OF r(1)] by simp_all
  have least: "vseg_base (k_stop ?xs) \<le> vseg_base j" if "length ?xs \<le> vseg_base j" for j
  proof (cases "length ?xs = 0")
    case False
    then have lt: "length ?xs - 1 < 2 ^ 64" using vec_okD(6) [OF v] by linarith
    have "length ?xs - 1 < vseg_base j" using that False by linarith
    then have "vseg_index (length ?xs - 1) < j" using vseg_index_less_iff [OF lt] by simp
    then show ?thesis using False by (intro vseg_base_mono) (simp add: k_stop_def)
  qed (simp add: k_stop_def)
  have "\<forall>x. vec_address w x = vec_address v x" if "e \<noteq> None"
  proof -
    have "my_segments w = my_segments v" using r(2) that by blast
    then show ?thesis unfolding vec_address_def seg_at_def by (simp only: simp_thms)
  qed
  then show ?thesis using cap subscript_ok(2) [OF r(1)] r(2) least by auto
qed

theorem shrink_to_fit_keeps_elements_witness:
  "vec_size (fst (shrink_to_fit vA 8 (\<lambda>x. None) some_vec)) = 5"
  using shrink_to_fit_keeps_elements [OF vA_ok _ some_ops_fit some_run, of "\<lambda>x. None" vA] unfolding some_ops_list
  by (cases "shrink_to_fit vA 8 (\<lambda>x. None) some_vec") simp

text \<open>C27: The destructor frees every block of the vector exactly once, each with the size it was allocated with, and frees a long table:
  of a vector that operations without failure have built, and of such a vector after a \<^verbatim>\<open>push_back\<close> that could not allocate its segment. After a
  \<^verbatim>\<open>push_back\<close> that could not extend the segment table it does not: it reads behind the short table.\<close>

theorem concurrent_vector_destructor:
  assumes "all_ok A" "\<forall>x. cp x = Some x" "ops_fit es ops []" "vec_run A es cp ops cvector_new = (v, None)"
    and "vec_push_back B v item = ((u, e), i)"
  shows "(\<exists>w. destroy_vector v = (w, None) \<and> (\<forall>b<length (my_blocks w). my_blocks w ! b = []) \<and> is_short w \<and> set (my_segments w) \<subseteq> {Not_used}) \<and>
    (length (fold list_op ops []) = internal_capacity v \<and> find_segment_end v < length (my_segments v) \<and>
       my_first_block v \<le> find_segment_end v \<and> \<not> block_ok B (length (my_blocks v)) \<longrightarrow>
     e = Some Bad_alloc \<and>
     (\<exists>w. destroy_vector u = (w, None) \<and> (\<forall>b<length (my_blocks w). my_blocks w ! b = []) \<and> is_short w \<and> (\<forall>s\<in>set (my_segments w). \<not> allocated s))) \<and>
    (length (fold list_op ops []) = vseg_base pointers_per_short_table \<and> is_short v \<and> my_first_block v \<le> pointers_per_short_table \<and> \<not> table_ok B \<longrightarrow>
     e = Some Bad_alloc \<and> snd (destroy_vector u) = Some Undefined)"
proof (intro conjI impI)
  obtain loc n where v: "vec_ok loc n v (fold list_op ops [])" using reached_ok [OF assms(1-4)] .
  note d = vec_okD [OF v]
  have s: "internal_capacity v = vseg_base n" "find_segment_end v = n" using vec_size_ok [OF v] find_end_ok [OF d(1)] by simp_all
  show "\<exists>w. destroy_vector v = (w, None) \<and> (\<forall>b<length (my_blocks w). my_blocks w ! b = []) \<and> is_short w \<and> set (my_segments w) \<subseteq> {Not_used}"
    using destroy_vector_ok [OF v] by auto
  {
    assume a: "length (fold list_op ops []) = internal_capacity v \<and> find_segment_end v < length (my_segments v) \<and>
       my_first_block v \<le> find_segment_end v \<and> \<not> block_ok B (length (my_blocks v))"
    obtain w where w: "vec_push_back B v item = ((w, Some Bad_alloc), length (fold list_op ops []))"
      "failed_segment v n (length (fold list_op ops []) + 1) w"
      using push_back_no_memory [OF v _ _ _ , of B item] a s by auto
    note f = failed_segmentD [OF w(2)]
    have uw: "u = w" "e = Some Bad_alloc" using w(1) assms(5) by simp_all
    show "e = Some Bad_alloc" by (rule uw(2))
    have e: "my_early_size w \<le> vseg_base (Suc n)" using f(3) a s vseg_base_less [of n] by simp
    have fb: "n \<noteq> 0 \<Longrightarrow> my_first_block w = my_first_block v" "my_first_block w \<noteq> 0" "my_first_block w \<le> n \<or> n = 0"
      using f(4) layoutD(4) [OF d(1)] a s by auto
    have "n < length (my_segments v)" using a s by simp
    from destroy_failed_ok [OF d(1) this f(1,2) fb e]
    show "\<exists>w. destroy_vector u = (w, None) \<and> (\<forall>b<length (my_blocks w). my_blocks w ! b = []) \<and> is_short w \<and> (\<forall>s\<in>set (my_segments w). \<not> allocated s)"
      unfolding uw(1) .
  next
    assume a: "length (fold list_op ops []) = vseg_base pointers_per_short_table \<and> is_short v \<and> my_first_block v \<le> pointers_per_short_table \<and> \<not> table_ok B"
    obtain w where w: "vec_push_back B v item = ((w, Some Bad_alloc), length (fold list_op ops []))" "w = v\<lparr>my_early_size := length (fold list_op ops []) + 1\<rparr>"
      using push_back_no_table [OF v, of B item] a by auto
    have uw: "u = w" "e = Some Bad_alloc" using w(1) assms(5) by simp_all
    show "e = Some Bad_alloc" by (rule uw(2))
    have "n \<noteq> 0" using d(3) a by (cases n) (auto simp: vseg_base_eq pointers_defs)
    then show "snd (destroy_vector u) = Some Undefined"
      unfolding uw(1) w(2) using destructor_past_table a layoutD(4) [OF d(1)]
      by (intro destructor_past_table) (auto simp: is_short_def pointers_defs vseg_base_eq)
  }
qed

theorem concurrent_vector_destructor_witness:
  "(\<exists>w. destroy_vector some_vec = (w, None) \<and> set (my_segments w) \<subseteq> {Not_used}) \<and>
   (\<exists>u w. vec_push_back no_blocks two_pushed (Some 3) = ((u, Some Bad_alloc), 2) \<and> destroy_vector u = (w, None) \<and> is_short w) \<and>
   (\<exists>u. vec_push_back no_table eight_pushed (Some 3) = ((u, Some Bad_alloc), 8) \<and> snd (destroy_vector u) = Some Undefined)"
proof (intro conjI)
  obtain u e i where "vec_push_back vA some_vec (Some 3) = ((u, e), i)" by (metis prod.collapse)
  from concurrent_vector_destructor [OF vA_ok _ some_ops_fit some_run this]
  show "\<exists>w. destroy_vector some_vec = (w, None) \<and> set (my_segments w) \<subseteq> {Not_used}" by auto
next
  obtain u e i where u: "vec_push_back no_blocks two_pushed (Some 3) = ((u, e), i)" by (metis prod.collapse)
  moreover have "i = 2" using u by (simp add: vec_push_back_def internal_push_back_def Let_def two_pushed_eq)
  ultimately show "\<exists>u w. vec_push_back no_blocks two_pushed (Some 3) = ((u, Some Bad_alloc), 2) \<and> destroy_vector u = (w, None) \<and> is_short w"
    using concurrent_vector_destructor [OF vA_ok _ two_facts(1) two_run u] by (auto simp: two_facts no_blocks_def)
next
  obtain u e i where u: "vec_push_back no_table eight_pushed (Some 3) = ((u, e), i)" by (metis prod.collapse)
  have e: "my_early_size eight_pushed = 8" "my_first_block eight_pushed \<le> pointers_per_short_table" by code_simp+
  then have "i = 8" using u by (simp add: vec_push_back_def internal_push_back_def Let_def)
  then show "\<exists>u. vec_push_back no_table eight_pushed (Some 3) = ((u, Some Bad_alloc), 8) \<and> snd (destroy_vector u) = Some Undefined"
    using concurrent_vector_destructor [OF vA_ok _ eight_facts(1) eight_run u] eight_facts(2) eight_short e(2) u by (auto simp: no_table_def)
qed

text \<open>C28: A copy constructed from a vector equals it, and so does a vector after it was assigned, whatever it held and however the two are
  divided into blocks.\<close>

theorem concurrent_vector_copies:
  assumes "all_ok A" "\<forall>x. cp x = Some x" "\<forall>d x. asg d x = Some x"
    and "ops_fit es ops []" "vec_run A es cp ops cvector_new = (v, None)"
    and "ops_fit es ops' []" "vec_run A es cp ops' cvector_new = (u, None)" "length (fold list_op ops []) < 2 ^ 64"
  shows "\<exists>w w'. internal_copy A cp v cvector_new = (w, None) \<and> vec_equal (=) v w \<and>
    internal_assign A cp asg v u = (w', None) \<and> vec_equal (=) v w'"
proof -
  let ?xs = "fold list_op ops []"
  obtain loc n where v: "vec_ok loc n v ?xs" using reached_ok [OF assms(1,2,4,5)] .
  obtain loc' n' where u: "vec_ok loc' n' u (fold list_op ops' [])" using reached_ok [OF assms(1,2,6,7)] .
  have cp: "copies_ok cp xs" "assigns_ok asg" for xs using assms(2,3) by (simp_all add: copies_ok_def assigns_ok_def)
  obtain l1 n1 w where w: "internal_copy A cp v cvector_new = (w, None)" "vec_ok l1 n1 w (map (\<lambda>x. the (cp x)) ?xs)"
    using internal_copy_ok [OF v cp(1) assms(1)] by blast
  obtain l2 n2 w' where w': "internal_assign A cp asg v u = (w', None)"
    "vec_ok l2 n2 w' (map (assigned cp asg (take (length ?xs) (fold list_op ops' [])) ?xs) [0..<length ?xs])"
    using internal_assign_ok [OF u v cp(1,2) assms(1,8)] by blast
  have "map (\<lambda>x. the (cp x)) ?xs = ?xs" using assms(2) by (simp add: map_idI)
  moreover have "map (assigned cp asg (take (length ?xs) (fold list_op ops' [])) ?xs) [0..<length ?xs] = ?xs"
    by (rule nth_equalityI) (use assms(2,3) in \<open>auto simp: assigned_def\<close>)
  ultimately show ?thesis using w w' vec_equal_ok [OF v] by metis
qed

theorem concurrent_vector_copies_witness:
  "\<exists>w. internal_assign vA Some (\<lambda>d x. Some x) some_vec cvector_new = (w, None) \<and> vec_equal (=) some_vec w"
  using concurrent_vector_copies [OF vA_ok _ _ some_ops_fit some_run, of "\<lambda>d x. Some x" "[]"] unfolding some_ops_list by auto




text \<open>C40: When the segment table cannot be extended, \<^verbatim>\<open>push_back\<close> throws bad_alloc but leaves no mark: the next \<^verbatim>\<open>push_back\<close>, with memory
  available again, waits for ever for a segment that its predecessor should have allocated.\<close>

theorem concurrent_vector_push_back_hangs:
  assumes "all_ok A" "\<forall>x. cp x = Some x" "ops_fit es ops []" "vec_run A es cp ops cvector_new = (v, None)"
    and "length (fold list_op ops []) = vseg_base pointers_per_short_table" "is_short v" "\<not> table_ok B"
  shows "\<exists>w. vec_push_back B v item = ((w, Some Bad_alloc), vec_size v) \<and> (\<forall>t. snd (fst (vec_push_back A w t)) = Some Spins)"
proof -
  obtain loc n where v: "vec_ok loc n v (fold list_op ops [])" using reached_ok [OF assms(1-4)] .
  have s: "vec_size v = length (fold list_op ops [])" using vec_size_ok [OF v] by simp
  have "table_ok A" using assms(1) by (simp add: all_ok_def)
  show ?thesis by (rule push_back_no_table [OF v assms(5-7), of item]) (use s \<open>table_ok A\<close> in auto)
qed

theorem concurrent_vector_push_back_hangs_witness:
  "\<exists>w. vec_push_back \<lparr>block_ok = \<lambda>_. True, table_ok = False\<rparr> eight_pushed (Some 1) = ((w, Some Bad_alloc), vec_size eight_pushed) \<and>
    snd (fst (vec_push_back vA w (Some 1))) = Some Spins"
proof -
  show ?thesis
    using concurrent_vector_push_back_hangs [OF vA_ok _ _ eight_run _ eight_short, of "\<lparr>block_ok = \<lambda>_. True, table_ok = False\<rparr>" "Some 1"]
      eight_facts by (auto simp: vseg_base_eq pointers_defs)
qed

end
