(* ===== verification/Spec2Isabelle.thy ===== *)
theory Spec2Isabelle
  imports Priority_Queue Aggregator Spin_Rw_Mutex Buffer_Node Limiter_Node Tagged_Buffer Lru_Cache Concurrent_Queue Parallel_Reduce Parallel_Sort Pipeline_Run Concurrent_Unordered Queuing_Mutex Vector_Properties
begin

text \<open>
  Threading Building Blocks: a verification development.

  The library (\<^verbatim>\<open>include/tbb\<close>, \<^verbatim>\<open>src/tbb\<close>) consists of concurrent containers, locks, the buffering nodes of
  the flow graph, parallel algorithms over a task scheduler, the scheduler itself and a memory
  allocator. The development models the containers, two locks, the flow graph's buffers and nodes and
  four of the algorithms. Each imported theory is one part and opens with what it holds; definitions
  keep the names of the functions they translate.

  \<^bold>\<open>Theories and sources.\<close>

  \<^item> \<^verbatim>\<open>Prelude\<close>: comparison functors, pointer chains, the contracts of a map and of a FIFO queue as locales,
    and lemmas on lists and rings the components share.
  \<^item> \<^verbatim>\<open>Aggregator\<close> (\<^verbatim>\<open>_aggregator_impl.h\<close>): threads hand operations to one handler at a time through a
    lock-free list. One rule of \<^verbatim>\<open>agg_step\<close> per atomic access. The handler of a batch is alone, an
    operation, blocking or not, is handled exactly once, and someone can always move.
  \<^item> \<^verbatim>\<open>Priority_Queue\<close> (\<^verbatim>\<open>concurrent_priority_queue.h\<close>): the heap in a vector with its mark, \<^verbatim>\<open>heapify\<close>, \<^verbatim>\<open>reheap\<close>,
    the two passes of the batch handler and the public operations. A batch has the effect of its
    operations one after the other on a multiset, also when \<^verbatim>\<open>push_back\<close> throws.
  \<^item> \<^verbatim>\<open>Spin_Rw_Mutex\<close> (\<^verbatim>\<open>spin_rw_mutex.h\<close>, \<^verbatim>\<open>spin_rw_mutex.cpp\<close>): the lock word at its 64 bits and a step for each
    access of \<^verbatim>\<open>internal_acquire_writer\<close> and its relatives.
  \<^item> \<^verbatim>\<open>Queuing_Mutex\<close> (\<^verbatim>\<open>queuing_mutex.h\<close>, \<^verbatim>\<open>queuing_mutex.cpp\<close>): the queue lock, one rule per access to its tail
    and links; it refines a lock that admits its arrivals first in, first out.
  \<^item> \<^verbatim>\<open>Item_Buffer\<close> (\<^verbatim>\<open>_flow_graph_item_buffer_impl.h\<close>), \<^verbatim>\<open>Buffer_Node\<close> and \<^verbatim>\<open>Limiter_Node\<close> (\<^verbatim>\<open>flow_graph.h\<close>,
    \<^verbatim>\<open>_flow_graph_impl.h\<close>), \<^verbatim>\<open>Tagged_Buffer\<close> (\<^verbatim>\<open>_flow_graph_tagged_buffer_impl.h\<close>): the growing ring and its
    reservable extension, the buffer, queue and sequencer nodes with their batch handler and forwarding
    task, the limiter with its counters and caches, and the hash table of tag-matching joins. The ring
    refines a FIFO queue and the table a map, through the locales of \<^verbatim>\<open>Prelude\<close>.
  \<^item> \<^verbatim>\<open>Lru_Cache\<close> (\<^verbatim>\<open>concurrent_lru_cache.h\<close>): the serial operations behind the aggregator and the clients that
    compute, wait and release.
  \<^item> \<^verbatim>\<open>Concurrent_Queue\<close> (\<^verbatim>\<open>_concurrent_queue_impl.h\<close>, namespace \<^verbatim>\<open>strict_ppl\<close>, and \<^verbatim>\<open>concurrent_queue.h\<close>): tickets, eight
    micro queues, pages, iterators and copying; first one call at a time, where the queue refines a FIFO
    queue, then threads that interleave, where every item is popped at most once.
  \<^item> \<^verbatim>\<open>Split_Order\<close> (\<^verbatim>\<open>tbb_machine.h\<close>, \<^verbatim>\<open>_concurrent_unordered_impl.h\<close>), \<^verbatim>\<open>Unordered_Table\<close> and
    \<^verbatim>\<open>Concurrent_Unordered\<close> (\<^verbatim>\<open>_concurrent_unordered_impl.h\<close>): the bit arithmetic of split-ordered lists on
    64-bit words; the list, the bucket table and each shared access of insertion, search, equal_range
    and bucket creation; and the safety of every interleaving of them.
  \<^item> \<^verbatim>\<open>Vector_Segments\<close>, \<^verbatim>\<open>Concurrent_Vector\<close>, \<^verbatim>\<open>Vector_Memory\<close>, \<^verbatim>\<open>Vector_Properties\<close> (\<^verbatim>\<open>concurrent_vector.h\<close>,
    \<^verbatim>\<open>concurrent_vector.cpp\<close>): the segment table and the blocks of memory, growing, copying, compacting and
    destroying, iterators, with failing allocations and constructors, one call at a time. Sequences of operations
    refine a list, \<^verbatim>\<open>resize(8)\<close> of a full short table being the exception; elements do not move; memory is
    neither lost nor freed twice; what a failed growth leaves behind, and which later calls succeed.
  \<^item> \<^verbatim>\<open>Blocked_Range\<close> (\<^verbatim>\<open>blocked_range.h\<close>, \<^verbatim>\<open>blocked_range2d.h\<close>, \<^verbatim>\<open>blocked_range3d.h\<close>) and \<^verbatim>\<open>Partitioner\<close>
    (\<^verbatim>\<open>partitioner.h\<close>, \<^verbatim>\<open>parallel_for.h\<close>): ranges of 64-bit values, the Range contract as a locale, the simple,
    auto and affinity partitioners with their range pool, and the tasks of a loop under any schedule.
  \<^item> \<^verbatim>\<open>Reduce_Tasks\<close> and \<^verbatim>\<open>Parallel_Reduce\<close> (\<^verbatim>\<open>parallel_reduce.h\<close>): bodies that accumulate, split when a right
    child starts early and joined by finish tasks; the result under any schedule, and the deterministic
    variant, whose result does not depend on the schedule for any body.
  \<^item> \<^verbatim>\<open>Parallel_Sort\<close> (\<^verbatim>\<open>parallel_sort.h\<close>): the quicksort range, the pretest and their composition.
  \<^item> \<^verbatim>\<open>Pipeline_Buffer\<close>, \<^verbatim>\<open>Pipeline_Flow\<close>, \<^verbatim>\<open>Pipeline\<close>, \<^verbatim>\<open>Pipeline_Run\<close> (\<^verbatim>\<open>pipeline.h\<close>, \<^verbatim>\<open>pipeline.cpp\<close>): the filter
    modes and the reordering input buffer; an abstract machine of items moving through filters; the
    stage tasks and their simulation by that machine; the number of live tokens and termination.

  \<^bold>\<open>How the parts meet.\<close> The priority queue, the flow graph nodes and the LRU cache hand their operations to
  the aggregator, whose exclusion and exactly-once properties justify taking a batch as one step. The
  nodes rest on the item buffer, the sort and the loops on the Range contract, the pipeline on the
  input buffer through the locale \<^verbatim>\<open>reorder_buffer\<close>. The scheduler's part in all of them is the same: a set
  of tasks any of which may run next, so the properties hold for every schedule.

  \<^bold>\<open>Kinds of properties.\<close> Invariants of every reachable state of a step relation (exclusion, tickets, order of
  the list, number of tokens); refinements of a FIFO queue, a map, a multiset or an abstract machine;
  progress and termination (a thread can move, a measure decreases, enough steps end the run); round
  trips of representations; and, labelled as error properties, concrete runs in which the code does not
  do what its documentation says.

  \<^bold>\<open>Numbers and parameters.\<close> Words are kept at 64 bits where the code computes with bits or may wrap in use:
  the lock word, range bounds, order keys, bucket counts, the limiter's and ring's differences. Positions,
  tickets and tokens that would need \<^verbatim>\<open>2^64\<close> operations to wrap are naturals. Floating-point results
  (proportional splits, the load factor test) are parameters, as are user functors, the hash functions,
  \<^verbatim>\<open>std::sort\<close>, the answers of neighbouring nodes and whether an allocation fails. Loops are total
  functions with a measure, or take a number of iterations with a lemma that it is enough; pointer walks
  take the number of allocated nodes, which bounds the length of a list without cycles. Atomic accesses
  are sequentially consistent.

  \<^bold>\<open>Not modelled.\<close> The task scheduler and its arenas, the allocator, the locks that wrap the operating
  system, condition variables and threads rest on fences, thread-local state, raw memory or calls outside
  the sources. \<^verbatim>\<open>concurrent_hash_map\<close>, \<^verbatim>\<open>queuing_rw_mutex\<close>, \<^verbatim>\<open>reader_writer_lock\<close>, the interleaving of growing threads in a vector, join and
  function nodes, the bounded queue and the unsafe operations of the unordered containers
  are open for extension. Thread-bound filters of a pipeline, exceptions of filters and cancellation
  inside a pipeline are left out.
\<close>

end
